(* ===== verification/Prelude.thy ===== *)
theory Prelude
  imports Main "HOL-Library.Word" "HOL-Library.Monad_Syntax"
begin

text \<open>
  Prelude: the vocabulary the component theories share.

  \<^item> names for the machine integer and byte-buffer types of the firmware;
  \<^item> the slice operations of Rust (indexing, sub-slices, \<^verbatim>\<open>copy_from_slice\<close>) as functions into
    \<open>option\<close>, where \<open>None\<close> is a panic (an index out of range); definitions thread them with the
    do-notation of the option monad, so a panic anywhere is a panic of the whole function;
  \<^item> the little- and big-endian conversions (\<^verbatim>\<open>to_le_bytes\<close>, \<^verbatim>\<open>from_le_bytes\<close> and so on);
  \<^item> the fixed-capacity vector push of \<^verbatim>\<open>heapless::Vec\<close>, whose documented contract is that it
    appends while there is room and hands the element back otherwise.
\<close>

unbundle bit_operations_syntax

section \<open>Types\<close>

type_synonym u8 = "8 word"
type_synonym u16 = "16 word"
type_synonym u32 = "32 word"
type_synonym u64 = "64 word"
type_synonym bytes = "u8 list"

text \<open>Rules for buffers, kept together so that component proofs can name the whole collection.\<close>

named_theorems buf_simps \<open>evaluation of slice operations whose indices are in range\<close>
named_theorems fill_simps \<open>adjacent writes that fill a buffer from the front\<close>
named_theorems byte_simps \<open>little- and big-endian conversions\<close>
named_theorems no_panic \<open>operations that return a value for well-formed arguments\<close>

section \<open>Slices, with panics as None\<close>

text \<open>\<^verbatim>\<open>xs[i]\<close> as a value, \<^verbatim>\<open>xs[i] = v\<close>, \<^verbatim>\<open>xs[a..b]\<close> and \<^verbatim>\<open>xs[a..b].copy_from_slice(ys)\<close>.\<close>

definition idx :: "'a list \<Rightarrow> nat \<Rightarrow> 'a option" where
  "idx xs i = (if i < length xs then Some (xs ! i) else None)"

definition put :: "'a list \<Rightarrow> nat \<Rightarrow> 'a \<Rightarrow> 'a list option" where
  "put xs i v = (if i < length xs then Some (xs[i := v]) else None)"

definition slice :: "'a list \<Rightarrow> nat \<Rightarrow> nat \<Rightarrow> 'a list option" where
  "slice xs a b = (if a \<le> b \<and> b \<le> length xs then Some (take (b - a) (drop a xs)) else None)"

definition copy_at :: "'a list \<Rightarrow> nat \<Rightarrow> nat \<Rightarrow> 'a list \<Rightarrow> 'a list option" where
  "copy_at xs a b ys =
     (if a \<le> b \<and> b \<le> length xs \<and> length ys = b - a
      then Some (take a xs @ ys @ drop b xs) else None)"

text \<open>\<^verbatim>\<open>xs.get(i).copied().unwrap_or(d)\<close>; \<^verbatim>\<open>first()\<close> is \<^verbatim>\<open>get(0)\<close>.\<close>

definition get_or :: "'a \<Rightarrow> 'a list \<Rightarrow> nat \<Rightarrow> 'a" where
  "get_or d xs i = (if i < length xs then xs ! i else d)"

text \<open>\<^verbatim>\<open>heapless::Vec::push\<close> with capacity \<open>cap\<close>: \<open>None\<close> is the error return. \<open>push_drop\<close> is the
  idiom \<^verbatim>\<open>let _ = v.push(x)\<close>, which drops the element when the vector is full.\<close>

definition vec_push :: "nat \<Rightarrow> 'a list \<Rightarrow> 'a \<Rightarrow> 'a list option" where
  "vec_push cap xs x = (if length xs < cap then Some (xs @ [x]) else None)"

definition push_drop :: "nat \<Rightarrow> 'a list \<Rightarrow> 'a \<Rightarrow> 'a list" where
  "push_drop cap xs x = (case vec_push cap xs x of Some ys \<Rightarrow> ys | None \<Rightarrow> xs)"

lemma idx_in [buf_simps]: "i < length xs \<Longrightarrow> idx xs i = Some (xs ! i)"
  by (simp add: idx_def)

lemma idx_eq_Some: "idx xs i = Some x \<longleftrightarrow> i < length xs \<and> xs ! i = x"
  by (simp add: idx_def)

lemma put_in [buf_simps]: "i < length xs \<Longrightarrow> put xs i v = Some (xs[i := v])"
  by (simp add: put_def)

lemma put_eq_Some: "put xs i v = Some ys \<longleftrightarrow> i < length xs \<and> ys = xs[i := v]"
  by (auto simp: put_def)

lemma slice_in [buf_simps]:
  "a \<le> b \<Longrightarrow> b \<le> length xs \<Longrightarrow> slice xs a b = Some (take (b - a) (drop a xs))"
  by (simp add: slice_def)

lemma slice_eq_Some:
  "slice xs a b = Some ys \<longleftrightarrow> a \<le> b \<and> b \<le> length xs \<and> ys = take (b - a) (drop a xs)"
  by (auto simp: slice_def)

lemma slice_0 [simp]: "n \<le> length xs \<Longrightarrow> slice xs 0 n = Some (take n xs)"
  by (simp add: slice_def)

lemma slice_length: "slice xs a b = Some ys \<Longrightarrow> length ys = b - a"
  by (auto simp: slice_eq_Some)

lemma copy_at_in [buf_simps]:
  "a \<le> b \<Longrightarrow> b \<le> length xs \<Longrightarrow> length ys = b - a \<Longrightarrow>
     copy_at xs a b ys = Some (take a xs @ ys @ drop b xs)"
  by (simp add: copy_at_def)

lemma copy_at_eq_Some:
  "copy_at xs a b ys = Some zs \<longleftrightarrow>
     a \<le> b \<and> b \<le> length xs \<and> length ys = b - a \<and> zs = take a xs @ ys @ drop b xs"
  by (auto simp: copy_at_def)

lemma copy_at_length: "copy_at xs a b ys = Some zs \<Longrightarrow> length zs = length xs"
  by (auto simp: copy_at_eq_Some)

lemma put_length: "put xs i v = Some ys \<Longrightarrow> length ys = length xs"
  by (auto simp: put_eq_Some)

text \<open>Writing over a known region of a buffer that is given as a concatenation.\<close>

lemma copy_at_mid:
  "length pre = a \<Longrightarrow> length old = length new \<Longrightarrow> b = a + length new \<Longrightarrow>
     copy_at (pre @ old @ post) a b new = Some (pre @ new @ post)"
  by (simp add: copy_at_def)

lemma put_mid: "length pre = i \<Longrightarrow> put (pre @ old # post) i v = Some (pre @ v # post)"
  by (auto simp: put_def list_update_append)

lemma idx_mid: "length pre = i \<Longrightarrow> idx (pre @ x # post) i = Some x"
  by (auto simp: idx_def nth_append)

lemma get_or_first [simp]: "get_or d (x # xs) 0 = x" "get_or d [] i = d"
  by (simp_all add: get_or_def)

lemma vec_push_eq_Some: "vec_push cap xs x = Some ys \<longleftrightarrow> length xs < cap \<and> ys = xs @ [x]"
  by (auto simp: vec_push_def)

lemma push_drop_length: "length xs \<le> cap \<Longrightarrow> length (push_drop cap xs x) \<le> cap"
  by (simp add: push_drop_def vec_push_def)

lemma push_drop_room: "length xs < cap \<Longrightarrow> push_drop cap xs x = xs @ [x]"
  by (simp add: push_drop_def vec_push_def)

lemma push_drop_full: "cap \<le> length xs \<Longrightarrow> push_drop cap xs x = xs"
  by (simp add: push_drop_def vec_push_def)

text \<open>
  Filling a buffer from the front. \<open>filled pre rest\<close> is the buffer whose first bytes \<open>pre\<close> are
  written and whose bytes \<open>rest\<close> are still the old ones; kept opaque, it lets the simplifier run a
  sequence of adjacent writes.
\<close>

definition filled :: "'a list \<Rightarrow> 'a list \<Rightarrow> 'a list" where
  "filled pre rest = pre @ rest"

lemma filled_start: "buf = filled [] buf"
  by (simp add: filled_def)

lemma length_filled [simp]: "length (filled pre rest) = length pre + length rest"
  by (simp add: filled_def)

lemma copy_at_fill [fill_simps]:
  "length pre = a \<Longrightarrow> b = a + length new \<Longrightarrow> length new \<le> length rest \<Longrightarrow>
     copy_at (filled pre rest) a b new = Some (filled (pre @ new) (drop (length new) rest))"
  by (simp add: copy_at_def filled_def)

lemma put_fill [fill_simps]:
  "length pre = i \<Longrightarrow> rest \<noteq> [] \<Longrightarrow>
     put (filled pre rest) i v = Some (filled (pre @ [v]) (drop 1 rest))"
  by (cases rest) (auto simp: put_def filled_def list_update_append)

section \<open>Byte order\<close>

definition le16 :: "u16 \<Rightarrow> bytes" where
  "le16 w = [ucast w, ucast (drop_bit 8 w)]"

definition le32 :: "u32 \<Rightarrow> bytes" where
  "le32 w = [ucast w, ucast (drop_bit 8 w), ucast (drop_bit 16 w), ucast (drop_bit 24 w)]"

definition le64 :: "u64 \<Rightarrow> bytes" where
  "le64 w = [ucast w, ucast (drop_bit 8 w), ucast (drop_bit 16 w), ucast (drop_bit 24 w),
             ucast (drop_bit 32 w), ucast (drop_bit 40 w), ucast (drop_bit 48 w),
             ucast (drop_bit 56 w)]"

definition be16 :: "u16 \<Rightarrow> bytes" where
  "be16 w = [ucast (drop_bit 8 w), ucast w]"

definition of_le16 :: "u8 \<Rightarrow> u8 \<Rightarrow> u16" where
  "of_le16 a b = ucast a OR push_bit 8 (ucast b)"

definition of_le32 :: "u8 \<Rightarrow> u8 \<Rightarrow> u8 \<Rightarrow> u8 \<Rightarrow> u32" where
  "of_le32 a b c d =
     ucast a OR push_bit 8 (ucast b) OR push_bit 16 (ucast c) OR push_bit 24 (ucast d)"

definition of_le64 :: "u8 \<Rightarrow> u8 \<Rightarrow> u8 \<Rightarrow> u8 \<Rightarrow> u8 \<Rightarrow> u8 \<Rightarrow> u8 \<Rightarrow> u8 \<Rightarrow> u64" where
  "of_le64 a b c d e f g h =
     ucast a OR push_bit 8 (ucast b) OR push_bit 16 (ucast c) OR push_bit 24 (ucast d) OR
     push_bit 32 (ucast e) OR push_bit 40 (ucast f) OR push_bit 48 (ucast g) OR
     push_bit 56 (ucast h)"

definition of_be16 :: "u8 \<Rightarrow> u8 \<Rightarrow> u16" where
  "of_be16 a b = of_le16 b a"

lemma length_le16 [simp]: "length (le16 w) = 2"
  by (simp add: le16_def)

lemma length_le32 [simp]: "length (le32 w) = 4"
  by (simp add: le32_def)

lemma length_le64 [simp]: "length (le64 w) = 8"
  by (simp add: le64_def)

lemma length_be16 [simp]: "length (be16 w) = 2"
  by (simp add: be16_def)

lemma of_le16_bytes [simp, byte_simps]: "of_le16 (ucast w) (ucast (drop_bit 8 w)) = w"
  by (rule bit_word_eqI) (auto simp: of_le16_def bit_simps)

lemma of_le16_le16 [byte_simps]: "of_le16 (le16 w ! 0) (le16 w ! 1) = w"
  by (simp add: le16_def)

lemma byte_step:
  fixes w :: "'a::len word"
  shows "push_bit n (take_bit 8 (drop_bit n w)) OR push_bit (n + 8) (drop_bit (n + 8) w)
       = push_bit n (drop_bit n w)"
proof (rule bit_word_eqI)
  fix k assume "k < LENGTH('a)"
  then show "bit (push_bit n (take_bit 8 (drop_bit n w)) OR push_bit (n + 8) (drop_bit (n + 8) w)) k
           = bit (push_bit n (drop_bit n w)) k"
    by (cases "n + 8 \<le> k") (auto simp: bit_simps)
qed

lemma byte_first:
  fixes w :: "'a::len word"
  shows "take_bit 8 w OR push_bit 8 (drop_bit 8 w) = w"
  using byte_step [of 0 w] by simp

lemma ucast_byte:
  fixes w :: "'a::len word"
  assumes "8 \<le> LENGTH('a)"
  shows "ucast (ucast w :: u8) = take_bit 8 w"
  using assms by (intro bit_word_eqI) (auto simp: bit_simps)

lemma byte_last:
  fixes w :: "'a::len word"
  assumes "LENGTH('a) = n + 8"
  shows "take_bit 8 (drop_bit n w) = drop_bit n w"
  using assms by (intro bit_word_eqI) (auto simp: bit_simps dest: bit_imp_le_length)

lemma of_le32_bytes [simp, byte_simps]:
  "of_le32 (ucast w) (ucast (drop_bit 8 w)) (ucast (drop_bit 16 w)) (ucast (drop_bit 24 w)) = w"
  using byte_step [of 16 w] byte_step [of 8 w] byte_first [of w]
  by (simp add: of_le32_def ucast_byte or.assoc byte_last)

lemma of_le64_bytes [simp, byte_simps]:
  "of_le64 (ucast w) (ucast (drop_bit 8 w)) (ucast (drop_bit 16 w)) (ucast (drop_bit 24 w))
     (ucast (drop_bit 32 w)) (ucast (drop_bit 40 w)) (ucast (drop_bit 48 w))
     (ucast (drop_bit 56 w)) = w"
  using byte_step [of 48 w] byte_step [of 40 w] byte_step [of 32 w] byte_step [of 24 w]
    byte_step [of 16 w] byte_step [of 8 w] byte_first [of w]
  by (simp add: of_le64_def ucast_byte or.assoc byte_last)

lemma of_be16_bytes [simp, byte_simps]: "of_be16 (ucast (drop_bit 8 w)) (ucast w) = w"
  by (simp add: of_be16_def)

lemma le16_of_le16 [byte_simps]: "le16 (of_le16 a b) = [a, b]"
proof -
  have "ucast (of_le16 a b) = a"
    by (rule bit_word_eqI) (auto simp: of_le16_def bit_simps)
  moreover have "ucast (drop_bit 8 (of_le16 a b)) = b"
    using bit_imp_le_length [of a] by (intro bit_word_eqI) (fastforce simp: of_le16_def bit_simps)
  ultimately show ?thesis by (simp add: le16_def)
qed

lemma le16_inject [simp]: "le16 v = le16 w \<longleftrightarrow> v = w"
  by (metis of_le16_le16)

text \<open>A length that fits a field survives the trip through the machine word.\<close>

lemma unat_of_nat_16: "n < 65536 \<Longrightarrow> unat (of_nat n :: u16) = n"
  by (simp add: unat_of_nat)

lemma unat_inc:
  fixes a k :: "'a::len word"
  assumes "a < k"
  shows "unat (a + 1) = unat a + 1"
proof -
  have "unat a + 1 \<le> unat k" using assms by (simp add: word_less_nat_alt)
  also have "\<dots> < 2 ^ LENGTH('a)" by (rule unsigned_less)
  finally show ?thesis by (simp add: unat_word_ariths)
qed

lemma unat_of_nat_8: "n < 256 \<Longrightarrow> unat (of_nat n :: u8) = n"
  by (simp add: unat_of_nat)

lemma unat_ucast_up:
  fixes w :: "'a::len word"
  assumes "LENGTH('a) \<le> LENGTH('b::len)"
  shows "unat (ucast w :: 'b word) = unat w"
proof -
  have "unat w < 2 ^ LENGTH('a)" by (rule unsigned_less)
  also have "\<dots> \<le> 2 ^ LENGTH('b)" using assms by simp
  finally show ?thesis by (simp add: unsigned_ucast_eq take_bit_nat_eq_self)
qed

lemma take_bit_word_small:
  fixes w :: "'a::len word"
  assumes "unat w < 2 ^ n"
  shows "take_bit n w = w"
proof (rule unsigned_word_eqI)
  show "unat (take_bit n w) = unat w"
    using assms by (simp add: unsigned_take_bit_eq take_bit_nat_eq_self)
qed

lemma and_mask_11:
  fixes w :: u16
  assumes "unat w < 2048"
  shows "w AND 0x07FF = w"
proof -
  have "w AND 0x07FF = take_bit 11 w"
    by (simp add: take_bit_eq_mask mask_eq_exp_minus_1)
  then show ?thesis using assms by (simp add: take_bit_word_small)
qed

end
