(* ===== verification/Ecrt.thy ===== *)
theory Ecrt
  imports Prelude
begin

text \<open>
  The public types and the constants of the master: \<^verbatim>\<open>src/ethercat/ecrt.rs\<close> (errors, directions,
  little-endian accessors) and \<^verbatim>\<open>src/ethercat/globals.rs\<close> (sizes, the ESC register map, SII,
  mailbox, sync-manager and AL-state constants). A module-qualified Rust constant
  \<^verbatim>\<open>reg::AL_STATUS\<close> is \<open>reg_AL_STATUS\<close> here.
\<close>

unbundle bit_operations_syntax

section \<open>Errors and results\<close>

datatype ec_error =
    Timeout
  | WorkingCounter
  | FrameTooShort
  | SiiError
  | SiiTimeout
  | TooManySlaves
  | Transport
  | NoSuchSlave
  | CoeUnsupported
  | MailboxTimeout
  | MailboxProtocol
  | StateChange u16
  | SdoAbort u32

text \<open>\<^verbatim>\<open>Result<T, EcError>\<close>: \<open>Inl\<close> is \<^verbatim>\<open>Err\<close>, \<open>Inr\<close> is \<^verbatim>\<open>Ok\<close>.\<close>

type_synonym 'a res = "ec_error + 'a"

datatype ec_direction = Output | Input

record ec_pdo_entry_info =
  pe_index :: u16
  pe_subindex :: u8
  pe_bit_length :: u8

section \<open>Little-endian access helpers\<close>

definition read_u8 :: "bytes \<Rightarrow> u8 option" where
  "read_u8 buf = idx buf 0"

definition read_u16_le :: "bytes \<Rightarrow> u16 option" where
  "read_u16_le buf = do { a \<leftarrow> idx buf 0; b \<leftarrow> idx buf 1; Some (of_le16 a b) }"

definition read_u32_le :: "bytes \<Rightarrow> u32 option" where
  "read_u32_le buf = do {
     a \<leftarrow> idx buf 0; b \<leftarrow> idx buf 1; c \<leftarrow> idx buf 2; d \<leftarrow> idx buf 3;
     Some (of_le32 a b c d) }"

definition read_u64_le :: "bytes \<Rightarrow> u64 option" where
  "read_u64_le buf = do {
     a \<leftarrow> idx buf 0; b \<leftarrow> idx buf 1; c \<leftarrow> idx buf 2; d \<leftarrow> idx buf 3;
     e \<leftarrow> idx buf 4; f \<leftarrow> idx buf 5; g \<leftarrow> idx buf 6; h \<leftarrow> idx buf 7;
     Some (of_le64 a b c d e f g h) }"

definition write_u8 :: "bytes \<Rightarrow> u8 \<Rightarrow> bytes option" where
  "write_u8 buf v = put buf 0 v"

definition write_u16_le :: "bytes \<Rightarrow> u16 \<Rightarrow> bytes option" where
  "write_u16_le buf v = copy_at buf 0 2 (le16 v)"

definition write_u32_le :: "bytes \<Rightarrow> u32 \<Rightarrow> bytes option" where
  "write_u32_le buf v = copy_at buf 0 4 (le32 v)"

definition write_u64_le :: "bytes \<Rightarrow> u64 \<Rightarrow> bytes option" where
  "write_u64_le buf v = copy_at buf 0 8 (le64 v)"

text \<open>
  The helpers are called on sub-slices, \<^verbatim>\<open>write_u16_le(&mut page[4..6], v)\<close>: the borrowed window
  is taken, written and is part of the buffer again.
\<close>

definition in_window :: "bytes \<Rightarrow> nat \<Rightarrow> nat \<Rightarrow> (bytes \<Rightarrow> bytes option) \<Rightarrow> bytes option" where
  "in_window buf a b f = do { w \<leftarrow> slice buf a b; w' \<leftarrow> f w; copy_at buf a b w' }"

lemma read_write_u16: "2 \<le> length buf \<Longrightarrow> Option.bind (write_u16_le buf v) read_u16_le = Some v"
  by (simp add: write_u16_le_def read_u16_le_def copy_at_def idx_def le16_def)

lemma read_write_u32: "4 \<le> length buf \<Longrightarrow> Option.bind (write_u32_le buf v) read_u32_le = Some v"
  by (simp add: write_u32_le_def read_u32_le_def copy_at_def idx_def le32_def)

lemma read_write_u64: "8 \<le> length buf \<Longrightarrow> Option.bind (write_u64_le buf v) read_u64_le = Some v"
  by (simp add: write_u64_le_def read_u64_le_def copy_at_def idx_def le64_def)

lemma read_u16_le_total [no_panic]: "2 \<le> length buf \<Longrightarrow> \<exists>v. read_u16_le buf = Some v"
  by (auto simp: read_u16_le_def idx_def)

lemma read_u32_le_total [no_panic]: "4 \<le> length buf \<Longrightarrow> \<exists>v. read_u32_le buf = Some v"
  by (auto simp: read_u32_le_def idx_def)

lemma read_u64_le_total [no_panic]: "8 \<le> length buf \<Longrightarrow> \<exists>v. read_u64_le buf = Some v"
  by (auto simp: read_u64_le_def idx_def)

section \<open>Frame and capacity constants\<close>

definition ETHERCAT_ETHERTYPE :: u16 where "ETHERCAT_ETHERTYPE = 0x88A4"
definition EC_FRAME_HEADER_SIZE :: nat where [simp]: "EC_FRAME_HEADER_SIZE = 2"
definition EC_DATAGRAM_HEADER_SIZE :: nat where [simp]: "EC_DATAGRAM_HEADER_SIZE = 10"
definition EC_DATAGRAM_FOOTER_SIZE :: nat where [simp]: "EC_DATAGRAM_FOOTER_SIZE = 2"
definition ETH_HEADER_LEN :: nat where [simp]: "ETH_HEADER_LEN = 14"
definition EC_MIN_ECAT_FRAME :: nat where [simp]: "EC_MIN_ECAT_FRAME = 46"
definition EC_MAX_SLAVES :: nat where [simp]: "EC_MAX_SLAVES = 32"
definition EC_MAX_PDO_ENTRIES :: nat where [simp]: "EC_MAX_PDO_ENTRIES = 32"
definition EC_SYNC_PAGE_SIZE :: u16 where [simp]: "EC_SYNC_PAGE_SIZE = 8"
definition EC_SCAN_FRAME_BUF :: nat where [simp]: "EC_SCAN_FRAME_BUF = 128"

section \<open>ESC registers\<close>

definition reg_DL_INFO :: u16 where "reg_DL_INFO = 0x0000"
definition reg_STATION_ADDR :: u16 where "reg_STATION_ADDR = 0x0010"
definition reg_AL_CONTROL :: u16 where "reg_AL_CONTROL = 0x0120"
definition reg_AL_STATUS :: u16 where "reg_AL_STATUS = 0x0130"
definition reg_AL_STATUS_CODE :: u16 where "reg_AL_STATUS_CODE = 0x0134"
definition reg_SII_CONTROL :: u16 where "reg_SII_CONTROL = 0x0502"
definition reg_SM0 :: u16 where "reg_SM0 = 0x0800"
definition reg_SM1 :: u16 where "reg_SM1 = 0x0808"
definition reg_SM1_STATUS :: u16 where "reg_SM1_STATUS = 0x080D"
definition reg_DC_RECV_TIME :: u16 where "reg_DC_RECV_TIME = 0x0900"
definition reg_DC_SYS_TIME :: u16 where "reg_DC_SYS_TIME = 0x0910"
definition reg_DC_SYS_TIME_OFFSET :: u16 where "reg_DC_SYS_TIME_OFFSET = 0x0920"
definition reg_DC_SYS_TIME_DELAY :: u16 where "reg_DC_SYS_TIME_DELAY = 0x0928"
definition reg_DC_SYS_TIME_DIFF :: u16 where "reg_DC_SYS_TIME_DIFF = 0x092C"
definition reg_DC_ACTIVATION :: u16 where "reg_DC_ACTIVATION = 0x0980"
definition reg_DC_CYCLE_START :: u16 where "reg_DC_CYCLE_START = 0x0990"
definition reg_DC_SYNC0_CYCLE :: u16 where "reg_DC_SYNC0_CYCLE = 0x09A0"
definition reg_FMMU_BASE :: u16 where "reg_FMMU_BASE = 0x0600"
definition reg_WD_DIVIDER :: u16 where "reg_WD_DIVIDER = 0x0400"
definition reg_WD_PDATA :: u16 where "reg_WD_PDATA = 0x0420"

section \<open>SII, mailbox, sync-manager, FMMU and CoE constants\<close>

definition sii_VENDOR_ID :: u16 where "sii_VENDOR_ID = 0x0008"
definition sii_PRODUCT_CODE :: u16 where "sii_PRODUCT_CODE = 0x000A"
definition sii_REVISION :: u16 where "sii_REVISION = 0x000C"
definition sii_STD_RX_MBOX :: u16 where "sii_STD_RX_MBOX = 0x0018"
definition sii_STD_TX_MBOX :: u16 where "sii_STD_TX_MBOX = 0x001A"
definition sii_MBOX_PROTOCOLS :: u16 where "sii_MBOX_PROTOCOLS = 0x001C"

definition mbox_HEADER_SIZE :: nat where [simp]: "mbox_HEADER_SIZE = 6"
definition mbox_TYPE_COE :: u8 where [simp]: "mbox_TYPE_COE = 0x03"
definition mbox_PROTO_COE :: u16 where [simp]: "mbox_PROTO_COE = 0x0004"
definition mbox_COE_SDO_REQUEST :: u16 where [simp]: "mbox_COE_SDO_REQUEST = 0x02"
definition mbox_SM_STATUS_MBOX_FULL :: u8 where [simp]: "mbox_SM_STATUS_MBOX_FULL = 0x08"

definition sm_CONTROL_MBOX_WRITE :: u8 where "sm_CONTROL_MBOX_WRITE = 0x26"
definition sm_CONTROL_MBOX_READ :: u8 where "sm_CONTROL_MBOX_READ = 0x22"
definition sm_ENABLE :: u8 where "sm_ENABLE = 0x01"

definition fmmu_PAGE_SIZE :: nat where [simp]: "fmmu_PAGE_SIZE = 16"
definition fmmu_DIR_INPUT :: u8 where "fmmu_DIR_INPUT = 0x01"
definition fmmu_DIR_OUTPUT :: u8 where "fmmu_DIR_OUTPUT = 0x02"

text \<open>\<^verbatim>\<open>coe::pdo_assign\<close>: the assignment object of sync manager \<open>n\<close>.\<close>

definition pdo_assign :: "u8 \<Rightarrow> u16" where
  "pdo_assign sync_index = 0x1C10 + ucast sync_index"

definition sii_ctrl_ADDR_MODE_TWO_OCTET :: u8 where "sii_ctrl_ADDR_MODE_TWO_OCTET = 0x80"
definition sii_ctrl_CMD_READ :: u8 where "sii_ctrl_CMD_READ = 0x01"
definition sii_ctrl_STATUS_ERROR :: u8 where "sii_ctrl_STATUS_ERROR = 0x20"
definition sii_ctrl_STATUS_BUSY :: u8 where "sii_ctrl_STATUS_BUSY = 0x81"

section \<open>Application-layer states\<close>

definition al_INIT :: u8 where [simp]: "al_INIT = 0x01"
definition al_PREOP :: u8 where [simp]: "al_PREOP = 0x02"
definition al_BOOT :: u8 where [simp]: "al_BOOT = 0x03"
definition al_SAFEOP :: u8 where [simp]: "al_SAFEOP = 0x04"
definition al_OP :: u8 where [simp]: "al_OP = 0x08"
definition al_ERROR :: u8 where [simp]: "al_ERROR = 0x10"
definition al_ACK_ERROR :: u8 where [simp]: "al_ACK_ERROR = 0x10"
definition al_MASK :: u8 where [simp]: "al_MASK = 0x0F"

section \<open>Datagram index allocation\<close>

text \<open>
  \<^verbatim>\<open>alloc_index\<close>, the same private function in \<^verbatim>\<open>fsm_change.rs\<close>, \<^verbatim>\<open>fsm_coe.rs\<close>, \<^verbatim>\<open>fsm_scan.rs\<close>,
  \<^verbatim>\<open>fsm_slave_config.rs\<close>, \<^verbatim>\<open>dc.rs\<close>, \<^verbatim>\<open>cyclic.rs\<close> and \<^verbatim>\<open>master.rs\<close>: the current index, and the
  index advanced with wrap-around.
\<close>

definition alloc_index :: "u8 \<Rightarrow> u8 \<times> u8" where
  "alloc_index i = (i, i + 1)"

end
