(* ===== verification/Datagram.thy ===== *)
theory Datagram
  imports Ecrt
begin

text \<open>
  The datagram codec, \<^verbatim>\<open>src/ethercat/datagram.rs\<close>: \<open>build\<close> writes a one-datagram EtherCAT frame
  into a buffer, \<open>append\<close> adds a datagram to a frame, \<open>parse\<close> and \<open>parse_at\<close> read datagrams back.
  The abstract view of a frame is a list of datagrams (\<open>dgram\<close>); \<open>frame_bytes\<close> is its wire image.
  The lemmas show that \<open>build\<close> writes the image of a singleton list, that \<open>append\<close> adds one
  datagram at the end of the list, and that \<open>parse_at\<close> walks the image datagram by datagram.
\<close>

unbundle bit_operations_syntax

section \<open>The code\<close>

datatype command =
    Aprd | Apwr | Aprw | Fprd | Fpwr | Fprw | Brd | Bwr | Brw | Lrd | Lwr | Lrw | Armw | Frmw

text \<open>\<^verbatim>\<open>cmd as u8\<close>: the discriminants of the enum.\<close>

fun command_code :: "command \<Rightarrow> u8" where
  "command_code Aprd = 0x01"
| "command_code Apwr = 0x02"
| "command_code Aprw = 0x03"
| "command_code Fprd = 0x04"
| "command_code Fpwr = 0x05"
| "command_code Fprw = 0x06"
| "command_code Brd = 0x07"
| "command_code Bwr = 0x08"
| "command_code Brw = 0x09"
| "command_code Lrd = 0x0A"
| "command_code Lwr = 0x0B"
| "command_code Lrw = 0x0C"
| "command_code Armw = 0x0D"
| "command_code Frmw = 0x0E"

record reply =
  rp_command :: u8
  rp_index :: u8
  rp_wkc :: u16
  rp_data :: bytes

definition autoinc_adp :: "u16 \<Rightarrow> u16" where
  "autoinc_adp ring_pos = 0 - ring_pos"

text \<open>The padding loop \<^verbatim>\<open>while total < EC_MIN_ECAT_FRAME { buf[total] = 0; total += 1 }\<close>.\<close>

function pad_frame :: "bytes \<Rightarrow> nat \<Rightarrow> (bytes \<times> nat) option" where
  "pad_frame buf tot =
     (if tot < EC_MIN_ECAT_FRAME
      then Option.bind (put buf tot 0) (\<lambda>buf. pad_frame buf (tot + 1))
      else Some (buf, tot))"
  by pat_completeness auto
termination
  by (relation "measure (\<lambda>(buf, tot). EC_MIN_ECAT_FRAME - tot)") auto

declare pad_frame.simps [simp del]

definition build ::
  "bytes \<Rightarrow> u8 \<Rightarrow> command \<Rightarrow> u16 \<Rightarrow> u16 \<Rightarrow> bytes \<Rightarrow> (bytes \<times> nat) option" where
  "build buf ix cmd adp ado payload =
     (let plen = length payload;
          datagram_len = EC_DATAGRAM_HEADER_SIZE + plen + EC_DATAGRAM_FOOTER_SIZE;
          frame_hdr = (of_nat datagram_len AND 0x07FF) OR (0x1000 :: u16)
      in do {
        buf \<leftarrow> copy_at buf 0 2 (le16 frame_hdr);
        buf \<leftarrow> put buf 2 (command_code cmd);
        buf \<leftarrow> put buf 3 ix;
        buf \<leftarrow> copy_at buf 4 6 (le16 adp);
        buf \<leftarrow> copy_at buf 6 8 (le16 ado);
        buf \<leftarrow> copy_at buf 8 10 (le16 (of_nat plen AND 0x07FF));
        buf \<leftarrow> copy_at buf 10 12 (le16 0);
        buf \<leftarrow> copy_at buf 12 (12 + plen) payload;
        buf \<leftarrow> copy_at buf (12 + plen) (14 + plen) (le16 0);
        pad_frame buf (EC_FRAME_HEADER_SIZE + datagram_len) })"

text \<open>
  The loop of \<open>append\<close> that finds the last datagram and sets its "more datagrams follow" bit.
  It returns the buffer and the offset behind the last datagram.
\<close>

function append_walk :: "bytes \<Rightarrow> nat \<Rightarrow> nat \<Rightarrow> (bytes \<times> nat) option" where
  "append_walk buf region_end off =
     (let len_off = off + 6 in
      Option.bind (idx buf len_off) (\<lambda>lo. Option.bind (idx buf (len_off + 1)) (\<lambda>hi.
        let plen = unat (of_le16 lo hi AND 0x07FF);
            nxt = off + EC_DATAGRAM_HEADER_SIZE + plen + EC_DATAGRAM_FOOTER_SIZE
        in if nxt \<ge> region_end
           then Option.bind (copy_at buf len_off (len_off + 2) (le16 (of_le16 lo hi OR 0x8000)))
                  (\<lambda>buf. Some (buf, nxt))
           else append_walk buf region_end nxt)))"
  by pat_completeness auto
termination
  by (relation "measure (\<lambda>(buf, region_end, off). region_end - off)") auto

declare append_walk.simps [simp del]

definition append ::
  "bytes \<Rightarrow> u8 \<Rightarrow> command \<Rightarrow> u16 \<Rightarrow> u16 \<Rightarrow> bytes \<Rightarrow> (bytes \<times> nat) option" where
  "append buf ix cmd adp ado payload = do {
     b0 \<leftarrow> idx buf 0;
     b1 \<leftarrow> idx buf 1;
     let region = unat (of_le16 b0 b1 AND 0x07FF);
     let region_end = EC_FRAME_HEADER_SIZE + region;
     (buf, off) \<leftarrow> append_walk buf region_end EC_FRAME_HEADER_SIZE;
     let plen = length payload;
     buf \<leftarrow> put buf off (command_code cmd);
     buf \<leftarrow> put buf (off + 1) ix;
     buf \<leftarrow> copy_at buf (off + 2) (off + 4) (le16 adp);
     buf \<leftarrow> copy_at buf (off + 4) (off + 6) (le16 ado);
     buf \<leftarrow> copy_at buf (off + 6) (off + 8) (le16 (of_nat plen AND 0x07FF));
     buf \<leftarrow> copy_at buf (off + 8) (off + 10) (le16 0);
     buf \<leftarrow> copy_at buf (off + 10) (off + 10 + plen) payload;
     buf \<leftarrow> copy_at buf (off + 10 + plen) (off + 12 + plen) (le16 0);
     let new_region = region + EC_DATAGRAM_HEADER_SIZE + plen + EC_DATAGRAM_FOOTER_SIZE;
     let frame_hdr = (of_nat new_region AND 0x07FF) OR (0x1000 :: u16);
     buf \<leftarrow> copy_at buf 0 2 (le16 frame_hdr);
     pad_frame buf (EC_FRAME_HEADER_SIZE + new_region) }"

text \<open>
  \<open>parse\<close> and \<open>parse_at\<close> return \<^verbatim>\<open>Option\<close>; the outer option is the panic, the inner one the
  \<^verbatim>\<open>None\<close> of the code.
\<close>

definition parse :: "bytes \<Rightarrow> reply option option" where
  "parse frame =
     (if length frame < EC_FRAME_HEADER_SIZE + EC_DATAGRAM_HEADER_SIZE + EC_DATAGRAM_FOOTER_SIZE
      then Some None
      else do {
        cmd \<leftarrow> idx frame 2;
        ix \<leftarrow> idx frame 3;
        l0 \<leftarrow> idx frame 8;
        l1 \<leftarrow> idx frame 9;
        let data_len = unat (of_le16 l0 l1 AND 0x07FF);
        let data_start = EC_FRAME_HEADER_SIZE + EC_DATAGRAM_HEADER_SIZE;
        let wkc_start = data_start + data_len;
        if length frame < wkc_start + EC_DATAGRAM_FOOTER_SIZE then Some None
        else do {
          dat \<leftarrow> slice frame data_start wkc_start;
          w0 \<leftarrow> idx frame wkc_start;
          w1 \<leftarrow> idx frame (wkc_start + 1);
          Some (Some \<lparr>rp_command = cmd, rp_index = ix, rp_wkc = of_le16 w0 w1, rp_data = dat\<rparr>) } })"

definition parse_at :: "bytes \<Rightarrow> nat \<Rightarrow> (reply \<times> nat) option option" where
  "parse_at frame off =
     (if length frame < off + EC_DATAGRAM_HEADER_SIZE + EC_DATAGRAM_FOOTER_SIZE
      then Some None
      else do {
        cmd \<leftarrow> idx frame off;
        ix \<leftarrow> idx frame (off + 1);
        l0 \<leftarrow> idx frame (off + 6);
        l1 \<leftarrow> idx frame (off + 7);
        let len_word = of_le16 l0 l1;
        let data_len = unat (len_word AND 0x07FF);
        let follows = (len_word AND 0x8000 \<noteq> 0);
        let data_start = off + EC_DATAGRAM_HEADER_SIZE;
        let wkc_start = data_start + data_len;
        if length frame < wkc_start + EC_DATAGRAM_FOOTER_SIZE then Some None
        else do {
          dat \<leftarrow> slice frame data_start wkc_start;
          w0 \<leftarrow> idx frame wkc_start;
          w1 \<leftarrow> idx frame (wkc_start + 1);
          let nxt = (if follows then wkc_start + EC_DATAGRAM_FOOTER_SIZE else 0);
          Some (Some (\<lparr>rp_command = cmd, rp_index = ix, rp_wkc = of_le16 w0 w1, rp_data = dat\<rparr>,
                      nxt)) } })"

section \<open>The abstract frame: a list of datagrams\<close>

record dgram =
  dg_cmd :: u8
  dg_index :: u8
  dg_adp :: u16
  dg_ado :: u16
  dg_irq :: u16
  dg_data :: bytes
  dg_wkc :: u16

definition len_word :: "bool \<Rightarrow> bytes \<Rightarrow> u16" where
  "len_word follows d = of_nat (length d) OR (if follows then 0x8000 else 0)"

definition dgram_bytes :: "bool \<Rightarrow> dgram \<Rightarrow> bytes" where
  "dgram_bytes follows d =
     [dg_cmd d, dg_index d] @ le16 (dg_adp d) @ le16 (dg_ado d) @ le16 (len_word follows (dg_data d)) @
     le16 (dg_irq d) @ dg_data d @ le16 (dg_wkc d)"

fun dgrams_bytes :: "dgram list \<Rightarrow> bytes" where
  "dgrams_bytes [] = []"
| "dgrams_bytes (d # ds) = dgram_bytes (ds \<noteq> []) d @ dgrams_bytes ds"

definition dgrams_len :: "dgram list \<Rightarrow> nat" where
  "dgrams_len ds = (\<Sum>d\<leftarrow>ds. 12 + length (dg_data d))"

definition frame_header :: "nat \<Rightarrow> bytes" where
  "frame_header region = le16 (of_nat region OR 0x1000)"

definition frame_bytes :: "dgram list \<Rightarrow> bytes" where
  "frame_bytes ds =
     (let f = frame_header (dgrams_len ds) @ dgrams_bytes ds
      in f @ replicate (EC_MIN_ECAT_FRAME - length f) 0)"

definition reply_of :: "dgram \<Rightarrow> reply" where
  "reply_of d = \<lparr>rp_command = dg_cmd d, rp_index = dg_index d, rp_wkc = dg_wkc d, rp_data = dg_data d\<rparr>"

text \<open>The datagram a master writes: zero interrupt word, zero working counter.\<close>

definition request :: "u8 \<Rightarrow> command \<Rightarrow> u16 \<Rightarrow> u16 \<Rightarrow> bytes \<Rightarrow> dgram" where
  "request i cmd adp ado payload =
     \<lparr>dg_cmd = command_code cmd, dg_index = i, dg_adp = adp, dg_ado = ado, dg_irq = 0,
      dg_data = payload, dg_wkc = 0\<rparr>"

text \<open>A frame the 11-bit length fields can describe.\<close>

definition frame_ok :: "dgram list \<Rightarrow> bool" where
  "frame_ok ds \<longleftrightarrow> ds \<noteq> [] \<and> dgrams_len ds < 2048"

section \<open>Lemmas on the abstract frame\<close>

lemma length_dgram_bytes [simp]: "length (dgram_bytes m d) = 12 + length (dg_data d)"
  by (simp add: dgram_bytes_def)

lemma dgrams_len_simps [simp]:
  "dgrams_len [] = 0"
  "dgrams_len (d # ds) = 12 + length (dg_data d) + dgrams_len ds"
  "dgrams_len (ds @ es) = dgrams_len ds + dgrams_len es"
  by (simp_all add: dgrams_len_def)

lemma length_dgrams_bytes [simp]: "length (dgrams_bytes ds) = dgrams_len ds"
  by (induction ds) auto

lemma length_frame_header [simp]: "length (frame_header n) = 2"
  by (simp add: frame_header_def)

lemma length_frame_bytes [simp]: "length (frame_bytes ds) = max 46 (2 + dgrams_len ds)"
  by (simp add: frame_bytes_def Let_def max_def)

lemma dgrams_len_member: "d \<in> set ds \<Longrightarrow> 12 + length (dg_data d) \<le> dgrams_len ds"
  by (induction ds) auto

lemma unat_len_word:
  assumes "length d < 2048"
  shows "unat (len_word follows d AND 0x07FF) = length d"
proof -
  have "unat (of_nat (length d) :: u16) = length d"
    using assms by (simp add: unat_of_nat_16)
  then have "(of_nat (length d) :: u16) AND 0x07FF = of_nat (length d)"
    using assms by (intro and_mask_11) simp
  moreover have "len_word follows d AND 0x07FF = of_nat (length d) AND 0x07FF"
    by (simp add: len_word_def bit.conj_disj_distrib2)
  ultimately show ?thesis
    using assms by (simp add: unat_of_nat_16)
qed

lemma more_bit_len_word:
  assumes "length d < 2048"
  shows "len_word follows d AND 0x8000 \<noteq> 0 \<longleftrightarrow> follows"
proof -
  have "unat (of_nat (length d) :: u16) = length d"
    using assms by (simp add: unat_of_nat_16)
  then have "(of_nat (length d) :: u16) AND 0x07FF = of_nat (length d)"
    using assms by (intro and_mask_11) simp
  then have "(of_nat (length d) :: u16) AND 0x8000 = (of_nat (length d) AND 0x07FF) AND 0x8000"
    by simp
  also have "\<dots> = 0" by (simp add: and.assoc)
  finally show ?thesis
    by (simp add: len_word_def bit.conj_disj_distrib2)
qed

lemma len_word_or: "len_word False d OR 0x8000 = len_word True d"
  by (simp add: len_word_def)

section \<open>Building\<close>

lemma pad_frame_fill:
  "length pre = n \<Longrightarrow> 46 - n \<le> length rest \<Longrightarrow>
     pad_frame (filled pre rest) n =
       Some (filled (pre @ replicate (46 - n) 0) (drop (46 - n) rest), max 46 n)"
proof (induction "46 - n" arbitrary: pre n rest)
  case 0
  then show ?case by (simp add: pad_frame.simps [of _ n] max_def)
next
  case (Suc k)
  then have n: "n < 46" and k: "k = 46 - Suc n" and e: "46 - n = Suc (46 - Suc n)" by auto
  have r: "rest \<noteq> []" using Suc.prems n by auto
  have "pad_frame (filled pre rest) n = pad_frame (filled (pre @ [0]) (drop 1 rest)) (Suc n)"
    using Suc.prems n r by (subst pad_frame.simps) (simp add: put_fill)
  also have "\<dots> = Some (filled ((pre @ [0]) @ replicate (46 - Suc n) 0) (drop (46 - Suc n) (drop 1 rest)),
                         max 46 (Suc n))"
    using Suc.prems n k by (intro Suc.hyps(1)) auto
  also have "(pre @ [0]) @ replicate (46 - Suc n) 0 = pre @ replicate (46 - n) 0"
    by (simp add: e del: diff_Suc_Suc)
  also have "drop (46 - Suc n) (drop 1 rest) = drop (46 - n) rest"
    unfolding e by simp
  finally show ?case using n by (simp add: max_def)
qed

lemma header_word:
  assumes "n < 2048"
  shows "(of_nat n :: u16) AND 0x07FF = of_nat n"
  using assms by (intro and_mask_11) (simp add: unat_of_nat_16)

lemma frame_bytes_single:
  "frame_bytes [d] = frame_header (12 + length (dg_data d)) @ dgram_bytes False d @
     replicate (46 - (14 + length (dg_data d))) 0"
  by (simp add: frame_bytes_def Let_def)

lemma build_frame:
  assumes len: "length payload + 12 < 2048"
    and room: "max 46 (14 + length payload) \<le> length buf"
  shows "build buf ix cmd adp ado payload =
           Some (frame_bytes [request ix cmd adp ado payload] @
                   drop (max 46 (14 + length payload)) buf,
                 max 46 (14 + length payload))"
proof -
  let ?n = "length payload"
  have ne: "46 \<le> length buf" "14 + ?n \<le> length buf" "\<not> length buf \<le> 3" "buf \<noteq> []"
    using room by auto
  have fill: "build (filled [] buf) ix cmd adp ado payload =
    pad_frame (filled (frame_header (12 + ?n) @ dgram_bytes False (request ix cmd adp ado payload))
                 (drop (14 + ?n) buf)) (14 + ?n)"
    using len ne header_word [of "12 + ?n"]
    by (simp add: build_def Let_def fill_simps header_word frame_header_def
        dgram_bytes_def request_def len_word_def add.commute) (simp add: eval_nat_numeral)
  have "build buf ix cmd adp ado payload = build (filled [] buf) ix cmd adp ado payload"
    by (simp add: filled_def)
  then show ?thesis
    unfolding fill using room
    by (simp add: pad_frame_fill frame_bytes_single request_def) (simp add: filled_def max_def)
qed

lemma build_total:
  assumes "length payload + 12 < 2048" and "max 46 (14 + length payload) \<le> length buf"
  obtains buf' where "build buf ix cmd adp ado payload = Some (buf', max 46 (14 + length payload))"
    "length buf' = length buf"
    "take (max 46 (14 + length payload)) buf' = frame_bytes [request ix cmd adp ado payload]"
  by (rule that [OF build_frame [OF assms]]) (use assms in \<open>auto simp: request_def\<close>)

section \<open>Appending\<close>

text \<open>The datagrams of a frame with every "more datagrams follow" bit set, as \<open>append\<close> leaves them
  before it writes the new one.\<close>

definition dgrams_follow :: "dgram list \<Rightarrow> bytes" where
  "dgrams_follow ds = concat (map (dgram_bytes True) ds)"

lemma length_dgrams_follow [simp]: "length (dgrams_follow ds) = dgrams_len ds"
  by (induction ds) (auto simp: dgrams_follow_def)

lemma dgrams_bytes_snoc: "dgrams_bytes (ds @ [d]) = dgrams_follow ds @ dgram_bytes False d"
  by (induction ds) (auto simp: dgrams_follow_def)

lemma dgram_len_bytes:
  "i = length pre + 6 \<Longrightarrow>
     idx (pre @ dgram_bytes m d @ rest) i = Some (ucast (len_word m (dg_data d)))"
  "i = length pre + 7 \<Longrightarrow>
     idx (pre @ dgram_bytes m d @ rest) i = Some (ucast (drop_bit 8 (len_word m (dg_data d))))"
  by (auto simp: idx_def nth_append dgram_bytes_def le16_def)

lemma set_follow:
  "a = length pre + 6 \<Longrightarrow> b = length pre + 8 \<Longrightarrow>
     copy_at (pre @ dgram_bytes False d @ rest) a b (le16 (len_word False (dg_data d) OR 0x8000)) =
     Some (pre @ dgram_bytes True d @ rest)"
  by (simp add: copy_at_def dgram_bytes_def len_word_or le16_def)

lemma append_walk_frame:
  assumes "ds \<noteq> []" "\<forall>d\<in>set ds. length (dg_data d) < 2048" "length pre = off"
  shows "append_walk (pre @ dgrams_bytes ds @ rest) (off + dgrams_len ds) off =
           Some (pre @ dgrams_follow ds @ rest, off + dgrams_len ds)"
  using assms
proof (induction ds arbitrary: pre off)
  case Nil
  then show ?case by simp
next
  case (Cons d ds)
  have len: "unat (len_word m (dg_data d) AND 0x07FF) = length (dg_data d)" for m
    using Cons.prems by (simp add: unat_len_word)
  show ?case
  proof (cases "ds = []")
    case True
    then show ?thesis
      using Cons.prems len [of False]
      by (subst append_walk.simps)
         (simp add: dgram_len_bytes set_follow dgrams_follow_def Let_def)
  next
    case False
    then have pos: "dgrams_len ds \<noteq> 0"
      by (cases ds) auto
    have "append_walk (pre @ dgrams_bytes (d # ds) @ rest) (off + dgrams_len (d # ds)) off =
          append_walk ((pre @ dgram_bytes True d) @ dgrams_bytes ds @ rest)
            ((off + 12 + length (dg_data d)) + dgrams_len ds) (off + 12 + length (dg_data d))"
      using False Cons.prems pos len [of True]
      by (subst append_walk.simps) (simp add: dgram_len_bytes Let_def add.commute add.left_commute)
    also have "\<dots> = Some ((pre @ dgram_bytes True d) @ dgrams_follow ds @ rest,
                          off + 12 + length (dg_data d) + dgrams_len ds)"
      using False Cons.prems by (intro Cons.IH) auto
    finally show ?thesis by (simp add: dgrams_follow_def)
  qed
qed

lemma frame_bytes_append_rest:
  "frame_bytes ds @ rest =
     frame_header (dgrams_len ds) @ dgrams_bytes ds @ replicate (46 - (2 + dgrams_len ds)) 0 @ rest"
  by (simp add: frame_bytes_def Let_def)

lemma frame_header_idx:
  assumes "n < 2048"
  shows "idx (frame_header n @ xs) 0 = Some (ucast (of_nat n OR 0x1000 :: u16))"
    and "idx (frame_header n @ xs) 1 = Some (ucast (drop_bit 8 (of_nat n OR 0x1000 :: u16)))"
  by (simp_all add: idx_def frame_header_def le16_def)

lemma unat_header_word:
  assumes "n < 2048"
  shows "unat ((of_nat n OR 0x1000 :: u16) AND 0x07FF) = n"
proof -
  have "(of_nat n OR 0x1000 :: u16) AND 0x07FF = of_nat n AND 0x07FF"
    by (simp add: bit.conj_disj_distrib2)
  then show ?thesis using assms by (simp add: header_word unat_of_nat_16)
qed

lemma small_of_dgrams_len:
  assumes "dgrams_len ds < n" and "d \<in> set ds"
  shows "length (dg_data d) < n"
  using dgrams_len_member [OF assms(2)] assms(1) by simp

lemma append_frame:
  assumes ds: "ds \<noteq> []" and len: "dgrams_len ds + 12 + length payload < 2048"
    and room: "max 46 (14 + dgrams_len ds + length payload) \<le> max 46 (2 + dgrams_len ds) + length rest"
  shows "append (frame_bytes ds @ rest) ix cmd adp ado payload =
           Some (frame_bytes (ds @ [request ix cmd adp ado payload]) @
                   drop (max 46 (14 + dgrams_len ds + length payload) - max 46 (2 + dgrams_len ds)) rest,
                 max 46 (14 + dgrams_len ds + length payload))"
proof -
  let ?l = "dgrams_len ds" and ?n = "length payload" and ?d = "request ix cmd adp ado payload"
  define w :: u16 where "w = of_nat ?l OR 0x1000"
  define tail where "tail = replicate (46 - (2 + ?l)) 0 @ rest"
  have w: "unat (w AND 0x07FF) = ?l"
    using len by (simp add: w_def unat_header_word)
  then have w': "w AND 0x07FF = of_nat ?l"
    by (metis of_nat_unat ucast_id)
  have hdr: "idx (frame_bytes ds @ rest) 0 = Some (ucast w)"
    "idx (frame_bytes ds @ rest) 1 = Some (ucast (drop_bit 8 w))"
    using len by (simp_all only: frame_bytes_append_rest frame_header_idx w_def)
  have small: "\<forall>d\<in>set ds. length (dg_data d) < 2048"
    using len small_of_dgrams_len [of ds 2048] by auto
  have walk: "append_walk (frame_bytes ds @ rest) (2 + ?l) 2 =
                Some (filled (frame_header ?l @ dgrams_follow ds) tail, 2 + ?l)"
    unfolding frame_bytes_append_rest filled_def tail_def append_assoc
    by (rule append_walk_frame [OF ds small]) simp
  have space: "12 + ?n \<le> length tail" "44 - (?l + 12 + ?n) \<le> length tail - (12 + ?n)"
    using room by (auto simp: tail_def)
  have ne: "tail \<noteq> []" "drop 1 tail \<noteq> []" "\<not> length tail \<le> Suc 0" using space by auto
  have header: "copy_at (filled (frame_header ?l @ pre) post) 0 2 (le16 (of_nat m OR 0x1000)) =
                  Some (filled (frame_header m @ pre) post)" for m pre post
    by (simp add: copy_at_def filled_def frame_header_def)
  have "append (frame_bytes ds @ rest) ix cmd adp ado payload =
    pad_frame (filled (frame_header (12 + ?n + ?l) @ dgrams_follow ds @ dgram_bytes False ?d)
                 (drop (12 + ?n) tail)) (14 + ?n + ?l)"
    unfolding append_def hdr
    using len space(1) ne walk header_word [of "12 + ?n + ?l"] header [of _ _ "12 + ?n + ?l"]
    by (simp add: w w' unat_of_nat_16 Let_def fill_simps header_word
        dgram_bytes_def request_def len_word_def add_ac) (simp add: eval_nat_numeral)
  also have "\<dots> = Some (filled (frame_header (12 + ?n + ?l) @ dgrams_follow ds @ dgram_bytes False ?d @
                   replicate (46 - (14 + ?n + ?l)) 0) (drop (46 - (14 + ?n + ?l)) (drop (12 + ?n) tail)),
                 max 46 (14 + ?n + ?l))"
    using space by (subst pad_frame_fill) (auto simp: request_def)
  finally show ?thesis
    by (simp add: filled_def tail_def frame_bytes_def dgrams_bytes_snoc request_def add_ac del: max_Suc_Suc)
      (auto simp: max_def add.commute)
qed

section \<open>Parsing\<close>

lemma idx_bytes:
  "i = length pre \<Longrightarrow> idx (pre @ dgram_bytes m d @ rest) i = Some (dg_cmd d)"
  "i = length pre + 1 \<Longrightarrow> idx (pre @ dgram_bytes m d @ rest) i = Some (dg_index d)"
  "i = length pre + 10 + length (dg_data d) \<Longrightarrow>
     idx (pre @ dgram_bytes m d @ rest) i = Some (ucast (dg_wkc d))"
  "i = length pre + 11 + length (dg_data d) \<Longrightarrow>
     idx (pre @ dgram_bytes m d @ rest) i = Some (ucast (drop_bit 8 (dg_wkc d)))"
  "a = length pre + 10 \<Longrightarrow> b = a + length (dg_data d) \<Longrightarrow>
     slice (pre @ dgram_bytes m d @ rest) a b = Some (dg_data d)"
  by (auto simp: idx_def slice_def nth_append dgram_bytes_def le16_def)

lemmas dgram_fields = dgram_len_bytes idx_bytes

lemma parse_at_dgram:
  assumes len: "length (dg_data d) < 2048" and off: "off = length pre"
  shows "parse_at (pre @ dgram_bytes m d @ rest) off =
           Some (Some (reply_of d, if m then off + 12 + length (dg_data d) else 0))"
  using unat_len_word [OF len] more_bit_len_word [OF len] off
  by (simp add: parse_at_def Let_def dgram_fields reply_of_def)

lemma parse_dgram:
  assumes len: "length (dg_data d) < 2048" and pre: "length pre = 2"
  shows "parse (pre @ dgram_bytes m d @ rest) = Some (Some (reply_of d))"
  using unat_len_word [OF len, of m] pre
  by (simp add: parse_def Let_def dgram_fields reply_of_def)

lemma dgrams_bytes_split:
  "dgrams_bytes (ds @ d # es) = dgrams_follow ds @ dgram_bytes (es \<noteq> []) d @ dgrams_bytes es"
  by (induction ds) (auto simp: dgrams_follow_def)

lemma parse_at_frame:
  assumes "dgrams_len (ds @ d # es) < 2048"
  shows "parse_at (frame_bytes (ds @ d # es) @ rest) (2 + dgrams_len ds) =
           Some (Some (reply_of d, if es = [] then 0 else 2 + dgrams_len (ds @ [d])))"
proof -
  have len: "length (dg_data d) < 2048" using assms by simp
  obtain tl where tl: "frame_bytes (ds @ d # es) @ rest =
      (frame_header (dgrams_len (ds @ d # es)) @ dgrams_follow ds) @ dgram_bytes (es \<noteq> []) d @ tl"
    by (simp add: frame_bytes_append_rest dgrams_bytes_split)
  show ?thesis
    unfolding tl by (subst parse_at_dgram [OF len]) auto
qed

lemma parse_frame:
  assumes "dgrams_len (d # es) < 2048"
  shows "parse (frame_bytes (d # es) @ rest) = Some (Some (reply_of d))"
proof -
  have len: "length (dg_data d) < 2048" using assms by simp
  show ?thesis
    unfolding frame_bytes_append_rest dgrams_bytes.simps append_assoc
    by (rule parse_dgram [OF len]) simp
qed

text \<open>Neither parser panics, whatever bytes arrived, and the reply they return lies in the frame.\<close>

lemma unat_and_bound: "unat (w AND 0x07FF :: u16) \<le> 2047"
proof -
  have "w AND 0x07FF \<le> (0x07FF :: u16)" by (rule word_and_le1)
  then show ?thesis by (simp add: word_le_nat_alt)
qed

lemma parse_total [no_panic]: "\<exists>r. parse frame = Some r"
  by (auto simp: parse_def Let_def idx_def slice_def)

lemma parse_at_total [no_panic]: "\<exists>r. parse_at frame off = Some r"
  by (auto simp: parse_at_def Let_def idx_def slice_def)

lemma parse_at_bounds:
  assumes "parse_at frame off = Some (Some (r, nxt))"
  shows "off + 12 + length (rp_data r) \<le> length frame"
    and "nxt = 0 \<or> nxt = off + 12 + length (rp_data r)"
  using assms
  by (auto simp: parse_at_def Let_def idx_def slice_def split: if_splits)

lemma parse_bounds:
  assumes "parse frame = Some (Some r)"
  shows "14 + length (rp_data r) \<le> length frame"
  using assms by (auto simp: parse_def Let_def idx_def slice_def split: if_splits)

end
