(* ===== verification/Enet.thy ===== *)
theory Enet
  imports Ecrt
begin

text \<open>
  The ENET MAC driver, \<^verbatim>\<open>src/net/enet_driver.rs\<close> and \<^verbatim>\<open>src/net/enet_ring.rs\<close>: the descriptor rings
  and frame buffers it shares with the DMA engine, and the operations on them. The MAC registers
  themselves are hardware: of them the model keeps the two "descriptors are ready" doorbells the
  driver writes (TDAR and RDAR), as counters of the writes. What the DMA engine does to the rings
  between two operations is the environment of the model; the lemmas hold for every state it can
  leave that keeps the shape \<open>enet_wf\<close>.
\<close>

unbundle bit_operations_syntax

section \<open>Descriptors and rings\<close>

definition ECAT_MTU :: nat where [simp]: "ECAT_MTU = 1536"
definition ECAT_RX_LEN :: nat where [simp]: "ECAT_RX_LEN = 4"
definition ECAT_TX_LEN :: nat where [simp]: "ECAT_TX_LEN = 4"

record descriptor =
  ds_len :: u16
  ds_flags :: u16

record enet =
  tx_pos :: nat
  rx_pos :: nat
  last_rx_progress_ms :: u32
  last_tx_progress_ms :: u32
  tx_desc :: "descriptor list"
  tx_bufs :: "bytes list"
  rx_desc :: "descriptor list"
  rx_bufs :: "bytes list"
  tdar_writes :: nat
  rdar_writes :: nat

text \<open>\<^verbatim>\<open>RxDT::default\<close> and \<^verbatim>\<open>TxDT::default\<close>.\<close>

definition RxDT_default :: "descriptor list \<times> bytes list" where
  "RxDT_default = (replicate ECAT_RX_LEN \<lparr>ds_len = 0, ds_flags = 0x8000\<rparr>,
                   replicate ECAT_RX_LEN (replicate ECAT_MTU 0))"

definition TxDT_default :: "descriptor list \<times> bytes list" where
  "TxDT_default = (replicate ECAT_TX_LEN \<lparr>ds_len = 0, ds_flags = 0\<rparr>,
                   replicate ECAT_TX_LEN (replicate ECAT_MTU 0))"

section \<open>Initialisation\<close>

text \<open>The divisors \<open>configure_registers\<close> computes for the management clock.\<close>

definition SMI_MDC_FREQUENCY_HZ :: u32 where "SMI_MDC_FREQUENCY_HZ = 2500000"

definition mii_speed :: "u32 \<Rightarrow> u32" where
  "mii_speed source_clock_hz =
     (source_clock_hz + 2 * SMI_MDC_FREQUENCY_HZ - 1) div (2 * SMI_MDC_FREQUENCY_HZ) - 1"

definition hold_time :: "u32 \<Rightarrow> u32" where
  "hold_time source_clock_hz =
     (10 + 1000000000 div source_clock_hz - 1) div (1000000000 div source_clock_hz) - 1"

text \<open>The last descriptor of a ring carries the wrap bit \<^verbatim>\<open>0x2000\<close>; receive descriptors start out
  owned by the DMA engine (\<^verbatim>\<open>0x8000\<close>).\<close>

definition reset_descriptor_tables :: "enet \<Rightarrow> enet" where
  "reset_descriptor_tables e =
     (let tx_len = length (tx_desc e); rx_len = length (rx_desc e)
      in e\<lparr>tx_pos := 0, rx_pos := 0,
           tx_desc := map (\<lambda>i. \<lparr>ds_len = 0, ds_flags = (if i + 1 = tx_len then 0x2000 else 0)\<rparr>) [0..<tx_len],
           rx_desc := map (\<lambda>i. \<lparr>ds_len = 0, ds_flags = (if i + 1 = rx_len then 0xA000 else 0x8000)\<rparr>) [0..<rx_len]\<rparr>)"

definition enable_dma :: "enet \<Rightarrow> enet" where
  "enable_dma e = e\<lparr>rdar_writes := rdar_writes e + 1\<rparr>"

definition enet_new :: "descriptor list \<times> bytes list \<Rightarrow> descriptor list \<times> bytes list \<Rightarrow> enet" where
  "enet_new rxdt txdt =
     enable_dma (reset_descriptor_tables
       \<lparr>tx_pos = 0, rx_pos = 0, last_rx_progress_ms = 0, last_tx_progress_ms = 0,
        tx_desc = fst txdt, tx_bufs = snd txdt, rx_desc = fst rxdt, rx_bufs = snd rxdt,
        tdar_writes = 0, rdar_writes = 0\<rparr>)"

definition enet_restart :: "enet \<Rightarrow> enet" where
  "enet_restart e = enable_dma (reset_descriptor_tables e)"

text \<open>
  \<open>wait_for_mii\<close> polls the MII bit of EIR; \<open>mii k\<close> is what the \<open>k\<close>-th read returns. The result is
  whether the bit was seen within the loop bound, and with it the value \<^verbatim>\<open>mdio_read\<close> returns for
  the data word \<open>d\<close> of MMFR.
\<close>

definition MDIO_TIMEOUT_LOOPS :: nat where "MDIO_TIMEOUT_LOOPS = 5000000"

fun wait_for_mii_loop :: "nat \<Rightarrow> nat \<Rightarrow> (nat \<Rightarrow> bool) \<Rightarrow> bool" where
  "wait_for_mii_loop 0 k mii = False"
| "wait_for_mii_loop (Suc n) k mii = (if mii k then True else wait_for_mii_loop n (k + 1) mii)"

definition wait_for_mii :: "(nat \<Rightarrow> bool) \<Rightarrow> bool" where
  "wait_for_mii mii = wait_for_mii_loop MDIO_TIMEOUT_LOOPS 0 mii"

definition mdio_read :: "(nat \<Rightarrow> bool) \<Rightarrow> u32 \<Rightarrow> u16 option" where
  "mdio_read mii mmfr_data = (if \<not> wait_for_mii mii then None else Some (ucast mmfr_data))"

section \<open>Raw frames\<close>

definition next_pos :: "nat \<Rightarrow> nat \<Rightarrow> nat" where
  "next_pos pos n = (if pos + 1 < n then pos + 1 else 0)"

definition send_frame :: "enet \<Rightarrow> bytes \<Rightarrow> bytes \<Rightarrow> (enet \<times> bool) option" where
  "send_frame e header payload =
     (let pos = tx_pos e in do {
        desc \<leftarrow> idx (tx_desc e) pos;
        if ds_flags desc AND 0x8000 \<noteq> 0 then Some (e, False)
        else do {
          let hlen = min (length header) ECAT_MTU;
          let plen = min (length payload) (ECAT_MTU - hlen);
          buf \<leftarrow> idx (tx_bufs e) pos;
          buf \<leftarrow> copy_at buf 0 hlen (take hlen header);
          buf \<leftarrow> copy_at buf hlen (hlen + plen) (take plen payload);
          let tot = hlen + plen;
          let len = min (max tot 60) ECAT_MTU;
          buf \<leftarrow> copy_at buf tot len (replicate (len - tot) 0);
          let desc = \<lparr>ds_len = of_nat len, ds_flags = ds_flags desc OR 0x8C00\<rparr>;
          Some (e\<lparr>tx_bufs := (tx_bufs e)[pos := buf],
                  tx_desc := (tx_desc e)[pos := desc],
                  tdar_writes := tdar_writes e + 1,
                  tx_pos := next_pos pos (length (tx_desc e))\<rparr>, True) } })"

text \<open>\<^verbatim>\<open>poll_raw\<close> with the closure \<open>f\<close>, whose panic is a panic of the call.\<close>

definition poll_raw :: "enet \<Rightarrow> (bytes \<Rightarrow> 'r option) \<Rightarrow> (enet \<times> 'r option) option" where
  "poll_raw e f =
     (let pos = rx_pos e in do {
        desc \<leftarrow> idx (rx_desc e) pos;
        if ds_flags desc AND 0x8000 \<noteq> 0 then Some (e, None)
        else do {
          let len = min (unat (ds_len desc)) ECAT_MTU;
          buf \<leftarrow> idx (rx_bufs e) pos;
          frame \<leftarrow> slice buf 0 len;
          result \<leftarrow> f frame;
          Some (e\<lparr>rx_desc := (rx_desc e)[pos := desc\<lparr>ds_flags := ds_flags desc OR 0x8000\<rparr>],
                  rdar_writes := rdar_writes e + 1,
                  rx_pos := next_pos pos (length (rx_desc e))\<rparr>, Some result) } })"

section \<open>The smoltcp tokens\<close>

text \<open>\<^verbatim>\<open>receive\<close> and \<^verbatim>\<open>transmit\<close> hand out tokens when the descriptor is the driver's; the token's
  \<^verbatim>\<open>consume\<close> runs a closure on the buffer and gives the descriptor back.\<close>

definition receive_ready :: "enet \<Rightarrow> u32 \<Rightarrow> (enet \<times> bool) option" where
  "receive_ready e now_ms = do {
     rxd \<leftarrow> idx (rx_desc e) (rx_pos e);
     if ds_flags rxd AND 0x8000 = 0 then Some (e\<lparr>last_rx_progress_ms := now_ms\<rparr>, True)
     else Some (e, False) }"

definition transmit_ready :: "enet \<Rightarrow> bool option" where
  "transmit_ready e = do { d \<leftarrow> idx (tx_desc e) (tx_pos e); Some (ds_flags d AND 0x8000 = 0) }"

definition rx_consume :: "enet \<Rightarrow> (bytes \<Rightarrow> (bytes \<times> 'r) option) \<Rightarrow> (enet \<times> 'r) option" where
  "rx_consume e f =
     (let pos = rx_pos e in do {
        rxd \<leftarrow> idx (rx_desc e) pos;
        buf \<leftarrow> idx (rx_bufs e) pos;
        (buf, result) \<leftarrow> f buf;
        Some (e\<lparr>rx_bufs := (rx_bufs e)[pos := buf],
                rx_desc := (rx_desc e)[pos := rxd\<lparr>ds_flags := ds_flags rxd OR 0x8000\<rparr>],
                rdar_writes := rdar_writes e + 1,
                rx_pos := (if pos < length (rx_desc e) - 1 then pos + 1 else 0)\<rparr>, result) })"

definition tx_consume ::
  "enet \<Rightarrow> u32 \<Rightarrow> nat \<Rightarrow> (bytes \<Rightarrow> (bytes \<times> 'r) option) \<Rightarrow> (enet \<times> 'r) option" where
  "tx_consume e timestamp_ms len f =
     (let pos = tx_pos e in do {
        buf \<leftarrow> idx (tx_bufs e) pos;
        window \<leftarrow> slice buf 0 len;
        (window, result) \<leftarrow> f window;
        buf \<leftarrow> copy_at buf 0 len window;
        d \<leftarrow> idx (tx_desc e) pos;
        Some (e\<lparr>tx_bufs := (tx_bufs e)[pos := buf],
                last_tx_progress_ms := timestamp_ms,
                tx_desc := (tx_desc e)[pos := \<lparr>ds_len = of_nat len, ds_flags = ds_flags d OR 0x8C00\<rparr>],
                tdar_writes := tdar_writes e + 1,
                tx_pos := (if pos < length (tx_desc e) - 1 then pos + 1 else 0)\<rparr>, result) })"

section \<open>The shape of the rings\<close>

definition enet_wf :: "enet \<Rightarrow> bool" where
  "enet_wf e \<longleftrightarrow>
     length (tx_desc e) = ECAT_TX_LEN \<and> length (tx_bufs e) = ECAT_TX_LEN \<and>
     length (rx_desc e) = ECAT_RX_LEN \<and> length (rx_bufs e) = ECAT_RX_LEN \<and>
     (\<forall>b\<in>set (tx_bufs e). length b = ECAT_MTU) \<and> (\<forall>b\<in>set (rx_bufs e). length b = ECAT_MTU) \<and>
     tx_pos e < ECAT_TX_LEN \<and> rx_pos e < ECAT_RX_LEN"

definition tx_owned_by_dma :: "enet \<Rightarrow> bool" where
  "tx_owned_by_dma e \<longleftrightarrow> ds_flags (tx_desc e ! tx_pos e) AND 0x8000 \<noteq> 0"

definition rx_owned_by_dma :: "enet \<Rightarrow> bool" where
  "rx_owned_by_dma e \<longleftrightarrow> ds_flags (rx_desc e ! rx_pos e) AND 0x8000 \<noteq> 0"

lemma next_pos_less: "pos < n \<Longrightarrow> next_pos pos n < n"
  by (simp add: next_pos_def)

lemma next_pos_mod: "pos < n \<Longrightarrow> next_pos pos n = (pos + 1) mod n"
  by (auto simp: next_pos_def mod_Suc)

lemma all_set_update: "\<forall>x\<in>set xs. P x \<Longrightarrow> P v \<Longrightarrow> \<forall>x\<in>set (xs[i := v]). P x"
  using set_update_subset_insert by fastforce

lemma enet_new_wf: "enet_wf (enet_new RxDT_default TxDT_default)"
  by (simp add: enet_wf_def enet_new_def enable_dma_def reset_descriptor_tables_def Let_def
      RxDT_default_def TxDT_default_def)

lemma enet_restart_wf: "enet_wf e \<Longrightarrow> enet_wf (enet_restart e)"
  by (simp add: enet_wf_def enet_restart_def enable_dma_def reset_descriptor_tables_def Let_def)

text \<open>The three outcomes of the operations, for rings in shape.\<close>

lemma send_frame_busy:
  assumes "enet_wf e" "tx_owned_by_dma e"
  shows "send_frame e header payload = Some (e, False)"
  using assms by (simp add: send_frame_def Let_def idx_def enet_wf_def tx_owned_by_dma_def)

definition sent_image :: "bytes \<Rightarrow> bytes \<Rightarrow> bytes" where
  "sent_image header payload =
     (let f = header @ payload in f @ replicate (60 - length f) 0)"

definition tx_submit :: "enet \<Rightarrow> bytes \<Rightarrow> enet" where
  "tx_submit e im =
     e\<lparr>tx_bufs := (tx_bufs e)[tx_pos e := im @ drop (length im) (tx_bufs e ! tx_pos e)],
       tx_desc := (tx_desc e)[tx_pos e :=
          \<lparr>ds_len = of_nat (length im), ds_flags = ds_flags (tx_desc e ! tx_pos e) OR 0x8C00\<rparr>],
       tdar_writes := tdar_writes e + 1,
       tx_pos := next_pos (tx_pos e) ECAT_TX_LEN\<rparr>"

lemma send_frame_free:
  assumes wf: "enet_wf e" and free: "\<not> tx_owned_by_dma e"
    and fits: "length header + length payload \<le> ECAT_MTU"
  shows "send_frame e header payload = Some (tx_submit e (sent_image header payload), True)"
proof -
  let ?h = "length header" and ?p = "length payload" and ?pos = "tx_pos e"
  define buf where "buf = tx_bufs e ! ?pos"
  define img where "img = sent_image header payload"
  have buf: "length buf = 1536"
    using wf by (auto simp: enet_wf_def buf_def)
  have mins: "min ?h ECAT_MTU = ?h" "min ?p (ECAT_MTU - ?h) = ?p"
    "min (max (?h + ?p) 60) ECAT_MTU = length img"
    using fits by (auto simp: img_def sent_image_def Let_def)
  have img: "header @ payload @ replicate (length img - (?h + ?p)) 0 = img"
    "?h + ?p \<le> length img" "length img \<le> 1536"
    using fits by (auto simp: img_def sent_image_def Let_def)
  have writes: "copy_at buf 0 ?h header = Some (header @ drop ?h buf)"
    "copy_at (header @ drop ?h buf) ?h (?h + ?p) payload = Some (header @ payload @ drop (?h + ?p) buf)"
    "copy_at (header @ payload @ drop (?h + ?p) buf) (?h + ?p) (length img)
       (replicate (length img - (?h + ?p)) 0) =
     Some (header @ payload @ replicate (length img - (?h + ?p)) 0 @ drop (length img) buf)"
    using fits buf img(2,3) by (auto simp: copy_at_def add.commute)
  have result: "header @ payload @ replicate (length img - (?h + ?p)) 0 @ drop (length img) buf =
                img @ drop (length img) buf"
    using img(1) by (metis append_assoc)
  have descs: "idx (tx_desc e) ?pos = Some (tx_desc e ! ?pos)" "idx (tx_bufs e) ?pos = Some buf"
    "length (tx_desc e) = ECAT_TX_LEN"
    using wf by (simp_all add: enet_wf_def idx_def buf_def)
  have free': "(ds_flags (tx_desc e ! ?pos) AND 0x8000 \<noteq> 0) = False"
    using free by (simp add: tx_owned_by_dma_def)
  show ?thesis
    unfolding send_frame_def Let_def descs bind.bind_lunit free' if_False mins take_all_iff
      take_all [OF order_refl] writes result
    by (simp only: tx_submit_def img_def buf_def bind.bind_lunit)
qed

lemma tx_submit_wf:
  assumes wf: "enet_wf e" and fits: "length im \<le> ECAT_MTU"
  shows "enet_wf (tx_submit e im)"
proof -
  define buf where "buf = tx_bufs e ! tx_pos e"
  have old: "\<forall>b\<in>set (tx_bufs e). length b = ECAT_MTU" and pos: "tx_pos e < length (tx_bufs e)"
    using wf by (auto simp: enet_wf_def)
  from bspec [OF old nth_mem [OF pos]] have "length buf = ECAT_MTU"
    unfolding buf_def .
  with fits have "length (im @ drop (length im) buf) = ECAT_MTU" by simp
  from all_set_update [OF old this]
  have "\<forall>b\<in>set ((tx_bufs e)[tx_pos e := im @ drop (length im) buf]). length b = ECAT_MTU" .
  moreover have fields: "tx_bufs (tx_submit e im) = (tx_bufs e)[tx_pos e := im @ drop (length im) buf]"
    "length (tx_desc (tx_submit e im)) = length (tx_desc e)"
    "rx_desc (tx_submit e im) = rx_desc e" "rx_bufs (tx_submit e im) = rx_bufs e"
    "tx_pos (tx_submit e im) = next_pos (tx_pos e) ECAT_TX_LEN" "rx_pos (tx_submit e im) = rx_pos e"
    by (simp_all add: tx_submit_def buf_def)
  ultimately show ?thesis
    using wf next_pos_less [of "tx_pos e" ECAT_TX_LEN]
    unfolding enet_wf_def fields length_list_update by blast
qed

lemma send_frame_wf:
  assumes "enet_wf e" "length header + length payload \<le> ECAT_MTU"
  obtains e' ok where "send_frame e header payload = Some (e', ok)" "enet_wf e'"
    "ok \<longleftrightarrow> \<not> tx_owned_by_dma e"
proof (cases "tx_owned_by_dma e")
  case True
  then show ?thesis using that [OF send_frame_busy] assms by simp
next
  case False
  have "length (sent_image header payload) \<le> ECAT_MTU"
    using assms(2) by (simp add: sent_image_def Let_def)
  then show ?thesis
    using that [OF send_frame_free tx_submit_wf] assms False by simp
qed

lemma poll_raw_empty:
  assumes "enet_wf e" "rx_owned_by_dma e"
  shows "poll_raw e f = Some (e, None)"
  using assms by (simp add: poll_raw_def Let_def idx_def enet_wf_def rx_owned_by_dma_def)

definition received :: "enet \<Rightarrow> bytes" where
  "received e = take (unat (ds_len (rx_desc e ! rx_pos e))) (rx_bufs e ! rx_pos e)"

definition rx_release :: "enet \<Rightarrow> enet" where
  "rx_release e =
     e\<lparr>rx_desc := (rx_desc e)[rx_pos e := (rx_desc e ! rx_pos e)
          \<lparr>ds_flags := ds_flags (rx_desc e ! rx_pos e) OR 0x8000\<rparr>],
       rdar_writes := rdar_writes e + 1,
       rx_pos := next_pos (rx_pos e) ECAT_RX_LEN\<rparr>"

lemma poll_raw_frame:
  assumes "enet_wf e" "\<not> rx_owned_by_dma e"
  shows "poll_raw e f = map_option (\<lambda>r. (rx_release e, Some r)) (f (received e))"
proof -
  have len: "length (rx_bufs e ! rx_pos e) = 1536"
    using assms by (auto simp: enet_wf_def)
  have "take (min (unat (ds_len (rx_desc e ! rx_pos e))) 1536) (rx_bufs e ! rx_pos e) = received e"
    using len by (simp add: received_def min_def)
  then show ?thesis
    using assms len
    by (cases "f (received e)")
       (simp_all add: poll_raw_def Let_def idx_def enet_wf_def rx_owned_by_dma_def rx_release_def)
qed

lemma rx_release_wf: "enet_wf e \<Longrightarrow> enet_wf (rx_release e)"
  by (auto simp: enet_wf_def rx_release_def next_pos_less)

lemma received_length: "enet_wf e \<Longrightarrow> length (received e) \<le> ECAT_MTU"
  by (auto simp: received_def enet_wf_def)

lemma wait_for_mii_loop_iff: "wait_for_mii_loop n k mii \<longleftrightarrow> (\<exists>j<n. mii (k + j))"
proof (induction n arbitrary: k)
  case 0
  then show ?case by simp
next
  case (Suc n)
  have "(\<exists>j<Suc n. mii (k + j)) \<longleftrightarrow> mii k \<or> (\<exists>j<n. mii (k + 1 + j))"
    by (simp add: Ex_less_Suc2)
  then show ?case using Suc by simp
qed

lemma wait_for_mii_iff: "wait_for_mii mii \<longleftrightarrow> (\<exists>j<MDIO_TIMEOUT_LOOPS. mii j)"
  by (simp add: wait_for_mii_def wait_for_mii_loop_iff)

lemma mdio_divisors: "mii_speed 150000000 = 29" "hold_time 150000000 = 1"
  by (simp_all add: mii_speed_def hold_time_def SMI_MDC_FREQUENCY_HZ_def)

end
