(* ===== verification/Device.thy ===== *)
theory Device
  imports Datagram Enet
begin

text \<open>
  The frame transport, \<^verbatim>\<open>src/ethercat/device.rs\<close>: the Ethernet header, polling, the non-blocking
  request tracker \<open>pump\<close> and the blocking \<open>transact\<close>. The lemmas give the possible outcomes of every
  operation for a device in shape (\<open>dev_wf\<close>).
\<close>

unbundle bit_operations_syntax

section \<open>The device\<close>

record device =
  dev_enet :: enet
  src_mac :: bytes

definition device_new :: "enet \<Rightarrow> bytes \<Rightarrow> device" where
  "device_new e mac = \<lparr>dev_enet = e, src_mac = mac\<rparr>"

record pump =
  pump_sent :: bool
  pump_expected :: u8
  pump_attempts :: u32

definition pump_new :: pump where
  "pump_new = \<lparr>pump_sent = False, pump_expected = 0, pump_attempts = 0\<rparr>"

definition pump_reset :: "pump \<Rightarrow> pump" where
  "pump_reset p = p\<lparr>pump_sent := False, pump_attempts := 0\<rparr>"

definition dev_send :: "device \<Rightarrow> bytes \<Rightarrow> (device \<times> unit res) option" where
  "dev_send d ecat_frame =
     (let n = ETH_HEADER_LEN + length ecat_frame
      in if n > ECAT_MTU then Some (d, Inl Transport)
         else do {
           header \<leftarrow> copy_at (replicate ETH_HEADER_LEN 0) 0 6 (replicate 6 0xFF);
           header \<leftarrow> copy_at header 6 12 (src_mac d);
           header \<leftarrow> copy_at header 12 14 (be16 ETHERCAT_ETHERTYPE);
           (e, ok) \<leftarrow> send_frame (dev_enet d) header ecat_frame;
           Some (d\<lparr>dev_enet := e\<rparr>, if ok then Inr () else Inl Transport) })"

text \<open>The closure of \<open>poll\<close>: it copies the payload of an EtherCAT frame and returns its length.\<close>

definition poll_closure :: "bytes \<Rightarrow> bytes \<Rightarrow> (bytes \<times> nat) option" where
  "poll_closure out frame =
     (if length frame < ETH_HEADER_LEN then Some (out, 0)
      else do {
        t0 \<leftarrow> idx frame 12;
        t1 \<leftarrow> idx frame 13;
        if t0 \<noteq> 0x88 \<or> t1 \<noteq> 0xA4 then Some (out, 0)
        else do {
          payload \<leftarrow> slice frame ETH_HEADER_LEN (length frame);
          let n = min (length payload) (length out);
          src \<leftarrow> slice payload 0 n;
          out \<leftarrow> copy_at out 0 n src;
          Some (out, n) } })"

definition dev_poll :: "device \<Rightarrow> bytes \<Rightarrow> (device \<times> bytes \<times> nat option) option" where
  "dev_poll d out = do {
     (e, r) \<leftarrow> poll_raw (dev_enet d) (poll_closure out);
     let d = d\<lparr>dev_enet := e\<rparr>;
     case r of
       None \<Rightarrow> Some (d, out, None)
     | Some (out, copied) \<Rightarrow> Some (d, out, if copied > 0 then Some copied else None) }"

text \<open>\<^verbatim>\<open>pump\<close>: the device, the tracker and the receive buffer are updated; the result is the error,
  \<^verbatim>\<open>Ok(None)\<close> or \<^verbatim>\<open>Ok(Some(n))\<close>.\<close>

definition dev_pump ::
  "device \<Rightarrow> pump \<Rightarrow> bytes \<Rightarrow> bytes \<Rightarrow> u32 \<Rightarrow> (device \<times> pump \<times> bytes \<times> nat option res) option" where
  "dev_pump d p frame rx max_attempts =
     (if \<not> pump_sent p then do {
        (d, r) \<leftarrow> dev_send d frame;
        case r of
          Inl e \<Rightarrow> Some (d, p, rx, Inl e)
        | Inr _ \<Rightarrow> Some (d, p\<lparr>pump_expected := get_or 0 frame 3, pump_sent := True, pump_attempts := 0\<rparr>,
                        rx, Inr None) }
      else do {
        (d, rx, r) \<leftarrow> dev_poll d rx;
        hit \<leftarrow> (case r of
                  None \<Rightarrow> Some False
                | Some n \<Rightarrow> if n \<ge> 4 then do { x \<leftarrow> idx rx 3; Some (x = pump_expected p) }
                            else Some False);
        if hit then Some (d, p\<lparr>pump_sent := False\<rparr>, rx, Inr r)
        else
          let p = p\<lparr>pump_attempts := pump_attempts p + 1\<rparr>
          in if pump_attempts p \<ge> max_attempts
             then Some (d, p\<lparr>pump_sent := False\<rparr>, rx, Inl Timeout)
             else Some (d, p, rx, Inr None) })"

text \<open>
  \<^verbatim>\<open>transact\<close> blocks: between two polls the DMA engine runs, which is the argument \<open>hw\<close>, what the
  engine does to the rings before the \<open>k\<close>-th poll.
\<close>

definition TRANSACT_POLL_ATTEMPTS :: nat where "TRANSACT_POLL_ATTEMPTS = 50000"

fun transact_loop ::
  "(nat \<Rightarrow> enet \<Rightarrow> enet) \<Rightarrow> nat \<Rightarrow> nat \<Rightarrow> u8 \<Rightarrow> device \<Rightarrow> bytes \<Rightarrow>
     (device \<times> bytes \<times> nat res) option" where
  "transact_loop hw 0 k expected d out = Some (d, out, Inl Timeout)"
| "transact_loop hw (Suc left) k expected d out = do {
     (d, out, r) \<leftarrow> dev_poll (d\<lparr>dev_enet := hw k (dev_enet d)\<rparr>) out;
     case r of
       Some n \<Rightarrow>
         if n \<ge> 4 then do {
           x \<leftarrow> idx out 3;
           if x = expected then Some (d, out, Inr n)
           else transact_loop hw left (k + 1) expected d out }
         else transact_loop hw left (k + 1) expected d out
     | None \<Rightarrow> transact_loop hw left (k + 1) expected d out }"

definition transact ::
  "(nat \<Rightarrow> enet \<Rightarrow> enet) \<Rightarrow> device \<Rightarrow> bytes \<Rightarrow> bytes \<Rightarrow> (device \<times> bytes \<times> nat res) option" where
  "transact hw d ecat_frame out = do {
     let expected_index = get_or 0 ecat_frame 3;
     (d, r) \<leftarrow> dev_send d ecat_frame;
     case r of
       Inl e \<Rightarrow> Some (d, out, Inl e)
     | Inr _ \<Rightarrow> transact_loop hw TRANSACT_POLL_ATTEMPTS 0 expected_index d out }"

section \<open>Lemmas on the device\<close>

definition dev_wf :: "device \<Rightarrow> bool" where
  "dev_wf d \<longleftrightarrow> enet_wf (dev_enet d) \<and> length (src_mac d) = 6"

definition eth_header :: "bytes \<Rightarrow> bytes" where
  "eth_header mac = replicate 6 0xFF @ mac @ [0x88, 0xA4]"

lemma eth_header_writes:
  assumes "length mac = 6"
  shows "copy_at (replicate ETH_HEADER_LEN 0) 0 6 (replicate 6 0xFF) =
           Some (replicate 6 0xFF @ replicate 8 (0 :: u8))"
    and "copy_at (replicate 6 0xFF @ replicate 8 0) 6 12 mac = Some (replicate 6 0xFF @ mac @ replicate 2 0)"
    and "copy_at (replicate 6 0xFF @ mac @ replicate 2 0) 12 14 (be16 ETHERCAT_ETHERTYPE) =
           Some (eth_header mac)"
  using assms
  by (simp_all add: copy_at_def eth_header_def be16_def ETHERCAT_ETHERTYPE_def drop_replicate)

lemma dev_send_eq:
  assumes "dev_wf d" "length frame + 14 \<le> ECAT_MTU"
  shows "dev_send d frame =
     (if tx_owned_by_dma (dev_enet d) then Some (d, Inl Transport)
      else Some (d\<lparr>dev_enet := tx_submit (dev_enet d) (sent_image (eth_header (src_mac d)) frame)\<rparr>, Inr ()))"
proof -
  have mac: "length (src_mac d) = 6" and e: "enet_wf (dev_enet d)"
    using assms by (simp_all add: dev_wf_def)
  have hdr: "length (eth_header (src_mac d)) + length frame \<le> ECAT_MTU"
    using assms(2) mac by (simp add: eth_header_def)
  have fits: "(ETH_HEADER_LEN + length frame > ECAT_MTU) = False"
    using assms(2) by simp
  have "dev_send d frame = do {
      (e, ok) \<leftarrow> send_frame (dev_enet d) (eth_header (src_mac d)) frame;
      Some (d\<lparr>dev_enet := e\<rparr>, if ok then Inr () else Inl Transport) }"
    unfolding dev_send_def Let_def fits if_False eth_header_writes [OF mac] bind.bind_lunit ..
  then show ?thesis
    using send_frame_busy [OF e] send_frame_free [OF e _ hdr] by simp
qed

lemma dev_send_cases:
  assumes "dev_wf d" "length frame + 14 \<le> ECAT_MTU"
  obtains "dev_send d frame = Some (d, Inl Transport)"
  | d' where "dev_send d frame = Some (d', Inr ())" "dev_wf d'"
proof (cases "tx_owned_by_dma (dev_enet d)")
  case True
  then show ?thesis using that(1) dev_send_eq [OF assms] by simp
next
  case False
  have mac: "length (src_mac d) = 6" and e: "enet_wf (dev_enet d)"
    using assms by (simp_all add: dev_wf_def)
  have "length (sent_image (eth_header (src_mac d)) frame) \<le> ECAT_MTU"
    using assms(2) mac by (simp add: sent_image_def eth_header_def Let_def)
  from tx_submit_wf [OF e this] show ?thesis
    using that(2) dev_send_eq [OF assms] False mac by (simp add: dev_wf_def)
qed

lemma dev_send_long:
  "ECAT_MTU < length frame + 14 \<Longrightarrow> dev_send d frame = Some (d, Inl Transport)"
  by (simp add: dev_send_def)

text \<open>The closure, for any received frame: it never panics, keeps the length of the buffer and
  returns at most that.\<close>

lemma poll_closure_total:
  obtains out' n where "poll_closure out frame = Some (out', n)" "length out' = length out"
    "n \<le> length out"
proof (cases "14 \<le> length frame \<and> frame ! 12 = 0x88 \<and> frame ! 13 = 0xA4")
  case True
  let ?n = "min (length frame - 14) (length out)"
  have "poll_closure out frame = Some (take ?n (drop 14 frame) @ drop ?n out, ?n)"
    using True by (simp add: poll_closure_def idx_def slice_def copy_at_def Let_def)
  then show ?thesis by (rule that) auto
next
  case False
  then have "poll_closure out frame = Some (out, 0)"
    by (auto simp: poll_closure_def idx_def)
  then show ?thesis by (rule that) auto
qed

lemma dev_poll_cases:
  assumes wf: "dev_wf d"
  obtains d' out' r where "dev_poll d out = Some (d', out', r)" "dev_wf d'"
    "length out' = length out" "\<And>n. r = Some n \<Longrightarrow> 0 < n \<and> n \<le> length out'"
proof (cases "rx_owned_by_dma (dev_enet d)")
  case True
  then have "dev_poll d out = Some (d\<lparr>dev_enet := dev_enet d\<rparr>, out, None)"
    using wf by (simp add: dev_poll_def poll_raw_empty dev_wf_def)
  then show ?thesis by (rule that) (use wf in auto)
next
  case False
  obtain out' n where c: "poll_closure out (received (dev_enet d)) = Some (out', n)"
      "length out' = length out" "n \<le> length out"
    by (rule poll_closure_total)
  have e: "enet_wf (dev_enet d)" using wf by (simp add: dev_wf_def)
  have r: "dev_wf (d\<lparr>dev_enet := rx_release (dev_enet d)\<rparr>)"
    using wf rx_release_wf [OF e] by (simp add: dev_wf_def)
  have "dev_poll d out = Some (d\<lparr>dev_enet := rx_release (dev_enet d)\<rparr>, out', if 0 < n then Some n else None)"
    using e False c(1) by (simp add: dev_poll_def poll_raw_frame)
  then show ?thesis by (rule that) (use r c in \<open>auto split: if_splits\<close>)
qed

lemma dev_pump_send:
  assumes "\<not> pump_sent p" "dev_wf d" "length frame + 14 \<le> ECAT_MTU"
  obtains "dev_pump d p frame rx m = Some (d, p, rx, Inl Transport)"
  | d' where "dev_wf d'" "dev_pump d p frame rx m =
      Some (d', p\<lparr>pump_expected := get_or 0 frame 3, pump_sent := True, pump_attempts := 0\<rparr>, rx, Inr None)"
  using assms(1) by (cases rule: dev_send_cases [OF assms(2,3)]) (auto simp: dev_pump_def)

text \<open>A pump that has sent returns only a reply whose index is the one it expects.\<close>

lemma dev_pump_wait:
  assumes sent: "pump_sent p" and wf: "dev_wf d" and rx: "4 \<le> length rx"
    and low: "pump_attempts p < m"
  obtains d' rx' n where "dev_wf d'" "length rx' = length rx" "4 \<le> n" "n \<le> length rx"
      "rx' ! 3 = pump_expected p"
      "dev_pump d p frame rx m = Some (d', p\<lparr>pump_sent := False\<rparr>, rx', Inr (Some n))"
  | d' rx' where "dev_wf d'" "length rx' = length rx" "unat (pump_attempts p) + 1 < unat m"
      "dev_pump d p frame rx m =
         Some (d', p\<lparr>pump_attempts := pump_attempts p + 1\<rparr>, rx', Inr None)"
  | d' rx' where "dev_wf d'" "length rx' = length rx"
      "dev_pump d p frame rx m =
         Some (d', p\<lparr>pump_attempts := pump_attempts p + 1, pump_sent := False\<rparr>, rx', Inl Timeout)"
proof -
  obtain d' rx' r where poll: "dev_poll d rx = Some (d', rx', r)" and d': "dev_wf d'"
      and l: "length rx' = length rx" and n: "\<And>n. r = Some n \<Longrightarrow> 0 < n \<and> n \<le> length rx'"
    using dev_poll_cases [OF wf, of rx] by blast
  have inc: "unat (pump_attempts p + 1) = unat (pump_attempts p) + 1"
    by (rule unat_inc [OF low])
  show ?thesis
  proof (cases "\<exists>n. r = Some n \<and> 4 \<le> n \<and> rx' ! 3 = pump_expected p")
    case True
    then obtain k where k: "r = Some k" "4 \<le> k" "rx' ! 3 = pump_expected p" by blast
    then have "dev_pump d p frame rx m = Some (d', p\<lparr>pump_sent := False\<rparr>, rx', Inr (Some k))"
      using sent poll rx l by (simp add: dev_pump_def idx_def)
    then show ?thesis using that(1) d' l k n by metis
  next
    case False
    then have miss: "dev_pump d p frame rx m =
       (if m \<le> pump_attempts p + 1
        then Some (d', p\<lparr>pump_attempts := pump_attempts p + 1, pump_sent := False\<rparr>, rx', Inl Timeout)
        else Some (d', p\<lparr>pump_attempts := pump_attempts p + 1\<rparr>, rx', Inr None))"
      using sent poll rx l by (auto simp: dev_pump_def idx_def Let_def split: option.splits)
    show ?thesis
    proof (cases "m \<le> pump_attempts p + 1")
      case True
      then show ?thesis using that(3) [OF d' l] miss by simp
    next
      case False
      then have "unat (pump_attempts p) + 1 < unat m"
        using inc by (simp add: not_le word_less_nat_alt)
      then show ?thesis using that(2) [OF d' l] miss False by simp
    qed
  qed
qed

lemma dev_pump_errors:
  "dev_pump d p frame rx m = Some (d', p', rx', Inl e) \<Longrightarrow> e = Transport \<or> e = Timeout"
  by (auto simp: dev_pump_def dev_send_def Let_def Option.bind_eq_Some_conv
      split: if_splits sum.splits)

end
