(* ===== verification/Channel.thy ===== *)
theory Channel
  imports Device
begin

text \<open>
  The part every protocol state machine of the master shares. Each of them
  (\<^verbatim>\<open>fsm_change.rs\<close>, \<^verbatim>\<open>fsm_coe.rs\<close>, \<^verbatim>\<open>dc.rs\<close>, \<^verbatim>\<open>fsm_slave_config.rs\<close>, \<^verbatim>\<open>fsm_scan.rs\<close>) holds the same
  four fields, a pump, a transmit buffer with the length in use and a receive buffer, and drives
  them in the same way: build the request when the length is zero, pump, parse the reply. The
  fields are the record \<open>chan\<close>, which the machines extend; \<open>stage\<close> is the common code.
  The locale \<open>bounded_fsm\<close> is the contract of a machine towards its driver: a step in a
  well-formed state does not panic, and a pending step brings the machine closer to its end. Its
  consequence, proved once, is that a driven machine finishes whatever the bus does.
\<close>

unbundle bit_operations_syntax

section \<open>The request channel\<close>

record chan =
  fs_pump :: pump
  fs_tx :: bytes
  fs_tx_len :: nat
  fs_rx :: bytes

definition PUMP_MAX_ATTEMPTS :: u32 where "PUMP_MAX_ATTEMPTS = 2000"

text \<open>
  \<^verbatim>\<open>if self.tx_len == 0 { .. self.tx_len = ..; self.pump.reset(); }\<close>: the builder writes the request
  into the transmit buffer and returns its length; it draws datagram indices from the counter.
\<close>

type_synonym builder = "bytes \<Rightarrow> u8 \<Rightarrow> (bytes \<times> nat \<times> u8) option"

definition chan_start :: "'a chan_scheme \<Rightarrow> u8 \<Rightarrow> builder \<Rightarrow> ('a chan_scheme \<times> u8) option" where
  "chan_start c ix b =
     (if fs_tx_len c = 0 then do {
        (tx, n, ix) \<leftarrow> b (fs_tx c) ix;
        Some (c\<lparr>fs_tx := tx, fs_tx_len := n, fs_pump := pump_reset (fs_pump c)\<rparr>, ix) }
      else Some (c, ix))"

text \<open>The builder of a frame with one datagram:
  \<^verbatim>\<open>let i = alloc_index(index); datagram::build(&mut self.tx, i, cmd, adp, ado, payload)\<close>.\<close>

definition one_datagram :: "command \<Rightarrow> u16 \<Rightarrow> u16 \<Rightarrow> bytes \<Rightarrow> builder" where
  "one_datagram cmd adp ado payload tx ix = do {
     let (i, ix) = alloc_index ix;
     (tx, n) \<leftarrow> build tx i cmd adp ado payload;
     Some (tx, n, ix) }"

text \<open>A further datagram in the same frame: \<^verbatim>\<open>self.tx_len = datagram::append(&mut self.tx, ..)\<close>.\<close>

definition and_datagram :: "builder \<Rightarrow> command \<Rightarrow> u16 \<Rightarrow> u16 \<Rightarrow> bytes \<Rightarrow> builder" where
  "and_datagram b cmd adp ado payload tx ix = do {
     (tx, _, ix) \<leftarrow> b tx ix;
     let (i, ix) = alloc_index ix;
     (tx, n) \<leftarrow> append tx i cmd adp ado payload;
     Some (tx, n, ix) }"

text \<open>\<^verbatim>\<open>dev.pump(&mut self.pump, &self.tx[..self.tx_len], &mut self.rx, PUMP_MAX_ATTEMPTS)\<close>\<close>

definition chan_poll ::
  "'a chan_scheme \<Rightarrow> device \<Rightarrow> ('a chan_scheme \<times> device \<times> nat option res) option" where
  "chan_poll c d = do {
     frame \<leftarrow> slice (fs_tx c) 0 (fs_tx_len c);
     (d, p, rx, r) \<leftarrow> dev_pump d (fs_pump c) frame (fs_rx c) PUMP_MAX_ATTEMPTS;
     Some (c\<lparr>fs_pump := p, fs_rx := rx\<rparr>, d, r) }"

text \<open>\<^verbatim>\<open>datagram::parse(&self.rx[..len]).ok_or(EcError::FrameTooShort)\<close>\<close>

definition chan_reply :: "'a chan_scheme \<Rightarrow> nat \<Rightarrow> reply res option" where
  "chan_reply c len = do {
     frame \<leftarrow> slice (fs_rx c) 0 len;
     r \<leftarrow> parse frame;
     Some (case r of None \<Rightarrow> Inl FrameTooShort | Some r \<Rightarrow> Inr r) }"

text \<open>
  One stage of a machine: build, pump with an early return on its error, the value \<open>pend\<close>
  (\<^verbatim>\<open>Ok(false)\<close> or \<^verbatim>\<open>Ok(None)\<close>) while the reply is pending, and the stage's handler on the received
  bytes. Most handlers parse one datagram first (\<open>on_reply\<close>).
\<close>

definition stage_with ::
  "'r \<Rightarrow> 'a chan_scheme \<Rightarrow> device \<Rightarrow> u8 \<Rightarrow> builder \<Rightarrow>
     ('a chan_scheme \<Rightarrow> nat \<Rightarrow> ('a chan_scheme \<times> 'r res) option) \<Rightarrow>
     ('a chan_scheme \<times> device \<times> u8 \<times> 'r res) option" where
  "stage_with pend f d ix b handler = do {
     (f, ix) \<leftarrow> chan_start f ix b;
     (f, d, r) \<leftarrow> chan_poll f d;
     case r of
       Inl e \<Rightarrow> Some (f, d, ix, Inl e)
     | Inr None \<Rightarrow> Some (f, d, ix, Inr pend)
     | Inr (Some len) \<Rightarrow> do { (f, out) \<leftarrow> handler f len; Some (f, d, ix, out) } }"

abbreviation stage ::
  "'a chan_scheme \<Rightarrow> device \<Rightarrow> u8 \<Rightarrow> builder \<Rightarrow>
     ('a chan_scheme \<Rightarrow> nat \<Rightarrow> ('a chan_scheme \<times> bool res) option) \<Rightarrow>
     ('a chan_scheme \<times> device \<times> u8 \<times> bool res) option" where
  "stage \<equiv> stage_with False"

definition on_reply ::
  "('a chan_scheme \<Rightarrow> reply \<Rightarrow> ('a chan_scheme \<times> 'r res) option) \<Rightarrow>
     'a chan_scheme \<Rightarrow> nat \<Rightarrow> ('a chan_scheme \<times> 'r res) option" where
  "on_reply h f len = do {
     r \<leftarrow> chan_reply f len;
     case r of Inl e \<Rightarrow> Some (f, Inl e) | Inr r \<Rightarrow> h f r }"

section \<open>Well-formed channels\<close>

text \<open>\<open>n\<close> and \<open>m\<close> are the sizes of the transmit and the receive buffer.\<close>

definition chan_wf :: "nat \<Rightarrow> nat \<Rightarrow> 'a chan_scheme \<Rightarrow> bool" where
  "chan_wf n m c \<longleftrightarrow>
     length (fs_tx c) = n \<and> length (fs_rx c) = m \<and> fs_tx_len c \<le> n \<and>
     (pump_sent (fs_pump c) \<longrightarrow> pump_attempts (fs_pump c) < PUMP_MAX_ATTEMPTS)"

text \<open>Steps the channel can still take before it answers or times out.\<close>

definition chan_left :: "'a chan_scheme \<Rightarrow> nat" where
  "chan_left c =
     (if fs_tx_len c = 0 then 2002
      else if pump_sent (fs_pump c) then 2000 - unat (pump_attempts (fs_pump c))
      else 2001)"

lemma chan_left_le: "chan_left c \<le> 2002"
  by (auto simp: chan_left_def)

text \<open>The channel fields a stage may change before its handler runs.\<close>

abbreviation chan_upd ::
  "'a chan_scheme \<Rightarrow> pump \<Rightarrow> bytes \<Rightarrow> nat \<Rightarrow> bytes \<Rightarrow> 'a chan_scheme" where
  "chan_upd c p t k x \<equiv> c\<lparr>fs_pump := p, fs_tx := t, fs_tx_len := k, fs_rx := x\<rparr>"

lemma chan_update_order:
  "c\<lparr>fs_tx := t, fs_tx_len := k, fs_pump := p, fs_rx := x\<rparr> = chan_upd c p t k x"
  by (cases c) simp

definition builder_ok :: "nat \<Rightarrow> builder \<Rightarrow> bool" where
  "builder_ok n b \<longleftrightarrow> (\<forall>tx ix. length tx = n \<longrightarrow>
     (\<exists>tx' k ix'. b tx ix = Some (tx', k, ix') \<and> length tx' = n \<and> 0 < k \<and> k \<le> n))"

lemma one_datagram_eq:
  assumes "14 + length payload \<le> n" "46 \<le> n" "n \<le> 1522" "length tx = n"
  shows "one_datagram cmd adp ado payload tx ix =
    Some (frame_bytes [request ix cmd adp ado payload] @ drop (max 46 (14 + length payload)) tx,
          max 46 (14 + length payload), ix + 1)"
  using assms build_frame [of payload tx ix cmd adp ado]
  by (simp add: one_datagram_def alloc_index_def)

lemma one_datagram_ok [no_panic]:
  "14 + length payload \<le> n \<Longrightarrow> 46 \<le> n \<Longrightarrow> n \<le> 1522 \<Longrightarrow> builder_ok n (one_datagram cmd adp ado payload)"
  unfolding builder_ok_def by (auto simp: one_datagram_eq request_def)

lemma chan_start_ready:
  assumes wf: "chan_wf n m c" and b: "builder_ok n b"
  obtains p t k ix' where
    "chan_start c ix b = Some (c\<lparr>fs_tx := t, fs_tx_len := k, fs_pump := p\<rparr>, ix')"
    "chan_wf n m (c\<lparr>fs_tx := t, fs_tx_len := k, fs_pump := p\<rparr>)" "0 < k"
    "chan_left (c\<lparr>fs_tx := t, fs_tx_len := k, fs_pump := p\<rparr>) \<le> chan_left c"
proof (cases "fs_tx_len c = 0")
  case True
  have "length (fs_tx c) = n" using wf by (simp add: chan_wf_def)
  then obtain t k ix' where t: "b (fs_tx c) ix = Some (t, k, ix')" "length t = n" "0 < k" "k \<le> n"
    using b unfolding builder_ok_def by blast
  have "chan_start c ix b =
          Some (c\<lparr>fs_tx := t, fs_tx_len := k, fs_pump := pump_reset (fs_pump c)\<rparr>, ix')"
    using True t(1) by (simp add: chan_start_def)
  then show ?thesis
    by (rule that)
       (use wf t True in \<open>auto simp: chan_wf_def chan_left_def pump_reset_def PUMP_MAX_ATTEMPTS_def\<close>)
next
  case False
  have "c\<lparr>fs_tx := fs_tx c, fs_tx_len := fs_tx_len c, fs_pump := fs_pump c\<rparr> = c" by simp
  then show ?thesis
    using that [where p = "fs_pump c" and t = "fs_tx c" and k = "fs_tx_len c" and ix' = ix] False wf
    by (simp add: chan_start_def)
qed

lemma chan_poll_cases:
  assumes wf: "chan_wf n m c" and dev: "dev_wf d" and len: "0 < fs_tx_len c"
    and size: "n \<le> 1522" "4 \<le> m"
  obtains (err) p x d' e where "chan_poll c d = Some (c\<lparr>fs_pump := p, fs_rx := x\<rparr>, d', Inl e)"
      "chan_wf n m (c\<lparr>fs_pump := p, fs_rx := x\<rparr>)" "dev_wf d'"
  | (pending) p x d' where "chan_poll c d = Some (c\<lparr>fs_pump := p, fs_rx := x\<rparr>, d', Inr None)"
      "chan_wf n m (c\<lparr>fs_pump := p, fs_rx := x\<rparr>)" "dev_wf d'"
      "chan_left (c\<lparr>fs_pump := p, fs_rx := x\<rparr>) < chan_left c"
  | (reply) p x d' k where "chan_poll c d = Some (c\<lparr>fs_pump := p, fs_rx := x\<rparr>, d', Inr (Some k))"
      "chan_wf n m (c\<lparr>fs_pump := p, fs_rx := x\<rparr>)" "dev_wf d'" "k \<le> m"
proof -
  let ?f = "take (fs_tx_len c) (fs_tx c)"
  have f: "slice (fs_tx c) 0 (fs_tx_len c) = Some ?f" "length ?f + 14 \<le> ECAT_MTU"
    using wf size by (auto simp: chan_wf_def)
  have rx: "length (fs_rx c) = m" using wf by (simp add: chan_wf_def)
  show ?thesis
  proof (cases "pump_sent (fs_pump c)")
    case False
    show ?thesis
    proof (rule dev_pump_send [OF False dev f(2)])
      assume "dev_pump d (fs_pump c) ?f (fs_rx c) PUMP_MAX_ATTEMPTS =
                Some (d, fs_pump c, fs_rx c, Inl Transport)"
      then have "chan_poll c d = Some (c\<lparr>fs_pump := fs_pump c, fs_rx := fs_rx c\<rparr>, d, Inl Transport)"
        using f(1) by (simp add: chan_poll_def)
      then show ?thesis by (rule err) (use wf dev in auto)
    next
      fix d' assume d': "dev_wf d'"
        and "dev_pump d (fs_pump c) ?f (fs_rx c) PUMP_MAX_ATTEMPTS =
          Some (d', (fs_pump c)\<lparr>pump_expected := get_or 0 ?f 3, pump_sent := True, pump_attempts := 0\<rparr>,
                fs_rx c, Inr None)"
      then have "chan_poll c d =
         Some (c\<lparr>fs_pump := (fs_pump c)\<lparr>pump_expected := get_or 0 ?f 3, pump_sent := True,
                    pump_attempts := 0\<rparr>, fs_rx := fs_rx c\<rparr>, d', Inr None)"
        using f(1) by (simp add: chan_poll_def)
      then show ?thesis
        by (rule pending)
           (use wf d' len False in \<open>auto simp: chan_wf_def chan_left_def PUMP_MAX_ATTEMPTS_def\<close>)
    qed
  next
    case True
    have low: "pump_attempts (fs_pump c) < PUMP_MAX_ATTEMPTS"
      using wf True by (simp add: chan_wf_def)
    show ?thesis
    proof (rule dev_pump_wait [OF True dev _ low, of "fs_rx c" ?f])
      show "4 \<le> length (fs_rx c)" using rx size by simp
    next
      fix d' rx' k
      assume a: "dev_wf d'" "length rx' = length (fs_rx c)" "k \<le> length (fs_rx c)"
        "dev_pump d (fs_pump c) ?f (fs_rx c) PUMP_MAX_ATTEMPTS =
           Some (d', (fs_pump c)\<lparr>pump_sent := False\<rparr>, rx', Inr (Some k))"
      then have "chan_poll c d =
          Some (c\<lparr>fs_pump := (fs_pump c)\<lparr>pump_sent := False\<rparr>, fs_rx := rx'\<rparr>, d', Inr (Some k))"
        using f(1) by (simp add: chan_poll_def)
      then show ?thesis by (rule reply) (use wf a rx in \<open>auto simp: chan_wf_def\<close>)
    next
      fix d' rx'
      assume a: "dev_wf d'" "length rx' = length (fs_rx c)"
        "unat (pump_attempts (fs_pump c)) + 1 < unat PUMP_MAX_ATTEMPTS"
        "dev_pump d (fs_pump c) ?f (fs_rx c) PUMP_MAX_ATTEMPTS =
           Some (d', (fs_pump c)\<lparr>pump_attempts := pump_attempts (fs_pump c) + 1\<rparr>, rx', Inr None)"
      then have eq: "chan_poll c d =
          Some (c\<lparr>fs_pump := (fs_pump c)\<lparr>pump_attempts := pump_attempts (fs_pump c) + 1\<rparr>,
                  fs_rx := rx'\<rparr>, d', Inr None)"
        using f(1) by (simp add: chan_poll_def)
      have inc: "unat (pump_attempts (fs_pump c) + 1) = unat (pump_attempts (fs_pump c)) + 1"
        by (rule unat_inc [OF low])
      then have "pump_attempts (fs_pump c) + 1 < PUMP_MAX_ATTEMPTS"
        using a(3) by (simp add: word_less_nat_alt)
      with eq show ?thesis
        by (intro pending)
           (use wf a rx len True inc in \<open>auto simp: chan_wf_def chan_left_def PUMP_MAX_ATTEMPTS_def\<close>)
    next
      fix d' rx'
      assume a: "dev_wf d'" "length rx' = length (fs_rx c)"
        "dev_pump d (fs_pump c) ?f (fs_rx c) PUMP_MAX_ATTEMPTS =
           Some (d', (fs_pump c)\<lparr>pump_attempts := pump_attempts (fs_pump c) + 1, pump_sent := False\<rparr>,
                 rx', Inl Timeout)"
      then have "chan_poll c d =
          Some (c\<lparr>fs_pump := (fs_pump c)\<lparr>pump_attempts := pump_attempts (fs_pump c) + 1,
                      pump_sent := False\<rparr>, fs_rx := rx'\<rparr>, d', Inl Timeout)"
        using f(1) by (simp add: chan_poll_def)
      then show ?thesis by (rule err) (use wf a rx in \<open>auto simp: chan_wf_def\<close>)
    qed
  qed
qed

text \<open>The outcomes of a stage whose handler does not panic.\<close>

lemma stage_cases:
  assumes wf: "chan_wf n m c" and dev: "dev_wf d" and b: "builder_ok n b"
    and size: "n \<le> 1522" "4 \<le> m"
    and handler: "\<And>p t k x len. chan_wf n m (chan_upd c p t k x) \<Longrightarrow> len \<le> m \<Longrightarrow> h (chan_upd c p t k x) len \<noteq> None"
  obtains (err) p t k x d' ix' e where
      "stage_with pend c d ix b h = Some (chan_upd c p t k x, d', ix', Inl e)"
      "chan_wf n m (chan_upd c p t k x)" "dev_wf d'"
  | (pending) p t k x d' ix' where
      "stage_with pend c d ix b h = Some (chan_upd c p t k x, d', ix', Inr pend)"
      "chan_wf n m (chan_upd c p t k x)" "dev_wf d'" "chan_left (chan_upd c p t k x) < chan_left c"
  | (handled) p t k x d' ix' len g out where
      "stage_with pend c d ix b h = Some (g, d', ix', out)" "h (chan_upd c p t k x) len = Some (g, out)"
      "chan_wf n m (chan_upd c p t k x)" "dev_wf d'" "len \<le> m"
proof (rule chan_start_ready [OF wf b, of ix])
  fix p0 t k ix'
  let ?c = "c\<lparr>fs_tx := t, fs_tx_len := k, fs_pump := p0\<rparr>"
  assume s: "chan_start c ix b = Some (?c, ix')" "chan_wf n m ?c" "0 < k" "chan_left ?c \<le> chan_left c"
  have k: "0 < fs_tx_len ?c" using s(3) by simp
  show ?thesis
  proof (rule chan_poll_cases [OF s(2) dev k size])
    fix p x d' e
    assume "chan_poll ?c d = Some (?c\<lparr>fs_pump := p, fs_rx := x\<rparr>, d', Inl e)"
      "chan_wf n m (?c\<lparr>fs_pump := p, fs_rx := x\<rparr>)" "dev_wf d'"
    then show ?thesis
      using err [where p=p and t=t and k=k and x=x and d'=d' and ix'=ix' and e=e] s(1)
      by (simp add: stage_with_def chan_update_order)
  next
    fix p x d'
    assume "chan_poll ?c d = Some (?c\<lparr>fs_pump := p, fs_rx := x\<rparr>, d', Inr None)"
      "chan_wf n m (?c\<lparr>fs_pump := p, fs_rx := x\<rparr>)" "dev_wf d'"
      "chan_left (?c\<lparr>fs_pump := p, fs_rx := x\<rparr>) < chan_left ?c"
    then show ?thesis
      using pending [where p=p and t=t and k=k and x=x and d'=d' and ix'=ix'] s(1,4)
      by (simp add: stage_with_def chan_update_order)
  next
    fix p x d' len
    assume a: "chan_poll ?c d = Some (?c\<lparr>fs_pump := p, fs_rx := x\<rparr>, d', Inr (Some len))"
      "chan_wf n m (?c\<lparr>fs_pump := p, fs_rx := x\<rparr>)" "dev_wf d'" "len \<le> m"
    then obtain g out where g: "h (chan_upd c p t k x) len = Some (g, out)"
      using handler [where p=p and t=t and k=k and x=x and len=len] by (auto simp: chan_update_order)
    show ?thesis
      using a g s(1) handled [where p=p and t=t and k=k and x=x and d'=d' and ix'=ix' and len=len and g=g and out=out]
      by (simp add: stage_with_def chan_update_order)
  qed
qed

lemma chan_reply_total:
  assumes "chan_wf n m c" "k \<le> m"
  obtains r where "chan_reply c k = Some r"
  using assms parse_total [of "take k (fs_rx c)"] by (auto simp: chan_reply_def chan_wf_def)

lemma on_reply_total:
  assumes "chan_wf n m c" "len \<le> m" "\<And>r. h c r \<noteq> None"
  shows "on_reply h c len \<noteq> None"
  using chan_reply_total [OF assms(1,2)] assms(3)
  by (metis (no_types, lifting) bind.bind_lunit on_reply_def option.distinct(1) sum.case_eq_if)

lemma on_reply_cases:
  assumes "on_reply h c len = Some (g, out)"
  obtains "g = c" "out = Inl FrameTooShort"
  | r where "chan_reply c len = Some (Inr r)" "h c r = Some (g, out)"
  using assms
  by (auto simp: on_reply_def chan_reply_def Option.bind_eq_Some_conv split: sum.splits option.splits)

text \<open>
  The progress measure of a machine: its rank, the number of stages that may still follow, and
  what is left of the current one. A handler that ends with "pending" must lower the rank.
\<close>

definition stage_left :: "('a chan_scheme \<Rightarrow> nat) \<Rightarrow> 'a chan_scheme \<Rightarrow> nat" where
  "stage_left rank c = rank c * 2003 + chan_left c"

lemma stage_left_rank: "rank c' < rank c \<Longrightarrow> stage_left rank c' < stage_left rank c"
proof -
  assume "rank c' < rank c"
  then have "rank c' * 2003 + 2003 \<le> rank c * 2003" by simp
  then show ?thesis using chan_left_le [of c'] by (simp add: stage_left_def)
qed

lemma stage_left_chan:
  "rank c' = rank c \<Longrightarrow> chan_left c' < chan_left c \<Longrightarrow> stage_left rank c' < stage_left rank c"
  by (simp add: stage_left_def)

lemma stage_ok:
  assumes wf: "chan_wf n m c" and dev: "dev_wf d" and b: "builder_ok n b"
    and size: "n \<le> 1522" "4 \<le> m"
    and frame: "\<And>p t k x. chan_wf n m (chan_upd c p t k x) \<Longrightarrow>
      ok (chan_upd c p t k x) \<and> rank (chan_upd c p t k x) = rank c"
    and handler: "\<And>p t k x len. chan_wf n m (chan_upd c p t k x) \<Longrightarrow> len \<le> m \<Longrightarrow>
      \<exists>g out. h (chan_upd c p t k x) len = Some (g, out) \<and> (out = Inr pend \<longrightarrow> ok g \<and> rank g < rank c)"
  shows "\<exists>c' d' ix' r. stage_with pend c d ix b h = Some (c', d', ix', r) \<and> dev_wf d' \<and>
    (r = Inr pend \<longrightarrow> ok c' \<and> stage_left rank c' < stage_left rank c)"
proof (rule stage_cases [OF wf dev b size, where h = h and ix = ix and pend = pend])
  fix p t k x len
  assume "chan_wf n m (chan_upd c p t k x)" "len \<le> m"
  then show "h (chan_upd c p t k x) len \<noteq> None" using handler by fastforce
next
  fix p t k x d' ix' e
  assume "stage_with pend c d ix b h = Some (chan_upd c p t k x, d', ix', Inl e)" "dev_wf d'"
  then show ?thesis by simp
next
  fix p t k x d' ix'
  assume "stage_with pend c d ix b h = Some (chan_upd c p t k x, d', ix', Inr pend)"
    "chan_wf n m (chan_upd c p t k x)" "dev_wf d'" "chan_left (chan_upd c p t k x) < chan_left c"
  then show ?thesis using frame stage_left_chan [of rank "chan_upd c p t k x" c] by simp
next
  fix p t k x d' ix' len g out
  assume a: "stage_with pend c d ix b h = Some (g, d', ix', out)" "h (chan_upd c p t k x) len = Some (g, out)"
    "chan_wf n m (chan_upd c p t k x)" "dev_wf d'" "len \<le> m"
  then show ?thesis using handler [OF a(3,5)] stage_left_rank [of rank g c] by auto
qed

text \<open>The same for a handler that parses one datagram.\<close>

lemma stage_reply_ok:
  assumes wf: "chan_wf n m c" and dev: "dev_wf d" and b: "builder_ok n b"
    and size: "n \<le> 1522" "4 \<le> m"
    and frame: "\<And>p t k x. chan_wf n m (chan_upd c p t k x) \<Longrightarrow>
      ok (chan_upd c p t k x) \<and> rank (chan_upd c p t k x) = rank c"
    and handler: "\<And>p t k x r. chan_wf n m (chan_upd c p t k x) \<Longrightarrow>
      \<exists>g out. h (chan_upd c p t k x) r = Some (g, out) \<and> (out = Inr pend \<longrightarrow> ok g \<and> rank g < rank c)"
  shows "\<exists>c' d' ix' r. stage_with pend c d ix b (on_reply h) = Some (c', d', ix', r) \<and> dev_wf d' \<and>
    (r = Inr pend \<longrightarrow> ok c' \<and> stage_left rank c' < stage_left rank c)"
proof (rule stage_ok [OF wf dev b size frame])
  fix p t k x len
  assume w: "chan_wf n m (chan_upd c p t k x)" and len: "len \<le> m"
  obtain r where r: "chan_reply (chan_upd c p t k x) len = Some r"
    using chan_reply_total [OF w len] .
  show "\<exists>g out. on_reply h (chan_upd c p t k x) len = Some (g, out) \<and> (out = Inr pend \<longrightarrow> ok g \<and> rank g < rank c)"
    using handler [OF w] r by (cases r) (auto simp: on_reply_def)
qed

section \<open>Driving a machine\<close>

text \<open>
  What the driver of a machine does: step it once per tick until it reports completion or an
  error; \<open>hw k\<close> is what the network and the DMA engine do to the device before tick \<open>k\<close>. The outer
  option is the panic, \<open>Some None\<close> a machine still pending after \<open>n\<close> ticks.
\<close>

type_synonym 'f fsm_step = "'f \<Rightarrow> device \<Rightarrow> u8 \<Rightarrow> ('f \<times> device \<times> u8 \<times> bool res) option"

fun drive ::
  "'f fsm_step \<Rightarrow> (nat \<Rightarrow> device \<Rightarrow> device) \<Rightarrow> nat \<Rightarrow> nat \<Rightarrow> 'f \<Rightarrow> device \<Rightarrow> u8 \<Rightarrow>
     ('f \<times> device \<times> u8 \<times> bool res) option option" where
  "drive step hw 0 k s d ix = Some None"
| "drive step hw (Suc n) k s d ix =
     (case step s (hw k d) ix of
        None \<Rightarrow> None
      | Some (s, d, ix, r) \<Rightarrow>
          if r = Inr False then drive step hw n (k + 1) s d ix
          else Some (Some (s, d, ix, r)))"

locale bounded_fsm =
  fixes step :: "'f \<Rightarrow> device \<Rightarrow> u8 \<Rightarrow> ('f \<times> device \<times> u8 \<times> bool res) option"
    and inv :: "'f \<Rightarrow> bool"
    and left :: "'f \<Rightarrow> nat"
  assumes step_ok: "inv s \<Longrightarrow> dev_wf d \<Longrightarrow>
    \<exists>s' d' ix' r. step s d ix = Some (s', d', ix', r) \<and> dev_wf d' \<and>
      (r = Inr False \<longrightarrow> inv s' \<and> left s' < left s)"
begin

lemma no_panic: "inv s \<Longrightarrow> dev_wf d \<Longrightarrow> step s d ix \<noteq> None"
  using step_ok by fastforce

lemma pending_step:
  assumes "inv s" "dev_wf d" "step s d ix = Some (s', d', ix', Inr False)"
  shows "inv s'" "left s' < left s" "dev_wf d'"
  using step_ok [OF assms(1,2), of ix] assms(3) by auto

lemma dev_kept:
  assumes "inv s" "dev_wf d" "step s d ix = Some (s', d', ix', r)"
  shows "dev_wf d'"
  using step_ok [OF assms(1,2), of ix] assms(3) by auto

text \<open>Whatever the environment does, a machine that is driven finishes within \<open>left s + 1\<close> ticks,
  with completion or an error.\<close>

lemma drive_finishes:
  assumes "inv s" "dev_wf d" "\<And>k d. dev_wf d \<Longrightarrow> dev_wf (hw k d)" "left s < n"
  shows "\<exists>s' d' ix' r. drive step hw n k s d ix = Some (Some (s', d', ix', r)) \<and> dev_wf d' \<and> r \<noteq> Inr False"
  using assms(1,2,4)
proof (induction n arbitrary: k s d ix)
  case 0
  then show ?case by simp
next
  case (Suc n)
  have d: "dev_wf (hw k d)" using assms(3) Suc.prems(2) .
  obtain s' d' ix' r where st: "step s (hw k d) ix = Some (s', d', ix', r)" and d': "dev_wf d'"
      and next_ok: "r = Inr False \<longrightarrow> inv s' \<and> left s' < left s"
    using step_ok [OF Suc.prems(1) d, of ix] by blast
  show ?case
  proof (cases "r = Inr False")
    case True
    then show ?thesis using st next_ok d' Suc.prems(3) Suc.IH [of s' d' "k + 1" ix'] by simp
  next
    case False
    then show ?thesis using st d' by simp
  qed
qed

end

text \<open>The states a machine passes through while its steps report "pending", from a start state.\<close>

inductive fsm_reach :: "'f fsm_step \<Rightarrow> 'f \<Rightarrow> 'f \<Rightarrow> bool" for step s0 where
  start: "fsm_reach step s0 s0"
| pending: "fsm_reach step s0 s \<Longrightarrow> step s d ix = Some (s', d', ix', Inr False) \<Longrightarrow> fsm_reach step s0 s'"

lemma reach_invariant:
  assumes "fsm_reach step s0 s" and "P s0"
    and "\<And>s d ix s' d' ix'. P s \<Longrightarrow> step s d ix = Some (s', d', ix', Inr False) \<Longrightarrow> P s'"
  shows "P s"
  using assms by (induction rule: fsm_reach.induct) auto

section \<open>What a stage did\<close>

lemma chan_start_frame:
  assumes "chan_start c ix b = Some (c', ix')"
  shows "\<exists>p t k. c' = c\<lparr>fs_tx := t, fs_tx_len := k, fs_pump := p\<rparr>"
proof (cases "fs_tx_len c = 0")
  case True
  then show ?thesis
    using assms by (auto simp: chan_start_def Option.bind_eq_Some_conv)
next
  case False
  then have "c' = c\<lparr>fs_tx := fs_tx c, fs_tx_len := fs_tx_len c, fs_pump := fs_pump c\<rparr>"
    using assms by (simp add: chan_start_def)
  then show ?thesis by blast
qed

text \<open>A stage that returned either kept every field outside the channel, with an error of the
  transport or pending, or ran its handler on received bytes.\<close>

lemma stage_eq_Some:
  assumes "stage_with pend c d ix b h = Some (g, d', ix', out)"
  obtains p t k x where "g = chan_upd c p t k x" "out = Inr pend \<or> out = Inl Transport \<or> out = Inl Timeout"
  | p t k x len where "h (chan_upd c p t k x) len = Some (g, out)"
proof -
  obtain c1 ix1 c2 d2 r where s: "chan_start c ix b = Some (c1, ix1)"
      and p: "chan_poll c1 d = Some (c2, d2, r)"
    using assms by (auto simp: stage_with_def Option.bind_eq_Some_conv)
  obtain p1 t k where c1: "c1 = c\<lparr>fs_tx := t, fs_tx_len := k, fs_pump := p1\<rparr>"
    using chan_start_frame [OF s] by blast
  obtain p2 x where "c2 = c1\<lparr>fs_pump := p2, fs_rx := x\<rparr>"
    using p by (auto simp: chan_poll_def Option.bind_eq_Some_conv)
  then have c2: "c2 = chan_upd c p2 t k x" using c1 by (simp add: chan_update_order)
  show ?thesis
  proof (cases r)
    case (Inl e)
    then have "e = Transport \<or> e = Timeout"
      using p by (auto simp: chan_poll_def Option.bind_eq_Some_conv dest: dev_pump_errors)
    then show ?thesis using that(1) [where p=p2 and t=t and k=k and x=x] c2 assms s p Inl by (auto simp: stage_with_def)
  next
    case (Inr o')
    show ?thesis
    proof (cases o')
      case None
      then show ?thesis using that(1) [where p=p2 and t=t and k=k and x=x] c2 assms s p Inr by (auto simp: stage_with_def)
    next
      case (Some len)
      then have "h (chan_upd c p2 t k x) len = Some (g, out)"
        using assms s p Inr c2 by (auto simp: stage_with_def Option.bind_eq_Some_conv)
      then show ?thesis by (rule that(2))
    qed
  qed
qed

lemma stage_reply_eq_Some:
  assumes "stage_with pend c d ix b (on_reply h) = Some (g, d', ix', out)"
  obtains p t k x where "g = chan_upd c p t k x"
      "out = Inr pend \<or> out = Inl Transport \<or> out = Inl Timeout \<or> out = Inl FrameTooShort"
  | p t k x len r where "chan_reply (chan_upd c p t k x) len = Some (Inr r)"
      "h (chan_upd c p t k x) r = Some (g, out)"
  using assms
proof (rule stage_eq_Some)
  fix p t k x len
  assume "on_reply h (chan_upd c p t k x) len = Some (g, out)"
  then show ?thesis by (rule on_reply_cases) (use that in blast)+
qed (use that in blast)

text \<open>The first call of a stage puts the request on the wire.\<close>

lemma stage_first:
  assumes wf: "chan_wf n m c" "fs_tx_len c = 0" and dev: "dev_wf d" "\<not> tx_owned_by_dma (dev_enet d)"
    and b: "b (fs_tx c) ix = Some (tx, k, ix')" "k \<le> length tx" "k + 14 \<le> ECAT_MTU"
  shows "\<exists>c' d'. stage_with pend c d ix b h = Some (c', d', ix', Inr pend) \<and>
    dev_enet d' = tx_submit (dev_enet d) (sent_image (eth_header (src_mac d)) (take k tx))"
proof -
  have room: "length (take k tx) + 14 \<le> ECAT_MTU" using b by simp
  from dev_send_eq [OF dev(1) room] dev(2)
  have "stage_with pend c d ix b h =
    Some (c\<lparr>fs_tx := tx, fs_tx_len := k,
            fs_pump := (pump_reset (fs_pump c))\<lparr>pump_expected := get_or 0 (take k tx) 3,
                          pump_sent := True, pump_attempts := 0\<rparr>, fs_rx := fs_rx c\<rparr>,
          d\<lparr>dev_enet := tx_submit (dev_enet d) (sent_image (eth_header (src_mac d)) (take k tx))\<rparr>,
          ix', Inr pend)"
    using wf(2) b by (simp add: stage_with_def chan_start_def chan_poll_def dev_pump_def pump_reset_def)
  then show ?thesis by simp
qed

lemma stage_first_one:
  assumes wf: "chan_wf n m c" "fs_tx_len c = 0" and dev: "dev_wf d" "\<not> tx_owned_by_dma (dev_enet d)"
    and fits: "14 + length payload \<le> n" "46 \<le> n" "n \<le> 1522"
  shows "\<exists>c' d'. stage_with pend c d ix (one_datagram cmd adp ado payload) h = Some (c', d', ix + 1, Inr pend) \<and>
    dev_enet d' = tx_submit (dev_enet d)
      (sent_image (eth_header (src_mac d)) (frame_bytes [request ix cmd adp ado payload]))"
proof -
  have len: "length (fs_tx c) = n" using wf by (simp add: chan_wf_def)
  have k: "max 46 (14 + length payload) = length (frame_bytes [request ix cmd adp ado payload])"
    by (simp add: request_def)
  show ?thesis
    using stage_first [where b = "one_datagram cmd adp ado payload" and h = h,
        OF wf dev one_datagram_eq [OF fits len, of cmd adp ado ix]] fits len
    unfolding k by (simp add: request_def)
qed

end
