(* ===== verification/Change.thy ===== *)
theory Change
  imports Channel
begin

text \<open>
  The application-layer state change, \<^verbatim>\<open>src/ethercat/fsm_change.rs\<close>: write AL control, poll AL
  status until the slave reports the target, acknowledge a latched error once, and read the AL
  status code when the error persists. The machine is an instance of \<open>bounded_fsm\<close>, so it always
  comes to an end; the other lemmas say when it may report success and which error it reports.
\<close>

unbundle bit_operations_syntax

section \<open>The machine\<close>

definition MAX_STATE_WAITS :: u32 where "MAX_STATE_WAITS = 1000"

datatype change_state = WriteControl | ReadStatus | AckError | ReadStatusCode | ChangeDone

record fsm_change = chan +
  fc_station :: u16
  fc_target :: u8
  fc_state :: change_state
  fc_waits :: u32
  fc_acked :: bool

definition change_new :: "u16 \<Rightarrow> u8 \<Rightarrow> fsm_change" where
  "change_new station target =
     \<lparr>fs_pump = pump_new, fs_tx = replicate 64 0, fs_tx_len = 0, fs_rx = replicate 128 0,
      fc_station = station, fc_target = target, fc_state = WriteControl, fc_waits = 0,
      fc_acked = False\<rparr>"

text \<open>What each stage does with the reply to its request.\<close>

definition change_on_write :: "fsm_change \<Rightarrow> reply \<Rightarrow> (fsm_change \<times> bool res) option" where
  "change_on_write f r =
     (if rp_wkc r \<noteq> 1 then Some (f, Inl WorkingCounter)
      else Some (f\<lparr>fc_state := ReadStatus, fs_tx_len := 0, fc_waits := 0\<rparr>, Inr False))"

definition change_on_status :: "fsm_change \<Rightarrow> reply \<Rightarrow> (fsm_change \<times> bool res) option" where
  "change_on_status f r =
     (if rp_wkc r \<noteq> 1 then Some (f, Inl WorkingCounter)
      else
        let status = get_or 0 (rp_data r) 0
        in if status AND al_ERROR \<noteq> 0
           then Some (f\<lparr>fs_tx_len := 0, fc_state := (if fc_acked f then ReadStatusCode else AckError)\<rparr>, Inr False)
           else if status AND al_MASK = fc_target f
           then Some (f\<lparr>fc_state := ChangeDone\<rparr>, Inr True)
           else
             let f = f\<lparr>fs_tx_len := 0, fc_waits := fc_waits f + 1\<rparr>
             in if fc_waits f \<ge> MAX_STATE_WAITS then Some (f, Inl (StateChange 0)) else Some (f, Inr False))"

definition change_on_ack :: "fsm_change \<Rightarrow> reply \<Rightarrow> (fsm_change \<times> bool res) option" where
  "change_on_ack f r =
     (if rp_wkc r \<noteq> 1 then Some (f, Inl WorkingCounter)
      else Some (f\<lparr>fc_acked := True, fc_state := ReadStatus, fs_tx_len := 0, fc_waits := 0\<rparr>, Inr False))"

definition change_on_code :: "fsm_change \<Rightarrow> reply \<Rightarrow> (fsm_change \<times> bool res) option" where
  "change_on_code f r = do {
     code \<leftarrow> (if length (rp_data r) \<ge> 2
             then do { a \<leftarrow> idx (rp_data r) 0; b \<leftarrow> idx (rp_data r) 1; Some (of_le16 a b) }
             else Some 0);
     Some (f, Inl (StateChange code)) }"

definition change_step :: "fsm_change fsm_step" where
  "change_step f d ix =
     (case fc_state f of
        WriteControl \<Rightarrow>
          stage f d ix (one_datagram Fpwr (fc_station f) reg_AL_CONTROL [fc_target f, 0]) (on_reply change_on_write)
      | ReadStatus \<Rightarrow>
          stage f d ix (one_datagram Fprd (fc_station f) reg_AL_STATUS [0, 0]) (on_reply change_on_status)
      | AckError \<Rightarrow>
          stage f d ix (one_datagram Fpwr (fc_station f) reg_AL_CONTROL [fc_target f OR al_ACK_ERROR, 0])
            (on_reply change_on_ack)
      | ReadStatusCode \<Rightarrow>
          stage f d ix (one_datagram Fprd (fc_station f) reg_AL_STATUS_CODE [0, 0]) (on_reply change_on_code)
      | ChangeDone \<Rightarrow> Some (f, d, ix, Inr True))"

lemmas change_handlers = change_on_write_def change_on_status_def change_on_ack_def change_on_code_def

section \<open>Termination and absence of panics\<close>

definition change_inv :: "fsm_change \<Rightarrow> bool" where
  "change_inv f \<longleftrightarrow> chan_wf 64 128 f \<and> (fc_state f = ReadStatus \<longrightarrow> fc_waits f < MAX_STATE_WAITS)"

text \<open>How many exchanges may still follow the current one.\<close>

definition change_rank :: "fsm_change \<Rightarrow> nat" where
  "change_rank f =
     (case fc_state f of
        WriteControl \<Rightarrow> 2003
      | ReadStatus \<Rightarrow> (if fc_acked f then 1001 else 2002) - unat (fc_waits f)
      | AckError \<Rightarrow> 1002
      | ReadStatusCode \<Rightarrow> 0
      | ChangeDone \<Rightarrow> 0)"

definition change_left :: "fsm_change \<Rightarrow> nat" where
  "change_left f = stage_left change_rank f"

lemma change_rank_chan [simp]: "change_rank (chan_upd f p t k x) = change_rank f"
  by (cases "fc_state f") (simp_all add: change_rank_def)

lemma unat_waits:
  assumes "w < MAX_STATE_WAITS" "\<not> MAX_STATE_WAITS \<le> w + 1"
  shows "unat (w + 1) = unat w + 1" "unat w + 1 < 1000"
proof -
  show i: "unat (w + 1) = unat w + 1" by (rule unat_inc [OF assms(1)])
  have "unat (w + 1) < unat MAX_STATE_WAITS"
    using assms(2) by (simp add: not_le word_less_nat_alt)
  then show "unat w + 1 < 1000" using i by (simp add: MAX_STATE_WAITS_def)
qed

interpretation change: bounded_fsm change_step change_inv change_left
proof
  fix f d ix
  assume inv: "change_inv f" and dev: "dev_wf d"
  then have wf: "chan_wf 64 128 f" by (simp add: change_inv_def)
  have b: "builder_ok 64 (one_datagram cmd adp ado [a, b])" for cmd adp ado a b
    by (rule one_datagram_ok) auto
  have stg: "\<exists>f' d' ix' r. stage f d ix (one_datagram cmd adp ado [a, b]) (on_reply h) = Some (f', d', ix', r) \<and>
      dev_wf d' \<and> (r = Inr False \<longrightarrow> change_inv f' \<and> change_left f' < change_left f)"
    if "\<And>p t k x r. chan_wf 64 128 (chan_upd f p t k x) \<Longrightarrow> \<exists>g out. h (chan_upd f p t k x) r = Some (g, out) \<and>
          (out = Inr False \<longrightarrow> change_inv g \<and> change_rank g < change_rank f)"
    for cmd adp ado a b h
    unfolding change_left_def
    by (rule stage_reply_ok [OF wf dev b]) (use inv that in \<open>auto simp: change_inv_def\<close>)
  have low: "fc_state f = ReadStatus \<Longrightarrow> unat (fc_waits f) < 1000"
    using inv by (simp add: change_inv_def MAX_STATE_WAITS_def word_less_nat_alt)
  show "\<exists>f' d' ix' r. change_step f d ix = Some (f', d', ix', r) \<and> dev_wf d' \<and>
          (r = Inr False \<longrightarrow> change_inv f' \<and> change_left f' < change_left f)"
  proof (cases "fc_state f")
    case WriteControl
    show ?thesis
      unfolding change_step_def WriteControl change_state.case
      by (rule stg) (simp add: WriteControl change_on_write_def change_inv_def change_rank_def
          chan_wf_def MAX_STATE_WAITS_def)
  next
    case ReadStatus
    then have w: "fc_waits f < MAX_STATE_WAITS" using inv by (simp add: change_inv_def)
    show ?thesis
      unfolding change_step_def ReadStatus change_state.case
      by (rule stg) (use ReadStatus w low unat_waits [OF w] in
          \<open>auto simp: change_on_status_def change_inv_def change_rank_def chan_wf_def Let_def not_le\<close>)
  next
    case AckError
    show ?thesis
      unfolding change_step_def AckError change_state.case
      by (rule stg) (simp add: AckError change_on_ack_def change_inv_def change_rank_def
          chan_wf_def MAX_STATE_WAITS_def)
  next
    case ReadStatusCode
    show ?thesis
      unfolding change_step_def ReadStatusCode change_state.case
      by (rule stg) (simp add: change_on_code_def idx_def)
  next
    case ChangeDone
    then show ?thesis using dev by (simp add: change_step_def)
  qed
qed

lemma change_new_inv: "change_inv (change_new station target)"
  by (simp add: change_inv_def chan_wf_def change_new_def pump_new_def)

lemma change_new_left: "change_left (change_new station target) = 2003 * 2003 + 2002"
  by (simp add: change_left_def stage_left_def change_rank_def chan_left_def change_new_def)

section \<open>What the machine reports\<close>

text \<open>Success is reported only on an AL status reply of the addressed slave (working counter 1)
  that shows the target state and no error.\<close>

definition status_confirms :: "reply \<Rightarrow> u8 \<Rightarrow> bool" where
  "status_confirms r target \<longleftrightarrow> rp_wkc r = 1 \<and> get_or 0 (rp_data r) 0 AND al_ERROR = 0 \<and>
     get_or 0 (rp_data r) 0 AND al_MASK = target"

lemma chan_reply_fields [simp]:
  "chan_reply (f\<lparr>fc_state := s\<rparr>) len = chan_reply f len"
  by (simp add: chan_reply_def)

lemma change_done_status:
  assumes "change_step f d ix = Some (f', d', ix', Inr True)" "fc_state f \<noteq> ChangeDone"
  shows "fc_state f = ReadStatus \<and> fc_state f' = ChangeDone \<and>
    (\<exists>len r. chan_reply f' len = Some (Inr r) \<and> status_confirms r (fc_target f))"
  using assms unfolding change_step_def
  by (auto split: change_state.split_asm if_split_asm elim!: stage_reply_eq_Some
      simp: change_handlers status_confirms_def Let_def Option.bind_eq_Some_conv) blast

text \<open>The AL status code is read, and reported, only after the error was acknowledged once.\<close>

lemma change_error_code:
  assumes "change_step f d ix = Some (f', d', ix', Inl (StateChange code))"
  shows "fc_state f = ReadStatus \<and> code = 0 \<or> fc_state f = ReadStatusCode"
  using assms unfolding change_step_def
  by (auto split: change_state.split_asm if_split_asm elim!: stage_reply_eq_Some
      simp: change_handlers Let_def Option.bind_eq_Some_conv)

definition ack_inv :: "fsm_change \<Rightarrow> bool" where
  "ack_inv f \<longleftrightarrow> (fc_state f = AckError \<longrightarrow> \<not> fc_acked f) \<and> (fc_state f = ReadStatusCode \<longrightarrow> fc_acked f)"

lemma ack_inv_step:
  assumes "ack_inv f" "change_step f d ix = Some (f', d', ix', Inr False)"
  shows "ack_inv f'"
  using assms unfolding change_step_def
  by (auto split: change_state.split_asm if_split_asm elim!: stage_reply_eq_Some
      simp: change_handlers ack_inv_def Let_def Option.bind_eq_Some_conv)

lemma ack_inv_reach:
  assumes "fsm_reach change_step (change_new station target) f"
  shows "ack_inv f"
  using assms
proof (rule reach_invariant)
  show "ack_inv (change_new station target)" by (simp add: ack_inv_def change_new_def)
qed (rule ack_inv_step)

end
