(* ===== verification/Config.thy ===== *)
theory Config
  imports Ecrt
begin

text \<open>
  The desired bus configuration: the data model \<^verbatim>\<open>src/ethercat/config/model.rs\<close> and the tables of
  \<^verbatim>\<open>src/ethercat/config/generated.rs\<close> (two servo drives). \<open>bus_wf\<close> is the consistency the bring-up,
  the process-data domain and the pin layer rely on: sizes that add up, FMMU windows that tile the
  process image without gap or overlap (outputs first), pins that lie in a window of their
  direction and are pairwise disjoint. The generated bus satisfies it.
\<close>

unbundle bit_operations_syntax

section \<open>Data model\<close>

datatype hal_type = HalBit | HalU32 | HalS32

record pdo_cfg =
  pdo_index :: u16
  pdo_entries :: "ec_pdo_entry_info list"

record sm_cfg =
  sm_index :: u8
  sm_phys_start :: u16
  sm_control :: u8
  sm_dir :: ec_direction
  sm_size :: u16
  sm_pdos :: "pdo_cfg list"

record fmmu_cfg =
  fmmu_logical_start :: u32
  fmmu_size :: u16
  fmmu_phys_start :: u16
  fmmu_dir :: ec_direction

record dc_cfg =
  assign_activate :: u16
  sync0_cycle_ns :: u32
  sync0_shift_ns :: u32
  sync1_cycle_ns :: u32

record sdo_init =
  sdo_index :: u16
  sdo_subindex :: u8
  sdo_data :: bytes

record stream_field =
  sf_sample_off :: u16
  sf_image_off :: u32
  sf_len :: u8

record pin_cfg =
  pin_name :: string
  pin_byte_offset :: u32
  pin_bit_pos :: u8
  pin_bit_len :: u8
  pin_hal_type :: hal_type
  pin_dir :: ec_direction

record slave_cfg =
  sl_position :: u16
  sl_vendor_id :: u32
  sl_product_code :: u32
  sl_sms :: "sm_cfg list"
  sl_fmmus :: "fmmu_cfg list"
  sl_dc :: "dc_cfg option"
  sl_sdo_init :: "sdo_init list"
  sl_out_size :: u16
  sl_in_size :: u16

record bus_cfg =
  bus_cycle_ns :: u64
  bus_ref_clock_slave :: u16
  bus_slaves :: "slave_cfg list"
  bus_pins :: "pin_cfg list"
  bus_image_size :: nat

text \<open>\<^verbatim>\<open>BusCfg::pin\<close>\<close>

definition bus_pin :: "bus_cfg \<Rightarrow> string \<Rightarrow> pin_cfg option" where
  "bus_pin b name = find (\<lambda>p. pin_name p = name) (bus_pins b)"

section \<open>The generated bus\<close>

definition pdo_e :: "u16 \<Rightarrow> u8 \<Rightarrow> u8 \<Rightarrow> ec_pdo_entry_info" where
  "pdo_e ix sub bits = \<lparr>pe_index = ix, pe_subindex = sub, pe_bit_length = bits\<rparr>"

definition pin_row :: "string \<Rightarrow> u32 \<Rightarrow> u8 \<Rightarrow> u8 \<Rightarrow> hal_type \<Rightarrow> ec_direction \<Rightarrow> pin_cfg" where
  "pin_row name off pos len t dir =
     \<lparr>pin_name = name, pin_byte_offset = off, pin_bit_pos = pos, pin_bit_len = len,
      pin_hal_type = t, pin_dir = dir\<rparr>"

definition S0_RX_P0_ENTRIES :: "ec_pdo_entry_info list" where
  "S0_RX_P0_ENTRIES = [
    pdo_e 0x6040 0x00 16,
    pdo_e 0x607A 0x00 32,
    pdo_e 0x60FF 0x00 32,
    pdo_e 0x60B8 0x00 16,
    pdo_e 0x60FE 0x01 32]"

definition S0_RX_PDOS :: "pdo_cfg list" where
  "S0_RX_PDOS = [\<lparr>pdo_index = 0x1600, pdo_entries = S0_RX_P0_ENTRIES\<rparr>]"

definition S0_TX_P0_ENTRIES :: "ec_pdo_entry_info list" where
  "S0_TX_P0_ENTRIES = [
    pdo_e 0x603F 0x00 16,
    pdo_e 0x6041 0x00 16,
    pdo_e 0x6064 0x00 32,
    pdo_e 0x60FD 0x00 32,
    pdo_e 0x606C 0x00 32,
    pdo_e 0x60F4 0x00 32,
    pdo_e 0x60B9 0x00 16,
    pdo_e 0x60BA 0x00 32,
    pdo_e 0x60BB 0x00 32,
    pdo_e 0x60BC 0x00 32,
    pdo_e 0x60BD 0x00 32,
    pdo_e 0x6061 0x00 8]"

definition S0_TX_PDOS :: "pdo_cfg list" where
  "S0_TX_PDOS = [\<lparr>pdo_index = 0x1A00, pdo_entries = S0_TX_P0_ENTRIES\<rparr>]"

definition S0_SMS :: "sm_cfg list" where
  "S0_SMS = [
    \<lparr>sm_index = 2, sm_phys_start = 0x1200, sm_control = 0x64, sm_dir = Output, sm_size = 16, sm_pdos = S0_RX_PDOS\<rparr>,
    \<lparr>sm_index = 3, sm_phys_start = 0x1300, sm_control = 0x20, sm_dir = Input, sm_size = 39, sm_pdos = S0_TX_PDOS\<rparr>]"

definition S0_FMMUS :: "fmmu_cfg list" where
  "S0_FMMUS = [
    \<lparr>fmmu_logical_start = 0, fmmu_size = 16, fmmu_phys_start = 0x1200, fmmu_dir = Output\<rparr>,
    \<lparr>fmmu_logical_start = 32, fmmu_size = 39, fmmu_phys_start = 0x1300, fmmu_dir = Input\<rparr>]"

definition S0_SDO_INIT :: "sdo_init list" where
  "S0_SDO_INIT = [\<lparr>sdo_index = 0x6060, sdo_subindex = 0x00, sdo_data = [0x08]\<rparr>]"

definition S1_RX_P0_ENTRIES :: "ec_pdo_entry_info list" where
  "S1_RX_P0_ENTRIES = [
    pdo_e 0x6040 0x00 16,
    pdo_e 0x607A 0x00 32,
    pdo_e 0x60FF 0x00 32,
    pdo_e 0x60B8 0x00 16,
    pdo_e 0x60FE 0x01 32]"

definition S1_RX_PDOS :: "pdo_cfg list" where
  "S1_RX_PDOS = [\<lparr>pdo_index = 0x1600, pdo_entries = S1_RX_P0_ENTRIES\<rparr>]"

definition S1_TX_P0_ENTRIES :: "ec_pdo_entry_info list" where
  "S1_TX_P0_ENTRIES = [
    pdo_e 0x603F 0x00 16,
    pdo_e 0x6041 0x00 16,
    pdo_e 0x6064 0x00 32,
    pdo_e 0x60FD 0x00 32,
    pdo_e 0x606C 0x00 32,
    pdo_e 0x60F4 0x00 32,
    pdo_e 0x60B9 0x00 16,
    pdo_e 0x60BA 0x00 32,
    pdo_e 0x60BB 0x00 32,
    pdo_e 0x60BC 0x00 32,
    pdo_e 0x60BD 0x00 32,
    pdo_e 0x6061 0x00 8]"

definition S1_TX_PDOS :: "pdo_cfg list" where
  "S1_TX_PDOS = [\<lparr>pdo_index = 0x1A00, pdo_entries = S1_TX_P0_ENTRIES\<rparr>]"

definition S1_SMS :: "sm_cfg list" where
  "S1_SMS = [
    \<lparr>sm_index = 2, sm_phys_start = 0x1200, sm_control = 0x64, sm_dir = Output, sm_size = 16, sm_pdos = S1_RX_PDOS\<rparr>,
    \<lparr>sm_index = 3, sm_phys_start = 0x1300, sm_control = 0x20, sm_dir = Input, sm_size = 39, sm_pdos = S1_TX_PDOS\<rparr>]"

definition S1_FMMUS :: "fmmu_cfg list" where
  "S1_FMMUS = [
    \<lparr>fmmu_logical_start = 16, fmmu_size = 16, fmmu_phys_start = 0x1200, fmmu_dir = Output\<rparr>,
    \<lparr>fmmu_logical_start = 71, fmmu_size = 39, fmmu_phys_start = 0x1300, fmmu_dir = Input\<rparr>]"

definition S1_SDO_INIT :: "sdo_init list" where
  "S1_SDO_INIT = [\<lparr>sdo_index = 0x6060, sdo_subindex = 0x00, sdo_data = [0x08]\<rparr>]"

definition SLAVES :: "slave_cfg list" where
  "SLAVES = [
    \<lparr>sl_position = 0, sl_vendor_id = 0x00000994, sl_product_code = 0x00001B00, sl_sms = S0_SMS, sl_fmmus = S0_FMMUS,
     sl_dc = Some \<lparr>assign_activate = 0x0300, sync0_cycle_ns = 10000000, sync0_shift_ns = 0, sync1_cycle_ns = 0\<rparr>,
     sl_sdo_init = S0_SDO_INIT, sl_out_size = 16, sl_in_size = 39\<rparr>,
    \<lparr>sl_position = 1, sl_vendor_id = 0x00000994, sl_product_code = 0x00001B00, sl_sms = S1_SMS, sl_fmmus = S1_FMMUS,
     sl_dc = Some \<lparr>assign_activate = 0x0300, sync0_cycle_ns = 10000000, sync0_shift_ns = 0, sync1_cycle_ns = 0\<rparr>,
     sl_sdo_init = S1_SDO_INIT, sl_out_size = 16, sl_in_size = 39\<rparr>]"

definition PINS :: "pin_cfg list" where
  "PINS = [
    pin_row ''drive0-controlword'' 0 0 16 HalU32 Output,
    pin_row ''drive0-target-position'' 2 0 32 HalS32 Output,
    pin_row ''drive0-target-velocity'' 6 0 32 HalS32 Output,
    pin_row ''drive0-touch-probe-function'' 10 0 16 HalU32 Output,
    pin_row ''drive0-digital-outputs'' 12 0 32 HalU32 Output,
    pin_row ''drive0-error-code'' 32 0 16 HalU32 Input,
    pin_row ''drive0-statusword'' 34 0 16 HalU32 Input,
    pin_row ''drive0-actual-position'' 36 0 32 HalS32 Input,
    pin_row ''drive0-digital-inputs'' 40 0 32 HalU32 Input,
    pin_row ''drive0-actual-velocity'' 44 0 32 HalS32 Input,
    pin_row ''drive0-follow-error'' 48 0 32 HalS32 Input,
    pin_row ''drive0-touch-probe-status'' 52 0 16 HalU32 Input,
    pin_row ''drive0-touch-probe-pos1-positive'' 54 0 32 HalS32 Input,
    pin_row ''drive0-touch-probe-pos1-negative'' 58 0 32 HalS32 Input,
    pin_row ''drive0-touch-probe-pos2-positive'' 62 0 32 HalS32 Input,
    pin_row ''drive0-touch-probe-pos2-negative'' 66 0 32 HalS32 Input,
    pin_row ''drive0-op-mode-display'' 70 0 8 HalS32 Input,
    pin_row ''drive1-controlword'' 16 0 16 HalU32 Output,
    pin_row ''drive1-target-position'' 18 0 32 HalS32 Output,
    pin_row ''drive1-target-velocity'' 22 0 32 HalS32 Output,
    pin_row ''drive1-touch-probe-function'' 26 0 16 HalU32 Output,
    pin_row ''drive1-digital-outputs'' 28 0 32 HalU32 Output,
    pin_row ''drive1-error-code'' 71 0 16 HalU32 Input,
    pin_row ''drive1-statusword'' 73 0 16 HalU32 Input,
    pin_row ''drive1-actual-position'' 75 0 32 HalS32 Input,
    pin_row ''drive1-digital-inputs'' 79 0 32 HalU32 Input,
    pin_row ''drive1-actual-velocity'' 83 0 32 HalS32 Input,
    pin_row ''drive1-follow-error'' 87 0 32 HalS32 Input,
    pin_row ''drive1-touch-probe-status'' 91 0 16 HalU32 Input,
    pin_row ''drive1-touch-probe-pos1-positive'' 93 0 32 HalS32 Input,
    pin_row ''drive1-touch-probe-pos1-negative'' 97 0 32 HalS32 Input,
    pin_row ''drive1-touch-probe-pos2-positive'' 101 0 32 HalS32 Input,
    pin_row ''drive1-touch-probe-pos2-negative'' 105 0 32 HalS32 Input,
    pin_row ''drive1-op-mode-display'' 109 0 8 HalS32 Input]"

definition BUS :: bus_cfg where
  "BUS = \<lparr>bus_cycle_ns = 10000000, bus_ref_clock_slave = 0, bus_slaves = SLAVES, bus_pins = PINS,
          bus_image_size = 110\<rparr>"

lemmas bus_table =
  BUS_def SLAVES_def S0_SMS_def S1_SMS_def S0_FMMUS_def S1_FMMUS_def S0_SDO_INIT_def S1_SDO_INIT_def
  S0_RX_PDOS_def S0_TX_PDOS_def S1_RX_PDOS_def S1_TX_PDOS_def
  S0_RX_P0_ENTRIES_def S0_TX_P0_ENTRIES_def S1_RX_P0_ENTRIES_def S1_TX_P0_ENTRIES_def pdo_e_def

section \<open>Consistency\<close>

definition pdo_bits :: "pdo_cfg \<Rightarrow> nat" where
  "pdo_bits p = (\<Sum>e\<leftarrow>pdo_entries p. unat (pe_bit_length e))"

definition sm_wf :: "sm_cfg \<Rightarrow> bool" where
  "sm_wf s \<longleftrightarrow> 8 * unat (sm_size s) = (\<Sum>p\<leftarrow>sm_pdos s. pdo_bits p) \<and>
     list_all (\<lambda>p. length (pdo_entries p) \<le> EC_MAX_PDO_ENTRIES) (sm_pdos s) \<and> length (sm_pdos s) \<le> 8"

text \<open>The windows of a slave are those of its sync managers, in the same order.\<close>

definition fmmu_of_sm :: "sm_cfg \<Rightarrow> fmmu_cfg \<Rightarrow> bool" where
  "fmmu_of_sm s f \<longleftrightarrow> fmmu_size f = sm_size s \<and> fmmu_phys_start f = sm_phys_start s \<and> fmmu_dir f = sm_dir s"

definition slave_wf :: "slave_cfg \<Rightarrow> bool" where
  "slave_wf s \<longleftrightarrow>
     list_all sm_wf (sl_sms s) \<and> list_all2 fmmu_of_sm (sl_sms s) (sl_fmmus s) \<and>
     unat (sl_out_size s) = (\<Sum>m\<leftarrow>sl_sms s. if sm_dir m = Output then unat (sm_size m) else 0) \<and>
     unat (sl_in_size s) = (\<Sum>m\<leftarrow>sl_sms s. if sm_dir m = Input then unat (sm_size m) else 0) \<and>
     list_all (\<lambda>i. length (sdo_data i) \<le> 4) (sl_sdo_init s) \<and> length (sl_sdo_init s) \<le> 36 \<and>
     length (sl_sms s) \<le> 8 \<and> length (sl_fmmus s) \<le> 8"

definition fmmus_of :: "ec_direction \<Rightarrow> bus_cfg \<Rightarrow> fmmu_cfg list" where
  "fmmus_of dir b = [f \<leftarrow> concat (map sl_fmmus (bus_slaves b)). fmmu_dir f = dir]"

text \<open>\<open>tiles a fs e\<close>: the windows \<open>fs\<close> follow each other from \<open>a\<close> to \<open>e\<close> without a gap.\<close>

fun tiles :: "nat \<Rightarrow> fmmu_cfg list \<Rightarrow> nat \<Rightarrow> bool" where
  "tiles a [] e \<longleftrightarrow> a = e"
| "tiles a (f # fs) e \<longleftrightarrow> unat (fmmu_logical_start f) = a \<and> tiles (a + unat (fmmu_size f)) fs e"

definition pin_first_bit :: "pin_cfg \<Rightarrow> nat" where
  "pin_first_bit p = 8 * unat (pin_byte_offset p) + unat (pin_bit_pos p)"

definition pin_end_bit :: "pin_cfg \<Rightarrow> nat" where
  "pin_end_bit p = pin_first_bit p + unat (pin_bit_len p)"

definition pin_in_window :: "pin_cfg \<Rightarrow> fmmu_cfg \<Rightarrow> bool" where
  "pin_in_window p f \<longleftrightarrow> pin_dir p = fmmu_dir f \<and> 8 * unat (fmmu_logical_start f) \<le> pin_first_bit p \<and>
     pin_end_bit p \<le> 8 * (unat (fmmu_logical_start f) + unat (fmmu_size f))"

definition pins_disjoint :: "pin_cfg \<Rightarrow> pin_cfg \<Rightarrow> bool" where
  "pins_disjoint p q \<longleftrightarrow> pin_end_bit p \<le> pin_first_bit q \<or> pin_end_bit q \<le> pin_first_bit p"

fun all_pairs :: "('a \<Rightarrow> 'a \<Rightarrow> bool) \<Rightarrow> 'a list \<Rightarrow> bool" where
  "all_pairs P [] \<longleftrightarrow> True"
| "all_pairs P (x # xs) \<longleftrightarrow> list_all (P x) xs \<and> all_pairs P xs"

definition bus_out_bytes :: "bus_cfg \<Rightarrow> nat" where
  "bus_out_bytes b = (\<Sum>s\<leftarrow>bus_slaves b. unat (sl_out_size s))"

definition bus_in_bytes :: "bus_cfg \<Rightarrow> nat" where
  "bus_in_bytes b = (\<Sum>s\<leftarrow>bus_slaves b. unat (sl_in_size s))"

definition bus_layout_wf :: "bus_cfg \<Rightarrow> bool" where
  "bus_layout_wf b \<longleftrightarrow>
     list_all slave_wf (bus_slaves b) \<and>
     tiles 0 (fmmus_of Output b) (bus_out_bytes b) \<and>
     tiles (bus_out_bytes b) (fmmus_of Input b) (bus_image_size b)"

definition bus_pins_wf :: "bus_cfg \<Rightarrow> bool" where
  "bus_pins_wf b \<longleftrightarrow>
     list_all (\<lambda>p. list_ex (pin_in_window p) (concat (map sl_fmmus (bus_slaves b)))) (bus_pins b) \<and>
     all_pairs pins_disjoint (bus_pins b) \<and> distinct (map pin_name (bus_pins b)) \<and>
     list_all (\<lambda>p. 1 \<le> pin_bit_len p \<and> pin_bit_len p \<le> 32 \<and> pin_bit_pos p < 8) (bus_pins b)"

lemma BUS_layout: "bus_layout_wf BUS"
  by (simp add: bus_layout_wf_def slave_wf_def sm_wf_def fmmu_of_sm_def fmmus_of_def bus_out_bytes_def
      pdo_bits_def bus_table)

lemma BUS_pins: "bus_pins_wf BUS"
proof -
  have "all_pairs pins_disjoint PINS"
    by (simp add: PINS_def pin_row_def pins_disjoint_def pin_first_bit_def pin_end_bit_def)
  moreover have "list_all (\<lambda>p. list_ex (pin_in_window p) (concat (map sl_fmmus (bus_slaves BUS)))) PINS"
    by (simp add: PINS_def pin_row_def pin_in_window_def pin_first_bit_def pin_end_bit_def bus_table)
  moreover have "distinct (map pin_name PINS)"
    by (simp add: PINS_def pin_row_def)
  moreover have "list_all (\<lambda>p. 1 \<le> pin_bit_len p \<and> pin_bit_len p \<le> 32 \<and> pin_bit_pos p < 8) PINS"
    by (simp add: PINS_def pin_row_def)
  ultimately show ?thesis by (simp add: bus_pins_wf_def BUS_def)
qed

lemma all_pairs_nth: "all_pairs P xs \<Longrightarrow> i < j \<Longrightarrow> j < length xs \<Longrightarrow> P (xs ! i) (xs ! j)"
proof (induction xs arbitrary: i j)
  case Nil
  then show ?case by simp
next
  case (Cons x xs)
  then show ?case
    by (cases i; cases j) (auto simp: list_all_length)
qed

lemma tiles_sum: "tiles a fs e \<Longrightarrow> e = a + (\<Sum>f\<leftarrow>fs. unat (fmmu_size f))"
  by (induction a fs e rule: tiles.induct) auto

text \<open>A logical address of the image belongs to exactly one window.\<close>

lemma tiles_cover:
  "tiles a fs e \<Longrightarrow> a \<le> x \<Longrightarrow> x < e \<Longrightarrow>
     \<exists>i<length fs. unat (fmmu_logical_start (fs ! i)) \<le> x \<and>
       x < unat (fmmu_logical_start (fs ! i)) + unat (fmmu_size (fs ! i))"
proof (induction fs arbitrary: a)
  case Nil
  then show ?case by simp
next
  case (Cons f fs)
  show ?case
  proof (cases "x < a + unat (fmmu_size f)")
    case True
    then show ?thesis using Cons.prems by (intro exI [of _ 0]) auto
  next
    case False
    then obtain i where "i < length fs" "unat (fmmu_logical_start (fs ! i)) \<le> x"
        "x < unat (fmmu_logical_start (fs ! i)) + unat (fmmu_size (fs ! i))"
      using Cons by fastforce
    then show ?thesis by (intro exI [of _ "Suc i"]) auto
  qed
qed

end
