(* ===== verification/Pages.thy ===== *)
theory Pages
  imports Config
begin

text \<open>
  The register pages and headers the master renders into byte buffers: sync-manager pages
  (\<^verbatim>\<open>src/ethercat/sync.rs\<close>), FMMU pages (\<^verbatim>\<open>src/ethercat/fmmu_config.rs\<close>), the mailbox header
  (\<^verbatim>\<open>src/ethercat/mailbox.rs\<close>) and the discovered-slave record with its mailbox parameters
  (\<^verbatim>\<open>src/ethercat/slave.rs\<close>). The lemmas give the contents of each page and the round trip of the
  mailbox header.
\<close>

unbundle bit_operations_syntax

section \<open>Discovered slaves\<close>

record slave_info =
  ring_pos :: u16
  station_addr :: u16
  al_state :: u8
  base_type :: u8
  base_fmmu_count :: u8
  base_sync_count :: u8
  vendor_id :: u32
  product_code :: u32
  revision :: u32
  rx_mbox_offset :: u16
  rx_mbox_size :: u16
  tx_mbox_offset :: u16
  tx_mbox_size :: u16
  mbox_protocols :: u16
  supports_coe :: bool

definition slave_info_default :: slave_info where
  "slave_info_default =
     \<lparr>ring_pos = 0, station_addr = 0, al_state = 0, base_type = 0, base_fmmu_count = 0,
      base_sync_count = 0, vendor_id = 0, product_code = 0, revision = 0, rx_mbox_offset = 0,
      rx_mbox_size = 0, tx_mbox_offset = 0, tx_mbox_size = 0, mbox_protocols = 0,
      supports_coe = False\<rparr>"

record mailbox =
  mb_station_addr :: u16
  mb_rx_offset :: u16
  mb_rx_size :: u16
  mb_tx_offset :: u16
  mb_tx_size :: u16

definition mailbox_of :: "slave_info \<Rightarrow> mailbox" where
  "mailbox_of s =
     \<lparr>mb_station_addr = station_addr s, mb_rx_offset = rx_mbox_offset s, mb_rx_size = rx_mbox_size s,
      mb_tx_offset = tx_mbox_offset s, mb_tx_size = tx_mbox_size s\<rparr>"

section \<open>Sync-manager pages\<close>

definition sync_write_page :: "bytes \<Rightarrow> u16 \<Rightarrow> u16 \<Rightarrow> u8 \<Rightarrow> u8 \<Rightarrow> bytes option" where
  "sync_write_page page phys_start len control enable = do {
     page \<leftarrow> in_window page 0 2 (\<lambda>w. write_u16_le w phys_start);
     page \<leftarrow> in_window page 2 4 (\<lambda>w. write_u16_le w len);
     page \<leftarrow> in_window page 4 5 (\<lambda>w. write_u8 w control);
     page \<leftarrow> in_window page 5 6 (\<lambda>w. write_u8 w 0);
     page \<leftarrow> in_window page 6 7 (\<lambda>w. write_u8 w enable);
     in_window page 7 8 (\<lambda>w. write_u8 w 0) }"

definition write_mailbox_out :: "bytes \<Rightarrow> u16 \<Rightarrow> u16 \<Rightarrow> bytes option" where
  "write_mailbox_out page phys_start sz = sync_write_page page phys_start sz sm_CONTROL_MBOX_WRITE sm_ENABLE"

definition write_mailbox_in :: "bytes \<Rightarrow> u16 \<Rightarrow> u16 \<Rightarrow> bytes option" where
  "write_mailbox_in page phys_start sz = sync_write_page page phys_start sz sm_CONTROL_MBOX_READ sm_ENABLE"

definition write_process_out :: "bytes \<Rightarrow> u16 \<Rightarrow> u16 \<Rightarrow> u8 \<Rightarrow> bytes option" where
  "write_process_out page phys_start sz control =
     (let enable = (if sz > 0 then sm_ENABLE else 0) in sync_write_page page phys_start sz control enable)"

definition write_process_in :: "bytes \<Rightarrow> u16 \<Rightarrow> u16 \<Rightarrow> u8 \<Rightarrow> bytes option" where
  "write_process_in page phys_start sz control =
     (let enable = (if sz > 0 then sm_ENABLE else 0) in sync_write_page page phys_start sz control enable)"

section \<open>FMMU pages\<close>

definition fmmu_write_page :: "bytes \<Rightarrow> fmmu_cfg \<Rightarrow> bytes option" where
  "fmmu_write_page page cfg = do {
     page \<leftarrow> in_window page 0 4 (\<lambda>w. write_u32_le w (fmmu_logical_start cfg));
     page \<leftarrow> in_window page 4 6 (\<lambda>w. write_u16_le w (fmmu_size cfg));
     page \<leftarrow> put page 6 0x00;
     page \<leftarrow> put page 7 0x07;
     page \<leftarrow> in_window page 8 10 (\<lambda>w. write_u16_le w (fmmu_phys_start cfg));
     page \<leftarrow> put page 10 0x00;
     page \<leftarrow> put page 11 (case fmmu_dir cfg of Input \<Rightarrow> fmmu_DIR_INPUT | Output \<Rightarrow> fmmu_DIR_OUTPUT);
     page \<leftarrow> in_window page 12 14 (\<lambda>w. write_u16_le w 0x0001);
     in_window page 14 16 (\<lambda>w. write_u16_le w 0x0000) }"

section \<open>Mailbox header\<close>

definition write_header :: "bytes \<Rightarrow> u16 \<Rightarrow> u8 \<Rightarrow> u8 \<Rightarrow> bytes option" where
  "write_header buf data_len mbox_type counter = do {
     buf \<leftarrow> in_window buf 0 2 (\<lambda>w. write_u16_le w data_len);
     buf \<leftarrow> in_window buf 2 4 (\<lambda>w. write_u16_le w 0);
     buf \<leftarrow> put buf 4 0;
     put buf 5 ((mbox_type AND 0x0F) OR push_bit 4 (counter AND 0x07)) }"

record mbox_header =
  mh_data_len :: u16
  mh_mbox_type :: u8
  mh_counter :: u8

definition parse_header :: "bytes \<Rightarrow> mbox_header option option" where
  "parse_header buf =
     (if length buf < mbox_HEADER_SIZE then Some None
      else do {
        flags \<leftarrow> idx buf 5;
        w \<leftarrow> slice buf 0 2;
        data_len \<leftarrow> read_u16_le w;
        Some (Some \<lparr>mh_data_len = data_len, mh_mbox_type = flags AND 0x0F,
                    mh_counter = drop_bit 4 flags AND 0x07\<rparr>) })"

section \<open>Contents of the pages\<close>

text \<open>Windows of a buffer that is filled from the front.\<close>

lemma in_window_fill:
  assumes "length pre = a" "b = a + n" "n \<le> length rest" "f (take n rest) = Some w" "length w = n"
  shows "in_window (filled pre rest) a b f = Some (filled (pre @ w) (drop n rest))"
  using assms by (simp add: in_window_def slice_def filled_def copy_at_def)

lemma window_u16 [fill_simps]:
  "length pre = a \<Longrightarrow> b = a + 2 \<Longrightarrow> 2 \<le> length rest \<Longrightarrow>
     in_window (filled pre rest) a b (\<lambda>w. write_u16_le w v) = Some (filled (pre @ le16 v) (drop 2 rest))"
  by (rule in_window_fill) (auto simp: write_u16_le_def copy_at_def)

lemma window_u32 [fill_simps]:
  "length pre = a \<Longrightarrow> b = a + 4 \<Longrightarrow> 4 \<le> length rest \<Longrightarrow>
     in_window (filled pre rest) a b (\<lambda>w. write_u32_le w v) = Some (filled (pre @ le32 v) (drop 4 rest))"
  by (rule in_window_fill) (auto simp: write_u32_le_def copy_at_def)

lemma window_u64 [fill_simps]:
  "length pre = a \<Longrightarrow> b = a + 8 \<Longrightarrow> 8 \<le> length rest \<Longrightarrow>
     in_window (filled pre rest) a b (\<lambda>w. write_u64_le w v) = Some (filled (pre @ le64 v) (drop 8 rest))"
  by (rule in_window_fill) (auto simp: write_u64_le_def copy_at_def)

lemma window_u8 [fill_simps]:
  "length pre = a \<Longrightarrow> b = a + 1 \<Longrightarrow> 1 \<le> length rest \<Longrightarrow>
     in_window (filled pre rest) a b (\<lambda>w. write_u8 w v) = Some (filled (pre @ [v]) (drop 1 rest))"
  by (cases rest; rule in_window_fill) (auto simp: write_u8_def put_def)

definition sm_page :: "u16 \<Rightarrow> u16 \<Rightarrow> u8 \<Rightarrow> u8 \<Rightarrow> bytes" where
  "sm_page phys_start len control enable = le16 phys_start @ le16 len @ [control, 0, enable, 0]"

definition fmmu_page :: "fmmu_cfg \<Rightarrow> bytes" where
  "fmmu_page cfg = le32 (fmmu_logical_start cfg) @ le16 (fmmu_size cfg) @ [0x00, 0x07] @
     le16 (fmmu_phys_start cfg) @ [0x00, case fmmu_dir cfg of Input \<Rightarrow> 0x01 | Output \<Rightarrow> 0x02] @
     le16 1 @ le16 0"

lemma length_pages [simp]: "length (sm_page a n c e) = 8" "length (fmmu_page cfg) = 16"
  by (simp_all add: sm_page_def fmmu_page_def)

lemma sync_write_page_eq:
  assumes "length page = 8"
  shows "sync_write_page page phys_start len control enable = Some (sm_page phys_start len control enable)"
proof -
  have "sync_write_page (filled [] page) phys_start len control enable =
          Some (filled (sm_page phys_start len control enable) (drop 8 page))"
    using assms by (simp add: sync_write_page_def fill_simps sm_page_def)
  then show ?thesis using assms by (simp add: filled_def)
qed

lemma fmmu_write_page_eq:
  assumes "length page = 16"
  shows "fmmu_write_page page cfg = Some (fmmu_page cfg)"
proof -
  have "fmmu_write_page (filled [] page) cfg = Some (filled (fmmu_page cfg) (drop 16 page))"
    using assms
    by (cases "fmmu_dir cfg")
       (simp_all add: fmmu_write_page_def fill_simps fmmu_page_def fmmu_DIR_INPUT_def fmmu_DIR_OUTPUT_def)
  then show ?thesis using assms by (simp add: filled_def)
qed

text \<open>The direction byte is the only difference between an input and an output window, and a page
  determines its configuration.\<close>

lemma le32_inject [simp]: "le32 v = le32 w \<longleftrightarrow> v = w"
proof
  assume "le32 v = le32 w"
  then have "of_le32 (le32 v ! 0) (le32 v ! 1) (le32 v ! 2) (le32 v ! 3) =
             of_le32 (le32 w ! 0) (le32 w ! 1) (le32 w ! 2) (le32 w ! 3)" by simp
  then show "v = w" by (simp add: le32_def)
qed simp

lemma fmmu_page_inject: "fmmu_page f = fmmu_page g \<longleftrightarrow> f = g"
proof
  assume eq: "fmmu_page f = fmmu_page g"
  have ls: "le32 (fmmu_logical_start f) = le32 (fmmu_logical_start g)"
    using arg_cong [OF eq, of "take 4"] by (simp add: fmmu_page_def)
  have sz: "le16 (fmmu_size f) = le16 (fmmu_size g)"
    using arg_cong [OF eq, of "\<lambda>p. take 2 (drop 4 p)"] by (simp add: fmmu_page_def)
  have ps: "le16 (fmmu_phys_start f) = le16 (fmmu_phys_start g)"
    using arg_cong [OF eq, of "\<lambda>p. take 2 (drop 8 p)"] by (simp add: fmmu_page_def)
  have "fmmu_page f ! 11 = fmmu_page g ! 11" using eq by simp
  then have dir: "fmmu_dir f = fmmu_dir g"
    by (cases "fmmu_dir f"; cases "fmmu_dir g") (auto simp: fmmu_page_def nth_append)
  show "f = g" using ls sz ps dir by (intro fmmu_cfg.equality) auto
qed simp

definition mbox_header_bytes :: "u16 \<Rightarrow> u8 \<Rightarrow> u8 \<Rightarrow> bytes" where
  "mbox_header_bytes data_len mbox_type counter =
     le16 data_len @ le16 0 @ [0, (mbox_type AND 0x0F) OR push_bit 4 (counter AND 0x07)]"

lemma length_mbox_header_bytes [simp]: "length (mbox_header_bytes n t c) = 6"
  by (simp add: mbox_header_bytes_def)

lemma write_header_eq:
  assumes "length buf = 6"
  shows "write_header buf data_len mbox_type counter = Some (mbox_header_bytes data_len mbox_type counter)"
proof -
  have "write_header (filled [] buf) data_len mbox_type counter =
          Some (filled (mbox_header_bytes data_len mbox_type counter) (drop 6 buf))"
    using assms by (auto simp: write_header_def fill_simps mbox_header_bytes_def)
  then show ?thesis using assms by (simp add: filled_def)
qed

lemma mbox_flags:
  "((t AND 0x0F) OR push_bit 4 (c AND 0x07)) AND 0x0F = (t AND 0x0F :: u8)"
  "drop_bit 4 ((t AND 0x0F) OR push_bit 4 (c AND 0x07)) AND 0x07 = (c AND 0x07 :: u8)"
proof -
  have masks: "(0x0F :: u8) = mask 4" "(0x07 :: u8) = mask 3"
    by (simp_all add: mask_eq_exp_minus_1)
  show "((t AND 0x0F) OR push_bit 4 (c AND 0x07)) AND 0x0F = (t AND 0x0F :: u8)"
    unfolding masks by (rule bit_word_eqI) (auto simp: bit_simps)
  show "drop_bit 4 ((t AND 0x0F) OR push_bit 4 (c AND 0x07)) AND 0x07 = (c AND 0x07 :: u8)"
    unfolding masks by (rule bit_word_eqI) (auto simp: bit_simps)
qed

lemma parse_header_flags:
  "parse_header (le16 data_len @ le16 0 @ [0, flags] @ rest) =
     Some (Some \<lparr>mh_data_len = data_len, mh_mbox_type = flags AND 0x0F,
                 mh_counter = drop_bit 4 flags AND 0x07\<rparr>)"
  by (simp add: parse_header_def idx_def nth_append read_u16_le_def le16_def)

lemma parse_header_write:
  "parse_header (mbox_header_bytes data_len mbox_type counter @ rest) =
     Some (Some \<lparr>mh_data_len = data_len, mh_mbox_type = mbox_type AND 0x0F, mh_counter = counter AND 0x07\<rparr>)"
  unfolding mbox_header_bytes_def append_assoc parse_header_flags mbox_flags ..

lemma parse_header_total [no_panic]: "\<exists>r. parse_header buf = Some r"
  by (auto simp: parse_header_def idx_def slice_def read_u16_le_def)

end
