(* ===== verification/Coe.thy ===== *)
theory Coe
  imports Channel Pages
begin

text \<open>
  CoE mailbox transfers: the expedited SDO machine and the SDO sequence of
  \<^verbatim>\<open>src/ethercat/fsm_coe.rs\<close>, and the two sequence builders \<^verbatim>\<open>src/ethercat/fsm_pdo.rs\<close> (PDO
  assignment) and \<^verbatim>\<open>src/ethercat/fsm_pdo_entry.rs\<close> (PDO mapping). Both machines are instances of
  \<open>bounded_fsm\<close>. The lemmas on the codec give the request bytes and every outcome of the response
  parser; those on the builders give the contents of the object dictionary after the sequence.
\<close>

unbundle bit_operations_syntax

section \<open>The SDO machine\<close>

definition MAX_MBOX_WAITS :: u32 where "MAX_MBOX_WAITS = 1000"
definition MAX_MBOX_READ :: nat where [simp]: "MAX_MBOX_READ = 256"
definition MAX_MBOX_WRITE :: nat where [simp]: "MAX_MBOX_WRITE = 256"

datatype sdo_kind = Download | Upload
datatype coe_state = WriteRequest | WaitMailbox | ReadResponse | CoeDone

record fsm_coe = chan +
  ce_mbox :: mailbox
  ce_kind :: sdo_kind
  ce_index :: u16
  ce_subindex :: u8
  ce_req_data :: bytes
  ce_req_len :: u8
  ce_state :: coe_state
  ce_result :: bytes
  ce_result_len :: nat
  ce_waits :: u32

definition coe_new :: "mailbox \<Rightarrow> sdo_kind \<Rightarrow> u16 \<Rightarrow> u8 \<Rightarrow> bytes \<Rightarrow> u8 \<Rightarrow> fsm_coe" where
  "coe_new mbox kind ix sub req_data req_len =
     \<lparr>fs_pump = pump_new, fs_tx = replicate 320 0, fs_tx_len = 0, fs_rx = replicate 320 0,
      ce_mbox = mbox, ce_kind = kind, ce_index = ix, ce_subindex = sub, ce_req_data = req_data,
      ce_req_len = req_len, ce_state = WriteRequest, ce_result = replicate 4 0, ce_result_len = 0,
      ce_waits = 0\<rparr>"

text \<open>\<^verbatim>\<open>data[..len]\<close> with \<^verbatim>\<open>len = data.len().min(4)\<close>, copied into a zeroed array of four bytes.\<close>

definition pad4 :: "bytes \<Rightarrow> bytes" where
  "pad4 dat = (let len = min (length dat) 4 in take len dat @ replicate (4 - len) 0)"

definition coe_download :: "mailbox \<Rightarrow> u16 \<Rightarrow> u8 \<Rightarrow> bytes \<Rightarrow> fsm_coe" where
  "coe_download mbox ix sub dat =
     coe_new mbox Download ix sub (pad4 dat) (of_nat (min (length dat) 4))"

definition coe_upload :: "mailbox \<Rightarrow> u16 \<Rightarrow> u8 \<Rightarrow> fsm_coe" where
  "coe_upload mbox ix sub = coe_new mbox Upload ix sub (replicate 4 0) 0"

definition coe_response :: "fsm_coe \<Rightarrow> bytes option" where
  "coe_response f = slice (ce_result f) 0 (ce_result_len f)"

definition build_request :: "fsm_coe \<Rightarrow> bytes \<Rightarrow> bytes option" where
  "build_request f mb = do {
     mb \<leftarrow> in_window mb 0 6 (\<lambda>w. write_header w 10 mbox_TYPE_COE 0);
     mb \<leftarrow> in_window mb 6 8 (\<lambda>w. write_u16_le w (push_bit 12 mbox_COE_SDO_REQUEST));
     case ce_kind f of
       Download \<Rightarrow> do {
         let sz = min (ce_req_len f) 4;
         mb \<leftarrow> put mb 8 (0x23 OR push_bit 2 (4 - sz));
         mb \<leftarrow> in_window mb 9 11 (\<lambda>w. write_u16_le w (ce_index f));
         mb \<leftarrow> put mb 11 (ce_subindex f);
         copy_at mb 12 16 (ce_req_data f) }
     | Upload \<Rightarrow> do {
         mb \<leftarrow> put mb 8 0x40;
         mb \<leftarrow> in_window mb 9 11 (\<lambda>w. write_u16_le w (ce_index f));
         mb \<leftarrow> put mb 11 (ce_subindex f);
         copy_at mb 12 16 (replicate 4 0) } }"

definition parse_sdo_response :: "sdo_kind \<Rightarrow> bytes \<Rightarrow> (bytes \<times> nat) res option" where
  "parse_sdo_response kind dat = do {
     h \<leftarrow> parse_header dat;
     case h of
       None \<Rightarrow> Some (Inl MailboxProtocol)
     | Some header \<Rightarrow>
         if mh_mbox_type header \<noteq> mbox_TYPE_COE then Some (Inl MailboxProtocol)
         else if length dat < 16 then Some (Inl MailboxProtocol)
         else do {
           cmd \<leftarrow> idx dat 8;
           if cmd AND 0xE0 = 0x80 then do {
             w \<leftarrow> slice dat 12 16;
             code \<leftarrow> read_u32_le w;
             Some (Inl (SdoAbort code)) }
           else case kind of
             Download \<Rightarrow> Some (Inr (replicate 4 0, 0))
           | Upload \<Rightarrow>
               if cmd AND 0x02 = 0 then Some (Inl MailboxProtocol)
               else do {
                 let sz = min (4 - unat (drop_bit 2 cmd AND 0x03)) 4;
                 w \<leftarrow> slice dat 12 (12 + sz);
                 out \<leftarrow> copy_at (replicate 4 0) 0 sz w;
                 Some (Inr (out, sz)) } } }"

text \<open>The request frame: the full configured mailbox, clamped to the buffers, with the 16-byte
  request in front and zero padding behind.\<close>

definition mbox_clamp :: "u16 \<Rightarrow> nat \<Rightarrow> nat" where
  "mbox_clamp sz hi = min (max (unat sz) 16) hi"

definition write_request_builder :: "fsm_coe \<Rightarrow> builder" where
  "write_request_builder f tx ix = do {
     let write_len = mbox_clamp (mb_rx_size (ce_mbox f)) MAX_MBOX_WRITE;
     let mb = replicate MAX_MBOX_WRITE 0;
     mb \<leftarrow> in_window mb 0 16 (build_request f);
     payload \<leftarrow> slice mb 0 write_len;
     one_datagram Fpwr (mb_station_addr (ce_mbox f)) (mb_rx_offset (ce_mbox f)) payload tx ix }"

definition read_response_builder :: "fsm_coe \<Rightarrow> builder" where
  "read_response_builder f tx ix = do {
     let read_len = mbox_clamp (mb_tx_size (ce_mbox f)) MAX_MBOX_READ;
     let zeros = replicate MAX_MBOX_READ 0;
     payload \<leftarrow> slice zeros 0 read_len;
     one_datagram Fprd (mb_station_addr (ce_mbox f)) (mb_tx_offset (ce_mbox f)) payload tx ix }"

definition coe_on_write :: "fsm_coe \<Rightarrow> reply \<Rightarrow> (fsm_coe \<times> bool res) option" where
  "coe_on_write f r =
     (if rp_wkc r \<noteq> 1 then Some (f, Inl WorkingCounter)
      else Some (f\<lparr>ce_state := WaitMailbox, fs_tx_len := 0, ce_waits := 0\<rparr>, Inr False))"

definition coe_on_wait :: "fsm_coe \<Rightarrow> reply \<Rightarrow> (fsm_coe \<times> bool res) option" where
  "coe_on_wait f r =
     (let status = get_or 0 (rp_data r) 0;
          f = f\<lparr>fs_tx_len := 0\<rparr>
      in if rp_wkc r = 1 \<and> status AND mbox_SM_STATUS_MBOX_FULL \<noteq> 0
         then Some (f\<lparr>ce_state := ReadResponse\<rparr>, Inr False)
         else
           let f = f\<lparr>ce_waits := ce_waits f + 1\<rparr>
           in if ce_waits f \<ge> MAX_MBOX_WAITS then Some (f, Inl MailboxTimeout) else Some (f, Inr False))"

definition coe_on_response :: "fsm_coe \<Rightarrow> reply \<Rightarrow> (fsm_coe \<times> bool res) option" where
  "coe_on_response f r =
     (if rp_wkc r \<noteq> 1 then Some (f, Inl WorkingCounter)
      else do {
        p \<leftarrow> parse_sdo_response (ce_kind f) (rp_data r);
        case p of
          Inl e \<Rightarrow> Some (f, Inl e)
        | Inr (result, result_len) \<Rightarrow>
            Some (f\<lparr>ce_result := result, ce_result_len := result_len, ce_state := CoeDone\<rparr>, Inr True) })"

definition coe_step :: "fsm_coe fsm_step" where
  "coe_step f d ix =
     (case ce_state f of
        WriteRequest \<Rightarrow> stage f d ix (write_request_builder f) (on_reply coe_on_write)
      | WaitMailbox \<Rightarrow>
          stage f d ix (one_datagram Fprd (mb_station_addr (ce_mbox f)) reg_SM1_STATUS [0]) (on_reply coe_on_wait)
      | ReadResponse \<Rightarrow> stage f d ix (read_response_builder f) (on_reply coe_on_response)
      | CoeDone \<Rightarrow> Some (f, d, ix, Inr True))"

lemmas coe_handlers = coe_on_write_def coe_on_wait_def coe_on_response_def

section \<open>The codec\<close>

definition sdo_request :: "sdo_kind \<Rightarrow> u16 \<Rightarrow> u8 \<Rightarrow> bytes \<Rightarrow> u8 \<Rightarrow> bytes" where
  "sdo_request kind ix sub req_data req_len =
     mbox_header_bytes 10 0x03 0 @ le16 0x2000 @
     [case kind of Download \<Rightarrow> 0x23 OR push_bit 2 (4 - min req_len 4) | Upload \<Rightarrow> 0x40] @
     le16 ix @ [sub] @ (case kind of Download \<Rightarrow> req_data | Upload \<Rightarrow> replicate 4 0)"

lemma window_header [fill_simps]:
  "length pre = a \<Longrightarrow> b = a + 6 \<Longrightarrow> 6 \<le> length rest \<Longrightarrow>
     in_window (filled pre rest) a b (\<lambda>w. write_header w n t c) =
       Some (filled (pre @ mbox_header_bytes n t c) (drop 6 rest))"
  by (rule in_window_fill) (auto simp: write_header_eq)

lemma build_request_eq:
  assumes "length mb = 16" "length (ce_req_data f) = 4"
  shows "build_request f mb =
    Some (sdo_request (ce_kind f) (ce_index f) (ce_subindex f) (ce_req_data f) (ce_req_len f))"
proof -
  have ne: "\<not> length mb \<le> 8" "\<not> length mb \<le> 11" using assms by auto
  have "build_request f (filled [] mb) =
    Some (filled (sdo_request (ce_kind f) (ce_index f) (ce_subindex f) (ce_req_data f) (ce_req_len f))
            (drop 16 mb))"
    using assms ne
    by (cases "ce_kind f") (simp_all add: build_request_def fill_simps sdo_request_def Let_def)
  then show ?thesis using assms by (simp add: filled_def)
qed

lemma length_sdo_request [simp]: "length d = 4 \<Longrightarrow> length (sdo_request kind ix sub d n) = 16"
  by (cases kind) (simp_all add: sdo_request_def)

text \<open>The response parser is total, and its outcomes are the documented ones.\<close>

lemma parse_header_long:
  assumes "6 \<le> length dat"
  shows "parse_header dat =
    Some (Some \<lparr>mh_data_len = of_le16 (dat ! 0) (dat ! 1), mh_mbox_type = dat ! 5 AND 0x0F,
                mh_counter = drop_bit 4 (dat ! 5) AND 0x07\<rparr>)"
  using assms by (auto simp: parse_header_def idx_def slice_def read_u16_le_def)

lemma parse_header_short: "length dat < 6 \<Longrightarrow> parse_header dat = Some None"
  by (simp add: parse_header_def)

definition is_coe_reply :: "bytes \<Rightarrow> bool" where
  "is_coe_reply dat \<longleftrightarrow> 16 \<le> length dat \<and> dat ! 5 AND 0x0F = 0x03"

lemma parse_sdo_garbage:
  assumes "\<not> is_coe_reply dat"
  shows "parse_sdo_response kind dat = Some (Inl MailboxProtocol)"
proof (cases "6 \<le> length dat")
  case True
  then show ?thesis
    using assms by (auto simp: parse_sdo_response_def parse_header_long is_coe_reply_def)
next
  case False
  then show ?thesis by (simp add: parse_sdo_response_def parse_header_short)
qed

lemma parse_sdo_abort:
  assumes "is_coe_reply dat" "dat ! 8 AND 0xE0 = 0x80"
  shows "parse_sdo_response kind dat =
    Some (Inl (SdoAbort (of_le32 (dat ! 12) (dat ! 13) (dat ! 14) (dat ! 15))))"
  using assms
  by (auto simp: parse_sdo_response_def parse_header_long is_coe_reply_def idx_def slice_def
      read_u32_le_def)

lemma parse_sdo_download:
  assumes "is_coe_reply dat" "dat ! 8 AND 0xE0 \<noteq> 0x80"
  shows "parse_sdo_response Download dat = Some (Inr (replicate 4 0, 0))"
  using assms by (simp add: parse_sdo_response_def parse_header_long is_coe_reply_def idx_def)

lemma parse_sdo_upload_segmented:
  assumes "is_coe_reply dat" "dat ! 8 AND 0xE0 \<noteq> 0x80" "dat ! 8 AND 0x02 = 0"
  shows "parse_sdo_response Upload dat = Some (Inl MailboxProtocol)"
  using assms by (simp add: parse_sdo_response_def parse_header_long is_coe_reply_def idx_def)

definition sdo_size :: "u8 \<Rightarrow> nat" where
  "sdo_size cmd = 4 - unat (drop_bit 2 cmd AND 0x03)"

lemma sdo_size_bounds: "1 \<le> sdo_size cmd" "sdo_size cmd \<le> 4"
proof -
  have "drop_bit 2 cmd AND 0x03 \<le> (0x03 :: u8)" by (rule word_and_le1)
  then have "unat (drop_bit 2 cmd AND 0x03) \<le> 3" by (simp add: word_le_nat_alt)
  then show "1 \<le> sdo_size cmd" by (simp add: sdo_size_def)
qed (simp add: sdo_size_def)

lemma parse_sdo_upload:
  assumes "is_coe_reply dat" "dat ! 8 AND 0xE0 \<noteq> 0x80" "dat ! 8 AND 0x02 \<noteq> 0"
  shows "parse_sdo_response Upload dat =
    Some (Inr (pad4 (take (sdo_size (dat ! 8)) (drop 12 dat)), sdo_size (dat ! 8)))"
proof -
  have n: "sdo_size (dat ! 8) \<le> 4" by (rule sdo_size_bounds)
  have m: "min (4 - unat (drop_bit 2 (dat ! 8) AND 0x03)) 4 = sdo_size (dat ! 8)"
    by (simp add: sdo_size_def)
  have len: "16 \<le> length dat" using assms(1) by (simp add: is_coe_reply_def)
  have c: "copy_at (replicate 4 0) 0 (sdo_size (dat ! 8)) (take (sdo_size (dat ! 8)) (drop 12 dat)) =
             Some (pad4 (take (sdo_size (dat ! 8)) (drop 12 dat)))"
    using n len by (simp add: copy_at_def pad4_def Let_def)
  have s: "slice dat 12 (12 + sdo_size (dat ! 8)) = Some (take (sdo_size (dat ! 8)) (drop 12 dat))"
    using n len by (simp add: slice_def)
  show ?thesis
    using assms len
    by (simp add: parse_sdo_response_def parse_header_long is_coe_reply_def idx_def m s c Let_def)
qed

lemma length_pad4 [simp]: "length (pad4 dat) = 4"
  by (simp add: pad4_def Let_def)

lemma parse_sdo_total: "parse_sdo_response kind dat \<noteq> None"
proof (cases "is_coe_reply dat")
  case True
  then show ?thesis
    by (cases kind; cases "dat ! 8 AND 0xE0 = 0x80"; cases "dat ! 8 AND 0x02 = 0")
       (simp_all add: parse_sdo_abort parse_sdo_download parse_sdo_upload_segmented parse_sdo_upload)
qed (simp add: parse_sdo_garbage)

section \<open>The SDO machine terminates\<close>

definition coe_inv :: "fsm_coe \<Rightarrow> bool" where
  "coe_inv f \<longleftrightarrow> chan_wf 320 320 f \<and> length (ce_req_data f) = 4 \<and>
     (ce_state f = WaitMailbox \<longrightarrow> ce_waits f < MAX_MBOX_WAITS)"

definition coe_rank :: "fsm_coe \<Rightarrow> nat" where
  "coe_rank f =
     (case ce_state f of
        WriteRequest \<Rightarrow> 1002
      | WaitMailbox \<Rightarrow> 1001 - unat (ce_waits f)
      | ReadResponse \<Rightarrow> 0
      | CoeDone \<Rightarrow> 0)"

definition coe_left :: "fsm_coe \<Rightarrow> nat" where
  "coe_left f = stage_left coe_rank f"

lemma coe_rank_chan [simp]: "coe_rank (chan_upd f p t k x) = coe_rank f"
  by (cases "ce_state f") (simp_all add: coe_rank_def)

lemma mbox_clamp_bounds: "16 \<le> mbox_clamp sz 256" "mbox_clamp sz 256 \<le> 256"
  by (simp_all add: mbox_clamp_def)

lemma write_request_builder_eq:
  assumes "length (ce_req_data f) = 4" "length tx = 320"
  shows "write_request_builder f tx ix =
    one_datagram Fpwr (mb_station_addr (ce_mbox f)) (mb_rx_offset (ce_mbox f))
      (sdo_request (ce_kind f) (ce_index f) (ce_subindex f) (ce_req_data f) (ce_req_len f) @
       replicate (mbox_clamp (mb_rx_size (ce_mbox f)) 256 - 16) 0) tx ix"
proof -
  let ?r = "sdo_request (ce_kind f) (ce_index f) (ce_subindex f) (ce_req_data f) (ce_req_len f)"
  let ?n = "mbox_clamp (mb_rx_size (ce_mbox f)) 256"
  have w: "in_window (replicate 256 0) 0 16 (build_request f) = Some (?r @ replicate 240 0)"
    using assms by (simp add: in_window_def slice_def build_request_eq copy_at_def)
  have n: "16 \<le> ?n" "?n \<le> 256" by (rule mbox_clamp_bounds)+
  have "min 240 (?n - 16) = ?n - 16" using n by simp
  then have s: "slice (?r @ replicate 240 0) 0 ?n = Some (?r @ replicate (?n - 16) 0)"
    using n assms by simp
  show ?thesis by (simp add: write_request_builder_def w s)
qed

lemma coe_builders_ok:
  assumes "coe_inv f"
  shows "builder_ok 320 (write_request_builder f)" "builder_ok 320 (read_response_builder f)"
    "builder_ok 320 (one_datagram cmd adp ado [0])"
proof -
  have d: "length (ce_req_data f) = 4" using assms by (simp add: coe_inv_def)
  have n: "16 \<le> mbox_clamp sz 256" "mbox_clamp sz 256 \<le> 256" for sz by (rule mbox_clamp_bounds)+
  let ?p = "sdo_request (ce_kind f) (ce_index f) (ce_subindex f) (ce_req_data f) (ce_req_len f) @
       replicate (mbox_clamp (mb_rx_size (ce_mbox f)) 256 - 16) 0"
  have "14 + length ?p \<le> 320" using n [of "mb_rx_size (ce_mbox f)"] d by simp
  then have "builder_ok 320 (one_datagram Fpwr (mb_station_addr (ce_mbox f)) (mb_rx_offset (ce_mbox f)) ?p)"
    by (rule one_datagram_ok) auto
  then show "builder_ok 320 (write_request_builder f)"
    unfolding builder_ok_def by (auto simp: write_request_builder_eq d)
  have "builder_ok 320 (one_datagram Fprd (mb_station_addr (ce_mbox f)) (mb_tx_offset (ce_mbox f))
          (replicate (mbox_clamp (mb_tx_size (ce_mbox f)) 256) 0))"
    using n [of "mb_tx_size (ce_mbox f)"] by (intro one_datagram_ok) auto
  moreover have "read_response_builder f = one_datagram Fprd (mb_station_addr (ce_mbox f))
      (mb_tx_offset (ce_mbox f)) (replicate (mbox_clamp (mb_tx_size (ce_mbox f)) 256) 0)"
    using n [of "mb_tx_size (ce_mbox f)"]
    by (intro ext) (simp add: read_response_builder_def take_replicate min_def)
  ultimately show "builder_ok 320 (read_response_builder f)" by simp
  show "builder_ok 320 (one_datagram cmd adp ado [0])" by (rule one_datagram_ok) auto
qed

lemma unat_mbox_waits:
  assumes "w < MAX_MBOX_WAITS" "w + 1 < MAX_MBOX_WAITS"
  shows "unat (w + 1) = unat w + 1" "unat w + 1 < 1000"
proof -
  show i: "unat (w + 1) = unat w + 1" by (rule unat_inc [OF assms(1)])
  show "unat w + 1 < 1000"
    using assms(2) i by (simp add: word_less_nat_alt MAX_MBOX_WAITS_def)
qed

lemma coe_on_response_cases:
  "\<exists>g out. coe_on_response f r = Some (g, out) \<and> out \<noteq> Inr False"
  using parse_sdo_total [of "ce_kind f" "rp_data r"]
  by (auto simp: coe_on_response_def split: sum.splits)

interpretation coe: bounded_fsm coe_step coe_inv coe_left
proof
  fix f d ix
  assume inv: "coe_inv f" and dev: "dev_wf d"
  then have wf: "chan_wf 320 320 f" by (simp add: coe_inv_def)
  note builders = coe_builders_ok [OF inv]
  have stg: "\<exists>f' d' ix' r. stage f d ix b (on_reply h) = Some (f', d', ix', r) \<and>
      dev_wf d' \<and> (r = Inr False \<longrightarrow> coe_inv f' \<and> coe_left f' < coe_left f)"
    if "builder_ok 320 b" and
      "\<And>p t k x r. chan_wf 320 320 (chan_upd f p t k x) \<Longrightarrow> \<exists>g out. h (chan_upd f p t k x) r = Some (g, out) \<and>
          (out = Inr False \<longrightarrow> coe_inv g \<and> coe_rank g < coe_rank f)"
    for b h
    unfolding coe_left_def
    by (rule stage_reply_ok [OF wf dev that(1)]) (use inv that(2) in \<open>auto simp: coe_inv_def\<close>)
  show "\<exists>f' d' ix' r. coe_step f d ix = Some (f', d', ix', r) \<and> dev_wf d' \<and>
          (r = Inr False \<longrightarrow> coe_inv f' \<and> coe_left f' < coe_left f)"
  proof (cases "ce_state f")
    case WriteRequest
    show ?thesis
      unfolding coe_step_def WriteRequest coe_state.case
      by (rule stg [OF builders(1)])
         (use inv WriteRequest in \<open>simp add: coe_on_write_def coe_inv_def coe_rank_def chan_wf_def MAX_MBOX_WAITS_def\<close>)
  next
    case WaitMailbox
    then have w: "ce_waits f < MAX_MBOX_WAITS" using inv by (simp add: coe_inv_def)
    then have low: "unat (ce_waits f) < 1000"
      by (simp add: MAX_MBOX_WAITS_def word_less_nat_alt)
    show ?thesis
      unfolding coe_step_def WaitMailbox coe_state.case
      by (rule stg [OF builders(3)])
         (use inv WaitMailbox w low unat_mbox_waits [OF w] in
          \<open>auto simp: coe_on_wait_def coe_inv_def coe_rank_def chan_wf_def Let_def not_le\<close>)
  next
    case ReadResponse
    show ?thesis
      unfolding coe_step_def ReadResponse coe_state.case
      by (rule stg [OF builders(2)]) (use coe_on_response_cases in blast)
  next
    case CoeDone
    then show ?thesis using dev by (simp add: coe_step_def)
  qed
qed

lemma coe_download_inv: "coe_inv (coe_download mbox ix sub dat)"
  by (simp add: coe_inv_def chan_wf_def coe_download_def coe_new_def pump_new_def)

lemma coe_upload_inv: "coe_inv (coe_upload mbox ix sub)"
  by (simp add: coe_inv_def chan_wf_def coe_upload_def coe_new_def pump_new_def)

lemma coe_new_left: "coe_left (coe_new mbox kind ix sub dat n) = 1002 * 2003 + 2002"
  by (simp add: coe_left_def stage_left_def coe_rank_def chan_left_def coe_new_def)

lemma coe_on_response_eq_Some:
  assumes "coe_on_response f r = Some (g, out)"
  obtains "out = Inl WorkingCounter" "rp_wkc r \<noteq> 1"
  | e where "rp_wkc r = 1" "parse_sdo_response (ce_kind f) (rp_data r) = Some (Inl e)" "out = Inl e"
  | v n where "rp_wkc r = 1" "parse_sdo_response (ce_kind f) (rp_data r) = Some (Inr (v, n))"
      "g = f\<lparr>ce_result := v, ce_result_len := n, ce_state := CoeDone\<rparr>" "out = Inr True"
proof (cases "rp_wkc r = 1")
  case True
  then obtain p where p: "parse_sdo_response (ce_kind f) (rp_data r) = Some p"
    using assms by (auto simp: coe_on_response_def Option.bind_eq_Some_conv)
  show ?thesis
  proof (cases p)
    case (Inl e)
    then have "out = Inl e" using assms True p by (simp add: coe_on_response_def)
    then show ?thesis using that(2) True p Inl by blast
  next
    case (Inr vn)
    then obtain v n where "p = Inr (v, n)" by (cases vn) auto
    then show ?thesis using that(3) [OF True] assms True p by (simp add: coe_on_response_def)
  qed
next
  case False
  then show ?thesis using that(1) assms by (simp add: coe_on_response_def)
qed

text \<open>A transfer reports success only after a mailbox reply that the slave answered (working counter
  1) and that the parser accepted; its payload is then the response.\<close>

lemma coe_done_reply:
  assumes "coe_step f d ix = Some (f', d', ix', Inr True)" "ce_state f \<noteq> CoeDone"
  shows "ce_state f = ReadResponse \<and> ce_state f' = CoeDone \<and>
    (\<exists>r :: reply. rp_wkc r = 1 \<and> parse_sdo_response (ce_kind f) (rp_data r) =
       Some (Inr (ce_result f', ce_result_len f')))"
  using assms unfolding coe_step_def
  by (auto split: coe_state.split_asm if_split_asm elim!: stage_reply_eq_Some coe_on_response_eq_Some
      simp: coe_on_write_def coe_on_wait_def Let_def)

text \<open>An abort code is always the slave's own: it comes from an abort response.\<close>

lemma coe_abort_reply:
  assumes "coe_step f d ix = Some (f', d', ix', Inl (SdoAbort code))"
  shows "ce_state f = ReadResponse \<and>
    (\<exists>r :: reply. rp_wkc r = 1 \<and> is_coe_reply (rp_data r) \<and> rp_data r ! 8 AND 0xE0 = 0x80 \<and>
       code = of_le32 (rp_data r ! 12) (rp_data r ! 13) (rp_data r ! 14) (rp_data r ! 15))"
proof -
  have parsed: "is_coe_reply dat \<and> dat ! 8 AND 0xE0 = 0x80 \<and>
      c = of_le32 (dat ! 12) (dat ! 13) (dat ! 14) (dat ! 15)"
    if "parse_sdo_response kind dat = Some (Inl (SdoAbort c))" for kind dat c
  proof (cases "is_coe_reply dat")
    case True
    show ?thesis
      using that True
      by (cases kind; cases "dat ! 8 AND 0xE0 = 0x80"; cases "dat ! 8 AND 0x02 = 0")
         (simp_all add: parse_sdo_abort parse_sdo_download parse_sdo_upload_segmented parse_sdo_upload)
  qed (use that in \<open>simp add: parse_sdo_garbage\<close>)
  have "ce_state f = ReadResponse \<and>
    (\<exists>r :: reply. rp_wkc r = 1 \<and> parse_sdo_response (ce_kind f) (rp_data r) = Some (Inl (SdoAbort code)))"
    using assms unfolding coe_step_def
    by (auto split: coe_state.split_asm if_split_asm elim!: stage_reply_eq_Some coe_on_response_eq_Some
        simp: coe_on_write_def coe_on_wait_def Let_def)
  then show ?thesis using parsed by blast
qed

section \<open>SDO sequences\<close>

definition MAX_SEQ :: nat where [simp]: "MAX_SEQ = 36"

record sdo_write =
  sw_index :: u16
  sw_subindex :: u8
  sw_data :: bytes
  sw_len :: u8

record coe_seq =
  cs_mbox :: mailbox
  cs_ops :: "sdo_write list"
  cs_cur :: nat
  cs_coe :: "fsm_coe option"

definition coe_seq_new :: "mailbox \<Rightarrow> coe_seq" where
  "coe_seq_new mbox = \<lparr>cs_mbox = mbox, cs_ops = [], cs_cur = 0, cs_coe = None\<rparr>"

text \<open>\<^verbatim>\<open>push\<close> returns the sequence and whether there was room; the callers ignore the latter.\<close>

definition coe_seq_push :: "coe_seq \<Rightarrow> u16 \<Rightarrow> u8 \<Rightarrow> bytes \<Rightarrow> coe_seq \<times> bool" where
  "coe_seq_push s ix sub dat =
     (case vec_push MAX_SEQ (cs_ops s)
             \<lparr>sw_index = ix, sw_subindex = sub, sw_data = pad4 dat, sw_len = of_nat (min (length dat) 4)\<rparr> of
        Some ops \<Rightarrow> (s\<lparr>cs_ops := ops\<rparr>, True)
      | None \<Rightarrow> (s, False))"

definition coe_seq_step :: "coe_seq fsm_step" where
  "coe_seq_step s d ix =
     (if cs_cur s \<ge> length (cs_ops s) then Some (s, d, ix, Inr True)
      else do {
        coe \<leftarrow> (case cs_coe s of
                  None \<Rightarrow> do {
                    op \<leftarrow> idx (cs_ops s) (cs_cur s);
                    dat \<leftarrow> slice (sw_data op) 0 (unat (sw_len op));
                    Some (coe_download (cs_mbox s) (sw_index op) (sw_subindex op) dat) }
                | Some coe \<Rightarrow> Some coe);
        (coe, d, ix, r) \<leftarrow> coe_step coe d ix;
        case r of
          Inl e \<Rightarrow> Some (s\<lparr>cs_coe := Some coe\<rparr>, d, ix, Inl e)
        | Inr fin \<Rightarrow>
            let s = (if fin then s\<lparr>cs_coe := None, cs_cur := cs_cur s + 1\<rparr> else s\<lparr>cs_coe := Some coe\<rparr>)
            in Some (s, d, ix, Inr (cs_cur s \<ge> length (cs_ops s) \<and> cs_coe s = None)) })"

definition sdo_write_wf :: "sdo_write \<Rightarrow> bool" where
  "sdo_write_wf w \<longleftrightarrow> length (sw_data w) = 4 \<and> unat (sw_len w) \<le> 4"

definition coe_seq_inv :: "coe_seq \<Rightarrow> bool" where
  "coe_seq_inv s \<longleftrightarrow> (\<forall>w\<in>set (cs_ops s). sdo_write_wf w) \<and>
     (case cs_coe s of None \<Rightarrow> True | Some f \<Rightarrow> coe_inv f)"

definition coe_full :: nat where "coe_full = 1002 * 2003 + 2002"

definition coe_seq_left :: "coe_seq \<Rightarrow> nat" where
  "coe_seq_left s = (length (cs_ops s) - cs_cur s) * (coe_full + 1) +
     (case cs_coe s of None \<Rightarrow> coe_full | Some f \<Rightarrow> coe_left f)"

lemma coe_download_left: "coe_left (coe_download mbox ix sub dat) = coe_full"
  by (simp add: coe_download_def coe_new_left coe_full_def)

lemma coe_seq_push_inv: "coe_seq_inv s \<Longrightarrow> coe_seq_inv (fst (coe_seq_push s ix sub dat))"
proof -
  have "unat (of_nat (min (length dat) 4) :: u8) = min (length dat) 4"
    by (simp add: unat_of_nat min_def)
  then show "coe_seq_inv s \<Longrightarrow> coe_seq_inv (fst (coe_seq_push s ix sub dat))"
    by (auto simp: coe_seq_push_def coe_seq_inv_def vec_push_def sdo_write_wf_def split: option.splits)
qed

lemma coe_seq_new_inv: "coe_seq_inv (coe_seq_new mbox)"
  by (simp add: coe_seq_inv_def coe_seq_new_def)

lemma next_op_left:
  "c < n \<Longrightarrow> (n - Suc c) * (coe_full + 1) + coe_full < (n - c) * (coe_full + 1) + (k :: nat)"
proof -
  assume "c < n"
  then have e: "n - c = Suc (n - Suc c)" by simp
  show ?thesis unfolding e by simp
qed

interpretation coe_seq: bounded_fsm coe_seq_step coe_seq_inv coe_seq_left
proof
  fix s d ix
  assume inv: "coe_seq_inv s" and dev: "dev_wf d"
  show "\<exists>s' d' ix' r. coe_seq_step s d ix = Some (s', d', ix', r) \<and> dev_wf d' \<and>
          (r = Inr False \<longrightarrow> coe_seq_inv s' \<and> coe_seq_left s' < coe_seq_left s)"
  proof (cases "cs_cur s \<ge> length (cs_ops s)")
    case True
    then show ?thesis using dev by (simp add: coe_seq_step_def)
  next
    case False
    then have cur: "cs_cur s < length (cs_ops s)" by simp
    let ?op = "cs_ops s ! cs_cur s"
    define f where "f = (case cs_coe s of Some f \<Rightarrow> f | None \<Rightarrow>
        coe_download (cs_mbox s) (sw_index ?op) (sw_subindex ?op) (take (unat (sw_len ?op)) (sw_data ?op)))"
    have op: "sdo_write_wf ?op" using inv cur by (simp add: coe_seq_inv_def)
    have f: "coe_inv f" using inv by (auto simp: f_def coe_seq_inv_def coe_download_inv split: option.splits)
    have fl: "coe_left f \<le> (case cs_coe s of None \<Rightarrow> coe_full | Some f \<Rightarrow> coe_left f)"
      by (auto simp: f_def coe_download_left split: option.splits)
    obtain f' d' ix' r where st: "coe_step f d ix = Some (f', d', ix', r)" and d': "dev_wf d'"
        and pend: "r = Inr False \<longrightarrow> coe_inv f' \<and> coe_left f' < coe_left f"
      using coe.step_ok [OF f dev, of ix] by blast
    have start: "(case cs_coe s of
                  None \<Rightarrow> do {
                    op \<leftarrow> idx (cs_ops s) (cs_cur s);
                    dat \<leftarrow> slice (sw_data op) 0 (unat (sw_len op));
                    Some (coe_download (cs_mbox s) (sw_index op) (sw_subindex op) dat) }
                | Some coe \<Rightarrow> Some coe) = Some f"
      using cur op by (auto simp: f_def idx_def sdo_write_wf_def split: option.splits)
    have step: "coe_seq_step s d ix =
       (case r of
          Inl e \<Rightarrow> Some (s\<lparr>cs_coe := Some f'\<rparr>, d', ix', Inl e)
        | Inr fin \<Rightarrow>
            let s = (if fin then s\<lparr>cs_coe := None, cs_cur := cs_cur s + 1\<rparr> else s\<lparr>cs_coe := Some f'\<rparr>)
            in Some (s, d', ix', Inr (cs_cur s \<ge> length (cs_ops s) \<and> cs_coe s = None)))"
      using cur by (simp add: coe_seq_step_def start st)
    show ?thesis
    proof (cases r)
      case (Inl e)
      then show ?thesis using step d' by simp
    next
      case (Inr fin)
      show ?thesis
      proof (cases fin)
        case True
        then show ?thesis
          using step d' Inr inv cur next_op_left [OF cur]
          by (auto simp: coe_seq_inv_def coe_seq_left_def)
      next
        case False
        then show ?thesis
          using step d' Inr inv pend fl by (auto simp: coe_seq_inv_def coe_seq_left_def)
      qed
    qed
  qed
qed

section \<open>PDO assignment and mapping\<close>

fun seq_push_list :: "coe_seq \<Rightarrow> u16 \<Rightarrow> nat \<Rightarrow> bytes list \<Rightarrow> coe_seq" where
  "seq_push_list s obj i [] = s"
| "seq_push_list s obj i (v # vs) =
     seq_push_list (fst (coe_seq_push s obj (of_nat (i + 1)) v)) obj (i + 1) vs"

definition build_assign :: "mailbox \<Rightarrow> u8 \<Rightarrow> pdo_cfg list \<Rightarrow> coe_seq" where
  "build_assign mbox sync_index pdos =
     (let obj = pdo_assign sync_index;
          s = coe_seq_new mbox;
          s = fst (coe_seq_push s obj 0x00 [0]);
          s = seq_push_list s obj 0 (map (\<lambda>p. le16 (pdo_index p)) pdos)
      in fst (coe_seq_push s obj 0x00 [of_nat (length pdos)]))"

definition pack :: "u16 \<Rightarrow> u8 \<Rightarrow> u8 \<Rightarrow> u32" where
  "pack ix sub bits = push_bit 16 (ucast ix) OR push_bit 8 (ucast sub) OR ucast bits"

definition build_mapping :: "mailbox \<Rightarrow> pdo_cfg \<Rightarrow> coe_seq" where
  "build_mapping mbox pdo =
     (let obj = pdo_index pdo;
          s = coe_seq_new mbox;
          s = fst (coe_seq_push s obj 0x00 [0]);
          s = seq_push_list s obj 0
                (map (\<lambda>e. le32 (pack (pe_index e) (pe_subindex e) (pe_bit_length e))) (pdo_entries pdo))
      in fst (coe_seq_push s obj 0x00 [of_nat (length (pdo_entries pdo))]))"

text \<open>The value a slave stores for a queued write, and the object dictionary after a sequence of
  writes; subindex 0 holds the count.\<close>

definition sw_value :: "sdo_write \<Rightarrow> bytes" where
  "sw_value w = take (unat (sw_len w)) (sw_data w)"

type_synonym object_dict = "u16 \<Rightarrow> u8 \<Rightarrow> bytes"

definition od_write :: "object_dict \<Rightarrow> sdo_write \<Rightarrow> object_dict" where
  "od_write od w = od(sw_index w := (od (sw_index w))(sw_subindex w := sw_value w))"

definition od_apply :: "object_dict \<Rightarrow> sdo_write list \<Rightarrow> object_dict" where
  "od_apply od ws = fold (\<lambda>w od. od_write od w) ws od"

definition sw_of :: "u16 \<Rightarrow> u8 \<Rightarrow> bytes \<Rightarrow> sdo_write" where
  "sw_of ix sub dat =
     \<lparr>sw_index = ix, sw_subindex = sub, sw_data = pad4 dat, sw_len = of_nat (min (length dat) 4)\<rparr>"

lemma sw_value_of: "length dat \<le> 4 \<Longrightarrow> sw_value (sw_of ix sub dat) = dat"
  by (simp add: sw_value_def sw_of_def pad4_def Let_def unat_of_nat min_def)

lemma push_ops:
  "length (cs_ops s) < 36 \<Longrightarrow>
     fst (coe_seq_push s ix sub dat) = s\<lparr>cs_ops := cs_ops s @ [sw_of ix sub dat]\<rparr>"
  by (simp add: coe_seq_push_def vec_push_def sw_of_def)

fun sw_items :: "u16 \<Rightarrow> nat \<Rightarrow> bytes list \<Rightarrow> sdo_write list" where
  "sw_items obj i [] = []"
| "sw_items obj i (v # vs) = sw_of obj (of_nat (i + 1)) v # sw_items obj (i + 1) vs"

lemma length_sw_items [simp]: "length (sw_items obj i vs) = length vs"
  by (induction vs arbitrary: i) auto

lemma push_list_ops:
  "length (cs_ops s) + length vs \<le> 36 \<Longrightarrow>
     cs_ops (seq_push_list s obj i vs) =
       cs_ops s @ sw_items obj i vs \<and>
     cs_cur (seq_push_list s obj i vs) = cs_cur s \<and> cs_coe (seq_push_list s obj i vs) = cs_coe s \<and>
     cs_mbox (seq_push_list s obj i vs) = cs_mbox s"
proof (induction vs arbitrary: s i)
  case (Cons v vs)
  have "length (cs_ops s) < 36" using Cons.prems by simp
  then have p: "fst (coe_seq_push s obj (of_nat (i + 1)) v) = s\<lparr>cs_ops := cs_ops s @ [sw_of obj (of_nat (i + 1)) v]\<rparr>"
    by (rule push_ops)
  show ?case
    unfolding seq_push_list.simps p using Cons.prems
    by (subst Cons.IH | simp)+
qed simp

text \<open>The three-part sequence of both builders: clear the count, write the values, set the count.\<close>

definition list_writes :: "u16 \<Rightarrow> bytes list \<Rightarrow> sdo_write list" where
  "list_writes obj vs =
     sw_of obj 0 [0] # sw_items obj 0 vs @
     [sw_of obj 0 [of_nat (length vs)]]"

lemma build_list_ops:
  assumes "length vs \<le> 34"
  shows "cs_ops (fst (coe_seq_push (seq_push_list (fst (coe_seq_push (coe_seq_new mbox) obj 0 [0])) obj 0 vs)
           obj 0 [of_nat (length vs)])) = list_writes obj vs"
proof -
  let ?s = "fst (coe_seq_push (coe_seq_new mbox) obj 0 [0])"
  have s: "cs_ops ?s = [sw_of obj 0 [0]]"
    by (subst push_ops) (simp_all add: coe_seq_new_def)
  have l: "cs_ops (seq_push_list ?s obj 0 vs) =
      sw_of obj 0 [0] # sw_items obj 0 vs"
    using push_list_ops [of ?s vs obj 0] assms s by simp
  show ?thesis
    using assms by (subst push_ops) (simp_all add: l list_writes_def)
qed

lemma od_apply_simps:
  "od_apply od [] = od" "od_apply od (w # ws) = od_apply (od_write od w) ws"
  "od_apply od (ws @ ws') = od_apply (od_apply od ws) ws'"
  by (simp_all add: od_apply_def)

lemma od_apply_enumerate:
  "\<forall>v\<in>set vs. length v \<le> 4 \<Longrightarrow> i + length vs < 256 \<Longrightarrow>
     (od_apply od (sw_items obj i vs)) obj sub =
     (if i < unat sub \<and> unat sub \<le> i + length vs then vs ! (unat sub - i - 1) else od obj sub)"
proof (induction vs arbitrary: od i)
  case (Cons v vs)
  have u: "unat (of_nat (Suc i) :: u8) = Suc i"
    using Cons.prems by (intro unat_of_nat_8) simp
  have sub: "sub = of_nat (Suc i) \<longleftrightarrow> unat sub = Suc i"
    using u by (metis of_nat_unat ucast_id)
  have "(od_apply od (sw_items obj i (v # vs))) obj sub =
     (if Suc i < unat sub \<and> unat sub \<le> Suc i + length vs then vs ! (unat sub - Suc i - 1)
      else od_write od (sw_of obj (of_nat (i + 1)) v) obj sub)"
    using Cons.prems Cons.IH [of "Suc i" "od_write od (sw_of obj (of_nat (i + 1)) v)"]
    by (simp add: od_apply_simps)
  also have "\<dots> = (if i < unat sub \<and> unat sub \<le> i + length (v # vs) then (v # vs) ! (unat sub - i - 1)
                   else od obj sub)"
  proof -
    have w: "od_write od (sw_of obj (of_nat (i + 1)) v) obj sub = (if unat sub = Suc i then v else od obj sub)"
      using Cons.prems sub sw_value_of [of v obj "of_nat (i + 1)"]
      by (simp add: od_write_def sw_of_def)
    show ?thesis
    proof (cases "Suc i < unat sub \<and> unat sub \<le> Suc i + length vs")
      case True
      then have "unat sub - i - 1 = Suc (unat sub - Suc i - 1)" by auto
      then show ?thesis using True by simp
    next
      case False
      then show ?thesis unfolding w by auto
    qed
  qed
  finally show ?case .
qed (auto simp: od_apply_simps)

lemma list_writes_effect:
  assumes "\<forall>v\<in>set vs. length v \<le> 4" "length vs \<le> 34"
  shows "(od_apply od (list_writes obj vs)) obj 0 = [of_nat (length vs)]"
    and "j < length vs \<Longrightarrow> (od_apply od (list_writes obj vs)) obj (of_nat (j + 1)) = vs ! j"
proof -
  let ?w = "sw_of obj 0 [of_nat (length vs)]"
  have last: "(od_apply od (list_writes obj vs)) obj sub =
      (if sub = 0 then [of_nat (length vs)]
       else if unat sub \<le> length vs then vs ! (unat sub - 1) else od obj sub)" for sub
  proof -
    have "(od_apply od (list_writes obj vs)) obj sub =
       od_write (od_apply (od_write od (sw_of obj 0 [0]))
         (sw_items obj 0 vs)) ?w obj sub"
      by (simp add: list_writes_def od_apply_simps)
    also have "\<dots> = (if sub = 0 then [of_nat (length vs)]
         else (od_apply (od_write od (sw_of obj 0 [0]))
           (sw_items obj 0 vs)) obj sub)"
      using sw_value_of [of "[of_nat (length vs)]" obj 0] by (simp add: od_write_def sw_of_def)
    also have "\<dots> = (if sub = 0 then [of_nat (length vs)]
       else if unat sub \<le> length vs then vs ! (unat sub - 1) else od obj sub)"
    proof (cases "sub = 0")
      case False
      then have "0 < unat sub" by (simp add: unat_gt_0)
      moreover have "od_write od (sw_of obj 0 [0]) obj sub = od obj sub"
        using False by (simp add: od_write_def sw_of_def)
      ultimately show ?thesis using False assms by (simp add: od_apply_enumerate)
    qed simp
    finally show ?thesis .
  qed
  show "(od_apply od (list_writes obj vs)) obj 0 = [of_nat (length vs)]" by (simp add: last)
  assume j: "j < length vs"
  then have u: "unat (of_nat (j + 1) :: u8) = j + 1"
    using assms(2) by (intro unat_of_nat_8) simp
  then have "(of_nat (j + 1) :: u8) \<noteq> 0" by (metis Suc_eq_plus1 nat.distinct(1) unat_0)
  then show "(od_apply od (list_writes obj vs)) obj (of_nat (j + 1)) = vs ! j"
    using j unfolding last u by simp
qed

lemma build_mapping_ops:
  assumes "length (pdo_entries pdo) \<le> EC_MAX_PDO_ENTRIES"
  shows "cs_ops (build_mapping mbox pdo) = list_writes (pdo_index pdo)
    (map (\<lambda>e. le32 (pack (pe_index e) (pe_subindex e) (pe_bit_length e))) (pdo_entries pdo))"
  using assms build_list_ops [of "map (\<lambda>e. le32 (pack (pe_index e) (pe_subindex e) (pe_bit_length e))) (pdo_entries pdo)"]
  by (simp add: build_mapping_def Let_def)

lemma build_assign_ops:
  assumes "length pdos \<le> 34"
  shows "cs_ops (build_assign mbox sync_index pdos) =
    list_writes (pdo_assign sync_index) (map (\<lambda>p. le16 (pdo_index p)) pdos)"
  using assms build_list_ops [of "map (\<lambda>p. le16 (pdo_index p)) pdos"]
  by (simp add: build_assign_def Let_def)

lemma pack_fields:
  "ucast (drop_bit 16 (pack ix sub bits)) = ix"
  "ucast (drop_bit 8 (pack ix sub bits)) = sub"
  "ucast (pack ix sub bits) = bits"
proof -
  show "ucast (drop_bit 16 (pack ix sub bits)) = ix"
    by (rule bit_word_eqI) (auto simp: pack_def bit_simps dest: bit_imp_le_length)
  show "ucast (drop_bit 8 (pack ix sub bits)) = sub"
    by (rule bit_word_eqI) (auto simp: pack_def bit_simps dest: bit_imp_le_length)
  show "ucast (pack ix sub bits) = bits"
    by (rule bit_word_eqI) (auto simp: pack_def bit_simps)
qed

lemma seq_push_list_inv: "coe_seq_inv s \<Longrightarrow> coe_seq_inv (seq_push_list s obj i vs)"
  by (induction vs arbitrary: s i) (auto intro: coe_seq_push_inv)

lemma build_mapping_inv: "coe_seq_inv (build_mapping mbox pdo)"
  by (auto simp: build_mapping_def Let_def intro!: coe_seq_push_inv seq_push_list_inv coe_seq_new_inv)

lemma build_assign_inv: "coe_seq_inv (build_assign mbox n pdos)"
  by (auto simp: build_assign_def Let_def intro!: coe_seq_push_inv seq_push_list_inv coe_seq_new_inv)

text \<open>SDO answers. An expedited upload response yields the payload bytes its command byte announces;
  an abort yields its abort code; anything that is no CoE response of sixteen bytes is a protocol error, and
  the parser never panics.\<close>

lemma sdo_response_parsed:
  "parse_sdo_response kind dat =
    (if \<not> is_coe_reply dat then Some (Inl MailboxProtocol)
     else if dat ! 8 AND 0xE0 = 0x80 then
       Some (Inl (SdoAbort (of_le32 (dat ! 12) (dat ! 13) (dat ! 14) (dat ! 15))))
     else if kind = Download then Some (Inr (replicate 4 0, 0))
     else if dat ! 8 AND 0x02 = 0 then Some (Inl MailboxProtocol)
     else Some (Inr (pad4 (take (sdo_size (dat ! 8)) (drop 12 dat)), sdo_size (dat ! 8))))"
  by (cases kind) (simp_all add: parse_sdo_garbage parse_sdo_abort parse_sdo_download parse_sdo_upload
      parse_sdo_upload_segmented)

end
