(* ===== verification/Dc.thy ===== *)
theory Dc
  imports Channel Pages "HOL-Library.Signed_Division"
begin

text \<open>
  Distributed-clock bring-up of one slave, \<^verbatim>\<open>src/ethercat/dc.rs\<close>: the static delay and offset
  compensation of a follower and the SYNC0 setup. The machine is an instance of \<open>bounded_fsm\<close>; the
  other lemmas give the frames with several datagrams it builds and reads back, and the arithmetic:
  the start time lies on the cycle grid, less than one cycle beyond the margin, and the delay
  written to a slave is never more than the plausible maximum.
\<close>

unbundle bit_operations_syntax

section \<open>Arithmetic\<close>

definition START_MARGIN_NS :: u64 where "START_MARGIN_NS = 100000000"
definition MAX_DELAY_NS :: u32 where "MAX_DELAY_NS = 10000"

record dc_ref =
  ref_station :: u16
  compensate :: bool

definition dc_ref_reference :: dc_ref where
  "dc_ref_reference = \<lparr>ref_station = 0, compensate = False\<rparr>"

definition cyclic_start :: "dc_cfg \<Rightarrow> u64 \<Rightarrow> u64" where
  "cyclic_start cfg now =
     (let cycle = (ucast (max (sync0_cycle_ns cfg) 1) :: u64);
          target = now + START_MARGIN_NS
      in ((target div cycle) + 1) * cycle + ucast (sync0_shift_ns cfg))"

text \<open>The differences are taken modulo \<open>2 ^ 32\<close> and then as signed 64-bit numbers; Rust's division
  rounds towards zero.\<close>

definition propagation_delay :: "u32 list \<Rightarrow> u32 list \<Rightarrow> u32 option" where
  "propagation_delay ref_ports fol_ports = do {
     r1 \<leftarrow> idx ref_ports 1;
     r0 \<leftarrow> idx ref_ports 0;
     f1 \<leftarrow> idx fol_ports 1;
     f0 \<leftarrow> idx fol_ports 0;
     let ref_rt = uint (r1 - r0);
     let fol_rt = uint (f1 - f0);
     let one_way = (ref_rt - fol_rt) sdiv 2;
     Some (if 0 \<le> one_way \<and> one_way \<le> uint MAX_DELAY_NS then word_of_int one_way else 0) }"

definition read_ports :: "bytes \<Rightarrow> u32 list res option" where
  "read_ports dat =
     (if length dat < 16 then Some (Inl FrameTooShort)
      else do {
        a \<leftarrow> slice dat 0 4; a \<leftarrow> read_u32_le a;
        b \<leftarrow> slice dat 4 8; b \<leftarrow> read_u32_le b;
        c \<leftarrow> slice dat 8 12; c \<leftarrow> read_u32_le c;
        d \<leftarrow> slice dat 12 16; d \<leftarrow> read_u32_le d;
        Some (Inr [a, b, c, d]) })"

definition read_u64 :: "bytes \<Rightarrow> u64 res option" where
  "read_u64 dat =
     (if length dat < 8 then Some (Inl FrameTooShort)
      else do { w \<leftarrow> slice dat 0 8; v \<leftarrow> read_u64_le w; Some (Inr v) })"

text \<open>\<^verbatim>\<open>datagram::parse_at(frame, off).ok_or(EcError::FrameTooShort)?\<close>: the rest of the function runs
  on the datagram and the next offset.\<close>

definition with_datagram ::
  "bytes \<Rightarrow> nat \<Rightarrow> (reply \<Rightarrow> nat \<Rightarrow> 'r res option) \<Rightarrow> 'r res option" where
  "with_datagram frame off k = do {
     p \<leftarrow> parse_at frame off;
     case p of None \<Rightarrow> Some (Inl FrameTooShort) | Some (r, nxt) \<Rightarrow> k r nxt }"

text \<open>\<^verbatim>\<open>x?\<close> on a result\<close>

definition with_ok :: "'a res option \<Rightarrow> ('a \<Rightarrow> 'r res option) \<Rightarrow> 'r res option" where
  "with_ok m k = do { r \<leftarrow> m; case r of Inl e \<Rightarrow> Some (Inl e) | Inr v \<Rightarrow> k v }"

definition parse_two_port_reads :: "bytes \<Rightarrow> (u32 list \<times> u32 list) res option" where
  "parse_two_port_reads frame =
     with_datagram frame EC_FRAME_HEADER_SIZE (\<lambda>d0 n1.
     with_datagram frame n1 (\<lambda>d1 _.
       if rp_wkc d0 \<noteq> 1 \<or> rp_wkc d1 \<noteq> 1 then Some (Inl WorkingCounter)
       else with_ok (read_ports (rp_data d0)) (\<lambda>a. with_ok (read_ports (rp_data d1)) (\<lambda>b. Some (Inr (a, b))))))"

definition parse_three_u64_reads :: "bytes \<Rightarrow> (u64 \<times> u64 \<times> u64) res option" where
  "parse_three_u64_reads frame =
     with_datagram frame EC_FRAME_HEADER_SIZE (\<lambda>d0 n1.
     with_datagram frame n1 (\<lambda>d1 n2.
     with_datagram frame n2 (\<lambda>d2 _.
       if rp_wkc d0 \<noteq> 1 \<or> rp_wkc d1 \<noteq> 1 \<or> rp_wkc d2 \<noteq> 1 then Some (Inl WorkingCounter)
       else with_ok (read_u64 (rp_data d0)) (\<lambda>a. with_ok (read_u64 (rp_data d1)) (\<lambda>b.
              with_ok (read_u64 (rp_data d2)) (\<lambda>c. Some (Inr (a, b, c))))))))"

section \<open>The machine\<close>

datatype dc_state =
    CompLatch | CompReadPorts | CompWriteDelay | CompReadTimes | CompWriteOffset
  | LatchTime | ReadTime | WriteCycle | WriteStart | Activate | DcDone

record fsm_dc = chan +
  fd_station :: u16
  fd_cfg :: dc_cfg
  fd_dc_ref :: dc_ref
  fd_state :: dc_state
  fd_start_time :: u64
  fd_offset :: u64
  fd_delay :: u32

definition dc_new :: "u16 \<Rightarrow> dc_cfg \<Rightarrow> dc_ref \<Rightarrow> fsm_dc" where
  "dc_new station cfg dref =
     \<lparr>fs_pump = pump_new, fs_tx = replicate 96 0, fs_tx_len = 0, fs_rx = replicate 128 0,
      fd_station = station, fd_cfg = cfg, fd_dc_ref = dref,
      fd_state = (if compensate dref then CompLatch else LatchTime),
      fd_start_time = 0, fd_offset = 0, fd_delay = 0\<rparr>"

definition dc_advance :: "dc_state \<Rightarrow> fsm_dc \<Rightarrow> fsm_dc" where
  "dc_advance nxt f = f\<lparr>fd_state := nxt, fs_tx_len := 0\<rparr>"

text \<open>The handlers: a broadcast must reach at least one slave, a write exactly one; the reads update
  the fields of the machine.\<close>

definition dc_on_latch :: "fsm_dc \<Rightarrow> reply \<Rightarrow> (fsm_dc \<times> bool res) option" where
  "dc_on_latch f r =
     (if rp_wkc r = 0 then Some (f, Inl WorkingCounter) else Some (dc_advance CompReadPorts f, Inr False))"

definition dc_on_write :: "dc_state \<Rightarrow> fsm_dc \<Rightarrow> reply \<Rightarrow> (fsm_dc \<times> bool res) option" where
  "dc_on_write nxt f r =
     (if rp_wkc r \<noteq> 1 then Some (f, Inl WorkingCounter) else Some (dc_advance nxt f, Inr False))"

definition dc_on_ports :: "fsm_dc \<Rightarrow> nat \<Rightarrow> (fsm_dc \<times> bool res) option" where
  "dc_on_ports f len = do {
     frame \<leftarrow> slice (fs_rx f) 0 len;
     r \<leftarrow> parse_two_port_reads frame;
     case r of
       Inl e \<Rightarrow> Some (f, Inl e)
     | Inr (ref_ports, fol_ports) \<Rightarrow> do {
         delay \<leftarrow> propagation_delay ref_ports fol_ports;
         Some (dc_advance CompWriteDelay (f\<lparr>fd_delay := delay\<rparr>), Inr False) } }"

definition dc_on_times :: "fsm_dc \<Rightarrow> nat \<Rightarrow> (fsm_dc \<times> bool res) option" where
  "dc_on_times f len = do {
     frame \<leftarrow> slice (fs_rx f) 0 len;
     r \<leftarrow> parse_three_u64_reads frame;
     case r of
       Inl e \<Rightarrow> Some (f, Inl e)
     | Inr (ref_sys, fol_sys, old_off) \<Rightarrow>
         Some (dc_advance CompWriteOffset
                 (f\<lparr>fd_offset := old_off + (ref_sys - fol_sys),
                    fd_start_time := cyclic_start (fd_cfg f) ref_sys\<rparr>), Inr False) }"

definition dc_on_time :: "fsm_dc \<Rightarrow> reply \<Rightarrow> (fsm_dc \<times> bool res) option" where
  "dc_on_time f r = do {
     now \<leftarrow> (if length (rp_data r) \<ge> 8 then do { w \<leftarrow> slice (rp_data r) 0 8; read_u64_le w } else Some 0);
     Some (dc_advance WriteCycle (f\<lparr>fd_start_time := cyclic_start (fd_cfg f) now\<rparr>), Inr False) }"

definition dc_on_activate :: "fsm_dc \<Rightarrow> reply \<Rightarrow> (fsm_dc \<times> bool res) option" where
  "dc_on_activate f r =
     (if rp_wkc r \<noteq> 1 then Some (f, Inl WorkingCounter) else Some (f\<lparr>fd_state := DcDone\<rparr>, Inr True))"

text \<open>\<^verbatim>\<open>transact\<close> and \<^verbatim>\<open>poll\<close> address the machine's own station.\<close>

definition dc_transact ::
  "fsm_dc \<Rightarrow> device \<Rightarrow> u8 \<Rightarrow> command \<Rightarrow> u16 \<Rightarrow> bytes option \<Rightarrow>
     (fsm_dc \<Rightarrow> reply \<Rightarrow> (fsm_dc \<times> bool res) option) \<Rightarrow> (fsm_dc \<times> device \<times> u8 \<times> bool res) option" where
  "dc_transact f d ix cmd ado payload h = do {
     payload \<leftarrow> payload;
     stage f d ix (one_datagram cmd (fd_station f) ado payload) (on_reply h) }"

definition cycle_payload :: "dc_cfg \<Rightarrow> bytes option" where
  "cycle_payload cfg = do {
     payload \<leftarrow> in_window (replicate 8 0) 0 4 (\<lambda>w. write_u32_le w (sync0_cycle_ns cfg));
     in_window payload 4 8 (\<lambda>w. write_u32_le w (sync1_cycle_ns cfg)) }"

definition ports_builder :: "fsm_dc \<Rightarrow> builder" where
  "ports_builder f =
     and_datagram (one_datagram Fprd (ref_station (fd_dc_ref f)) reg_DC_RECV_TIME (replicate 16 0))
       Fprd (fd_station f) reg_DC_RECV_TIME (replicate 16 0)"

definition times_builder :: "fsm_dc \<Rightarrow> builder" where
  "times_builder f =
     and_datagram
       (and_datagram (one_datagram Fprd (ref_station (fd_dc_ref f)) reg_DC_SYS_TIME (replicate 8 0))
          Fprd (fd_station f) reg_DC_SYS_TIME (replicate 8 0))
       Fprd (fd_station f) reg_DC_SYS_TIME_OFFSET (replicate 8 0)"

definition dc_step :: "fsm_dc fsm_step" where
  "dc_step f d ix =
     (case fd_state f of
        CompLatch \<Rightarrow> stage f d ix (one_datagram Bwr 0 reg_DC_RECV_TIME (replicate 4 0)) (on_reply dc_on_latch)
      | CompReadPorts \<Rightarrow> stage f d ix (ports_builder f) dc_on_ports
      | CompWriteDelay \<Rightarrow>
          dc_transact f d ix Fpwr reg_DC_SYS_TIME_DELAY (write_u32_le (replicate 4 0) (fd_delay f))
            (dc_on_write CompReadTimes)
      | CompReadTimes \<Rightarrow> stage f d ix (times_builder f) dc_on_times
      | CompWriteOffset \<Rightarrow>
          dc_transact f d ix Fpwr reg_DC_SYS_TIME_OFFSET (write_u64_le (replicate 8 0) (fd_offset f))
            (dc_on_write WriteCycle)
      | LatchTime \<Rightarrow> dc_transact f d ix Fpwr reg_DC_RECV_TIME (Some (replicate 4 0)) (dc_on_write ReadTime)
      | ReadTime \<Rightarrow> dc_transact f d ix Fprd reg_DC_SYS_TIME (Some (replicate 8 0)) dc_on_time
      | WriteCycle \<Rightarrow>
          dc_transact f d ix Fpwr reg_DC_SYNC0_CYCLE (cycle_payload (fd_cfg f)) (dc_on_write WriteStart)
      | WriteStart \<Rightarrow>
          dc_transact f d ix Fpwr reg_DC_CYCLE_START (write_u64_le (replicate 8 0) (fd_start_time f))
            (dc_on_write Activate)
      | Activate \<Rightarrow>
          dc_transact f d ix Fpwr reg_DC_ACTIVATION (write_u16_le (replicate 2 0) (assign_activate (fd_cfg f)))
            dc_on_activate
      | DcDone \<Rightarrow> Some (f, d, ix, Inr True))"

section \<open>Payloads and parsers\<close>

lemma dc_payloads [simp]:
  "write_u32_le (replicate 4 0) v = Some (le32 v)"
  "write_u64_le (replicate 8 0) w = Some (le64 w)"
  "write_u16_le (replicate 2 0) u = Some (le16 u)"
  by (simp_all add: write_u16_le_def write_u32_le_def write_u64_le_def copy_at_def)

lemma cycle_payload_eq [simp]: "cycle_payload cfg = Some (le32 (sync0_cycle_ns cfg) @ le32 (sync1_cycle_ns cfg))"
proof -
  have "cycle_payload cfg =
      do { payload \<leftarrow> in_window (filled [] (replicate 8 0)) 0 4 (\<lambda>w. write_u32_le w (sync0_cycle_ns cfg));
           in_window payload 4 8 (\<lambda>w. write_u32_le w (sync1_cycle_ns cfg)) }"
    by (simp add: cycle_payload_def filled_def)
  also have "\<dots> = Some (filled (le32 (sync0_cycle_ns cfg) @ le32 (sync1_cycle_ns cfg)) [])"
    by (simp add: fill_simps)
  finally show ?thesis by (simp add: filled_def)
qed

lemma read_ports_cases:
  "read_ports dat = Some (Inl FrameTooShort) \<or> (\<exists>ps. read_ports dat = Some (Inr ps) \<and> length ps = 4)"
proof (cases "length dat < 16")
  case False
  then show ?thesis
    using read_u32_le_total [of "take 4 (drop 0 dat)"] read_u32_le_total [of "take 4 (drop 4 dat)"]
      read_u32_le_total [of "take 4 (drop 8 dat)"] read_u32_le_total [of "take 4 (drop 12 dat)"]
    by (auto simp: read_ports_def slice_def)
qed (simp add: read_ports_def)

lemma read_u64_cases: "\<exists>r. read_u64 dat = Some r"
proof (cases "length dat < 8")
  case False
  then show ?thesis
    using read_u64_le_total [of "take 8 (drop 0 dat)"] by (auto simp: read_u64_def slice_def)
qed (simp add: read_u64_def)

lemma with_datagram_total:
  assumes "\<And>r n. k r n \<noteq> None"
  shows "with_datagram frame off k \<noteq> None"
proof -
  obtain p where "parse_at frame off = Some p" using parse_at_total by blast
  then show ?thesis using assms by (cases p) (auto simp: with_datagram_def)
qed

lemma parse_two_total: "\<exists>r. parse_two_port_reads frame = Some r"
proof -
  have "with_ok (read_ports a) (\<lambda>x. with_ok (read_ports b) (\<lambda>y. Some (Inr (x, y)))) \<noteq> None" for a b
    using read_ports_cases [of a] read_ports_cases [of b] by (auto simp: with_ok_def)
  then have "parse_two_port_reads frame \<noteq> None"
    unfolding parse_two_port_reads_def by (intro with_datagram_total) auto
  then show ?thesis by blast
qed

lemma with_datagram_Inr:
  assumes "with_datagram frame off k = Some (Inr v)"
  obtains r n where "parse_at frame off = Some (Some (r, n))" "k r n = Some (Inr v)"
  using assms by (auto simp: with_datagram_def Option.bind_eq_Some_conv split: option.splits)

lemma with_ok_Inr:
  assumes "with_ok m k = Some (Inr v)"
  obtains x where "m = Some (Inr x)" "k x = Some (Inr v)"
proof -
  obtain r where "m = Some r" using assms by (auto simp: with_ok_def Option.bind_eq_Some_conv)
  then show ?thesis using assms that by (cases r) (auto simp: with_ok_def)
qed

lemma parse_two_ports:
  assumes "parse_two_port_reads frame = Some (Inr (a, b))"
  shows "length a = 4" "length b = 4"
  using assms read_ports_cases unfolding parse_two_port_reads_def
  by (auto elim!: with_datagram_Inr with_ok_Inr split: if_split_asm)
     (metis option.inject sum.distinct(1) sum.inject(2))+

lemma parse_three_total: "\<exists>r. parse_three_u64_reads frame = Some r"
proof -
  have "with_ok (read_u64 a) (\<lambda>x. with_ok (read_u64 b) (\<lambda>y. with_ok (read_u64 c) (\<lambda>z. Some (Inr (x, y, z))))) \<noteq> None" for a b c
    using read_u64_cases [of a] read_u64_cases [of b] read_u64_cases [of c]
    by (auto simp: with_ok_def split: sum.splits)
  then have "parse_three_u64_reads frame \<noteq> None"
    unfolding parse_three_u64_reads_def by (intro with_datagram_total) auto
  then show ?thesis by blast
qed

section \<open>Frames with several datagrams\<close>

lemma and_datagram_eq:
  assumes b: "b tx ix = Some (frame_bytes ds @ rest, k, ix1)" and ds: "ds \<noteq> []"
    and len: "dgrams_len ds + 12 + length payload < 2048"
    and room: "max 46 (14 + dgrams_len ds + length payload) \<le> max 46 (2 + dgrams_len ds) + length rest"
  shows "and_datagram b cmd adp ado payload tx ix =
    Some (frame_bytes (ds @ [request ix1 cmd adp ado payload]) @
            drop (max 46 (14 + dgrams_len ds + length payload) - max 46 (2 + dgrams_len ds)) rest,
          max 46 (14 + dgrams_len ds + length payload), ix1 + 1)"
  using append_frame [OF ds len room, of ix1 cmd adp ado] b
  by (simp add: and_datagram_def alloc_index_def)

definition ports_request :: "fsm_dc \<Rightarrow> u8 \<Rightarrow> dgram list" where
  "ports_request f ix =
     [request ix Fprd (ref_station (fd_dc_ref f)) reg_DC_RECV_TIME (replicate 16 0),
      request (ix + 1) Fprd (fd_station f) reg_DC_RECV_TIME (replicate 16 0)]"

definition times_request :: "fsm_dc \<Rightarrow> u8 \<Rightarrow> dgram list" where
  "times_request f ix =
     [request ix Fprd (ref_station (fd_dc_ref f)) reg_DC_SYS_TIME (replicate 8 0),
      request (ix + 1) Fprd (fd_station f) reg_DC_SYS_TIME (replicate 8 0),
      request (ix + 1 + 1) Fprd (fd_station f) reg_DC_SYS_TIME_OFFSET (replicate 8 0)]"

lemma request_data [simp]: "dg_data (request ix cmd adp ado payload) = payload"
  by (simp add: request_def)

lemma ports_builder_eq:
  assumes "length tx = 96"
  shows "ports_builder f tx ix = Some (frame_bytes (ports_request f ix) @ drop 58 tx, 58, ix + 2)"
proof -
  have one: "one_datagram Fprd (ref_station (fd_dc_ref f)) reg_DC_RECV_TIME (replicate 16 0) tx ix =
      Some (frame_bytes [request ix Fprd (ref_station (fd_dc_ref f)) reg_DC_RECV_TIME (replicate 16 0)] @
              drop 46 tx, 46, ix + 1)"
    using one_datagram_eq [of "replicate 16 0" 96 tx] assms by simp
  show ?thesis
    unfolding ports_builder_def
    using and_datagram_eq [where b = "one_datagram Fprd (ref_station (fd_dc_ref f)) reg_DC_RECV_TIME (replicate 16 0)"
        and tx = tx and ix = ix, OF one, of "replicate 16 0" Fprd "fd_station f" reg_DC_RECV_TIME] assms
    by (simp add: ports_request_def)
qed

lemma times_builder_eq:
  assumes "length tx = 96"
  shows "times_builder f tx ix = Some (frame_bytes (times_request f ix) @ drop 62 tx, 62, ix + 3)"
proof -
  have one: "one_datagram Fprd (ref_station (fd_dc_ref f)) reg_DC_SYS_TIME (replicate 8 0) tx ix =
      Some (frame_bytes [request ix Fprd (ref_station (fd_dc_ref f)) reg_DC_SYS_TIME (replicate 8 0)] @
              drop 46 tx, 46, ix + 1)"
    using one_datagram_eq [of "replicate 8 0" 96 tx] assms by simp
  have two: "and_datagram (one_datagram Fprd (ref_station (fd_dc_ref f)) reg_DC_SYS_TIME (replicate 8 0))
          Fprd (fd_station f) reg_DC_SYS_TIME (replicate 8 0) tx ix =
      Some (frame_bytes [request ix Fprd (ref_station (fd_dc_ref f)) reg_DC_SYS_TIME (replicate 8 0),
              request (ix + 1) Fprd (fd_station f) reg_DC_SYS_TIME (replicate 8 0)] @ drop 46 tx, 46, ix + 1 + 1)"
    using and_datagram_eq [where b = "one_datagram Fprd (ref_station (fd_dc_ref f)) reg_DC_SYS_TIME (replicate 8 0)"
        and tx = tx and ix = ix, OF one, of "replicate 8 0" Fprd "fd_station f" reg_DC_SYS_TIME] assms
    by simp
  show ?thesis
    unfolding times_builder_def
    using and_datagram_eq [where b = "and_datagram (one_datagram Fprd (ref_station (fd_dc_ref f)) reg_DC_SYS_TIME (replicate 8 0))
          Fprd (fd_station f) reg_DC_SYS_TIME (replicate 8 0)" and tx = tx and ix = ix, OF two, of "replicate 8 0" Fprd "fd_station f" reg_DC_SYS_TIME_OFFSET] assms
    by (simp add: times_request_def add.assoc)
qed

lemma dc_builders_ok:
  "builder_ok 96 (ports_builder f)" "builder_ok 96 (times_builder f)"
  "length payload \<le> 82 \<Longrightarrow> builder_ok 96 (one_datagram cmd adp ado payload)"
proof -
  show "builder_ok 96 (ports_builder f)"
    unfolding builder_ok_def by (auto simp: ports_builder_eq ports_request_def)
  show "builder_ok 96 (times_builder f)"
    unfolding builder_ok_def by (auto simp: times_builder_eq times_request_def)
  show "length payload \<le> 82 \<Longrightarrow> builder_ok 96 (one_datagram cmd adp ado payload)"
    by (rule one_datagram_ok) auto
qed

text \<open>The answers to the two combined reads are taken apart again in the order of the request.\<close>

definition answer :: "dgram \<Rightarrow> bytes \<Rightarrow> dgram" where
  "answer d v = d\<lparr>dg_data := v, dg_wkc := 1\<rparr>"

lemma reply_of_answer [simp]: "rp_wkc (reply_of (answer d v)) = 1" "rp_data (reply_of (answer d v)) = v"
  by (simp_all add: reply_of_def answer_def)

lemma dg_data_answer [simp]: "dg_data (answer d v) = v"
  by (simp add: answer_def)

definition le32s :: "u32 list \<Rightarrow> bytes" where
  "le32s vs = concat (map le32 vs)"

lemma read_ports_le32s: "read_ports (le32s [a, b, c, d]) = Some (Inr [a, b, c, d])"
  by (simp add: read_ports_def le32s_def slice_def read_u32_le_def idx_def le32_def)

lemma read_u64_le64: "read_u64 (le64 v) = Some (Inr v)"
  by (simp add: read_u64_def slice_def read_u64_le_def idx_def le64_def)

lemma parse_two_answers:
  fixes rest :: bytes
  shows "parse_two_port_reads (frame_bytes [answer d0 (le32s [a0, a1, a2, a3]), answer d1 (le32s [b0, b1, b2, b3])] @ rest) =
    Some (Inr ([a0, a1, a2, a3], [b0, b1, b2, b3]))"
proof -
  let ?d0 = "answer d0 (le32s [a0, a1, a2, a3])" and ?d1 = "answer d1 (le32s [b0, b1, b2, b3])"
  have l: "length (le32s [x, y, z, w]) = 16" for x y z w by (simp add: le32s_def)
  have p0: "parse_at (frame_bytes [?d0, ?d1] @ rest) 2 = Some (Some (reply_of ?d0, 30))"
    using parse_at_frame [of "[]" ?d0 "[?d1]" rest] l by simp
  have p1: "parse_at (frame_bytes [?d0, ?d1] @ rest) 30 = Some (Some (reply_of ?d1, 0))"
    using parse_at_frame [of "[?d0]" ?d1 "[]" rest] l by simp
  show ?thesis
    by (simp add: parse_two_port_reads_def with_datagram_def p0 p1 with_ok_def read_ports_le32s)
qed

lemma parse_three_answers:
  fixes rest :: bytes
  shows "parse_three_u64_reads (frame_bytes [answer d0 (le64 a), answer d1 (le64 b), answer d2 (le64 c)] @ rest) =
    Some (Inr (a, b, c))"
proof -
  let ?d0 = "answer d0 (le64 a)" and ?d1 = "answer d1 (le64 b)" and ?d2 = "answer d2 (le64 c)"
  have p0: "parse_at (frame_bytes [?d0, ?d1, ?d2] @ rest) 2 = Some (Some (reply_of ?d0, 22))"
    using parse_at_frame [of "[]" ?d0 "[?d1, ?d2]" rest] by simp
  have p1: "parse_at (frame_bytes [?d0, ?d1, ?d2] @ rest) 22 = Some (Some (reply_of ?d1, 42))"
    using parse_at_frame [of "[?d0]" ?d1 "[?d2]" rest] by simp
  have p2: "parse_at (frame_bytes [?d0, ?d1, ?d2] @ rest) 42 = Some (Some (reply_of ?d2, 0))"
    using parse_at_frame [of "[?d0, ?d1]" ?d2 "[]" rest] by simp
  show ?thesis
    by (simp add: parse_three_u64_reads_def with_datagram_def p0 p1 p2 with_ok_def read_u64_le64)
qed

section \<open>Termination\<close>

definition dc_inv :: "fsm_dc \<Rightarrow> bool" where
  "dc_inv f \<longleftrightarrow> chan_wf 96 128 f"

definition dc_rank :: "fsm_dc \<Rightarrow> nat" where
  "dc_rank f =
     (case fd_state f of
        CompLatch \<Rightarrow> 7 | CompReadPorts \<Rightarrow> 6 | CompWriteDelay \<Rightarrow> 5 | CompReadTimes \<Rightarrow> 4
      | CompWriteOffset \<Rightarrow> 3 | LatchTime \<Rightarrow> 4 | ReadTime \<Rightarrow> 3 | WriteCycle \<Rightarrow> 2 | WriteStart \<Rightarrow> 1
      | Activate \<Rightarrow> 0 | DcDone \<Rightarrow> 0)"

definition dc_left :: "fsm_dc \<Rightarrow> nat" where
  "dc_left f = stage_left dc_rank f"

lemma dc_rank_chan [simp]: "dc_rank (chan_upd f p t k x) = dc_rank f"
  by (cases "fd_state f") (simp_all add: dc_rank_def)

lemma dc_on_ports_total:
  assumes "chan_wf n m f" "len \<le> m"
  shows "\<exists>g out. dc_on_ports f len = Some (g, out) \<and>
    (out = Inr False \<longrightarrow> (\<exists>v. g = dc_advance CompWriteDelay (f\<lparr>fd_delay := v\<rparr>)))"
proof -
  obtain r where r: "parse_two_port_reads (take len (fs_rx f)) = Some r" using parse_two_total by blast
  have s: "slice (fs_rx f) 0 len = Some (take len (fs_rx f))"
    using assms by (simp add: chan_wf_def)
  show ?thesis
  proof (cases r)
    case (Inl e)
    then show ?thesis using r s by (simp add: dc_on_ports_def)
  next
    case (Inr ab)
    obtain a b where ab: "ab = (a, b)" by (cases ab) auto
    have "length a = 4" "length b = 4" using parse_two_ports r Inr ab by blast+
    then have "1 < length a" "0 < length a" "1 < length b" "0 < length b" by simp_all
    then obtain v where "propagation_delay a b = Some v"
      by (simp add: propagation_delay_def idx_def Let_def)
    then show ?thesis using r s Inr ab by (auto simp: dc_on_ports_def)
  qed
qed

lemma dc_on_times_total:
  assumes "chan_wf n m f" "len \<le> m"
  shows "\<exists>g out. dc_on_times f len = Some (g, out) \<and>
    (out = Inr False \<longrightarrow> (\<exists>u v. g = dc_advance CompWriteOffset (f\<lparr>fd_offset := u, fd_start_time := v\<rparr>)))"
proof -
  obtain r where r: "parse_three_u64_reads (take len (fs_rx f)) = Some r" using parse_three_total by blast
  have s: "slice (fs_rx f) 0 len = Some (take len (fs_rx f))"
    using assms by (simp add: chan_wf_def)
  show ?thesis
    using r s by (cases r) (auto simp: dc_on_times_def)
qed

lemma dc_on_time_total:
  "\<exists>v. dc_on_time f r = Some (dc_advance WriteCycle (f\<lparr>fd_start_time := v\<rparr>), Inr False)"
  using read_u64_le_total [of "take 8 (rp_data r)"] by (auto simp: dc_on_time_def) blast+

interpretation dc: bounded_fsm dc_step dc_inv dc_left
proof
  fix f d ix
  assume inv: "dc_inv f" and dev: "dev_wf d"
  then have wf: "chan_wf 96 128 f" by (simp add: dc_inv_def)
  let ?goal = "\<lambda>t. \<exists>f' d' ix' r. t = Some (f', d', ix', r) \<and> dev_wf d' \<and>
      (r = Inr False \<longrightarrow> dc_inv f' \<and> dc_left f' < dc_left f)"
  have len_stage: "?goal (stage f d ix b h)"
    if "builder_ok 96 b" and
      "\<And>p t k x len. chan_wf 96 128 (chan_upd f p t k x) \<Longrightarrow> len \<le> 128 \<Longrightarrow>
        \<exists>g out. h (chan_upd f p t k x) len = Some (g, out) \<and> (out = Inr False \<longrightarrow> dc_inv g \<and> dc_rank g < dc_rank f)"
    for b h
    unfolding dc_left_def
    by (rule stage_ok [OF wf dev that(1)]) (use that(2) in \<open>auto simp: dc_inv_def\<close>)
  have reply_stage: "?goal (stage f d ix b (on_reply h))"
    if "builder_ok 96 b" and
      "\<And>p t k x r. chan_wf 96 128 (chan_upd f p t k x) \<Longrightarrow>
        \<exists>g out. h (chan_upd f p t k x) r = Some (g, out) \<and> (out = Inr False \<longrightarrow> dc_inv g \<and> dc_rank g < dc_rank f)"
    for b h
    unfolding dc_left_def
    by (rule stage_reply_ok [OF wf dev that(1)]) (use that(2) in \<open>auto simp: dc_inv_def\<close>)
  have wr: "\<exists>g out. dc_on_write nxt (chan_upd f p t k x) r = Some (g, out) \<and>
      (out = Inr False \<longrightarrow> dc_inv g \<and> dc_rank g < dc_rank f)"
    if "chan_wf 96 128 (chan_upd f p t k x)" "dc_rank (f\<lparr>fd_state := nxt\<rparr>) < dc_rank f" for nxt p t k x r
    using that by (cases nxt) (auto simp: dc_on_write_def dc_advance_def dc_inv_def chan_wf_def dc_rank_def)
  show "?goal (dc_step f d ix)"
  proof (cases "fd_state f")
    case CompLatch
    show ?thesis
      unfolding dc_step_def CompLatch dc_state.case
      by (rule reply_stage) (auto simp: CompLatch dc_builders_ok dc_on_latch_def dc_advance_def dc_inv_def
          chan_wf_def dc_rank_def)
  next
    case CompReadPorts
    show ?thesis
      unfolding dc_step_def CompReadPorts dc_state.case
    proof (rule len_stage [OF dc_builders_ok(1)])
      fix p t k x len
      assume w: "chan_wf 96 128 (chan_upd f p t k x)" "len \<le> (128 :: nat)"
      show "\<exists>g out. dc_on_ports (chan_upd f p t k x) len = Some (g, out) \<and>
          (out = Inr False \<longrightarrow> dc_inv g \<and> dc_rank g < dc_rank f)"
        using dc_on_ports_total [OF w] w
        by (fastforce simp: CompReadPorts dc_advance_def dc_inv_def chan_wf_def dc_rank_def)
    qed
  next
    case CompReadTimes
    show ?thesis
      unfolding dc_step_def CompReadTimes dc_state.case
    proof (rule len_stage [OF dc_builders_ok(2)])
      fix p t k x len
      assume w: "chan_wf 96 128 (chan_upd f p t k x)" "len \<le> (128 :: nat)"
      show "\<exists>g out. dc_on_times (chan_upd f p t k x) len = Some (g, out) \<and>
          (out = Inr False \<longrightarrow> dc_inv g \<and> dc_rank g < dc_rank f)"
        using dc_on_times_total [OF w] w
        by (fastforce simp: CompReadTimes dc_advance_def dc_inv_def chan_wf_def dc_rank_def)
    qed
  next
    case ReadTime
    have h: "\<exists>g out. dc_on_time (chan_upd f p t k x) r = Some (g, out) \<and>
        (out = Inr False \<longrightarrow> dc_inv g \<and> dc_rank g < dc_rank f)"
      if "chan_wf 96 128 (chan_upd f p t k x)" for p t k x r
      using dc_on_time_total [of "chan_upd f p t k x" r] that
      by (auto simp: ReadTime dc_advance_def dc_inv_def chan_wf_def dc_rank_def)
    show ?thesis
      unfolding dc_step_def ReadTime dc_state.case dc_transact_def bind.bind_lunit
      by (rule reply_stage, simp add: dc_builders_ok, rule h)
  next
    case Activate
    show ?thesis
      unfolding dc_step_def Activate dc_state.case dc_transact_def dc_payloads bind.bind_lunit
      by (rule reply_stage) (auto simp: dc_builders_ok dc_on_activate_def)
  next
    case DcDone
    then show ?thesis using dev by (simp add: dc_step_def)
  next
    case CompWriteDelay
    show ?thesis
      unfolding dc_step_def CompWriteDelay dc_state.case dc_transact_def dc_payloads cycle_payload_eq bind.bind_lunit
      by (rule reply_stage, simp add: dc_builders_ok, rule wr, assumption, simp add: dc_rank_def CompWriteDelay)
  next
    case CompWriteOffset
    show ?thesis
      unfolding dc_step_def CompWriteOffset dc_state.case dc_transact_def dc_payloads cycle_payload_eq bind.bind_lunit
      by (rule reply_stage, simp add: dc_builders_ok, rule wr, assumption, simp add: dc_rank_def CompWriteOffset)
  next
    case LatchTime
    show ?thesis
      unfolding dc_step_def LatchTime dc_state.case dc_transact_def dc_payloads cycle_payload_eq bind.bind_lunit
      by (rule reply_stage, simp add: dc_builders_ok, rule wr, assumption, simp add: dc_rank_def LatchTime)
  next
    case WriteCycle
    show ?thesis
      unfolding dc_step_def WriteCycle dc_state.case dc_transact_def dc_payloads cycle_payload_eq bind.bind_lunit
      by (rule reply_stage, simp add: dc_builders_ok, rule wr, assumption, simp add: dc_rank_def WriteCycle)
  next
    case WriteStart
    show ?thesis
      unfolding dc_step_def WriteStart dc_state.case dc_transact_def dc_payloads cycle_payload_eq bind.bind_lunit
      by (rule reply_stage, simp add: dc_builders_ok, rule wr, assumption, simp add: dc_rank_def WriteStart)
  qed
qed

lemma dc_new_inv: "dc_inv (dc_new station cfg dref)"
  by (simp add: dc_inv_def chan_wf_def dc_new_def pump_new_def)

lemma dc_new_left: "dc_left (dc_new station cfg dref) \<le> 7 * 2003 + 2002"
  by (simp add: dc_left_def stage_left_def dc_rank_def chan_left_def dc_new_def)

section \<open>The start time and the delay\<close>

lemma unat_cycle: "unat (ucast (max c 1 :: u32) :: u64) = max (unat c) 1"
  by (simp add: unat_ucast_up max_def word_le_nat_alt word_gt_0 split: if_splits) 

text \<open>While the clock is below \<open>2 ^ 63\<close> (292 years in nanoseconds) nothing wraps: the start time
  without the shift is the first multiple of the cycle beyond \<^verbatim>\<open>now + START_MARGIN_NS\<close>.\<close>

lemma cyclic_start_grid:
  assumes now: "unat now < 2 ^ 63"
  shows "unat (cyclic_start cfg now) =
    ((unat now + 100000000) div max (unat (sync0_cycle_ns cfg)) 1 + 1) * max (unat (sync0_cycle_ns cfg)) 1 +
    unat (sync0_shift_ns cfg)"
proof -
  define c where "c = max (unat (sync0_cycle_ns cfg)) 1"
  define cw :: u64 where "cw = ucast (max (sync0_cycle_ns cfg) 1)"
  define t where "t = unat now + 100000000"
  have cw: "unat cw = c" unfolding cw_def c_def by (rule unat_cycle)
  have c: "1 \<le> c" "c < 2 ^ 32"
    using unsigned_less [of "sync0_cycle_ns cfg"] by (simp_all add: c_def)
  have t: "unat (now + START_MARGIN_NS) = t"
    using now by (simp add: unat_word_ariths START_MARGIN_NS_def t_def)
  have q: "(t div c + 1) * c \<le> t + c" by (simp add: add_mult_distrib)
  have big: "t + c + 2 ^ 32 < 2 ^ 64" using now c by (simp add: t_def)
  have q1: "t div c + 1 < 2 ^ 64"
    using le_less_trans [OF div_le_dividend [of t c], of "2 ^ 64 - 1"] big by simp
  have shift: "unat (ucast (sync0_shift_ns cfg) :: u64) = unat (sync0_shift_ns cfg)"
    by (simp add: unat_ucast_up)
  have sh: "unat (sync0_shift_ns cfg) < 2 ^ 32" using unsigned_less [of "sync0_shift_ns cfg"] by simp
  define qw where "qw = (now + START_MARGIN_NS) div cw + 1"
  have "unat ((now + START_MARGIN_NS) div cw) = t div c"
    by (simp add: unat_div t cw)
  then have e: "unat qw = t div c + 1"
    using q1 by (simp add: qw_def unat_word_ariths)
  have m: "unat (qw * cw) = (t div c + 1) * c"
  proof -
    have "unat (qw * cw) = (unat qw * unat cw) mod 2 ^ 64" by (simp add: unat_word_ariths)
    also have "\<dots> = ((t div c + 1) * c) mod 2 ^ 64" by (simp only: e cw)
    also have "\<dots> = (t div c + 1) * c" using q big by (intro mod_less) linarith
    finally show ?thesis .
  qed
  have "unat (qw * cw + ucast (sync0_shift_ns cfg)) = (t div c + 1) * c + unat (sync0_shift_ns cfg)"
  proof -
    have "unat (qw * cw + ucast (sync0_shift_ns cfg)) =
        (unat (qw * cw) + unat (ucast (sync0_shift_ns cfg) :: u64)) mod 2 ^ 64"
      by (simp add: unat_word_ariths)
    also have "\<dots> = ((t div c + 1) * c + unat (sync0_shift_ns cfg)) mod 2 ^ 64"
      by (simp only: m shift)
    also have "\<dots> = (t div c + 1) * c + unat (sync0_shift_ns cfg)"
      using q big sh by (intro mod_less) linarith
    finally show ?thesis .
  qed
  then show ?thesis
    by (simp add: cyclic_start_def Let_def cw_def c_def t_def qw_def)
qed

lemma cycle_grid_bounds:
  fixes n c :: nat
  assumes "1 \<le> c"
  shows "n < (n div c + 1) * c" "(n div c + 1) * c \<le> n + c" "c dvd (n div c + 1) * c"
  using assms dividend_less_div_times [of c n] by (auto simp: algebra_simps)

text \<open>The delay: half the difference of the round trips when that is plausible, zero otherwise.\<close>

lemma propagation_delay_eq:
  "propagation_delay [r0, r1, r2, r3] [f0, f1, f2, f3] =
     (let d = uint (r1 - r0) - uint (f1 - f0)
      in Some (if -2 < d \<and> d \<le> 20001 then word_of_int (d sdiv 2) else 0))"
proof -
  have "(0 \<le> d sdiv 2 \<and> d sdiv 2 \<le> 10000) \<longleftrightarrow> -2 < d \<and> d \<le> 20001" for d :: int
    by (cases "0 \<le> d") (auto simp: signed_divide_int_def sgn_if)
  then show ?thesis
    by (simp add: propagation_delay_def idx_def Let_def MAX_DELAY_NS_def)
qed

lemma propagation_delay_bound:
  assumes "propagation_delay a b = Some v"
  shows "v \<le> MAX_DELAY_NS"
proof -
  have "word_of_int i \<le> MAX_DELAY_NS" if "0 \<le> i" "i \<le> 10000" for i
    using that by (simp add: MAX_DELAY_NS_def word_le_def uint_word_of_int take_bit_int_eq_self)
  then show ?thesis
    using assms by (auto simp: propagation_delay_def Let_def Option.bind_eq_Some_conv MAX_DELAY_NS_def
        split: if_splits)
qed

end
