(* ===== verification/SlaveConfig.thy ===== *)
theory SlaveConfig
  imports Change Coe Dc
begin

text \<open>
  Bring-up of one slave to SAFE-OP, \<^verbatim>\<open>src/ethercat/fsm_slave_config.rs\<close>: clear the FMMUs, program the
  mailbox sync managers, enter PRE-OP, write the SDO init values, the PDO mappings and
  assignments, the process-data sync managers, the watchdog, the FMMUs and the distributed clock,
  and enter SAFE-OP. It embeds the machines of \<open>Change\<close>, \<open>Coe\<close> and \<open>Dc\<close> and is itself an instance
  of \<open>bounded_fsm\<close>: its progress measure adds what is left of the current phase to the budgets of
  the phases after it.
\<close>

unbundle bit_operations_syntax

section \<open>The machine\<close>

definition WD_DIVIDER_VALUE :: u16 where "WD_DIVIDER_VALUE = 0x09C2"
definition WD_PDATA_VALUE :: u16 where "WD_PDATA_VALUE = 0x07D0"

datatype phase =
    ClearFmmus | DcClear | MboxSm0 | MboxSm1 | ToPreop | SdoInit | PdoMapping | PdoAssign | PdSm
  | WatchdogDiv | WatchdogTime | Fmmu | DcCycle | ToSafeop | ConfigDone

record fsm_slave_config = chan +
  sc_slave :: slave_cfg
  sc_station :: u16
  sc_mbox :: mailbox
  sc_dc_ref :: dc_ref
  sc_phase :: phase
  sc_change :: "fsm_change option"
  sc_seq :: "coe_seq option"
  sc_dc :: "fsm_dc option"
  sc_sm_idx :: nat
  sc_pdo_idx :: nat
  sc_fmmu_idx :: nat

definition slave_config_new :: "u16 \<Rightarrow> mailbox \<Rightarrow> slave_cfg \<Rightarrow> dc_ref \<Rightarrow> fsm_slave_config" where
  "slave_config_new station mbox slave dref =
     \<lparr>fs_pump = pump_new, fs_tx = replicate 96 0, fs_tx_len = 0, fs_rx = replicate 128 0,
      sc_slave = slave, sc_station = station, sc_mbox = mbox, sc_dc_ref = dref, sc_phase = ClearFmmus,
      sc_change = None, sc_seq = None, sc_dc = None, sc_sm_idx = 0, sc_pdo_idx = 0, sc_fmmu_idx = 0\<rparr>"

definition goto :: "phase \<Rightarrow> fsm_slave_config \<Rightarrow> fsm_slave_config" where
  "goto nxt f = f\<lparr>sc_phase := nxt, fs_tx_len := 0\<rparr>"

definition fpwr_acked :: "fsm_slave_config \<Rightarrow> reply \<Rightarrow> (fsm_slave_config \<times> bool res) option" where
  "fpwr_acked f r =
     (if rp_wkc r \<noteq> 1 then Some (f, Inl WorkingCounter) else Some (f\<lparr>fs_tx_len := 0\<rparr>, Inr True))"

definition fpwr :: "fsm_slave_config \<Rightarrow> device \<Rightarrow> u8 \<Rightarrow> u16 \<Rightarrow> bytes \<Rightarrow>
    (fsm_slave_config \<times> device \<times> u8 \<times> bool res) option" where
  "fpwr f d ix ado payload = stage f d ix (one_datagram Fpwr (sc_station f) ado payload) (on_reply fpwr_acked)"

definition run_change :: "fsm_slave_config \<Rightarrow> device \<Rightarrow> u8 \<Rightarrow> u8 \<Rightarrow>
    (fsm_slave_config \<times> device \<times> u8 \<times> bool res) option" where
  "run_change f d ix target = do {
     let c = (case sc_change f of None \<Rightarrow> change_new (sc_station f) target | Some c \<Rightarrow> c);
     (c, d, ix, r) \<leftarrow> change_step c d ix;
     case r of
       Inl e \<Rightarrow> Some (f\<lparr>sc_change := Some c\<rparr>, d, ix, Inl e)
     | Inr fin \<Rightarrow> Some (f\<lparr>sc_change := (if fin then None else Some c)\<rparr>, d, ix, Inr fin) }"

definition run_seq :: "fsm_slave_config \<Rightarrow> device \<Rightarrow> u8 \<Rightarrow>
    (fsm_slave_config \<times> device \<times> u8 \<times> bool res) option" where
  "run_seq f d ix =
     (case sc_seq f of
        None \<Rightarrow> Some (f, d, ix, Inr True)
      | Some s \<Rightarrow> do {
          (s, d, ix, r) \<leftarrow> coe_seq_step s d ix;
          case r of
            Inl e \<Rightarrow> Some (f\<lparr>sc_seq := Some s\<rparr>, d, ix, Inl e)
          | Inr fin \<Rightarrow> Some (f\<lparr>sc_seq := (if fin then None else Some s)\<rparr>, d, ix, Inr fin) })"

text \<open>\<^verbatim>\<open>if <action>? { <k> } Ok(false)\<close>: the common shape of the phases.\<close>

definition when_done ::
  "('f \<times> device \<times> u8 \<times> bool res) option \<Rightarrow> ('f \<Rightarrow> 'f) \<Rightarrow> ('f \<times> device \<times> u8 \<times> bool res) option" where
  "when_done m k = do {
     (f, d, ix, r) \<leftarrow> m;
     case r of Inl e \<Rightarrow> Some (f, d, ix, Inl e) | Inr fin \<Rightarrow> Some (if fin then k f else f, d, ix, Inr False) }"

definition sdo_init_seq :: "mailbox \<Rightarrow> sdo_init list \<Rightarrow> coe_seq" where
  "sdo_init_seq mbox sdos =
     fold (\<lambda>i s. fst (coe_seq_push s (sdo_index i) (sdo_subindex i) (sdo_data i))) sdos (coe_seq_new mbox)"

definition process_page :: "sm_cfg \<Rightarrow> bytes option" where
  "process_page sm =
     (case sm_dir sm of
        Output \<Rightarrow> write_process_out (replicate 8 0) (sm_phys_start sm) (sm_size sm) (sm_control sm)
      | Input \<Rightarrow> write_process_in (replicate 8 0) (sm_phys_start sm) (sm_size sm) (sm_control sm))"

definition pdo_mapping_phase :: "fsm_slave_config \<Rightarrow> device \<Rightarrow> u8 \<Rightarrow>
    (fsm_slave_config \<times> device \<times> u8 \<times> bool res) option" where
  "pdo_mapping_phase f d ix =
     (if sc_sm_idx f \<ge> length (sl_sms (sc_slave f))
      then Some (goto PdoAssign (f\<lparr>sc_sm_idx := 0\<rparr>), d, ix, Inr False)
      else do {
        sm \<leftarrow> idx (sl_sms (sc_slave f)) (sc_sm_idx f);
        if sc_pdo_idx f \<ge> length (sm_pdos sm)
        then Some (f\<lparr>sc_sm_idx := sc_sm_idx f + 1, sc_pdo_idx := 0\<rparr>, d, ix, Inr False)
        else do {
          f \<leftarrow> (case sc_seq f of
                 None \<Rightarrow> do {
                   pdo \<leftarrow> idx (sm_pdos sm) (sc_pdo_idx f);
                   Some (f\<lparr>sc_seq := Some (build_mapping (sc_mbox f) pdo)\<rparr>) }
               | Some _ \<Rightarrow> Some f);
          when_done (run_seq f d ix) (\<lambda>f. f\<lparr>sc_pdo_idx := sc_pdo_idx f + 1\<rparr>) } })"

definition pdo_assign_phase :: "fsm_slave_config \<Rightarrow> device \<Rightarrow> u8 \<Rightarrow>
    (fsm_slave_config \<times> device \<times> u8 \<times> bool res) option" where
  "pdo_assign_phase f d ix =
     (if sc_sm_idx f \<ge> length (sl_sms (sc_slave f))
      then Some (goto PdSm (f\<lparr>sc_sm_idx := 0\<rparr>), d, ix, Inr False)
      else do {
        sm \<leftarrow> idx (sl_sms (sc_slave f)) (sc_sm_idx f);
        let f = (case sc_seq f of
                   None \<Rightarrow> f\<lparr>sc_seq := Some (build_assign (sc_mbox f) (sm_index sm) (sm_pdos sm))\<rparr>
                 | Some _ \<Rightarrow> f);
        when_done (run_seq f d ix) (\<lambda>f. f\<lparr>sc_sm_idx := sc_sm_idx f + 1\<rparr>) })"

definition pd_sm_phase :: "fsm_slave_config \<Rightarrow> device \<Rightarrow> u8 \<Rightarrow>
    (fsm_slave_config \<times> device \<times> u8 \<times> bool res) option" where
  "pd_sm_phase f d ix =
     (if sc_sm_idx f \<ge> length (sl_sms (sc_slave f))
      then Some (goto WatchdogDiv f, d, ix, Inr False)
      else do {
        sm \<leftarrow> idx (sl_sms (sc_slave f)) (sc_sm_idx f);
        page \<leftarrow> process_page sm;
        let ado = reg_SM0 + ucast (sm_index sm) * EC_SYNC_PAGE_SIZE;
        when_done (fpwr f d ix ado page) (\<lambda>f. f\<lparr>sc_sm_idx := sc_sm_idx f + 1\<rparr>) })"

definition fmmu_phase :: "fsm_slave_config \<Rightarrow> device \<Rightarrow> u8 \<Rightarrow>
    (fsm_slave_config \<times> device \<times> u8 \<times> bool res) option" where
  "fmmu_phase f d ix =
     (if sc_fmmu_idx f \<ge> length (sl_fmmus (sc_slave f))
      then Some (goto DcCycle f, d, ix, Inr False)
      else do {
        cfg \<leftarrow> idx (sl_fmmus (sc_slave f)) (sc_fmmu_idx f);
        page \<leftarrow> fmmu_write_page (replicate fmmu_PAGE_SIZE 0) cfg;
        let ado = reg_FMMU_BASE + of_nat (sc_fmmu_idx f) * of_nat fmmu_PAGE_SIZE;
        when_done (fpwr f d ix ado page) (\<lambda>f. f\<lparr>sc_fmmu_idx := sc_fmmu_idx f + 1\<rparr>) })"

definition dc_cycle_phase :: "fsm_slave_config \<Rightarrow> device \<Rightarrow> u8 \<Rightarrow>
    (fsm_slave_config \<times> device \<times> u8 \<times> bool res) option" where
  "dc_cycle_phase f d ix =
     (case sl_dc (sc_slave f) of
        None \<Rightarrow> Some (goto ToSafeop f, d, ix, Inr False)
      | Some cfg \<Rightarrow> do {
          let c = (case sc_dc f of None \<Rightarrow> dc_new (sc_station f) cfg (sc_dc_ref f) | Some c \<Rightarrow> c);
          (c, d, ix, r) \<leftarrow> dc_step c d ix;
          case r of
            Inl e \<Rightarrow> Some (f\<lparr>sc_dc := Some c\<rparr>, d, ix, Inl e)
          | Inr fin \<Rightarrow>
              Some (if fin then goto ToSafeop (f\<lparr>sc_dc := None\<rparr>) else f\<lparr>sc_dc := Some c\<rparr>, d, ix, Inr False) })"

definition slave_config_step :: "fsm_slave_config fsm_step" where
  "slave_config_step f d ix =
     (case sc_phase f of
        ClearFmmus \<Rightarrow> when_done (fpwr f d ix reg_FMMU_BASE (replicate 48 0)) (goto DcClear)
      | DcClear \<Rightarrow> when_done (fpwr f d ix reg_DC_ACTIVATION (replicate 2 0)) (goto MboxSm0)
      | MboxSm0 \<Rightarrow> do {
          page \<leftarrow> write_mailbox_out (replicate 8 0) (mb_rx_offset (sc_mbox f)) (mb_rx_size (sc_mbox f));
          when_done (fpwr f d ix reg_SM0 page) (goto MboxSm1) }
      | MboxSm1 \<Rightarrow> do {
          page \<leftarrow> write_mailbox_in (replicate 8 0) (mb_tx_offset (sc_mbox f)) (mb_tx_size (sc_mbox f));
          when_done (fpwr f d ix reg_SM1 page) (goto ToPreop) }
      | ToPreop \<Rightarrow>
          when_done (run_change f d ix al_PREOP)
            (\<lambda>f. goto SdoInit (f\<lparr>sc_seq := Some (sdo_init_seq (sc_mbox f) (sl_sdo_init (sc_slave f)))\<rparr>))
      | SdoInit \<Rightarrow> when_done (run_seq f d ix) (\<lambda>f. goto PdoMapping (f\<lparr>sc_sm_idx := 0, sc_pdo_idx := 0\<rparr>))
      | PdoMapping \<Rightarrow> pdo_mapping_phase f d ix
      | PdoAssign \<Rightarrow> pdo_assign_phase f d ix
      | PdSm \<Rightarrow> pd_sm_phase f d ix
      | WatchdogDiv \<Rightarrow> when_done (fpwr f d ix reg_WD_DIVIDER (le16 WD_DIVIDER_VALUE)) (goto WatchdogTime)
      | WatchdogTime \<Rightarrow>
          when_done (fpwr f d ix reg_WD_PDATA (le16 WD_PDATA_VALUE)) (\<lambda>f. goto Fmmu (f\<lparr>sc_fmmu_idx := 0\<rparr>))
      | Fmmu \<Rightarrow> fmmu_phase f d ix
      | DcCycle \<Rightarrow> dc_cycle_phase f d ix
      | ToSafeop \<Rightarrow> do {
          (f, d, ix, r) \<leftarrow> run_change f d ix al_SAFEOP;
          case r of
            Inl e \<Rightarrow> Some (f, d, ix, Inl e)
          | Inr fin \<Rightarrow> if fin then Some (f\<lparr>sc_phase := ConfigDone\<rparr>, d, ix, Inr True) else Some (f, d, ix, Inr False) }
      | ConfigDone \<Rightarrow> Some (f, d, ix, Inr True))"

section \<open>Sequences that have not started\<close>

definition seq_full :: nat where "seq_full = 36 * (coe_full + 1) + coe_full"
definition change_full :: nat where "change_full = 2003 * 2003 + 2002"
definition dc_full :: nat where "dc_full = 7 * 2003 + 2002"

definition seq_fresh :: "coe_seq \<Rightarrow> bool" where
  "seq_fresh s \<longleftrightarrow> coe_seq_inv s \<and> cs_cur s = 0 \<and> cs_coe s = None \<and> length (cs_ops s) \<le> 36"

definition seq_ok :: "coe_seq \<Rightarrow> bool" where
  "seq_ok s \<longleftrightarrow> coe_seq_inv s \<and> coe_seq_left s \<le> seq_full"

lemma seq_fresh_ok: "seq_fresh s \<Longrightarrow> seq_ok s"
  using mult_le_mono1 [of "length (cs_ops s)" 36 "coe_full + 1"]
  by (auto simp: seq_fresh_def seq_ok_def coe_seq_left_def seq_full_def)

lemma seq_fresh_new: "seq_fresh (coe_seq_new mbox)"
  by (simp add: seq_fresh_def coe_seq_new_inv) (simp add: coe_seq_new_def)

lemma seq_fresh_push: "seq_fresh s \<Longrightarrow> seq_fresh (fst (coe_seq_push s ix sub dat))"
  using coe_seq_push_inv [of s ix sub dat]
  by (auto simp: seq_fresh_def coe_seq_push_def vec_push_def split: option.splits if_splits)

lemma seq_fresh_push_list: "seq_fresh s \<Longrightarrow> seq_fresh (seq_push_list s obj i vs)"
  by (induction vs arbitrary: s i) (auto intro: seq_fresh_push)

lemma seq_fresh_mapping: "seq_fresh (build_mapping mbox pdo)"
  by (auto simp: build_mapping_def Let_def intro!: seq_fresh_push seq_fresh_push_list seq_fresh_new)

lemma seq_fresh_assign: "seq_fresh (build_assign mbox n pdos)"
  by (auto simp: build_assign_def Let_def intro!: seq_fresh_push seq_fresh_push_list seq_fresh_new)

lemma seq_fresh_sdo_init: "seq_fresh (sdo_init_seq mbox sdos)"
proof -
  have "seq_fresh s \<Longrightarrow>
      seq_fresh (fold (\<lambda>i s. fst (coe_seq_push s (sdo_index i) (sdo_subindex i) (sdo_data i))) sdos s)" for s
    by (induction sdos arbitrary: s) (auto intro: seq_fresh_push)
  then show ?thesis unfolding sdo_init_seq_def using seq_fresh_new .
qed

section \<open>Progress\<close>

definition sub_ok :: "fsm_slave_config \<Rightarrow> bool" where
  "sub_ok f \<longleftrightarrow>
     (\<forall>c. sc_change f = Some c \<longrightarrow> change_inv c \<and> change_left c \<le> change_full) \<and>
     (\<forall>s. sc_seq f = Some s \<longrightarrow> seq_ok s) \<and>
     (\<forall>c. sc_dc f = Some c \<longrightarrow> dc_inv c \<and> dc_left c \<le> dc_full)"

definition slave_config_inv :: "fsm_slave_config \<Rightarrow> bool" where
  "slave_config_inv f \<longleftrightarrow> chan_wf 96 128 f \<and> sub_ok f"

definition change_val :: "fsm_slave_config \<Rightarrow> nat" where
  "change_val f = (case sc_change f of None \<Rightarrow> change_full | Some c \<Rightarrow> change_left c)"

definition seq_val :: "fsm_slave_config \<Rightarrow> nat" where
  "seq_val f = (case sc_seq f of None \<Rightarrow> seq_full + 1 | Some s \<Rightarrow> coe_seq_left s)"

definition dc_val :: "fsm_slave_config \<Rightarrow> nat" where
  "dc_val f = (case sc_dc f of None \<Rightarrow> dc_full | Some c \<Rightarrow> dc_left c)"

definition max_pdos :: "slave_cfg \<Rightarrow> nat" where
  "max_pdos s = (\<Sum>m\<leftarrow>sl_sms s. length (sm_pdos m))"

definition seq_unit :: nat where "seq_unit = seq_full + 2"

lemma seq_unit_less: "seq_full + 1 < seq_unit"
  by (simp add: seq_unit_def)

definition sm_unit :: "slave_cfg \<Rightarrow> nat" where
  "sm_unit s = max_pdos s * seq_unit + seq_unit"

text \<open>What is left of the current phase, the largest value a phase can start with, and the sum of
  those over the phases that follow.\<close>

definition phase_left :: "fsm_slave_config \<Rightarrow> nat" where
  "phase_left f =
     (let s = sc_slave f; sms_left = length (sl_sms s) - sc_sm_idx f
      in case sc_phase f of
        ToPreop \<Rightarrow> change_val f
      | SdoInit \<Rightarrow> seq_val f
      | PdoMapping \<Rightarrow> sms_left * sm_unit s +
          (if sc_sm_idx f < length (sl_sms s)
           then (length (sm_pdos (sl_sms s ! sc_sm_idx f)) - sc_pdo_idx f) * seq_unit else 0) + seq_val f
      | PdoAssign \<Rightarrow> sms_left * seq_unit + seq_val f
      | PdSm \<Rightarrow> sms_left * 2003 + chan_left f
      | Fmmu \<Rightarrow> (length (sl_fmmus s) - sc_fmmu_idx f) * 2003 + chan_left f
      | DcCycle \<Rightarrow> dc_val f
      | ToSafeop \<Rightarrow> change_val f
      | ConfigDone \<Rightarrow> 0
      | _ \<Rightarrow> chan_left f)"

definition phase_budget :: "slave_cfg \<Rightarrow> phase \<Rightarrow> nat" where
  "phase_budget s p =
     (let n = length (sl_sms s)
      in case p of
        ToPreop \<Rightarrow> change_full
      | SdoInit \<Rightarrow> seq_full + 1
      | PdoMapping \<Rightarrow> n * sm_unit s + sm_unit s + seq_full + 1
      | PdoAssign \<Rightarrow> n * seq_unit + seq_full + 1
      | PdSm \<Rightarrow> n * 2003 + 2002
      | Fmmu \<Rightarrow> length (sl_fmmus s) * 2003 + 2002
      | DcCycle \<Rightarrow> dc_full
      | ToSafeop \<Rightarrow> change_full
      | ConfigDone \<Rightarrow> 0
      | _ \<Rightarrow> 2002)"

definition phase_next :: "phase \<Rightarrow> phase list" where
  "phase_next p =
     tl (dropWhile (\<lambda>q. q \<noteq> p)
       [ClearFmmus, DcClear, MboxSm0, MboxSm1, ToPreop, SdoInit, PdoMapping, PdoAssign, PdSm,
        WatchdogDiv, WatchdogTime, Fmmu, DcCycle, ToSafeop, ConfigDone])"

definition after_phase :: "slave_cfg \<Rightarrow> phase \<Rightarrow> nat" where
  "after_phase s p = (\<Sum>q\<leftarrow>phase_next p. phase_budget s q + 1)"

definition slave_config_left :: "fsm_slave_config \<Rightarrow> nat" where
  "slave_config_left f = phase_left f + after_phase (sc_slave f) (sc_phase f)"

lemma after_phase_step:
  "after_phase s ClearFmmus = phase_budget s DcClear + 1 + after_phase s DcClear"
  "after_phase s DcClear = phase_budget s MboxSm0 + 1 + after_phase s MboxSm0"
  "after_phase s MboxSm0 = phase_budget s MboxSm1 + 1 + after_phase s MboxSm1"
  "after_phase s MboxSm1 = phase_budget s ToPreop + 1 + after_phase s ToPreop"
  "after_phase s ToPreop = phase_budget s SdoInit + 1 + after_phase s SdoInit"
  "after_phase s SdoInit = phase_budget s PdoMapping + 1 + after_phase s PdoMapping"
  "after_phase s PdoMapping = phase_budget s PdoAssign + 1 + after_phase s PdoAssign"
  "after_phase s PdoAssign = phase_budget s PdSm + 1 + after_phase s PdSm"
  "after_phase s PdSm = phase_budget s WatchdogDiv + 1 + after_phase s WatchdogDiv"
  "after_phase s WatchdogDiv = phase_budget s WatchdogTime + 1 + after_phase s WatchdogTime"
  "after_phase s WatchdogTime = phase_budget s Fmmu + 1 + after_phase s Fmmu"
  "after_phase s Fmmu = phase_budget s DcCycle + 1 + after_phase s DcCycle"
  "after_phase s DcCycle = phase_budget s ToSafeop + 1 + after_phase s ToSafeop"
  by (simp_all add: after_phase_def phase_next_def)

text \<open>Entering a phase costs at most its budget.\<close>

lemma member_le_sum_list: "x \<in> set xs \<Longrightarrow> f x \<le> (\<Sum>x\<leftarrow>xs. f x :: nat)"
  by (induction xs) auto

lemma pdos_le_max: "i < length (sl_sms s) \<Longrightarrow> length (sm_pdos (sl_sms s ! i)) \<le> max_pdos s"
  unfolding max_pdos_def by (rule member_le_sum_list) simp

lemma seq_val_le: "sub_ok f \<Longrightarrow> seq_val f \<le> seq_full + 1"
  by (auto simp: seq_val_def sub_ok_def seq_ok_def le_Suc_eq split: option.splits)

lemma change_val_le: "sub_ok f \<Longrightarrow> change_val f \<le> change_full"
  by (auto simp: change_val_def sub_ok_def split: option.splits)

lemma dc_val_le: "sub_ok f \<Longrightarrow> dc_val f \<le> dc_full"
  by (auto simp: dc_val_def sub_ok_def split: option.splits)

lemma mapping_left_le:
  assumes "sub_ok f"
  shows "(length (sl_sms s) - i) * sm_unit s +
      (if i < length (sl_sms s) then (length (sm_pdos (sl_sms s ! i)) - j) * seq_unit else 0) + seq_val f
    \<le> length (sl_sms s) * sm_unit s + sm_unit s + seq_full + 1"
proof -
  have a: "(length (sl_sms s) - i) * sm_unit s \<le> length (sl_sms s) * sm_unit s"
    by (rule mult_le_mono1) simp
  have "(if i < length (sl_sms s) then (length (sm_pdos (sl_sms s ! i)) - j) * seq_unit else 0)
      \<le> max_pdos s * seq_unit"
    using mult_le_mono1 [of "length (sm_pdos (sl_sms s ! i)) - j" "max_pdos s" seq_unit] pdos_le_max [of i s]
    by auto
  moreover have "max_pdos s * seq_unit \<le> sm_unit s" by (simp add: sm_unit_def)
  ultimately show ?thesis using a seq_val_le [OF assms] by linarith
qed

lemma phase_left_le:
  assumes "sub_ok f"
  shows "phase_left f \<le> phase_budget (sc_slave f) (sc_phase f)"
proof -
  let ?s = "sc_slave f" and ?i = "sc_sm_idx f"
  note bounds = chan_left_le [of f] seq_val_le [OF assms] change_val_le [OF assms] dc_val_le [OF assms]
  have mono: "(a - i) * k \<le> a * k" for a i k :: nat by (rule mult_le_mono1) simp
  have "(length (sl_sms ?s) - ?i) * seq_unit + seq_val f \<le> length (sl_sms ?s) * seq_unit + (seq_full + 1)"
    "(length (sl_sms ?s) - ?i) * 2003 + chan_left f \<le> length (sl_sms ?s) * 2003 + 2002"
    "(length (sl_fmmus ?s) - sc_fmmu_idx f) * 2003 + chan_left f \<le> length (sl_fmmus ?s) * 2003 + 2002"
    by (rule add_mono [OF mono bounds(2)], rule add_mono [OF mono bounds(1)],
        rule add_mono [OF mono bounds(1)])
  then show ?thesis
    using bounds mapping_left_le [OF assms, of ?s ?i "sc_pdo_idx f"]
    by (cases "sc_phase f") (simp_all add: phase_left_def phase_budget_def Let_def)
qed

lemma next_phase_less:
  assumes "after_phase (sc_slave f) (sc_phase f) =
      phase_budget (sc_slave f) (sc_phase g) + 1 + after_phase (sc_slave f) (sc_phase g)"
    and "sub_ok g" "sc_slave g = sc_slave f"
  shows "slave_config_left g < slave_config_left f"
  using assms phase_left_le [OF assms(2)] by (simp add: slave_config_left_def)

section \<open>The machine terminates\<close>

lemma sub_ok_chan [simp]: "sub_ok (chan_upd f p t k x) = sub_ok f"
  by (simp add: sub_ok_def)

lemma chan_wf_sub [simp]:
  "chan_wf n m (f\<lparr>sc_change := c\<rparr>) = chan_wf n m f" "chan_wf n m (f\<lparr>sc_seq := s\<rparr>) = chan_wf n m f"
  "chan_wf n m (f\<lparr>sc_dc := dd\<rparr>) = chan_wf n m f" "chan_wf n m (f\<lparr>sc_phase := ph\<rparr>) = chan_wf n m f"
  "chan_wf n m (f\<lparr>sc_sm_idx := i\<rparr>) = chan_wf n m f" "chan_wf n m (f\<lparr>sc_pdo_idx := i\<rparr>) = chan_wf n m f"
  "chan_wf n m (f\<lparr>sc_fmmu_idx := i\<rparr>) = chan_wf n m f"
  by (simp_all add: chan_wf_def)

lemma sub_ok_idx [simp]:
  "sub_ok (f\<lparr>sc_sm_idx := i\<rparr>) = sub_ok f" "sub_ok (f\<lparr>sc_pdo_idx := i\<rparr>) = sub_ok f"
  "sub_ok (f\<lparr>sc_fmmu_idx := i\<rparr>) = sub_ok f" "sub_ok (f\<lparr>sc_phase := ph\<rparr>) = sub_ok f"
  "sub_ok (f\<lparr>fs_tx_len := n\<rparr>) = sub_ok f"
  by (simp_all add: sub_ok_def)

lemma inv_goto: "slave_config_inv f \<Longrightarrow> slave_config_inv (goto ph f)"
  by (simp add: slave_config_inv_def goto_def) (simp add: chan_wf_def)

definition config_progress ::
  "fsm_slave_config \<Rightarrow> (fsm_slave_config \<times> device \<times> u8 \<times> bool res) option \<Rightarrow> bool" where
  "config_progress f t \<longleftrightarrow> (\<exists>f' d' ix' r. t = Some (f', d', ix', r) \<and> dev_wf d' \<and>
     (r = Inr False \<longrightarrow> slave_config_inv f' \<and> slave_config_left f' < slave_config_left f))"

lemma fpwr_progress:
  assumes inv: "slave_config_inv f" and dev: "dev_wf d" and len: "length payload \<le> 82"
    and wait: "\<And>p t k x. chan_left (chan_upd f p t k x) < chan_left f \<Longrightarrow>
      slave_config_left (chan_upd f p t k x) < slave_config_left f"
    and acked: "\<And>p t x. slave_config_inv (chan_upd f p t 0 x) \<Longrightarrow>
      slave_config_inv (k (chan_upd f p t 0 x)) \<and> slave_config_left (k (chan_upd f p t 0 x)) < slave_config_left f"
  shows "config_progress f (when_done (fpwr f d ix ado payload) k)"
proof -
  have wf: "chan_wf 96 128 f" and sub: "sub_ok f" using inv by (simp_all add: slave_config_inv_def)
  have b: "builder_ok 96 (one_datagram Fpwr (sc_station f) ado payload)"
    by (rule one_datagram_ok) (use len in auto)
  have tot: "on_reply fpwr_acked g n \<noteq> None" if "chan_wf 96 128 g" "n \<le> 128" for g n
    using that by (rule on_reply_total) (simp add: fpwr_acked_def)
  show ?thesis
  proof (rule stage_cases [OF wf dev b, where h = "on_reply fpwr_acked" and ix = ix and pend = False])
    fix p t j x d' ix' e
    assume "stage f d ix (one_datagram Fpwr (sc_station f) ado payload) (on_reply fpwr_acked) =
        Some (chan_upd f p t j x, d', ix', Inl e)" "dev_wf d'"
    then show ?thesis by (simp add: config_progress_def when_done_def fpwr_def)
  next
    fix p t j x d' ix'
    assume "stage f d ix (one_datagram Fpwr (sc_station f) ado payload) (on_reply fpwr_acked) =
        Some (chan_upd f p t j x, d', ix', Inr False)" "chan_wf 96 128 (chan_upd f p t j x)" "dev_wf d'"
      "chan_left (chan_upd f p t j x) < chan_left f"
    then show ?thesis using wait sub by (simp add: config_progress_def when_done_def fpwr_def slave_config_inv_def)
  next
    fix p t j x d' ix' len' g out
    assume a: "stage f d ix (one_datagram Fpwr (sc_station f) ado payload) (on_reply fpwr_acked) =
        Some (g, d', ix', out)" "on_reply fpwr_acked (chan_upd f p t j x) len' = Some (g, out)"
      "chan_wf 96 128 (chan_upd f p t j x)" "dev_wf d'"
    show ?thesis
    proof (cases "\<exists>e. out = Inl e")
      case True
      then show ?thesis using a by (auto simp: config_progress_def when_done_def fpwr_def)
    next
      case False
      then have g: "g = chan_upd f p t 0 x" "out = Inr True"
        using a(2) by (auto elim!: on_reply_cases simp: fpwr_acked_def split: if_splits)
      have "slave_config_inv g" using a(3) sub g by (simp add: slave_config_inv_def) (simp add: chan_wf_def)
      then show ?thesis
        using acked a g by (simp add: config_progress_def when_done_def fpwr_def)
    qed
  qed (use tot in auto)
qed

lemma run_change_cases:
  assumes sub: "sub_ok f" and dev: "dev_wf d"
  obtains (err) c d' ix' e where "run_change f d ix target = Some (f\<lparr>sc_change := Some c\<rparr>, d', ix', Inl e)" "dev_wf d'"
  | (pending) c d' ix' where "run_change f d ix target = Some (f\<lparr>sc_change := Some c\<rparr>, d', ix', Inr False)"
      "dev_wf d'" "sub_ok (f\<lparr>sc_change := Some c\<rparr>)" "change_val (f\<lparr>sc_change := Some c\<rparr>) < change_val f"
  | (fin) d' ix' where "run_change f d ix target = Some (f\<lparr>sc_change := None\<rparr>, d', ix', Inr True)"
      "dev_wf d'" "sub_ok (f\<lparr>sc_change := None\<rparr>)"
proof -
  define c where "c = (case sc_change f of None \<Rightarrow> change_new (sc_station f) target | Some c \<Rightarrow> c)"
  have c: "change_inv c" "change_left c = change_val f"
    using sub by (auto simp: c_def sub_ok_def change_val_def change_new_inv change_new_left change_full_def
        split: option.splits)
  have le: "change_left c \<le> change_full" using c(2) change_val_le [OF sub] by simp
  obtain c' d' ix' r where st: "change_step c d ix = Some (c', d', ix', r)" "dev_wf d'"
      and pend: "r = Inr False \<longrightarrow> change_inv c' \<and> change_left c' < change_left c"
    using change.step_ok [OF c(1) dev, of ix] by blast
  have run: "run_change f d ix target =
      (case r of Inl e \<Rightarrow> Some (f\<lparr>sc_change := Some c'\<rparr>, d', ix', Inl e)
       | Inr fin \<Rightarrow> Some (f\<lparr>sc_change := (if fin then None else Some c')\<rparr>, d', ix', Inr fin))"
    using st by (simp add: run_change_def c_def [symmetric])
  show ?thesis
  proof (cases r)
    case (Inl e)
    then show ?thesis using err [of c' d' ix' e] run st by simp
  next
    case (Inr b)
    show ?thesis
    proof (cases b)
      case True
      then show ?thesis using fin [of d' ix'] run st Inr sub by (simp add: sub_ok_def)
    next
      case False
      then have "change_inv c'" "change_left c' < change_left c" using pend Inr by simp_all
      then show ?thesis
        using pending [of c' d' ix'] run st Inr False sub le c(2) by (simp add: sub_ok_def change_val_def)
    qed
  qed
qed

lemma run_seq_cases:
  assumes sub: "sub_ok f" and dev: "dev_wf d"
  obtains (err) s d' ix' e where "run_seq f d ix = Some (f\<lparr>sc_seq := Some s\<rparr>, d', ix', Inl e)" "dev_wf d'"
  | (pending) s d' ix' where "run_seq f d ix = Some (f\<lparr>sc_seq := Some s\<rparr>, d', ix', Inr False)"
      "dev_wf d'" "sub_ok (f\<lparr>sc_seq := Some s\<rparr>)" "seq_val (f\<lparr>sc_seq := Some s\<rparr>) < seq_val f"
  | (fin) d' ix' where "run_seq f d ix = Some (f\<lparr>sc_seq := None\<rparr>, d', ix', Inr True)"
      "dev_wf d'" "sub_ok (f\<lparr>sc_seq := None\<rparr>)"
proof (cases "sc_seq f")
  case None
  then have "f\<lparr>sc_seq := None\<rparr> = f" by simp
  then show ?thesis using fin [of d ix] None dev sub by (simp add: run_seq_def sub_ok_def)
next
  case (Some s)
  have s: "coe_seq_inv s" "coe_seq_left s \<le> seq_full" using sub Some by (simp_all add: sub_ok_def seq_ok_def)
  obtain s' d' ix' r where st: "coe_seq_step s d ix = Some (s', d', ix', r)" "dev_wf d'"
      and pend: "r = Inr False \<longrightarrow> coe_seq_inv s' \<and> coe_seq_left s' < coe_seq_left s"
    using coe_seq.step_ok [OF s(1) dev, of ix] by blast
  have run: "run_seq f d ix =
      (case r of Inl e \<Rightarrow> Some (f\<lparr>sc_seq := Some s'\<rparr>, d', ix', Inl e)
       | Inr fin \<Rightarrow> Some (f\<lparr>sc_seq := (if fin then None else Some s')\<rparr>, d', ix', Inr fin))"
    using st Some by (simp add: run_seq_def)
  show ?thesis
  proof (cases r)
    case (Inl e)
    then show ?thesis using err [of s' d' ix' e] run st by simp
  next
    case (Inr b)
    show ?thesis
    proof (cases b)
      case True
      then show ?thesis using fin [of d' ix'] run st Inr sub by (simp add: sub_ok_def)
    next
      case False
      then have "coe_seq_inv s'" "coe_seq_left s' < coe_seq_left s" using pend Inr by simp_all
      then show ?thesis
        using pending [of s' d' ix'] run st Inr False sub s(2) Some by (simp add: sub_ok_def seq_ok_def seq_val_def)
    qed
  qed
qed

lemma run_seq_progress:
  assumes inv: "slave_config_inv f" and dev: "dev_wf d"
    and wait: "\<And>s. slave_config_inv (f\<lparr>sc_seq := Some s\<rparr>) \<Longrightarrow> seq_val (f\<lparr>sc_seq := Some s\<rparr>) < seq_val f \<Longrightarrow>
      slave_config_left (f\<lparr>sc_seq := Some s\<rparr>) < slave_config_left f0"
    and fin: "slave_config_inv (f\<lparr>sc_seq := None\<rparr>) \<Longrightarrow>
      slave_config_inv (k (f\<lparr>sc_seq := None\<rparr>)) \<and> slave_config_left (k (f\<lparr>sc_seq := None\<rparr>)) < slave_config_left f0"
  shows "config_progress f0 (when_done (run_seq f d ix) k)"
proof -
  have wf: "chan_wf 96 128 f" and sub: "sub_ok f" using inv by (simp_all add: slave_config_inv_def)
  show ?thesis
    by (rule run_seq_cases [OF sub dev, of ix])
       (use wait fin wf in \<open>auto simp: config_progress_def when_done_def slave_config_inv_def\<close>)
qed

lemma run_change_progress:
  assumes inv: "slave_config_inv f" and dev: "dev_wf d"
    and wait: "\<And>c. slave_config_inv (f\<lparr>sc_change := Some c\<rparr>) \<Longrightarrow>
      change_val (f\<lparr>sc_change := Some c\<rparr>) < change_val f \<Longrightarrow>
      slave_config_left (f\<lparr>sc_change := Some c\<rparr>) < slave_config_left f"
    and fin: "slave_config_inv (f\<lparr>sc_change := None\<rparr>) \<Longrightarrow>
      slave_config_inv (k (f\<lparr>sc_change := None\<rparr>)) \<and> slave_config_left (k (f\<lparr>sc_change := None\<rparr>)) < slave_config_left f"
  shows "config_progress f (when_done (run_change f d ix target) k)"
proof -
  have wf: "chan_wf 96 128 f" and sub: "sub_ok f" using inv by (simp_all add: slave_config_inv_def)
  show ?thesis
    by (rule run_change_cases [OF sub dev, of ix target])
       (use wait fin wf in \<open>auto simp: config_progress_def when_done_def slave_config_inv_def\<close>)
qed

text \<open>The phases that write one register block and move on.\<close>

lemma fpwr_goto_progress:
  assumes inv: "slave_config_inv f" and dev: "dev_wf d" and len: "length payload \<le> 82"
    and single: "sc_phase f \<in> {ClearFmmus, DcClear, MboxSm0, MboxSm1, WatchdogDiv, WatchdogTime}"
    and nxt: "after_phase (sc_slave f) (sc_phase f) = phase_budget (sc_slave f) ph + 1 + after_phase (sc_slave f) ph"
    and k: "\<And>g. sc_slave (k g) = sc_slave g \<and> sc_phase (k g) = ph \<and>
      (slave_config_inv g \<longrightarrow> slave_config_inv (k g))"
  shows "config_progress f (when_done (fpwr f d ix ado payload) k)"
proof (rule fpwr_progress [OF inv dev len])
  fix p t j x
  assume less: "chan_left (chan_upd f p t j x) < chan_left f"
  have "phase_left f = chan_left f" "phase_left (chan_upd f p t j x) = chan_left (chan_upd f p t j x)"
    using single by (auto simp: phase_left_def Let_def)
  then show "slave_config_left (chan_upd f p t j x) < slave_config_left f"
    using less by (simp add: slave_config_left_def)
next
  fix p t x
  assume g: "slave_config_inv (chan_upd f p t 0 x)"
  let ?g = "chan_upd f p t 0 x"
  have "slave_config_inv (k ?g)" using k g by blast
  moreover have "slave_config_left (k ?g) < slave_config_left f"
    using k [of ?g] nxt calculation by (intro next_phase_less) (simp_all add: slave_config_inv_def)
  ultimately show "slave_config_inv (k ?g) \<and> slave_config_left (k ?g) < slave_config_left f" by simp
qed

lemma goto_fields [simp]:
  "sc_slave (goto ph g) = sc_slave g" "sc_phase (goto ph g) = ph" "sub_ok (goto ph g) = sub_ok g"
  by (simp_all add: goto_def)

lemma inv_fields [simp]:
  "slave_config_inv (f\<lparr>sc_sm_idx := i\<rparr>) = slave_config_inv f"
  "slave_config_inv (f\<lparr>sc_pdo_idx := i\<rparr>) = slave_config_inv f"
  "slave_config_inv (f\<lparr>sc_fmmu_idx := i\<rparr>) = slave_config_inv f"
  by (simp_all add: slave_config_inv_def)

lemma inv_start_seq:
  "slave_config_inv f \<Longrightarrow> seq_fresh s \<Longrightarrow> slave_config_inv (f\<lparr>sc_seq := Some s\<rparr>)"
  by (auto simp: slave_config_inv_def sub_ok_def seq_fresh_ok)

text \<open>Moving on to the next phase without an exchange.\<close>

lemma skip_progress:
  assumes "dev_wf d" "slave_config_inv g" "sc_slave g = sc_slave f"
    and "after_phase (sc_slave f) (sc_phase f) =
      phase_budget (sc_slave f) (sc_phase g) + 1 + after_phase (sc_slave f) (sc_phase g)"
  shows "config_progress f (Some (g, d, ix, Inr False))"
  using assms next_phase_less [of f g] by (simp add: config_progress_def slave_config_inv_def)

lemma sms_step: "i < n \<Longrightarrow> (n - i) * k = (n - Suc i) * k + (k :: nat)"
  by (metis Suc_diff_Suc add.commute mult_Suc)

lemma mapping_progress:
  assumes inv: "slave_config_inv f" and dev: "dev_wf d" and ph: "sc_phase f = PdoMapping"
  shows "config_progress f (pdo_mapping_phase f d ix)"
proof (cases "sc_sm_idx f < length (sl_sms (sc_slave f))")
  case False
  then show ?thesis
    using inv dev ph
    by (auto simp: pdo_mapping_phase_def intro!: skip_progress inv_goto simp: after_phase_step)
next
  case sm: True
  let ?n = "length (sl_sms (sc_slave f))" and ?i = "sc_sm_idx f" and ?j = "sc_pdo_idx f"
  let ?sm = "sl_sms (sc_slave f) ! ?i" and ?u = "sm_unit (sc_slave f)"
  note unit = sms_step [OF sm, of ?u]
  have seq_f: "seq_val f \<le> seq_full + 1" using inv seq_val_le [of f] by (simp add: slave_config_inv_def)
  show ?thesis
  proof (cases "?j < length (sm_pdos ?sm)")
    case False
    let ?g = "f\<lparr>sc_sm_idx := ?i + 1, sc_pdo_idx := 0\<rparr>"
    have "length (sm_pdos (sl_sms (sc_slave f) ! Suc ?i)) * seq_unit < max_pdos (sc_slave f) * seq_unit + (seq_unit + m)"
      if "Suc ?i < ?n" for m
      using mult_le_mono1 [OF pdos_le_max [OF that], of seq_unit] seq_unit_less by linarith
    then have "slave_config_left ?g < slave_config_left f"
      using unit sm ph seq_f seq_unit_less
      by (simp add: slave_config_left_def phase_left_def Let_def seq_val_def sm_unit_def)
    then show ?thesis
      using sm False inv dev by (simp add: pdo_mapping_phase_def idx_def config_progress_def)
  next
    case pdo: True
    define h where "h = (case sc_seq f of None \<Rightarrow> f\<lparr>sc_seq := Some (build_mapping (sc_mbox f) (sm_pdos ?sm ! ?j))\<rparr>
                         | Some _ \<Rightarrow> f)"
    have h: "slave_config_inv h" "seq_val h \<le> seq_val f" "sc_slave h = sc_slave f" "sc_phase h = PdoMapping"
      "sc_sm_idx h = ?i" "sc_pdo_idx h = ?j"
      using inv ph seq_fresh_ok [OF seq_fresh_mapping] inv_start_seq [OF inv seq_fresh_mapping]
      by (auto simp: h_def seq_val_def seq_ok_def le_Suc_eq split: option.splits)
    have run: "pdo_mapping_phase f d ix = when_done (run_seq h d ix) (\<lambda>f. f\<lparr>sc_pdo_idx := sc_pdo_idx f + 1\<rparr>)"
      using sm pdo by (simp add: pdo_mapping_phase_def idx_def h_def split: option.splits)
    show ?thesis
      unfolding run
    proof (rule run_seq_progress [OF h(1) dev])
      fix s
      assume "seq_val (h\<lparr>sc_seq := Some s\<rparr>) < seq_val h"
      then show "slave_config_left (h\<lparr>sc_seq := Some s\<rparr>) < slave_config_left f"
        using h ph by (simp add: slave_config_left_def phase_left_def Let_def)
    next
      assume g: "slave_config_inv (h\<lparr>sc_seq := None\<rparr>)"
      show "slave_config_inv (h\<lparr>sc_seq := None, sc_pdo_idx := sc_pdo_idx (h\<lparr>sc_seq := None\<rparr>) + 1\<rparr>) \<and>
        slave_config_left (h\<lparr>sc_seq := None, sc_pdo_idx := sc_pdo_idx (h\<lparr>sc_seq := None\<rparr>) + 1\<rparr>) < slave_config_left f"
        using g h ph sm sms_step [OF pdo, of seq_unit] seq_unit_less
        by (simp add: slave_config_left_def phase_left_def Let_def seq_val_def)
    qed
  qed
qed

lemma assign_progress:
  assumes inv: "slave_config_inv f" and dev: "dev_wf d" and ph: "sc_phase f = PdoAssign"
  shows "config_progress f (pdo_assign_phase f d ix)"
proof (cases "sc_sm_idx f < length (sl_sms (sc_slave f))")
  case False
  then show ?thesis
    using inv dev ph
    by (auto simp: pdo_assign_phase_def intro!: skip_progress inv_goto simp: after_phase_step)
next
  case sm: True
  let ?sm = "sl_sms (sc_slave f) ! sc_sm_idx f"
  define h where "h = (case sc_seq f of
      None \<Rightarrow> f\<lparr>sc_seq := Some (build_assign (sc_mbox f) (sm_index ?sm) (sm_pdos ?sm))\<rparr> | Some _ \<Rightarrow> f)"
  have h: "slave_config_inv h" "seq_val h \<le> seq_val f" "sc_slave h = sc_slave f" "sc_phase h = PdoAssign"
    "sc_sm_idx h = sc_sm_idx f"
    using inv ph seq_fresh_ok [OF seq_fresh_assign] inv_start_seq [OF inv seq_fresh_assign]
    by (auto simp: h_def seq_val_def seq_ok_def le_Suc_eq split: option.splits)
  have run: "pdo_assign_phase f d ix = when_done (run_seq h d ix) (\<lambda>f. f\<lparr>sc_sm_idx := sc_sm_idx f + 1\<rparr>)"
    using sm by (simp add: pdo_assign_phase_def idx_def h_def)
  show ?thesis
    unfolding run
  proof (rule run_seq_progress [OF h(1) dev])
    fix s
    assume "seq_val (h\<lparr>sc_seq := Some s\<rparr>) < seq_val h"
    then show "slave_config_left (h\<lparr>sc_seq := Some s\<rparr>) < slave_config_left f"
      using h ph by (simp add: slave_config_left_def phase_left_def Let_def)
  next
    assume g: "slave_config_inv (h\<lparr>sc_seq := None\<rparr>)"
    show "slave_config_inv (h\<lparr>sc_seq := None, sc_sm_idx := sc_sm_idx (h\<lparr>sc_seq := None\<rparr>) + 1\<rparr>) \<and>
      slave_config_left (h\<lparr>sc_seq := None, sc_sm_idx := sc_sm_idx (h\<lparr>sc_seq := None\<rparr>) + 1\<rparr>) < slave_config_left f"
      using g h ph sms_step [OF sm, of seq_unit] seq_unit_less
      by (simp add: slave_config_left_def phase_left_def Let_def seq_val_def)
  qed
qed

lemma process_page_eq: "\<exists>page. process_page sm = Some page \<and> length page = 8"
  by (cases "sm_dir sm") (auto simp: process_page_def write_process_out_def write_process_in_def
      sync_write_page_eq)

lemma pd_sm_progress:
  assumes inv: "slave_config_inv f" and dev: "dev_wf d" and ph: "sc_phase f = PdSm"
  shows "config_progress f (pd_sm_phase f d ix)"
proof (cases "sc_sm_idx f < length (sl_sms (sc_slave f))")
  case False
  then show ?thesis
    using inv dev ph
    by (auto simp: pd_sm_phase_def intro!: skip_progress inv_goto simp: after_phase_step)
next
  case sm: True
  let ?sm = "sl_sms (sc_slave f) ! sc_sm_idx f"
  obtain page where page: "process_page ?sm = Some page" "length page = 8"
    using process_page_eq by blast
  have run: "pd_sm_phase f d ix = when_done (fpwr f d ix (reg_SM0 + ucast (sm_index ?sm) * EC_SYNC_PAGE_SIZE) page)
      (\<lambda>f. f\<lparr>sc_sm_idx := sc_sm_idx f + 1\<rparr>)"
    using sm page by (simp add: pd_sm_phase_def idx_def)
  show ?thesis
    unfolding run
    by (rule fpwr_progress [OF inv dev])
       (use page ph sms_step [OF sm, of 2003] in
        \<open>auto simp: slave_config_left_def phase_left_def Let_def chan_left_def\<close>)
qed

lemma fmmu_progress:
  assumes inv: "slave_config_inv f" and dev: "dev_wf d" and ph: "sc_phase f = Fmmu"
  shows "config_progress f (fmmu_phase f d ix)"
proof (cases "sc_fmmu_idx f < length (sl_fmmus (sc_slave f))")
  case False
  then show ?thesis
    using inv dev ph
    by (auto simp: fmmu_phase_def intro!: skip_progress inv_goto simp: after_phase_step)
next
  case fm: True
  have run: "fmmu_phase f d ix = when_done (fpwr f d ix
        (reg_FMMU_BASE + of_nat (sc_fmmu_idx f) * of_nat fmmu_PAGE_SIZE)
        (fmmu_page (sl_fmmus (sc_slave f) ! sc_fmmu_idx f)))
      (\<lambda>f. f\<lparr>sc_fmmu_idx := sc_fmmu_idx f + 1\<rparr>)"
    using fm by (simp add: fmmu_phase_def idx_def fmmu_write_page_eq)
  show ?thesis
    unfolding run
    by (rule fpwr_progress [OF inv dev])
       (use ph sms_step [OF fm, of 2003] in
        \<open>auto simp: slave_config_left_def phase_left_def Let_def chan_left_def\<close>)
qed

lemma dc_cycle_progress:
  assumes inv: "slave_config_inv f" and dev: "dev_wf d" and ph: "sc_phase f = DcCycle"
  shows "config_progress f (dc_cycle_phase f d ix)"
proof (cases "sl_dc (sc_slave f)")
  case None
  then show ?thesis
    using inv dev ph by (auto simp: dc_cycle_phase_def intro!: skip_progress inv_goto simp: after_phase_step)
next
  case (Some cfg)
  have wf: "chan_wf 96 128 f" and sub: "sub_ok f" using inv by (simp_all add: slave_config_inv_def)
  define c where "c = (case sc_dc f of None \<Rightarrow> dc_new (sc_station f) cfg (sc_dc_ref f) | Some c \<Rightarrow> c)"
  have c: "dc_inv c" "dc_left c \<le> dc_val f" "dc_val f \<le> dc_full"
    using sub dc_new_left dc_val_le [OF sub]
    by (auto simp: c_def sub_ok_def dc_val_def dc_new_inv dc_full_def split: option.splits)
  obtain c' d' ix' r where st: "dc_step c d ix = Some (c', d', ix', r)" "dev_wf d'"
      and pend: "r = Inr False \<longrightarrow> dc_inv c' \<and> dc_left c' < dc_left c"
    using dc.step_ok [OF c(1) dev, of ix] by blast
  have run: "dc_cycle_phase f d ix =
      (case r of Inl e \<Rightarrow> Some (f\<lparr>sc_dc := Some c'\<rparr>, d', ix', Inl e)
       | Inr fin \<Rightarrow> Some (if fin then goto ToSafeop (f\<lparr>sc_dc := None\<rparr>) else f\<lparr>sc_dc := Some c'\<rparr>, d', ix', Inr False))"
    using st Some by (simp add: dc_cycle_phase_def c_def [symmetric])
  show ?thesis
  proof (cases r)
    case (Inl e)
    then show ?thesis using run st by (simp add: config_progress_def)
  next
    case (Inr b)
    show ?thesis
    proof (cases b)
      case True
      have "slave_config_inv (f\<lparr>sc_dc := None\<rparr>)" using wf sub by (simp add: slave_config_inv_def sub_ok_def)
      then show ?thesis
        using run Inr True st(2) ph by (auto intro!: skip_progress inv_goto simp: after_phase_step)
    next
      case False
      then have "dc_inv c'" "dc_left c' < dc_left c" using pend Inr by simp_all
      then show ?thesis
        using run Inr False st(2) ph wf sub c
        by (simp add: config_progress_def slave_config_inv_def sub_ok_def slave_config_left_def phase_left_def
            Let_def dc_val_def)
    qed
  qed
qed

lemma to_safeop_progress:
  assumes inv: "slave_config_inv f" and dev: "dev_wf d" and ph: "sc_phase f = ToSafeop"
  shows "config_progress f (slave_config_step f d ix)"
proof -
  have wf: "chan_wf 96 128 f" and sub: "sub_ok f" using inv by (simp_all add: slave_config_inv_def)
  show ?thesis
    by (rule run_change_cases [OF sub dev, of ix al_SAFEOP])
       (use wf ph in \<open>auto simp: config_progress_def slave_config_step_def slave_config_inv_def
          slave_config_left_def phase_left_def Let_def change_val_def\<close>)
qed

interpretation slave_config: bounded_fsm slave_config_step slave_config_inv slave_config_left
proof
  fix f d ix
  assume inv: "slave_config_inv f" and dev: "dev_wf d"
  note single = fpwr_goto_progress [OF inv dev]
  note unfolds = slave_config_step_def phase.case write_mailbox_out_def write_mailbox_in_def
    sync_write_page_eq [OF length_replicate] bind.bind_lunit
  have "config_progress f (slave_config_step f d ix)"
  proof (cases "sc_phase f")
    case ClearFmmus
    show ?thesis
      unfolding unfolds ClearFmmus by (rule single [where ph = DcClear]) (use ClearFmmus in \<open>auto simp: after_phase_step inv_goto\<close>)
  next
    case DcClear
    show ?thesis
      unfolding unfolds DcClear by (rule single [where ph = MboxSm0]) (use DcClear in \<open>auto simp: after_phase_step inv_goto\<close>)
  next
    case MboxSm0
    show ?thesis
      unfolding unfolds MboxSm0 by (rule single [where ph = MboxSm1]) (use MboxSm0 in \<open>auto simp: after_phase_step inv_goto\<close>)
  next
    case MboxSm1
    show ?thesis
      unfolding unfolds MboxSm1 by (rule single [where ph = ToPreop]) (use MboxSm1 in \<open>auto simp: after_phase_step inv_goto\<close>)
  next
    case ToPreop
    show ?thesis
      unfolding unfolds ToPreop
    proof (rule run_change_progress [OF inv dev])
      fix c
      assume "change_val (f\<lparr>sc_change := Some c\<rparr>) < change_val f"
      then show "slave_config_left (f\<lparr>sc_change := Some c\<rparr>) < slave_config_left f"
        using ToPreop by (simp add: slave_config_left_def phase_left_def Let_def)
    next
      assume g: "slave_config_inv (f\<lparr>sc_change := None\<rparr>)"
      let ?s = "sdo_init_seq (sc_mbox f) (sl_sdo_init (sc_slave f))"
      let ?h = "goto SdoInit (f\<lparr>sc_change := None, sc_seq := Some ?s\<rparr>)"
      have h: "slave_config_inv ?h" by (intro inv_goto inv_start_seq [OF g] seq_fresh_sdo_init)
      have "slave_config_left ?h < slave_config_left f"
        by (rule next_phase_less) (use h ToPreop in \<open>auto simp: after_phase_step slave_config_inv_def\<close>)
      with h show "slave_config_inv (goto SdoInit (f\<lparr>sc_change := None,
            sc_seq := Some (sdo_init_seq (sc_mbox (f\<lparr>sc_change := None\<rparr>)) (sl_sdo_init (sc_slave (f\<lparr>sc_change := None\<rparr>))))\<rparr>)) \<and>
          slave_config_left (goto SdoInit (f\<lparr>sc_change := None,
            sc_seq := Some (sdo_init_seq (sc_mbox (f\<lparr>sc_change := None\<rparr>)) (sl_sdo_init (sc_slave (f\<lparr>sc_change := None\<rparr>))))\<rparr>))
          < slave_config_left f" by simp
    qed
  next
    case SdoInit
    show ?thesis
      unfolding unfolds SdoInit
    proof (rule run_seq_progress [OF inv dev])
      fix s
      assume "seq_val (f\<lparr>sc_seq := Some s\<rparr>) < seq_val f"
      then show "slave_config_left (f\<lparr>sc_seq := Some s\<rparr>) < slave_config_left f"
        using SdoInit by (simp add: slave_config_left_def phase_left_def Let_def)
    next
      assume g: "slave_config_inv (f\<lparr>sc_seq := None\<rparr>)"
      let ?h = "goto PdoMapping (f\<lparr>sc_seq := None, sc_sm_idx := 0, sc_pdo_idx := 0\<rparr>)"
      have h: "slave_config_inv ?h" using g by (intro inv_goto) simp
      have "slave_config_left ?h < slave_config_left f"
        by (rule next_phase_less) (use h SdoInit in \<open>auto simp: after_phase_step slave_config_inv_def\<close>)
      with h show "slave_config_inv ?h \<and> slave_config_left ?h < slave_config_left f" by simp
    qed
  next
    case PdoMapping
    then show ?thesis using mapping_progress [OF inv dev] by (simp add: slave_config_step_def)
  next
    case PdoAssign
    then show ?thesis using assign_progress [OF inv dev] by (simp add: slave_config_step_def)
  next
    case PdSm
    then show ?thesis using pd_sm_progress [OF inv dev] by (simp add: slave_config_step_def)
  next
    case WatchdogDiv
    show ?thesis
      unfolding unfolds WatchdogDiv by (rule single [where ph = WatchdogTime]) (use WatchdogDiv in \<open>auto simp: after_phase_step inv_goto\<close>)
  next
    case WatchdogTime
    show ?thesis
      unfolding unfolds WatchdogTime by (rule single [where ph = Fmmu]) (use WatchdogTime in \<open>auto simp: after_phase_step inv_goto\<close>)
  next
    case Fmmu
    then show ?thesis using fmmu_progress [OF inv dev] by (simp add: slave_config_step_def)
  next
    case DcCycle
    then show ?thesis using dc_cycle_progress [OF inv dev] by (simp add: slave_config_step_def)
  next
    case ToSafeop
    then show ?thesis using to_safeop_progress [OF inv dev] by simp
  next
    case ConfigDone
    then show ?thesis using dev by (simp add: slave_config_step_def config_progress_def)
  qed
  then show "\<exists>f' d' ix' r. slave_config_step f d ix = Some (f', d', ix', r) \<and> dev_wf d' \<and>
      (r = Inr False \<longrightarrow> slave_config_inv f' \<and> slave_config_left f' < slave_config_left f)"
    by (simp add: config_progress_def)
qed

lemma slave_config_new_inv: "slave_config_inv (slave_config_new station mbox slave dref)"
  by (simp add: slave_config_inv_def sub_ok_def chan_wf_def slave_config_new_def pump_new_def)

text \<open>The machine reports SAFE-OP only through the state change to it.\<close>

lemma slave_config_done:
  assumes "slave_config_step f d ix = Some (f', d', ix', Inr True)" "sc_phase f \<noteq> ConfigDone"
  shows "sc_phase f = ToSafeop \<and> sc_phase f' = ConfigDone \<and>
    (\<exists>c c' d0 i0. change_step c d ix = Some (c', d0, i0, Inr True) \<and>
       c = (case sc_change f of None \<Rightarrow> change_new (sc_station f) al_SAFEOP | Some c \<Rightarrow> c))"
proof -
  have pending: "b = False" if w: "when_done m k = Some (g, d1, i1, Inr b)" for m k g d1 i1 b
  proof -
    obtain f d ix r where "m = Some (f, d, ix, r)"
      using w by (cases m) (auto simp: when_done_def)
    then show ?thesis using w by (cases r) (auto simp: when_done_def)
  qed
  have ph: "sc_phase f = ToSafeop"
    using assms
    by (auto simp: slave_config_step_def pdo_mapping_phase_def pdo_assign_phase_def pd_sm_phase_def
        fmmu_phase_def dc_cycle_phase_def Option.bind_eq_Some_conv Let_def
        split: phase.split_asm if_split_asm option.split_asm sum.split_asm dest!: pending)
       (metis sum.exhaust)+
  obtain g d0 i0 r where run: "run_change f d ix al_SAFEOP = Some (g, d0, i0, r)"
    using assms ph by (auto simp: slave_config_step_def Option.bind_eq_Some_conv)
  have r: "r = Inr True" "f' = g\<lparr>sc_phase := ConfigDone\<rparr>"
    using assms ph run by (cases r; simp add: slave_config_step_def split: if_splits)+
  define c where "c = (case sc_change f of None \<Rightarrow> change_new (sc_station f) al_SAFEOP | Some c \<Rightarrow> c)"
  note run' = run [unfolded run_change_def Let_def, folded c_def]
  then have "change_step c d ix \<noteq> None" by (cases "change_step c d ix") simp_all
  then obtain c' d1 i1 r' where st: "change_step c d ix = Some (c', d1, i1, r')" by (metis not_None_eq surj_pair)
  then have "r' = Inr True"
    using run' r(1) by (cases r') auto
  then show ?thesis using st ph r(2) c_def by auto
qed

end
