(* ===== verification/Text.thy ===== *)
theory Text
  imports Prelude
begin

text \<open>
  Formatting of the short text lines the program emits: decimal and zero-padded upper-case
  hexadecimal numbers, and \<^verbatim>\<open>write!\<close> into a \<^verbatim>\<open>heapless::String<N>\<close>, which stops at the first piece
  that no longer fits and reports it. The lemmas bound the width of the numbers and show
  that pieces that fit are all written.
\<close>

section \<open>Numbers\<close>

definition digit :: "nat \<Rightarrow> char" where
  "digit n = ''0123456789ABCDEF'' ! n"

fun dec :: "nat \<Rightarrow> string" where
  "dec n = (if n < 10 then [digit n] else dec (n div 10) @ [digit (n mod 10)])"

fun hex :: "nat \<Rightarrow> string" where
  "hex n = (if n < 16 then [digit n] else hex (n div 16) @ [digit (n mod 16)])"

declare dec.simps [simp del] hex.simps [simp del]

text \<open>\<^verbatim>\<open>{}\<close> and \<^verbatim>\<open>{:0kX}\<close> as the pieces they hand to the sink.\<close>

definition put_dec :: "nat \<Rightarrow> string list" where "put_dec n = [dec n]"

definition put_hex :: "nat \<Rightarrow> nat \<Rightarrow> string list" where
  "put_hex k n = replicate (k - length (hex n)) ''0'' @ [hex n]"

text \<open>\<^verbatim>\<open>write!(s, ..)\<close> on a string of capacity \<open>cap\<close>.\<close>

fun write_pieces :: "nat \<Rightarrow> string \<Rightarrow> string list \<Rightarrow> string \<times> bool" where
  "write_pieces cap s [] = (s, True)"
| "write_pieces cap s (p # ps) =
     (if length s + length p \<le> cap then write_pieces cap (s @ p) ps else (s, False))"

lemma write_pieces_fit:
  "length s + length (concat ps) \<le> cap \<Longrightarrow> write_pieces cap s ps = (s @ concat ps, True)"
  by (induction ps arbitrary: s) simp_all

lemma write_pieces_bound: "length s \<le> cap \<Longrightarrow> length (fst (write_pieces cap s ps)) \<le> cap"
  by (induction ps arbitrary: s) simp_all

lemma write_pieces_prefix: "\<exists>t. fst (write_pieces cap s ps) = s @ t"
  by (induction ps arbitrary: s) (simp, metis (no_types) append_assoc append_Nil2 fst_conv write_pieces.simps(2))

section \<open>Widths\<close>

lemma dec_length: "n < 10 ^ Suc k \<Longrightarrow> length (dec n) \<le> Suc k"
proof (induction k arbitrary: n)
  case 0
  then show ?case by (simp add: dec.simps [of n])
next
  case (Suc k)
  show ?case
  proof (cases "n < 10")
    case False
    have "n div 10 < 10 ^ Suc k" using Suc.prems by (simp add: less_mult_imp_div_less mult.commute)
    then show ?thesis using Suc.IH [of "n div 10"] False by (simp add: dec.simps [of n])
  qed (simp add: dec.simps [of n])
qed

lemma hex_length: "n < 16 ^ Suc k \<Longrightarrow> length (hex n) \<le> Suc k"
proof (induction k arbitrary: n)
  case 0
  then show ?case by (simp add: hex.simps [of n])
next
  case (Suc k)
  show ?case
  proof (cases "n < 16")
    case False
    have "n div 16 < 16 ^ Suc k" using Suc.prems by (simp add: less_mult_imp_div_less mult.commute)
    then show ?thesis using Suc.IH [of "n div 16"] False by (simp add: hex.simps [of n])
  qed (simp add: hex.simps [of n])
qed

lemma concat_replicate_single [simp]: "concat (replicate n [x]) = replicate n x"
  by (induction n) simp_all

lemma put_hex_length: "length (concat (put_hex k n)) = max k (length (hex n))"
  by (simp add: put_hex_def)

lemma unat_u8: "unat (w :: u8) < 256"
  using unsigned_less [of w, where ?'a = nat] by simp

lemma unat_u16: "unat (w :: u16) < 65536"
  using unsigned_less [of w, where ?'a = nat] by simp

lemma unat_u32: "unat (w :: u32) < 4294967296"
  using unsigned_less [of w, where ?'a = nat] by simp

lemma put_dec_u8: "length (concat (put_dec (unat (w :: u8)))) \<le> 3"
  using dec_length [of "unat w" 2] unat_u8 [of w] by (simp add: put_dec_def)

lemma put_dec_u16: "length (concat (put_dec (unat (w :: u16)))) \<le> 5"
  using dec_length [of "unat w" 4] unat_u16 [of w] by (simp add: put_dec_def)

lemma put_hex_u8: "length (concat (put_hex 2 (unat (w :: u8)))) \<le> 2"
  using hex_length [of "unat w" 1] unat_u8 [of w] by (simp add: put_hex_length)

lemma put_hex_u16: "length (concat (put_hex 4 (unat (w :: u16)))) \<le> 4"
  using hex_length [of "unat w" 3] unat_u16 [of w] by (simp add: put_hex_length)

lemma put_hex_u32: "length (concat (put_hex 8 (unat (w :: u32)))) \<le> 8"
  using hex_length [of "unat w" 7] unat_u32 [of w] by (simp add: put_hex_length)

lemmas put_widths = put_dec_u8 put_dec_u16 put_hex_u8 put_hex_u16 put_hex_u32

section \<open>Reading a number back\<close>

definition digit_value :: "char \<Rightarrow> nat option" where
  "digit_value c = (let n = of_char c :: nat in if 48 \<le> n \<and> n \<le> 57 then Some (n - 48) else None)"

fun dec_value :: "nat \<Rightarrow> string \<Rightarrow> nat option" where
  "dec_value acc [] = Some acc"
| "dec_value acc (c # cs) = (case digit_value c of None \<Rightarrow> None | Some v \<Rightarrow> dec_value (acc * 10 + v) cs)"

lemma dec_value_append:
  "dec_value acc (xs @ ys) = (case dec_value acc xs of None \<Rightarrow> None | Some v \<Rightarrow> dec_value v ys)"
  by (induction xs arbitrary: acc) (simp_all split: option.split)

lemma digit_value_digit: "n < 10 \<Longrightarrow> digit_value (digit n) = Some n"
proof -
  assume "n < 10"
  then have "n \<in> {0, 1, 2, 3, 4, 5, 6, 7, 8, 9}" by auto
  then show ?thesis by (auto simp: digit_def digit_value_def)
qed

lemma dec_value_dec: "dec_value 0 (dec n) = Some n"
proof (induction n rule: dec.induct)
  case (1 n)
  show ?case
  proof (cases "n < 10")
    case False
    then show ?thesis using 1
      by (subst dec.simps) (simp add: dec_value_append digit_value_digit)
  qed (simp add: dec.simps [of n] digit_value_digit)
qed

lemma dec_not_empty: "dec n \<noteq> []"
  by (subst dec.simps) simp

end
