(* ===== verification/Scan.thy ===== *)
theory Scan
  imports Pages Channel Text
begin

text \<open>
  The non-blocking bus scan, \<^verbatim>\<open>src/ethercat/fsm_scan.rs\<close>: \<open>sii\<close> is the EEPROM word reader, \<open>scan_fsm\<close>
  the scan that counts the slaves, clears the station addresses, then per ring position assigns
  the address and reads state, base information and six EEPROM words. \<^verbatim>\<open>ScanStep::Pending\<close> and
  \<^verbatim>\<open>ScanStep::Done\<close> are the values False and True of a step. The scan is an instance of
  \<open>bounded_fsm\<close>; its slaves come out one at a time, in ring order, each with the station
  address one above its position.
\<close>

unbundle bit_operations_syntax

section \<open>The EEPROM word reader\<close>

definition SII_MAX_POLLS :: u32 where "SII_MAX_POLLS = 400"

datatype sii_phase = SiiCommand | SiiPoll

text \<open>The reader borrows the buffers of the scan: \<open>fs_tx\<close> and \<open>fs_rx\<close> are the caller's \<^verbatim>\<open>tx\<close> and
  \<^verbatim>\<open>rx\<close> during a step (\<open>scan_sii_step\<close> lends them), \<open>fs_pump\<close> and \<open>fs_tx_len\<close> are its own.\<close>

record sii = chan +
  sii_phase :: sii_phase
  sii_word :: u16
  sii_polls :: u32

definition sii_new :: sii where
  "sii_new =
     \<lparr>fs_pump = pump_new, fs_tx = [], fs_tx_len = 0, fs_rx = [], sii_phase = SiiCommand,
      sii_word = 0, sii_polls = 0\<rparr>"

definition sii_reset :: "sii \<Rightarrow> u16 \<Rightarrow> sii" where
  "sii_reset s word =
     s\<lparr>sii_phase := SiiCommand, sii_word := word, sii_polls := 0, fs_pump := pump_reset (fs_pump s),
       fs_tx_len := 0\<rparr>"

definition sii_on_command :: "sii \<Rightarrow> reply \<Rightarrow> (sii \<times> u32 option res) option" where
  "sii_on_command s r =
     (if rp_wkc r = 0 then Some (s, Inl WorkingCounter)
      else Some (s\<lparr>sii_phase := SiiPoll, sii_polls := 0, fs_tx_len := 0\<rparr>, Inr None))"

text \<open>\<^verbatim>\<open>self.polls += 1; if self.polls >= SII_MAX_POLLS { return Err(..) } Ok(None)\<close>\<close>

definition sii_count_poll :: "sii \<Rightarrow> (sii \<times> u32 option res) option" where
  "sii_count_poll s =
     (let s = s\<lparr>sii_polls := sii_polls s + 1\<rparr>
      in if sii_polls s \<ge> SII_MAX_POLLS then Some (s, Inl SiiTimeout) else Some (s, Inr None))"

definition sii_on_poll :: "sii \<Rightarrow> reply \<Rightarrow> (sii \<times> u32 option res) option" where
  "sii_on_poll s r =
     (let s = s\<lparr>fs_tx_len := 0\<rparr>
      in if rp_wkc r = 0 \<or> length (rp_data r) < 10 then sii_count_poll s
         else do {
           status \<leftarrow> idx (rp_data r) 1;
           if status AND sii_ctrl_STATUS_ERROR \<noteq> 0 then Some (s, Inl SiiError)
           else if status AND sii_ctrl_STATUS_BUSY = 0 then do {
             a \<leftarrow> idx (rp_data r) 6;
             b \<leftarrow> idx (rp_data r) 7;
             c \<leftarrow> idx (rp_data r) 8;
             e \<leftarrow> idx (rp_data r) 9;
             Some (s, Inr (Some (of_le32 a b c e))) }
           else sii_count_poll s })"

definition sii_step :: "sii \<Rightarrow> device \<Rightarrow> u16 \<Rightarrow> u8 \<Rightarrow> (sii \<times> device \<times> u8 \<times> u32 option res) option" where
  "sii_step s d station ix =
     (case sii_phase s of
        SiiCommand \<Rightarrow>
          stage_with None s d ix
            (one_datagram Fpwr station reg_SII_CONTROL
               [sii_ctrl_ADDR_MODE_TWO_OCTET, sii_ctrl_CMD_READ, ucast (sii_word s AND 0xFF),
                ucast (drop_bit 8 (sii_word s))])
            (on_reply sii_on_command)
      | SiiPoll \<Rightarrow>
          stage_with None s d ix (one_datagram Fprd station reg_SII_CONTROL (replicate 10 0))
            (on_reply sii_on_poll))"

section \<open>The scan\<close>

datatype sii_field = Vendor | Product | Revision | RxMbox | TxMbox | Protocols

datatype scan_stage =
    ScanCount | ScanClear | ScanApwr | ScanAl | ScanDl | ScanSii sii_field | ScanDone

fun sii_word_of :: "sii_field \<Rightarrow> u16" where
  "sii_word_of Vendor = sii_VENDOR_ID"
| "sii_word_of Product = sii_PRODUCT_CODE"
| "sii_word_of Revision = sii_REVISION"
| "sii_word_of RxMbox = sii_STD_RX_MBOX"
| "sii_word_of TxMbox = sii_STD_TX_MBOX"
| "sii_word_of Protocols = sii_MBOX_PROTOCOLS"

record cur =
  cur_ring_pos :: u16
  cur_station :: u16
  cur_al :: u8
  cur_base_type :: u8
  cur_fmmus :: u8
  cur_syncs :: u8
  cur_vendor :: u32
  cur_product :: u32
  cur_revision :: u32
  cur_rx_mbox :: u32
  cur_tx_mbox :: u32

definition cur_default :: cur where
  "cur_default =
     \<lparr>cur_ring_pos = 0, cur_station = 0, cur_al = 0, cur_base_type = 0, cur_fmmus = 0,
      cur_syncs = 0, cur_vendor = 0, cur_product = 0, cur_revision = 0, cur_rx_mbox = 0,
      cur_tx_mbox = 0\<rparr>"

text \<open>\<^verbatim>\<open>trace_line\<close>: the result of \<^verbatim>\<open>write_fmt\<close> is ignored, so a line that does not fit is cut.\<close>

definition trace_line :: "string list \<Rightarrow> string" where
  "trace_line pieces = fst (write_pieces 96 [] pieces)"

record scan_fsm = chan +
  sf_stage :: scan_stage
  sf_count :: u16
  sf_cur :: cur
  sf_sii :: sii
  sf_completed :: "slave_info option"
  sf_trace :: "string option"

definition scan_new :: scan_fsm where
  "scan_new =
     \<lparr>fs_pump = pump_new, fs_tx = replicate EC_SCAN_FRAME_BUF 0, fs_tx_len = 0,
      fs_rx = replicate EC_SCAN_FRAME_BUF 0, sf_stage = ScanCount, sf_count = 0, sf_cur = cur_default,
      sf_sii = sii_new, sf_completed = None,
      sf_trace = Some (trace_line [''[scan] counting slaves''])\<rparr>"

definition take_trace :: "scan_fsm \<Rightarrow> string option \<times> scan_fsm" where
  "take_trace s = (sf_trace s, s\<lparr>sf_trace := None\<rparr>)"

definition take_completed_slave :: "scan_fsm \<Rightarrow> slave_info option \<times> scan_fsm" where
  "take_completed_slave s = (sf_completed s, s\<lparr>sf_completed := None\<rparr>)"

definition begin_slave :: "scan_fsm \<Rightarrow> u16 \<Rightarrow> scan_fsm" where
  "begin_slave s pos =
     s\<lparr>sf_cur := cur_default\<lparr>cur_ring_pos := pos, cur_station := pos + 1\<rparr>,
       fs_pump := pump_reset (fs_pump s), fs_tx_len := 0, sf_stage := ScanApwr\<rparr>"

definition finish_slave :: "scan_fsm \<Rightarrow> u16 \<Rightarrow> bool \<Rightarrow> scan_fsm" where
  "finish_slave s protocols coe =
     (let c = sf_cur s;
          info = \<lparr>ring_pos = cur_ring_pos c, station_addr = cur_station c, al_state = cur_al c,
                  base_type = cur_base_type c, base_fmmu_count = cur_fmmus c,
                  base_sync_count = cur_syncs c, vendor_id = cur_vendor c,
                  product_code = cur_product c, revision = cur_revision c,
                  rx_mbox_offset = ucast (cur_rx_mbox c), rx_mbox_size = ucast (drop_bit 16 (cur_rx_mbox c)),
                  tx_mbox_offset = ucast (cur_tx_mbox c), tx_mbox_size = ucast (drop_bit 16 (cur_tx_mbox c)),
                  mbox_protocols = protocols, supports_coe = coe\<rparr>;
          s = s\<lparr>sf_completed := Some info\<rparr>;
          nxt = cur_ring_pos c + 1
      in if nxt < sf_count s \<and> unat nxt < EC_MAX_SLAVES then begin_slave s nxt
         else s\<lparr>sf_stage := ScanDone\<rparr>)"

text \<open>The slave prefix of the per-slave trace lines.\<close>

definition slave_line :: "scan_fsm \<Rightarrow> string list \<Rightarrow> string list" where
  "slave_line s pieces = [''[scan] s''] @ put_dec (unat (cur_station (sf_cur s))) @ pieces"

definition next_field :: "scan_fsm \<Rightarrow> sii_field \<Rightarrow> string list \<Rightarrow> scan_fsm" where
  "next_field s fld pieces =
     s\<lparr>sf_trace := Some (trace_line (slave_line s pieces)),
       sf_sii := sii_reset (sf_sii s) (sii_word_of fld), sf_stage := ScanSii fld\<rparr>"

definition mbox_pieces :: "string \<Rightarrow> u32 \<Rightarrow> string list" where
  "mbox_pieces name v =
     [name] @ put_hex 4 (unat (ucast v :: u16)) @ ['' sz='']
       @ put_dec (unat (ucast (drop_bit 16 v) :: u16))"

fun apply_sii :: "scan_fsm \<Rightarrow> sii_field \<Rightarrow> u32 \<Rightarrow> scan_fsm" where
  "apply_sii s Vendor v =
     next_field (s\<lparr>sf_cur := (sf_cur s)\<lparr>cur_vendor := v\<rparr>\<rparr>) Product (['': vendor=0x''] @ put_hex 8 (unat v))"
| "apply_sii s Product v =
     next_field (s\<lparr>sf_cur := (sf_cur s)\<lparr>cur_product := v\<rparr>\<rparr>) Revision (['': product=0x''] @ put_hex 8 (unat v))"
| "apply_sii s Revision v =
     next_field (s\<lparr>sf_cur := (sf_cur s)\<lparr>cur_revision := v\<rparr>\<rparr>) RxMbox (['': rev=0x''] @ put_hex 8 (unat v))"
| "apply_sii s RxMbox v =
     next_field (s\<lparr>sf_cur := (sf_cur s)\<lparr>cur_rx_mbox := v\<rparr>\<rparr>) TxMbox (mbox_pieces '': rxmbox off=0x'' v)"
| "apply_sii s TxMbox v =
     next_field (s\<lparr>sf_cur := (sf_cur s)\<lparr>cur_tx_mbox := v\<rparr>\<rparr>) Protocols (mbox_pieces '': txmbox off=0x'' v)"
| "apply_sii s Protocols v =
     (let protocols = ucast v :: u16;
          coe = protocols AND mbox_PROTO_COE \<noteq> 0
      in finish_slave
           (s\<lparr>sf_trace := Some (trace_line (slave_line s
                (['': proto=0x''] @ put_hex 4 (unat protocols) @ ['' coe=''] @ put_dec (of_bool coe))))\<rparr>)
           protocols coe)"

text \<open>\<^verbatim>\<open>pump_reply\<close>: at most 16 bytes of the payload are copied out for the callback; the transmit
  length is cleared before the callback runs.\<close>

definition scan_on_reply ::
  "(scan_fsm \<Rightarrow> u16 \<Rightarrow> bytes \<Rightarrow> scan_fsm res) \<Rightarrow> scan_fsm \<Rightarrow> reply \<Rightarrow> (scan_fsm \<times> bool res) option" where
  "scan_on_reply h s r =
     (let s = s\<lparr>fs_tx_len := 0\<rparr>
      in case h s (rp_wkc r) (take 16 (rp_data r)) of
           Inl e \<Rightarrow> Some (s, Inl e)
         | Inr s \<Rightarrow> Some (s, Inr False))"

definition step_write ::
  "scan_fsm \<Rightarrow> device \<Rightarrow> u8 \<Rightarrow> command \<Rightarrow> u16 \<Rightarrow> u16 \<Rightarrow> bytes \<Rightarrow>
     (scan_fsm \<Rightarrow> u16 \<Rightarrow> bytes \<Rightarrow> scan_fsm res) \<Rightarrow> (scan_fsm \<times> device \<times> u8 \<times> bool res) option" where
  "step_write s d ix cmd adp ado payload h =
     stage s d ix (one_datagram cmd adp ado payload) (on_reply (scan_on_reply h))"

text \<open>\<^verbatim>\<open>&zeros[..read_len]\<close> of a buffer of twelve zeros.\<close>

definition step_simple ::
  "scan_fsm \<Rightarrow> device \<Rightarrow> u8 \<Rightarrow> command \<Rightarrow> u16 \<Rightarrow> u16 \<Rightarrow> nat \<Rightarrow>
     (scan_fsm \<Rightarrow> u16 \<Rightarrow> bytes \<Rightarrow> scan_fsm res) \<Rightarrow> (scan_fsm \<times> device \<times> u8 \<times> bool res) option" where
  "step_simple s d ix cmd adp ado read_len h = do {
     zeros \<leftarrow> slice (replicate 12 0) 0 read_len;
     step_write s d ix cmd adp ado zeros h }"

text \<open>The callbacks of the stages.\<close>

definition scan_on_count :: "scan_fsm \<Rightarrow> u16 \<Rightarrow> bytes \<Rightarrow> scan_fsm res" where
  "scan_on_count s wkc dat =
     Inr (s\<lparr>sf_count := wkc,
            sf_trace := Some (trace_line ([''[scan] count=''] @ put_dec (unat wkc))),
            sf_stage := (if wkc = 0 then ScanDone else ScanClear)\<rparr>)"

definition scan_on_clear :: "scan_fsm \<Rightarrow> u16 \<Rightarrow> bytes \<Rightarrow> scan_fsm res" where
  "scan_on_clear s wkc dat =
     Inr (begin_slave (s\<lparr>sf_trace := Some (trace_line [''[scan] addresses cleared''])\<rparr>) 0)"

definition scan_on_addr :: "scan_fsm \<Rightarrow> u16 \<Rightarrow> bytes \<Rightarrow> scan_fsm res" where
  "scan_on_addr s wkc dat =
     (if wkc \<noteq> 1 then Inl WorkingCounter
      else Inr (s\<lparr>sf_trace := Some (trace_line (slave_line s ['': addr set''])), sf_stage := ScanAl\<rparr>))"

definition scan_on_al :: "scan_fsm \<Rightarrow> u16 \<Rightarrow> bytes \<Rightarrow> scan_fsm res" where
  "scan_on_al s wkc dat =
     (if wkc \<noteq> 1 then Inl WorkingCounter
      else
        let s = s\<lparr>sf_cur := (sf_cur s)\<lparr>cur_al := get_or 0 dat 0 AND al_MASK\<rparr>\<rparr>
        in Inr (s\<lparr>sf_trace := Some (trace_line (slave_line s
                     (['': al=0x''] @ put_hex 2 (unat (cur_al (sf_cur s)))))), sf_stage := ScanDl\<rparr>))"

definition scan_on_dl :: "scan_fsm \<Rightarrow> u16 \<Rightarrow> bytes \<Rightarrow> scan_fsm res" where
  "scan_on_dl s wkc dat =
     (if wkc \<noteq> 1 then Inl WorkingCounter
      else
        let s = s\<lparr>sf_cur := (sf_cur s)\<lparr>cur_base_type := get_or 0 dat 0, cur_fmmus := get_or 0 dat 4,
                     cur_syncs := get_or 0 dat 5\<rparr>\<rparr>;
            c = sf_cur s
        in Inr (s\<lparr>sf_trace := Some (trace_line (slave_line s
                     (['': base type=0x''] @ put_hex 2 (unat (cur_base_type c)) @ ['' fmmu='']
                       @ put_dec (unat (cur_fmmus c)) @ ['' sm=''] @ put_dec (unat (cur_syncs c))))),
                  sf_sii := sii_reset (sf_sii s) (sii_word_of Vendor), sf_stage := ScanSii Vendor\<rparr>))"

text \<open>\<^verbatim>\<open>self.sii.step(dev, station, index, &mut self.tx, &mut self.rx)?\<close> and the match on its value.\<close>

definition scan_sii_step ::
  "sii_field \<Rightarrow> scan_fsm \<Rightarrow> device \<Rightarrow> u8 \<Rightarrow> (scan_fsm \<times> device \<times> u8 \<times> bool res) option" where
  "scan_sii_step fld s d ix = do {
     (r, d, ix, out) \<leftarrow>
       sii_step ((sf_sii s)\<lparr>fs_tx := fs_tx s, fs_rx := fs_rx s\<rparr>) d (cur_station (sf_cur s)) ix;
     let s = s\<lparr>sf_sii := r, fs_tx := fs_tx r, fs_rx := fs_rx r\<rparr>;
     case out of
       Inl e \<Rightarrow> Some (s, d, ix, Inl e)
     | Inr None \<Rightarrow> Some (s, d, ix, Inr False)
     | Inr (Some v) \<Rightarrow> Some (apply_sii s fld v, d, ix, Inr False) }"

definition scan_step :: "scan_fsm fsm_step" where
  "scan_step s d ix =
     (let station = cur_station (sf_cur s)
      in case sf_stage s of
           ScanCount \<Rightarrow> step_simple s d ix Brd 0 reg_AL_STATUS 2 scan_on_count
         | ScanClear \<Rightarrow> step_simple s d ix Bwr 0 reg_STATION_ADDR 2 scan_on_clear
         | ScanApwr \<Rightarrow>
             step_write s d ix Apwr (autoinc_adp (cur_ring_pos (sf_cur s))) reg_STATION_ADDR
               (le16 station) scan_on_addr
         | ScanAl \<Rightarrow> step_simple s d ix Fprd station reg_AL_STATUS 2 scan_on_al
         | ScanDl \<Rightarrow> step_simple s d ix Fprd station reg_DL_INFO 12 scan_on_dl
         | ScanSii fld \<Rightarrow> scan_sii_step fld s d ix
         | ScanDone \<Rightarrow> Some (s, d, ix, Inr True))"

section \<open>The reader\<close>

definition sii_inv :: "sii \<Rightarrow> bool" where
  "sii_inv s \<longleftrightarrow> chan_wf 128 128 s \<and> (sii_phase s = SiiPoll \<longrightarrow> sii_polls s < SII_MAX_POLLS)"

definition sii_rank :: "sii \<Rightarrow> nat" where
  "sii_rank s = (case sii_phase s of SiiCommand \<Rightarrow> 401 | SiiPoll \<Rightarrow> 400 - unat (sii_polls s))"

lemma sii_rank_chan [simp]: "sii_rank (chan_upd s p t k x) = sii_rank s"
  by (cases "sii_phase s") (simp_all add: sii_rank_def)

definition sii_left :: "sii \<Rightarrow> nat" where
  "sii_left s = stage_left sii_rank s"

definition buffers_128 :: "'a chan_scheme \<Rightarrow> bool" where
  "buffers_128 c \<longleftrightarrow> length (fs_tx c) = 128 \<and> length (fs_rx c) = 128"

lemma chan_wf_buffers: "chan_wf 128 128 c \<Longrightarrow> buffers_128 c"
  by (simp add: chan_wf_def buffers_128_def)

lemma sii_polls_inc:
  assumes "w < SII_MAX_POLLS" "\<not> SII_MAX_POLLS \<le> w + 1"
  shows "unat (w + 1) = unat w + 1" "unat w + 1 < 400"
proof -
  show i: "unat (w + 1) = unat w + 1" by (rule unat_inc [OF assms(1)])
  have "unat (w + 1) < unat SII_MAX_POLLS" using assms(2) by (simp add: not_le word_less_nat_alt)
  then show "unat w + 1 < 400" using i by (simp add: SII_MAX_POLLS_def)
qed

text \<open>What a handler of the reader leaves behind, whatever the reply.\<close>

definition sii_handled :: "sii \<Rightarrow> sii \<Rightarrow> u32 option res \<Rightarrow> bool" where
  "sii_handled s g out \<longleftrightarrow> buffers_128 g \<and> (out = Inr None \<longrightarrow> sii_inv g \<and> sii_rank g < sii_rank s)"

lemma sii_on_command_ok:
  assumes "chan_wf 128 128 s" "sii_phase s = SiiCommand"
  shows "\<exists>g out. sii_on_command s r = Some (g, out) \<and> sii_handled s g out"
  using assms by (auto simp: sii_on_command_def sii_handled_def sii_inv_def sii_rank_def chan_wf_def
      buffers_128_def SII_MAX_POLLS_def)

lemma sii_count_poll_ok:
  assumes "chan_wf 128 128 s" "sii_phase s = SiiPoll" "sii_polls s < SII_MAX_POLLS"
  shows "\<exists>g out. sii_count_poll s = Some (g, out) \<and> sii_handled s g out"
  using assms sii_polls_inc [OF assms(3)]
  by (auto simp: sii_count_poll_def Let_def sii_handled_def sii_inv_def sii_rank_def chan_wf_def
      buffers_128_def not_le)

lemma sii_on_poll_ok:
  assumes wf: "chan_wf 128 128 s" and ph: "sii_phase s = SiiPoll" "sii_polls s < SII_MAX_POLLS"
  shows "\<exists>g out. sii_on_poll s r = Some (g, out) \<and> sii_handled s g out"
proof -
  let ?s = "s\<lparr>fs_tx_len := 0\<rparr>"
  have w: "chan_wf 128 128 ?s" "buffers_128 ?s"
    using wf by (auto simp: chan_wf_def buffers_128_def)
  have c: "\<exists>g out. sii_count_poll ?s = Some (g, out) \<and> sii_handled s g out"
    using sii_count_poll_ok [OF w(1)] ph by (simp add: sii_handled_def sii_rank_def)
  have fin: "sii_handled s ?s (Inl e)" "sii_handled s ?s (Inr (Some v))" for e v
    using w by (simp_all add: sii_handled_def)
  show ?thesis
    using c fin by (auto simp: sii_on_poll_def Let_def idx_def)
qed

lemma sii_step_cases:
  assumes inv: "sii_inv s" and dev: "dev_wf d"
  obtains g d' ix' out where "sii_step s d station ix = Some (g, d', ix', out)" "dev_wf d'" "buffers_128 g"
    "out = Inr None \<Longrightarrow> sii_inv g \<and> sii_left g < sii_left s"
proof -
  note result = that
  have wf: "chan_wf 128 128 s" using inv by (simp add: sii_inv_def)
  have stg: thesis
    if step: "sii_step s d station ix = stage_with None s d ix b (on_reply h)" and b: "builder_ok 128 b"
      and h: "\<And>p t k x r. chan_wf 128 128 (chan_upd s p t k x) \<Longrightarrow>
        \<exists>g out. h (chan_upd s p t k x) r = Some (g, out) \<and> sii_handled s g out"
    for b h
  proof (rule stage_cases [OF wf dev b, where h = "on_reply h" and ix = ix and pend = None])
    fix p t k x and len :: nat
    assume w: "chan_wf 128 128 (chan_upd s p t k x)" "len \<le> 128"
    show "on_reply h (chan_upd s p t k x) len \<noteq> None"
      by (rule on_reply_total [OF w]) (use h [OF w(1)] in fastforce)
  next
    fix p t k x d' ix' e
    assume "stage_with None s d ix b (on_reply h) = Some (chan_upd s p t k x, d', ix', Inl e)"
      "chan_wf 128 128 (chan_upd s p t k x)" "dev_wf d'"
    then show thesis
      using result [of "chan_upd s p t k x" d' ix' "Inl e"] step by (simp add: chan_wf_buffers)
  next
    fix p t k x d' ix'
    assume a: "stage_with None s d ix b (on_reply h) = Some (chan_upd s p t k x, d', ix', Inr None)"
      "chan_wf 128 128 (chan_upd s p t k x)" "dev_wf d'" "chan_left (chan_upd s p t k x) < chan_left s"
    have "sii_inv (chan_upd s p t k x)" "sii_left (chan_upd s p t k x) < sii_left s"
      using a inv stage_left_chan [of sii_rank "chan_upd s p t k x" s]
      by (simp_all add: sii_inv_def sii_left_def)
    then show thesis
      using result [of "chan_upd s p t k x" d' ix' "Inr None"] step a(1,3) chan_wf_buffers [OF a(2)] by simp
  next
    fix p t k x d' ix' len g out
    assume a: "stage_with None s d ix b (on_reply h) = Some (g, d', ix', out)"
      "on_reply h (chan_upd s p t k x) len = Some (g, out)"
      "chan_wf 128 128 (chan_upd s p t k x)" "dev_wf d'"
    have "sii_handled s g out"
      using a(2)
    proof (rule on_reply_cases)
      assume "g = chan_upd s p t k x" "out = Inl FrameTooShort"
      then show ?thesis using chan_wf_buffers [OF a(3)] by (simp add: sii_handled_def)
    next
      fix r assume "h (chan_upd s p t k x) r = Some (g, out)"
      then show ?thesis using h [OF a(3), of r] by auto
    qed
    then show thesis
      using result [of g d' ix' out] step a(1,4) stage_left_rank [of sii_rank g s]
      by (simp add: sii_handled_def sii_left_def)
  qed simp_all
  have b1: "builder_ok 128 (one_datagram Fpwr station reg_SII_CONTROL [p, q, v, w])" for p q v w
    by (rule one_datagram_ok) auto
  have b2: "builder_ok 128 (one_datagram Fprd station reg_SII_CONTROL (replicate 10 0))"
    by (rule one_datagram_ok) auto
  show thesis
  proof (cases "sii_phase s")
    case SiiCommand
    show thesis
    proof (rule stg [OF _ b1])
      show "sii_step s d station ix = stage_with None s d ix (one_datagram Fpwr station reg_SII_CONTROL
          [sii_ctrl_ADDR_MODE_TWO_OCTET, sii_ctrl_CMD_READ, ucast (sii_word s AND 0xFF),
           ucast (drop_bit 8 (sii_word s))]) (on_reply sii_on_command)"
        unfolding sii_step_def SiiCommand sii_phase.case by (rule refl)
      fix p t k x r assume "chan_wf 128 128 (chan_upd s p t k x)"
      then show "\<exists>g out. sii_on_command (chan_upd s p t k x) r = Some (g, out) \<and> sii_handled s g out"
        using sii_on_command_ok [of "chan_upd s p t k x" r] SiiCommand by (simp add: sii_handled_def sii_rank_def)
    qed
  next
    case SiiPoll
    show thesis
    proof (rule stg [OF _ b2])
      show "sii_step s d station ix =
          stage_with None s d ix (one_datagram Fprd station reg_SII_CONTROL (replicate 10 0)) (on_reply sii_on_poll)"
        unfolding sii_step_def SiiPoll sii_phase.case by (rule refl)
      fix p t k x r assume "chan_wf 128 128 (chan_upd s p t k x)"
      then show "\<exists>g out. sii_on_poll (chan_upd s p t k x) r = Some (g, out) \<and> sii_handled s g out"
        using sii_on_poll_ok [of "chan_upd s p t k x" r] SiiPoll inv
        by (simp add: sii_handled_def sii_rank_def sii_inv_def)
    qed
  qed
qed

section \<open>Termination and absence of panics of the scan\<close>

text \<open>The reader is a channel inside a channel: selectors of the one pass updates of the other.\<close>

lemma sf_sii_fields [simp]:
  "fs_pump (s\<lparr>sf_sii := r\<rparr>) = fs_pump s" "fs_tx (s\<lparr>sf_sii := r\<rparr>) = fs_tx s"
  "fs_tx_len (s\<lparr>sf_sii := r\<rparr>) = fs_tx_len s" "fs_rx (s\<lparr>sf_sii := r\<rparr>) = fs_rx s"
  "sf_sii (s\<lparr>fs_pump := p\<rparr>) = sf_sii s" "sf_sii (s\<lparr>fs_tx := t\<rparr>) = sf_sii s"
  "sf_sii (s\<lparr>fs_tx_len := k\<rparr>) = sf_sii s" "sf_sii (s\<lparr>fs_rx := t\<rparr>) = sf_sii s"
  by (cases s, simp)+

text \<open>The reader with the buffers of the scan lent to it.\<close>

definition lent :: "scan_fsm \<Rightarrow> sii" where
  "lent s = (sf_sii s)\<lparr>fs_tx := fs_tx s, fs_rx := fs_rx s\<rparr>"

definition in_slave :: "scan_fsm \<Rightarrow> bool" where
  "in_slave s \<longleftrightarrow> sf_stage s \<noteq> ScanCount \<and> sf_stage s \<noteq> ScanClear \<and> sf_stage s \<noteq> ScanDone"

definition reading :: "scan_fsm \<Rightarrow> bool" where
  "reading s \<longleftrightarrow> (\<exists>fld. sf_stage s = ScanSii fld)"

definition scan_inv :: "scan_fsm \<Rightarrow> bool" where
  "scan_inv s \<longleftrightarrow>
     chan_wf 128 128 s \<and>
     (sf_stage s = ScanClear \<longrightarrow> sf_count s \<noteq> 0) \<and>
     (in_slave s \<longrightarrow> unat (cur_ring_pos (sf_cur s)) < min (unat (sf_count s)) 32) \<and>
     (reading s \<longrightarrow> sii_inv (lent s) \<and> fs_tx_len s = 0)"

fun field_rank :: "sii_field \<Rightarrow> nat" where
  "field_rank Vendor = 5"
| "field_rank Product = 4"
| "field_rank Revision = 3"
| "field_rank RxMbox = 2"
| "field_rank TxMbox = 1"
| "field_rank Protocols = 0"

text \<open>Exchanges that may follow: 2415 per slave (three registers and six words of at most 402).\<close>

definition scan_rank :: "scan_fsm \<Rightarrow> nat" where
  "scan_rank s =
     (let rest = (31 - unat (cur_ring_pos (sf_cur s))) * 2415
      in case sf_stage s of
           ScanCount \<Rightarrow> 32 * 2415 + 1
         | ScanClear \<Rightarrow> 32 * 2415
         | ScanApwr \<Rightarrow> rest + 2414
         | ScanAl \<Rightarrow> rest + 2413
         | ScanDl \<Rightarrow> rest + 2412
         | ScanSii fld \<Rightarrow> rest + field_rank fld * 402 + sii_rank (sf_sii s)
         | ScanDone \<Rightarrow> 0)"

definition scan_left :: "scan_fsm \<Rightarrow> nat" where
  "scan_left s = scan_rank s * 2003 + (if reading s then chan_left (lent s) else chan_left s)"

lemma sii_rank_lent [simp]: "sii_rank (lent s) = sii_rank (sf_sii s)"
  by (cases "sii_phase (sf_sii s)") (simp_all add: sii_rank_def lent_def)

lemma scan_rank_chan [simp]: "scan_rank (chan_upd s p t k x) = scan_rank s"
  by (cases "sf_stage s") (simp_all add: scan_rank_def)

lemma scan_left_le: "scan_inv s \<Longrightarrow> scan_left s \<le> stage_left scan_rank s"
  using chan_left_le [of "lent s"] by (auto simp: scan_left_def stage_left_def scan_inv_def chan_left_def)

lemma scan_left_eq: "\<not> reading s \<Longrightarrow> scan_left s = stage_left scan_rank s"
  by (simp add: scan_left_def stage_left_def)

lemma scan_left_rank: "scan_rank g < scan_rank s \<Longrightarrow> scan_left g < scan_left s"
proof -
  assume "scan_rank g < scan_rank s"
  then have "scan_rank g * 2003 + 2003 \<le> scan_rank s * 2003" by simp
  then show ?thesis
    using chan_left_le [of "lent g"] chan_left_le [of g] by (auto simp: scan_left_def)
qed

lemma sii_rank_pos: "sii_inv s \<Longrightarrow> 1 \<le> sii_rank s \<and> sii_rank s \<le> 401"
  by (cases "sii_phase s") (auto simp: sii_inv_def sii_rank_def SII_MAX_POLLS_def word_less_nat_alt)

lemma sii_reset_inv: "buffers_128 s \<Longrightarrow> sii_inv (sii_reset s word)"
  by (simp add: sii_inv_def sii_reset_def buffers_128_def chan_wf_def pump_reset_def)

lemma sii_reset_rank [simp]: "sii_rank (sii_reset s word) = 401"
  by (simp add: sii_rank_def sii_reset_def)

lemma lent_reset [simp]: "lent (s\<lparr>sf_sii := sii_reset r word\<rparr>) = sii_reset (lent (s\<lparr>sf_sii := r\<rparr>)) word"
  by (simp add: lent_def sii_reset_def)

text \<open>Starting the next slave.\<close>

lemma begin_slave_ok:
  assumes "buffers_128 s" "unat pos < min (unat (sf_count s)) 32"
  shows "scan_inv (begin_slave s pos)" "scan_rank (begin_slave s pos) = (31 - unat pos) * 2415 + 2414"
  using assms by (auto simp: scan_inv_def begin_slave_def chan_wf_def buffers_128_def reading_def
      in_slave_def scan_rank_def pump_reset_def cur_default_def)

lemma finish_slave_ok:
  assumes wf: "chan_wf 128 128 s" and pos: "unat (cur_ring_pos (sf_cur s)) < min (unat (sf_count s)) 32"
    and rank: "(31 - unat (cur_ring_pos (sf_cur s))) * 2415 < n"
  shows "scan_inv (finish_slave s protocols coe)" "scan_rank (finish_slave s protocols coe) < n"
proof -
  let ?p = "cur_ring_pos (sf_cur s)"
  have nxt: "unat (?p + 1) = unat ?p + 1"
    by (rule unat_inc [of _ "32 :: u16"]) (use pos in \<open>simp add: word_less_nat_alt\<close>)
  have "scan_inv (finish_slave s protocols coe) \<and> scan_rank (finish_slave s protocols coe) < n"
  proof (cases "?p + 1 < sf_count s \<and> unat (?p + 1) < 32")
    case True
    then have lt: "unat (?p + 1) < min (unat (sf_count s)) 32" by (simp add: word_less_nat_alt)
    have "unat ?p < 31" using True nxt by simp
    then have "31 - unat ?p = Suc (31 - unat (?p + 1))" using nxt by simp
    then have "(31 - unat (?p + 1)) * 2415 + 2414 < n" using rank by simp
    with True lt wf show ?thesis
      using begin_slave_ok [of "s\<lparr>sf_completed := Some i\<rparr>" "?p + 1" for i] chan_wf_buffers [OF wf]
      by (simp add: finish_slave_def Let_def buffers_128_def)
  next
    case False
    then show ?thesis
      using wf rank by (auto simp: finish_slave_def Let_def scan_inv_def in_slave_def reading_def
          scan_rank_def chan_wf_def)
  qed
  then show "scan_inv (finish_slave s protocols coe)" "scan_rank (finish_slave s protocols coe) < n"
    by simp_all
qed

text \<open>Storing a word and moving to the next one.\<close>

lemma next_field_ok:
  assumes wf: "chan_wf 128 128 s" "fs_tx_len s = 0"
    and pos: "unat (cur_ring_pos (sf_cur s)) < min (unat (sf_count s)) 32"
  shows "scan_inv (next_field s fld pieces)"
    "scan_rank (next_field s fld pieces) =
      (31 - unat (cur_ring_pos (sf_cur s))) * 2415 + field_rank fld * 402 + 401"
  using wf pos
  by (auto simp: scan_inv_def next_field_def in_slave_def reading_def scan_rank_def chan_wf_def
      sii_inv_def sii_reset_def lent_def pump_reset_def sii_rank_def)

lemma apply_sii_ok:
  assumes wf: "chan_wf 128 128 s" "fs_tx_len s = 0"
    and pos: "unat (cur_ring_pos (sf_cur s)) < min (unat (sf_count s)) 32"
    and rank: "(31 - unat (cur_ring_pos (sf_cur s))) * 2415 + field_rank fld * 402 < n"
  shows "scan_inv (apply_sii s fld v)" "scan_rank (apply_sii s fld v) < n"
proof -
  have "scan_inv (apply_sii s fld v) \<and> scan_rank (apply_sii s fld v) < n"
  proof (cases fld)
    case Protocols
    then show ?thesis
      using wf pos rank finish_slave_ok [of "s\<lparr>sf_trace := t\<rparr>" n for t]
      by (simp add: Let_def chan_wf_def)
  qed (use wf pos rank next_field_ok [of "s\<lparr>sf_cur := c\<rparr>" for c] in \<open>simp_all add: chan_wf_def\<close>)
  then show "scan_inv (apply_sii s fld v)" "scan_rank (apply_sii s fld v) < n" by simp_all
qed

lemma scan_sii_step_ok:
  assumes inv: "scan_inv s" and dev: "dev_wf d" and st: "sf_stage s = ScanSii fld"
  shows "\<exists>s' d' ix' r. scan_sii_step fld s d ix = Some (s', d', ix', r) \<and> dev_wf d' \<and>
    (r = Inr False \<longrightarrow> scan_inv s' \<and> scan_left s' < scan_left s)"
proof -
  have i: "chan_wf 128 128 s" "unat (cur_ring_pos (sf_cur s)) < min (unat (sf_count s)) 32"
      "sii_inv (lent s)" "fs_tx_len s = 0"
    using inv st by (auto simp: scan_inv_def in_slave_def reading_def)
  obtain g d' ix' out where g: "sii_step (lent s) d (cur_station (sf_cur s)) ix = Some (g, d', ix', out)"
      "dev_wf d'" "buffers_128 g" "out = Inr None \<Longrightarrow> sii_inv g \<and> sii_left g < sii_left (lent s)"
    by (rule sii_step_cases [OF i(3) dev]) blast
  let ?s = "s\<lparr>sf_sii := g, fs_tx := fs_tx g, fs_rx := fs_rx g\<rparr>"
  have w: "chan_wf 128 128 ?s" using i(1) g(3) by (simp add: chan_wf_def buffers_128_def)
  have l: "lent ?s = g" by (simp add: lent_def)
  consider e where "out = Inl e" | "out = Inr None" | v where "out = Inr (Some v)"
    by (metis old.sum.exhaust option.exhaust)
  then show ?thesis
  proof cases
    case 1
    then show ?thesis using g(1,2) by (simp add: scan_sii_step_def lent_def)
  next
    case 2
    have "scan_inv ?s"
      using w i(2,4) g(4) [OF 2] l st inv by (auto simp: scan_inv_def in_slave_def reading_def)
    moreover have "scan_left ?s < scan_left s"
      using g(4) [OF 2] l st by (auto simp: scan_left_def scan_rank_def reading_def sii_left_def stage_left_def)
    ultimately show ?thesis using g(1,2) 2 by (simp add: scan_sii_step_def lent_def)
  next
    case 3
    have "(31 - unat (cur_ring_pos (sf_cur ?s))) * 2415 + field_rank fld * 402 < scan_rank s"
      using st sii_rank_pos [OF i(3)] by (simp add: scan_rank_def)
    from apply_sii_ok [OF w _ _ this, of v] i(2,4)
    have "scan_inv (apply_sii ?s fld v)" "scan_left (apply_sii ?s fld v) < scan_left s"
      by (simp_all add: scan_left_rank)
    then show ?thesis using g(1,2) 3 by (simp add: scan_sii_step_def lent_def)
  qed
qed

lemma step_write_ok:
  assumes inv: "scan_inv s" and dev: "dev_wf d" and st: "\<not> reading s" and len: "length payload \<le> 12"
    and h: "\<And>p t x wkc dat g. chan_wf 128 128 (chan_upd s p t 0 x) \<Longrightarrow>
      h (chan_upd s p t 0 x) wkc dat = Inr g \<Longrightarrow> scan_inv g \<and> scan_rank g < scan_rank s"
  shows "\<exists>s' d' ix' r. step_write s d ix cmd adp ado payload h = Some (s', d', ix', r) \<and> dev_wf d' \<and>
    (r = Inr False \<longrightarrow> scan_inv s' \<and> scan_left s' < scan_left s)"
proof -
  have wf: "chan_wf 128 128 s" using inv by (simp add: scan_inv_def)
  have b: "builder_ok 128 (one_datagram cmd adp ado payload)" by (rule one_datagram_ok) (use len in auto)
  have "\<exists>s' d' ix' r. step_write s d ix cmd adp ado payload h = Some (s', d', ix', r) \<and> dev_wf d' \<and>
    (r = Inr False \<longrightarrow> scan_inv s' \<and> stage_left scan_rank s' < stage_left scan_rank s)"
    unfolding step_write_def
  proof (rule stage_reply_ok [OF wf dev b])
    fix p t k x assume "chan_wf 128 128 (chan_upd s p t k x)"
    then show "scan_inv (chan_upd s p t k x) \<and> scan_rank (chan_upd s p t k x) = scan_rank s"
      using inv st by (simp add: scan_inv_def in_slave_def reading_def)
  next
    fix p t k x r assume w: "chan_wf 128 128 (chan_upd s p t k x)"
    then have w0: "chan_wf 128 128 (chan_upd s p t 0 x)" by (simp add: chan_wf_def)
    have eq: "(chan_upd s p t k x)\<lparr>fs_tx_len := 0\<rparr> = chan_upd s p t 0 x" by (cases s) simp
    show "\<exists>g out. scan_on_reply h (chan_upd s p t k x) r = Some (g, out) \<and>
        (out = Inr False \<longrightarrow> scan_inv g \<and> scan_rank g < scan_rank s)"
      unfolding scan_on_reply_def Let_def eq using h [OF w0] by (simp split: sum.split)
  qed simp_all
  then show ?thesis
    using scan_left_le scan_left_eq [OF st] by (metis le_less_trans)
qed

interpretation scan: bounded_fsm scan_step scan_inv scan_left
proof
  fix s d ix
  assume inv: "scan_inv s" and dev: "dev_wf d"
  have wf: "chan_wf 128 128 s" and clear: "sf_stage s = ScanClear \<Longrightarrow> sf_count s \<noteq> 0"
      and pos: "in_slave s \<Longrightarrow> unat (cur_ring_pos (sf_cur s)) < min (unat (sf_count s)) 32"
    using inv by (auto simp: scan_inv_def)
  have simple: "step_simple s d ix cmd adp ado k h = step_write s d ix cmd adp ado (replicate k 0) h"
    if "k \<le> 12" for cmd adp ado k h
    using that by (simp add: step_simple_def min_absorb1)
  show "\<exists>s' d' ix' r. scan_step s d ix = Some (s', d', ix', r) \<and> dev_wf d' \<and>
          (r = Inr False \<longrightarrow> scan_inv s' \<and> scan_left s' < scan_left s)"
  proof (cases "sf_stage s")
    case ScanCount
    show ?thesis
      unfolding scan_step_def Let_def ScanCount scan_stage.case simple [of 2, simplified]
      by (rule step_write_ok [OF inv dev])
        (auto simp: ScanCount reading_def scan_on_count_def scan_inv_def in_slave_def scan_rank_def chan_wf_def
          split: if_splits)
  next
    case ScanClear
    show ?thesis
      unfolding scan_step_def Let_def ScanClear scan_stage.case simple [of 2, simplified]
    proof (rule step_write_ok [OF inv dev])
      fix p t x wkc dat g
      assume w: "chan_wf 128 128 (chan_upd s p t 0 x)" and g: "scan_on_clear (chan_upd s p t 0 x) wkc dat = Inr g"
      have "0 < unat (sf_count s)" using clear [OF ScanClear] by (simp add: unat_gt_0)
      then show "scan_inv g \<and> scan_rank g < scan_rank s"
        using g begin_slave_ok [of "(chan_upd s p t 0 x)\<lparr>sf_trace := l\<rparr>" 0 for l] chan_wf_buffers [OF w] ScanClear
        by (auto simp: scan_on_clear_def scan_rank_def buffers_128_def)
    qed (simp_all add: ScanClear reading_def)
  next
    case ScanApwr
    show ?thesis
      unfolding scan_step_def Let_def ScanApwr scan_stage.case
      by (rule step_write_ok [OF inv dev])
        (use pos in \<open>auto simp: ScanApwr reading_def scan_on_addr_def scan_inv_def in_slave_def scan_rank_def
          chan_wf_def split: if_splits\<close>)
  next
    case ScanAl
    show ?thesis
      unfolding scan_step_def Let_def ScanAl scan_stage.case simple [of 2, simplified]
      by (rule step_write_ok [OF inv dev])
        (use pos in \<open>auto simp: ScanAl reading_def scan_on_al_def Let_def scan_inv_def in_slave_def scan_rank_def
          chan_wf_def split: if_splits\<close>)
  next
    case ScanDl
    show ?thesis
      unfolding scan_step_def Let_def ScanDl scan_stage.case simple [of 12, simplified]
    proof (rule step_write_ok [OF inv dev])
      fix p t x wkc dat g
      assume w: "chan_wf 128 128 (chan_upd s p t 0 x)" and g: "scan_on_dl (chan_upd s p t 0 x) wkc dat = Inr g"
      have p: "unat (cur_ring_pos (sf_cur s)) < min (unat (sf_count s)) 32"
        using pos ScanDl by (simp add: in_slave_def)
      show "scan_inv g \<and> scan_rank g < scan_rank s"
        using g w p by (auto simp: scan_on_dl_def Let_def ScanDl reading_def scan_inv_def in_slave_def
            scan_rank_def chan_wf_def sii_inv_def sii_reset_def lent_def pump_reset_def sii_rank_def
            split: if_splits)
    qed (simp_all add: ScanDl reading_def)
  next
    case (ScanSii fld)
    show ?thesis
      unfolding scan_step_def Let_def ScanSii scan_stage.case
      by (rule scan_sii_step_ok [OF inv dev ScanSii])
  next
    case ScanDone
    then show ?thesis using dev by (simp add: scan_step_def)
  qed
qed

lemma scan_new_inv: "scan_inv scan_new"
  by (simp add: scan_inv_def scan_new_def chan_wf_def pump_new_def in_slave_def reading_def)

lemma scan_new_left: "scan_left scan_new = (32 * 2415 + 1) * 2003 + 2002"
  by (simp add: scan_left_def scan_rank_def scan_new_def reading_def chan_left_def)

lemma scan_inv_take [simp]: "scan_inv (snd (take_completed_slave s)) = scan_inv s"
  by (simp add: take_completed_slave_def scan_inv_def chan_wf_def in_slave_def reading_def lent_def)

section \<open>The slaves a scan delivers\<close>

text \<open>The driver of a scan (\<^verbatim>\<open>Op::Rescan\<close> of \<^verbatim>\<open>src/src/ethercat/master.rs\<close>): after each pending step it drains the
  completed slave into its list.\<close>

inductive scan_run :: "scan_fsm \<Rightarrow> slave_info list \<Rightarrow> bool" where
  start: "scan_run scan_new []"
| tick: "scan_run s found \<Longrightarrow> scan_step s d ix = Some (s', d', ix', Inr False) \<Longrightarrow>
    scan_run (snd (take_completed_slave s'))
      (found @ (case fst (take_completed_slave s') of None \<Rightarrow> [] | Some i \<Rightarrow> [i]))"

definition slave_at :: "nat \<Rightarrow> slave_info \<Rightarrow> bool" where
  "slave_at i s \<longleftrightarrow> ring_pos s = of_nat i \<and> station_addr s = of_nat i + 1 \<and> al_state s AND al_MASK = al_state s \<and>
     (supports_coe s \<longleftrightarrow> mbox_protocols s AND mbox_PROTO_COE \<noteq> 0)"

definition ring_order :: "slave_info list \<Rightarrow> bool" where
  "ring_order found \<longleftrightarrow> (\<forall>i<length found. slave_at i (found ! i))"

definition cur_ok :: "cur \<Rightarrow> nat \<Rightarrow> bool" where
  "cur_ok c n \<longleftrightarrow> cur_ring_pos c = of_nat n \<and> cur_station c = of_nat n + 1 \<and> cur_al c AND al_MASK = cur_al c"

definition scan_limit :: "scan_fsm \<Rightarrow> nat" where
  "scan_limit s = min (unat (sf_count s)) 32"

text \<open>The position of a scan that has delivered \<open>n\<close> slaves.\<close>

definition scan_at :: "scan_fsm \<Rightarrow> nat \<Rightarrow> bool" where
  "scan_at s n \<longleftrightarrow>
     (if in_slave s then cur_ok (sf_cur s) n \<and> n < scan_limit s
      else if sf_stage s = ScanDone then n = scan_limit s
      else n = 0 \<and> (sf_stage s = ScanClear \<longrightarrow> sf_count s \<noteq> 0))"

lemma ring_order_snoc: "ring_order found \<Longrightarrow> slave_at (length found) i \<Longrightarrow> ring_order (found @ [i])"
  by (auto simp: ring_order_def nth_append less_Suc_eq)

lemma scan_at_chan [simp]: "scan_at (chan_upd s p t k x) n = scan_at s n"
  by (simp add: scan_at_def in_slave_def scan_limit_def)

text \<open>One pending step: no slave yet and the position kept, or the slave of this position done.\<close>

definition scan_moved :: "scan_fsm \<Rightarrow> nat \<Rightarrow> bool" where
  "scan_moved s n \<longleftrightarrow>
     (sf_completed s = None \<and> scan_at s n) \<or>
     (\<exists>i. sf_completed s = Some i \<and> slave_at n i \<and> scan_at s (n + 1))"

lemma finish_slave_moved:
  assumes "cur_ok (sf_cur s) n" "n < scan_limit s"
  shows "scan_moved (finish_slave s protocols (protocols AND mbox_PROTO_COE \<noteq> 0)) n"
proof -
  have n: "n < 32" "n < unat (sf_count s)" using assms(2) by (simp_all add: scan_limit_def)
  have u: "unat (cur_ring_pos (sf_cur s) + 1) = n + 1"
    using assms(1) n unat_of_nat_16 [of "n + 1"] by (simp add: cur_ok_def add.commute)
  have nxt: "cur_ring_pos (sf_cur s) + 1 < sf_count s \<longleftrightarrow> n + 1 < unat (sf_count s)"
    using u by (simp add: word_less_nat_alt)
  show ?thesis
    using assms n u nxt
    by (auto simp: scan_moved_def finish_slave_def Let_def begin_slave_def slave_at_def scan_at_def
        in_slave_def cur_ok_def scan_limit_def cur_default_def add.commute)
qed

lemma apply_sii_moved:
  assumes "sf_stage s = ScanSii fld" "sf_completed s = None" "scan_at s n"
  shows "scan_moved (apply_sii s fld v) n"
proof -
  have c: "cur_ok (sf_cur s) n" "n < scan_limit s"
    using assms by (simp_all add: scan_at_def in_slave_def)
  show ?thesis
  proof (cases fld)
    case Protocols
    then show ?thesis
      using c finish_slave_moved [of "s\<lparr>sf_trace := t\<rparr>" n "ucast v" for t]
      by (simp add: Let_def scan_limit_def)
  qed (use c assms in \<open>auto simp: next_field_def scan_moved_def scan_at_def in_slave_def cur_ok_def scan_limit_def\<close>)
qed

lemma step_write_moved:
  assumes "step_write s d ix cmd adp ado payload h = Some (s', d', ix', Inr False)"
    and "sf_completed s = None" "scan_at s n"
    and "\<And>p t x wkc dat g. h (chan_upd s p t 0 x) wkc dat = Inr g \<Longrightarrow> sf_completed g = None \<and> scan_at g n"
  shows "scan_moved s' n"
proof -
  have "sf_completed s' = None \<and> scan_at s' n"
    using assms(1) unfolding step_write_def
  proof (rule stage_reply_eq_Some)
    fix p t k x assume "s' = chan_upd s p t k x"
    then show ?thesis using assms(2,3) by simp
  next
    fix p t k x r
    assume r: "scan_on_reply h (chan_upd s p t k x) r = Some (s', Inr False)"
    have eq: "(chan_upd s p t k x)\<lparr>fs_tx_len := 0\<rparr> = chan_upd s p t 0 x" by (cases s) simp
    from r show ?thesis
      unfolding scan_on_reply_def Let_def eq using assms(4) by (auto split: sum.splits)
  qed
  then show ?thesis by (simp add: scan_moved_def)
qed

lemma scan_sii_moved:
  assumes st: "scan_sii_step fld s d ix = Some (s', d', ix', Inr False)" "sf_stage s = ScanSii fld"
    and pos: "sf_completed s = None" "scan_at s n"
  shows "scan_moved s' n"
proof -
  obtain r d1 ix1 out where r: "sii_step ((sf_sii s)\<lparr>fs_tx := fs_tx s, fs_rx := fs_rx s\<rparr>) d
      (cur_station (sf_cur s)) ix = Some (r, d1, ix1, out)"
    using st(1) by (auto simp: scan_sii_step_def Option.bind_eq_Some_conv)
  let ?s = "s\<lparr>sf_sii := r, fs_tx := fs_tx r, fs_rx := fs_rx r\<rparr>"
  have p: "sf_stage ?s = ScanSii fld" "sf_completed ?s = None" "scan_at ?s n"
    using st(2) pos by (simp_all add: scan_at_def in_slave_def scan_limit_def)
  show ?thesis
  proof (cases "\<exists>v. out = Inr (Some v)")
    case True
    then obtain v where "s' = apply_sii ?s fld v" using st(1) r by (auto simp: scan_sii_step_def)
    then show ?thesis using apply_sii_moved [OF p] by simp
  next
    case False
    then have "s' = ?s" using st(1) r by (auto simp: scan_sii_step_def Let_def split: sum.splits option.splits)
    then show ?thesis using p by (simp add: scan_moved_def)
  qed
qed

lemma scan_step_moved:
  assumes st: "scan_step s d ix = Some (s', d', ix', Inr False)" and pos: "sf_completed s = None" "scan_at s n"
  shows "scan_moved s' n"
proof (cases "sf_stage s")
  case ScanDone
  then show ?thesis using st by (simp add: scan_step_def)
next
  case (ScanSii fld)
  then show ?thesis using st pos scan_sii_moved [of fld] by (simp add: scan_step_def)
next
  case ScanCount
  then have "step_write s d ix Brd 0 reg_AL_STATUS [0, 0] scan_on_count = Some (s', d', ix', Inr False)"
    using st by (simp add: scan_step_def step_simple_def slice_def numeral_2_eq_2 min_def)
  then show ?thesis
    by (rule step_write_moved [OF _ pos])
      (use pos ScanCount in \<open>auto simp: scan_on_count_def scan_at_def in_slave_def scan_limit_def split: if_splits\<close>)
next
  case ScanClear
  then have "step_write s d ix Bwr 0 reg_STATION_ADDR [0, 0] scan_on_clear = Some (s', d', ix', Inr False)"
    using st by (simp add: scan_step_def step_simple_def slice_def numeral_2_eq_2 min_def)
  then show ?thesis
    by (rule step_write_moved [OF _ pos])
      (use pos ScanClear in \<open>auto simp: scan_on_clear_def begin_slave_def scan_at_def in_slave_def
         scan_limit_def cur_ok_def cur_default_def unat_gt_0\<close>)
next
  case ScanApwr
  then have "step_write s d ix Apwr (autoinc_adp (cur_ring_pos (sf_cur s))) reg_STATION_ADDR
      (le16 (cur_station (sf_cur s))) scan_on_addr = Some (s', d', ix', Inr False)"
    using st by (simp add: scan_step_def)
  then show ?thesis
    by (rule step_write_moved [OF _ pos])
      (use pos ScanApwr in \<open>auto simp: scan_on_addr_def scan_at_def in_slave_def scan_limit_def split: if_splits\<close>)
next
  case ScanAl
  then have "step_write s d ix Fprd (cur_station (sf_cur s)) reg_AL_STATUS [0, 0] scan_on_al = Some (s', d', ix', Inr False)"
    using st by (simp add: scan_step_def step_simple_def slice_def numeral_2_eq_2 min_def)
  then show ?thesis
    by (rule step_write_moved [OF _ pos])
      (use pos ScanAl in \<open>auto simp: scan_on_al_def Let_def scan_at_def in_slave_def scan_limit_def
         cur_ok_def and.assoc split: if_splits\<close>)
next
  case ScanDl
  then have "step_write s d ix Fprd (cur_station (sf_cur s)) reg_DL_INFO (replicate 12 0) scan_on_dl =
      Some (s', d', ix', Inr False)"
    using st by (simp add: scan_step_def step_simple_def)
  then show ?thesis
    by (rule step_write_moved [OF _ pos])
      (use pos ScanDl in \<open>auto simp: scan_on_dl_def Let_def scan_at_def in_slave_def scan_limit_def
         cur_ok_def split: if_splits\<close>)
qed

lemma scan_run_position:
  assumes "scan_run s found"
  shows "ring_order found \<and> sf_completed s = None \<and> scan_at s (length found)"
  using assms
proof (induction rule: scan_run.induct)
  case start
  then show ?case by (simp add: ring_order_def scan_new_def scan_at_def in_slave_def)
next
  case (tick s found d ix s' d' ix')
  then have m: "scan_moved s' (length found)" using scan_step_moved by blast
  have keep: "scan_at (snd (take_completed_slave s')) k = scan_at s' k" for k
    by (simp add: take_completed_slave_def scan_at_def in_slave_def scan_limit_def)
  from m show ?case
    unfolding scan_moved_def keep
    using tick.IH ring_order_snoc by (auto simp: take_completed_slave_def)
qed


end
