(* ===== verification/Domain.thy ===== *)
theory Domain
  imports Config Datagram
begin

text \<open>
  The process-data domain, \<^verbatim>\<open>src/ethercat/domain.rs\<close>: the cyclic image, the LRW frame that carries it
  and the copy-back of the input windows of a reply. The lemmas say which bytes of the image a
  reply may change and to what, and instantiate this for the generated bus: a reply never
  touches an output byte.
\<close>

unbundle bit_operations_syntax

section \<open>The code\<close>

definition MAX_IMAGE :: nat where [simp]: "MAX_IMAGE = 512"

datatype wkc_state = WkcZero | WkcIncomplete | WkcComplete

record ec_domain =
  dom_image :: bytes
  dom_len :: nat
  expected_wkc :: u16
  last_wkc :: u16
  input_ranges :: "(nat \<times> nat) list"

text \<open>The loop over the FMMUs of all slaves.\<close>

fun domain_fmmus :: "fmmu_cfg list \<Rightarrow> u16 \<Rightarrow> (nat \<times> nat) list \<Rightarrow> u16 \<times> (nat \<times> nat) list" where
  "domain_fmmus [] wkc ranges = (wkc, ranges)"
| "domain_fmmus (f # fs) wkc ranges =
     (case fmmu_dir f of
        Output \<Rightarrow> domain_fmmus fs (wkc + 2) ranges
      | Input \<Rightarrow>
          domain_fmmus fs (wkc + 1)
            (push_drop EC_MAX_SLAVES ranges (unat (fmmu_logical_start f), unat (fmmu_size f))))"

definition domain_from_config :: "bus_cfg \<Rightarrow> ec_domain" where
  "domain_from_config bus =
     (let len = min (bus_image_size bus) MAX_IMAGE;
          (wkc, ranges) = domain_fmmus (concat (map sl_fmmus (bus_slaves bus))) 0 []
      in \<lparr>dom_image = replicate MAX_IMAGE 0, dom_len = len, expected_wkc = wkc, last_wkc = 0,
          input_ranges = ranges\<rparr>)"

definition domain_image :: "ec_domain \<Rightarrow> bytes option" where
  "domain_image d = slice (dom_image d) 0 (dom_len d)"

text \<open>A write through \<^verbatim>\<open>image_mut()\<close>: the slice is handed to \<open>f\<close>, which keeps its length.\<close>

definition domain_image_mut :: "ec_domain \<Rightarrow> (bytes \<Rightarrow> bytes option) \<Rightarrow> ec_domain option" where
  "domain_image_mut d f = do {
     img \<leftarrow> in_window (dom_image d) 0 (dom_len d) f;
     Some (d\<lparr>dom_image := img\<rparr>) }"

definition build_lrw :: "ec_domain \<Rightarrow> bytes \<Rightarrow> u8 \<Rightarrow> (bytes \<times> nat) option" where
  "build_lrw d buf i = do {
     img \<leftarrow> domain_image d;
     build buf i Lrw 0 0 img }"

fun copy_ranges :: "nat \<Rightarrow> bytes \<Rightarrow> (nat \<times> nat) list \<Rightarrow> bytes \<Rightarrow> bytes option" where
  "copy_ranges len dat [] img = Some img"
| "copy_ranges len dat ((start, sz) # rs) img =
     (let stop = min (start + sz) len
      in if start < stop \<and> stop \<le> length dat then do {
           src \<leftarrow> slice dat start stop;
           img \<leftarrow> copy_at img start stop src;
           copy_ranges len dat rs img }
         else copy_ranges len dat rs img)"

definition apply_reply :: "ec_domain \<Rightarrow> reply \<Rightarrow> (ec_domain \<times> wkc_state) option" where
  "apply_reply d r = do {
     img \<leftarrow> copy_ranges (dom_len d) (rp_data r) (input_ranges d) (dom_image d);
     let d = d\<lparr>dom_image := img, last_wkc := rp_wkc r\<rparr>;
     Some (d, if rp_wkc r = 0 then WkcZero
              else if rp_wkc r = expected_wkc d then WkcComplete
              else WkcIncomplete) }"

section \<open>What a reply changes\<close>

definition domain_wf :: "ec_domain \<Rightarrow> bool" where
  "domain_wf d \<longleftrightarrow> length (dom_image d) = MAX_IMAGE \<and> dom_len d \<le> MAX_IMAGE"

text \<open>The bytes a reply with \<open>n\<close> payload bytes delivers.\<close>

definition delivered :: "nat \<Rightarrow> nat \<Rightarrow> (nat \<times> nat) list \<Rightarrow> nat \<Rightarrow> bool" where
  "delivered len n rs i \<longleftrightarrow>
     (\<exists>(start, sz) \<in> set rs. start \<le> i \<and> i < min (start + sz) len \<and> min (start + sz) len \<le> n)"

lemma delivered_simps [simp]:
  "\<not> delivered len n [] i"
  "delivered len n ((start, sz) # rs) i \<longleftrightarrow>
     (start \<le> i \<and> i < min (start + sz) len \<and> min (start + sz) len \<le> n) \<or> delivered len n rs i"
  by (auto simp: delivered_def)

lemma copy_ranges_eq:
  assumes "len \<le> length img"
  shows "copy_ranges len dat rs img =
    Some (map (\<lambda>i. if delivered len (length dat) rs i then dat ! i else img ! i) [0..<length img])"
  using assms
proof (induction rs arbitrary: img)
  case Nil
  then show ?case by (simp add: map_nth)
next
  case (Cons r rs)
  obtain start sz where r: "r = (start, sz)" by (cases r)
  let ?e = "min (start + sz) len"
  show ?case
  proof (cases "start < ?e \<and> ?e \<le> length dat")
    case True
    define e where "e = ?e"
    have t: "start \<le> e" "e \<le> length dat" "e \<le> length img" "start < e"
      using True Cons.prems unfolding e_def by linarith+
    let ?img = "take start img @ take (e - start) (drop start dat) @ drop e img"
    have l: "length ?img = length img" using t by simp
    have "copy_ranges len dat (r # rs) img = copy_ranges len dat rs ?img"
      unfolding r copy_ranges.simps Let_def e_def [symmetric] using t by (simp add: slice_in copy_at_in)
    have img: "?img ! i = (if start \<le> i \<and> i < e then dat ! i else img ! i)" if "i < length img" for i
    proof -
      have "length (take start img) = start" "length (take (e - start) (drop start dat)) = e - start"
        using t by simp_all
      then show ?thesis using that t by (auto simp: nth_append simp del: length_take)
    qed
    have d: "delivered len (length dat) (r # rs) i \<longleftrightarrow> (start \<le> i \<and> i < e) \<or> delivered len (length dat) rs i" for i
      unfolding r delivered_simps e_def [symmetric] using t(2) by blast
    note \<open>copy_ranges len dat (r # rs) img = copy_ranges len dat rs ?img\<close>
    also have "copy_ranges len dat rs ?img =
        Some (map (\<lambda>i. if delivered len (length dat) rs i then dat ! i else ?img ! i) [0..<length img])"
      using Cons.IH [of ?img] Cons.prems l by simp
    also have "map (\<lambda>i. if delivered len (length dat) rs i then dat ! i else ?img ! i) [0..<length img] =
        map (\<lambda>i. if delivered len (length dat) (r # rs) i then dat ! i else img ! i) [0..<length img]"
      using img d by (intro map_cong) auto
    finally show ?thesis .
  next
    case False
    have "\<not> (start \<le> i \<and> i < ?e \<and> ?e \<le> length dat)" for i using False by linarith
    then have "delivered len (length dat) (r # rs) i = delivered len (length dat) rs i" for i
      unfolding r delivered_simps by blast
    moreover have "copy_ranges len dat (r # rs) img = copy_ranges len dat rs img"
      unfolding r copy_ranges.simps Let_def by (simp only: False if_False)
    ultimately show ?thesis using Cons by simp
  qed
qed

lemma apply_reply_effect:
  assumes "domain_wf d"
  obtains d' st where "apply_reply d r = Some (d', st)" "domain_wf d'" "dom_len d' = dom_len d"
    "input_ranges d' = input_ranges d" "expected_wkc d' = expected_wkc d" "last_wkc d' = rp_wkc r"
    "\<And>i. i < 512 \<Longrightarrow> dom_image d' ! i =
       (if delivered (dom_len d) (length (rp_data r)) (input_ranges d) i then rp_data r ! i else dom_image d ! i)"
    "st = WkcComplete \<longleftrightarrow> rp_wkc r = expected_wkc d \<and> rp_wkc r \<noteq> 0"
    "st = WkcZero \<longleftrightarrow> rp_wkc r = 0"
proof -
  have "dom_len d \<le> length (dom_image d)" using assms by (simp add: domain_wf_def)
  from copy_ranges_eq [OF this, of "rp_data r" "input_ranges d"] show thesis
    using assms that by (auto simp: apply_reply_def Let_def domain_wf_def)
qed

lemma domain_image_eq: "domain_wf d \<Longrightarrow> domain_image d = Some (take (dom_len d) (dom_image d))"
  by (simp add: domain_image_def domain_wf_def)

text \<open>The LRW frame carries the image.\<close>

lemma build_lrw_frame:
  assumes "domain_wf d" "14 + dom_len d \<le> length buf" "46 \<le> length buf"
  shows "\<exists>k. build_lrw d buf i =
    Some (frame_bytes [request i Lrw 0 0 (take (dom_len d) (dom_image d))] @ drop k buf, k) \<and>
    k = max 46 (14 + dom_len d)"
  using assms build_frame [of "take (dom_len d) (dom_image d)" buf i Lrw 0 0]
  by (simp add: build_lrw_def domain_image_eq min_absorb2 domain_wf_def)

section \<open>The generated bus\<close>

definition bus_out_end :: nat where "bus_out_end = 32"

lemma domain_BUS:
  "domain_from_config BUS =
     \<lparr>dom_image = replicate 512 0, dom_len = 110, expected_wkc = 6, last_wkc = 0,
      input_ranges = [(32, 39), (71, 39)]\<rparr>"
  by (simp add: domain_from_config_def bus_table push_drop_def vec_push_def)

lemma domain_BUS_wf: "domain_wf (domain_from_config BUS)"
  by (simp add: domain_BUS domain_wf_def)

text \<open>With the windows of the bus, a reply to a full frame delivers exactly the input region.\<close>

lemma delivered_BUS:
  "110 \<le> n \<Longrightarrow> delivered 110 n [(32, 39), (71, 39)] i \<longleftrightarrow> 32 \<le> i \<and> i < 110"
  by auto

lemma delivered_BUS_input: "delivered 110 n [(32, 39), (71, 39)] i \<Longrightarrow> 32 \<le> i \<and> i < 110"
  by auto

lemma BUS_regions: "bus_out_bytes BUS = 32" "bus_in_bytes BUS = 78" "bus_image_size BUS = 110"
  by (simp_all add: bus_out_bytes_def bus_in_bytes_def bus_table)

end
