(* ===== verification/Hal.thy ===== *)
theory Hal
  imports Config
begin

text \<open>
  The pin layer, \<^verbatim>\<open>src/hal/process_data.rs\<close> and \<^verbatim>\<open>src/hal/pin.rs\<close>: named process-data pins read from
  and written to the image. A value is an \<^verbatim>\<open>i64\<close>, here the 64-bit word with the same bits. Shift
  amounts wrap at the width, as they do in a release build. The lemmas give the bits of what is
  read, the round trip of a write, and that a write leaves disjoint pins alone.
\<close>

unbundle bit_operations_syntax

section \<open>The code\<close>

definition is_output :: "pin_cfg \<Rightarrow> bool" where
  "is_output p \<longleftrightarrow> pin_dir p = Output"

definition sign_extend :: "u64 \<Rightarrow> u8 \<Rightarrow> u64" where
  "sign_extend raw bits =
     (if bits = 0 \<or> bits \<ge> 64 then raw
      else let shift = 64 - unat bits in signed_drop_bit shift (push_bit shift raw))"

text \<open>\<^verbatim>\<open>(pin.bit_len as usize).div_ceil(8)\<close>\<close>

definition pin_bytes :: "pin_cfg \<Rightarrow> nat" where
  "pin_bytes p = (unat (pin_bit_len p) + 7) div 8"

definition read_raw :: "bytes \<Rightarrow> nat \<Rightarrow> nat \<Rightarrow> u64" where
  "read_raw img off nbytes =
     fold (\<lambda>i raw. if off + i < length img
                    then raw OR push_bit (8 * i mod 64) (ucast (img ! (off + i))) else raw)
       [0..<nbytes] 0"

definition write_raw :: "bytes \<Rightarrow> nat \<Rightarrow> nat \<Rightarrow> u64 \<Rightarrow> bytes" where
  "write_raw img off nbytes raw =
     fold (\<lambda>i img. if off + i < length img
                      then img[off + i := ucast (drop_bit (8 * i mod 64) raw)] else img)
       [0..<nbytes] img"

definition read_value :: "bytes \<Rightarrow> pin_cfg \<Rightarrow> u64" where
  "read_value img p =
     (let off = unat (pin_byte_offset p)
      in case pin_hal_type p of
           HalBit \<Rightarrow>
             if off < length img then ucast (drop_bit (unat (pin_bit_pos p) mod 8) (img ! off) AND 1) else 0
         | HalU32 \<Rightarrow> read_raw img off (pin_bytes p)
         | HalS32 \<Rightarrow> sign_extend (read_raw img off (pin_bytes p)) (pin_bit_len p))"

definition write_value :: "bytes \<Rightarrow> pin_cfg \<Rightarrow> u64 \<Rightarrow> bytes" where
  "write_value img p v =
     (let off = unat (pin_byte_offset p)
      in case pin_hal_type p of
           HalBit \<Rightarrow>
             if off < length img then
               let mask = push_bit (unat (pin_bit_pos p) mod 8) 1
               in if v \<noteq> 0 then img[off := img ! off OR mask]
                  else img[off := img ! off AND NOT mask]
             else img
         | HalU32 \<Rightarrow> write_raw img off (pin_bytes p) v
         | HalS32 \<Rightarrow> write_raw img off (pin_bytes p) v)"

text \<open>\<^verbatim>\<open>process_data::find\<close> and \<^verbatim>\<open>all\<close>: the pins of the generated bus.\<close>

definition hal_find :: "string \<Rightarrow> pin_cfg option" where "hal_find name = bus_pin BUS name"

definition hal_all :: "pin_cfg list" where "hal_all = bus_pins BUS"

section \<open>Bits of the img\<close>

lemma length_write_raw [simp]: "length (write_raw img off n v) = length img"
proof -
  have "length (fold (\<lambda>i img. if off + i < length img
      then img[off + i := ucast (drop_bit (8 * i mod 64) v)] else img) xs img) = length img" for xs
    by (induction xs arbitrary: img) auto
  then show ?thesis by (simp add: write_raw_def)
qed

lemma length_write_value [simp]: "length (write_value img p v) = length img"
  by (simp add: write_value_def Let_def split: hal_type.split)

lemma bit_read_raw:
  assumes "n \<le> 8"
  shows "bit (read_raw img off n) k \<longleftrightarrow>
    k < 8 * n \<and> off + k div 8 < length img \<and> bit (img ! (off + k div 8)) (k mod 8)"
  using assms
proof (induction n)
  case 0
  then show ?case by (simp add: read_raw_def)
next
  case (Suc n)
  let ?b = "img ! (off + n)"
  have step: "read_raw img off (Suc n) =
      (if off + n < length img then read_raw img off n OR push_bit (8 * n) (ucast ?b)
       else read_raw img off n)"
    using Suc.prems by (simp add: read_raw_def)
  have shifted: "bit (push_bit (8 * n) (ucast ?b) :: u64) k \<longleftrightarrow> k div 8 = n \<and> bit ?b (k mod 8)"
  proof (cases "8 * n \<le> k \<and> k < 8 * n + 8")
    case True
    then have "k div 8 = n" by auto
    then have d: "k div 8 = n" "k - 8 * n = k mod 8" using minus_mult_div_eq_mod [of k 8] by simp_all
    then show ?thesis using True Suc.prems by (auto simp: bit_push_bit_iff bit_ucast_iff)
  next
    case False
    have lt: "bit ?b m \<Longrightarrow> m < 8" for m using bit_imp_le_length [of ?b m] by simp
    have "\<not> (8 * n \<le> k \<and> bit ?b (k - 8 * n))" using False lt [of "k - 8 * n"] by linarith
    moreover have "k div 8 \<noteq> n" using False by auto
    ultimately show ?thesis by (auto simp: bit_push_bit_iff bit_ucast_iff)
  qed
  have "k < 8 * Suc n \<longleftrightarrow> k < 8 * n \<or> k div 8 = n" by auto
  then show ?case
    using Suc step shifted by (auto simp: bit_or_iff)
qed

lemma write_raw_nth:
  assumes "n \<le> 8" "off + n \<le> length img" "i < length img"
  shows "write_raw img off n v ! i =
    (if off \<le> i \<and> i < off + n then ucast (drop_bit (8 * (i - off)) v) else img ! i)"
  using assms
proof (induction n)
  case 0
  then show ?case by (auto simp: write_raw_def)
next
  case (Suc n)
  have "write_raw img off (Suc n) v =
      (write_raw img off n v)[off + n := ucast (drop_bit (8 * n) v)]"
    using Suc.prems length_write_raw [of img off n v] by (simp add: write_raw_def)
  then show ?case using Suc by (auto simp: nth_list_update)
qed

lemma read_write_raw:
  assumes "n \<le> 8" "off + n \<le> length img"
  shows "read_raw (write_raw img off n v) off n = take_bit (8 * n) v"
proof (rule bit_word_eqI)
  fix k assume k: "k < LENGTH(64)"
  show "bit (read_raw (write_raw img off n v) off n) k \<longleftrightarrow> bit (take_bit (8 * n) v) k"
  proof (cases "k < 8 * n")
    case True
    then have "k div 8 < n" by auto
    then show ?thesis
      using True assms k
      by (simp add: bit_read_raw write_raw_nth bit_ucast_iff bit_drop_bit_eq bit_take_bit_iff)
  qed (use assms in \<open>simp add: bit_read_raw bit_take_bit_iff\<close>)
qed

text \<open>Reading depends only on the bytes of the pin.\<close>

lemma read_raw_cong:
  assumes "n \<le> 8" "length img' = length img" "\<And>i. off \<le> i \<Longrightarrow> i < off + n \<Longrightarrow> img' ! i = img ! i"
  shows "read_raw img' off n = read_raw img off n"
proof (rule bit_word_eqI)
  fix k
  have "off + k div 8 < off + n" if "k < 8 * n" using that by auto
  then show "bit (read_raw img' off n) k \<longleftrightarrow> bit (read_raw img off n) k"
    using assms by (auto simp: bit_read_raw)
qed

section \<open>Round trip and independence\<close>

definition pin_fits :: "bytes \<Rightarrow> pin_cfg \<Rightarrow> bool" where
  "pin_fits img p \<longleftrightarrow> unat (pin_byte_offset p) + pin_bytes p \<le> length img \<and> 1 \<le> pin_bytes p \<and>
     pin_bytes p \<le> 8 \<and> pin_bit_pos p < 8"

text \<open>What a pin of its width and type can hold of a value.\<close>

definition pin_clip :: "pin_cfg \<Rightarrow> u64 \<Rightarrow> u64" where
  "pin_clip p v =
     (case pin_hal_type p of
        HalBit \<Rightarrow> of_bool (v \<noteq> 0)
      | HalU32 \<Rightarrow> take_bit (8 * pin_bytes p) v
      | HalS32 \<Rightarrow> sign_extend (take_bit (8 * pin_bytes p) v) (pin_bit_len p))"

lemma bit_of_byte:
  "ucast (drop_bit m (b OR push_bit m 1) AND 1 :: u8) = (1 :: u64)" if "m < 8" for b :: u8
proof -
  have "odd (drop_bit m (b OR push_bit m 1))"
    unfolding even_drop_bit_iff_not_bit using that by (simp add: bit_simps)
  then show ?thesis by (simp add: and_one_eq odd_iff_mod_2_eq_one)
qed

lemma no_bit_of_byte:
  "ucast (drop_bit m (b AND NOT (push_bit m 1)) AND 1 :: u8) = (0 :: u64)" if "m < 8" for b :: u8
proof -
  have "even (drop_bit m (b AND NOT (push_bit m 1)))"
    unfolding even_drop_bit_iff_not_bit using that by (simp add: bit_simps)
  then show ?thesis by (simp add: and_one_eq even_iff_mod_2_eq_zero)
qed

lemma read_write_value:
  assumes "pin_fits img p"
  shows "read_value (write_value img p v) p = pin_clip p v"
  using assms bit_of_byte no_bit_of_byte
  by (cases "pin_hal_type p")
    (auto simp: read_value_def write_value_def pin_clip_def pin_fits_def Let_def read_write_raw)

text \<open>Two pins with no byte in common.\<close>

definition pin_apart :: "pin_cfg \<Rightarrow> pin_cfg \<Rightarrow> bool" where
  "pin_apart p q \<longleftrightarrow> unat (pin_byte_offset p) + pin_bytes p \<le> unat (pin_byte_offset q) \<or>
     unat (pin_byte_offset q) + pin_bytes q \<le> unat (pin_byte_offset p)"

lemma write_value_nth:
  assumes "pin_fits img p" "i < length img"
    and "i < unat (pin_byte_offset p) \<or> unat (pin_byte_offset p) + pin_bytes p \<le> i"
  shows "write_value img p v ! i = img ! i"
  using assms
  by (cases "pin_hal_type p") (auto simp: write_value_def pin_fits_def Let_def write_raw_nth nth_list_update)

lemma read_value_cong:
  assumes "pin_fits img q" "length img' = length img"
    and "\<And>i. unat (pin_byte_offset q) \<le> i \<Longrightarrow> i < unat (pin_byte_offset q) + pin_bytes q \<Longrightarrow> img' ! i = img ! i"
  shows "read_value img' q = read_value img q"
  using assms read_raw_cong [of "pin_bytes q" img' img "unat (pin_byte_offset q)"]
  by (cases "pin_hal_type q") (auto simp: read_value_def pin_fits_def Let_def)

lemma write_value_apart:
  assumes "pin_fits img p" "pin_fits img q" "pin_apart p q"
  shows "read_value (write_value img p v) q = read_value img q"
  by (rule read_value_cong [OF assms(2)])
    (use assms in \<open>auto simp: pin_apart_def pin_fits_def intro!: write_value_nth\<close>)

text \<open>The pins of the generated bus fit the image and are byte-disjoint.\<close>

definition pins_fit :: "nat \<Rightarrow> pin_cfg list \<Rightarrow> bool" where
  "pins_fit n ps \<longleftrightarrow> list_all (\<lambda>p. unat (pin_byte_offset p) + pin_bytes p \<le> n \<and> 1 \<le> pin_bytes p \<and>
     pin_bytes p \<le> 8 \<and> pin_bit_pos p < 8) ps \<and> all_pairs pin_apart ps"

lemma BUS_pins_fit: "pins_fit 110 (bus_pins BUS)"
  by (simp add: pins_fit_def BUS_def PINS_def pin_row_def pin_apart_def pin_bytes_def)

lemma BUS_pin_fits: "p \<in> set (bus_pins BUS) \<Longrightarrow> 110 \<le> length img \<Longrightarrow> pin_fits img p"
  using BUS_pins_fit by (auto simp: pins_fit_def pin_fits_def list_all_iff)

lemma BUS_pins_apart:
  "i < length (bus_pins BUS) \<Longrightarrow> j < length (bus_pins BUS) \<Longrightarrow> i \<noteq> j \<Longrightarrow>
     pin_apart (bus_pins BUS ! i) (bus_pins BUS ! j)"
proof -
  assume ij: "i < length (bus_pins BUS)" "j < length (bus_pins BUS)" "i \<noteq> j"
  have a: "all_pairs pin_apart (bus_pins BUS)" using BUS_pins_fit by (simp add: pins_fit_def)
  show ?thesis
  proof (cases "i < j")
    case True
    then show ?thesis using all_pairs_nth [OF a] ij by simp
  next
    case False
    then have "pin_apart (bus_pins BUS ! j) (bus_pins BUS ! i)" using all_pairs_nth [OF a] ij by simp
    then show ?thesis by (auto simp: pin_apart_def)
  qed
qed

end
