(* ===== verification/Cia402.thy ===== *)
theory Cia402
  imports Hal
begin

text \<open>
  The CiA 402 drive layer, \<^verbatim>\<open>src/ethercat/cia402.rs\<close>: discovery of the drives among the pins, and
  the controlword computed each cycle from the statusword and the host's intent. The lemmas
  bound what is ever commanded (no enable without intent, without a fault or during a
  quick stop), give the fault-reset edge, and prove that a drive that follows the
  state machine of the profile reaches Operation Enabled, or Switched On.
\<close>

unbundle bit_operations_syntax

section \<open>The code\<close>

definition SW_FAULT :: u16 where "SW_FAULT = 0x0008"
definition SW_STATE_MASK :: u16 where "SW_STATE_MASK = 0x006F"
definition SW_SWITCH_ON_DISABLED :: u16 where "SW_SWITCH_ON_DISABLED = 0x0040"
definition SW_READY_TO_SWITCH_ON :: u16 where "SW_READY_TO_SWITCH_ON = 0x0021"
definition SW_SWITCHED_ON :: u16 where "SW_SWITCHED_ON = 0x0023"
definition SW_OPERATION_ENABLED :: u16 where "SW_OPERATION_ENABLED = 0x0027"
definition CW_SHUTDOWN :: u16 where "CW_SHUTDOWN = 0x0006"
definition CW_SWITCH_ON :: u16 where "CW_SWITCH_ON = 0x0007"
definition CW_ENABLE_OP :: u16 where "CW_ENABLE_OP = 0x000F"
definition CW_QUICK_STOP :: u16 where "CW_QUICK_STOP = 0x0002"
definition CW_FAULT_RESET :: u16 where "CW_FAULT_RESET = 0x0080"
definition CW_DISABLE_VOLTAGE :: u16 where "CW_DISABLE_VOLTAGE = 0x0000"

lemmas cia402_words = SW_FAULT_def SW_STATE_MASK_def SW_SWITCH_ON_DISABLED_def SW_READY_TO_SWITCH_ON_def
  SW_SWITCHED_ON_def SW_OPERATION_ENABLED_def CW_SHUTDOWN_def CW_SWITCH_ON_def CW_ENABLE_OP_def
  CW_QUICK_STOP_def CW_FAULT_RESET_def CW_DISABLE_VOLTAGE_def

record drive_command =
  dc_enable :: bool
  dc_fault_reset :: bool
  dc_quick_stop :: bool

record binding =
  bd_cw :: pin_cfg
  bd_sw :: pin_cfg
  bd_fr_high :: bool

type_synonym cia402 = "binding list"

definition strip_suffix :: "string \<Rightarrow> string \<Rightarrow> string option" where
  "strip_suffix s suf =
     (if length suf \<le> length s \<and> drop (length s - length suf) s = suf
      then Some (take (length s - length suf) s) else None)"

text \<open>The inner loop: the first input pin with the prefix and \<^verbatim>\<open>-statusword\<close>.\<close>

definition find_status :: "pin_cfg list \<Rightarrow> string \<Rightarrow> pin_cfg option" where
  "find_status pins prefix =
     find (\<lambda>sw. \<not> is_output sw \<and> strip_suffix (pin_name sw) ''-statusword'' = Some prefix) pins"

fun cia402_discover :: "pin_cfg list \<Rightarrow> pin_cfg list \<Rightarrow> cia402 \<Rightarrow> cia402" where
  "cia402_discover pins [] ds = ds"
| "cia402_discover pins (cw # rest) ds =
     (if \<not> is_output cw then cia402_discover pins rest ds
      else case strip_suffix (pin_name cw) ''-controlword'' of
             None \<Rightarrow> cia402_discover pins rest ds
           | Some prefix \<Rightarrow>
               (case find_status pins prefix of
                  None \<Rightarrow> cia402_discover pins rest ds
                | Some sw \<Rightarrow>
                    cia402_discover pins rest
                      (push_drop EC_MAX_SLAVES ds \<lparr>bd_cw = cw, bd_sw = sw, bd_fr_high = False\<rparr>)))"

definition cia402_new :: cia402 where
  "cia402_new = cia402_discover (bus_pins BUS) (bus_pins BUS) []"

definition has_drives :: "cia402 \<Rightarrow> bool" where "has_drives ds \<longleftrightarrow> ds \<noteq> []"

definition any_fault :: "cia402 \<Rightarrow> bytes \<Rightarrow> bool" where
  "any_fault ds img \<longleftrightarrow> list_ex (\<lambda>d. (ucast (read_value img (bd_sw d)) :: u16) AND SW_FAULT \<noteq> 0) ds"

definition next_controlword :: "u16 \<Rightarrow> drive_command \<Rightarrow> bool \<Rightarrow> u16 \<times> bool" where
  "next_controlword sw cmd fr_high =
     (let state = sw AND SW_STATE_MASK
      in if sw AND SW_FAULT \<noteq> 0 then
           if dc_fault_reset cmd then
             let fr_high = \<not> fr_high
             in (if fr_high then CW_FAULT_RESET else CW_DISABLE_VOLTAGE, fr_high)
           else (CW_DISABLE_VOLTAGE, False)
         else
           (if dc_quick_stop cmd \<and> state = SW_OPERATION_ENABLED then CW_QUICK_STOP
            else if state = SW_SWITCH_ON_DISABLED then CW_SHUTDOWN
            else if state = SW_READY_TO_SWITCH_ON then
              (if dc_enable cmd \<and> \<not> dc_quick_stop cmd then CW_SWITCH_ON else CW_SHUTDOWN)
            else if state = SW_SWITCHED_ON then
              (if dc_enable cmd \<and> \<not> dc_quick_stop cmd then CW_ENABLE_OP else CW_SWITCH_ON)
            else if state = SW_OPERATION_ENABLED then
              (if dc_enable cmd \<and> \<not> dc_quick_stop cmd then CW_ENABLE_OP else CW_SWITCH_ON)
            else CW_SHUTDOWN, False))"

text \<open>One drive of the loop of \<^verbatim>\<open>step\<close>.\<close>

definition drive_step :: "drive_command \<Rightarrow> binding \<Rightarrow> bytes \<Rightarrow> binding \<times> bytes" where
  "drive_step cmd d img =
     (let sw = ucast (read_value img (bd_sw d)) :: u16;
          (cw, fr) = next_controlword sw cmd (bd_fr_high d)
      in (d\<lparr>bd_fr_high := fr\<rparr>, write_value img (bd_cw d) (ucast cw)))"

fun cia402_step :: "cia402 \<Rightarrow> bytes \<Rightarrow> drive_command \<Rightarrow> cia402 \<times> bytes" where
  "cia402_step [] img cmd = ([], img)"
| "cia402_step (d # ds) img cmd =
     (let (d, img) = drive_step cmd d img;
          (ds, img) = cia402_step ds img cmd
      in (d # ds, img))"

section \<open>What is commanded\<close>

abbreviation command_word :: "u16 \<Rightarrow> drive_command \<Rightarrow> bool \<Rightarrow> u16" where
  "command_word sw cmd fr \<equiv> fst (next_controlword sw cmd fr)"

lemma no_fault_state:
  "sw AND SW_STATE_MASK = s \<Longrightarrow> s AND SW_FAULT = 0 \<Longrightarrow> sw AND SW_FAULT = 0"
proof -
  assume s: "sw AND SW_STATE_MASK = s" "s AND SW_FAULT = 0"
  have "SW_FAULT = SW_STATE_MASK AND SW_FAULT" by (simp add: cia402_words)
  then have "sw AND SW_FAULT = (sw AND SW_STATE_MASK) AND SW_FAULT" by (simp add: and.assoc)
  then show ?thesis using s by simp
qed

lemma states_no_fault [simp]:
  "SW_SWITCH_ON_DISABLED AND SW_FAULT = 0" "SW_READY_TO_SWITCH_ON AND SW_FAULT = 0"
  "SW_SWITCHED_ON AND SW_FAULT = 0" "SW_OPERATION_ENABLED AND SW_FAULT = 0"
  by (simp_all add: cia402_words)

text \<open>Operation is enabled only on the host's intent, without a fault and without a quick stop,
  and only from Switched On or Operation Enabled.\<close>

lemma enable_only_on_intent:
  "command_word sw cmd fr = CW_ENABLE_OP \<longleftrightarrow>
     dc_enable cmd \<and> \<not> dc_quick_stop cmd \<and> sw AND SW_FAULT = 0 \<and>
     (sw AND SW_STATE_MASK = SW_SWITCHED_ON \<or> sw AND SW_STATE_MASK = SW_OPERATION_ENABLED)"
  by (auto simp: next_controlword_def Let_def cia402_words)

lemma quick_stop_commanded:
  "command_word sw cmd fr = CW_QUICK_STOP \<longleftrightarrow>
     dc_quick_stop cmd \<and> sw AND SW_FAULT = 0 \<and> sw AND SW_STATE_MASK = SW_OPERATION_ENABLED"
  by (auto simp: next_controlword_def Let_def cia402_words)

lemma faulted_command:
  assumes "sw AND SW_FAULT \<noteq> 0"
  shows "next_controlword sw cmd fr =
    (if dc_fault_reset cmd then (if fr then (CW_DISABLE_VOLTAGE, False) else (CW_FAULT_RESET, True))
     else (CW_DISABLE_VOLTAGE, False))"
  using assms by (simp add: next_controlword_def)

text \<open>While a fault persists and a reset is requested, bit 7 rises on every second tick.\<close>

fun faulted_run :: "u16 \<Rightarrow> drive_command \<Rightarrow> nat \<Rightarrow> bool \<Rightarrow> u16 list" where
  "faulted_run sw cmd 0 fr = []"
| "faulted_run sw cmd (Suc n) fr =
     (let (cw, fr) = next_controlword sw cmd fr in cw # faulted_run sw cmd n fr)"

lemma faulted_run_edges:
  assumes "sw AND SW_FAULT \<noteq> 0" "dc_fault_reset cmd"
  shows "faulted_run sw cmd n fr =
    map (\<lambda>i. if even i = fr then CW_DISABLE_VOLTAGE else CW_FAULT_RESET) [0..<n]"
proof (induction n arbitrary: fr)
  case 0
  then show ?case by simp
next
  case (Suc n)
  have "[0..<Suc n] = 0 # map Suc [0..<n]" by (metis map_Suc_upt upt_conv_Cons zero_less_Suc)
  then show ?case
    using Suc [of "\<not> fr"] by (simp add: faulted_command [OF assms(1)] assms(2)) (auto simp: comp_def)
qed

section \<open>Drives that follow the profile\<close>

text \<open>
  A drive without a fault: \<open>react\<close> maps its state and the controlword to the state it shows in the
  next cycle. The profile's transitions for the command words used here are the hypotheses.
\<close>

definition follows_profile :: "(u16 \<Rightarrow> u16 \<Rightarrow> u16) \<Rightarrow> bool" where
  "follows_profile react \<longleftrightarrow>
     react SW_SWITCH_ON_DISABLED CW_SHUTDOWN = SW_READY_TO_SWITCH_ON \<and>
     react SW_READY_TO_SWITCH_ON CW_SWITCH_ON = SW_SWITCHED_ON \<and>
     react SW_READY_TO_SWITCH_ON CW_SHUTDOWN = SW_READY_TO_SWITCH_ON \<and>
     react SW_SWITCHED_ON CW_ENABLE_OP = SW_OPERATION_ENABLED \<and>
     react SW_SWITCHED_ON CW_SWITCH_ON = SW_SWITCHED_ON \<and>
     react SW_OPERATION_ENABLED CW_ENABLE_OP = SW_OPERATION_ENABLED \<and>
     react SW_OPERATION_ENABLED CW_SWITCH_ON = SW_SWITCHED_ON"

fun drive_run :: "(u16 \<Rightarrow> u16 \<Rightarrow> u16) \<Rightarrow> drive_command \<Rightarrow> nat \<Rightarrow> u16 \<times> bool \<Rightarrow> u16 \<times> bool" where
  "drive_run react cmd 0 s = s"
| "drive_run react cmd (Suc n) (sw, fr) =
     (let (cw, fr) = next_controlword sw cmd fr in drive_run react cmd n (react sw cw, fr))"

lemma next_controlword_states:
  "next_controlword SW_SWITCH_ON_DISABLED cmd fr = (CW_SHUTDOWN, False)"
  "next_controlword SW_READY_TO_SWITCH_ON cmd fr =
     (if dc_enable cmd \<and> \<not> dc_quick_stop cmd then CW_SWITCH_ON else CW_SHUTDOWN, False)"
  "next_controlword SW_SWITCHED_ON cmd fr =
     (if dc_enable cmd \<and> \<not> dc_quick_stop cmd then CW_ENABLE_OP else CW_SWITCH_ON, False)"
  "next_controlword SW_OPERATION_ENABLED cmd fr =
     (if dc_quick_stop cmd then CW_QUICK_STOP
      else if dc_enable cmd then CW_ENABLE_OP else CW_SWITCH_ON, False)"
  by (simp_all add: next_controlword_def Let_def cia402_words)

lemma enabled_stays:
  assumes "follows_profile react" "dc_enable cmd" "\<not> dc_quick_stop cmd"
  shows "fst (drive_run react cmd n (SW_OPERATION_ENABLED, fr)) = SW_OPERATION_ENABLED"
  using assms by (induction n arbitrary: fr) (simp_all add: next_controlword_states follows_profile_def)

lemma reaches_operation:
  assumes "follows_profile react" "dc_enable cmd" "\<not> dc_quick_stop cmd" "3 \<le> n"
  shows "fst (drive_run react cmd n (SW_SWITCH_ON_DISABLED, fr)) = SW_OPERATION_ENABLED"
proof -
  obtain m where n: "n = Suc (Suc (Suc m))" using assms(4) by (metis add_2_eq_Suc' le_Suc_ex numeral_3_eq_3 add_Suc_right add_Suc)
  have "fst (drive_run react cmd n (SW_SWITCH_ON_DISABLED, fr)) =
      fst (drive_run react cmd m (SW_OPERATION_ENABLED, False))"
    using assms(1-3) by (simp add: n next_controlword_states follows_profile_def)
  then show ?thesis using enabled_stays [OF assms(1-3)] by simp
qed

section \<open>The bus\<close>

lemma cia402_BUS:
  "map (\<lambda>d. (pin_name (bd_cw d), pin_name (bd_sw d), bd_fr_high d)) cia402_new =
     [(''drive0-controlword'', ''drive0-statusword'', False), (''drive1-controlword'', ''drive1-statusword'', False)]"
  by code_simp

lemma cia402_BUS_pins:
  "list_all (\<lambda>d. bd_cw d \<in> set (bus_pins BUS) \<and> bd_sw d \<in> set (bus_pins BUS) \<and>
     is_output (bd_cw d) \<and> \<not> is_output (bd_sw d) \<and> pin_hal_type (bd_cw d) = HalU32 \<and> pin_bytes (bd_cw d) = 2) cia402_new"
  by code_simp

section \<open>A step over the image\<close>

definition drives_wf :: "nat \<Rightarrow> cia402 \<Rightarrow> bool" where
  "drives_wf n ds \<longleftrightarrow>
     list_all (\<lambda>d. pin_fits (replicate n 0) (bd_cw d) \<and> pin_fits (replicate n 0) (bd_sw d) \<and>
       pin_hal_type (bd_cw d) = HalU32 \<and> pin_bytes (bd_cw d) = 2) ds \<and>
     all_pairs (\<lambda>d e. pin_apart (bd_cw d) (bd_cw e)) ds \<and>
     list_all (\<lambda>d. list_all (\<lambda>e. pin_apart (bd_cw d) (bd_sw e)) ds) ds"

lemma pin_fits_length: "length a = length b \<Longrightarrow> pin_fits a p = pin_fits b p"
  by (simp add: pin_fits_def)

lemma length_drive_step [simp]: "length (snd (drive_step cmd d img)) = length img"
  by (simp add: drive_step_def Let_def split: prod.split)

lemma length_cia402_step [simp]: "length (snd (cia402_step ds img cmd)) = length img"
  by (induction ds arbitrary: img) (simp_all add: Let_def split: prod.split, metis length_drive_step snd_conv)

text \<open>A step changes nothing but the controlwords.\<close>

lemma cia402_step_apart:
  assumes "pin_fits img q" "\<forall>d\<in>set ds. pin_fits img (bd_cw d) \<and> pin_apart (bd_cw d) q"
  shows "read_value (snd (cia402_step ds img cmd)) q = read_value img q"
  using assms
proof (induction ds arbitrary: img)
  case Nil
  then show ?case by simp
next
  case (Cons d ds)
  let ?img = "snd (drive_step cmd d img)"
  have l: "length ?img = length img" by simp
  have "snd (cia402_step (d # ds) img cmd) = snd (cia402_step ds ?img cmd)"
    by (simp add: Let_def split: prod.split)
  moreover have "read_value ?img q = read_value img q"
    using Cons.prems write_value_apart [of img "bd_cw d" q]
    by (simp add: drive_step_def Let_def split: prod.split)
  ultimately show ?case using Cons.IH [of ?img] Cons.prems pin_fits_length [OF l] by simp
qed

lemma cia402_step_nth:
  assumes "i < length img"
    and "\<forall>d\<in>set ds. pin_fits img (bd_cw d) \<and>
      (i < unat (pin_byte_offset (bd_cw d)) \<or> unat (pin_byte_offset (bd_cw d)) + pin_bytes (bd_cw d) \<le> i)"
  shows "snd (cia402_step ds img cmd) ! i = img ! i"
  using assms
proof (induction ds arbitrary: img)
  case Nil
  then show ?case by simp
next
  case (Cons d ds)
  let ?img = "snd (drive_step cmd d img)"
  have l: "length ?img = length img" by simp
  have "snd (cia402_step (d # ds) img cmd) = snd (cia402_step ds ?img cmd)"
    by (simp add: Let_def split: prod.split)
  moreover have "?img ! i = img ! i"
    using Cons.prems write_value_nth [of img "bd_cw d" i]
    by (simp add: drive_step_def Let_def split: prod.split)
  ultimately show ?case using Cons.IH [of ?img] Cons.prems pin_fits_length [OF l] by simp
qed

lemma take_bit_ucast_16: "take_bit 16 (ucast (w :: u16) :: u64) = ucast w"
  by (rule bit_word_eqI) (auto simp: bit_simps dest: bit_imp_le_length)

text \<open>Every drive gets the controlword of its own statusword.\<close>

lemma cia402_step_commands:
  assumes "drives_wf (length img) ds" "i < length ds"
  shows "read_value (snd (cia402_step ds img cmd)) (bd_cw (ds ! i)) =
    ucast (command_word (ucast (read_value img (bd_sw (ds ! i)))) cmd (bd_fr_high (ds ! i)))"
  using assms
proof (induction ds arbitrary: img i)
  case Nil
  then show ?case by simp
next
  case (Cons d ds)
  let ?img = "snd (drive_step cmd d img)"
  have l: "length ?img = length img" by simp
  have rest: "snd (cia402_step (d # ds) img cmd) = snd (cia402_step ds ?img cmd)"
    by (simp add: Let_def split: prod.split)
  have fits: "pin_fits img p" if "pin_fits (replicate (length img) 0) p" for p
    using that by (simp add: pin_fits_def)
  have d: "pin_fits img (bd_cw d)" "pin_hal_type (bd_cw d) = HalU32" "pin_bytes (bd_cw d) = 2"
    using Cons.prems(1) fits by (auto simp: drives_wf_def)
  have apart: "pin_apart (bd_cw d) (bd_cw e)" "pin_apart (bd_cw d) (bd_sw e)" "pin_fits img (bd_cw e)"
      "pin_fits img (bd_sw e)" if "e \<in> set ds" for e
    using Cons.prems(1) that fits by (auto simp: drives_wf_def list_all_iff)
  have wf: "drives_wf (length ?img) ds" using Cons.prems(1) by (auto simp: drives_wf_def list_all_iff)
  show ?case
  proof (cases i)
    case 0
    have "read_value (snd (cia402_step ds ?img cmd)) (bd_cw d) = read_value ?img (bd_cw d)"
      by (rule cia402_step_apart)
        (use d apart pin_fits_length [OF l] in \<open>auto simp: pin_apart_def\<close>)
    also have "\<dots> = ucast (command_word (ucast (read_value img (bd_sw d))) cmd (bd_fr_high d))"
      using read_write_value [OF d(1)] d(2,3)
      by (simp add: drive_step_def Let_def pin_clip_def take_bit_ucast_16 split: prod.split)
    finally show ?thesis using 0 rest by simp
  next
    case (Suc j)
    then have j: "j < length ds" using Cons.prems(2) by simp
    have "read_value ?img (bd_sw (ds ! j)) = read_value img (bd_sw (ds ! j))"
      using write_value_apart [OF d(1)] apart [OF nth_mem [OF j]]
      by (simp add: drive_step_def Let_def split: prod.split)
    then show ?thesis using Cons.IH [OF wf j] Suc rest by simp
  qed
qed

lemma cia402_BUS_wf: "drives_wf 110 cia402_new"
  by code_simp

end
