(* ===== verification/Motion.thy ===== *)
theory Motion
  imports Prelude
begin

text \<open>
  The motion look-ahead ring, \<^verbatim>\<open>src/hal/motion_buffer.rs\<close>. Its abstraction is a queue of tagged
  samples (\<open>ring_queue\<close>); pushing appends, popping drops the samples whose cycle has passed and takes
  the one of the current cycle. The locale \<open>sample_stream\<close> is the contract the host bridge relies
  on, with its consequence: consecutively tagged samples come out on their cycles, in order.
\<close>

unbundle bit_operations_syntax

section \<open>The code\<close>

definition MOTION_RING_DEPTH :: nat where [simp]: "MOTION_RING_DEPTH = 32"
definition MOTION_SAMPLE_MAX :: nat where [simp]: "MOTION_SAMPLE_MAX = 64"

record motion_ring =
  mr_data :: "bytes list"
  mr_tag :: "u32 list"
  mr_head :: nat
  mr_len :: nat
  mr_sample_len :: nat
  mr_underrun :: bool
  mr_started :: bool

definition motion_new :: "nat \<Rightarrow> motion_ring" where
  "motion_new sample_len =
     \<lparr>mr_data = replicate MOTION_RING_DEPTH (replicate MOTION_SAMPLE_MAX 0),
      mr_tag = replicate MOTION_RING_DEPTH 0, mr_head = 0, mr_len = 0,
      mr_sample_len = (if sample_len > MOTION_SAMPLE_MAX then MOTION_SAMPLE_MAX else sample_len),
      mr_underrun = False, mr_started = False\<rparr>"

definition motion_active :: "motion_ring \<Rightarrow> bool" where
  "motion_active r \<longleftrightarrow> mr_sample_len r > 0"

text \<open>\<^verbatim>\<open>(b.wrapping_sub(a) as i32) > 0\<close>\<close>

definition cycle_before :: "u32 \<Rightarrow> u32 \<Rightarrow> bool" where
  "cycle_before a b \<longleftrightarrow> sint (b - a) > 0"

definition motion_push :: "motion_ring \<Rightarrow> u32 \<Rightarrow> bytes \<Rightarrow> (motion_ring \<times> bool) option" where
  "motion_push r tag payload =
     (if mr_len r \<ge> MOTION_RING_DEPTH then Some (r, False)
      else do {
        let slot = (mr_head r + mr_len r) mod MOTION_RING_DEPTH;
        let n = min (mr_sample_len r) (length payload);
        row \<leftarrow> idx (mr_data r) slot;
        src \<leftarrow> slice payload 0 n;
        row \<leftarrow> copy_at row 0 n src;
        row \<leftarrow> copy_at row n (mr_sample_len r) (replicate (mr_sample_len r - n) 0);
        rows \<leftarrow> put (mr_data r) slot row;
        tags \<leftarrow> put (mr_tag r) slot tag;
        Some (r\<lparr>mr_data := rows, mr_tag := tags, mr_len := mr_len r + 1, mr_started := True\<rparr>, True) })"

definition motion_advance :: "motion_ring \<Rightarrow> motion_ring" where
  "motion_advance r =
     r\<lparr>mr_head := (mr_head r + 1) mod MOTION_RING_DEPTH, mr_len := mr_len r - 1\<rparr>"

text \<open>\<^verbatim>\<open>while self.len > 0 && cycle_before(self.tag[self.head], current)\<close>\<close>

function motion_drop :: "motion_ring \<Rightarrow> u32 \<Rightarrow> motion_ring option" where
  "motion_drop r current =
     (if mr_len r > 0 then do {
        tag \<leftarrow> idx (mr_tag r) (mr_head r);
        if cycle_before tag current then motion_drop (motion_advance r) current else Some r }
      else Some r)"
  by pat_completeness auto
termination
  by (relation "measure (\<lambda>(r, current). mr_len r)") (auto simp: motion_advance_def)

declare motion_drop.simps [simp del]

definition motion_pop :: "motion_ring \<Rightarrow> u32 \<Rightarrow> (motion_ring \<times> nat option) option" where
  "motion_pop r current = do {
     r \<leftarrow> motion_drop r current;
     due \<leftarrow> (if mr_len r > 0
              then do { tag \<leftarrow> idx (mr_tag r) (mr_head r); Some (tag = current) }
              else Some False);
     if due then Some ((motion_advance r)\<lparr>mr_underrun := False\<rparr>, Some (mr_head r))
     else Some (r\<lparr>mr_underrun := mr_started r \<and> mr_len r = 0\<rparr>, None) }"

definition motion_payload :: "motion_ring \<Rightarrow> nat \<Rightarrow> bytes option" where
  "motion_payload r slot = do {
     row \<leftarrow> idx (mr_data r) slot;
     slice row 0 (mr_sample_len r) }"

text \<open>The two calls of the bridge: pop, then the payload of the slot.\<close>

definition motion_pull :: "motion_ring \<Rightarrow> u32 \<Rightarrow> (motion_ring \<times> bytes option) option" where
  "motion_pull r current = do {
     (r, slot) \<leftarrow> motion_pop r current;
     case slot of
       None \<Rightarrow> Some (r, None)
     | Some slot \<Rightarrow> do { p \<leftarrow> motion_payload r slot; Some (r, Some p) } }"

section \<open>The queue a ring stands for\<close>

definition motion_wf :: "motion_ring \<Rightarrow> bool" where
  "motion_wf r \<longleftrightarrow>
     length (mr_data r) = 32 \<and> (\<forall>row\<in>set (mr_data r). length row = 64) \<and> length (mr_tag r) = 32 \<and>
     mr_head r < 32 \<and> mr_len r \<le> 32 \<and> mr_sample_len r \<le> 64"

definition slot_sample :: "motion_ring \<Rightarrow> nat \<Rightarrow> u32 \<times> bytes" where
  "slot_sample r s = (mr_tag r ! s, take (mr_sample_len r) (mr_data r ! s))"

definition ring_queue :: "motion_ring \<Rightarrow> (u32 \<times> bytes) list" where
  "ring_queue r = map (\<lambda>i. slot_sample r ((mr_head r + i) mod 32)) [0..<mr_len r]"

definition fit_sample :: "nat \<Rightarrow> bytes \<Rightarrow> bytes" where
  "fit_sample n p = take n p @ replicate (n - length p) 0"

text \<open>The queue operations the ring implements.\<close>

definition passed :: "u32 \<Rightarrow> (u32 \<times> bytes) list \<Rightarrow> (u32 \<times> bytes) list" where
  "passed current = dropWhile (\<lambda>(t, p). cycle_before t current)"

definition queue_pull :: "u32 \<Rightarrow> (u32 \<times> bytes) list \<Rightarrow> (u32 \<times> bytes) list \<times> bytes option" where
  "queue_pull current q =
     (case passed current q of
        [] \<Rightarrow> ([], None)
      | (t, p) # rest \<Rightarrow> if t = current then (rest, Some p) else ((t, p) # rest, None))"

lemma cycle_before_irrefl [simp]: "\<not> cycle_before c c"
  by (simp add: cycle_before_def)

lemma length_ring_queue [simp]: "length (ring_queue r) = mr_len r"
  by (simp add: ring_queue_def)

lemma motion_new_wf: "motion_wf (motion_new n)"
  by (simp add: motion_wf_def motion_new_def)

lemma motion_new_queue: "ring_queue (motion_new n) = []"
  by (simp add: ring_queue_def motion_new_def)

lemma ring_queue_Cons:
  assumes "0 < mr_len r"
  shows "ring_queue r = slot_sample r (mr_head r mod 32) # ring_queue (motion_advance r)"
proof (rule nth_equalityI)
  show "length (ring_queue r) = length (slot_sample r (mr_head r mod 32) # ring_queue (motion_advance r))"
    using assms by (simp add: motion_advance_def)
next
  fix i assume "i < length (ring_queue r)"
  then show "ring_queue r ! i = (slot_sample r (mr_head r mod 32) # ring_queue (motion_advance r)) ! i"
    by (cases i) (auto simp: ring_queue_def motion_advance_def slot_sample_def mod_simps add.commute)
qed

lemma motion_advance_wf: "motion_wf r \<Longrightarrow> motion_wf (motion_advance r)"
  by (auto simp: motion_wf_def motion_advance_def)

lemma motion_advance_fields [simp]:
  "mr_data (motion_advance r) = mr_data r" "mr_tag (motion_advance r) = mr_tag r"
  "mr_sample_len (motion_advance r) = mr_sample_len r" "mr_started (motion_advance r) = mr_started r"
  by (simp_all add: motion_advance_def)

lemma ring_queue_flags [simp]:
  "ring_queue (r\<lparr>mr_underrun := u\<rparr>) = ring_queue r" "motion_wf (r\<lparr>mr_underrun := u\<rparr>) = motion_wf r"
  "motion_payload (r\<lparr>mr_underrun := u\<rparr>) s = motion_payload r s"
  by (simp_all add: ring_queue_def slot_sample_def motion_wf_def motion_payload_def)

lemma motion_push_queue:
  assumes wf: "motion_wf r"
  shows "\<exists>r'. motion_push r tag p = Some (r', length (ring_queue r) < 32) \<and> motion_wf r' \<and>
    mr_sample_len r' = mr_sample_len r \<and>
    ring_queue r' = (if length (ring_queue r) < 32 then ring_queue r @ [(tag, fit_sample (mr_sample_len r) p)] else ring_queue r)"
proof (cases "mr_len r \<ge> 32")
  case True
  then show ?thesis using wf by (simp add: motion_push_def)
next
  case False
  let ?s = "(mr_head r + mr_len r) mod 32"
  let ?n = "mr_sample_len r"
  let ?k = "min ?n (length p)"
  have w: "length (mr_data r) = 32" "length (mr_tag r) = 32" "mr_head r < 32" "?n \<le> 64"
    using wf by (auto simp: motion_wf_def)
  have row: "length (mr_data r ! ?s) = 64" using wf by (simp add: motion_wf_def)
  let ?row = "fit_sample ?n p @ drop ?n (mr_data r ! ?s)"
  have c1: "copy_at (mr_data r ! ?s) 0 ?k (take ?k p) = Some (take ?k p @ drop ?k (mr_data r ! ?s))"
    using row w(4) by (simp add: copy_at_def)
  have c2: "copy_at (take ?k p @ drop ?k (mr_data r ! ?s)) ?k ?n (replicate (?n - ?k) 0) = Some ?row"
    using row w(4) by (auto simp: copy_at_def fit_sample_def min_def)
  let ?r = "r\<lparr>mr_data := (mr_data r)[?s := ?row], mr_tag := (mr_tag r)[?s := tag], mr_len := mr_len r + 1,
              mr_started := True\<rparr>"
  have push: "motion_push r tag p = Some (?r, True)"
    using False w c1 c2 by (simp add: motion_push_def idx_def put_def Let_def)
  have l: "length ?row = 64" using row w(4) by (simp add: fit_sample_def)
  have wf': "motion_wf ?r"
    using wf False l by (auto simp: motion_wf_def dest!: set_update_subset_insert [THEN subsetD])
  have other: "(mr_head r + i) mod 32 \<noteq> ?s" if "i < mr_len r" for i
  proof
    assume "(mr_head r + i) mod 32 = ?s"
    then have "32 dvd mr_len r - i" using that mod_eq_dvd_iff_nat [of "mr_head r + i" "mr_head r + mr_len r" 32]
      by simp
    then show False using that False by (auto dest: dvd_imp_le)
  qed
  have "ring_queue ?r = map (\<lambda>i. slot_sample ?r ((mr_head r + i) mod 32)) [0..<mr_len r] @ [slot_sample ?r ?s]"
    by (simp add: ring_queue_def)
  also have "map (\<lambda>i. slot_sample ?r ((mr_head r + i) mod 32)) [0..<mr_len r] = ring_queue r"
    using other [symmetric] by (auto simp: ring_queue_def slot_sample_def)
  also have "slot_sample ?r ?s = (tag, fit_sample ?n p)"
    using w by (simp add: slot_sample_def fit_sample_def)
  finally show ?thesis using push wf' False by simp
qed

lemma motion_drop_queue:
  assumes "motion_wf r"
  shows "\<exists>r'. motion_drop r current = Some r' \<and> motion_wf r' \<and> ring_queue r' = passed current (ring_queue r) \<and>
    mr_sample_len r' = mr_sample_len r \<and> mr_started r' = mr_started r"
  using assms
proof (induction r current rule: motion_drop.induct)
  case (1 r current)
  show ?case
  proof (cases "0 < mr_len r")
    case False
    then have "ring_queue r = []" by (simp add: ring_queue_def)
    then show ?thesis using False "1.prems" by (simp add: motion_drop.simps [of r] passed_def)
  next
    case True
    let ?t = "mr_tag r ! mr_head r"
    have i: "idx (mr_tag r) (mr_head r) = Some ?t" and h: "mr_head r mod 32 = mr_head r"
      using "1.prems" by (auto simp: idx_def motion_wf_def)
    have q: "ring_queue r = slot_sample r (mr_head r) # ring_queue (motion_advance r)"
      using ring_queue_Cons [OF True] h by simp
    show ?thesis
    proof (cases "cycle_before ?t current")
      case True
      then show ?thesis
        using "1.IH" [OF \<open>0 < mr_len r\<close> i True] motion_advance_wf [OF "1.prems"] \<open>0 < mr_len r\<close> i q
        by (simp add: motion_drop.simps [of r] passed_def slot_sample_def)
    next
      case False
      then show ?thesis
        using \<open>0 < mr_len r\<close> i q "1.prems"
        by (simp add: motion_drop.simps [of r] passed_def slot_sample_def)
    qed
  qed
qed

lemma motion_pop_queue:
  assumes wf: "motion_wf r"
  obtains r' slot where "motion_pop r current = Some (r', slot)" "motion_wf r'"
    "mr_sample_len r' = mr_sample_len r" "mr_started r' = mr_started r"
    "ring_queue r' = fst (queue_pull current (ring_queue r))"
    "case slot of None \<Rightarrow> snd (queue_pull current (ring_queue r)) = None
       | Some s \<Rightarrow> \<exists>p. snd (queue_pull current (ring_queue r)) = Some p \<and> motion_payload r' s = Some p"
    "mr_underrun r' \<longleftrightarrow> mr_started r \<and> passed current (ring_queue r) = []"
proof -
  obtain r1 where d: "motion_drop r current = Some r1" "motion_wf r1"
      "ring_queue r1 = passed current (ring_queue r)" "mr_sample_len r1 = mr_sample_len r"
      "mr_started r1 = mr_started r"
    using motion_drop_queue [OF wf] by blast
  let ?t = "mr_tag r1 ! mr_head r1"
  have i: "idx (mr_tag r1) (mr_head r1) = Some ?t" and h: "mr_head r1 mod 32 = mr_head r1"
    using d(2) by (auto simp: idx_def motion_wf_def)
  show thesis
  proof (cases "0 < mr_len r1 \<and> ?t = current")
    case True
    let ?r = "(motion_advance r1)\<lparr>mr_underrun := False\<rparr>"
    have q: "passed current (ring_queue r) = slot_sample r1 (mr_head r1) # ring_queue (motion_advance r1)"
      using ring_queue_Cons [of r1] True h d(3) by simp
    have p: "motion_payload ?r (mr_head r1) = Some (take (mr_sample_len r1) (mr_data r1 ! mr_head r1))"
      using d(2) by (auto simp: motion_payload_def idx_def slice_def motion_wf_def motion_advance_def)
    have "motion_pop r current = Some (?r, Some (mr_head r1))"
      using True d i by (simp add: motion_pop_def)
    then show thesis
      by (rule that) (use True d q p motion_advance_wf in \<open>simp_all add: queue_pull_def slot_sample_def\<close>)
  next
    case False
    let ?r = "r1\<lparr>mr_underrun := mr_started r1 \<and> mr_len r1 = 0\<rparr>"
    have none: "queue_pull current (ring_queue r) = (ring_queue r1, None)"
    proof (cases "0 < mr_len r1")
      case True
      then show ?thesis
        using False ring_queue_Cons [OF True] h
        by (simp add: queue_pull_def d(3) [symmetric] slot_sample_def)
    next
      case False
      then show ?thesis using d(3) by (simp add: queue_pull_def ring_queue_def)
    qed
    have "mr_len r1 = 0 \<longleftrightarrow> passed current (ring_queue r) = []"
      using d(3) length_ring_queue [of r1] by (metis length_0_conv)
    moreover have "motion_pop r current = Some (?r, None)"
      using False d i by (auto simp: motion_pop_def)
    ultimately show thesis using that [of ?r None] d none by simp
  qed
qed

lemma motion_pull_queue:
  assumes "motion_wf r"
  shows "\<exists>r'. motion_pull r current = Some (r', snd (queue_pull current (ring_queue r))) \<and> motion_wf r' \<and>
    mr_sample_len r' = mr_sample_len r \<and> ring_queue r' = fst (queue_pull current (ring_queue r))"
proof (rule motion_pop_queue [OF assms, of current])
  fix r' slot
  assume a: "motion_pop r current = Some (r', slot)" "motion_wf r'" "mr_sample_len r' = mr_sample_len r"
    "ring_queue r' = fst (queue_pull current (ring_queue r))"
    "case slot of None \<Rightarrow> snd (queue_pull current (ring_queue r)) = None
       | Some s \<Rightarrow> \<exists>p. snd (queue_pull current (ring_queue r)) = Some p \<and> motion_payload r' s = Some p"
  then show ?thesis by (cases slot) (auto simp: motion_pull_def)
qed

section \<open>Streams\<close>

fun push_all :: "('s \<Rightarrow> u32 \<Rightarrow> bytes \<Rightarrow> ('s \<times> bool) option) \<Rightarrow> 's \<Rightarrow> (u32 \<times> bytes) list \<Rightarrow> 's option" where
  "push_all push s [] = Some s"
| "push_all push s ((t, p) # xs) = do { (s, _) \<leftarrow> push s t p; push_all push s xs }"

fun pull_all :: "('s \<Rightarrow> u32 \<Rightarrow> ('s \<times> bytes option) option) \<Rightarrow> 's \<Rightarrow> u32 list \<Rightarrow> ('s \<times> bytes option list) option" where
  "pull_all pull s [] = Some (s, [])"
| "pull_all pull s (c # cs) = do {
     (s, p) \<leftarrow> pull s c;
     (s, ps) \<leftarrow> pull_all pull s cs;
     Some (s, p # ps) }"

definition tagged :: "u32 \<Rightarrow> bytes list \<Rightarrow> (u32 \<times> bytes) list" where
  "tagged c ps = map (\<lambda>i. (c + of_nat i, ps ! i)) [0..<length ps]"

lemma tagged_simps [simp]:
  "tagged c [] = []"
  "tagged c (p # ps) = (c, p) # tagged (c + 1) ps"
  by (auto simp: tagged_def upt_conv_Cons map_Suc_upt [symmetric] add.assoc simp del: upt_Suc)

lemma length_tagged [simp]: "length (tagged c ps) = length ps"
  by (simp add: tagged_def)

locale sample_stream =
  fixes ok :: "'s \<Rightarrow> bool"
    and queue :: "'s \<Rightarrow> (u32 \<times> bytes) list"
    and fit :: "bytes \<Rightarrow> bytes"
    and push :: "'s \<Rightarrow> u32 \<Rightarrow> bytes \<Rightarrow> ('s \<times> bool) option"
    and pull :: "'s \<Rightarrow> u32 \<Rightarrow> ('s \<times> bytes option) option"
    and room :: nat
  assumes push_room: "ok s \<Longrightarrow> length (queue s) < room \<Longrightarrow>
      \<exists>s'. push s t p = Some (s', True) \<and> ok s' \<and> queue s' = queue s @ [(t, fit p)]"
    and pull_law: "ok s \<Longrightarrow>
      \<exists>s'. pull s c = Some (s', snd (queue_pull c (queue s))) \<and> ok s' \<and> queue s' = fst (queue_pull c (queue s))"
begin

lemma push_all_queue:
  "ok s \<Longrightarrow> length (queue s) + length xs \<le> room \<Longrightarrow>
     \<exists>s'. push_all push s xs = Some s' \<and> ok s' \<and> queue s' = queue s @ map (\<lambda>(t, p). (t, fit p)) xs"
proof (induction xs arbitrary: s)
  case Nil
  then show ?case by simp
next
  case (Cons x xs)
  obtain t p where x: "x = (t, p)" by (cases x)
  obtain s' where "push s t p = Some (s', True)" "ok s'" "queue s' = queue s @ [(t, fit p)]"
    using push_room [of s t p] Cons.prems by auto
  then show ?case using Cons.IH [of s'] Cons.prems x by auto
qed

lemma pull_all_queue:
  "ok s \<Longrightarrow> queue s = tagged c ps \<Longrightarrow>
     \<exists>s'. pull_all pull s (map fst (tagged c ps)) = Some (s', map Some ps) \<and> ok s' \<and> queue s' = []"
proof (induction ps arbitrary: s c)
  case Nil
  then show ?case by simp
next
  case (Cons p ps)
  have q: "queue_pull c (queue s) = (tagged (c + 1) ps, Some p)"
    using Cons.prems by (simp add: queue_pull_def passed_def)
  obtain s' where "pull s c = Some (s', Some p)" "ok s'" "queue s' = tagged (c + 1) ps"
    using pull_law [OF Cons.prems(1), of c] q by auto
  then show ?case using Cons.IH [of s' "c + 1"] by auto
qed

text \<open>Samples pushed for consecutive cycles come out on those cycles, in order.\<close>

lemma stream_delivered:
  assumes "ok s" "queue s = []" "length ps \<le> room"
  shows "\<exists>s1 s2. push_all push s (tagged c ps) = Some s1 \<and>
    pull_all pull s1 (map fst (tagged c ps)) = Some (s2, map (\<lambda>p. Some (fit p)) ps) \<and> ok s2 \<and> queue s2 = []"
proof -
  obtain s1 where s1: "push_all push s (tagged c ps) = Some s1" "ok s1"
      "queue s1 = map (\<lambda>(t, p). (t, fit p)) (tagged c ps)"
    using push_all_queue [OF assms(1), of "tagged c ps"] assms(2,3) by auto
  have "map (\<lambda>(t, p). (t, fit p)) (tagged c ps) = tagged c (map fit ps)"
    by (auto simp: tagged_def)
  moreover have "map fst (tagged c ps) = map fst (tagged c (map fit ps))"
    by (simp add: tagged_def)
  ultimately show ?thesis
    using s1 pull_all_queue [of s1 c "map fit ps"] by (auto simp: comp_def)
qed

end

definition ring_ok :: "nat \<Rightarrow> motion_ring \<Rightarrow> bool" where
  "ring_ok n r \<longleftrightarrow> motion_wf r \<and> mr_sample_len r = n"

interpretation motion: sample_stream "ring_ok n" ring_queue "fit_sample n" motion_push motion_pull 32
proof
  fix s t p
  assume "ring_ok n s" "length (ring_queue s) < 32"
  then show "\<exists>s'. motion_push s t p = Some (s', True) \<and> ring_ok n s' \<and>
      ring_queue s' = ring_queue s @ [(t, fit_sample n p)]"
    using motion_push_queue [of s t p] by (auto simp: ring_ok_def)
next
  fix s c
  assume "ring_ok n s"
  then show "\<exists>s'. motion_pull s c = Some (s', snd (queue_pull c (ring_queue s))) \<and> ring_ok n s' \<and>
      ring_queue s' = fst (queue_pull c (ring_queue s))"
    using motion_pull_queue [of s c] by (auto simp: ring_ok_def)
qed

end
