(* ===== verification/Host.thy ===== *)
theory Host
  imports Motion Config
begin

text \<open>
  The host bridge, \<^verbatim>\<open>src/hal/host_bridge.rs\<close> with the layout constants of \<^verbatim>\<open>src/hal/spi_layout.rs\<close>:
  the CRC, the absorption of an inbound SPI frame, the application of the staged outputs, the
  watchdog and the reply frame. The generated stream layout is the value \<open>LAYOUT\<close> of the parameter
  \<open>lay\<close>; everything is proved for every layout. Main results: a frame corrupted within two
  adjacent covered bytes or within its CRC changes nothing but the error counter, and the staged
  outputs are always those of the last accepted frame.
\<close>

unbundle bit_operations_syntax

section \<open>Layout\<close>

record stream_layout =
  lay_sample_bytes :: nat
  lay_max_samples :: nat
  lay_fields :: "stream_field list"

definition LAYOUT :: stream_layout where
  "LAYOUT = \<lparr>lay_sample_bytes = 0, lay_max_samples = 0, lay_fields = []\<rparr>"

definition MAGIC :: u16 where "MAGIC = 0xA7EC"
definition HOST_VERSION :: u8 where "HOST_VERSION = 1"
definition flag_ENABLE :: u8 where "flag_ENABLE = 1"
definition flag_FAULT_RESET :: u8 where "flag_FAULT_RESET = 2"
definition flag_QUICK_STOP :: u8 where "flag_QUICK_STOP = 4"
definition status_LINK :: u8 where "status_LINK = 1"
definition status_OPERATIONAL :: u8 where "status_OPERATIONAL = 2"
definition status_FAULT :: u8 where "status_FAULT = 4"
definition status_HOST_TIMEOUT :: u8 where "status_HOST_TIMEOUT = 8"

text \<open>\<^verbatim>\<open>const fn out_bytes\<close> over the generated bus.\<close>

definition OUT_BYTES :: nat where "OUT_BYTES = (\<Sum>s\<leftarrow>bus_slaves BUS. unat (sl_out_size s))"
definition IN_BYTES :: nat where "IN_BYTES = bus_image_size BUS - OUT_BYTES"

definition MOSI_HDR :: nat where [simp]: "MOSI_HDR = 8"
definition MISO_HDR :: nat where [simp]: "MISO_HDR = 18"
definition CRC_LEN :: nat where [simp]: "CRC_LEN = 2"
definition STREAM_HDR :: nat where [simp]: "STREAM_HDR = 1"

definition sample_stride :: "stream_layout \<Rightarrow> nat" where
  "sample_stride lay = 4 + lay_sample_bytes lay"

definition host_stream_bytes :: "stream_layout \<Rightarrow> nat" where
  "host_stream_bytes lay = lay_max_samples lay * sample_stride lay"

definition mosi_len :: "stream_layout \<Rightarrow> nat" where
  "mosi_len lay = MOSI_HDR + OUT_BYTES + STREAM_HDR + host_stream_bytes lay + CRC_LEN"

definition MISO_LEN :: nat where "MISO_LEN = MISO_HDR + IN_BYTES + CRC_LEN"

definition frame_len :: "stream_layout \<Rightarrow> nat" where
  "frame_len lay = (if mosi_len lay > MISO_LEN then mosi_len lay else MISO_LEN)"

lemma host_sizes [simp]: "OUT_BYTES = 32" "IN_BYTES = 78" "MISO_LEN = 98"
  by (simp_all add: OUT_BYTES_def IN_BYTES_def MISO_LEN_def bus_table)

section \<open>The checksum\<close>

definition crc_bit :: "u16 \<Rightarrow> u16" where
  "crc_bit crc = (if crc AND 0x8000 \<noteq> 0 then push_bit 1 crc XOR 0x1021 else push_bit 1 crc)"

text \<open>\<^verbatim>\<open>while i < 8\<close>, with \<open>n\<close> iterations to go.\<close>

fun crc_bits :: "nat \<Rightarrow> u16 \<Rightarrow> u16" where
  "crc_bits 0 crc = crc"
| "crc_bits (Suc n) crc = crc_bits n (crc_bit crc)"

definition crc_byte :: "u16 \<Rightarrow> u8 \<Rightarrow> u16" where
  "crc_byte crc b = crc_bits 8 (crc XOR push_bit 8 (ucast b))"

definition crc16 :: "bytes \<Rightarrow> u16" where
  "crc16 dat = foldl crc_byte 0xFFFF dat"

section \<open>The bridge\<close>

record reply_status =
  rs_link_up :: bool
  rs_phase :: u8
  rs_wkc :: u8
  rs_expected_wkc :: u8
  rs_cycle_index :: u32
  rs_fault_flags :: u8
  rs_host_timeout :: bool

record host_bridge =
  hb_staged_out :: bytes
  hb_flags :: u8
  hb_host_seq :: u16
  hb_host_wdog :: u16
  hb_last_seen_wdog :: u16
  hb_stall :: u16
  hb_out_valid :: bool
  hb_staged_in :: bytes
  hb_teensy_wdog :: u16
  hb_crc_errs :: u32
  hb_seq_errs :: u32
  hb_frames_in :: u32
  hb_motion :: motion_ring

definition host_new :: "stream_layout \<Rightarrow> host_bridge" where
  "host_new lay =
     \<lparr>hb_staged_out = replicate OUT_BYTES 0, hb_flags = 0, hb_host_seq = 0, hb_host_wdog = 0,
      hb_last_seen_wdog = 0, hb_stall = 0, hb_out_valid = False,
      hb_staged_in = replicate (frame_len lay) 0, hb_teensy_wdog = 0, hb_crc_errs = 0,
      hb_seq_errs = 0, hb_frames_in = 0, hb_motion = motion_new (lay_sample_bytes lay)\<rparr>"

text \<open>The loop over the streamed samples: \<open>left\<close> iterations to go, from sample \<open>i\<close>.\<close>

fun ingest_samples :: "stream_layout \<Rightarrow> bytes \<Rightarrow> nat \<Rightarrow> nat \<Rightarrow> motion_ring \<Rightarrow> motion_ring option" where
  "ingest_samples lay samples 0 i m = Some m"
| "ingest_samples lay samples (Suc left) i m =
     (let base = i * sample_stride lay
      in if base + sample_stride lay > length samples then Some m
         else do {
           a \<leftarrow> idx samples base;
           b \<leftarrow> idx samples (base + 1);
           c \<leftarrow> idx samples (base + 2);
           e \<leftarrow> idx samples (base + 3);
           payload \<leftarrow> slice samples (base + 4) (base + sample_stride lay);
           (m, _) \<leftarrow> motion_push m (of_le32 a b c e) payload;
           ingest_samples lay samples left (i + 1) m })"

definition count_crc_err :: "host_bridge \<Rightarrow> host_bridge" where
  "count_crc_err b = b\<lparr>hb_crc_errs := hb_crc_errs b + 1\<rparr>"

text \<open>The part of \<^verbatim>\<open>ingest\<close> after the validation.\<close>

definition host_absorb :: "stream_layout \<Rightarrow> host_bridge \<Rightarrow> bytes \<Rightarrow> host_bridge option" where
  "host_absorb lay b frame = do {
     s0 \<leftarrow> idx frame 4;
     s1 \<leftarrow> idx frame 5;
     let seq = of_le16 s0 s1;
     let b = (if hb_out_valid b \<and> seq = hb_host_seq b
              then b\<lparr>hb_seq_errs := hb_seq_errs b + 1\<rparr> else b);
     fl \<leftarrow> idx frame 3;
     w0 \<leftarrow> idx frame 6;
     w1 \<leftarrow> idx frame 7;
     out \<leftarrow> slice frame MOSI_HDR (MOSI_HDR + OUT_BYTES);
     staged \<leftarrow> copy_at (hb_staged_out b) 0 (length (hb_staged_out b)) out;
     let b = b\<lparr>hb_flags := fl, hb_host_seq := seq, hb_host_wdog := of_le16 w0 w1,
                hb_staged_out := staged, hb_out_valid := True,
                hb_frames_in := hb_frames_in b + 1\<rparr>;
     if motion_active (hb_motion b) then do {
       let stream_off = MOSI_HDR + OUT_BYTES;
       n \<leftarrow> idx frame stream_off;
       samples \<leftarrow> slice frame (stream_off + STREAM_HDR) (mosi_len lay - CRC_LEN);
       m \<leftarrow> ingest_samples lay samples (min (unat n) (lay_max_samples lay)) 0 (hb_motion b);
       Some (b\<lparr>hb_motion := m\<rparr>) }
     else Some b }"

definition host_ingest :: "stream_layout \<Rightarrow> host_bridge \<Rightarrow> bytes \<Rightarrow> host_bridge option" where
  "host_ingest lay b mosi =
     (if length mosi < mosi_len lay then Some (count_crc_err b)
      else do {
        frame \<leftarrow> slice mosi 0 (mosi_len lay);
        m0 \<leftarrow> idx frame 0;
        m1 \<leftarrow> idx frame 1;
        if of_le16 m0 m1 \<noteq> MAGIC then Some (count_crc_err b)
        else do {
          let crc_pos = mosi_len lay - CRC_LEN;
          c0 \<leftarrow> idx frame crc_pos;
          c1 \<leftarrow> idx frame (crc_pos + 1);
          covered \<leftarrow> slice frame 0 crc_pos;
          if crc16 covered \<noteq> of_le16 c0 c1 then Some (count_crc_err b)
          else host_absorb lay b frame } })"

text \<open>The loop over \<^verbatim>\<open>STREAM_FIELDS\<close>.\<close>

fun apply_fields :: "bytes \<Rightarrow> stream_field list \<Rightarrow> bytes \<Rightarrow> bytes option" where
  "apply_fields payload [] img = Some img"
| "apply_fields payload (f # fs) img =
     (let so = unat (sf_sample_off f); io = unat (sf_image_off f); len = unat (sf_len f)
      in if so + len \<le> length payload \<and> io + len \<le> length img then do {
           src \<leftarrow> slice payload so (so + len);
           img \<leftarrow> copy_at img io (io + len) src;
           apply_fields payload fs img }
         else apply_fields payload fs img)"

definition host_apply_outputs ::
  "stream_layout \<Rightarrow> host_bridge \<Rightarrow> bytes \<Rightarrow> u32 \<Rightarrow> (host_bridge \<times> bytes) option" where
  "host_apply_outputs lay b img cycle_index =
     (if \<not> hb_out_valid b then Some (b, img)
      else do {
        let n = min OUT_BYTES (length img);
        src \<leftarrow> slice (hb_staged_out b) 0 n;
        img \<leftarrow> copy_at img 0 n src;
        if motion_active (hb_motion b) then do {
          (m, p) \<leftarrow> motion_pull (hb_motion b) cycle_index;
          let b = b\<lparr>hb_motion := m\<rparr>;
          case p of
            None \<Rightarrow> Some (b, img)
          | Some payload \<Rightarrow> do {
              img \<leftarrow> apply_fields payload (lay_fields lay) img;
              Some (b, img) } }
        else Some (b, img) })"

definition tick_watchdog :: "host_bridge \<Rightarrow> host_bridge \<times> u16" where
  "tick_watchdog b =
     (let b = (if hb_host_wdog b \<noteq> hb_last_seen_wdog b
               then b\<lparr>hb_last_seen_wdog := hb_host_wdog b, hb_stall := 0\<rparr>
               else if hb_out_valid b
               then b\<lparr>hb_stall := (if hb_stall b = 0xFFFF then 0xFFFF else hb_stall b + 1)\<rparr>
               else b)
      in (b, hb_stall b))"

definition status_flags :: "reply_status \<Rightarrow> u8" where
  "status_flags st =
     (let f = 0;
          f = (if rs_link_up st then f OR status_LINK else f);
          f = (if rs_phase st = 2 then f OR status_OPERATIONAL else f);
          f = (if rs_phase st = 3 then f OR status_FAULT else f)
      in if rs_host_timeout st then f OR status_HOST_TIMEOUT else f)"

definition build_host_reply :: "host_bridge \<Rightarrow> bytes \<Rightarrow> reply_status \<Rightarrow> host_bridge option" where
  "build_host_reply b img st = do {
     let b = b\<lparr>hb_teensy_wdog := hb_teensy_wdog b + 1\<rparr>;
     f \<leftarrow> copy_at (hb_staged_in b) 0 MISO_LEN (replicate MISO_LEN 0);
     f \<leftarrow> copy_at f 0 2 (le16 MAGIC);
     f \<leftarrow> put f 2 HOST_VERSION;
     f \<leftarrow> put f 3 (status_flags st);
     f \<leftarrow> copy_at f 4 6 (le16 (hb_host_seq b));
     f \<leftarrow> copy_at f 6 8 (le16 (hb_teensy_wdog b));
     f \<leftarrow> copy_at f 8 12 (le32 (rs_cycle_index st));
     f \<leftarrow> put f 12 (rs_wkc st);
     f \<leftarrow> put f 13 (rs_expected_wkc st);
     f \<leftarrow> put f 14 (rs_phase st);
     f \<leftarrow> put f 15 (rs_fault_flags st);
     f \<leftarrow> put f 16 (of_nat (min (mr_len (hb_motion b)) 255));
     f \<leftarrow> put f 17 0;
     let in_off = bus_image_size BUS - IN_BYTES;
     let n = min IN_BYTES (length img - in_off);
     src \<leftarrow> slice img in_off (in_off + n);
     f \<leftarrow> copy_at f MISO_HDR (MISO_HDR + n) src;
     let crc_pos = MISO_LEN - CRC_LEN;
     covered \<leftarrow> slice f 0 crc_pos;
     f \<leftarrow> copy_at f crc_pos (crc_pos + 2) (le16 (crc16 covered));
     Some (b\<lparr>hb_staged_in := f\<rparr>) }"

definition host_reply :: "host_bridge \<Rightarrow> bytes option" where
  "host_reply b = slice (hb_staged_in b) 0 MISO_LEN"

definition enable_requested :: "host_bridge \<Rightarrow> bool" where
  "enable_requested b \<longleftrightarrow> hb_out_valid b \<and> hb_flags b AND flag_ENABLE \<noteq> 0"

definition fault_reset_requested :: "host_bridge \<Rightarrow> bool" where
  "fault_reset_requested b \<longleftrightarrow> hb_out_valid b \<and> hb_flags b AND flag_FAULT_RESET \<noteq> 0"

definition quick_stop_requested :: "host_bridge \<Rightarrow> bool" where
  "quick_stop_requested b \<longleftrightarrow> hb_flags b AND flag_QUICK_STOP \<noteq> 0"

definition has_host :: "host_bridge \<Rightarrow> bool" where "has_host b = hb_out_valid b"

definition host_motion_active :: "host_bridge \<Rightarrow> bool" where
  "host_motion_active b = motion_active (hb_motion b)"

definition motion_underrun :: "host_bridge \<Rightarrow> bool" where
  "motion_underrun b \<longleftrightarrow> motion_active (hb_motion b) \<and> mr_underrun (hb_motion b)"

section \<open>What the checksum detects\<close>

lemma top_bit: "w AND 0x8000 \<noteq> 0 \<longleftrightarrow> bit w 15" for w :: u16
  using and_exp_eq_0_iff_not_bit [of w 15] by simp

lemma bit_poly: "bit (0x1021 :: u16) k \<longleftrightarrow> k = 0 \<or> k = 5 \<or> k = 12"
proof (cases "k < 16")
  case True
  then have "k = 0 \<or> k = 1 \<or> k = 2 \<or> k = 3 \<or> k = 4 \<or> k = 5 \<or> k = 6 \<or> k = 7 \<or> k = 8 \<or> k = 9 \<or> k = 10 \<or>
      k = 11 \<or> k = 12 \<or> k = 13 \<or> k = 14 \<or> k = 15" by presburger
  then show ?thesis by (auto simp: bit_numeral_rec bit_1_iff)
next
  case False
  then show ?thesis using bit_imp_le_length [of "0x1021 :: u16" k] by auto
qed

lemma bit_shift_one: "bit (push_bit 1 x) k \<longleftrightarrow> 1 \<le> k \<and> k < 16 \<and> bit x (k - 1)" for x :: u16
  unfolding bit_push_bit_iff by (auto simp: possible_bit_word)

lemma bit_crc_bit:
  "bit (crc_bit x) k \<longleftrightarrow> k < 16 \<and> ((1 \<le> k \<and> bit x (k - 1)) \<noteq> (bit x 15 \<and> (k = 0 \<or> k = 5 \<or> k = 12)))"
proof (cases "bit x 15")
  case True
  then have c: "crc_bit x = push_bit 1 x XOR 0x1021" by (simp add: crc_bit_def top_bit)
  show ?thesis unfolding c bit_xor_iff bit_shift_one bit_poly using True by auto
next
  case False
  then have c: "crc_bit x = push_bit 1 x" by (simp add: crc_bit_def top_bit)
  show ?thesis unfolding c bit_shift_one using False by auto
qed

lemma crc_bit_xor: "crc_bit (x XOR y) = crc_bit x XOR crc_bit y"
  by (rule bit_word_eqI) (auto simp: bit_crc_bit bit_xor_iff)

lemma crc_bit_kernel: "crc_bit x = 0 \<Longrightarrow> x = 0"
proof (rule bit_word_eqI)
  fix k
  assume z: "crc_bit x = 0" and k: "k < LENGTH(16)"
  have b: "\<not> bit (crc_bit x) j" for j using z by simp
  then have "\<not> bit x 15" using bit_crc_bit [of x 0] by simp
  then show "bit x k \<longleftrightarrow> bit 0 k"
    using b [of "Suc k"] bit_crc_bit [of x "Suc k"] k by (cases "k = 15") auto
qed

lemma crc_bits_xor: "crc_bits n (x XOR y) = crc_bits n x XOR crc_bits n y"
  by (induction n arbitrary: x y) (simp_all add: crc_bit_xor)

lemma crc_bits_kernel: "crc_bits n x = 0 \<Longrightarrow> x = 0"
  by (induction n arbitrary: x) (auto dest: crc_bit_kernel)

lemma xor_zero_iff: "a XOR b = 0 \<longleftrightarrow> a = b" for a b :: "'a::len word"
  by (auto simp: bit_eq_iff bit_xor_iff)

lemma xor_cancel: "a XOR c = b XOR c \<longleftrightarrow> a = b" "c XOR a = c XOR b \<longleftrightarrow> a = b"
  for a b c :: "'a::len word"
  by (auto simp: bit_eq_iff bit_xor_iff)

lemma crc_bits_inject: "crc_bits n x = crc_bits n y \<longleftrightarrow> x = y"
  using crc_bits_kernel [of n "x XOR y"] by (auto simp: crc_bits_xor xor_zero_iff)

lemma crc_bits_low:
  "(\<And>k. bit x k \<Longrightarrow> k + n < 16) \<Longrightarrow> crc_bits n x = push_bit n x"
proof (induction n arbitrary: x)
  case 0
  then show ?case by simp
next
  case (Suc n)
  have "\<not> bit x 15" using Suc.prems [of 15] by auto
  then have c: "crc_bit x = push_bit 1 x" by (simp add: crc_bit_def top_bit)
  have "crc_bits n (push_bit 1 x) = push_bit n (push_bit 1 x)"
  proof (rule Suc.IH)
    fix k assume "bit (push_bit 1 x) k"
    then have "1 \<le> k" "bit x (k - 1)" unfolding bit_shift_one by simp_all
    then show "k + n < 16" using Suc.prems [of "k - 1"] by linarith
  qed
  then show ?case using c by (simp add: push_bit_push_bit)
qed

lemma crc_byte_inject: "crc_byte s b = crc_byte s' b \<longleftrightarrow> s = s'"
  by (simp add: crc_byte_def crc_bits_inject xor_cancel)

lemma foldl_crc_inject: "foldl crc_byte s xs = foldl crc_byte s' xs \<longleftrightarrow> s = s'"
  by (induction xs arbitrary: s s') (simp_all add: crc_byte_inject)

text \<open>Two adjacent bytes enter the checksum without loss.\<close>

lemma crc_two_inject:
  "crc_byte (crc_byte s a) b = crc_byte (crc_byte s a') b' \<longleftrightarrow> a = a' \<and> b = b'"
proof
  assume eq: "crc_byte (crc_byte s a) b = crc_byte (crc_byte s a') b'"
  have low: "crc_bits 8 (ucast w) = push_bit 8 (ucast w)" for w :: u8
    by (rule crc_bits_low) (auto simp: bit_ucast_iff dest: bit_imp_le_length)
  have two: "crc_byte (crc_byte s a) b = crc_bits 8 (crc_bits 8 (s XOR (push_bit 8 (ucast a) XOR ucast b)))"
    for a b by (simp add: crc_byte_def crc_bits_xor low xor.assoc)
  have "s XOR (push_bit 8 (ucast a) XOR ucast b) = s XOR (push_bit 8 (ucast a') XOR ucast b')"
    using eq by (simp add: two crc_bits_inject)
  then have w: "push_bit 8 (ucast a) XOR ucast b = (push_bit 8 (ucast a') XOR ucast b' :: u16)"
    by (simp add: xor_cancel)
  have "bit b k = bit b' k" if "k < 8" for k
  proof -
    have "bit (push_bit 8 (ucast a) XOR ucast b :: u16) k = bit (push_bit 8 (ucast a') XOR ucast b' :: u16) k"
      using w by simp
    then show ?thesis using that by (simp add: bit_xor_iff bit_push_bit_iff bit_ucast_iff)
  qed
  then have b: "b = b'" by (intro bit_word_eqI) simp
  have "bit a k = bit a' k" if "k < 8" for k
  proof -
    have "bit (push_bit 8 (ucast a) XOR ucast b :: u16) (k + 8) = bit (push_bit 8 (ucast a') XOR ucast b' :: u16) (k + 8)"
      using w by simp
    then show ?thesis using that b by (auto simp: bit_xor_iff bit_push_bit_iff bit_ucast_iff)
  qed
  then have "a = a'" by (intro bit_word_eqI) simp
  then show "a = a' \<and> b = b'" using b by simp
qed simp

text \<open>Two messages that differ only within two adjacent bytes have different checksums.\<close>

lemma crc16_detects:
  assumes "length f = length f'" "i + 1 < length f" "\<And>j. j < length f \<Longrightarrow> j \<noteq> i \<Longrightarrow> j \<noteq> i + 1 \<Longrightarrow> f ! j = f' ! j"
    and "crc16 f = crc16 f'"
  shows "f = f'"
proof -
  have split: "xs = take i xs @ [xs ! i, xs ! (i + 1)] @ drop (i + 2) xs" if "i + 1 < length xs" for xs :: bytes
    using that by (simp add: Cons_nth_drop_Suc)
  have t: "take i f = take i f'" using assms(1-3) by (intro nth_equalityI) auto
  have d: "drop (i + 2) f = drop (i + 2) f'" using assms(1-3) by (intro nth_equalityI) auto
  have f: "f = take i f' @ [f ! i, f ! (i + 1)] @ drop (i + 2) f'" using split [of f] assms(2) t d by metis
  have f': "f' = take i f' @ [f' ! i, f' ! (i + 1)] @ drop (i + 2) f'" using split [of f'] assms(1,2) by simp
  have "crc16 (take i f' @ [f ! i, f ! (i + 1)] @ drop (i + 2) f') =
      crc16 (take i f' @ [f' ! i, f' ! (i + 1)] @ drop (i + 2) f')"
    using assms(4) f f' by metis
  then have "f ! i = f' ! i \<and> f ! (i + 1) = f' ! (i + 1)"
    by (simp add: crc16_def foldl_crc_inject crc_two_inject)
  then show ?thesis using f f' by simp
qed

section \<open>Frames\<close>

definition host_wf :: "stream_layout \<Rightarrow> host_bridge \<Rightarrow> bool" where
  "host_wf lay b \<longleftrightarrow> length (hb_staged_out b) = 32 \<and> length (hb_staged_in b) = frame_len lay \<and>
     ring_ok (min 64 (lay_sample_bytes lay)) (hb_motion b)"

text \<open>A frame the bridge accepts: long enough, magic and checksum in order.\<close>

definition accepted :: "stream_layout \<Rightarrow> bytes \<Rightarrow> bool" where
  "accepted lay f \<longleftrightarrow>
     mosi_len lay \<le> length f \<and> of_le16 (f ! 0) (f ! 1) = MAGIC \<and>
     crc16 (take (mosi_len lay - 2) f) = of_le16 (f ! (mosi_len lay - 2)) (f ! Suc (mosi_len lay - 2))"

definition frame_outputs :: "bytes \<Rightarrow> bytes" where
  "frame_outputs f = take 32 (drop 8 f)"

text \<open>Sample \<open>j\<close> of the stream region of a frame.\<close>

definition wire_sample :: "stream_layout \<Rightarrow> bytes \<Rightarrow> nat \<Rightarrow> u32 \<times> bytes" where
  "wire_sample lay samples j =
     (let at = j * sample_stride lay
      in (of_le32 (samples ! at) (samples ! (at + 1)) (samples ! (at + 2)) (samples ! (at + 3)),
          take (lay_sample_bytes lay) (drop (at + 4) samples)))"

definition frame_samples :: "stream_layout \<Rightarrow> bytes \<Rightarrow> (u32 \<times> bytes) list" where
  "frame_samples lay f =
     map (wire_sample lay (take (host_stream_bytes lay) (drop 41 f)))
       [0..<min (unat (f ! 40)) (lay_max_samples lay)]"

lemma mosi_len_eq: "mosi_len lay = 43 + host_stream_bytes lay"
  by (simp add: mosi_len_def)

lemma frame_len_bounds: "mosi_len lay \<le> frame_len lay" "98 \<le> frame_len lay"
  by (simp_all add: frame_len_def)

lemma host_new_wf: "host_wf lay (host_new lay)"
  by (simp add: host_wf_def host_new_def ring_ok_def motion_new_wf) (simp add: motion_new_def min_def)

lemma ingest_samples_push:
  assumes "length samples = host_stream_bytes lay" "i + n \<le> lay_max_samples lay"
  shows "ingest_samples lay samples n i m = push_all motion_push m (map (wire_sample lay samples) [i..<i + n])"
  using assms(2)
proof (induction n arbitrary: i m)
  case 0
  then show ?case by simp
next
  case (Suc n)
  let ?b = "i * sample_stride lay"
  have "Suc i * sample_stride lay \<le> lay_max_samples lay * sample_stride lay"
    using Suc.prems by (intro mult_right_mono) auto
  then have fits: "?b + sample_stride lay \<le> length samples"
    using assms(1) by (simp add: host_stream_bytes_def)
  then have at: "?b + 3 < length samples" by (simp add: sample_stride_def)
  have r: "[i..<i + Suc n] = i # [Suc i..<Suc i + n]" by (simp add: upt_conv_Cons)
  show ?case
    unfolding r
    using fits at Suc.IH [of "i + 1"] Suc.prems
    by (simp add: idx_def slice_def wire_sample_def Let_def sample_stride_def del: upt_Suc)
qed

lemma host_ingest_eq:
  "host_ingest lay b f =
     (if accepted lay f then host_absorb lay b (take (mosi_len lay) f) else Some (count_crc_err b))"
proof (cases "length f < mosi_len lay")
  case True
  then show ?thesis by (simp add: host_ingest_def accepted_def)
next
  case False
  then have "f \<noteq> []" by (auto simp: mosi_len_eq)
  with False show ?thesis
    by (simp add: host_ingest_def accepted_def idx_def slice_def Let_def mosi_len_eq min_absorb2)
qed

lemma host_ingest_reject: "\<not> accepted lay f \<Longrightarrow> host_ingest lay b f = Some (count_crc_err b)"
  by (simp add: host_ingest_eq)

text \<open>What an accepted frame does.\<close>

definition absorbed :: "host_bridge \<Rightarrow> bytes \<Rightarrow> host_bridge" where
  "absorbed b f =
     b\<lparr>hb_seq_errs := (if hb_out_valid b \<and> of_le16 (f ! 4) (f ! 5) = hb_host_seq b then hb_seq_errs b + 1
                        else hb_seq_errs b),
       hb_flags := f ! 3, hb_host_seq := of_le16 (f ! 4) (f ! 5), hb_host_wdog := of_le16 (f ! 6) (f ! 7),
       hb_staged_out := frame_outputs f, hb_out_valid := True, hb_frames_in := hb_frames_in b + 1\<rparr>"

lemma host_ingest_accept:
  assumes "accepted lay f" "host_wf lay b"
  shows "host_ingest lay b f =
    (if motion_active (hb_motion b)
     then map_option (\<lambda>m. (absorbed b f)\<lparr>hb_motion := m\<rparr>)
            (push_all motion_push (hb_motion b) (frame_samples lay f))
     else Some (absorbed b f))"
proof -
  have l: "43 + host_stream_bytes lay \<le> length f"
    using assms(1) by (simp add: accepted_def mosi_len_eq)
  let ?f = "take (43 + host_stream_bytes lay) f"
  have idx: "idx ?f i = Some (f ! i)" if "i < 43" for i
    using that l by (simp add: idx_def)
  have out: "copy_at (hb_staged_out b) 0 (length (hb_staged_out b)) (frame_outputs f) = Some (frame_outputs f)"
    using assms(2) l by (simp add: copy_at_def frame_outputs_def host_wf_def min_def)
  have region: "slice ?f 8 40 = Some (frame_outputs f)"
    using l by (simp add: slice_def frame_outputs_def drop_take)
  have stream: "slice ?f 41 (41 + host_stream_bytes lay) = Some (take (host_stream_bytes lay) (drop 41 f))"
    using l by (simp add: slice_def drop_take)
  have push: "ingest_samples lay (take (host_stream_bytes lay) (drop 41 f)) (min (unat (f ! 40)) (lay_max_samples lay)) 0 m =
      push_all motion_push m (frame_samples lay f)" for m
    using l ingest_samples_push [of "take (host_stream_bytes lay) (drop 41 f)" lay 0 "min (unat (f ! 40)) (lay_max_samples lay)" m]
    by (simp add: frame_samples_def)
  have absorb: "host_absorb lay b ?f =
      (if motion_active (hb_motion b)
       then Option.bind (push_all motion_push (hb_motion b) (frame_samples lay f))
              (\<lambda>m. Some ((absorbed b f)\<lparr>hb_motion := m\<rparr>))
       else Some (absorbed b f))"
    by (cases "hb_out_valid b \<and> of_le16 (f ! 4) (f ! 5) = hb_host_seq b")
      (auto simp: host_absorb_def Let_def idx region out mosi_len_eq stream push absorbed_def)
  show ?thesis
    using assms(1) by (simp add: host_ingest_eq mosi_len_eq absorb map_conv_bind_option comp_def)
qed

lemma absorbed_wf: "accepted lay f \<Longrightarrow> host_wf lay b \<Longrightarrow> host_wf lay (absorbed b f)"
  by (auto simp: host_wf_def absorbed_def frame_outputs_def accepted_def mosi_len_eq)

lemma push_all_total:
  assumes "ring_ok n m"
  shows "\<exists>m'. push_all motion_push m xs = Some m' \<and> ring_ok n m'"
  using assms
proof (induction xs arbitrary: m)
  case Nil
  then show ?case by simp
next
  case (Cons x xs)
  obtain t p where x: "x = (t, p)" by (cases x)
  obtain m' where m: "motion_push m t p = Some (m', length (ring_queue m) < 32)" "ring_ok n m'"
    using motion_push_queue [of m t p] Cons.prems by (auto simp: ring_ok_def)
  then show ?case using Cons.IH [OF m(2)] x by simp
qed

lemma host_ingest_total:
  assumes "host_wf lay b"
  obtains b' where "host_ingest lay b f = Some b'" "host_wf lay b'"
    "accepted lay f \<Longrightarrow> b' = (absorbed b f)\<lparr>hb_motion := hb_motion b'\<rparr>"
    "\<not> accepted lay f \<Longrightarrow> b' = count_crc_err b"
proof (cases "accepted lay f")
  case False
  then show thesis
    using host_ingest_reject [OF False, of b] assms that [of "count_crc_err b"]
    by (simp add: host_wf_def count_crc_err_def)
next
  case True
  have r: "ring_ok (min 64 (lay_sample_bytes lay)) (hb_motion b)" using assms by (simp add: host_wf_def)
  obtain m where m: "push_all motion_push (hb_motion b) (frame_samples lay f) = Some m"
      "ring_ok (min 64 (lay_sample_bytes lay)) m"
    using push_all_total [OF r] by blast
  define m' where "m' = (if motion_active (hb_motion b) then m else hb_motion b)"
  have i: "host_ingest lay b f = Some ((absorbed b f)\<lparr>hb_motion := m'\<rparr>)"
    using host_ingest_accept [OF True assms] m(1) by (auto simp: m'_def absorbed_def)
  have "host_wf lay ((absorbed b f)\<lparr>hb_motion := m'\<rparr>)"
    using absorbed_wf [OF True assms] m(2) r by (simp add: host_wf_def m'_def)
  then show thesis using that [OF i] True by (simp add: absorbed_def)
qed

text \<open>A corrupted frame is not accepted.\<close>

lemma corrupt_rejected:
  assumes ok: "accepted lay f" and len: "length f' = length f" and i: "i + 1 < mosi_len lay - 2 \<or> i = mosi_len lay - 2"
    and same: "\<And>j. j < length f \<Longrightarrow> j \<noteq> i \<Longrightarrow> j \<noteq> i + 1 \<Longrightarrow> f ! j = f' ! j" and diff: "take (mosi_len lay) f \<noteq> take (mosi_len lay) f'"
  shows "\<not> accepted lay f'"
proof
  assume ok': "accepted lay f'"
  let ?n = "mosi_len lay - 2"
  have n: "?n + 2 = mosi_len lay" "mosi_len lay \<le> length f"
    using ok by (simp_all add: mosi_len_eq accepted_def)
  have crc: "crc16 (take ?n f) = of_le16 (f ! ?n) (f ! (?n + 1))"
      "crc16 (take ?n f') = of_le16 (f' ! ?n) (f' ! (?n + 1))"
    using ok ok' by (simp_all add: accepted_def)
  have bytes: "take ?n f = take ?n f' \<and> f ! ?n = f' ! ?n \<and> f ! (?n + 1) = f' ! (?n + 1)"
  proof (cases "i = ?n")
    case True
    have t: "take ?n f = take ?n f'"
      using same True n len by (intro nth_equalityI) auto
    then have "of_le16 (f ! ?n) (f ! (?n + 1)) = of_le16 (f' ! ?n) (f' ! (?n + 1))"
      using crc by simp
    then have "le16 (of_le16 (f ! ?n) (f ! (?n + 1))) = le16 (of_le16 (f' ! ?n) (f' ! (?n + 1)))"
      by simp
    then show ?thesis using t by (simp add: byte_simps)
  next
    case False
    then have i: "i + 1 < ?n" using i by simp
    then have c: "f ! ?n = f' ! ?n" "f ! (?n + 1) = f' ! (?n + 1)" using same n by auto
    have "take ?n f = take ?n f'"
      by (rule crc16_detects [of _ _ i]) (use i same n len c crc in auto)
    then show ?thesis using c by simp
  qed
  have split: "take (mosi_len lay) g = take ?n g @ [g ! ?n, g ! (?n + 1)]" if "mosi_len lay \<le> length g" for g
  proof -
    have "take (Suc (Suc ?n)) g = take ?n g @ [g ! ?n, g ! Suc ?n]"
      using that n(1) take_Suc_conv_app_nth [of "Suc ?n" g] take_Suc_conv_app_nth [of ?n g] by simp
    moreover have "Suc (Suc ?n) = mosi_len lay" using n(1) by simp
    ultimately show ?thesis by (simp only: Suc_eq_plus1)
  qed
  show False using diff bytes split [of f] split [of f'] n len by simp
qed

text \<open>Any sequence of inbound frames: the staged outputs are those of the last accepted one.\<close>

fun host_ingest_all :: "stream_layout \<Rightarrow> host_bridge \<Rightarrow> bytes list \<Rightarrow> host_bridge option" where
  "host_ingest_all lay b [] = Some b"
| "host_ingest_all lay b (f # fs) = do { b \<leftarrow> host_ingest lay b f; host_ingest_all lay b fs }"


lemma host_ingest_all_outputs:
  assumes "host_wf lay b"
  shows "\<exists>b'. host_ingest_all lay b fs = Some b' \<and> host_wf lay b' \<and>
    hb_out_valid b' = (hb_out_valid b \<or> filter (accepted lay) fs \<noteq> []) \<and>
    (hb_staged_out b', hb_flags b') =
      (if filter (accepted lay) fs = [] then (hb_staged_out b, hb_flags b)
       else (frame_outputs (last (filter (accepted lay) fs)), last (filter (accepted lay) fs) ! 3))"
  using assms
proof (induction fs arbitrary: b)
  case Nil
  then show ?case by simp
next
  case (Cons f fs)
  obtain b1 where b1: "host_ingest lay b f = Some b1" "host_wf lay b1"
      "accepted lay f \<Longrightarrow> b1 = (absorbed b f)\<lparr>hb_motion := hb_motion b1\<rparr>"
      "\<not> accepted lay f \<Longrightarrow> b1 = count_crc_err b"
    using host_ingest_total [OF Cons.prems] by metis
  have f: "(hb_staged_out b1, hb_flags b1, hb_out_valid b1) =
      (if accepted lay f then (frame_outputs f, f ! 3, True) else (hb_staged_out b, hb_flags b, hb_out_valid b))"
  proof (cases "accepted lay f")
    case True
    then show ?thesis by (subst (1 2 3) b1(3)) (simp_all add: absorbed_def)
  next
    case False
    then show ?thesis using b1(4) by (simp add: count_crc_err_def)
  qed
  show ?case using Cons.IH [OF b1(2)] b1(1) f by (auto split: if_splits)
qed

text \<open>A host that repeats a frame sends the same outputs and flags again under the same sequence number. Of the
  accepted frames the fresh ones are those that do not repeat the one before.\<close>

definition frame_seq :: "bytes \<Rightarrow> u16" where
  "frame_seq f = of_le16 (f ! 4) (f ! 5)"

fun fresh_frames :: "stream_layout \<Rightarrow> u16 option \<Rightarrow> bytes list \<Rightarrow> bytes list" where
  "fresh_frames lay s [] = []"
| "fresh_frames lay s (f # fs) =
     (if \<not> accepted lay f \<or> s = Some (frame_seq f) then fresh_frames lay s fs
      else f # fresh_frames lay (Some (frame_seq f)) fs)"

fun repeats_agree :: "stream_layout \<Rightarrow> (u16 \<times> bytes \<times> u8) option \<Rightarrow> bytes list \<Rightarrow> bool" where
  "repeats_agree lay p [] = True"
| "repeats_agree lay p (f # fs) =
     (if \<not> accepted lay f then repeats_agree lay p fs
      else (case p of Some (s, outs, flags) \<Rightarrow> s = frame_seq f \<longrightarrow> frame_outputs f = outs \<and> f ! 3 = flags | None \<Rightarrow> True) \<and>
        repeats_agree lay (Some (frame_seq f, frame_outputs f, f ! 3)) fs)"

definition spoken :: "host_bridge \<Rightarrow> (u16 \<times> bytes \<times> u8) option" where
  "spoken b = (if hb_out_valid b then Some (hb_host_seq b, hb_staged_out b, hb_flags b) else None)"

definition decided :: "bytes \<times> u8 \<Rightarrow> bytes list \<Rightarrow> bytes \<times> u8" where
  "decided d xs = (if xs = [] then d else (frame_outputs (last xs), last xs ! 3))"

lemma decided_simps: "decided d [] = d" "decided d (f # fs) = decided (frame_outputs f, f ! 3) fs"
  by (simp_all add: decided_def)

lemma repeats_last:
  "repeats_agree lay (Some (s, d)) fs \<Longrightarrow> decided d (filter (accepted lay) fs) = decided d (fresh_frames lay (Some s) fs)"
  "repeats_agree lay None fs \<Longrightarrow> decided d (filter (accepted lay) fs) = decided d (fresh_frames lay None fs)"
proof -
  show some: "repeats_agree lay (Some (s, d)) fs \<Longrightarrow>
      decided d (filter (accepted lay) fs) = decided d (fresh_frames lay (Some s) fs)" for s d fs
    by (induction fs arbitrary: s d) (auto simp: decided_simps split: if_splits)
  show "repeats_agree lay None fs \<Longrightarrow> decided d (filter (accepted lay) fs) = decided d (fresh_frames lay None fs)"
    by (induction fs) (auto simp: decided_simps some split: if_splits)
qed

lemma host_ingest_fresh:
  assumes "host_wf lay b" "repeats_agree lay (spoken b) fs" "fr = fresh_frames lay (map_option fst (spoken b)) fs"
  shows "\<exists>b'. host_ingest_all lay b fs = Some b' \<and> host_wf lay b' \<and>
    hb_out_valid b' = (hb_out_valid b \<or> filter (accepted lay) fs \<noteq> []) \<and>
    (hb_staged_out b', hb_flags b') = (if fr = [] then (hb_staged_out b, hb_flags b) else (frame_outputs (last fr), last fr ! 3))"
proof -
  have "decided (hb_staged_out b, hb_flags b) (filter (accepted lay) fs) = decided (hb_staged_out b, hb_flags b) fr"
    using assms(2,3) by (simp add: spoken_def repeats_last split: if_splits)
  then show ?thesis using host_ingest_all_outputs [OF assms(1), of fs] by (simp only: decided_def)
qed

section \<open>Outputs, watchdog and reply\<close>

text \<open>Without a streamed sample due, the outputs region of the image becomes the staged outputs and
  the rest of the image is kept; before the first valid frame nothing changes.\<close>

lemma host_outputs_idle: "\<not> hb_out_valid b \<Longrightarrow> host_apply_outputs lay b img c = Some (b, img)"
  by (simp add: host_apply_outputs_def)

lemma host_outputs_immediate:
  assumes "host_wf lay b" "hb_out_valid b" "32 \<le> length img" "\<not> motion_active (hb_motion b)"
  shows "host_apply_outputs lay b img c = Some (b, hb_staged_out b @ drop 32 img)"
  using assms by (simp add: host_apply_outputs_def copy_at_def host_wf_def min_absorb1)

lemma apply_fields_total: "\<exists>img'. apply_fields payload fs img = Some img' \<and> length img' = length img"
proof (induction fs arbitrary: img)
  case Nil
  then show ?case by simp
next
  case (Cons f fs)
  let ?s = "unat (sf_sample_off f)" and ?i = "unat (sf_image_off f)" and ?n = "unat (sf_len f)"
  show ?case
  proof (cases "?s + ?n \<le> length payload \<and> ?i + ?n \<le> length img")
    case True
    let ?img = "take ?i img @ take ?n (drop ?s payload) @ drop (?i + ?n) img"
    have t: "?s + ?n \<le> length payload" "?i + ?n \<le> length img" using True by auto
    then have "apply_fields payload (f # fs) img = apply_fields payload fs ?img"
      by (simp add: slice_in copy_at_in Let_def)
    moreover have "length ?img = length img" using True by auto
    ultimately show ?thesis using Cons.IH [of ?img] by simp
  next
    case False
    then show ?thesis using Cons.IH [of img] by (auto simp: Let_def)
  qed
qed

lemma host_outputs_total:
  assumes "host_wf lay b"
  shows "\<exists>b' img'. host_apply_outputs lay b img c = Some (b', img') \<and> host_wf lay b' \<and> length img' = length img \<and>
    hb_out_valid b' = hb_out_valid b \<and> hb_flags b' = hb_flags b"
proof (cases "hb_out_valid b")
  case False
  then show ?thesis using assms by (simp add: host_apply_outputs_def)
next
  case True
  let ?n = "min 32 (length img)"
  let ?img = "take ?n (hb_staged_out b) @ drop ?n img"
  have s: "length (hb_staged_out b) = 32" "ring_ok (min 64 (lay_sample_bytes lay)) (hb_motion b)"
    using assms by (simp_all add: host_wf_def)
  have c: "slice (hb_staged_out b) 0 ?n = Some (take ?n (hb_staged_out b))"
      "copy_at img 0 ?n (take ?n (hb_staged_out b)) = Some ?img"
    using s(1) by (auto simp: copy_at_def)
  have l: "length ?img = length img" using s(1) by auto
  obtain m p where m: "motion_pull (hb_motion b) c = Some (m, p)" "ring_ok (min 64 (lay_sample_bytes lay)) m"
    using motion_pull_queue [of "hb_motion b" c] s(2) by (auto simp: ring_ok_def)
  obtain img' where img': "\<And>q. p = Some q \<Longrightarrow> apply_fields q (lay_fields lay) ?img = Some img' \<and> length img' = length img"
    using apply_fields_total [of "the p" "lay_fields lay" ?img] l by (cases p) auto
  have wf: "host_wf lay (b\<lparr>hb_motion := m\<rparr>)" using assms m(2) by (simp add: host_wf_def)
  show ?thesis
    using True c m img' wf l assms by (cases p) (auto simp: host_apply_outputs_def Let_def)
qed

text \<open>\<open>n\<close> ticks without a new heartbeat count up to the saturation.\<close>

fun watchdog_ticks :: "nat \<Rightarrow> host_bridge \<Rightarrow> host_bridge" where
  "watchdog_ticks 0 b = b"
| "watchdog_ticks (Suc n) b = fst (tick_watchdog (watchdog_ticks n b))"

lemma tick_stalled:
  "hb_host_wdog b = hb_last_seen_wdog b \<Longrightarrow> hb_out_valid b \<Longrightarrow>
     fst (tick_watchdog b) = b\<lparr>hb_stall := (if hb_stall b = 0xFFFF then 0xFFFF else hb_stall b + 1)\<rparr>"
  by (simp add: tick_watchdog_def)

lemma watchdog_stalled:
  assumes "hb_host_wdog b = hb_last_seen_wdog b" "hb_out_valid b"
  shows "unat (hb_stall (watchdog_ticks n b)) = min 65535 (unat (hb_stall b) + n) \<and>
    hb_host_wdog (watchdog_ticks n b) = hb_last_seen_wdog (watchdog_ticks n b) \<and>
    hb_out_valid (watchdog_ticks n b)"
proof (induction n)
  case 0
  then show ?case using assms unsigned_less [of "hb_stall b", where ?'a = nat] by simp
next
  case (Suc n)
  let ?s = "hb_stall (watchdog_ticks n b)"
  have "unat (if ?s = 0xFFFF then 0xFFFF else ?s + 1) = min 65535 (unat ?s + 1)"
  proof (cases "?s = 0xFFFF")
    case False
    have "unat ?s < 65536" using unsigned_less [of ?s, where ?'a = nat] by simp
    then have "?s \<le> 0xFFFF" by (simp add: word_le_nat_alt)
    then have "?s < 0xFFFF" using False by (simp add: order_less_le)
    then have "unat (?s + 1) = unat ?s + 1" "unat ?s < 65535"
      by (simp_all add: unat_inc [of ?s "0xFFFF"] word_less_nat_alt)
    then show ?thesis using False by simp
  qed simp
  then show ?case using Suc tick_stalled [of "watchdog_ticks n b"] by simp
qed

lemma watchdog_heartbeat:
  "hb_host_wdog b \<noteq> hb_last_seen_wdog b \<Longrightarrow> snd (tick_watchdog b) = 0"
  by (simp add: tick_watchdog_def)

text \<open>The reply frame: header, inputs, checksum.\<close>

definition reply_header :: "host_bridge \<Rightarrow> reply_status \<Rightarrow> bytes" where
  "reply_header b st =
     le16 MAGIC @ [HOST_VERSION, status_flags st] @ le16 (hb_host_seq b) @ le16 (hb_teensy_wdog b + 1) @
     le32 (rs_cycle_index st) @ [rs_wkc st, rs_expected_wkc st, rs_phase st, rs_fault_flags st] @
     [of_nat (min (mr_len (hb_motion b)) 255), 0]"

lemma length_reply_header [simp]: "length (reply_header b st) = 18"
  by (simp add: reply_header_def)

lemma slice_fill: "length pre = n \<Longrightarrow> slice (filled pre rest) 0 n = Some pre"
  by (simp add: slice_def filled_def)

lemma take_fill: "length pre = n \<Longrightarrow> take n (filled pre rest) = pre"
  by (simp add: filled_def)

lemma build_host_reply_frame:
  assumes "host_wf lay b" "110 \<le> length img"
  shows "\<exists>b'. build_host_reply b img st = Some b' \<and> host_wf lay b' \<and>
    host_reply b' = Some (reply_header b st @ take 78 (drop 32 img) @
      le16 (crc16 (reply_header b st @ take 78 (drop 32 img))))"
proof -
  have l: "98 \<le> length (hb_staged_in b)"
    using assms(1) frame_len_bounds by (simp add: host_wf_def)
  define rest where "rest = drop 98 (hb_staged_in b)"
  define inputs where "inputs = take 78 (drop 32 img)"
  let ?f = "reply_header b st @ inputs"
  have z: "copy_at (hb_staged_in b) 0 98 (replicate 98 0) = Some (filled [] (replicate 98 0 @ rest))"
    using l by (simp add: copy_at_def filled_def rest_def)
  have n: "min 78 (length img - 32) = 78" using assms(2) by simp
  have s: "slice img 32 110 = Some inputs" using assms(2) by (simp add: slice_def inputs_def)
  have inp: "length inputs = 78" using assms(2) by (simp add: inputs_def)
  have img: "bus_image_size BUS = 110" by (simp add: BUS_def)
  have "build_host_reply b img st = Some (b\<lparr>hb_teensy_wdog := hb_teensy_wdog b + 1,
      hb_staged_in := filled (?f @ le16 (crc16 ?f)) rest\<rparr>)"
    unfolding build_host_reply_def Let_def
    by (simp add: z n s img inp fill_simps take_fill) (simp add: reply_header_def)
  moreover have "host_wf lay (b\<lparr>hb_teensy_wdog := hb_teensy_wdog b + 1,
      hb_staged_in := filled (?f @ le16 (crc16 ?f)) rest\<rparr>)"
    using assms(1) l inp by (simp add: host_wf_def rest_def)
  moreover have "slice (filled (?f @ le16 (crc16 ?f)) rest) 0 98 = Some (?f @ le16 (crc16 ?f))"
    by (rule slice_fill) (simp add: inp)
  ultimately show ?thesis by (simp add: host_reply_def inputs_def)
qed

end
