(* ===== verification/Cyclic.thy ===== *)
theory Cyclic
  imports Domain Device Cia402 Host
begin

text \<open>
  The cyclic process-data engine, \<^verbatim>\<open>src/ethercat/cyclic.rs\<close>: each tick processes the reply of the
  previous cycle and sends the next frame, the LRW with the appended AL or DC datagrams. \<open>dgram\<close>
  lists describe the frame; the reply is decoded datagram by datagram in the order of building.
  The theorems: no tick panics; what is on the wire in each phase; the phases a tick may
  take; Operational only when every slave reported OP; and that no drive is enabled while a
  safe-state trigger is present.
\<close>

unbundle bit_operations_syntax

section \<open>State\<close>

definition CYCLIC_BUF :: nat where [simp]: "CYCLIC_BUF = MAX_IMAGE + 64"
definition MAX_APPENDED :: nat where [simp]: "MAX_APPENDED = 3"
definition PRIMING_CYCLES :: u32 where "PRIMING_CYCLES = 3"
definition HOST_WDOG_LIMIT_CYCLES :: u16 where "HOST_WDOG_LIMIT_CYCLES = 20"

datatype cyclic_phase = Priming | RequestingOp | Operational | Faulted

datatype appended = AppControl | AppStatus nat | AppDcArmw | AppDcDiff | AppAlPoll

datatype applied_reply = ApNone | ApOpReached nat | ApFault | ApDrift u32

record cyclic_slave =
  cs_station :: u16
  cs_ring_pos :: u16

record slave_rt =
  rt_station :: u16
  rt_ring_pos :: u16
  rt_reached_op :: bool

record cyclic_status =
  st_phase :: cyclic_phase
  st_wkc :: u16
  st_expected_wkc :: u16
  st_cycles :: u32
  st_rate_hz :: u32
  st_period_us :: u32
  st_latency_min_ns :: u32
  st_latency_max_ns :: u32
  st_jitter_ns :: u32
  st_latency_max_cyc :: u32
  st_dc_diff_ns :: u32
  st_dc_diff_max_ns :: u32
  st_dc_valid :: bool

text \<open>The \<^verbatim>\<open>i32\<close> drift values are the 32-bit words with the same bits.\<close>

record cyclic =
  cy_domain :: ec_domain
  cy_slaves :: "slave_rt list"
  cy_ref_ring_pos :: u16
  cy_phase :: cyclic_phase
  cy_tx :: bytes
  cy_tx_len :: nat
  cy_rx :: bytes
  cy_outstanding :: bool
  cy_expected_index :: u8
  cy_good_cycles :: u32
  cy_total_cycles :: u32
  cy_appended :: "appended list"
  cy_op_cursor :: nat
  cy_op_ctrl_phase :: bool
  cy_mon_toggle :: bool
  cy_mon_cursor :: nat
  cy_cycle_ns :: u64
  cy_lat_min :: u32
  cy_lat_max :: u32
  cy_dc_diff_ns :: u32
  cy_dc_diff_max_ns :: u32
  cy_dc_valid :: bool
  cy_cia402 :: cia402

text \<open>The loop that copies the slaves into the fixed-capacity list.\<close>

definition slave_rts :: "cyclic_slave list \<Rightarrow> slave_rt list" where
  "slave_rts slaves =
     foldl (\<lambda>rt s. push_drop EC_MAX_SLAVES rt
              \<lparr>rt_station = cs_station s, rt_ring_pos = cs_ring_pos s, rt_reached_op = False\<rparr>) [] slaves"

definition cyclic_new :: "cyclic_slave list \<Rightarrow> u16 \<Rightarrow> u64 \<Rightarrow> cyclic" where
  "cyclic_new slaves ref_pos cycle_ns =
     \<lparr>cy_domain = domain_from_config BUS, cy_slaves = slave_rts slaves, cy_ref_ring_pos = ref_pos,
      cy_phase = Priming, cy_tx = replicate CYCLIC_BUF 0, cy_tx_len = 0, cy_rx = replicate CYCLIC_BUF 0,
      cy_outstanding = False, cy_expected_index = 0, cy_good_cycles = 0, cy_total_cycles = 0,
      cy_appended = [], cy_op_cursor = 0, cy_op_ctrl_phase = True, cy_mon_toggle = True,
      cy_mon_cursor = 0, cy_cycle_ns = cycle_ns, cy_lat_min = 0xFFFFFFFF, cy_lat_max = 0,
      cy_dc_diff_ns = 0, cy_dc_diff_max_ns = 0, cy_dc_valid = False, cy_cia402 = cia402_new\<rparr>"

definition cyclic_stations :: "cyclic \<Rightarrow> u16 list" where
  "cyclic_stations c = foldl (\<lambda>v s. push_drop EC_MAX_SLAVES v (rt_station s)) [] (cy_slaves c)"

section \<open>Reporting\<close>

definition PERCLK_HZ :: u32 where "PERCLK_HZ = 24000000"

definition ticks_to_ns :: "u32 \<Rightarrow> u32" where
  "ticks_to_ns ticks = ucast ((ucast ticks :: u64) * 1000000000 div ucast PERCLK_HZ)"

definition ticks_to_core_cyc :: "u32 \<Rightarrow> u32 \<Rightarrow> u32" where
  "ticks_to_core_cyc core_hz ticks = ucast ((ucast ticks :: u64) * ucast core_hz div ucast PERCLK_HZ)"

text \<open>\<^verbatim>\<open>saturating_sub\<close> on u32.\<close>

definition sat_sub :: "u32 \<Rightarrow> u32 \<Rightarrow> u32" where
  "sat_sub a b = (if b \<le> a then a - b else 0)"

text \<open>The core clock is a build parameter (\<^verbatim>\<open>CORE_CLOCK_HZ\<close>).\<close>

definition cyclic_read_status :: "u32 \<Rightarrow> cyclic \<Rightarrow> cyclic_status" where
  "cyclic_read_status core_hz c =
     (let min_ticks = (if cy_lat_min c = 0xFFFFFFFF then 0 else cy_lat_min c);
          max_ticks = cy_lat_max c
      in \<lparr>st_phase = cy_phase c, st_wkc = last_wkc (cy_domain c),
          st_expected_wkc = expected_wkc (cy_domain c), st_cycles = cy_total_cycles c,
          st_rate_hz = (if cy_cycle_ns c \<noteq> 0 then ucast (1000000000 div cy_cycle_ns c) else 0),
          st_period_us = ucast (cy_cycle_ns c div 1000),
          st_latency_min_ns = ticks_to_ns min_ticks, st_latency_max_ns = ticks_to_ns max_ticks,
          st_jitter_ns = ticks_to_ns (sat_sub max_ticks min_ticks),
          st_latency_max_cyc = ticks_to_core_cyc core_hz max_ticks,
          st_dc_diff_ns = cy_dc_diff_ns c, st_dc_diff_max_ns = cy_dc_diff_max_ns c,
          st_dc_valid = cy_dc_valid c\<rparr>)"

definition record_latency :: "u32 \<Rightarrow> cyclic \<Rightarrow> cyclic" where
  "record_latency ticks c =
     (let c = (if ticks < cy_lat_min c then c\<lparr>cy_lat_min := ticks\<rparr> else c)
      in if ticks > cy_lat_max c then c\<lparr>cy_lat_max := ticks\<rparr> else c)"

text \<open>\<open>lat\<close> is the value read from the timer.\<close>

definition begin_tick :: "u32 \<Rightarrow> cyclic \<Rightarrow> cyclic" where
  "begin_tick lat c =
     (let c = record_latency lat c in c\<lparr>cy_total_cycles := cy_total_cycles c + 1\<rparr>)"

section \<open>Receiving\<close>

definition decode_dc_diff :: "u32 \<Rightarrow> u32" where
  "decode_dc_diff raw =
     (let mag = raw AND 0x7FFFFFFF in if raw AND 0x80000000 \<noteq> 0 then - mag else mag)"

definition unsigned_abs :: "u32 \<Rightarrow> u32" where
  "unsigned_abs v = (if sint v < 0 then - v else v)"

definition decode_appended :: "appended \<Rightarrow> reply \<Rightarrow> applied_reply option" where
  "decode_appended kind r =
     (case kind of
        AppControl \<Rightarrow> Some ApNone
      | AppDcArmw \<Rightarrow> Some ApNone
      | AppStatus i \<Rightarrow>
          if rp_wkc r = 0 then Some ApNone
          else
            let status = get_or 0 (rp_data r) 0
            in if status AND al_ERROR \<noteq> 0 then Some ApFault
               else if status AND al_MASK = al_OP then Some (ApOpReached i)
               else Some ApNone
      | AppAlPoll \<Rightarrow>
          if rp_wkc r = 0 then Some ApNone
          else
            let status = get_or 0 (rp_data r) 0
            in if status AND al_ERROR \<noteq> 0 \<or> status AND al_MASK \<noteq> al_OP then Some ApFault
               else Some ApNone
      | AppDcDiff \<Rightarrow>
          if rp_wkc r > 0 \<and> length (rp_data r) \<ge> 4 then do {
            a \<leftarrow> idx (rp_data r) 0;
            b \<leftarrow> idx (rp_data r) 1;
            c \<leftarrow> idx (rp_data r) 2;
            e \<leftarrow> idx (rp_data r) 3;
            Some (ApDrift (decode_dc_diff (of_le32 a b c e))) }
          else Some ApNone)"

text \<open>The walk over the appended datagrams.\<close>

fun collect_actions ::
  "bytes \<Rightarrow> appended list \<Rightarrow> nat \<Rightarrow> applied_reply list \<Rightarrow> applied_reply list option" where
  "collect_actions frame [] nxt acts = Some acts"
| "collect_actions frame (k # ks) nxt acts =
     (if nxt = 0 then Some acts
      else do {
        r \<leftarrow> parse_at frame nxt;
        case r of
          None \<Rightarrow> Some acts
        | Some (dg, n2) \<Rightarrow> do {
            a \<leftarrow> decode_appended k dg;
            collect_actions frame ks n2 (push_drop MAX_APPENDED acts a) } })"

definition apply_action :: "cyclic \<Rightarrow> applied_reply \<Rightarrow> cyclic" where
  "apply_action c a =
     (case a of
        ApOpReached i \<Rightarrow>
          if i < length (cy_slaves c)
          then c\<lparr>cy_slaves := (cy_slaves c)[i := (cy_slaves c ! i)\<lparr>rt_reached_op := True\<rparr>]\<rparr>
          else c
      | ApFault \<Rightarrow> c\<lparr>cy_phase := Faulted\<rparr>
      | ApDrift v \<Rightarrow>
          let c = c\<lparr>cy_dc_diff_ns := v, cy_dc_valid := True\<rparr>
          in if unsigned_abs v > unsigned_abs (cy_dc_diff_max_ns c) then c\<lparr>cy_dc_diff_max_ns := v\<rparr> else c
      | ApNone \<Rightarrow> c)"

definition all_reached_op :: "cyclic \<Rightarrow> bool" where
  "all_reached_op c \<longleftrightarrow> list_all rt_reached_op (cy_slaves c)"

text \<open>The part of \<^verbatim>\<open>process\<close> after the receive buffer is released.\<close>

definition process_effects :: "u16 \<Rightarrow> applied_reply list \<Rightarrow> cyclic \<Rightarrow> cyclic" where
  "process_effects lrw_wkc actions c =
     (let c = (if lrw_wkc > 0
               then c\<lparr>cy_good_cycles := (if cy_good_cycles c = 0xFFFFFFFF then 0xFFFFFFFF
                                          else cy_good_cycles c + 1)\<rparr>
               else c\<lparr>cy_good_cycles := 0\<rparr>);
          c = (if cy_phase c = Priming \<and> cy_good_cycles c \<ge> PRIMING_CYCLES
               then c\<lparr>cy_phase := RequestingOp\<rparr> else c);
          c = foldl apply_action c actions
      in if cy_phase c = RequestingOp \<and> all_reached_op c then c\<lparr>cy_phase := Operational\<rparr> else c)"

definition cyclic_process :: "cyclic \<Rightarrow> nat \<Rightarrow> cyclic option" where
  "cyclic_process c len = do {
     frame \<leftarrow> slice (cy_rx c) 0 len;
     r \<leftarrow> parse_at frame EC_FRAME_HEADER_SIZE;
     case r of
       None \<Rightarrow> Some c
     | Some (lrw, nxt) \<Rightarrow> do {
         (dom, _) \<leftarrow> apply_reply (cy_domain c) lrw;
         actions \<leftarrow> collect_actions frame (cy_appended c) nxt [];
         Some (process_effects (rp_wkc lrw) actions (c\<lparr>cy_domain := dom\<rparr>)) } }"

fun receive_loop :: "nat \<Rightarrow> cyclic \<Rightarrow> device \<Rightarrow> (cyclic \<times> device) option" where
  "receive_loop 0 c d = Some (c, d)"
| "receive_loop (Suc n) c d = do {
     (d, rx, r) \<leftarrow> dev_poll d (cy_rx c);
     let c = c\<lparr>cy_rx := rx\<rparr>;
     case r of
       None \<Rightarrow> Some (c, d)
     | Some len \<Rightarrow> do {
         hit \<leftarrow> (if len \<ge> 4 then do { x \<leftarrow> idx rx 3; Some (x = cy_expected_index c) } else Some False);
         if hit then do { c \<leftarrow> cyclic_process c len; Some (c, d) }
         else receive_loop n c d } }"

definition cyclic_receive :: "cyclic \<Rightarrow> device \<Rightarrow> (cyclic \<times> device) option" where
  "cyclic_receive = receive_loop ECAT_RX_LEN"

section \<open>Sending\<close>

definition follower_station :: "cyclic \<Rightarrow> u16" where
  "follower_station c =
     (case find (\<lambda>s. rt_ring_pos s \<noteq> cy_ref_ring_pos c) (cy_slaves c) of
        Some s \<Rightarrow> rt_station s
      | None \<Rightarrow> (case cy_slaves c of s # _ \<Rightarrow> rt_station s | [] \<Rightarrow> 0))"

text \<open>\<^verbatim>\<open>self.tx_len = datagram::append(..); let _ = self.appended.push(kind);\<close>\<close>

definition cyclic_append ::
  "cyclic \<Rightarrow> u8 \<Rightarrow> command \<Rightarrow> u16 \<Rightarrow> u16 \<Rightarrow> bytes \<Rightarrow> appended \<Rightarrow> cyclic option" where
  "cyclic_append c i cmd adp ado payload kind = do {
     (tx, n) \<leftarrow> append (cy_tx c) i cmd adp ado payload;
     Some (c\<lparr>cy_tx := tx, cy_tx_len := n, cy_appended := push_drop MAX_APPENDED (cy_appended c) kind\<rparr>) }"

text \<open>\<^verbatim>\<open>while self.op_cursor < self.slaves.len() && self.slaves[self.op_cursor].reached_op\<close>\<close>

function op_seek :: "slave_rt list \<Rightarrow> nat \<Rightarrow> bool \<Rightarrow> nat \<times> bool" where
  "op_seek slaves cursor ctrl =
     (if cursor < length slaves \<and> rt_reached_op (slaves ! cursor) then op_seek slaves (cursor + 1) True
      else (cursor, ctrl))"
  by pat_completeness auto
termination
  by (relation "measure (\<lambda>(slaves, cursor, ctrl). length slaves - cursor)") auto

declare op_seek.simps [simp del]

definition append_op_request :: "cyclic \<Rightarrow> u8 \<Rightarrow> (cyclic \<times> u8) option" where
  "append_op_request c ix =
     (let (cursor, ctrl) = op_seek (cy_slaves c) (cy_op_cursor c) (cy_op_ctrl_phase c);
          c = c\<lparr>cy_op_cursor := cursor, cy_op_ctrl_phase := ctrl\<rparr>
      in if cursor < length (cy_slaves c) then do {
           let station = rt_station (cy_slaves c ! cursor);
           let (ai, ix) = alloc_index ix;
           c \<leftarrow> (if ctrl then cyclic_append c ai Fpwr station reg_AL_CONTROL [al_OP, 0] AppControl
                  else cyclic_append c ai Fprd station reg_AL_STATUS [0, 0] (AppStatus cursor));
           Some (c\<lparr>cy_op_ctrl_phase := \<not> ctrl\<rparr>, ix) }
         else Some (c, ix))"

definition append_monitor :: "cyclic \<Rightarrow> u8 \<Rightarrow> (cyclic \<times> u8) option" where
  "append_monitor c ix =
     (if length (cy_slaves c) \<le> 1 then
        (case cy_slaves c of
           [] \<Rightarrow> Some (c, ix)
         | s # _ \<Rightarrow> do {
             let (ai, ix) = alloc_index ix;
             c \<leftarrow> cyclic_append c ai Fprd (rt_station s) reg_DC_SYS_TIME_DIFF (replicate 4 0) AppDcDiff;
             Some (c, ix) })
      else do {
        let (ai, ix) = alloc_index ix;
        c \<leftarrow> cyclic_append c ai Armw (autoinc_adp (cy_ref_ring_pos c)) reg_DC_SYS_TIME (replicate 8 0) AppDcArmw;
        let (ti, ix) = alloc_index ix;
        c \<leftarrow> (if cy_mon_toggle c
               then cyclic_append c ti Fprd (follower_station c) reg_DC_SYS_TIME_DIFF (replicate 4 0) AppDcDiff
               else do {
                 let c = c\<lparr>cy_mon_cursor := (cy_mon_cursor c + 1) mod length (cy_slaves c)\<rparr>;
                 s \<leftarrow> idx (cy_slaves c) (cy_mon_cursor c);
                 cyclic_append c ti Fprd (rt_station s) reg_AL_STATUS [0, 0] AppAlPoll });
        Some (c\<lparr>cy_mon_toggle := \<not> cy_mon_toggle c\<rparr>, ix) })"

text \<open>The frame of this cycle, in \<open>cy_tx\<close>.\<close>

definition cyclic_build :: "cyclic \<Rightarrow> u8 \<Rightarrow> (cyclic \<times> u8) option" where
  "cyclic_build c ix = do {
     let (i, ix) = alloc_index ix;
     (tx, n) \<leftarrow> build_lrw (cy_domain c) (cy_tx c) i;
     let c = c\<lparr>cy_tx := tx, cy_tx_len := n, cy_expected_index := i, cy_appended := []\<rparr>;
     if cy_phase c = RequestingOp then append_op_request c ix
     else if cy_phase c = Operational then append_monitor c ix
     else Some (c, ix) }"

definition cyclic_send :: "cyclic \<Rightarrow> device \<Rightarrow> u8 \<Rightarrow> (cyclic \<times> device \<times> u8) option" where
  "cyclic_send c d ix = do {
     (c, ix) \<leftarrow> cyclic_build c ix;
     frame \<leftarrow> slice (cy_tx c) 0 (cy_tx_len c);
     (d, r) \<leftarrow> dev_send d frame;
     Some (c\<lparr>cy_outstanding := (case r of Inl _ \<Rightarrow> False | Inr _ \<Rightarrow> True)\<rparr>, d, ix) }"

section \<open>Ticks\<close>

definition cyclic_collect :: "u32 \<Rightarrow> cyclic \<Rightarrow> device \<Rightarrow> (cyclic \<times> device) option" where
  "cyclic_collect lat c d =
     (let c = begin_tick lat c
      in if cy_outstanding c then do {
           (c, d) \<leftarrow> cyclic_receive c d;
           Some (c\<lparr>cy_outstanding := False\<rparr>, d) }
         else Some (c, d))"

definition cyclic_tick :: "u32 \<Rightarrow> cyclic \<Rightarrow> device \<Rightarrow> u8 \<Rightarrow> (cyclic \<times> device \<times> u8) option" where
  "cyclic_tick lat c d ix = do {
     (c, d) \<leftarrow> cyclic_collect lat c d;
     cyclic_send c d ix }"

definition apply_drive_control :: "cyclic \<Rightarrow> host_bridge \<Rightarrow> bool \<Rightarrow> bool \<Rightarrow> cyclic option" where
  "apply_drive_control c h host_timeout underrun =
     (if \<not> has_host h \<or> \<not> has_drives (cy_cia402 c) then Some c
      else do {
        let quick_stop = (quick_stop_requested h \<or> host_timeout \<or> underrun \<or> cy_phase c = Faulted);
        let cmd = \<lparr>dc_enable = enable_requested h, dc_fault_reset = fault_reset_requested h,
                   dc_quick_stop = quick_stop\<rparr>;
        img \<leftarrow> domain_image (cy_domain c);
        let (drives, img) = cia402_step (cy_cia402 c) img cmd;
        dom \<leftarrow> domain_image_mut (cy_domain c) (\<lambda>_. Some img);
        Some (c\<lparr>cy_cia402 := drives, cy_domain := dom\<rparr>) })"

definition phase_code :: "cyclic_phase \<Rightarrow> u8" where
  "phase_code p = (case p of Priming \<Rightarrow> 0 | RequestingOp \<Rightarrow> 1 | Operational \<Rightarrow> 2 | Faulted \<Rightarrow> 3)"

definition cyclic_reply_status :: "cyclic \<Rightarrow> bool \<Rightarrow> bool \<Rightarrow> reply_status option" where
  "cyclic_reply_status c host_timeout underrun = do {
     img \<leftarrow> domain_image (cy_domain c);
     let ff = (0 :: u8);
     let ff = (if cy_phase c = Faulted then ff OR 1 else ff);
     let ff = (if any_fault (cy_cia402 c) img then ff OR 2 else ff);
     let ff = (if host_timeout then ff OR 4 else ff);
     let ff = (if underrun then ff OR 8 else ff);
     Some \<lparr>rs_link_up = (last_wkc (cy_domain c) > 0), rs_phase = phase_code (cy_phase c),
           rs_wkc = ucast (min (last_wkc (cy_domain c)) 255),
           rs_expected_wkc = ucast (min (expected_wkc (cy_domain c)) 255),
           rs_cycle_index = cy_total_cycles c, rs_fault_flags = ff, rs_host_timeout = host_timeout\<rparr> }"

text \<open>The outputs of a host tick: from the staged frame, then the drive control.\<close>

definition host_outputs ::
  "stream_layout \<Rightarrow> cyclic \<Rightarrow> host_bridge \<Rightarrow> bool \<Rightarrow> (cyclic \<times> host_bridge \<times> bool) option" where
  "host_outputs lay c h host_timeout = do {
     img \<leftarrow> domain_image (cy_domain c);
     (h, img) \<leftarrow> host_apply_outputs lay h img (cy_total_cycles c);
     dom \<leftarrow> domain_image_mut (cy_domain c) (\<lambda>_. Some img);
     let c = c\<lparr>cy_domain := dom\<rparr>;
     let underrun = motion_underrun h;
     c \<leftarrow> apply_drive_control c h host_timeout underrun;
     Some (c, h, underrun) }"

definition tick_with_host ::
  "stream_layout \<Rightarrow> u32 \<Rightarrow> cyclic \<Rightarrow> device \<Rightarrow> u8 \<Rightarrow> host_bridge \<Rightarrow>
     (cyclic \<times> device \<times> u8 \<times> host_bridge) option" where
  "tick_with_host lay lat c d ix h = do {
     (c, d) \<leftarrow> cyclic_collect lat c d;
     let (h, stall) = tick_watchdog h;
     let host_timeout = (stall \<ge> HOST_WDOG_LIMIT_CYCLES);
     (c, h, underrun) \<leftarrow> host_outputs lay c h host_timeout;
     (c, d, ix) \<leftarrow> cyclic_send c d ix;
     st \<leftarrow> cyclic_reply_status c host_timeout underrun;
     img \<leftarrow> domain_image (cy_domain c);
     h \<leftarrow> build_host_reply h img st;
     Some (c, d, ix, h) }"

section \<open>The frame of a cycle\<close>

definition cyclic_wf :: "cyclic \<Rightarrow> bool" where
  "cyclic_wf c \<longleftrightarrow> domain_wf (cy_domain c) \<and> length (cy_tx c) = 576 \<and> length (cy_rx c) = 576 \<and>
     length (cy_slaves c) \<le> 32"

text \<open>What is appended to the LRW in a cycle, with the kind recorded for the reply; \<open>ix\<close> is the
  first free datagram index.\<close>

definition op_tail :: "cyclic \<Rightarrow> u8 \<Rightarrow> (dgram \<times> appended) list" where
  "op_tail c ix =
     (let (cursor, ctrl) = op_seek (cy_slaves c) (cy_op_cursor c) (cy_op_ctrl_phase c)
      in if cursor < length (cy_slaves c) then
           let station = rt_station (cy_slaves c ! cursor)
           in [if ctrl then (request ix Fpwr station reg_AL_CONTROL [al_OP, 0], AppControl)
               else (request ix Fprd station reg_AL_STATUS [0, 0], AppStatus cursor)]
         else [])"

definition monitor_tail :: "cyclic \<Rightarrow> u8 \<Rightarrow> (dgram \<times> appended) list" where
  "monitor_tail c ix =
     (case cy_slaves c of
        [] \<Rightarrow> []
      | [s] \<Rightarrow> [(request ix Fprd (rt_station s) reg_DC_SYS_TIME_DIFF (replicate 4 0), AppDcDiff)]
      | _ \<Rightarrow>
          [(request ix Armw (autoinc_adp (cy_ref_ring_pos c)) reg_DC_SYS_TIME (replicate 8 0), AppDcArmw),
           if cy_mon_toggle c
           then (request (ix + 1) Fprd (follower_station c) reg_DC_SYS_TIME_DIFF (replicate 4 0), AppDcDiff)
           else (request (ix + 1) Fprd
                   (rt_station (cy_slaves c ! ((cy_mon_cursor c + 1) mod length (cy_slaves c))))
                   reg_AL_STATUS [0, 0], AppAlPoll)])"

definition cycle_tail :: "cyclic \<Rightarrow> u8 \<Rightarrow> (dgram \<times> appended) list" where
  "cycle_tail c ix =
     (case cy_phase c of RequestingOp \<Rightarrow> op_tail c ix | Operational \<Rightarrow> monitor_tail c ix | _ \<Rightarrow> [])"

definition live_image :: "cyclic \<Rightarrow> bytes" where
  "live_image c = take (dom_len (cy_domain c)) (dom_image (cy_domain c))"

definition cycle_frame :: "cyclic \<Rightarrow> u8 \<Rightarrow> dgram list" where
  "cycle_frame c ix = request ix Lrw 0 0 (live_image c) # map fst (cycle_tail c (ix + 1))"

text \<open>\<open>built c ds ks\<close>: the transmit buffer of \<open>c\<close> holds the datagrams \<open>ds\<close>, recorded as \<open>ks\<close>.\<close>

definition built :: "cyclic \<Rightarrow> dgram list \<Rightarrow> appended list \<Rightarrow> bool" where
  "built c ds ks \<longleftrightarrow> ds \<noteq> [] \<and> (\<exists>rest. cy_tx c = frame_bytes ds @ rest) \<and>
     cy_tx_len c = length (frame_bytes ds) \<and> cy_appended c = ks"

text \<open>The fields that building a frame leaves alone.\<close>

definition same_engine :: "cyclic \<Rightarrow> cyclic \<Rightarrow> bool" where
  "same_engine c c' \<longleftrightarrow>
     cy_domain c' = cy_domain c \<and> cy_slaves c' = cy_slaves c \<and> cy_phase c' = cy_phase c \<and>
     cy_cia402 c' = cy_cia402 c \<and> length (cy_tx c') = length (cy_tx c) \<and> cy_rx c' = cy_rx c \<and>
     cy_ref_ring_pos c' = cy_ref_ring_pos c \<and> cy_total_cycles c' = cy_total_cycles c"

lemma same_engine_wf: "same_engine c c' \<Longrightarrow> cyclic_wf c \<Longrightarrow> cyclic_wf c'"
  by (simp add: same_engine_def cyclic_wf_def)

lemma same_engine_refl [simp]: "same_engine c c"
  by (simp add: same_engine_def)

lemma same_engine_trans: "same_engine a b \<Longrightarrow> same_engine b c \<Longrightarrow> same_engine a c"
  by (simp add: same_engine_def)

lemma cyclic_append_built:
  assumes b: "built c ds ks" and wf: "cyclic_wf c" and room: "14 + dgrams_len ds + length payload \<le> 576"
    and ks: "length ks < 3"
  obtains c' where "cyclic_append c i cmd adp ado payload k = Some c'"
    "built c' (ds @ [request i cmd adp ado payload]) (ks @ [k])" "same_engine c c'"
    "cy_op_cursor c' = cy_op_cursor c" "cy_op_ctrl_phase c' = cy_op_ctrl_phase c"
    "cy_mon_toggle c' = cy_mon_toggle c" "cy_mon_cursor c' = cy_mon_cursor c"
    "cy_expected_index c' = cy_expected_index c"
proof -
  obtain rest where rest: "cy_tx c = frame_bytes ds @ rest" and ds: "ds \<noteq> []" and kinds: "cy_appended c = ks"
    using b by (auto simp: built_def)
  have l: "length (frame_bytes ds @ rest) = 576" using wf rest by (simp add: cyclic_wf_def)
  let ?n = "max 46 (14 + dgrams_len ds + length payload)"
  have "append (cy_tx c) i cmd adp ado payload =
      Some (frame_bytes (ds @ [request i cmd adp ado payload]) @ drop (?n - max 46 (2 + dgrams_len ds)) rest, ?n)"
    unfolding rest by (rule append_frame [OF ds]) (use room l in auto)
  moreover have "length (frame_bytes (ds @ [request i cmd adp ado payload])) = ?n"
    by (simp add: request_def)
  moreover have "length (frame_bytes (ds @ [request i cmd adp ado payload]) @
      drop (?n - max 46 (2 + dgrams_len ds)) rest) = 576"
    using l room by (simp add: request_def)
  moreover define tx where "tx = frame_bytes (ds @ [request i cmd adp ado payload]) @
      drop (?n - max 46 (2 + dgrams_len ds)) rest"
  ultimately have a: "append (cy_tx c) i cmd adp ado payload = Some (tx, ?n)" "length tx = 576"
      "length (frame_bytes (ds @ [request i cmd adp ado payload])) = ?n"
    by (simp_all only: tx_def)
  let ?c = "c\<lparr>cy_tx := tx, cy_tx_len := ?n, cy_appended := ks @ [k]\<rparr>"
  have "cyclic_append c i cmd adp ado payload k = Some ?c"
    using a(1) ks kinds by (simp add: cyclic_append_def push_drop_room)
  moreover have "built ?c (ds @ [request i cmd adp ado payload]) (ks @ [k])"
    using a(3) by (auto simp: built_def tx_def)
  moreover have "same_engine c ?c" using a(2) wf by (simp add: same_engine_def cyclic_wf_def)
  ultimately show thesis by (rule that) simp_all
qed

lemma lrw_len: "domain_wf (cy_domain c) \<Longrightarrow> dgrams_len [request ix Lrw 0 0 (live_image c)] \<le> 12 + 512"
  by (simp add: request_def live_image_def domain_wf_def)

lemma append_op_request_built:
  assumes b: "built c ds []" and wf: "cyclic_wf c" and room: "dgrams_len ds \<le> 524"
  obtains c' ix' where "append_op_request c ix = Some (c', ix')"
    "built c' (ds @ map fst (op_tail c ix)) (map snd (op_tail c ix))" "same_engine c c'"
    "cy_expected_index c' = cy_expected_index c"
proof -
  obtain cursor ctrl where seek: "op_seek (cy_slaves c) (cy_op_cursor c) (cy_op_ctrl_phase c) = (cursor, ctrl)"
    by (rule prod.exhaust)
  let ?c = "c\<lparr>cy_op_cursor := cursor, cy_op_ctrl_phase := ctrl\<rparr>"
  have bc: "built ?c ds []" "cyclic_wf ?c" "same_engine c ?c"
    using b wf by (simp_all add: built_def cyclic_wf_def same_engine_def)
  show thesis
  proof (cases "cursor < length (cy_slaves c)")
    case False
    then show thesis
      using that [of ?c ix] bc seek by (simp add: append_op_request_def op_tail_def)
  next
    case True
    let ?st = "rt_station (cy_slaves c ! cursor)"
    define cmd where "cmd = (if ctrl then Fpwr else Fprd)"
    define ado where "ado = (if ctrl then reg_AL_CONTROL else reg_AL_STATUS)"
    define pl where "pl = (if ctrl then [al_OP, 0] else [0, 0 :: u8])"
    define k where "k = (if ctrl then AppControl else AppStatus cursor)"
    have "length pl = 2" by (simp add: pl_def)
    then have r: "14 + dgrams_len ds + length pl \<le> 576" using room by simp
    obtain c1 where c1: "cyclic_append ?c ix cmd ?st ado pl k = Some c1"
        "built c1 (ds @ [request ix cmd ?st ado pl]) ([] @ [k])" "same_engine ?c c1"
        "cy_expected_index c1 = cy_expected_index ?c"
      using cyclic_append_built [OF bc(1,2) r, of ix cmd ?st ado k] by auto
    let ?c1 = "c1\<lparr>cy_op_ctrl_phase := \<not> ctrl\<rparr>"
    have "append_op_request c ix = Some (?c1, ix + 1)"
      using True seek c1(1) by (simp add: append_op_request_def alloc_index_def cmd_def ado_def pl_def k_def split: if_splits)
    moreover have "op_tail c ix = [(request ix cmd ?st ado pl, k)]"
      using True seek by (simp add: op_tail_def cmd_def ado_def pl_def k_def)
    ultimately show thesis
      using that [of ?c1 "ix + 1"] c1 bc(3) by (simp add: built_def same_engine_def)
  qed
qed

lemma append_monitor_built:
  assumes b: "built c ds []" and wf: "cyclic_wf c" and room: "dgrams_len ds \<le> 524"
  obtains c' ix' where "append_monitor c ix = Some (c', ix')"
    "built c' (ds @ map fst (monitor_tail c ix)) (map snd (monitor_tail c ix))" "same_engine c c'"
    "cy_expected_index c' = cy_expected_index c"
proof (cases "cy_slaves c")
  case Nil
  then show thesis using that [of c ix] b by (simp add: append_monitor_def monitor_tail_def)
next
  case (Cons s ss)
  show thesis
  proof (cases "ss = []")
    case True
    have r: "14 + dgrams_len ds + length (replicate 4 (0 :: u8)) \<le> 576" using room by simp
    obtain c1 where "cyclic_append c ix Fprd (rt_station s) reg_DC_SYS_TIME_DIFF (replicate 4 0) AppDcDiff = Some c1"
        "built c1 (ds @ [request ix Fprd (rt_station s) reg_DC_SYS_TIME_DIFF (replicate 4 0)]) ([] @ [AppDcDiff])"
        "same_engine c c1" "cy_expected_index c1 = cy_expected_index c"
      using cyclic_append_built [OF b wf r, of ix Fprd "rt_station s" reg_DC_SYS_TIME_DIFF AppDcDiff] by auto
    then show thesis
      using that [of c1 "ix + 1"] Cons True by (simp add: append_monitor_def monitor_tail_def alloc_index_def)
  next
    case False
    have r: "14 + dgrams_len ds + length (replicate 8 (0 :: u8)) \<le> 576" using room by simp
    let ?adp = "autoinc_adp (cy_ref_ring_pos c)"
    let ?armw = "request ix Armw ?adp reg_DC_SYS_TIME (replicate 8 0)"
    obtain c1 where c1: "cyclic_append c ix Armw ?adp reg_DC_SYS_TIME (replicate 8 0) AppDcArmw = Some c1"
        "built c1 (ds @ [?armw]) ([] @ [AppDcArmw])" "same_engine c c1"
        "cy_mon_toggle c1 = cy_mon_toggle c" "cy_mon_cursor c1 = cy_mon_cursor c"
        "cy_expected_index c1 = cy_expected_index c"
      using cyclic_append_built [OF b wf r, of ix Armw ?adp reg_DC_SYS_TIME AppDcArmw] by auto
    let ?cur = "(cy_mon_cursor c + 1) mod length (cy_slaves c)"
    define st where "st = (if cy_mon_toggle c then follower_station c else rt_station (cy_slaves c ! ?cur))"
    define ado where "ado = (if cy_mon_toggle c then reg_DC_SYS_TIME_DIFF else reg_AL_STATUS)"
    define pl where "pl = (if cy_mon_toggle c then replicate 4 0 else [0, 0 :: u8])"
    define k where "k = (if cy_mon_toggle c then AppDcDiff else AppAlPoll)"
    define c2 where "c2 = (if cy_mon_toggle c then c1 else c1\<lparr>cy_mon_cursor := ?cur\<rparr>)"
    have len: "dgrams_len (ds @ [?armw]) = dgrams_len ds + 20" "length pl \<le> 4"
      by (simp_all add: request_def pl_def)
    have r2: "14 + dgrams_len (ds @ [?armw]) + length pl \<le> 576" using len room by linarith
    have b2: "built c2 (ds @ [?armw]) [AppDcArmw]" "cyclic_wf c2" "same_engine c c2"
      using c1 same_engine_wf [OF c1(3) wf] by (auto simp: c2_def built_def cyclic_wf_def same_engine_def)
    obtain c3 where c3: "cyclic_append c2 (ix + 1) Fprd st ado pl k = Some c3"
        "built c3 ((ds @ [?armw]) @ [request (ix + 1) Fprd st ado pl]) ([AppDcArmw] @ [k])" "same_engine c2 c3"
        "cy_mon_toggle c3 = cy_mon_toggle c2" "cy_expected_index c3 = cy_expected_index c2"
      using cyclic_append_built [OF b2(1,2) r2, of "ix + 1" Fprd st ado k] by auto
    let ?c3 = "c3\<lparr>cy_mon_toggle := \<not> cy_mon_toggle c\<rparr>"
    have eqs: "cy_slaves c1 = cy_slaves c" "cy_ref_ring_pos c1 = cy_ref_ring_pos c"
      using c1(3) by (simp_all add: same_engine_def)
    have slaves: "cy_slaves c1 = cy_slaves c" "follower_station c1 = follower_station c"
      unfolding follower_station_def eqs by (rule refl)+
    have cur: "?cur < length (cy_slaves c)" using Cons by (intro mod_less_divisor) simp
    have two: "\<not> length (cy_slaves c) \<le> 1" using Cons False by (cases ss) auto
    have toggle: "cy_mon_toggle c3 = cy_mon_toggle c" using c3(4) c1(4) by (auto simp: c2_def)
    have "append_monitor c ix = Some (?c3, ix + 1 + 1)"
    proof (cases "cy_mon_toggle c")
      case True
      then show ?thesis
        using two c1(1,4) c3(1) slaves toggle
        by (simp add: append_monitor_def alloc_index_def c2_def st_def ado_def pl_def k_def)
    next
      case F: False
      then show ?thesis
        using two c1(1,4,5) c3(1) slaves toggle cur
        by (simp add: append_monitor_def alloc_index_def c2_def st_def ado_def pl_def k_def idx_in)
    qed
    moreover have "monitor_tail c ix = [(?armw, AppDcArmw), (request (ix + 1) Fprd st ado pl, k)]"
      using Cons False by (cases ss) (auto simp: monitor_tail_def st_def ado_def pl_def k_def)
    ultimately show thesis
      using that [of ?c3 "ix + 1 + 1"] c3 b2(3) same_engine_trans [OF b2(3) c3(3)] c1(6)
      by (auto simp: built_def same_engine_def c2_def)
  qed
qed

lemma cyclic_build_frame:
  assumes wf: "cyclic_wf c"
  obtains c' ix' where "cyclic_build c ix = Some (c', ix')" "same_engine c c'" "cy_expected_index c' = ix"
    "built c' (cycle_frame c ix) (map snd (cycle_tail c (ix + 1)))"
proof -
  let ?lrw = "request ix Lrw 0 0 (live_image c)"
  have d: "domain_wf (cy_domain c)" and l: "length (cy_tx c) = 576" using wf by (auto simp: cyclic_wf_def)
  have fits: "14 + dom_len (cy_domain c) \<le> length (cy_tx c)" "46 \<le> length (cy_tx c)"
    using d l by (auto simp: domain_wf_def)
  obtain k where k: "build_lrw (cy_domain c) (cy_tx c) ix = Some (frame_bytes [?lrw] @ drop k (cy_tx c), k)"
      "k = max 46 (14 + dom_len (cy_domain c))"
    using build_lrw_frame [OF d fits, of ix] by (auto simp: live_image_def)
  let ?c = "c\<lparr>cy_tx := frame_bytes [?lrw] @ drop k (cy_tx c), cy_tx_len := k, cy_expected_index := ix, cy_appended := []\<rparr>"
  have len: "length (frame_bytes [?lrw]) = k"
    using d k(2) by (simp add: request_def live_image_def domain_wf_def min_absorb2)
  have c: "built ?c [?lrw] []" "same_engine c ?c" "cyclic_wf ?c"
    using len wf fits k(2) by (auto simp: built_def same_engine_def cyclic_wf_def)
  have room: "dgrams_len [?lrw] \<le> 524" using lrw_len [OF d] by simp
  have tails: "op_tail ?c j = op_tail c j" "monitor_tail ?c j = monitor_tail c j" for j
    by (simp_all add: op_tail_def monitor_tail_def follower_station_def split: list.split option.split prod.split)
  have start: "cyclic_build c ix =
      (if cy_phase c = RequestingOp then append_op_request ?c (ix + 1)
       else if cy_phase c = Operational then append_monitor ?c (ix + 1) else Some (?c, ix + 1))"
    by (simp add: cyclic_build_def alloc_index_def k(1))
  show thesis
  proof (cases "cy_phase c")
    case RequestingOp
    obtain c' ix' where "append_op_request ?c (ix + 1) = Some (c', ix')"
        "built c' ([?lrw] @ map fst (op_tail ?c (ix + 1))) (map snd (op_tail ?c (ix + 1)))" "same_engine ?c c'"
        "cy_expected_index c' = ix"
      using append_op_request_built [OF c(1,3) room, of "ix + 1"] by auto
    then show thesis
      using that [of c' ix'] start RequestingOp same_engine_trans [OF c(2)]
      by (simp add: cycle_frame_def cycle_tail_def tails)
  next
    case Operational
    obtain c' ix' where "append_monitor ?c (ix + 1) = Some (c', ix')"
        "built c' ([?lrw] @ map fst (monitor_tail ?c (ix + 1))) (map snd (monitor_tail ?c (ix + 1)))" "same_engine ?c c'"
        "cy_expected_index c' = ix"
      using append_monitor_built [OF c(1,3) room, of "ix + 1"] by auto
    then show thesis
      using that [of c' ix'] start Operational same_engine_trans [OF c(2)]
      by (simp add: cycle_frame_def cycle_tail_def tails)
  qed (use that [of ?c "ix + 1"] start c in \<open>simp_all add: cycle_frame_def cycle_tail_def\<close>)
qed

section \<open>A tick does not panic\<close>

lemma built_frame_slice:
  assumes "built c ds ks" "cyclic_wf c"
  shows "slice (cy_tx c) 0 (cy_tx_len c) = Some (frame_bytes ds)" "length (frame_bytes ds) \<le> 576"
proof -
  obtain rest where r: "cy_tx c = frame_bytes ds @ rest" using assms(1) by (auto simp: built_def)
  have l: "length (cy_tx c) = 576" using assms(2) by (simp add: cyclic_wf_def)
  show "length (frame_bytes ds) \<le> 576" using l r by simp
  then show "slice (cy_tx c) 0 (cy_tx_len c) = Some (frame_bytes ds)"
    using assms(1) l r by (simp add: built_def)
qed

lemma cyclic_send_built:
  assumes wf: "cyclic_wf c" and dev: "dev_wf d"
  obtains c' d' ix' r where "cyclic_send c d ix = Some (c', d', ix')" "dev_wf d'" "same_engine c c'"
    "cy_expected_index c' = ix" "built c' (cycle_frame c ix) (map snd (cycle_tail c (ix + 1)))"
    "dev_send d (frame_bytes (cycle_frame c ix)) = Some (d', r)" "cy_outstanding c' = (r = Inr ())"
proof -
  note result = that
  obtain c1 ix1 where b: "cyclic_build c ix = Some (c1, ix1)" "same_engine c c1" "cy_expected_index c1 = ix"
      "built c1 (cycle_frame c ix) (map snd (cycle_tail c (ix + 1)))"
    using cyclic_build_frame [OF wf] by metis
  have wf1: "cyclic_wf c1" using same_engine_wf [OF b(2) wf] .
  note f = built_frame_slice [OF b(4) wf1]
  have len: "length (frame_bytes (cycle_frame c ix)) + 14 \<le> ECAT_MTU" using f(2) by simp
  have sent: thesis if s: "dev_send d (frame_bytes (cycle_frame c ix)) = Some (d', r)" "dev_wf d'" for d' r
  proof -
    let ?c = "c1\<lparr>cy_outstanding := (case r of Inl _ \<Rightarrow> False | Inr _ \<Rightarrow> True)\<rparr>"
    have "cyclic_send c d ix = Some (?c, d', ix1)" using b(1) f(1) s(1) by (simp add: cyclic_send_def)
    moreover have "(case r of Inl _ \<Rightarrow> False | Inr _ \<Rightarrow> True) = (r = Inr ())"
      by (cases r) simp_all
    ultimately show thesis
      using b(2-4) s result [where c' = ?c] by (simp add: same_engine_def built_def)
  qed
  show thesis
    by (rule dev_send_cases [OF dev len]) (use sent dev in blast)+
qed

lemma decode_appended_total: "\<exists>a. decode_appended k r = Some a"
  by (cases k) (auto simp: decode_appended_def Let_def idx_def)

lemma collect_actions_total:
  "length acts \<le> 3 \<Longrightarrow> \<exists>as. collect_actions frame ks nxt acts = Some as \<and> length as \<le> length acts + length ks"
proof (induction ks arbitrary: nxt acts)
  case Nil
  then show ?case by simp
next
  case (Cons k ks)
  show ?case
  proof (cases "nxt = 0")
    case False
    obtain r where r: "parse_at frame nxt = Some r" using parse_at_total by blast
    show ?thesis
    proof (cases r)
      case (Some p)
      obtain dg n2 where p: "p = (dg, n2)" by (cases p)
      obtain a where a: "decode_appended k dg = Some a" using decode_appended_total by blast
      have "length (push_drop 3 acts a) \<le> 3" "length (push_drop 3 acts a) \<le> length acts + 1"
        using Cons.prems by (auto simp: push_drop_def vec_push_def)
      then show ?thesis
        using Cons.IH [of "push_drop 3 acts a" n2] r Some p a False by fastforce
    qed (use r in simp)
  qed simp
qed

text \<open>What processing a reply leaves alone.\<close>

lemma apply_action_fields [simp]:
  "cy_domain (apply_action c a) = cy_domain c" "cy_tx (apply_action c a) = cy_tx c"
  "cy_rx (apply_action c a) = cy_rx c" "length (cy_slaves (apply_action c a)) = length (cy_slaves c)"
  "cy_cia402 (apply_action c a) = cy_cia402 c" "cy_appended (apply_action c a) = cy_appended c"
  "cy_total_cycles (apply_action c a) = cy_total_cycles c"
  by (simp_all add: apply_action_def Let_def split: applied_reply.split)

lemma foldl_action_fields [simp]:
  "cy_domain (foldl apply_action c as) = cy_domain c" "cy_tx (foldl apply_action c as) = cy_tx c"
  "cy_rx (foldl apply_action c as) = cy_rx c"
  "length (cy_slaves (foldl apply_action c as)) = length (cy_slaves c)"
  "cy_cia402 (foldl apply_action c as) = cy_cia402 c" "cy_appended (foldl apply_action c as) = cy_appended c"
  "cy_total_cycles (foldl apply_action c as) = cy_total_cycles c"
  by (induction as arbitrary: c) simp_all

lemma process_effects_fields [simp]:
  "cy_domain (process_effects w as c) = cy_domain c" "cy_tx (process_effects w as c) = cy_tx c"
  "cy_rx (process_effects w as c) = cy_rx c"
  "length (cy_slaves (process_effects w as c)) = length (cy_slaves c)"
  "cy_cia402 (process_effects w as c) = cy_cia402 c" "cy_appended (process_effects w as c) = cy_appended c"
  "cy_total_cycles (process_effects w as c) = cy_total_cycles c"
  by (simp_all add: process_effects_def Let_def)

lemma cyclic_process_cases:
  assumes wf: "cyclic_wf c" and len: "len \<le> 576"
  obtains "cyclic_process c len = Some c"
  | lrw nxt dom st acts where "parse_at (take len (cy_rx c)) 2 = Some (Some (lrw, nxt))"
      "apply_reply (cy_domain c) lrw = Some (dom, st)" "domain_wf dom" "dom_len dom = dom_len (cy_domain c)"
      "collect_actions (take len (cy_rx c)) (cy_appended c) nxt [] = Some acts"
      "length acts \<le> length (cy_appended c)"
      "cyclic_process c len = Some (process_effects (rp_wkc lrw) acts (c\<lparr>cy_domain := dom\<rparr>))"
proof -
  have s: "slice (cy_rx c) 0 len = Some (take len (cy_rx c))"
    using wf len by (simp add: cyclic_wf_def)
  obtain r where r: "parse_at (take len (cy_rx c)) 2 = Some r" using parse_at_total by blast
  show thesis
  proof (cases r)
    case None
    then show thesis using that(1) s r by (simp add: cyclic_process_def)
  next
    case (Some p)
    obtain lrw nxt where p: "p = (lrw, nxt)" by (cases p)
    have d: "domain_wf (cy_domain c)" using wf by (simp add: cyclic_wf_def)
    obtain dom st where dom: "apply_reply (cy_domain c) lrw = Some (dom, st)" "domain_wf dom"
        "dom_len dom = dom_len (cy_domain c)"
      using apply_reply_effect [OF d] by metis
    obtain acts where acts: "collect_actions (take len (cy_rx c)) (cy_appended c) nxt [] = Some acts"
        "length acts \<le> length (cy_appended c)"
      using collect_actions_total [of "[]"] by fastforce
    show thesis
      using that(2) [OF _ dom acts] s r Some p dom(1) acts(1) by (simp add: cyclic_process_def)
  qed
qed

lemma cyclic_process_total:
  assumes "cyclic_wf c" "len \<le> 576"
  shows "\<exists>c'. cyclic_process c len = Some c' \<and> cyclic_wf c' \<and> cy_appended c' = cy_appended c \<and>
    cy_cia402 c' = cy_cia402 c \<and> cy_total_cycles c' = cy_total_cycles c \<and>
    length (cy_slaves c') = length (cy_slaves c) \<and> dom_len (cy_domain c') = dom_len (cy_domain c)"
  by (rule cyclic_process_cases [OF assms]) (use assms(1) in \<open>auto simp: cyclic_wf_def\<close>)

text \<open>Receiving either keeps everything but the receive buffer or processes one matching frame.\<close>

lemma receive_loop_cases:
  assumes "cyclic_wf c" "dev_wf d"
  obtains (none) rx d' where "receive_loop n c d = Some (c\<lparr>cy_rx := rx\<rparr>, d')" "dev_wf d'" "length rx = 576"
  | (frame) rx d' len c' where "receive_loop n c d = Some (c', d')" "dev_wf d'" "length rx = 576"
      "cyclic_process (c\<lparr>cy_rx := rx\<rparr>) len = Some c'" "4 \<le> len" "len \<le> 576" "rx ! 3 = cy_expected_index c"
  using assms
proof (induction n arbitrary: c d thesis)
  case 0
  have "receive_loop 0 c d = Some (c\<lparr>cy_rx := cy_rx c\<rparr>, d)" by simp
  then show ?case by (rule "0.prems"(1)) (use "0.prems" in \<open>simp_all add: cyclic_wf_def\<close>)
next
  case (Suc n)
  have rx: "length (cy_rx c) = 576" using Suc.prems(3) by (simp add: cyclic_wf_def)
  obtain d' out r where p: "dev_poll d (cy_rx c) = Some (d', out, r)" "dev_wf d'" "length out = 576"
      "\<And>k. r = Some k \<Longrightarrow> 0 < k \<and> k \<le> 576"
    using dev_poll_cases [OF Suc.prems(4), of "cy_rx c"] rx by metis
  let ?c = "c\<lparr>cy_rx := out\<rparr>"
  have wf: "cyclic_wf ?c" using Suc.prems(3) p(3) by (simp add: cyclic_wf_def)
  consider "r = None" | k where "r = Some k" "4 \<le> k" "out ! 3 = cy_expected_index c"
    | k where "r = Some k" "\<not> (4 \<le> k \<and> out ! 3 = cy_expected_index c)"
    by (cases r) auto
  then show ?case
  proof cases
    case 1
    then show ?thesis using Suc.prems(1) [of out d'] p by simp
  next
    case (2 k)
    have k: "k \<le> 576" using p(4) 2(1) by simp
    obtain c' where "cyclic_process ?c k = Some c'" using cyclic_process_total [OF wf k] by blast
    then show ?thesis using Suc.prems(2) [of c' d' out k] p 2 k by (simp add: idx_def)
  next
    case (3 k)
    have step: "receive_loop (Suc n) c d = receive_loop n ?c d'"
      using p 3 by (auto simp: idx_def Let_def)
    show ?thesis
    proof (rule Suc.IH [OF _ _ wf p(2)])
      fix rx e assume "receive_loop n ?c d' = Some (?c\<lparr>cy_rx := rx\<rparr>, e)" "dev_wf e" "length rx = 576"
      then show ?thesis using Suc.prems(1) [of rx e] step by simp
    next
      fix rx e len c' assume "receive_loop n ?c d' = Some (c', e)" "dev_wf e" "length rx = 576"
        "cyclic_process (?c\<lparr>cy_rx := rx\<rparr>) len = Some c'" "4 \<le> len" "len \<le> 576" "rx ! 3 = cy_expected_index ?c"
      then show ?thesis using Suc.prems(2) [of c' e rx len] step by simp
    qed
  qed
qed

lemma begin_tick_fields [simp]:
  "cy_domain (begin_tick l c) = cy_domain c" "cy_tx (begin_tick l c) = cy_tx c"
  "cy_rx (begin_tick l c) = cy_rx c" "cy_slaves (begin_tick l c) = cy_slaves c"
  "cy_phase (begin_tick l c) = cy_phase c" "cy_cia402 (begin_tick l c) = cy_cia402 c"
  "cy_appended (begin_tick l c) = cy_appended c" "cy_expected_index (begin_tick l c) = cy_expected_index c"
  "cy_outstanding (begin_tick l c) = cy_outstanding c" "cy_total_cycles (begin_tick l c) = cy_total_cycles c + 1"
  "cyclic_wf (begin_tick l c) = cyclic_wf c"
  by (simp_all add: begin_tick_def record_latency_def Let_def cyclic_wf_def)

text \<open>The state after the receive half of a tick.\<close>

definition collected :: "cyclic \<Rightarrow> cyclic \<Rightarrow> bool" where
  "collected c c' \<longleftrightarrow>
     cyclic_wf c' \<and> cy_appended c' = cy_appended c \<and> cy_cia402 c' = cy_cia402 c \<and>
     length (cy_slaves c') = length (cy_slaves c) \<and> dom_len (cy_domain c') = dom_len (cy_domain c) \<and>
     cy_total_cycles c' = cy_total_cycles c + 1 \<and>
     ((cy_phase c' = cy_phase c \<and> cy_slaves c' = cy_slaves c \<and> cy_domain c' = cy_domain c) \<or>
      (\<exists>a len. cy_phase a = cy_phase c \<and> cy_slaves a = cy_slaves c \<and> cy_appended a = cy_appended c \<and>
         cy_domain a = cy_domain c \<and> cyclic_wf a \<and>
         len \<le> 576 \<and> (\<exists>e. cyclic_process a len = Some e \<and> c' = e\<lparr>cy_outstanding := False\<rparr>)))"

lemma cyclic_collect_total:
  assumes wf: "cyclic_wf c" and dev: "dev_wf d"
  shows "\<exists>c' d'. cyclic_collect lat c d = Some (c', d') \<and> dev_wf d' \<and> collected c c'"
proof (cases "cy_outstanding c")
  case False
  then show ?thesis using assms by (simp add: cyclic_collect_def collected_def)
next
  case True
  let ?c = "begin_tick lat c"
  have wf': "cyclic_wf ?c" using wf by simp
  show ?thesis
  proof (cases rule: receive_loop_cases [OF wf' dev, of ECAT_RX_LEN, case_names none frame])
    case (none rx d')
    have "collected c ((?c\<lparr>cy_rx := rx\<rparr>)\<lparr>cy_outstanding := False\<rparr>)"
      using wf none(3) by (simp add: collected_def cyclic_wf_def)
    then show ?thesis
      using none True by (simp add: cyclic_collect_def cyclic_receive_def del: ECAT_RX_LEN_def)
  next
    case (frame rx d' len c')
    let ?a = "?c\<lparr>cy_rx := rx\<rparr>"
    have a: "cyclic_wf ?a" using wf' frame(3) by (simp add: cyclic_wf_def)
    obtain e where e: "cyclic_process ?a len = Some e" "cyclic_wf e" "cy_appended e = cy_appended ?a"
        "cy_cia402 e = cy_cia402 ?a" "cy_total_cycles e = cy_total_cycles ?a"
        "length (cy_slaves e) = length (cy_slaves ?a)" "dom_len (cy_domain e) = dom_len (cy_domain ?a)"
      using cyclic_process_total [OF a frame(6)] by blast
    have "collected c (e\<lparr>cy_outstanding := False\<rparr>)"
      unfolding collected_def
    proof (intro conjI disjI2 exI)
      show "cyclic_process ?a len = Some e" using e by simp
    qed (use a e frame(6) in \<open>simp_all add: cyclic_wf_def\<close>)
    moreover have "c' = e" using frame(4) e(1) by simp
    ultimately show ?thesis
      using frame True by (simp add: cyclic_collect_def cyclic_receive_def del: ECAT_RX_LEN_def)
  qed
qed

lemma cyclic_tick_total:
  assumes "cyclic_wf c" "dev_wf d"
  shows "\<exists>c' d' ix'. cyclic_tick lat c d ix = Some (c', d', ix') \<and> cyclic_wf c' \<and> dev_wf d'"
proof -
  obtain c1 d1 where c1: "cyclic_collect lat c d = Some (c1, d1)" "dev_wf d1" "collected c c1"
    using cyclic_collect_total [OF assms] by blast
  have wf1: "cyclic_wf c1" using c1(3) by (simp add: collected_def)
  obtain c2 d2 ix2 where "cyclic_send c1 d1 ix = Some (c2, d2, ix2)" "dev_wf d2" "same_engine c1 c2"
    using cyclic_send_built [OF wf1 c1(2)] by metis
  then show ?thesis using c1 same_engine_wf wf1 by (auto simp: cyclic_tick_def)
qed

section \<open>Reading the reply back\<close>

text \<open>The walk over a reply frame decodes its datagrams one by one, in the order of building.\<close>

lemma collect_actions_frame:
  assumes "dgrams_len (ds @ es) < 2048" "length acts + length es \<le> 3" "length ks = length es"
  shows "collect_actions (frame_bytes (ds @ es) @ rest) ks (if es = [] then 0 else 2 + dgrams_len ds) acts =
    Some (acts @ map2 (\<lambda>k e. the (decode_appended k (reply_of e))) ks es)"
  using assms
proof (induction ks arbitrary: ds es acts)
  case Nil
  then show ?case by simp
next
  case (Cons k ks)
  then obtain e es' where es: "es = e # es'" by (cases es) auto
  obtain a where a: "decode_appended k (reply_of e) = Some a" using decode_appended_total by blast
  have p: "parse_at (frame_bytes (ds @ e # es') @ rest) (2 + dgrams_len ds) =
      Some (Some (reply_of e, if es' = [] then 0 else 2 + dgrams_len (ds @ [e])))"
    by (rule parse_at_frame) (use Cons.prems(1) es in simp)
  have "collect_actions (frame_bytes ((ds @ [e]) @ es') @ rest) ks
      (if es' = [] then 0 else 2 + dgrams_len (ds @ [e])) (acts @ [a]) =
      Some ((acts @ [a]) @ map2 (\<lambda>k e. the (decode_appended k (reply_of e))) ks es')"
    by (rule Cons.IH) (use Cons.prems es in auto)
  then show ?case
    using es a p Cons.prems(2) by (simp add: push_drop_room)
qed

text \<open>A reply frame that carries an answer for each appended datagram is processed completely.\<close>

lemma cyclic_process_frame:
  assumes wf: "cyclic_wf c" and rx: "cy_rx c = frame_bytes (lrw # answers) @ rest"
    and len: "length (frame_bytes (lrw # answers)) \<le> len" "len \<le> 576"
    and n: "length answers = length (cy_appended c)" "length answers \<le> 3"
  obtains dom st where "apply_reply (cy_domain c) (reply_of lrw) = Some (dom, st)"
    "cyclic_process c len =
       Some (process_effects (dg_wkc lrw) (map2 (\<lambda>k e. the (decode_appended k (reply_of e))) (cy_appended c) answers)
               (c\<lparr>cy_domain := dom\<rparr>))"
proof -
  have d: "domain_wf (cy_domain c)" and r: "length (cy_rx c) = 576" using wf by (auto simp: cyclic_wf_def)
  obtain dom st where dom: "apply_reply (cy_domain c) (reply_of lrw) = Some (dom, st)"
    by (rule apply_reply_effect [OF d, of "reply_of lrw"]) (rule that)
  define tl where "tl = take (len - length (frame_bytes (lrw # answers))) rest"
  have tl: "take len (cy_rx c) = frame_bytes (lrw # answers) @ tl"
    unfolding rx tl_def take_append using len(1) by (simp only: take_all)
  have small: "dgrams_len ([] @ lrw # answers) < 2048"
    using order_trans [OF len] by (simp add: length_frame_bytes)
  have p: "parse_at (take len (cy_rx c)) 2 = Some (Some (reply_of lrw, if answers = [] then 0 else 2 + dgrams_len [lrw]))"
    unfolding tl using parse_at_frame [OF small, of tl]
    by (simp only: append_Nil dgrams_len_simps(1) add_0_right)
  have a: "collect_actions (take len (cy_rx c)) (cy_appended c) (if answers = [] then 0 else 2 + dgrams_len [lrw]) [] =
      Some (map2 (\<lambda>k e. the (decode_appended k (reply_of e))) (cy_appended c) answers)"
  proof -
    have "dgrams_len ([lrw] @ answers) < 2048" using small by simp
    moreover have "length ([] :: applied_reply list) + length answers \<le> 3" using n(2) by simp
    ultimately show ?thesis
      unfolding tl using collect_actions_frame [of "[lrw]" answers "[]" "cy_appended c" tl, OF _ _ n(1) [symmetric]]
      by simp
  qed
  have sl: "slice (cy_rx c) 0 len = Some (take len (cy_rx c))"
    using len(2) r by (simp add: slice_def)
  have w: "rp_wkc (reply_of lrw) = dg_wkc lrw" by (simp add: reply_of_def)
  have "cyclic_process c len =
      Some (process_effects (dg_wkc lrw) (map2 (\<lambda>k e. the (decode_appended k (reply_of e))) (cy_appended c) answers)
              (c\<lparr>cy_domain := dom\<rparr>))"
    unfolding cyclic_process_def sl EC_FRAME_HEADER_SIZE_def
    by (simp only: Option.bind.simps p option.case prod.case a dom w)
  with dom show thesis by (rule that)
qed

text \<open>A working counter of zero has no effect, whatever the datagram.\<close>

lemma decode_zero_wkc: "rp_wkc r = 0 \<Longrightarrow> decode_appended k r = Some ApNone"
  by (cases k) (simp_all add: decode_appended_def)

lemma decode_op_reached:
  "decode_appended k r = Some (ApOpReached i) \<longleftrightarrow>
     k = AppStatus i \<and> rp_wkc r \<noteq> 0 \<and> get_or 0 (rp_data r) 0 AND al_ERROR = 0 \<and>
     get_or 0 (rp_data r) 0 AND al_MASK = al_OP"
  by (cases k) (auto simp: decode_appended_def Let_def Option.bind_eq_Some_conv)

lemma decode_fault:
  "decode_appended k r = Some ApFault \<Longrightarrow> (\<exists>i. k = AppStatus i) \<or> k = AppAlPoll"
  by (cases k) (auto simp: decode_appended_def Let_def Option.bind_eq_Some_conv split: if_splits)

section \<open>Phases\<close>

text \<open>The phase changes one processed reply may make.\<close>

inductive phase_edge :: "cyclic_phase \<Rightarrow> cyclic_phase \<Rightarrow> bool" where
  stay: "phase_edge p p"
| request: "phase_edge Priming RequestingOp"
| direct: "phase_edge Priming Operational"
| operate: "phase_edge RequestingOp Operational"
| refuse: "phase_edge RequestingOp Faulted"
| drop_op: "phase_edge Operational Faulted"

inductive_simps phase_edge_iff: "phase_edge p q"

lemma faulted_stays: "phase_edge Faulted q \<Longrightarrow> q = Faulted"
  by (auto simp: phase_edge_iff)

lemma foldl_action_phase:
  "cy_phase (foldl apply_action c as) = (if ApFault \<in> set as then Faulted else cy_phase c)"
  by (induction as arbitrary: c) (auto simp: apply_action_def Let_def split: applied_reply.split)

lemma foldl_action_reached:
  "i < length (cy_slaves c) \<Longrightarrow>
     rt_reached_op (cy_slaves (foldl apply_action c as) ! i) \<longleftrightarrow>
       rt_reached_op (cy_slaves c ! i) \<or> ApOpReached i \<in> set as"
proof (induction as arbitrary: c)
  case Nil
  then show ?case by simp
next
  case (Cons a as)
  have "rt_reached_op (cy_slaves (apply_action c a) ! i) \<longleftrightarrow> rt_reached_op (cy_slaves c ! i) \<or> a = ApOpReached i"
    using Cons.prems by (cases a) (auto simp: apply_action_def Let_def nth_list_update)
  then show ?case using Cons.IH [of "apply_action c a"] Cons.prems by auto
qed

lemma effects_reached:
  "i < length (cy_slaves c) \<Longrightarrow>
     rt_reached_op (cy_slaves (process_effects w as c) ! i) \<longleftrightarrow>
       rt_reached_op (cy_slaves c ! i) \<or> ApOpReached i \<in> set as"
  using foldl_action_reached [of i _ as] by (simp add: process_effects_def Let_def)

lemma effects_operational:
  "cy_phase (process_effects w as c) = Operational \<Longrightarrow>
     cy_phase c = Operational \<and> ApFault \<notin> set as \<or> all_reached_op (process_effects w as c)"
  by (auto simp: process_effects_def Let_def foldl_action_phase all_reached_op_def split: if_splits)

lemma effects_edge:
  assumes "cy_phase c = Priming \<Longrightarrow> as = []"
  shows "phase_edge (cy_phase c) (cy_phase (process_effects w as c))"
  using assms
  by (cases "cy_phase c") (auto simp: process_effects_def Let_def foldl_action_phase phase_edge_iff)

lemma all_reached_mono:
  assumes "all_reached_op c" "length (cy_slaves c') = length (cy_slaves c)"
    and "\<And>i. i < length (cy_slaves c) \<Longrightarrow> rt_reached_op (cy_slaves c ! i) \<Longrightarrow> rt_reached_op (cy_slaves c' ! i)"
  shows "all_reached_op c'"
  using assms by (simp add: all_reached_op_def list_all_length)

text \<open>What holds between two ticks.\<close>

definition cyclic_inv :: "cyclic \<Rightarrow> bool" where
  "cyclic_inv c \<longleftrightarrow> cyclic_wf c \<and> (cy_phase c = Operational \<longrightarrow> all_reached_op c) \<and>
     (cy_phase c = Priming \<or> cy_phase c = Faulted \<longrightarrow> cy_appended c = [])"

lemma collected_phase:
  assumes inv: "cyclic_inv c" and col: "collected c c'"
  shows "phase_edge (cy_phase c) (cy_phase c') \<and> (cy_phase c' = Operational \<longrightarrow> all_reached_op c')"
proof -
  consider "cy_phase c' = cy_phase c" "cy_slaves c' = cy_slaves c"
    | a len e where "cy_phase a = cy_phase c" "cy_slaves a = cy_slaves c" "cy_appended a = cy_appended c"
        "cyclic_wf a" "len \<le> 576" "cyclic_process a len = Some e" "c' = e\<lparr>cy_outstanding := False\<rparr>"
    using col unfolding collected_def by blast
  then show ?thesis
  proof cases
    case 1
    then show ?thesis using inv by (simp add: cyclic_inv_def phase_edge.stay all_reached_op_def)
  next
    case (2 a len e)
    have "phase_edge (cy_phase c) (cy_phase e) \<and> (cy_phase e = Operational \<longrightarrow> all_reached_op e)"
    proof (rule cyclic_process_cases [OF 2(4,5)])
      assume "cyclic_process a len = Some a"
      then have "e = a" using 2(6) by simp
      then show ?thesis using inv 2 by (simp add: cyclic_inv_def phase_edge.stay all_reached_op_def)
    next
      fix lrw nxt dom st acts
      assume acts: "length acts \<le> length (cy_appended a)"
        and "cyclic_process a len = Some (process_effects (rp_wkc lrw) acts (a\<lparr>cy_domain := dom\<rparr>))"
      then have e: "e = process_effects (rp_wkc lrw) acts (a\<lparr>cy_domain := dom\<rparr>)" using 2(6) by simp
      have "acts = []" if "cy_phase c = Priming"
        using inv acts 2(3) that by (simp add: cyclic_inv_def)
      then have edge: "phase_edge (cy_phase c) (cy_phase e)"
        using effects_edge [of "a\<lparr>cy_domain := dom\<rparr>" acts] 2(1) e by simp
      have "all_reached_op e" if op: "cy_phase e = Operational"
      proof (cases "cy_phase a = Operational")
        case True
        then have "all_reached_op (a\<lparr>cy_domain := dom\<rparr>)"
          using inv 2(1,2) by (simp add: cyclic_inv_def all_reached_op_def)
        then show ?thesis
          by (rule all_reached_mono) (use effects_reached [of _ "a\<lparr>cy_domain := dom\<rparr>"] e in auto)
      next
        case False
        then show ?thesis using effects_operational [of _ acts "a\<lparr>cy_domain := dom\<rparr>"] op e by simp
      qed
      then show ?thesis using edge by simp
    qed
    then show ?thesis using 2(7) by (simp add: all_reached_op_def)
  qed
qed

lemma collected_wf: "collected c c' \<Longrightarrow> cyclic_wf c'"
  by (simp add: collected_def)

lemma built_inv:
  assumes "cyclic_wf c" "cy_phase c = Operational \<longrightarrow> all_reached_op c" "same_engine c c'"
    "built c' (cycle_frame c ix) (map snd (cycle_tail c (ix + 1)))"
  shows "cyclic_inv c'"
  using assms same_engine_wf [OF assms(3,1)]
  by (auto simp: cyclic_inv_def same_engine_def all_reached_op_def built_def cycle_tail_def)

lemma cyclic_tick_phase:
  assumes inv: "cyclic_inv c" and dev: "dev_wf d" and tick: "cyclic_tick lat c d ix = Some (c', d', ix')"
  shows "cyclic_inv c'" "phase_edge (cy_phase c) (cy_phase c')"
proof -
  have wf: "cyclic_wf c" using inv by (simp add: cyclic_inv_def)
  obtain c1 d1 where c1: "cyclic_collect lat c d = Some (c1, d1)" "dev_wf d1" "collected c c1"
    using cyclic_collect_total [OF wf dev] by blast
  note ph = collected_phase [OF inv c1(3)] and wf1 = collected_wf [OF c1(3)]
  obtain c2 d2 ix2 where c2: "cyclic_send c1 d1 ix = Some (c2, d2, ix2)" "same_engine c1 c2"
      "built c2 (cycle_frame c1 ix) (map snd (cycle_tail c1 (ix + 1)))"
    using cyclic_send_built [OF wf1 c1(2)] by metis
  have "c' = c2" using tick c1(1) c2(1) by (simp add: cyclic_tick_def)
  then show "cyclic_inv c'" "phase_edge (cy_phase c) (cy_phase c')"
    using built_inv [OF wf1 _ c2(2,3)] ph c2(2) by (simp_all add: same_engine_def)
qed

lemma slave_rts_length: "length (slave_rts slaves) \<le> 32"
proof -
  have "length acc \<le> 32 \<Longrightarrow> length (foldl (\<lambda>rt s. push_drop EC_MAX_SLAVES rt
      \<lparr>rt_station = cs_station s, rt_ring_pos = cs_ring_pos s, rt_reached_op = False\<rparr>) acc slaves) \<le> 32" for acc
    by (induction slaves arbitrary: acc) (simp_all add: push_drop_length)
  then show ?thesis by (simp add: slave_rts_def)
qed

lemma cyclic_new_inv: "cyclic_inv (cyclic_new slaves pos ns)"
  using slave_rts_length [of slaves] domain_BUS_wf by (simp add: cyclic_inv_def cyclic_wf_def cyclic_new_def)

section \<open>The outputs of a host tick\<close>

text \<open>The bindings of the drives, without their fault-reset latch.\<close>

lemma all_pairs_map: "all_pairs P (map f xs) = all_pairs (\<lambda>x y. P (f x) (f y)) xs"
  by (induction xs) (simp_all add: list.pred_map comp_def)

lemma drives_wf_pins:
  "drives_wf n ds \<longleftrightarrow>
     list_all (\<lambda>p. pin_fits (replicate n 0) p \<and> pin_hal_type p = HalU32 \<and> pin_bytes p = 2) (map bd_cw ds) \<and>
     list_all (pin_fits (replicate n 0)) (map bd_sw ds) \<and> all_pairs pin_apart (map bd_cw ds) \<and>
     list_all (\<lambda>p. list_all (pin_apart p) (map bd_sw ds)) (map bd_cw ds)"
  by (auto simp: drives_wf_def all_pairs_map list.pred_map comp_def list_all_iff)

lemma cia402_step_pins:
  "map bd_cw (fst (cia402_step ds img cmd)) = map bd_cw ds"
  "map bd_sw (fst (cia402_step ds img cmd)) = map bd_sw ds"
proof -
  have one: "bd_cw (fst (drive_step cmd d i)) = bd_cw d" "bd_sw (fst (drive_step cmd d i)) = bd_sw d" for d i
    by (simp_all add: drive_step_def Let_def split: prod.split)
  have "map bd_cw (fst (cia402_step ds img cmd)) = map bd_cw ds \<and>
    map bd_sw (fst (cia402_step ds img cmd)) = map bd_sw ds"
    by (induction ds arbitrary: img) (simp_all add: Let_def split_beta one)
  then show "map bd_cw (fst (cia402_step ds img cmd)) = map bd_cw ds"
    "map bd_sw (fst (cia402_step ds img cmd)) = map bd_sw ds" by simp_all
qed

lemma drives_wf_step [simp]: "drives_wf n (fst (cia402_step ds img cmd)) \<longleftrightarrow> drives_wf n ds"
  by (simp only: drives_wf_pins cia402_step_pins)

lemma cia402_step_length [simp]: "length (fst (cia402_step ds img cmd)) = length ds"
  using arg_cong [OF cia402_step_pins(1), of length] by simp

text \<open>The command the host, the watchdog and the phase give the drives.\<close>

definition drive_intent :: "cyclic \<Rightarrow> host_bridge \<Rightarrow> bool \<Rightarrow> bool \<Rightarrow> drive_command" where
  "drive_intent c h host_timeout underrun =
     \<lparr>dc_enable = enable_requested h, dc_fault_reset = fault_reset_requested h,
      dc_quick_stop = quick_stop_requested h \<or> host_timeout \<or> underrun \<or> cy_phase c = Faulted\<rparr>"

lemma domain_image_mut_eq:
  assumes "domain_wf d" "length img = dom_len d"
  shows "domain_image_mut d (\<lambda>_. Some img) = Some (d\<lparr>dom_image := img @ drop (dom_len d) (dom_image d)\<rparr>)"
  using assms by (simp add: domain_image_mut_def in_window_def slice_def copy_at_def domain_wf_def)

lemma length_live_image: "cyclic_wf c \<Longrightarrow> length (live_image c) = dom_len (cy_domain c)"
  by (simp add: live_image_def cyclic_wf_def domain_wf_def)

lemma drive_control_eq:
  fixes t u :: bool
  assumes wf: "cyclic_wf c" and host: "has_host h" "has_drives (cy_cia402 c)"
  defines "r \<equiv> cia402_step (cy_cia402 c) (live_image c) (drive_intent c h t u)"
  shows "apply_drive_control c h t u =
    Some (c\<lparr>cy_cia402 := fst r,
            cy_domain := (cy_domain c)\<lparr>dom_image := snd r @ drop (dom_len (cy_domain c)) (dom_image (cy_domain c))\<rparr>\<rparr>)"
proof -
  have d: "domain_wf (cy_domain c)" using wf by (simp add: cyclic_wf_def)
  have len: "length (snd r) = dom_len (cy_domain c)"
    using length_live_image [OF wf] by (simp add: r_def)
  have img: "domain_image (cy_domain c) = Some (live_image c)"
    using domain_image_eq [OF d] by (simp add: live_image_def)
  have cmd: "\<lparr>dc_enable = enable_requested h, dc_fault_reset = fault_reset_requested h,
      dc_quick_stop = quick_stop_requested h \<or> t \<or> u \<or> cy_phase c = Faulted\<rparr> = drive_intent c h t u"
    by (simp add: drive_intent_def)
  show ?thesis
    using host domain_image_mut_eq [OF d len]
    by (simp add: apply_drive_control_def img cmd Let_def split_beta r_def [symmetric])
qed

lemma live_image_put:
  "length img = dom_len (cy_domain c) \<Longrightarrow>
     live_image (c\<lparr>cy_cia402 := ds, cy_domain := (cy_domain c)\<lparr>dom_image := img @ rest\<rparr>\<rparr>) = img"
  by (simp add: live_image_def)

lemma drive_control_image:
  assumes wf: "cyclic_wf c" and host: "has_host h" "has_drives (cy_cia402 c)"
    and step: "apply_drive_control c h t u = Some c'"
  shows "live_image c' = snd (cia402_step (cy_cia402 c) (live_image c) (drive_intent c h t u))"
proof -
  have "c' = c\<lparr>cy_cia402 := fst (cia402_step (cy_cia402 c) (live_image c) (drive_intent c h t u)),
      cy_domain := (cy_domain c)\<lparr>dom_image := snd (cia402_step (cy_cia402 c) (live_image c) (drive_intent c h t u)) @
        drop (dom_len (cy_domain c)) (dom_image (cy_domain c))\<rparr>\<rparr>"
    using step drive_control_eq [OF wf host, of t u] by simp
  then show ?thesis using live_image_put length_live_image [OF wf] by simp
qed

lemma drive_control_none: "\<not> has_host h \<or> \<not> has_drives (cy_cia402 c) \<Longrightarrow> apply_drive_control c h t u = Some c"
  by (auto simp: apply_drive_control_def)

text \<open>What the output half of a tick leaves alone.\<close>

definition same_inputs :: "cyclic \<Rightarrow> cyclic \<Rightarrow> bool" where
  "same_inputs c c' \<longleftrightarrow>
     cyclic_wf c' \<and> dom_len (cy_domain c') = dom_len (cy_domain c) \<and> cy_phase c' = cy_phase c \<and>
     cy_slaves c' = cy_slaves c \<and> cy_appended c' = cy_appended c \<and> cy_total_cycles c' = cy_total_cycles c \<and>
     map bd_cw (cy_cia402 c') = map bd_cw (cy_cia402 c) \<and> map bd_sw (cy_cia402 c') = map bd_sw (cy_cia402 c)"

lemma same_inputs_image:
  "cyclic_wf c \<Longrightarrow> length img = dom_len (cy_domain c) \<Longrightarrow>
     same_inputs c (c\<lparr>cy_domain := (cy_domain c)\<lparr>dom_image := img @ drop (dom_len (cy_domain c)) (dom_image (cy_domain c))\<rparr>\<rparr>)"
  by (auto simp: same_inputs_def cyclic_wf_def domain_wf_def)

lemma drive_control_total:
  assumes "cyclic_wf c"
  shows "\<exists>c'. apply_drive_control c h t u = Some c' \<and> same_inputs c c'"
proof (cases "has_host h \<and> has_drives (cy_cia402 c)")
  case True
  let ?r = "cia402_step (cy_cia402 c) (live_image c) (drive_intent c h t u)"
  have len: "length (snd ?r) = dom_len (cy_domain c)" using length_live_image [OF assms] by simp
  show ?thesis
    using drive_control_eq [OF assms, of h t u] same_inputs_image [OF assms len] True
    by (simp add: same_inputs_def cia402_step_pins cyclic_wf_def)
qed (use assms in \<open>auto simp: drive_control_none same_inputs_def\<close>)

lemma host_outputs_same:
  assumes wf: "cyclic_wf c" and host: "host_wf lay h"
  obtains c' h' u where "host_outputs lay c h t = Some (c', h', u)" "same_inputs c c'" "host_wf lay h'"
    "hb_out_valid h' = hb_out_valid h" "hb_flags h' = hb_flags h"
proof -
  have d: "domain_wf (cy_domain c)" using wf by (simp add: cyclic_wf_def)
  have img: "domain_image (cy_domain c) = Some (live_image c)"
    using domain_image_eq [OF d] by (simp add: live_image_def)
  obtain h' img' where o: "host_apply_outputs lay h (live_image c) (cy_total_cycles c) = Some (h', img')"
      "host_wf lay h'" "length img' = length (live_image c)" "hb_out_valid h' = hb_out_valid h" "hb_flags h' = hb_flags h"
    using host_outputs_total [OF host] by blast
  have len: "length img' = dom_len (cy_domain c)" using o(3) length_live_image [OF wf] by simp
  define c1 where "c1 = c\<lparr>cy_domain := (cy_domain c)\<lparr>dom_image := img' @ drop (dom_len (cy_domain c)) (dom_image (cy_domain c))\<rparr>\<rparr>"
  have s1: "same_inputs c c1" unfolding c1_def by (rule same_inputs_image [OF wf len])
  then have "cyclic_wf c1" by (simp add: same_inputs_def)
  then obtain c2 where c2: "apply_drive_control c1 h' t (motion_underrun h') = Some c2" "same_inputs c1 c2"
    using drive_control_total by blast
  have "host_outputs lay c h t = Some (c2, h', motion_underrun h')"
    using domain_image_mut_eq [OF d len] o(1) c2(1) by (simp add: host_outputs_def img Let_def c1_def)
  moreover have "same_inputs c c2" using s1 c2(2) by (simp add: same_inputs_def)
  ultimately show thesis using o(2,4,5) by (rule that)
qed

lemma cia402_step_all:
  assumes "drives_wf (length img) ds" "i < length ds"
  shows "\<exists>sw. read_value (snd (cia402_step ds img cmd)) (bd_cw (ds ! i)) =
    ucast (command_word sw cmd (bd_fr_high (ds ! i)))"
  using cia402_step_commands [OF assms] by blast

text \<open>Once a host has spoken, every drive gets the command of its own statusword.\<close>

lemma host_outputs_commands:
  assumes wf: "cyclic_wf c" and host: "host_wf lay h" and valid: "hb_out_valid h"
    and drives: "drives_wf (dom_len (cy_domain c)) (cy_cia402 c)"
    and out: "host_outputs lay c h t = Some (c', h', u)" and i: "i < length (cy_cia402 c)"
  shows "\<exists>sw. read_value (live_image c') (bd_cw (cy_cia402 c ! i)) =
    ucast (command_word sw (drive_intent c h t u) (bd_fr_high (cy_cia402 c ! i)))"
proof -
  have d: "domain_wf (cy_domain c)" using wf by (simp add: cyclic_wf_def)
  have img: "domain_image (cy_domain c) = Some (live_image c)"
    using domain_image_eq [OF d] by (simp add: live_image_def)
  obtain h1 img' where o: "host_apply_outputs lay h (live_image c) (cy_total_cycles c) = Some (h1, img')"
      "host_wf lay h1" "length img' = length (live_image c)" "hb_out_valid h1 = hb_out_valid h" "hb_flags h1 = hb_flags h"
    using host_outputs_total [OF host] by blast
  have len: "length img' = dom_len (cy_domain c)" using o(3) length_live_image [OF wf] by simp
  define c1 where "c1 = c\<lparr>cy_domain := (cy_domain c)\<lparr>dom_image := img' @ drop (dom_len (cy_domain c)) (dom_image (cy_domain c))\<rparr>\<rparr>"
  have wf1: "cyclic_wf c1" using same_inputs_image [OF wf len] by (simp add: same_inputs_def c1_def)
  have c1: "live_image c1 = img'" "cy_cia402 c1 = cy_cia402 c" using len by (simp_all add: c1_def live_image_def)
  have out': "apply_drive_control c1 h1 t (motion_underrun h1) = Some c'" "h' = h1" "u = motion_underrun h1"
    using out domain_image_mut_eq [OF d len] o(1)
    by (auto simp: host_outputs_def img Let_def c1_def Option.bind_eq_Some_conv)
  have hd: "has_host h1" "has_drives (cy_cia402 c1)"
    using valid o(4) i c1(2) by (auto simp: has_host_def has_drives_def)
  have cmd: "drive_intent c1 h1 t u = drive_intent c h t u"
    using o(4,5) by (simp add: drive_intent_def c1_def enable_requested_def fault_reset_requested_def quick_stop_requested_def)
  have "live_image c' = snd (cia402_step (cy_cia402 c) img' (drive_intent c h t u))"
    using drive_control_image [OF wf1 hd out'(1)] c1 cmd out'(3) by simp
  then show ?thesis using cia402_step_all [of img' "cy_cia402 c" i] drives len i by simp
qed

text \<open>The shipped configuration streams no motion: the staged outputs are copied, and a drive's
  command comes from the statusword received last.\<close>

definition inputs_above :: "nat \<Rightarrow> cia402 \<Rightarrow> bool" where
  "inputs_above n ds \<longleftrightarrow> list_all (\<lambda>d. n \<le> unat (pin_byte_offset (bd_sw d))) ds"

lemma host_outputs_exact:
  assumes wf: "cyclic_wf c" and host: "host_wf lay h" "\<not> motion_active (hb_motion h)" and valid: "hb_out_valid h"
    and len: "32 \<le> dom_len (cy_domain c)" and drives: "has_drives (cy_cia402 c)"
  shows "\<exists>c'. host_outputs lay c h t = Some (c', h, False) \<and>
    live_image c' = snd (cia402_step (cy_cia402 c) (hb_staged_out h @ drop 32 (live_image c)) (drive_intent c h t False)) \<and>
    same_inputs c c'"
proof -
  have d: "domain_wf (cy_domain c)" using wf by (simp add: cyclic_wf_def)
  have img: "domain_image (cy_domain c) = Some (live_image c)"
    using domain_image_eq [OF d] by (simp add: live_image_def)
  let ?i = "hb_staged_out h @ drop 32 (live_image c)"
  have o: "host_apply_outputs lay h (live_image c) (cy_total_cycles c) = Some (h, ?i)"
    using host_outputs_immediate [OF host(1) valid _ host(2)] len length_live_image [OF wf] by simp
  have il: "length ?i = dom_len (cy_domain c)"
    using host(1) len length_live_image [OF wf] by (simp add: host_wf_def)
  have u: "motion_underrun h = False" using host(2) by (simp add: motion_underrun_def)
  define c1 where "c1 = c\<lparr>cy_domain := (cy_domain c)\<lparr>dom_image := ?i @ drop (dom_len (cy_domain c)) (dom_image (cy_domain c))\<rparr>\<rparr>"
  have s1: "same_inputs c c1" unfolding c1_def by (rule same_inputs_image [OF wf il])
  then have wf1: "cyclic_wf c1" by (simp add: same_inputs_def)
  have c1: "live_image c1 = ?i" "cy_cia402 c1 = cy_cia402 c" using il by (simp_all add: c1_def live_image_def)
  have hd: "has_host h" "has_drives (cy_cia402 c1)" using valid drives c1(2) by (simp_all add: has_host_def)
  obtain c2 where c2: "apply_drive_control c1 h t False = Some c2" "same_inputs c1 c2"
    using drive_control_total [OF wf1] by blast
  have out: "host_outputs lay c h t = Some (c2, h, False)"
    using domain_image_mut_eq [OF d il] o c2(1) by (simp add: host_outputs_def img Let_def c1_def u)
  have intent: "drive_intent c1 h t False = drive_intent c h t False" by (simp add: drive_intent_def c1_def)
  have "live_image c2 = snd (cia402_step (cy_cia402 c) ?i (drive_intent c h t False))"
    using drive_control_image [OF wf1 hd c2(1)] c1 intent by simp
  moreover have "same_inputs c c2" using s1 c2(2) by (simp add: same_inputs_def)
  ultimately show ?thesis using out by blast
qed

lemma staged_status:
  assumes "length out = 32" "pin_fits img p" "32 \<le> unat (pin_byte_offset p)" "32 \<le> length img"
  shows "read_value (out @ drop 32 img) p = read_value img p"
  by (rule read_value_cong) (use assms in \<open>auto simp: nth_append\<close>)

lemma host_outputs_controlword:
  assumes wf: "cyclic_wf c" and host: "host_wf lay h" "\<not> motion_active (hb_motion h)" and valid: "hb_out_valid h"
    and len: "32 \<le> dom_len (cy_domain c)" and drives: "drives_wf (dom_len (cy_domain c)) (cy_cia402 c)"
    and above: "inputs_above 32 (cy_cia402 c)"
    and out: "host_outputs lay c h t = Some (c', h', u)" and i: "i < length (cy_cia402 c)"
  shows "read_value (live_image c') (bd_cw (cy_cia402 c ! i)) =
    ucast (command_word (ucast (read_value (live_image c) (bd_sw (cy_cia402 c ! i))))
             (drive_intent c h t u) (bd_fr_high (cy_cia402 c ! i)))"
proof -
  have hd: "has_drives (cy_cia402 c)" using i by (auto simp: has_drives_def)
  let ?i = "hb_staged_out h @ drop 32 (live_image c)"
  have il: "length ?i = dom_len (cy_domain c)" "length (hb_staged_out h) = 32"
    using host(1) len length_live_image [OF wf] by (simp_all add: host_wf_def)
  have img: "live_image c' = snd (cia402_step (cy_cia402 c) ?i (drive_intent c h t u))"
    using host_outputs_exact [OF wf host valid len hd, of t] out by auto
  have "cy_cia402 c ! i \<in> set (cy_cia402 c)" using i by simp
  then have fits: "pin_fits (live_image c) (bd_sw (cy_cia402 c ! i))"
    using drives length_live_image [OF wf] by (simp add: drives_wf_pins list_all_iff pin_fits_def)
  have "32 \<le> unat (pin_byte_offset (bd_sw (cy_cia402 c ! i)))"
    using above i by (simp add: inputs_above_def list_all_length)
  then have sw: "read_value ?i (bd_sw (cy_cia402 c ! i)) = read_value (live_image c) (bd_sw (cy_cia402 c ! i))"
    using staged_status [OF il(2) fits] len length_live_image [OF wf] by simp
  show ?thesis
    unfolding img sw [symmetric] by (rule cia402_step_commands) (use drives il(1) i in simp_all)
qed

lemma cia402_BUS_above: "inputs_above 32 cia402_new"
  by code_simp

section \<open>A tick with the host bridge\<close>

lemma cyclic_reply_status_total:
  assumes "cyclic_wf c"
  obtains st where "cyclic_reply_status c t u = Some st" "rs_phase st = phase_code (cy_phase c)"
    "rs_host_timeout st = t" "rs_cycle_index st = cy_total_cycles c"
proof -
  have "domain_image (cy_domain c) = Some (live_image c)"
    using domain_image_eq [of "cy_domain c"] assms by (simp add: live_image_def cyclic_wf_def)
  then show thesis using that by (simp add: cyclic_reply_status_def Let_def)
qed

lemma tick_watchdog_wf [simp]: "host_wf lay (fst (tick_watchdog h)) \<longleftrightarrow> host_wf lay h"
  by (simp add: tick_watchdog_def Let_def host_wf_def)

lemma tick_watchdog_keeps [simp]:
  "hb_out_valid (fst (tick_watchdog h)) = hb_out_valid h" "hb_flags (fst (tick_watchdog h)) = hb_flags h"
  "hb_motion (fst (tick_watchdog h)) = hb_motion h" "hb_staged_out (fst (tick_watchdog h)) = hb_staged_out h"
  by (simp_all add: tick_watchdog_def Let_def)

definition host_late :: "host_bridge \<Rightarrow> bool" where
  "host_late h \<longleftrightarrow> snd (tick_watchdog h) \<ge> HOST_WDOG_LIMIT_CYCLES"

text \<open>A tick is: collect, outputs, send, reply.\<close>

lemma tick_with_host_parts:
  assumes wf: "cyclic_wf c" and dev: "dev_wf d" and host: "host_wf lay h" and len: "110 \<le> dom_len (cy_domain c)"
  obtains c1 d1 c2 h2 u c3 d3 ix3 r h4 where
    "cyclic_collect lat c d = Some (c1, d1)" "collected c c1"
    "host_outputs lay c1 (fst (tick_watchdog h)) (host_late h) = Some (c2, h2, u)" "same_inputs c1 c2"
    "hb_out_valid h2 = hb_out_valid h" "hb_flags h2 = hb_flags h" "host_wf lay h2"
    "cyclic_send c2 d1 ix = Some (c3, d3, ix3)" "same_engine c2 c3" "cy_expected_index c3 = ix"
    "built c3 (cycle_frame c2 ix) (map snd (cycle_tail c2 (ix + 1)))"
    "dev_send d1 (frame_bytes (cycle_frame c2 ix)) = Some (d3, r)" "cy_outstanding c3 = (r = Inr ())" "dev_wf d3"
    "tick_with_host lay lat c d ix h = Some (c3, d3, ix3, h4)" "host_wf lay h4"
proof -
  obtain c1 d1 where c1: "cyclic_collect lat c d = Some (c1, d1)" "dev_wf d1" "collected c c1"
    using cyclic_collect_total [OF wf dev] by blast
  have wf1: "cyclic_wf c1" "dom_len (cy_domain c1) = dom_len (cy_domain c)"
    using c1(3) by (simp_all add: collected_def)
  have hw: "host_wf lay (fst (tick_watchdog h))" using host by simp
  obtain c2 h2 u where c2: "host_outputs lay c1 (fst (tick_watchdog h)) (host_late h) = Some (c2, h2, u)"
      "same_inputs c1 c2" "host_wf lay h2" "hb_out_valid h2 = hb_out_valid h" "hb_flags h2 = hb_flags h"
    using host_outputs_same [OF wf1(1) hw, of "host_late h"] by auto
  have wf2: "cyclic_wf c2" using c2(2) by (simp add: same_inputs_def)
  obtain c3 d3 ix3 r where c3: "cyclic_send c2 d1 ix = Some (c3, d3, ix3)" "dev_wf d3" "same_engine c2 c3"
      "cy_expected_index c3 = ix" "built c3 (cycle_frame c2 ix) (map snd (cycle_tail c2 (ix + 1)))"
      "dev_send d1 (frame_bytes (cycle_frame c2 ix)) = Some (d3, r)" "cy_outstanding c3 = (r = Inr ())"
    using cyclic_send_built [OF wf2 c1(2), of ix] by metis
  have wf3: "cyclic_wf c3" by (rule same_engine_wf [OF c3(3) wf2])
  obtain st where st: "cyclic_reply_status c3 (host_late h) u = Some st"
    using cyclic_reply_status_total [OF wf3] by metis
  have img: "domain_image (cy_domain c3) = Some (live_image c3)"
    using domain_image_eq [of "cy_domain c3"] wf3 by (simp add: live_image_def cyclic_wf_def)
  have "dom_len (cy_domain c3) = dom_len (cy_domain c)"
    using c3(3) c2(2) wf1(2) by (simp add: same_engine_def same_inputs_def)
  then have "110 \<le> length (live_image c3)" using length_live_image [OF wf3] len by simp
  then obtain h4 where h4: "build_host_reply h2 (live_image c3) st = Some h4" "host_wf lay h4"
    using build_host_reply_frame [OF c2(3)] by blast
  have "tick_with_host lay lat c d ix h = Some (c3, d3, ix3, h4)"
    using c1(1) c2(1) c3(1) st img h4(1)
    by (simp add: tick_with_host_def split_beta Let_def host_late_def)
  then show thesis by (rule that [OF c1(1,3) c2(1,2,4,5,3) c3(1,3,4,5,6,7,2) _ h4(2)])
qed

end
