(* ===== verification/Bridge.thy ===== *)
theory Bridge imports Cyclic begin

text \<open>
  Runs of the cyclic engine under the host bridge: \<^verbatim>\<open>Cyclic::tick_with_host\<close> of
  \<^verbatim>\<open>src/src/ethercat/cyclic.rs\<close> once per cycle, and \<^verbatim>\<open>HostBridge::ingest\<close> of
  \<^verbatim>\<open>src/src/hal/host_bridge.rs\<close> whenever the SPI task has a frame, in any order. The device of each
  tick is arbitrary: it holds whatever the network delivered. The lemmas show that every tick of every
  run returns, that the engine keeps its invariant, and what it puts on the wire.
\<close>

unbundle bit_operations_syntax

section \<open>Runs\<close>

inductive bridge_run :: "cyclic \<Rightarrow> host_bridge \<Rightarrow> bool" where
  start: "bridge_run (cyclic_new slaves pos ns) (host_new LAYOUT)"
| frame: "bridge_run c h \<Longrightarrow> host_ingest LAYOUT h f = Some h' \<Longrightarrow> bridge_run c h'"
| tick: "bridge_run c h \<Longrightarrow> dev_wf d \<Longrightarrow> tick_with_host LAYOUT lat c d ix h = Some (c', d', ix', h') \<Longrightarrow>
    bridge_run c' h'"

definition bridge_inv :: "cyclic \<Rightarrow> host_bridge \<Rightarrow> bool" where
  "bridge_inv c h \<longleftrightarrow> cyclic_inv c \<and> host_wf LAYOUT h \<and> dom_len (cy_domain c) = 110 \<and>
     map bd_cw (cy_cia402 c) = map bd_cw cia402_new \<and> map bd_sw (cy_cia402 c) = map bd_sw cia402_new"

lemma bridge_start: "bridge_inv (cyclic_new slaves pos ns) (host_new LAYOUT)"
proof -
  have "dom_len (cy_domain (cyclic_new slaves pos ns)) = 110" "cy_cia402 (cyclic_new slaves pos ns) = cia402_new"
    by (simp_all add: cyclic_new_def domain_BUS)
  then show ?thesis using cyclic_new_inv host_new_wf by (simp add: bridge_inv_def)
qed

lemma bridge_drives:
  assumes "bridge_inv c h"
  shows "drives_wf 110 (cy_cia402 c)" "inputs_above 32 (cy_cia402 c)" "length (cy_cia402 c) = 2"
proof -
  have p: "map bd_cw (cy_cia402 c) = map bd_cw cia402_new" "map bd_sw (cy_cia402 c) = map bd_sw cia402_new"
    using assms by (simp_all add: bridge_inv_def)
  show "drives_wf 110 (cy_cia402 c)" using cia402_BUS_wf by (simp only: drives_wf_pins p)
  have "list_all (\<lambda>q. 32 \<le> unat (pin_byte_offset q)) (map bd_sw cia402_new)"
    using cia402_BUS_above by (simp add: inputs_above_def list.pred_map comp_def)
  then have "list_all (\<lambda>q. 32 \<le> unat (pin_byte_offset q)) (map bd_sw (cy_cia402 c))" using p(2) by simp
  then show "inputs_above 32 (cy_cia402 c)" by (simp add: inputs_above_def list.pred_map comp_def)
  have "length (map (\<lambda>d. (pin_name (bd_cw d), pin_name (bd_sw d), bd_fr_high d)) cia402_new) = 2"
    unfolding cia402_BUS by simp
  then have "length cia402_new = 2" by simp
  then show "length (cy_cia402 c) = 2" using arg_cong [OF p(1), of length] by simp
qed

lemma bridge_idle_motion: "host_wf LAYOUT h \<Longrightarrow> \<not> motion_active (hb_motion h)"
  by (simp add: host_wf_def LAYOUT_def ring_ok_def motion_active_def)

lemma bridge_frame:
  assumes "bridge_inv c h" "host_ingest LAYOUT h f = Some h'"
  shows "bridge_inv c h'"
  using assms host_ingest_total [of LAYOUT h f] by (auto simp: bridge_inv_def)

text \<open>Before the first frame of the host the outputs stay as they are.\<close>

lemma host_outputs_silent:
  assumes wf: "cyclic_wf c" and host: "\<not> hb_out_valid h" and out: "host_outputs lay c h t = Some (c', h', u)"
  shows "live_image c' = live_image c"
proof -
  have d: "domain_wf (cy_domain c)" using wf by (simp add: cyclic_wf_def)
  have img: "domain_image (cy_domain c) = Some (live_image c)"
    using domain_image_eq [OF d] by (simp add: live_image_def)
  have same: "live_image c @ drop (dom_len (cy_domain c)) (dom_image (cy_domain c)) = dom_image (cy_domain c)"
    by (simp add: live_image_def)
  have "domain_image_mut (cy_domain c) (\<lambda>_. Some (live_image c)) = Some (cy_domain c)"
    using domain_image_mut_eq [OF d length_live_image [OF wf]] by (simp add: same)
  then show ?thesis
    using out host host_outputs_idle [OF host]
    by (simp add: host_outputs_def img Let_def drive_control_none has_host_def)
qed

definition tick_image :: "cyclic \<Rightarrow> host_bridge \<Rightarrow> bytes" where
  "tick_image c h =
     (if hb_out_valid h
      then snd (cia402_step (cy_cia402 c) (hb_staged_out h @ drop 32 (live_image c)) (drive_intent c h (host_late h) False))
      else live_image c)"

text \<open>A tick from a good state: what was collected, what went out, and the new state.\<close>

lemma bridge_tick:
  assumes inv: "bridge_inv c h" and dev: "dev_wf d"
  obtains c1 d1 c2 c' d' ix' h' r where
    "cyclic_collect lat c d = Some (c1, d1)" "collected c c1"
    "tick_with_host LAYOUT lat c d ix h = Some (c', d', ix', h')" "bridge_inv c' h'" "dev_wf d'"
    "phase_edge (cy_phase c) (cy_phase c1)" "cy_phase c' = cy_phase c1" "cy_phase c2 = cy_phase c1"
    "live_image c2 = tick_image c1 h" "live_image c' = tick_image c1 h"
    "dev_send d1 (frame_bytes (cycle_frame c2 ix)) = Some (d', r)" "cy_outstanding c' = (r = Inr ())"
    "built c' (cycle_frame c2 ix) (map snd (cycle_tail c2 (ix + 1)))" "cy_expected_index c' = ix"
proof -
  have wf: "cyclic_wf c" and ci: "cyclic_inv c" and hw: "host_wf LAYOUT h" and len: "dom_len (cy_domain c) = 110"
    using inv by (simp_all add: bridge_inv_def cyclic_inv_def)
  have len': "110 \<le> dom_len (cy_domain c)" using len by simp
  obtain c1 d1 c2 h2 u c3 d3 ix3 r h4 where t:
    "cyclic_collect lat c d = Some (c1, d1)" "collected c c1"
    "host_outputs LAYOUT c1 (fst (tick_watchdog h)) (host_late h) = Some (c2, h2, u)" "same_inputs c1 c2"
    "hb_out_valid h2 = hb_out_valid h" "hb_flags h2 = hb_flags h" "host_wf LAYOUT h2"
    "cyclic_send c2 d1 ix = Some (c3, d3, ix3)" "same_engine c2 c3" "cy_expected_index c3 = ix"
    "built c3 (cycle_frame c2 ix) (map snd (cycle_tail c2 (ix + 1)))"
    "dev_send d1 (frame_bytes (cycle_frame c2 ix)) = Some (d3, r)" "cy_outstanding c3 = (r = Inr ())" "dev_wf d3"
    "tick_with_host LAYOUT lat c d ix h = Some (c3, d3, ix3, h4)" "host_wf LAYOUT h4"
    by (rule tick_with_host_parts [OF wf dev hw len'])
  have ph: "phase_edge (cy_phase c) (cy_phase c1)" "cy_phase c1 = Operational \<longrightarrow> all_reached_op c1"
    using collected_phase [OF ci t(2)] by simp_all
  have wf1: "cyclic_wf c1" and col: "dom_len (cy_domain c1) = 110" "cy_cia402 c1 = cy_cia402 c"
    using t(2) len by (simp_all add: collected_def)
  have same2: "cyclic_wf c2" "dom_len (cy_domain c2) = 110" "cy_phase c2 = cy_phase c1" "cy_slaves c2 = cy_slaves c1"
      "map bd_cw (cy_cia402 c2) = map bd_cw cia402_new" "map bd_sw (cy_cia402 c2) = map bd_sw cia402_new"
    using t(4) col inv by (simp_all add: same_inputs_def bridge_inv_def)
  have "cy_phase c2 = Operational \<longrightarrow> all_reached_op c2" using ph(2) same2(3,4) by (simp add: all_reached_op_def)
  then have "cyclic_inv c3" using built_inv [OF same2(1) _ t(9,11)] by simp
  then have inv3: "bridge_inv c3 h4"
    using t(9,16) same2 by (simp add: bridge_inv_def same_engine_def)
  have img2: "live_image c2 = tick_image c1 h"
  proof (cases "hb_out_valid h")
    case True
    have hd: "has_drives (cy_cia402 c1)"
      using bridge_drives(3) [OF inv] col(2) by (auto simp: has_drives_def)
    have "hb_out_valid (fst (tick_watchdog h))" "\<not> motion_active (hb_motion (fst (tick_watchdog h)))"
        "host_wf LAYOUT (fst (tick_watchdog h))" "32 \<le> dom_len (cy_domain c1)"
      using True bridge_idle_motion [OF hw] hw col(1) by simp_all
    from host_outputs_exact [OF wf1 this(3,2,1,4) hd, of "host_late h"] t(3)
    have u: "u = False" and i: "live_image c2 = snd (cia402_step (cy_cia402 c1) (hb_staged_out h @ drop 32 (live_image c1))
        (drive_intent c1 (fst (tick_watchdog h)) (host_late h) False))"
      by auto
    have "drive_intent c1 (fst (tick_watchdog h)) (host_late h) False = drive_intent c1 h (host_late h) False"
      by (simp add: drive_intent_def enable_requested_def fault_reset_requested_def quick_stop_requested_def)
    then show ?thesis using i True by (simp add: tick_image_def)
  next
    case False
    then show ?thesis using host_outputs_silent [OF wf1 _ t(3)] by (simp add: tick_image_def)
  qed
  have img3: "live_image c3 = tick_image c1 h" using t(9) img2 by (simp add: same_engine_def live_image_def)
  have ph3: "cy_phase c3 = cy_phase c1" using t(9) same2(3) by (simp add: same_engine_def)
  show thesis by (rule that [OF t(1,2,15) inv3 t(14) ph(1) ph3 same2(3) img2 img3 t(12,13,11,10)])
qed

lemma bridge_run_inv: "bridge_run c h \<Longrightarrow> bridge_inv c h"
proof (induction rule: bridge_run.induct)
  case (tick c h d lat ix c' d' ix' h')
  obtain c3 d3 ix3 h3 where "tick_with_host LAYOUT lat c d ix h = Some (c3, d3, ix3, h3)" "bridge_inv c3 h3"
    using bridge_tick [OF tick.IH tick.hyps(2), of lat ix] by metis
  then show ?case using tick.hyps(3) by simp
qed (simp_all add: bridge_start bridge_frame)

text \<open>The controlword of every drive on the wire, from the statusword in the same image.\<close>

lemma tick_controlword:
  assumes inv: "bridge_inv c h" and dev: "dev_wf d" and valid: "hb_out_valid h"
    and tick: "tick_with_host LAYOUT lat c d ix h = Some (c', d', ix', h')" and i: "i < length (cy_cia402 c)"
  shows "read_value (live_image c') (bd_cw (cy_cia402 c ! i)) =
      ucast (command_word (ucast (read_value (live_image c') (bd_sw (cy_cia402 c ! i))))
               (drive_intent c' h (host_late h) False) (bd_fr_high (cy_cia402 c ! i)))"
proof -
  obtain c1 d1 c3 d3 ix3 h3 where t: "collected c c1"
      "tick_with_host LAYOUT lat c d ix h = Some (c3, d3, ix3, h3)" "cy_phase c3 = cy_phase c1"
      "live_image c3 = tick_image c1 h"
    using bridge_tick [OF inv dev, of lat ix] by metis
  have c': "c' = c3" using t(2) tick by simp
  have wf1: "cyclic_wf c1" and col: "dom_len (cy_domain c1) = 110" "cy_cia402 c1 = cy_cia402 c"
    using t(1) inv by (simp_all add: collected_def bridge_inv_def)
  let ?i = "hb_staged_out h @ drop 32 (live_image c1)" and ?cmd = "drive_intent c1 h (host_late h) False"
  have "length (hb_staged_out h) = 32" using inv by (simp add: bridge_inv_def host_wf_def)
  then have il: "length ?i = 110" using length_live_image [OF wf1] col(1) by simp
  have drives: "drives_wf (length ?i) (cy_cia402 c)" using bridge_drives(1) [OF inv] il by simp
  have d: "cy_cia402 c ! i \<in> set (cy_cia402 c)" using i by simp
  have "read_value (snd (cia402_step (cy_cia402 c) ?i ?cmd)) (bd_sw (cy_cia402 c ! i)) =
      read_value ?i (bd_sw (cy_cia402 c ! i))"
    by (rule cia402_step_apart) (use drives d in \<open>auto simp: drives_wf_def list_all_iff pin_fits_def\<close>)
  moreover have "live_image c3 = snd (cia402_step (cy_cia402 c) ?i ?cmd)"
    using t(4) valid col(2) by (simp add: tick_image_def)
  moreover have "drive_intent c3 h (host_late h) False = ?cmd" using t(3) by (simp add: drive_intent_def)
  ultimately show ?thesis using cia402_step_commands [OF drives i, of ?cmd] c' by simp
qed

text \<open>The input half of the image of a tick is what the bus delivered.\<close>

lemma BUS_controlwords_low:
  "list_all (\<lambda>p. unat (pin_byte_offset p) + pin_bytes p \<le> 32) (map bd_cw cia402_new)"
  by code_simp

lemma drop_eq_nth:
  "length xs = length ys \<Longrightarrow> (\<And>j. n \<le> j \<Longrightarrow> j < length xs \<Longrightarrow> xs ! j = ys ! j) \<Longrightarrow> drop n xs = drop n ys"
  by (rule nth_equalityI) simp_all

lemma tick_inputs:
  assumes inv: "bridge_inv c h" and col: "collected c c1"
  shows "drop 32 (tick_image c1 h) = drop 32 (live_image c1)"
proof (cases "hb_out_valid h")
  case True
  let ?i = "hb_staged_out h @ drop 32 (live_image c1)" and ?cmd = "drive_intent c1 h (host_late h) False"
  let ?o = "snd (cia402_step (cy_cia402 c) ?i ?cmd)"
  have st: "length (hb_staged_out h) = 32" using inv by (simp add: bridge_inv_def host_wf_def)
  have img: "length (live_image c1) = 110"
    using length_live_image [of c1] col inv by (simp add: collected_def bridge_inv_def)
  then have il: "length ?i = 110" using st by simp
  have low: "unat (pin_byte_offset (bd_cw d)) + pin_bytes (bd_cw d) \<le> 32" if "d \<in> set (cy_cia402 c)" for d
  proof -
    have "list_all (\<lambda>p. unat (pin_byte_offset p) + pin_bytes p \<le> 32) (map bd_cw (cy_cia402 c))"
      using BUS_controlwords_low inv by (simp add: bridge_inv_def)
    then show ?thesis using that by (simp add: list_all_iff)
  qed
  have fits: "pin_fits ?i (bd_cw d)" if "d \<in> set (cy_cia402 c)" for d
    using bridge_drives(1) [OF inv] il that by (auto simp: drives_wf_def list_all_iff pin_fits_def)
  have "?o ! j = ?i ! j" if j: "32 \<le> j" "j < 110" for j
    by (rule cia402_step_nth) (use j il fits low in force)+
  then have "drop 32 ?o = drop 32 ?i" by (intro drop_eq_nth) (simp_all add: il del: length_append)
  then show ?thesis using True st col by (simp add: tick_image_def collected_def)
qed (simp add: tick_image_def)

end
