(* ===== verification/Master.thy ===== *)
theory Master
  imports SlaveConfig Scan Bridge
begin

text \<open>
  The master, \<^verbatim>\<open>src/src/ethercat/master.rs\<close>: it owns the device, the list of slaves, the running operation
  and the cyclic engine. \<^verbatim>\<open>begin\<close> turns a request into an operation, \<^verbatim>\<open>poll_op\<close> advances it by one
  datagram. Four sequencers are machines of their own: \<^verbatim>\<open>PreOp\<close> (mailbox sync managers, then a state
  change), \<^verbatim>\<open>ConfigSeq\<close> (every configured slave to SAFE-OP), \<^verbatim>\<open>DownSeq\<close> (every cyclic slave to PRE-OP,
  best effort), and the scan. All are instances of \<open>bounded_fsm\<close>, and so is the operation of the
  master: every request ends.
\<close>

unbundle bit_operations_syntax

section \<open>Requests\<close>

datatype master_request =
    Rescan
  | SetState u16 u8
  | SdoUpload u16 u16 u8
  | SdoDownload u16 u16 u8 bytes u8
  | StartCyclic u64
  | StopCyclic

datatype outcome =
    Rescanned nat | StateReached u8 | SdoUploaded nat | SdoDownloaded | CyclicStarted | CyclicStopped

definition needs_mailbox :: "u8 \<Rightarrow> bool" where
  "needs_mailbox target \<longleftrightarrow> target = al_PREOP \<or> target = al_SAFEOP \<or> target = al_OP"

definition sdo_state :: "slave_info \<Rightarrow> u8" where
  "sdo_state s = (let current = al_state s AND al_MASK in if needs_mailbox current then current else al_PREOP)"

datatype sdo_op = SdoOpUpload u16 u8 | SdoOpDownload u16 u8 bytes u8

fun sdo_op_build :: "sdo_op \<Rightarrow> mailbox \<Rightarrow> fsm_coe option" where
  "sdo_op_build (SdoOpUpload ix sub) mbox = Some (coe_upload mbox ix sub)"
| "sdo_op_build (SdoOpDownload ix sub dat len) mbox =
     do { d \<leftarrow> slice dat 0 (unat len); Some (coe_download mbox ix sub d) }"

section \<open>Mailbox set-up and state change\<close>

datatype pre_stage = ConfigSm0 | ConfigSm1 | PreChange

record pre_op = chan +
  po_station :: u16
  po_target :: u8
  po_configure :: bool
  po_mbox :: mailbox
  po_stage :: pre_stage
  po_change :: fsm_change

definition pre_op_new :: "u16 \<Rightarrow> mailbox \<Rightarrow> u8 \<Rightarrow> bool \<Rightarrow> pre_op" where
  "pre_op_new station mbox target configure =
     \<lparr>fs_pump = pump_new, fs_tx = replicate 64 0, fs_tx_len = 0, fs_rx = replicate 128 0,
      po_station = station, po_target = target, po_configure = configure, po_mbox = mbox,
      po_stage = ConfigSm0, po_change = change_new station target\<rparr>"

definition pre_op_acked :: "pre_stage \<Rightarrow> pre_op \<Rightarrow> reply \<Rightarrow> (pre_op \<times> bool res) option" where
  "pre_op_acked nxt f r =
     (if rp_wkc r \<noteq> 1 then Some (f, Inl WorkingCounter)
      else Some (f\<lparr>po_stage := nxt, fs_tx_len := 0\<rparr>, Inr False))"

definition pre_op_step :: "pre_op fsm_step" where
  "pre_op_step f d ix =
     (case po_stage f of
        ConfigSm0 \<Rightarrow>
          if \<not> po_configure f then Some (f\<lparr>po_stage := PreChange\<rparr>, d, ix, Inr False)
          else do {
            page \<leftarrow> write_mailbox_out (replicate 8 0) (mb_rx_offset (po_mbox f)) (mb_rx_size (po_mbox f));
            stage f d ix (one_datagram Fpwr (po_station f) reg_SM0 page) (on_reply (pre_op_acked ConfigSm1)) }
      | ConfigSm1 \<Rightarrow> do {
          page \<leftarrow> write_mailbox_in (replicate 8 0) (mb_tx_offset (po_mbox f)) (mb_tx_size (po_mbox f));
          stage f d ix (one_datagram Fpwr (po_station f) reg_SM1 page) (on_reply (pre_op_acked PreChange)) }
      | PreChange \<Rightarrow> do {
          (c, d, ix, r) \<leftarrow> change_step (po_change f) d ix;
          Some (f\<lparr>po_change := c\<rparr>, d, ix, r) })"

section \<open>Bring-up of all slaves\<close>

record config_seq =
  cq_idx :: nat
  cq_fsm :: "fsm_slave_config option"
  cq_ready :: "cyclic_slave list"

definition config_seq_new :: config_seq where
  "config_seq_new = \<lparr>cq_idx = 0, cq_fsm = None, cq_ready = []\<rparr>"

definition dc_context :: "slave_info list \<Rightarrow> slave_info \<Rightarrow> dc_ref" where
  "dc_context slaves info =
     (case find (\<lambda>s. ring_pos s = bus_ref_clock_slave BUS) slaves of
        Some r \<Rightarrow> if station_addr r \<noteq> station_addr info
                  then \<lparr>ref_station = station_addr r, compensate = True\<rparr> else dc_ref_reference
      | None \<Rightarrow> dc_ref_reference)"

text \<open>\<^verbatim>\<open>if self.fsm.is_none() { .. }\<close>: match the configured slave to the scan, and start its machine.\<close>

definition config_seq_open :: "slave_info list \<Rightarrow> slave_cfg \<Rightarrow> config_seq \<Rightarrow> config_seq res" where
  "config_seq_open slaves cfg q =
     (case cq_fsm q of
        Some _ \<Rightarrow> Inr q
      | None \<Rightarrow>
          (case find (\<lambda>s. ring_pos s = sl_position cfg) slaves of
             None \<Rightarrow> Inl NoSuchSlave
           | Some info \<Rightarrow>
               Inr (q\<lparr>cq_ready := push_drop EC_MAX_SLAVES (cq_ready q)
                        \<lparr>cs_station = station_addr info, cs_ring_pos = ring_pos info\<rparr>,
                      cq_fsm := Some (slave_config_new (station_addr info) (mailbox_of info) cfg
                        (dc_context slaves info))\<rparr>)))"

definition config_seq_step :: "slave_info list \<Rightarrow> config_seq fsm_step" where
  "config_seq_step slaves q d ix =
     (let cfgs = bus_slaves BUS in
      if cq_idx q \<ge> length cfgs then Some (q, d, ix, Inr True)
      else do {
        cfg \<leftarrow> idx cfgs (cq_idx q);
        case config_seq_open slaves cfg q of
          Inl e \<Rightarrow> Some (q, d, ix, Inl e)
        | Inr q \<Rightarrow> do {
            f \<leftarrow> cq_fsm q;
            (f, d, ix, r) \<leftarrow> slave_config_step f d ix;
            case r of
              Inl e \<Rightarrow> Some (q\<lparr>cq_fsm := Some f\<rparr>, d, ix, Inl e)
            | Inr fin \<Rightarrow>
                let q = (if fin then q\<lparr>cq_fsm := None, cq_idx := cq_idx q + 1\<rparr> else q\<lparr>cq_fsm := Some f\<rparr>)
                in Some (q, d, ix, Inr (cq_idx q \<ge> length cfgs)) } })"

section \<open>Bringing all slaves down\<close>

record down_seq =
  ds_stations :: "u16 list"
  ds_idx :: nat
  ds_change :: "fsm_change option"

definition down_seq_new :: "u16 list \<Rightarrow> down_seq" where
  "down_seq_new stations = \<lparr>ds_stations = stations, ds_idx = 0, ds_change = None\<rparr>"

text \<open>The result is \<^verbatim>\<open>(done, reached_preop)\<close>.\<close>

definition down_seq_step ::
  "down_seq \<Rightarrow> device \<Rightarrow> u8 \<Rightarrow> (down_seq \<times> device \<times> u8 \<times> bool \<times> u16 option) option" where
  "down_seq_step q d ix =
     (if ds_idx q \<ge> length (ds_stations q) then Some (q, d, ix, True, None)
      else do {
        station \<leftarrow> idx (ds_stations q) (ds_idx q);
        let c = (case ds_change q of None \<Rightarrow> change_new station al_PREOP | Some c \<Rightarrow> c);
        (c, d, ix, r) \<leftarrow> change_step c d ix;
        let nxt = q\<lparr>ds_change := None, ds_idx := ds_idx q + 1\<rparr>;
        case r of
          Inr False \<Rightarrow> Some (q\<lparr>ds_change := Some c\<rparr>, d, ix, False, None)
        | Inr True \<Rightarrow> Some (nxt, d, ix, ds_idx nxt \<ge> length (ds_stations nxt), Some station)
        | Inl _ \<Rightarrow> Some (nxt, d, ix, ds_idx nxt \<ge> length (ds_stations nxt), None) })"

section \<open>The master\<close>

datatype op =
    OpRescan scan_fsm
  | OpState pre_op
  | OpSdo u16 pre_op "fsm_coe option" sdo_op
  | OpStartCyclic config_seq u64
  | OpStopCyclic down_seq

record master =
  ma_device :: device
  ma_slaves :: "slave_info list"
  ma_index :: u8
  ma_op :: "op option"
  ma_sdo_buf :: bytes
  ma_sdo_len :: nat
  ma_cyclic :: "cyclic option"
  ma_trace :: "string option"

definition master_new :: "device \<Rightarrow> master" where
  "master_new d =
     \<lparr>ma_device = d, ma_slaves = [], ma_index = 0, ma_op = None, ma_sdo_buf = replicate 4 0,
      ma_sdo_len = 0, ma_cyclic = None, ma_trace = None\<rparr>"

definition take_scan_trace :: "master \<Rightarrow> string option \<times> master" where
  "take_scan_trace m = (ma_trace m, m\<lparr>ma_trace := None\<rparr>)"

definition op_active :: "master \<Rightarrow> bool" where "op_active m \<longleftrightarrow> ma_op m \<noteq> None"

definition cyclic_active :: "master \<Rightarrow> bool" where "cyclic_active m \<longleftrightarrow> ma_cyclic m \<noteq> None"

definition master_sdo_buf :: "master \<Rightarrow> bytes option" where
  "master_sdo_buf m = slice (ma_sdo_buf m) 0 (ma_sdo_len m)"

definition slave_copy :: "master \<Rightarrow> u16 \<Rightarrow> slave_info res" where
  "slave_copy m slave = (case idx (ma_slaves m) (unat slave) of None \<Rightarrow> Inl NoSuchSlave | Some s \<Rightarrow> Inr s)"

definition update_state :: "master \<Rightarrow> u16 \<Rightarrow> u8 \<Rightarrow> master" where
  "update_state m station target =
     m\<lparr>ma_slaves := map (\<lambda>s. if station_addr s = station then s\<lparr>al_state := target AND al_MASK\<rparr> else s) (ma_slaves m)\<rparr>"

definition begin_sdo :: "master \<Rightarrow> u16 \<Rightarrow> sdo_op \<Rightarrow> op res" where
  "begin_sdo m slave req =
     (case slave_copy m slave of
        Inl e \<Rightarrow> Inl e
      | Inr s \<Rightarrow>
          if \<not> supports_coe s then Inl CoeUnsupported
          else Inr (OpSdo slave (pre_op_new (station_addr s) (mailbox_of s) (sdo_state s) True) None req))"

text \<open>\<^verbatim>\<open>begin\<close>: the operation of a request, and the slave list it clears for a scan.\<close>

definition master_begin :: "master \<Rightarrow> master_request \<Rightarrow> master \<times> unit res" where
  "master_begin m req =
     (let (m, r) =
        (case req of
           Rescan \<Rightarrow> (m\<lparr>ma_slaves := []\<rparr>, Inr (OpRescan scan_new))
         | SetState slave target \<Rightarrow>
             (m, case slave_copy m slave of
                   Inl e \<Rightarrow> Inl e
                 | Inr s \<Rightarrow> Inr (OpState (pre_op_new (station_addr s) (mailbox_of s) target (needs_mailbox target))))
         | SdoUpload slave ix sub \<Rightarrow> (m, begin_sdo m slave (SdoOpUpload ix sub))
         | SdoDownload slave ix sub dat len \<Rightarrow> (m, begin_sdo m slave (SdoOpDownload ix sub dat len))
         | StartCyclic cycle_ns \<Rightarrow>
             (m, if ma_slaves m = [] then Inl NoSuchSlave else Inr (OpStartCyclic config_seq_new cycle_ns))
         | StopCyclic \<Rightarrow>
             (m, Inr (OpStopCyclic (down_seq_new
                   (case ma_cyclic m of None \<Rightarrow> [] | Some c \<Rightarrow> cyclic_stations c)))))
      in case r of Inl e \<Rightarrow> (m, Inl e) | Inr p \<Rightarrow> (m\<lparr>ma_op := Some p\<rparr>, Inr ()))"

text \<open>The device and the index counter after a step of an embedded machine.\<close>

abbreviation on_bus :: "master \<Rightarrow> device \<Rightarrow> u8 \<Rightarrow> master" where
  "on_bus m d ix \<equiv> m\<lparr>ma_device := d, ma_index := ix\<rparr>"

definition drive_rescan :: "master \<Rightarrow> scan_fsm \<Rightarrow> (master \<times> op \<times> outcome option res) option" where
  "drive_rescan m f = do {
     (f, d, ix, r) \<leftarrow> scan_step f (ma_device m) (ma_index m);
     let m = on_bus m d ix;
     case r of
       Inl e \<Rightarrow> Some (m, OpRescan f, Inl e)
     | Inr fin \<Rightarrow>
         let (t, f) = take_trace f;
             m = m\<lparr>ma_trace := t\<rparr>;
             (s, f) = take_completed_slave f;
             m = (case s of None \<Rightarrow> m | Some s \<Rightarrow> m\<lparr>ma_slaves := push_drop EC_MAX_SLAVES (ma_slaves m) s\<rparr>)
         in Some (m, OpRescan f, Inr (if fin then Some (Rescanned (length (ma_slaves m))) else None)) }"

definition drive_state :: "master \<Rightarrow> pre_op \<Rightarrow> (master \<times> op \<times> outcome option res) option" where
  "drive_state m p = do {
     (p, d, ix, r) \<leftarrow> pre_op_step p (ma_device m) (ma_index m);
     let m = on_bus m d ix;
     case r of
       Inl e \<Rightarrow> Some (m, OpState p, Inl e)
     | Inr fin \<Rightarrow>
         if fin then Some (update_state m (po_station p) (po_target p), OpState p, Inr (Some (StateReached (po_target p))))
         else Some (m, OpState p, Inr None) }"

text \<open>An SDO operation first brings the slave to a mailbox state, then runs the transfer.\<close>

definition drive_sdo_pre ::
  "master \<Rightarrow> u16 \<Rightarrow> pre_op \<Rightarrow> sdo_op \<Rightarrow> (master \<times> op \<times> outcome option res) option" where
  "drive_sdo_pre m slave p req = do {
     (p, d, ix, r) \<leftarrow> pre_op_step p (ma_device m) (ma_index m);
     let m = on_bus m d ix;
     case r of
       Inl e \<Rightarrow> Some (m, OpSdo slave p None req, Inl e)
     | Inr fin \<Rightarrow>
         if \<not> fin then Some (m, OpSdo slave p None req, Inr None)
         else
           let m = update_state m (po_station p) (po_target p)
           in case idx (ma_slaves m) (unat slave) of
                None \<Rightarrow> Some (m, OpSdo slave p None req, Inl NoSuchSlave)
              | Some s \<Rightarrow> do {
                  c \<leftarrow> sdo_op_build req (mailbox_of s);
                  Some (m, OpSdo slave p (Some c) req, Inr None) } }"

definition drive_sdo_coe ::
  "master \<Rightarrow> u16 \<Rightarrow> pre_op \<Rightarrow> fsm_coe \<Rightarrow> sdo_op \<Rightarrow> (master \<times> op \<times> outcome option res) option" where
  "drive_sdo_coe m slave p c req = do {
     (c, d, ix, r) \<leftarrow> coe_step c (ma_device m) (ma_index m);
     let m = on_bus m d ix;
     let again = OpSdo slave p (Some c) req;
     case r of
       Inl e \<Rightarrow> Some (m, again, Inl e)
     | Inr fin \<Rightarrow>
         if \<not> fin then Some (m, again, Inr None)
         else case req of
                SdoOpUpload _ _ \<Rightarrow> do {
                  resp \<leftarrow> coe_response c;
                  let n = min (length resp) 4;
                  src \<leftarrow> slice resp 0 n;
                  buf \<leftarrow> copy_at (ma_sdo_buf m) 0 n src;
                  Some (m\<lparr>ma_sdo_buf := buf, ma_sdo_len := n\<rparr>, again, Inr (Some (SdoUploaded n))) }
              | SdoOpDownload _ _ _ _ \<Rightarrow> Some (m, again, Inr (Some SdoDownloaded)) }"

definition drive_start :: "master \<Rightarrow> config_seq \<Rightarrow> u64 \<Rightarrow> (master \<times> op \<times> outcome option res) option" where
  "drive_start m q cycle_ns = do {
     (q, d, ix, r) \<leftarrow> config_seq_step (ma_slaves m) q (ma_device m) (ma_index m);
     let m = on_bus m d ix;
     case r of
       Inl e \<Rightarrow> Some (m, OpStartCyclic q cycle_ns, Inl e)
     | Inr fin \<Rightarrow>
         if \<not> fin then Some (m, OpStartCyclic q cycle_ns, Inr None)
         else
           let m = foldl (\<lambda>m cs. update_state m (cs_station cs) al_SAFEOP) m (cq_ready q)
           in Some (m\<lparr>ma_cyclic := Some (cyclic_new (cq_ready q) (bus_ref_clock_slave BUS) cycle_ns)\<rparr>,
                    OpStartCyclic q cycle_ns, Inr (Some CyclicStarted)) }"

definition drive_stop :: "master \<Rightarrow> down_seq \<Rightarrow> (master \<times> op \<times> outcome option res) option" where
  "drive_stop m q = do {
     (q, d, ix, fin, reached) \<leftarrow> down_seq_step q (ma_device m) (ma_index m);
     let m = on_bus m d ix;
     let m = (case reached of None \<Rightarrow> m | Some station \<Rightarrow> update_state m station al_PREOP);
     if \<not> fin then Some (m, OpStopCyclic q, Inr None)
     else Some (m\<lparr>ma_cyclic := None\<rparr>, OpStopCyclic q, Inr (Some CyclicStopped)) }"

fun master_drive :: "master \<Rightarrow> op \<Rightarrow> (master \<times> op \<times> outcome option res) option" where
  "master_drive m (OpRescan f) = drive_rescan m f"
| "master_drive m (OpState p) = drive_state m p"
| "master_drive m (OpSdo slave p None req) = drive_sdo_pre m slave p req"
| "master_drive m (OpSdo slave p (Some c) req) = drive_sdo_coe m slave p c req"
| "master_drive m (OpStartCyclic q cycle_ns) = drive_start m q cycle_ns"
| "master_drive m (OpStopCyclic q) = drive_stop m q"

text \<open>\<^verbatim>\<open>poll_op\<close>: the operation is taken out, driven, and put back while it is pending.\<close>

definition poll_op :: "master \<Rightarrow> (master \<times> outcome res option) option" where
  "poll_op m =
     (case ma_op m of
        None \<Rightarrow> Some (m, None)
      | Some p \<Rightarrow> do {
          (m, p, r) \<leftarrow> master_drive (m\<lparr>ma_op := None\<rparr>) p;
          Some (case r of
                  Inr None \<Rightarrow> (m\<lparr>ma_op := Some p\<rparr>, None)
                | Inr (Some o') \<Rightarrow> (m, Some (Inr o'))
                | Inl e \<Rightarrow> (m, Some (Inl e))) })"

definition master_cyclic_tick :: "u32 \<Rightarrow> master \<Rightarrow> master option" where
  "master_cyclic_tick lat m =
     (case ma_cyclic m of
        None \<Rightarrow> Some m
      | Some c \<Rightarrow> do {
          (c, d, ix) \<leftarrow> cyclic_tick lat c (ma_device m) (ma_index m);
          Some ((on_bus m d ix)\<lparr>ma_cyclic := Some c\<rparr>) })"

definition host_cycle :: "stream_layout \<Rightarrow> u32 \<Rightarrow> master \<Rightarrow> host_bridge \<Rightarrow> (master \<times> host_bridge) option" where
  "host_cycle lay lat m h =
     (case ma_cyclic m of
        None \<Rightarrow> Some (m, h)
      | Some c \<Rightarrow> do {
          (c, d, ix, h) \<leftarrow> tick_with_host lay lat c (ma_device m) (ma_index m) h;
          Some ((on_bus m d ix)\<lparr>ma_cyclic := Some c\<rparr>, h) })"

text \<open>\<^verbatim>\<open>cyclic_image\<close> and \<^verbatim>\<open>cyclic_image_mut\<close>, the latter with what is done to the slice.\<close>

definition master_cyclic_image :: "master \<Rightarrow> bytes option option" where
  "master_cyclic_image m =
     (case ma_cyclic m of None \<Rightarrow> Some None | Some c \<Rightarrow> do { img \<leftarrow> domain_image (cy_domain c); Some (Some img) })"

definition master_image_mut :: "master \<Rightarrow> (bytes \<Rightarrow> bytes option) \<Rightarrow> master option" where
  "master_image_mut m f =
     (case ma_cyclic m of
        None \<Rightarrow> Some m
      | Some c \<Rightarrow> do {
          dom \<leftarrow> domain_image_mut (cy_domain c) f;
          Some (m\<lparr>ma_cyclic := Some (c\<lparr>cy_domain := dom\<rparr>)\<rparr>) })"

definition master_cyclic_status :: "u32 \<Rightarrow> master \<Rightarrow> cyclic_status option" where
  "master_cyclic_status core_hz m = map_option (cyclic_read_status core_hz) (ma_cyclic m)"

text \<open>\<^verbatim>\<open>scan\<close> is the blocking scan at start-up, \<^verbatim>\<open>link_up\<close> reads the PHY; both go through the device and are
  modelled in \<open>BlockScan\<close> and \<open>Phy\<close>.\<close>

section \<open>The mailbox set-up ends\<close>

definition pre_op_inv :: "pre_op \<Rightarrow> bool" where
  "pre_op_inv p \<longleftrightarrow> chan_wf 64 128 p \<and> change_inv (po_change p) \<and> change_left (po_change p) \<le> change_full"

definition pre_rank :: "pre_op \<Rightarrow> nat" where
  "pre_rank p = (case po_stage p of ConfigSm0 \<Rightarrow> 2 | ConfigSm1 \<Rightarrow> 1 | PreChange \<Rightarrow> 0)"

definition pre_op_left :: "pre_op \<Rightarrow> nat" where
  "pre_op_left p =
     (if po_stage p = PreChange then change_left (po_change p) else change_full + 1 + stage_left pre_rank p)"

text \<open>The channel of the change machine is a field of this one: selectors of the one pass updates of
  the other.\<close>

lemma po_change_fields [simp]:
  "chan_wf n k (p\<lparr>po_change := c\<rparr>) = chan_wf n k p" "po_change (p\<lparr>po_stage := s\<rparr>) = po_change p"
  "chan_wf n k (p\<lparr>po_stage := s\<rparr>) = chan_wf n k p" "po_change (chan_upd p q t j x) = po_change p"
  "po_change (p\<lparr>fs_tx_len := j\<rparr>) = po_change p" "po_change (p\<lparr>fs_pump := q\<rparr>) = po_change p"
  "po_change (p\<lparr>fs_tx := t\<rparr>) = po_change p" "po_change (p\<lparr>fs_rx := t\<rparr>) = po_change p"
  by (cases p, simp add: chan_wf_def)+

lemma pre_rank_chan [simp]: "pre_rank (chan_upd p q t k x) = pre_rank p"
  by (simp add: pre_rank_def)

lemma pre_op_new_inv: "pre_op_inv (pre_op_new station mbox target configure)"
  using change_new_inv change_new_left
  by (simp add: pre_op_inv_def pre_op_new_def chan_wf_def pump_new_def change_full_def)

lemma pre_op_left_le:
  assumes "pre_op_inv p"
  shows "pre_op_left p \<le> change_full + 1 + 2 * 2003 + 2002"
proof -
  have "pre_rank p \<le> 2" by (cases "po_stage p") (simp_all add: pre_rank_def)
  then have "pre_rank p * 2003 \<le> 2 * 2003" by simp
  moreover have "chan_left p \<le> 2002" by (rule chan_left_le)
  moreover have "change_left (po_change p) \<le> change_full" using assms by (simp add: pre_op_inv_def)
  ultimately show ?thesis unfolding pre_op_left_def stage_left_def by auto
qed

lemma pre_stage_ok:
  assumes inv: "pre_op_inv p" and dev: "dev_wf d" and st: "po_stage p \<noteq> PreChange"
    and page: "length page = 8" and nxt: "pre_rank (p\<lparr>po_stage := nxt\<rparr>) < pre_rank p"
  shows "\<exists>p' d' ix' r. stage p d ix (one_datagram Fpwr station ado page) (on_reply (pre_op_acked nxt)) =
      Some (p', d', ix', r) \<and> dev_wf d' \<and> (r = Inr False \<longrightarrow> pre_op_inv p' \<and> pre_op_left p' < pre_op_left p)"
proof -
  have wf: "chan_wf 64 128 p" using inv by (simp add: pre_op_inv_def)
  have b: "builder_ok 64 (one_datagram Fpwr station ado page)" by (rule one_datagram_ok) (use page in auto)
  have rank: "pre_rank (g\<lparr>po_stage := s, fs_tx_len := 0\<rparr>) = pre_rank (p\<lparr>po_stage := s\<rparr>)" for g s
    by (simp add: pre_rank_def)
  have step: "\<exists>p' d' ix' r. stage p d ix (one_datagram Fpwr station ado page) (on_reply (pre_op_acked nxt)) =
      Some (p', d', ix', r) \<and> dev_wf d' \<and> (r = Inr False \<longrightarrow> pre_op_inv p' \<and> stage_left pre_rank p' < stage_left pre_rank p)"
  proof (rule stage_reply_ok [OF wf dev b])
    fix q t k x assume w: "chan_wf 64 128 (chan_upd p q t k x)"
    show "pre_op_inv (chan_upd p q t k x) \<and> pre_rank (chan_upd p q t k x) = pre_rank p"
      using w inv by (simp add: pre_op_inv_def)
  next
    fix q t k x and r :: reply assume w: "chan_wf 64 128 (chan_upd p q t k x)"
    let ?g = "(chan_upd p q t k x)\<lparr>po_stage := nxt, fs_tx_len := 0\<rparr>"
    have "pre_op_inv ?g" using w inv by (simp add: pre_op_inv_def) (simp add: chan_wf_def)
    then show "\<exists>g out. pre_op_acked nxt (chan_upd p q t k x) r = Some (g, out) \<and>
        (out = Inr False \<longrightarrow> pre_op_inv g \<and> pre_rank g < pre_rank p)"
      using nxt by (simp add: pre_op_acked_def rank)
  qed simp_all
  have less: "pre_op_left p' < pre_op_left p" if "pre_op_inv p'" "stage_left pre_rank p' < stage_left pre_rank p" for p'
  proof -
    have "change_left (po_change p') \<le> change_full" using that(1) by (simp add: pre_op_inv_def)
    then show ?thesis using that(2) st by (simp add: pre_op_left_def)
  qed
  show ?thesis using step less by blast
qed

interpretation pre_op: bounded_fsm pre_op_step pre_op_inv pre_op_left
proof
  fix p d ix
  assume inv: "pre_op_inv p" and dev: "dev_wf d"
  have ch: "change_inv (po_change p)" "change_left (po_change p) \<le> change_full"
    using inv by (simp_all add: pre_op_inv_def)
  note pages = write_mailbox_out_def write_mailbox_in_def sync_write_page_eq [OF length_replicate] bind.bind_lunit
  show "\<exists>p' d' ix' r. pre_op_step p d ix = Some (p', d', ix', r) \<and> dev_wf d' \<and>
          (r = Inr False \<longrightarrow> pre_op_inv p' \<and> pre_op_left p' < pre_op_left p)"
  proof (cases "po_stage p")
    case ConfigSm0
    show ?thesis
    proof (cases "po_configure p")
      case True
      then have eq: "pre_op_step p d ix = do {
            page \<leftarrow> write_mailbox_out (replicate 8 0) (mb_rx_offset (po_mbox p)) (mb_rx_size (po_mbox p));
            stage p d ix (one_datagram Fpwr (po_station p) reg_SM0 page) (on_reply (pre_op_acked ConfigSm1)) }"
        using ConfigSm0 by (simp add: pre_op_step_def)
      show ?thesis
        unfolding eq pages by (rule pre_stage_ok [OF inv dev]) (simp_all add: ConfigSm0 pre_rank_def)
    next
      case False
      then show ?thesis
        using ConfigSm0 inv dev ch
        by (simp add: pre_op_step_def pre_op_inv_def pre_op_left_def)
    qed
  next
    case ConfigSm1
    show ?thesis
      unfolding pre_op_step_def ConfigSm1 pre_stage.case pages
      by (rule pre_stage_ok [OF inv dev]) (simp_all add: ConfigSm1 pre_rank_def)
  next
    case PreChange
    obtain c d' ix' r where c: "change_step (po_change p) d ix = Some (c, d', ix', r)" "dev_wf d'"
        "r = Inr False \<longrightarrow> change_inv c \<and> change_left c < change_left (po_change p)"
      using change.step_ok [OF ch(1) dev, of ix] by blast
    have "pre_op_inv (p\<lparr>po_change := c\<rparr>) \<and> pre_op_left (p\<lparr>po_change := c\<rparr>) < pre_op_left p" if "r = Inr False"
      using that c(3) ch(2) inv PreChange by (simp add: pre_op_inv_def pre_op_left_def)
    then show ?thesis using c PreChange by (simp add: pre_op_step_def)
  qed
qed

text \<open>The target is reported only by the state change.\<close>

lemma pre_op_done:
  assumes "pre_op_step p d ix = Some (p', d', ix', Inr True)"
  shows "po_stage p = PreChange \<and> change_step (po_change p) d ix = Some (po_change p', d', ix', Inr True)"
proof (cases "po_stage p")
  case ConfigSm0
  then have False
    using assms by (auto simp: pre_op_step_def pre_op_acked_def Option.bind_eq_Some_conv
        elim!: stage_reply_eq_Some split: if_split_asm)
  then show ?thesis ..
next
  case ConfigSm1
  then have False
    using assms by (auto simp: pre_op_step_def pre_op_acked_def Option.bind_eq_Some_conv
        elim!: stage_reply_eq_Some split: if_split_asm)
  then show ?thesis ..
next
  case PreChange
  then show ?thesis using assms by (auto simp: pre_op_step_def Option.bind_eq_Some_conv)
qed

section \<open>The bring-up of all slaves ends\<close>

definition config_full :: "slave_cfg \<Rightarrow> nat" where
  "config_full cfg = phase_budget cfg ClearFmmus + after_phase cfg ClearFmmus"

definition config_rest :: "nat \<Rightarrow> nat" where
  "config_rest i = (\<Sum>cfg\<leftarrow>drop i (bus_slaves BUS). config_full cfg + 2)"

definition config_seq_inv :: "config_seq \<Rightarrow> bool" where
  "config_seq_inv q \<longleftrightarrow> (\<forall>f. cq_fsm q = Some f \<longrightarrow> slave_config_inv f)"

definition config_seq_left :: "config_seq \<Rightarrow> nat" where
  "config_seq_left q =
     (case cq_fsm q of
        None \<Rightarrow> config_rest (cq_idx q)
      | Some f \<Rightarrow> slave_config_left f + 1 + config_rest (cq_idx q + 1))"

lemma slave_config_new_left:
  "slave_config_left (slave_config_new station mbox cfg dref) \<le> config_full cfg"
proof -
  let ?f = "slave_config_new station mbox cfg dref"
  have f: "sc_slave ?f = cfg" "sc_phase ?f = ClearFmmus" by (simp_all add: slave_config_new_def)
  have "sub_ok ?f" using slave_config_new_inv by (simp add: slave_config_inv_def)
  then show ?thesis using phase_left_le [of ?f] f by (simp add: slave_config_left_def config_full_def)
qed

lemma config_rest_step:
  "i < length (bus_slaves BUS) \<Longrightarrow> config_rest i = config_full (bus_slaves BUS ! i) + 2 + config_rest (i + 1)"
  by (simp add: config_rest_def Cons_nth_drop_Suc [symmetric])

text \<open>Opening the machine of the next slave does not raise the measure.\<close>

lemma config_seq_open_ok:
  assumes "config_seq_inv q" "cq_idx q < length (bus_slaves BUS)"
    and "config_seq_open slaves (bus_slaves BUS ! cq_idx q) q = Inr q'"
  obtains f where "cq_fsm q' = Some f" "slave_config_inv f" "cq_idx q' = cq_idx q"
    "slave_config_left f + 1 + config_rest (cq_idx q + 1) \<le> config_seq_left q"
proof (cases "cq_fsm q")
  case (Some f)
  then show ?thesis
    using assms that [of f] by (simp add: config_seq_open_def config_seq_inv_def config_seq_left_def)
next
  case None
  then obtain info where q': "q' = q\<lparr>cq_ready := push_drop EC_MAX_SLAVES (cq_ready q)
        \<lparr>cs_station = station_addr info, cs_ring_pos = ring_pos info\<rparr>,
      cq_fsm := Some (slave_config_new (station_addr info) (mailbox_of info) (bus_slaves BUS ! cq_idx q)
        (dc_context slaves info))\<rparr>"
    using assms(3) by (auto simp: config_seq_open_def split: option.split_asm)
  show ?thesis
    by (rule that)
       (use None assms(2) slave_config_new_left [of _ _ "bus_slaves BUS ! cq_idx q"] in
        \<open>auto simp: q' slave_config_new_inv config_seq_left_def config_rest_step le_SucI\<close>)
qed

interpretation config_seq: bounded_fsm "config_seq_step slaves" config_seq_inv config_seq_left for slaves
proof
  fix q d ix
  assume inv: "config_seq_inv q" and dev: "dev_wf d"
  show "\<exists>q' d' ix' r. config_seq_step slaves q d ix = Some (q', d', ix', r) \<and> dev_wf d' \<and>
          (r = Inr False \<longrightarrow> config_seq_inv q' \<and> config_seq_left q' < config_seq_left q)"
  proof (cases "cq_idx q < length (bus_slaves BUS)")
    case False
    then show ?thesis using dev by (simp add: config_seq_step_def)
  next
    case i: True
    then have cfg: "idx (bus_slaves BUS) (cq_idx q) = Some (bus_slaves BUS ! cq_idx q)" by (rule idx_in)
    show ?thesis
    proof (cases "config_seq_open slaves (bus_slaves BUS ! cq_idx q) q")
      case (Inl e)
      then show ?thesis using i cfg dev by (simp add: config_seq_step_def Let_def)
    next
      case (Inr q1)
      obtain f where f: "cq_fsm q1 = Some f" "slave_config_inv f" "cq_idx q1 = cq_idx q"
          "slave_config_left f + 1 + config_rest (cq_idx q + 1) \<le> config_seq_left q"
        by (rule config_seq_open_ok [OF inv i Inr])
      obtain f' d' ix' r where st: "slave_config_step f d ix = Some (f', d', ix', r)" "dev_wf d'"
          "r = Inr False \<longrightarrow> slave_config_inv f' \<and> slave_config_left f' < slave_config_left f"
        using slave_config.step_ok [OF f(2) dev, of ix] by blast
      show ?thesis
      proof (cases r)
        case (Inl e)
        then show ?thesis using i cfg Inr f(1) st(1,2) by (simp add: config_seq_step_def Let_def)
      next
        case r: (Inr fin)
        let ?q = "if fin then q1\<lparr>cq_fsm := None, cq_idx := cq_idx q1 + 1\<rparr> else q1\<lparr>cq_fsm := Some f'\<rparr>"
        have "config_seq_step slaves q d ix = Some (?q, d', ix', Inr (cq_idx ?q \<ge> length (bus_slaves BUS)))"
          using i cfg Inr f(1) st(1) r by (simp add: config_seq_step_def Let_def)
        moreover have "config_seq_inv ?q \<and> config_seq_left ?q < config_seq_left q"
          using f st(3) r by (cases fin) (simp_all add: config_seq_inv_def config_seq_left_def)
        ultimately show ?thesis using st(2) by blast
      qed
    qed
  qed
qed

text \<open>The slaves collected: one per configured slave so far, found on the scanned bus.\<close>

definition ready_of :: "slave_info list \<Rightarrow> nat \<Rightarrow> cyclic_slave list \<Rightarrow> bool" where
  "ready_of slaves n ready \<longleftrightarrow> length ready = n \<and>
     (\<forall>i<n. \<exists>s. find (\<lambda>s. ring_pos s = sl_position (bus_slaves BUS ! i)) slaves = Some s \<and>
        ready ! i = \<lparr>cs_station = station_addr s, cs_ring_pos = ring_pos s\<rparr>)"

definition seq_ready :: "slave_info list \<Rightarrow> config_seq \<Rightarrow> bool" where
  "seq_ready slaves q \<longleftrightarrow>
     ready_of slaves (cq_idx q + (if cq_fsm q = None then 0 else 1)) (cq_ready q) \<and>
     cq_idx q + (if cq_fsm q = None then 0 else 1) \<le> length (bus_slaves BUS)"

lemma BUS_slave_count: "length (bus_slaves BUS) = 2"
  by (simp add: BUS_def SLAVES_def)

lemma ready_of_snoc:
  assumes "ready_of slaves n ready"
    and "find (\<lambda>s. ring_pos s = sl_position (bus_slaves BUS ! n)) slaves = Some s"
  shows "ready_of slaves (n + 1) (ready @ [\<lparr>cs_station = station_addr s, cs_ring_pos = ring_pos s\<rparr>])"
  using assms by (auto simp: ready_of_def nth_append less_Suc_eq)

lemma config_seq_open_ready:
  assumes "seq_ready slaves q" "cq_idx q < length (bus_slaves BUS)"
    and "config_seq_open slaves (bus_slaves BUS ! cq_idx q) q = Inr q'"
  shows "cq_fsm q' \<noteq> None" "cq_idx q' = cq_idx q" "seq_ready slaves q'"
proof -
  have "cq_fsm q' \<noteq> None \<and> cq_idx q' = cq_idx q \<and> seq_ready slaves q'"
  proof (cases "cq_fsm q")
    case None
    then obtain s where s: "find (\<lambda>s. ring_pos s = sl_position (bus_slaves BUS ! cq_idx q)) slaves = Some s"
      and q': "cq_ready q' = push_drop EC_MAX_SLAVES (cq_ready q) \<lparr>cs_station = station_addr s, cs_ring_pos = ring_pos s\<rparr>"
        "cq_fsm q' \<noteq> None" "cq_idx q' = cq_idx q"
      using assms(3) by (auto simp: config_seq_open_def split: option.split_asm)
    have r: "ready_of slaves (cq_idx q) (cq_ready q)" using assms(1) None by (simp add: seq_ready_def)
    then have "length (cq_ready q) < EC_MAX_SLAVES"
      using assms(2) by (simp add: ready_of_def BUS_slave_count EC_MAX_SLAVES_def)
    then have "cq_ready q' = cq_ready q @ [\<lparr>cs_station = station_addr s, cs_ring_pos = ring_pos s\<rparr>]"
      using q'(1) push_drop_room by metis
    then show ?thesis using ready_of_snoc [OF r s] q' assms(2) by (auto simp: seq_ready_def)
  qed (use assms in \<open>simp add: config_seq_open_def\<close>)
  then show "cq_fsm q' \<noteq> None" "cq_idx q' = cq_idx q" "seq_ready slaves q'" by simp_all
qed

lemma config_seq_step_ready:
  assumes st: "config_seq_step slaves q d ix = Some (q', d', ix', Inr fin)" and rdy: "seq_ready slaves q"
  shows "seq_ready slaves q' \<and> (fin \<longrightarrow> ready_of slaves (length (bus_slaves BUS)) (cq_ready q'))"
proof (cases "cq_idx q < length (bus_slaves BUS)")
  case False
  then show ?thesis using st rdy by (auto simp: config_seq_step_def seq_ready_def split: if_splits)
next
  case i: True
  then have cfg: "idx (bus_slaves BUS) (cq_idx q) = Some (bus_slaves BUS ! cq_idx q)" by (rule idx_in)
  then obtain q1 where q1: "config_seq_open slaves (bus_slaves BUS ! cq_idx q) q = Inr q1"
    using st i by (cases "config_seq_open slaves (bus_slaves BUS ! cq_idx q) q") (simp_all add: config_seq_step_def)
  note o1 = config_seq_open_ready [OF rdy i q1]
  obtain f where f: "cq_fsm q1 = Some f" using o1(1) by blast
  then obtain f' d1 ix1 r where s: "slave_config_step f d ix = Some (f', d1, ix1, r)"
    using st i cfg q1 by (auto simp: config_seq_step_def Option.bind_eq_Some_conv)
  then obtain b where r: "r = Inr b"
    using st i cfg q1 f by (cases r) (auto simp: config_seq_step_def)
  let ?q = "if b then q1\<lparr>cq_fsm := None, cq_idx := cq_idx q1 + 1\<rparr> else q1\<lparr>cq_fsm := Some f'\<rparr>"
  have q': "q' = ?q" "fin = (cq_idx ?q \<ge> length (bus_slaves BUS))"
    using st i cfg q1 f s r by (auto simp: config_seq_step_def Let_def)
  have "seq_ready slaves ?q" using o1 f i by (simp add: seq_ready_def)
  moreover have "ready_of slaves (length (bus_slaves BUS)) (cq_ready ?q)"
    if "cq_idx ?q \<ge> length (bus_slaves BUS)"
    using that o1 f i by (cases b) (simp_all add: seq_ready_def, metis Suc_leI le_antisym)
  ultimately show ?thesis using q' by simp
qed

section \<open>Bringing the slaves down ends\<close>

definition down_seq_inv :: "down_seq \<Rightarrow> bool" where
  "down_seq_inv q \<longleftrightarrow> (\<forall>c. ds_change q = Some c \<longrightarrow> change_inv c)"

definition down_seq_left :: "down_seq \<Rightarrow> nat" where
  "down_seq_left q =
     (case ds_change q of
        None \<Rightarrow> (length (ds_stations q) - ds_idx q) * (change_full + 2)
      | Some c \<Rightarrow> change_left c + 1 + (length (ds_stations q) - (ds_idx q + 1)) * (change_full + 2))"

text \<open>The step as a machine: it has no error result.\<close>

definition down_machine :: "down_seq fsm_step" where
  "down_machine q d ix = do { (q, d, ix, fin, _) \<leftarrow> down_seq_step q d ix; Some (q, d, ix, Inr fin) }"

lemma down_seq_step_ok:
  assumes inv: "down_seq_inv q" and dev: "dev_wf d"
  shows "\<exists>q' d' ix' fin reached. down_seq_step q d ix = Some (q', d', ix', fin, reached) \<and> dev_wf d' \<and>
    (\<not> fin \<longrightarrow> down_seq_inv q' \<and> down_seq_left q' < down_seq_left q)"
proof (cases "ds_idx q < length (ds_stations q)")
  case False
  then show ?thesis using dev by (simp add: down_seq_step_def exI [of _ True])
next
  case i: True
  let ?station = "ds_stations q ! ds_idx q"
  define c where "c = (case ds_change q of None \<Rightarrow> change_new ?station al_PREOP | Some c \<Rightarrow> c)"
  have step: "length (ds_stations q) - ds_idx q = Suc (length (ds_stations q) - (ds_idx q + 1))" using i by simp
  have c: "change_inv c"
      "change_left c + 1 + (length (ds_stations q) - (ds_idx q + 1)) * (change_full + 2) \<le> down_seq_left q"
    using inv change_new_inv change_new_left unfolding down_seq_left_def
    by (auto simp: c_def down_seq_inv_def step change_full_def split: option.splits)
  obtain c' d' ix' r where st: "change_step c d ix = Some (c', d', ix', r)" "dev_wf d'"
      "r = Inr False \<longrightarrow> change_inv c' \<and> change_left c' < change_left c"
    using change.step_ok [OF c(1) dev, of ix] by blast
  let ?nxt = "q\<lparr>ds_change := None, ds_idx := ds_idx q + 1\<rparr>"
  have nxt: "down_seq_inv ?nxt" "down_seq_left ?nxt < down_seq_left q"
    using c(2) by (simp_all add: down_seq_inv_def down_seq_left_def)
  have pend: "down_seq_inv (q\<lparr>ds_change := Some c'\<rparr>)" "down_seq_left (q\<lparr>ds_change := Some c'\<rparr>) < down_seq_left q"
    if "r = Inr False"
    using that st(3) c(2) by (simp_all add: down_seq_inv_def down_seq_left_def)
  have eq: "down_seq_step q d ix =
     (case r of
          Inr False \<Rightarrow> Some (q\<lparr>ds_change := Some c'\<rparr>, d', ix', False, None)
        | Inr True \<Rightarrow> Some (?nxt, d', ix', ds_idx ?nxt \<ge> length (ds_stations ?nxt), Some ?station)
        | Inl _ \<Rightarrow> Some (?nxt, d', ix', ds_idx ?nxt \<ge> length (ds_stations ?nxt), None))"
    using i st(1) by (simp add: down_seq_step_def idx_in c_def [symmetric] Let_def split: sum.split bool.split)
  consider e where "r = Inl e" | "r = Inr True" | "r = Inr False"
    by (metis (full_types) sum.exhaust)
  then show ?thesis
    unfolding eq using nxt pend st(2) by cases auto
qed

interpretation down: bounded_fsm down_machine down_seq_inv down_seq_left
proof
  fix q d ix
  assume "down_seq_inv q" "dev_wf d"
  from down_seq_step_ok [OF this, of ix]
  show "\<exists>q' d' ix' r. down_machine q d ix = Some (q', d', ix', r) \<and> dev_wf d' \<and>
          (r = Inr False \<longrightarrow> down_seq_inv q' \<and> down_seq_left q' < down_seq_left q)"
    by (auto simp: down_machine_def)
qed

lemma down_seq_new_inv: "down_seq_inv (down_seq_new stations)"
  by (simp add: down_seq_inv_def down_seq_new_def)

end
