(* ===== verification/MasterRun.thy ===== *)
theory MasterRun
  imports Master
begin

text \<open>
  The master over time: the invariant of its state, that every drive of an operation keeps it, the runs
  of the master under the network, the cyclic interrupt and the host bridge, and what a request comes
  to. \<^verbatim>\<open>begin\<close>, \<^verbatim>\<open>poll_op\<close>, \<^verbatim>\<open>cyclic_tick\<close> and \<^verbatim>\<open>host_cycle\<close> of \<^verbatim>\<open>src/src/ethercat/master.rs\<close> are modelled
  in \<open>Master\<close>; the polling loop \<open>poll_until\<close> is \<^verbatim>\<open>ecat_drive\<close> of \<^verbatim>\<open>src/src/main.rs\<close>.
\<close>

unbundle bit_operations_syntax

section \<open>Invariants of the master\<close>

fun sdo_op_ok :: "sdo_op \<Rightarrow> bool" where
  "sdo_op_ok (SdoOpUpload _ _) = True"
| "sdo_op_ok (SdoOpDownload _ _ dat len) = (length dat = 4 \<and> unat len \<le> 4)"

fun request_ok :: "master_request \<Rightarrow> bool" where
  "request_ok (SdoDownload _ _ _ dat len) = (length dat = 4 \<and> unat len \<le> 4)"
| "request_ok _ = True"

fun op_inv :: "op \<Rightarrow> bool" where
  "op_inv (OpRescan f) = scan_inv f"
| "op_inv (OpState p) = pre_op_inv p"
| "op_inv (OpSdo _ p None r) = (pre_op_inv p \<and> sdo_op_ok r)"
| "op_inv (OpSdo _ p (Some c) r) = (coe_inv c \<and> ce_state c \<noteq> CoeDone)"
| "op_inv (OpStartCyclic q _) = config_seq_inv q"
| "op_inv (OpStopCyclic q) = down_seq_inv q"

text \<open>How an operation relates to the list of slaves.\<close>

fun op_slaves :: "slave_info list \<Rightarrow> op \<Rightarrow> bool" where
  "op_slaves slaves (OpRescan f) = (sf_completed f = None \<and> scan_at f (length slaves))"
| "op_slaves slaves (OpStartCyclic q _) = seq_ready slaves q"
| "op_slaves slaves _ = True"

fun op_left :: "op \<Rightarrow> nat" where
  "op_left (OpRescan f) = scan_left f"
| "op_left (OpState p) = pre_op_left p"
| "op_left (OpSdo _ p None _) = pre_op_left p + coe_full + 1"
| "op_left (OpSdo _ p (Some c) _) = coe_left c"
| "op_left (OpStartCyclic q _) = config_seq_left q"
| "op_left (OpStopCyclic q) = down_seq_left q"

definition engine_ok :: "cyclic \<Rightarrow> bool" where
  "engine_ok c \<longleftrightarrow> bridge_inv c (host_new LAYOUT)"

definition base_inv :: "master \<Rightarrow> bool" where
  "base_inv m \<longleftrightarrow> dev_wf (ma_device m) \<and> length (ma_sdo_buf m) = 4 \<and> ma_sdo_len m \<le> 4 \<and>
     ring_order (ma_slaves m) \<and> length (ma_slaves m) \<le> 32 \<and> (\<forall>c. ma_cyclic m = Some c \<longrightarrow> engine_ok c)"

definition master_inv :: "master \<Rightarrow> bool" where
  "master_inv m \<longleftrightarrow> base_inv m \<and> (\<forall>p. ma_op m = Some p \<longrightarrow> op_inv p \<and> op_slaves (ma_slaves m) p)"

lemma engine_ok_host: "engine_ok c \<Longrightarrow> host_wf LAYOUT h \<Longrightarrow> bridge_inv c h"
  by (simp add: engine_ok_def bridge_inv_def)

lemma engine_ok_bridge: "bridge_inv c h \<Longrightarrow> engine_ok c"
  using host_new_wf by (simp add: engine_ok_def bridge_inv_def)

lemma engine_ok_new: "engine_ok (cyclic_new slaves pos ns)"
  unfolding engine_ok_def by (rule bridge_start)

lemma base_inv_bus: "base_inv m \<Longrightarrow> dev_wf d \<Longrightarrow> base_inv (on_bus m d ix)"
  by (simp add: base_inv_def)

lemma slave_at_update: "slave_at i s \<Longrightarrow> slave_at i (s\<lparr>al_state := v AND al_MASK\<rparr>)"
  by (simp add: slave_at_def and.assoc)

lemma ring_order_update: "ring_order (ma_slaves m) \<Longrightarrow> ring_order (ma_slaves (update_state m station target))"
  by (auto simp: ring_order_def update_state_def intro: slave_at_update [simplified])

lemma base_inv_update: "base_inv m \<Longrightarrow> base_inv (update_state m station target)"
  using ring_order_update [of m station target] by (simp add: base_inv_def update_state_def)

lemma base_inv_updates: "base_inv m \<Longrightarrow> base_inv (foldl (\<lambda>m cs. update_state m (cs_station cs) v) m ready)"
  by (induction ready arbitrary: m) (simp_all add: base_inv_update)

section \<open>Driving an operation\<close>

text \<open>Driving leaves the slot of the running operation alone.\<close>

lemma update_state_op [simp]: "ma_op (update_state m station v) = ma_op m"
  by (simp add: update_state_def)

lemma update_states_op [simp]: "ma_op (foldl (\<lambda>m cs. update_state m (cs_station cs) v) m ready) = ma_op m"
  by (induction ready arbitrary: m) simp_all

definition driven :: "master \<Rightarrow> op \<Rightarrow> (master \<times> op \<times> outcome option res) option \<Rightarrow> bool" where
  "driven m p t \<longleftrightarrow> (\<exists>m' p' r. t = Some (m', p', r) \<and> base_inv m' \<and> ma_op m' = ma_op m \<and>
     (r = Inr None \<longrightarrow> op_inv p' \<and> op_slaves (ma_slaves m') p' \<and> op_left p' < op_left p))"

lemma drive_state_ok:
  assumes "base_inv m" "pre_op_inv p"
  shows "driven m (OpState p) (drive_state m p)"
proof -
  have "dev_wf (ma_device m)" using assms(1) by (simp add: base_inv_def)
  from pre_op.step_ok [OF assms(2) this, of "ma_index m"]
  obtain p' d' ix' r where st: "pre_op_step p (ma_device m) (ma_index m) = Some (p', d', ix', r)" "dev_wf d'"
      "r = Inr False \<longrightarrow> pre_op_inv p' \<and> pre_op_left p' < pre_op_left p" by blast
  then show ?thesis
    using base_inv_bus [OF assms(1) st(2)] base_inv_update
    by (cases r) (auto simp: driven_def drive_state_def Let_def)
qed

lemma sdo_op_build_ok:
  assumes "sdo_op_ok r"
  shows "\<exists>c. sdo_op_build r mbox = Some c \<and> coe_inv c \<and> ce_state c \<noteq> CoeDone \<and> coe_left c = coe_full"
proof (cases r)
  case (SdoOpUpload ix sub)
  then show ?thesis
    using coe_upload_inv coe_new_left by (simp add: coe_upload_def coe_new_def coe_full_def)
next
  case (SdoOpDownload ix sub dat len)
  then have "slice dat 0 (unat len) = Some (take (unat len) dat)" using assms by (simp add: slice_def)
  moreover have "ce_state (coe_download mbox ix sub d) = WriteRequest" for d
    by (simp add: coe_download_def coe_new_def)
  ultimately show ?thesis using SdoOpDownload coe_download_inv coe_download_left by simp
qed

lemma drive_sdo_pre_ok:
  assumes "base_inv m" "pre_op_inv p" "sdo_op_ok req"
  shows "driven m (OpSdo slave p None req) (drive_sdo_pre m slave p req)"
proof -
  have "dev_wf (ma_device m)" using assms(1) by (simp add: base_inv_def)
  from pre_op.step_ok [OF assms(2) this, of "ma_index m"]
  obtain p' d' ix' r where st: "pre_op_step p (ma_device m) (ma_index m) = Some (p', d', ix', r)" "dev_wf d'"
      "r = Inr False \<longrightarrow> pre_op_inv p' \<and> pre_op_left p' < pre_op_left p" by blast
  note base = base_inv_bus [OF assms(1) st(2), of ix']
  show ?thesis
  proof (cases "r = Inr True")
    case False
    then show ?thesis
      using st base assms(3) by (cases r) (auto simp: driven_def drive_sdo_pre_def Let_def)
  next
    case True
    let ?m = "update_state (on_bus m d' ix') (po_station p') (po_target p')"
    have b: "base_inv ?m" by (rule base_inv_update [OF base])
    show ?thesis
    proof (cases "idx (ma_slaves ?m) (unat slave)")
      case None
      then show ?thesis using st True b by (simp add: driven_def drive_sdo_pre_def Let_def)
    next
      case (Some s)
      obtain c where c: "sdo_op_build req (mailbox_of s) = Some c" "coe_inv c" "ce_state c \<noteq> CoeDone"
          "coe_left c = coe_full"
        using sdo_op_build_ok [OF assms(3)] by blast
      have "drive_sdo_pre m slave p req = Some (?m, OpSdo slave p' (Some c) req, Inr None)"
        using st True Some c(1) by (simp add: drive_sdo_pre_def Let_def)
      then show ?thesis using b c by (simp add: driven_def)
    qed
  qed
qed

text \<open>The response of a finished transfer fits the four bytes of the master.\<close>

lemma parse_sdo_size:
  assumes "parse_sdo_response kind dat = Some (Inr (v, n))"
  shows "length v = 4 \<and> n \<le> 4"
proof (cases "is_coe_reply dat")
  case True
  then show ?thesis
    using assms sdo_size_bounds [of "dat ! 8"]
    by (cases kind; cases "dat ! 8 AND 0xE0 = 0x80"; cases "dat ! 8 AND 0x02 = 0")
       (auto simp: parse_sdo_abort parse_sdo_download parse_sdo_upload_segmented parse_sdo_upload)
qed (use assms in \<open>simp add: parse_sdo_garbage\<close>)

lemma coe_pending_state:
  assumes "coe_step c d ix = Some (c', d', ix', Inr False)" "ce_state c \<noteq> CoeDone"
  shows "ce_state c' \<noteq> CoeDone"
  using assms unfolding coe_step_def
  by (auto split: coe_state.split_asm if_split_asm elim!: stage_reply_eq_Some coe_on_response_eq_Some
      simp: coe_on_write_def coe_on_wait_def Let_def)

lemma drive_sdo_coe_ok:
  assumes "base_inv m" "coe_inv c" "ce_state c \<noteq> CoeDone"
  shows "driven m (OpSdo slave p (Some c) req) (drive_sdo_coe m slave p c req)"
proof -
  have "dev_wf (ma_device m)" using assms(1) by (simp add: base_inv_def)
  from coe.step_ok [OF assms(2) this, of "ma_index m"]
  obtain c' d' ix' r where st: "coe_step c (ma_device m) (ma_index m) = Some (c', d', ix', r)" "dev_wf d'"
      "r = Inr False \<longrightarrow> coe_inv c' \<and> coe_left c' < coe_left c" by blast
  note base = base_inv_bus [OF assms(1) st(2), of ix']
  show ?thesis
  proof (cases "r = Inr True")
    case False
    then show ?thesis
      using st base coe_pending_state [OF _ assms(3)]
      by (cases r) (auto simp: driven_def drive_sdo_coe_def Let_def)
  next
    case True
    then have "length (ce_result c') = 4" "ce_result_len c' \<le> 4"
      using coe_done_reply [OF _ assms(3)] st(1) parse_sdo_size by blast+
    then have resp: "coe_response c' = Some (take (ce_result_len c') (ce_result c'))"
        "length (take (ce_result_len c') (ce_result c')) \<le> 4"
      by (simp_all add: coe_response_def slice_def)
    have len: "length (ma_sdo_buf m) = 4" using assms(1) by (simp add: base_inv_def)
    show ?thesis
    proof (cases req)
      case (SdoOpUpload i s)
      then show ?thesis
        using st(1) True base resp len
        by (simp add: driven_def drive_sdo_coe_def Let_def slice_def copy_at_def base_inv_def)
    next
      case (SdoOpDownload i s dat n)
      then show ?thesis
        using st(1) True base by (simp add: driven_def drive_sdo_coe_def Let_def)
    qed
  qed
qed

lemma scan_done_still:
  assumes "scan_step f d ix = Some (f', d', ix', Inr True)"
  shows "f' = f"
proof (cases "sf_stage f = ScanDone")
  case True
  then show ?thesis using assms by (simp add: scan_step_def)
next
  case False
  have reply: "out \<noteq> Inr True" if "scan_on_reply h g r = Some (g', out)" for h g r g' out
    using that by (auto simp: scan_on_reply_def Let_def split: sum.splits)
  have wr: "out \<noteq> Inr True" if "step_write s d ix cmd adp ado payload h = Some (s', d', ix', out)"
    for s d ix cmd adp ado payload h s' d' ix' out
    using that reply unfolding step_write_def by (elim stage_reply_eq_Some) auto
  have sii: "out \<noteq> Inr True" if "scan_sii_step fld s d ix = Some (s', d', ix', out)" for fld s d ix s' d' ix' out
  proof -
    have "sii_step ((sf_sii s)\<lparr>fs_tx := fs_tx s, fs_rx := fs_rx s\<rparr>) d (cur_station (sf_cur s)) ix \<noteq> None"
      using that unfolding scan_sii_step_def
      by (cases "sii_step ((sf_sii s)\<lparr>fs_tx := fs_tx s, fs_rx := fs_rx s\<rparr>) d (cur_station (sf_cur s)) ix")
        (simp_all only: bind.bind_lzero option.distinct simp_thms)
    then obtain r d1 ix1 b where b: "sii_step ((sf_sii s)\<lparr>fs_tx := fs_tx s, fs_rx := fs_rx s\<rparr>) d
        (cur_station (sf_cur s)) ix = Some (r, d1, ix1, b)"
      by (metis not_None_eq surj_pair)
    consider e where "b = Inl e" | "b = Inr None" | v where "b = Inr (Some v)"
      by (metis option.exhaust sum.exhaust)
    then show ?thesis using that b by cases (auto simp: scan_sii_step_def Let_def)
  qed
  show ?thesis
    using assms False
    by (cases "sf_stage f") (auto simp: scan_step_def step_simple_def Option.bind_eq_Some_conv dest!: wr sii)
qed

lemma drive_rescan_ok:
  assumes base: "base_inv m" and inv: "scan_inv f" and pos: "sf_completed f = None" "scan_at f (length (ma_slaves m))"
  shows "driven m (OpRescan f) (drive_rescan m f)"
proof -
  have "dev_wf (ma_device m)" using base by (simp add: base_inv_def)
  from scan.step_ok [OF inv this, of "ma_index m"]
  obtain f' d' ix' r where st: "scan_step f (ma_device m) (ma_index m) = Some (f', d', ix', r)" "dev_wf d'"
      "r = Inr False \<longrightarrow> scan_inv f' \<and> scan_left f' < scan_left f" by blast
  note bus = base_inv_bus [OF base st(2), of ix']
  let ?f = "f'\<lparr>sf_trace := None, sf_completed := None\<rparr>"
  have f: "snd (take_completed_slave (snd (take_trace f'))) = ?f" "fst (take_completed_slave (snd (take_trace f'))) = sf_completed f'"
    by (simp_all add: take_completed_slave_def take_trace_def)
  define slaves where "slaves = (case sf_completed f' of None \<Rightarrow> ma_slaves m | Some s \<Rightarrow> push_drop EC_MAX_SLAVES (ma_slaves m) s)"
  have eq: "drive_rescan m f =
      (case r of
         Inl e \<Rightarrow> Some (on_bus m d' ix', OpRescan f', Inl e)
       | Inr fin \<Rightarrow> Some ((on_bus m d' ix')\<lparr>ma_trace := sf_trace f', ma_slaves := slaves\<rparr>, OpRescan ?f,
           Inr (if fin then Some (Rescanned (length slaves)) else None)))"
    using st(1) by (auto simp: drive_rescan_def Let_def slaves_def take_completed_slave_def take_trace_def
        split: sum.split option.split)
  have sii: "sf_sii (g\<lparr>sf_trace := t, sf_completed := c\<rparr>) = sf_sii g" for g t c by (cases g) simp
  have rank: "scan_rank ?f = scan_rank f'" by (cases "sf_stage f'") (simp_all add: scan_rank_def sii)
  have keep: "scan_inv ?f = scan_inv f'" "scan_left ?f = scan_left f'" "scan_at ?f n = scan_at f' n" for n
    by (simp_all add: scan_inv_def chan_wf_def in_slave_def reading_def lent_def scan_left_def rank sii
        scan_at_def scan_limit_def chan_left_def)
  have room: "n \<le> 32" if "scan_at f' n" for n
    using that by (auto simp: scan_at_def scan_limit_def split: if_splits)
  have moved: "ring_order slaves \<and> length slaves \<le> 32 \<and> scan_at f' (length slaves)" if "r = Inr False"
  proof -
    have "scan_moved f' (length (ma_slaves m))" using scan_step_moved st(1) that pos by blast
    then show ?thesis
    proof (unfold scan_moved_def, elim disjE exE conjE)
      assume "sf_completed f' = None" "scan_at f' (length (ma_slaves m))"
      then show ?thesis using base by (simp add: slaves_def base_inv_def)
    next
      fix i assume i: "sf_completed f' = Some i" "slave_at (length (ma_slaves m)) i" "scan_at f' (length (ma_slaves m) + 1)"
      then have "slaves = ma_slaves m @ [i]" using room [OF i(3)] by (simp add: slaves_def push_drop_room)
      then show ?thesis using i(2,3) room [OF i(3)] base ring_order_snoc by (simp add: base_inv_def)
    qed
  qed
  consider e where "r = Inl e" | "r = Inr True" | "r = Inr False" by (metis (full_types) sum.exhaust)
  then show ?thesis
  proof cases
    case 1
    then show ?thesis using eq bus by (simp add: driven_def)
  next
    case 2
    have "f' = f" using st(1) 2 scan_done_still by blast
    then show ?thesis using eq bus 2 pos(1) by (simp add: driven_def slaves_def base_inv_def)
  next
    case 3
    then show ?thesis
      using eq bus moved [OF 3] st(3) by (simp add: driven_def keep base_inv_def)
  qed
qed

lemma drive_start_ok:
  assumes base: "base_inv m" and inv: "config_seq_inv q" and rdy: "seq_ready (ma_slaves m) q"
  shows "driven m (OpStartCyclic q ns) (drive_start m q ns)"
proof -
  have "dev_wf (ma_device m)" using base by (simp add: base_inv_def)
  from config_seq.step_ok [OF inv this, of "ma_slaves m" "ma_index m"]
  obtain q' d' ix' r where st: "config_seq_step (ma_slaves m) q (ma_device m) (ma_index m) = Some (q', d', ix', r)"
      "dev_wf d'" "r = Inr False \<longrightarrow> config_seq_inv q' \<and> config_seq_left q' < config_seq_left q" by blast
  note bus = base_inv_bus [OF base st(2), of ix']
  have fin: "base_inv (m'\<lparr>ma_cyclic := Some (cyclic_new ready pos ns)\<rparr>)" if "base_inv m'" for m' ready pos
    using that engine_ok_new by (simp add: base_inv_def)
  have rdy': "seq_ready (ma_slaves m) q'" if "r = Inr False"
    using config_seq_step_ready st(1) that rdy by blast
  consider e where "r = Inl e" | "r = Inr True" | "r = Inr False" by (metis (full_types) sum.exhaust)
  then show ?thesis
    using st bus fin [OF base_inv_updates [OF bus]] rdy'
    by cases (auto simp: driven_def drive_start_def Let_def)
qed

lemma drive_stop_ok:
  assumes base: "base_inv m" and inv: "down_seq_inv q"
  shows "driven m (OpStopCyclic q) (drive_stop m q)"
proof -
  have "dev_wf (ma_device m)" using base by (simp add: base_inv_def)
  from down_seq_step_ok [OF inv this, of "ma_index m"]
  obtain q' d' ix' fin reached where st:
      "down_seq_step q (ma_device m) (ma_index m) = Some (q', d', ix', fin, reached)" "dev_wf d'"
      "\<not> fin \<longrightarrow> down_seq_inv q' \<and> down_seq_left q' < down_seq_left q" by blast
  have bus: "base_inv (on_bus m d' ix')" by (rule base_inv_bus [OF base st(2)])
  have "base_inv (case reached of None \<Rightarrow> on_bus m d' ix' | Some s \<Rightarrow> update_state (on_bus m d' ix') s al_PREOP)"
    using bus base_inv_update by (simp split: option.split)
  moreover from this have "base_inv ((case reached of None \<Rightarrow> on_bus m d' ix'
      | Some s \<Rightarrow> update_state (on_bus m d' ix') s al_PREOP)\<lparr>ma_cyclic := None\<rparr>)"
    by (simp add: base_inv_def)
  ultimately show ?thesis using st by (cases fin; cases reached) (simp_all add: driven_def drive_stop_def Let_def)
qed

lemma master_drive_ok:
  assumes "base_inv m" "op_inv p" "op_slaves (ma_slaves m) p"
  shows "driven m p (master_drive m p)"
proof (cases p)
  case (OpSdo slave q c req)
  then show ?thesis using assms drive_sdo_pre_ok drive_sdo_coe_ok by (cases c) simp_all
qed (use assms drive_rescan_ok drive_state_ok drive_start_ok drive_stop_ok in simp_all)

section \<open>Runs of the master\<close>

text \<open>What happens between two polls: the network and the DMA engine change the device, the cyclic
  interrupt ticks the engine, alone or with the host bridge, the shell writes output pins.\<close>

inductive master_env :: "master \<Rightarrow> master \<Rightarrow> bool" where
  net: "dev_wf d \<Longrightarrow> master_env m (m\<lparr>ma_device := d\<rparr>)"
| tick: "master_cyclic_tick lat m = Some m' \<Longrightarrow> master_env m m'"
| host: "host_wf LAYOUT h \<Longrightarrow> host_cycle LAYOUT lat m h = Some (m', h') \<Longrightarrow> master_env m m'"
| outputs: "(\<And>img img'. f img = Some img' \<Longrightarrow> length img' = length img) \<Longrightarrow> master_image_mut m f = Some m' \<Longrightarrow>
    master_env m m'"
| trace: "master_env m (snd (take_scan_trace m))"

inductive master_run :: "master \<Rightarrow> bool" where
  start: "dev_wf d \<Longrightarrow> master_run (master_new d)"
| env: "master_run m \<Longrightarrow> master_env m m' \<Longrightarrow> master_run m'"
| req: "master_run m \<Longrightarrow> request_ok r \<Longrightarrow> master_run (fst (master_begin m r))"
| poll: "master_run m \<Longrightarrow> poll_op m = Some (m', r) \<Longrightarrow> master_run m'"

lemma engine_tick:
  assumes "engine_ok c" "dev_wf d"
  shows "\<exists>c' d' ix'. cyclic_tick lat c d ix = Some (c', d', ix') \<and> engine_ok c' \<and> dev_wf d'"
proof -
  have b: "bridge_inv c (host_new LAYOUT)" using assms(1) by (simp add: engine_ok_def)
  then have inv: "cyclic_inv c" and wf: "cyclic_wf c" by (simp_all add: bridge_inv_def cyclic_inv_def)
  obtain c1 d1 where c1: "cyclic_collect lat c d = Some (c1, d1)" "dev_wf d1" "collected c c1"
    using cyclic_collect_total [OF wf assms(2)] by blast
  obtain c2 d2 ix2 where c2: "cyclic_send c1 d1 ix = Some (c2, d2, ix2)" "same_engine c1 c2" "dev_wf d2"
    using cyclic_send_built [OF collected_wf [OF c1(3)] c1(2)] by metis
  have t: "cyclic_tick lat c d ix = Some (c2, d2, ix2)" using c1(1) c2(1) by (simp add: cyclic_tick_def)
  have "bridge_inv c2 (host_new LAYOUT)"
    using b cyclic_tick_phase(1) [OF inv assms(2) t] c1(3) c2(2)
    by (simp add: bridge_inv_def collected_def same_engine_def)
  then show ?thesis using t c2(3) by (simp add: engine_ok_def)
qed

lemma tick_total:
  assumes "base_inv m"
  shows "\<exists>m'. master_cyclic_tick lat m = Some m' \<and> base_inv m' \<and> ma_op m' = ma_op m \<and> ma_slaves m' = ma_slaves m"
proof (cases "ma_cyclic m")
  case None
  then show ?thesis using assms by (simp add: master_cyclic_tick_def)
next
  case (Some c)
  then have "engine_ok c" "dev_wf (ma_device m)" using assms by (simp_all add: base_inv_def)
  from engine_tick [OF this, of lat "ma_index m"] show ?thesis
    using Some assms by (auto simp: master_cyclic_tick_def base_inv_def)
qed

lemma host_cycle_total:
  assumes "base_inv m" "host_wf LAYOUT h"
  shows "\<exists>m' h'. host_cycle LAYOUT lat m h = Some (m', h') \<and> base_inv m' \<and> host_wf LAYOUT h' \<and>
    ma_op m' = ma_op m \<and> ma_slaves m' = ma_slaves m"
proof (cases "ma_cyclic m")
  case None
  then show ?thesis using assms by (simp add: host_cycle_def)
next
  case (Some c)
  then have "engine_ok c" and dev: "dev_wf (ma_device m)" using assms by (simp_all add: base_inv_def)
  then have inv: "bridge_inv c h" using assms(2) by (simp add: engine_ok_host)
  obtain c' d' ix' h' where "tick_with_host LAYOUT lat c (ma_device m) (ma_index m) h = Some (c', d', ix', h')"
      "bridge_inv c' h'" "dev_wf d'"
    using bridge_tick [OF inv dev, of lat "ma_index m"] by metis
  then show ?thesis
    using Some assms engine_ok_bridge by (auto simp: host_cycle_def base_inv_def bridge_inv_def)
qed

lemma image_mut_kept:
  assumes base: "base_inv m" and len: "\<And>img img'. f img = Some img' \<Longrightarrow> length img' = length img"
    and m': "master_image_mut m f = Some m'"
  shows "base_inv m' \<and> ma_op m' = ma_op m \<and> ma_slaves m' = ma_slaves m"
proof (cases "ma_cyclic m")
  case None
  then show ?thesis using base m' by (simp add: master_image_mut_def)
next
  case (Some c)
  then have eng: "bridge_inv c (host_new LAYOUT)" using base by (simp add: base_inv_def engine_ok_def)
  then have wf: "domain_wf (cy_domain c)" by (simp add: bridge_inv_def cyclic_inv_def cyclic_wf_def)
  obtain dom where dom: "domain_image_mut (cy_domain c) f = Some dom" "m' = m\<lparr>ma_cyclic := Some (c\<lparr>cy_domain := dom\<rparr>)\<rparr>"
    using Some m' by (auto simp: master_image_mut_def Option.bind_eq_Some_conv)
  have "domain_wf dom \<and> dom_len dom = dom_len (cy_domain c)"
    using dom(1) wf len
    by (auto simp: domain_image_mut_def in_window_def Option.bind_eq_Some_conv domain_wf_def slice_def copy_at_def
        split: if_splits dest: len)
  then have "bridge_inv (c\<lparr>cy_domain := dom\<rparr>) (host_new LAYOUT)"
    using eng by (simp add: bridge_inv_def cyclic_inv_def cyclic_wf_def all_reached_op_def)
  then show ?thesis using base dom(2) by (simp add: base_inv_def engine_ok_def)
qed

lemma master_env_kept:
  assumes "master_env m m'" "base_inv m"
  shows "base_inv m' \<and> ma_op m' = ma_op m \<and> ma_slaves m' = ma_slaves m"
  using assms
proof (cases rule: master_env.cases)
  case (net d)
  then show ?thesis using assms(2) by (simp add: base_inv_def)
next
  case (tick lat)
  then show ?thesis using tick_total [OF assms(2), of lat] by auto
next
  case (host h lat h')
  then show ?thesis using host_cycle_total [OF assms(2) host(1), of lat] by auto
next
  case (outputs f)
  show ?thesis by (rule image_mut_kept [OF assms(2) outputs])
next
  case trace
  then show ?thesis using assms(2) by (simp add: take_scan_trace_def base_inv_def)
qed

lemma env_inv: "master_env m m' \<Longrightarrow> master_inv m \<Longrightarrow> master_inv m' \<and> ma_op m' = ma_op m"
  using master_env_kept [of m m'] by (simp add: master_inv_def)

lemma env_star_inv: "master_env\<^sup>*\<^sup>* m m' \<Longrightarrow> master_inv m \<Longrightarrow> master_inv m' \<and> ma_op m' = ma_op m"
  by (induction rule: rtranclp.induct) (auto dest: env_inv)

text \<open>The result of \<^verbatim>\<open>begin\<close>.\<close>

lemma scan_new_at: "sf_completed scan_new = None \<and> scan_at scan_new 0"
  by (simp add: scan_new_def scan_at_def in_slave_def)

lemma begin_inv:
  assumes inv: "master_inv m" and r: "request_ok r"
  shows "master_inv (fst (master_begin m r))"
proof -
  have sdo: "op_inv p \<and> op_slaves s p" if "begin_sdo m slave req = Inr p" "sdo_op_ok req" for slave req p s
    using that pre_op_new_inv by (auto simp: begin_sdo_def split: sum.splits if_splits)
  have new: "config_seq_inv config_seq_new" "seq_ready s config_seq_new" for s
    by (simp_all add: config_seq_inv_def config_seq_new_def seq_ready_def ready_of_def)
  have none: "base_inv (m\<lparr>ma_slaves := []\<rparr>)" using inv by (simp add: master_inv_def base_inv_def ring_order_def)
  show ?thesis
    using inv r none new scan_new_at scan_new_inv pre_op_new_inv down_seq_new_inv sdo
    by (cases r)
       (auto simp: master_begin_def Let_def master_inv_def base_inv_def split: sum.split option.split)
qed

lemma poll_inv:
  assumes "master_inv m"
  obtains "ma_op m = None" "poll_op m = Some (m, None)"
  | p m' q where "ma_op m = Some p" "poll_op m = Some (m', None)" "master_inv m'" "ma_op m' = Some q"
      "op_left q < op_left p"
  | m' r where "poll_op m = Some (m', Some r)" "master_inv m'" "ma_op m' = None"
proof (cases "ma_op m")
  case None
  then show ?thesis by (rule that(1)) (simp add: poll_op_def None)
next
  case (Some p)
  let ?m = "m\<lparr>ma_op := None\<rparr>"
  have b: "base_inv ?m" "op_inv p" "op_slaves (ma_slaves ?m) p"
    using assms Some by (simp_all add: master_inv_def base_inv_def)
  obtain m' q r where d: "master_drive ?m p = Some (m', q, r)" "base_inv m'" "ma_op m' = ma_op ?m"
      "r = Inr None \<longrightarrow> op_inv q \<and> op_slaves (ma_slaves m') q \<and> op_left q < op_left p"
    using master_drive_ok [OF b] unfolding driven_def by blast
  have op: "ma_op m' = None" using d(3) by simp
  show ?thesis
  proof (cases "r = Inr None")
    case True
    show ?thesis
      by (rule that(2) [OF Some, where m' = "m'\<lparr>ma_op := Some q\<rparr>" and q = q])
         (use True d Some in \<open>simp_all add: poll_op_def master_inv_def base_inv_def\<close>)
  next
    case False
    then obtain v where v: "poll_op m = Some (m', Some v)"
      using d(1) Some by (cases r) (auto simp: poll_op_def split: option.split_asm)
    show ?thesis by (rule that(3) [OF v]) (use d(2) op in \<open>simp_all add: master_inv_def\<close>)
  qed
qed

lemma master_run_inv: "master_run m \<Longrightarrow> master_inv m"
proof (induction rule: master_run.induct)
  case (start d)
  then show ?case by (simp add: master_inv_def base_inv_def master_new_def ring_order_def)
next
  case (env m m')
  then show ?case using env_inv by blast
next
  case (req m r)
  then show ?case using begin_inv by blast
next
  case (poll m m' r)
  from poll.IH show ?case
    by (rule poll_inv) (use poll in auto)
qed

section \<open>Requests end\<close>

text \<open>\<^verbatim>\<open>ecat_drive\<close> of \<^verbatim>\<open>src/main.rs\<close> polls until there is a result; \<open>env k\<close> is what happens to the master
  before poll \<open>k\<close>. \<open>Some (m, None)\<close> is a request still pending after \<open>n\<close> polls.\<close>

fun poll_until :: "(nat \<Rightarrow> master \<Rightarrow> master) \<Rightarrow> nat \<Rightarrow> nat \<Rightarrow> master \<Rightarrow> (master \<times> outcome res option) option" where
  "poll_until env 0 k m = Some (m, None)"
| "poll_until env (Suc n) k m = do {
     (m, r) \<leftarrow> poll_op (env k m);
     case r of None \<Rightarrow> poll_until env n (k + 1) m | Some r \<Rightarrow> Some (m, Some r) }"

lemma poll_until_ends:
  assumes "master_inv m" "ma_op m = Some p" "op_left p < n" "\<And>k m. master_env\<^sup>*\<^sup>* m (env k m)"
  shows "\<exists>m' r. poll_until env n k m = Some (m', Some r) \<and> master_inv m' \<and> ma_op m' = None"
  using assms(1,2,3)
proof (induction n arbitrary: k m p)
  case 0
  then show ?case by simp
next
  case (Suc n)
  have e: "master_inv (env k m)" "ma_op (env k m) = Some p"
    using env_star_inv [OF assms(4) Suc.prems(1)] Suc.prems(2) by simp_all
  from e(1) show ?case
  proof (rule poll_inv)
    fix p' m' q
    assume a: "ma_op (env k m) = Some p'" "poll_op (env k m) = Some (m', None)" "master_inv m'"
      "ma_op m' = Some q" "op_left q < op_left p'"
    then have "op_left q < n" using e(2) Suc.prems(3) by simp
    from Suc.IH [OF a(3,4) this, of "k + 1"] show ?thesis using a(2) by simp
  qed (use e(2) in auto)
qed

lemma poll_until_not_started: "ma_op m = None \<Longrightarrow> poll_op m = Some (m, None)"
  by (simp add: poll_op_def)

text \<open>A bound for every request: the longest are the scan and the bring-up of the configured bus.\<close>

fun request_bound :: "master \<Rightarrow> master_request \<Rightarrow> nat" where
  "request_bound m Rescan = (32 * 2415 + 1) * 2003 + 2002"
| "request_bound m (SetState _ _) = change_full + 1 + 2 * 2003 + 2002"
| "request_bound m (SdoUpload _ _ _) = change_full + 1 + 2 * 2003 + 2002 + coe_full + 1"
| "request_bound m (SdoDownload _ _ _ _ _) = change_full + 1 + 2 * 2003 + 2002 + coe_full + 1"
| "request_bound m (StartCyclic _) = config_rest 0"
| "request_bound m StopCyclic =
     (case ma_cyclic m of None \<Rightarrow> 0 | Some c \<Rightarrow> length (cyclic_stations c)) * (change_full + 2)"

lemma begin_left:
  assumes "master_begin m r = (m', Inr ())"
  obtains p where "ma_op m' = Some p" "op_left p \<le> request_bound m r"
proof -
  have sdo: "op_left p \<le> change_full + 1 + 2 * 2003 + 2002 + coe_full + 1" if "begin_sdo m slave req = Inr p" for slave req p
    using that pre_op_left_le [OF pre_op_new_inv] by (auto simp: begin_sdo_def split: sum.splits if_splits)
  have "\<exists>p. ma_op m' = Some p \<and> op_left p \<le> request_bound m r"
  proof (cases r)
    case Rescan
    then show ?thesis using assms by (auto simp: master_begin_def scan_new_left)
  next
    case (SetState slave target)
    then show ?thesis using assms pre_op_left_le [OF pre_op_new_inv]
      by (auto simp: master_begin_def split: sum.splits)
  next
    case (SdoUpload slave ix sub)
    then show ?thesis using assms sdo by (auto simp: master_begin_def split: sum.splits)
  next
    case (SdoDownload slave ix sub dat len)
    then show ?thesis using assms sdo by (auto simp: master_begin_def split: sum.splits)
  next
    case (StartCyclic ns)
    then show ?thesis using assms
      by (auto simp: master_begin_def config_seq_left_def config_seq_new_def split: if_splits)
  next
    case StopCyclic
    then show ?thesis using assms
      by (auto simp: master_begin_def down_seq_left_def down_seq_new_def split: option.splits)
  qed
  then show ?thesis using that by blast
qed

text \<open>Which requests \<^verbatim>\<open>begin\<close> refuses.\<close>

lemma begin_refuses:
  "snd (master_begin m r) = Inl e \<longleftrightarrow>
     (case r of
        Rescan \<Rightarrow> False
      | SetState slave _ \<Rightarrow> unat slave \<ge> length (ma_slaves m) \<and> e = NoSuchSlave
      | SdoUpload slave _ _ \<Rightarrow>
          if unat slave \<ge> length (ma_slaves m) then e = NoSuchSlave
          else \<not> supports_coe (ma_slaves m ! unat slave) \<and> e = CoeUnsupported
      | SdoDownload slave _ _ _ _ \<Rightarrow>
          if unat slave \<ge> length (ma_slaves m) then e = NoSuchSlave
          else \<not> supports_coe (ma_slaves m ! unat slave) \<and> e = CoeUnsupported
      | StartCyclic _ \<Rightarrow> ma_slaves m = [] \<and> e = NoSuchSlave
      | StopCyclic \<Rightarrow> False)"
  by (cases r) (auto simp: master_begin_def begin_sdo_def slave_copy_def idx_def split: sum.splits)

text \<open>A stop request never fails, and drops the engine.\<close>

lemma drive_stop_result:
  assumes "drive_stop m q = Some (m', p', r)"
  shows "(\<exists>q'. p' = OpStopCyclic q' \<and> r = Inr None) \<or> (r = Inr (Some CyclicStopped) \<and> ma_cyclic m' = None)"
  using assms by (auto simp: drive_stop_def Option.bind_eq_Some_conv Let_def split: if_splits)

lemma stop_until:
  assumes "poll_until env n k m = Some (m', Some r)" "ma_op m = Some (OpStopCyclic q)" "master_inv m"
    and "\<And>k m. master_env\<^sup>*\<^sup>* m (env k m)"
  shows "r = Inr CyclicStopped \<and> ma_cyclic m' = None"
  using assms(1,2,3)
proof (induction n arbitrary: k m q)
  case 0
  then show ?case by simp
next
  case (Suc n)
  have e: "master_inv (env k m)" "ma_op (env k m) = Some (OpStopCyclic q)"
    using env_star_inv [OF assms(4) Suc.prems(3)] Suc.prems(2) by simp_all
  obtain m1 p1 r1 where d: "drive_stop ((env k m)\<lparr>ma_op := None\<rparr>) q = Some (m1, p1, r1)"
    using Suc.prems(1) e(2) by (cases "drive_stop ((env k m)\<lparr>ma_op := None\<rparr>) q") (auto simp: poll_op_def)
  from drive_stop_result [OF d] show ?case
  proof
    assume "\<exists>q'. p1 = OpStopCyclic q' \<and> r1 = Inr None"
    then obtain q' where q': "p1 = OpStopCyclic q'" "r1 = Inr None" by blast
    then have p: "poll_op (env k m) = Some (m1\<lparr>ma_op := Some (OpStopCyclic q')\<rparr>, None)"
      using d e(2) by (simp add: poll_op_def)
    have "master_inv (m1\<lparr>ma_op := Some (OpStopCyclic q')\<rparr>)"
      by (rule poll_inv [OF e(1)]) (use p e(1) in auto)
    then show ?thesis using Suc.IH [of "k + 1" "m1\<lparr>ma_op := Some (OpStopCyclic q')\<rparr>" q'] Suc.prems(1) p by simp
  next
    assume "r1 = Inr (Some CyclicStopped) \<and> ma_cyclic m1 = None"
    then show ?thesis using Suc.prems(1) d e(2) by (simp add: poll_op_def)
  qed
qed

lemma poll_outcome:
  assumes "ma_op m = Some p" "poll_op m = Some (m', Some (Inr v))"
  shows "\<exists>m1 p'. master_drive (m\<lparr>ma_op := None\<rparr>) p = Some (m1, p', Inr (Some v)) \<and> m' = m1"
proof (cases "master_drive (m\<lparr>ma_op := None\<rparr>) p")
  case None
  then show ?thesis using assms by (simp add: poll_op_def)
next
  case (Some t)
  then obtain m1 p1 r1 where t: "master_drive (m\<lparr>ma_op := None\<rparr>) p = Some (m1, p1, r1)" by (cases t) auto
  consider e where "r1 = Inl e" | "r1 = Inr None" | v' where "r1 = Inr (Some v')"
    by (metis option.exhaust sum.exhaust)
  then show ?thesis using assms t by cases (auto simp: poll_op_def)
qed

text \<open>The outcome of each kind of operation.\<close>

lemma rescan_outcome:
  assumes "drive_rescan m f = Some (m', p', Inr (Some v))"
  shows "v = Rescanned (length (ma_slaves m'))"
proof (cases "scan_step f (ma_device m) (ma_index m)")
  case (Some t)
  then obtain f' d' ix' r where t: "scan_step f (ma_device m) (ma_index m) = Some (f', d', ix', r)" by (cases t) auto
  show ?thesis
    using assms t by (cases r) (auto simp: drive_rescan_def Let_def take_trace_def take_completed_slave_def split: if_split_asm)
qed (use assms in \<open>simp add: drive_rescan_def\<close>)

lemma state_outcome:
  assumes "drive_state m p = Some (m', p', Inr (Some v))"
  shows "\<exists>s. v = StateReached s"
proof (cases "pre_op_step p (ma_device m) (ma_index m)")
  case (Some t)
  then obtain q d' ix' r where t: "pre_op_step p (ma_device m) (ma_index m) = Some (q, d', ix', r)" by (cases t) auto
  show ?thesis using assms t by (cases r) (auto simp: drive_state_def Let_def split: if_split_asm)
qed (use assms in \<open>simp add: drive_state_def\<close>)

lemma sdo_pre_outcome: "drive_sdo_pre m slave p req \<noteq> Some (m', p', Inr (Some v))"
proof (cases "pre_op_step p (ma_device m) (ma_index m)")
  case (Some t)
  then obtain q d' ix' r where t: "pre_op_step p (ma_device m) (ma_index m) = Some (q, d', ix', r)" by (cases t) auto
  show ?thesis
    using t by (cases r) (auto simp: drive_sdo_pre_def Let_def Option.bind_eq_Some_conv split: if_split_asm option.split_asm)
qed (simp add: drive_sdo_pre_def)

lemma sdo_coe_outcome:
  assumes "drive_sdo_coe m slave p c req = Some (m', p', Inr (Some v))"
  shows "v = SdoDownloaded \<or> (\<exists>n. v = SdoUploaded n)"
proof (cases "coe_step c (ma_device m) (ma_index m)")
  case (Some t)
  then obtain q d' ix' r where t: "coe_step c (ma_device m) (ma_index m) = Some (q, d', ix', r)" by (cases t) auto
  show ?thesis
    using assms t
    by (cases r; cases req) (auto simp: drive_sdo_coe_def Let_def Option.bind_eq_Some_conv split: if_split_asm)
qed (use assms in \<open>simp add: drive_sdo_coe_def\<close>)

lemma start_outcome:
  assumes "drive_start m q ns = Some (m', p', Inr (Some v))"
  obtains q' d' ix' where "config_seq_step (ma_slaves m) q (ma_device m) (ma_index m) = Some (q', d', ix', Inr True)"
    "m' = (foldl (\<lambda>m cs. update_state m (cs_station cs) al_SAFEOP) (on_bus m d' ix') (cq_ready q'))
      \<lparr>ma_cyclic := Some (cyclic_new (cq_ready q') (bus_ref_clock_slave BUS) ns)\<rparr>"
proof (cases "config_seq_step (ma_slaves m) q (ma_device m) (ma_index m)")
  case (Some t)
  then obtain q' d' ix' r where t: "config_seq_step (ma_slaves m) q (ma_device m) (ma_index m) = Some (q', d', ix', r)"
    by (cases t) auto
  then have "r = Inr True" using assms by (cases r) (auto simp: drive_start_def Let_def split: if_split_asm)
  then show ?thesis using that [of q' d' ix'] assms t by (simp add: drive_start_def Let_def)
qed (use assms in \<open>simp add: drive_start_def\<close>)

text \<open>A finished start request leaves an engine over the configured slaves.\<close>

lemma update_states_slaves:
  "ma_slaves (foldl (\<lambda>m cs. update_state m (cs_station cs) v) m ready) =
     map (\<lambda>s. if station_addr s \<in> set (map cs_station ready) then s\<lparr>al_state := v AND al_MASK\<rparr> else s) (ma_slaves m)"
  by (induction ready arbitrary: m) (auto simp: update_state_def)

lemma started_engine:
  assumes inv: "master_inv m" and poll: "poll_op m = Some (m', Some (Inr CyclicStarted))"
  shows "\<exists>ready ns. ready_of (ma_slaves m) (length (bus_slaves BUS)) ready \<and>
    ma_cyclic m' = Some (cyclic_new ready (bus_ref_clock_slave BUS) ns) \<and>
    ma_slaves m' = map (\<lambda>s. if station_addr s \<in> set (map cs_station ready)
      then s\<lparr>al_state := al_SAFEOP\<rparr> else s) (ma_slaves m)"
proof -
  obtain p where p: "ma_op m = Some p" using poll by (cases "ma_op m") (auto simp: poll_op_def)
  let ?m = "m\<lparr>ma_op := None\<rparr>"
  obtain m1 p1 where d: "master_drive ?m p = Some (m1, p1, Inr (Some CyclicStarted))" "m' = m1"
    using poll_outcome [OF p poll] by blast
  have "\<exists>q ns. p = OpStartCyclic q ns"
  proof (cases p)
    case (OpSdo slave po c req)
    then show ?thesis using d(1) sdo_pre_outcome sdo_coe_outcome by (cases c) fastforce+
  qed (use d(1) rescan_outcome state_outcome drive_stop_result in fastforce)+
  then obtain q ns where q: "p = OpStartCyclic q ns" by blast
  then have "drive_start ?m q ns = Some (m1, p1, Inr (Some CyclicStarted))" using d(1) by simp
  then obtain q' d' ix' where "config_seq_step (ma_slaves ?m) q (ma_device ?m) (ma_index ?m) = Some (q', d', ix', Inr True)"
    and m1: "m1 = (foldl (\<lambda>m cs. update_state m (cs_station cs) al_SAFEOP) (on_bus ?m d' ix') (cq_ready q'))
      \<lparr>ma_cyclic := Some (cyclic_new (cq_ready q') (bus_ref_clock_slave BUS) ns)\<rparr>"
    by (rule start_outcome)
  then have st: "config_seq_step (ma_slaves m) q (ma_device m) (ma_index m) = Some (q', d', ix', Inr True)" by simp
  have "seq_ready (ma_slaves m) q" using inv p q by (simp add: master_inv_def)
  then have "ready_of (ma_slaves m) (length (bus_slaves BUS)) (cq_ready q')"
    using config_seq_step_ready [OF st] by simp
  moreover have "ma_cyclic m' = Some (cyclic_new (cq_ready q') (bus_ref_clock_slave BUS) ns)" using d(2) m1 by simp
  moreover have "ma_slaves m' = map (\<lambda>s. if station_addr s \<in> set (map cs_station (cq_ready q'))
      then s\<lparr>al_state := al_SAFEOP\<rparr> else s) (ma_slaves m)"
    using d(2) m1 by (simp add: update_states_slaves)
  ultimately show ?thesis by blast
qed

end
