(* ===== verification/BlockScan.thy ===== *)
theory BlockScan
  imports Scan
begin

text \<open>
  The blocking bus scan of \<^verbatim>\<open>src/ethercat/fsm_master.rs\<close>, \<^verbatim>\<open>src/ethercat/fsm_slave_scan.rs\<close> and
  \<^verbatim>\<open>src/ethercat/fsm_sii.rs\<close>: straight-line code over \<open>transact\<close>. The state it threads is the record
  \<open>bus\<close> (device, datagram index, number of transactions so far); \<open>io\<close> is the type of its
  operations, with \<^verbatim>\<open>?\<close> as \<open>io_bind\<close>. The argument \<open>hw k j\<close> is what the DMA engine and the network do
  before the \<open>j\<close>-th poll of transaction \<open>k\<close>. \<open>io_ok\<close> is a total-correctness judgement: from a
  well-formed device an operation returns, and its value satisfies the predicate.
\<close>

unbundle bit_operations_syntax

section \<open>Operations that may fail or panic\<close>

record bus =
  bus_dev :: device
  bus_index :: u8
  bus_count :: nat

type_synonym 'a io = "bus \<Rightarrow> (bus \<times> 'a res) option"

definition io_ret :: "'a \<Rightarrow> 'a io" where "io_ret v b = Some (b, Inr v)"

definition io_err :: "ec_error \<Rightarrow> 'a io" where "io_err e b = Some (b, Inl e)"

text \<open>The \<^verbatim>\<open>?\<close> operator: an error ends the function.\<close>

definition io_bind :: "'a io \<Rightarrow> ('a \<Rightarrow> 'b io) \<Rightarrow> 'b io" where
  "io_bind m f b = do {
     (b, r) \<leftarrow> m b;
     case r of Inl e \<Rightarrow> Some (b, Inl e) | Inr v \<Rightarrow> f v b }"

type_synonym environment = "nat \<Rightarrow> nat \<Rightarrow> enet \<Rightarrow> enet"

text \<open>
  Build one datagram with the current index, advance the index, transact: the common prefix of
  every exchange. The buffers hold \<^verbatim>\<open>EC_SCAN_FRAME_BUF\<close> bytes; what they held before is overwritten
  (\<^verbatim>\<open>build\<close> fills the part that is sent, \<^verbatim>\<open>transact\<close> the part that is parsed), so each exchange starts
  from zeroed ones, as the declarations do.
\<close>

definition exchange :: "environment \<Rightarrow> command \<Rightarrow> u16 \<Rightarrow> u16 \<Rightarrow> bytes \<Rightarrow> bytes io" where
  "exchange hw cmd adp ado payload b = do {
     (tx, n) \<leftarrow> build (replicate EC_SCAN_FRAME_BUF 0) (bus_index b) cmd adp ado payload;
     frame \<leftarrow> slice tx 0 n;
     (d, rx, r) \<leftarrow> transact (hw (bus_count b)) (bus_dev b) frame (replicate EC_SCAN_FRAME_BUF 0);
     let b = \<lparr>bus_dev = d, bus_index = bus_index b + 1, bus_count = bus_count b + 1\<rparr>;
     case r of
       Inl e \<Rightarrow> Some (b, Inl e)
     | Inr len \<Rightarrow> do { reply \<leftarrow> slice rx 0 len; Some (b, Inr reply) } }"

text \<open>\<^verbatim>\<open>datagram::parse(&rx[..len]).ok_or(EcError::FrameTooShort)?\<close>\<close>

definition parsed :: "bytes \<Rightarrow> reply io" where
  "parsed frame b = do {
     r \<leftarrow> parse frame;
     case r of None \<Rightarrow> Some (b, Inl FrameTooShort) | Some r \<Rightarrow> Some (b, Inr r) }"

definition ask :: "environment \<Rightarrow> command \<Rightarrow> u16 \<Rightarrow> u16 \<Rightarrow> bytes \<Rightarrow> reply io" where
  "ask hw cmd adp ado payload = io_bind (exchange hw cmd adp ado payload) parsed"

text \<open>\<^verbatim>\<open>if reply.working_counter != 1 { return Err(EcError::WorkingCounter); }\<close>\<close>

definition ask_one :: "environment \<Rightarrow> command \<Rightarrow> u16 \<Rightarrow> u16 \<Rightarrow> bytes \<Rightarrow> bytes io" where
  "ask_one hw cmd adp ado payload =
     io_bind (ask hw cmd adp ado payload)
       (\<lambda>r. if rp_wkc r \<noteq> 1 then io_err WorkingCounter else io_ret (rp_data r))"

section \<open>Reading the EEPROM\<close>

definition SII_POLL_ATTEMPTS :: nat where "SII_POLL_ATTEMPTS = 200"

fun sii_poll_loop :: "environment \<Rightarrow> u16 \<Rightarrow> nat \<Rightarrow> u32 io" where
  "sii_poll_loop hw station 0 = io_err SiiTimeout"
| "sii_poll_loop hw station (Suc left) =
     io_bind (ask hw Fprd station reg_SII_CONTROL (replicate 10 0))
       (\<lambda>r b.
          if rp_wkc r = 0 \<or> length (rp_data r) < 10 then sii_poll_loop hw station left b
          else do {
            status \<leftarrow> idx (rp_data r) 1;
            if status AND sii_ctrl_STATUS_ERROR \<noteq> 0 then Some (b, Inl SiiError)
            else if status AND sii_ctrl_STATUS_BUSY = 0 then do {
              x0 \<leftarrow> idx (rp_data r) 6;
              x1 \<leftarrow> idx (rp_data r) 7;
              x2 \<leftarrow> idx (rp_data r) 8;
              x3 \<leftarrow> idx (rp_data r) 9;
              Some (b, Inr (of_le32 x0 x1 x2 x3)) }
            else sii_poll_loop hw station left b })"

definition sii_read_u32 :: "environment \<Rightarrow> u16 \<Rightarrow> u16 \<Rightarrow> u32 io" where
  "sii_read_u32 hw station word_offset =
     io_bind
       (ask hw Fpwr station reg_SII_CONTROL
          [sii_ctrl_ADDR_MODE_TWO_OCTET, sii_ctrl_CMD_READ, ucast (word_offset AND 0xFF),
           ucast (drop_bit 8 word_offset)])
       (\<lambda>r. if rp_wkc r = 0 then io_err WorkingCounter
             else sii_poll_loop hw station SII_POLL_ATTEMPTS)"

section \<open>Scanning\<close>

definition scan_slave :: "environment \<Rightarrow> u16 \<Rightarrow> slave_info io" where
  "scan_slave hw pos =
     (let station = pos + 1
      in io_bind (ask_one hw Apwr (autoinc_adp pos) reg_STATION_ADDR (le16 station)) (\<lambda>_.
         io_bind (ask_one hw Fprd station reg_AL_STATUS (replicate 2 0)) (\<lambda>dat.
         let al = get_or 0 dat 0 AND al_MASK in
         io_bind (ask_one hw Fprd station reg_DL_INFO (replicate 12 0)) (\<lambda>dat.
         let base = get_or 0 dat 0; fmmus = get_or 0 dat 4; syncs = get_or 0 dat 5 in
         io_bind (sii_read_u32 hw station sii_VENDOR_ID) (\<lambda>vendor.
         io_bind (sii_read_u32 hw station sii_PRODUCT_CODE) (\<lambda>product.
         io_bind (sii_read_u32 hw station sii_REVISION) (\<lambda>rev.
         io_bind (sii_read_u32 hw station sii_STD_RX_MBOX) (\<lambda>rx_mbox.
         io_bind (sii_read_u32 hw station sii_STD_TX_MBOX) (\<lambda>tx_mbox.
         io_bind (sii_read_u32 hw station sii_MBOX_PROTOCOLS) (\<lambda>word.
         let protocols = ucast word :: u16 in
         io_ret
           \<lparr>ring_pos = pos, station_addr = station, al_state = al, base_type = base,
            base_fmmu_count = fmmus, base_sync_count = syncs, vendor_id = vendor,
            product_code = product, revision = rev, rx_mbox_offset = ucast rx_mbox,
            rx_mbox_size = ucast (drop_bit 16 rx_mbox), tx_mbox_offset = ucast tx_mbox,
            tx_mbox_size = ucast (drop_bit 16 tx_mbox), mbox_protocols = protocols,
            supports_coe = protocols AND mbox_PROTO_COE \<noteq> 0\<rparr>))))))))))"

definition count_slaves :: "environment \<Rightarrow> u16 io" where
  "count_slaves hw =
     io_bind (ask hw Brd 0 reg_AL_STATUS (replicate 2 0)) (\<lambda>r. io_ret (rp_wkc r))"

definition clear_addresses :: "environment \<Rightarrow> unit io" where
  "clear_addresses hw =
     io_bind (exchange hw Bwr 0 reg_STATION_ADDR (replicate 2 0)) (\<lambda>_. io_ret ())"

text \<open>\<^verbatim>\<open>for ring_pos in 0..count\<close>, with \<open>left\<close> positions to go.\<close>

fun scan_loop :: "environment \<Rightarrow> nat \<Rightarrow> u16 \<Rightarrow> slave_info list \<Rightarrow> slave_info list io" where
  "scan_loop hw 0 pos found = io_ret found"
| "scan_loop hw (Suc left) pos found =
     (if unat pos \<ge> EC_MAX_SLAVES then io_err TooManySlaves
      else io_bind (scan_slave hw pos) (\<lambda>info.
        case vec_push EC_MAX_SLAVES found info of
          None \<Rightarrow> io_err TooManySlaves
        | Some found \<Rightarrow> scan_loop hw left (pos + 1) found))"

definition scan_bus :: "environment \<Rightarrow> device \<Rightarrow> (bus \<times> slave_info list res) option" where
  "scan_bus hw d =
     io_bind (count_slaves hw) (\<lambda>count.
     io_bind (clear_addresses hw) (\<lambda>_. scan_loop hw (unat count) 0 []))
       \<lparr>bus_dev = d, bus_index = 0, bus_count = 0\<rparr>"

section \<open>Transactions return\<close>

definition env_wf :: "environment \<Rightarrow> bool" where
  "env_wf hw \<longleftrightarrow> (\<forall>k j e. enet_wf e \<longrightarrow> enet_wf (hw k j e))"

lemma transact_loop_total:
  assumes hw: "\<And>j e. enet_wf e \<Longrightarrow> enet_wf (hw j e)" and d: "dev_wf d" and out: "4 \<le> length out"
  shows "\<exists>d' out' r. transact_loop hw n k expected d out = Some (d', out', r) \<and> dev_wf d' \<and>
    length out' = length out \<and> (\<forall>len. r = Inr len \<longrightarrow> 4 \<le> len \<and> len \<le> length out \<and> out' ! 3 = expected)"
  using d out
proof (induction n arbitrary: k d out)
  case 0
  then show ?case by simp
next
  case (Suc n)
  have "dev_wf (d\<lparr>dev_enet := hw k (dev_enet d)\<rparr>)" using Suc.prems(1) hw by (simp add: dev_wf_def)
  then obtain d' out' r where p: "dev_poll (d\<lparr>dev_enet := hw k (dev_enet d)\<rparr>) out = Some (d', out', r)"
      "dev_wf d'" "length out' = length out" "\<And>m. r = Some m \<Longrightarrow> 0 < m \<and> m \<le> length out'"
    using dev_poll_cases by metis
  have again: ?case if "transact_loop hw (Suc n) k expected d out = transact_loop hw n (k + 1) expected d' out'"
    using that Suc.IH [of d' out' "k + 1"] p Suc.prems(2) by simp
  show ?case
  proof (cases "\<exists>m. r = Some m \<and> 4 \<le> m \<and> out' ! 3 = expected")
    case True
    then show ?thesis using p Suc.prems(2) by (auto simp: idx_def)
  next
    case False
    then show ?thesis
      using p Suc.prems(2) by (intro again) (auto simp: idx_def split: option.split)
  qed
qed

lemma transact_cases:
  assumes "\<And>j e. enet_wf e \<Longrightarrow> enet_wf (hw j e)" "dev_wf d" "4 \<le> length out" "length frame + 14 \<le> ECAT_MTU"
  obtains d' out' r where "transact hw d frame out = Some (d', out', r)" "dev_wf d'"
    "length out' = length out" "\<And>len. r = Inr len \<Longrightarrow> 4 \<le> len \<and> len \<le> length out \<and> out' ! 3 = get_or 0 frame 3"
proof (rule dev_send_cases [OF assms(2,4)])
  assume "dev_send d frame = Some (d, Inl Transport)"
  then have "transact hw d frame out = Some (d, out, Inl Transport)" by (simp add: transact_def)
  then show thesis by (rule that) (use assms(2) in simp_all)
next
  fix d' assume d': "dev_wf d'" and s: "dev_send d frame = Some (d', Inr ())"
  obtain e out' r where "transact_loop hw TRANSACT_POLL_ATTEMPTS 0 (get_or 0 frame 3) d' out = Some (e, out', r)"
      "dev_wf e" "length out' = length out"
      "\<forall>len. r = Inr len \<longrightarrow> 4 \<le> len \<and> len \<le> length out \<and> out' ! 3 = get_or 0 frame 3"
    using transact_loop_total [of hw d' out TRANSACT_POLL_ATTEMPTS 0 "get_or 0 frame 3"] assms(1,3) d' by blast
  then show thesis using that [of e out' r] s by (simp add: transact_def)
qed

section \<open>Total correctness of the operations\<close>

definition io_ok :: "'a io \<Rightarrow> ('a \<Rightarrow> bool) \<Rightarrow> bool" where
  "io_ok m P \<longleftrightarrow> (\<forall>b. dev_wf (bus_dev b) \<longrightarrow>
     (\<exists>b' r. m b = Some (b', r) \<and> dev_wf (bus_dev b') \<and> (\<forall>v. r = Inr v \<longrightarrow> P v)))"

named_theorems io_rules \<open>total correctness of the blocking operations\<close>

lemma io_ret_ok [io_rules]: "P v \<Longrightarrow> io_ok (io_ret v) P"
  by (simp add: io_ok_def io_ret_def)

lemma io_err_ok [io_rules]: "io_ok (io_err e) P"
  by (simp add: io_ok_def io_err_def)

lemma io_bind_ok:
  assumes "io_ok m Q" "\<And>v. Q v \<Longrightarrow> io_ok (f v) P"
  shows "io_ok (io_bind m f) P"
  unfolding io_ok_def
proof (intro allI impI)
  fix b :: bus
  assume "dev_wf (bus_dev b)"
  then obtain b' r where m: "m b = Some (b', r)" "dev_wf (bus_dev b')" "\<forall>v. r = Inr v \<longrightarrow> Q v"
    using assms(1) unfolding io_ok_def by blast
  show "\<exists>b' r. io_bind m f b = Some (b', r) \<and> dev_wf (bus_dev b') \<and> (\<forall>v. r = Inr v \<longrightarrow> P v)"
  proof (cases r)
    case (Inl e)
    then show ?thesis using m by (simp add: io_bind_def)
  next
    case (Inr v)
    then show ?thesis using m assms(2) [of v] by (simp add: io_bind_def io_ok_def)
  qed
qed

lemma io_then: "io_ok m (\<lambda>_. True) \<Longrightarrow> (\<And>v. io_ok (f v) P) \<Longrightarrow> io_ok (io_bind m f) P"
  by (rule io_bind_ok)

lemma exchange_ok [io_rules]:
  assumes hw: "env_wf hw" and len: "length payload \<le> 100"
  shows "io_ok (exchange hw cmd adp ado payload) (\<lambda>_. True)"
  unfolding io_ok_def
proof (intro allI impI)
  fix b :: bus assume d: "dev_wf (bus_dev b)"
  define n where "n = max 46 (14 + length payload)"
  obtain tx where tx: "build (replicate EC_SCAN_FRAME_BUF 0) (bus_index b) cmd adp ado payload = Some (tx, n)"
      "length tx = 128"
    using build_frame [of payload "replicate EC_SCAN_FRAME_BUF 0" "bus_index b" cmd adp ado] len
    by (auto simp: n_def request_def)
  have n: "n \<le> 128" using len by (simp add: n_def)
  then have fr: "length (take n tx) + 14 \<le> ECAT_MTU" using tx by simp
  obtain d' rx r where t: "transact (hw (bus_count b)) (bus_dev b) (take n tx) (replicate EC_SCAN_FRAME_BUF 0) =
        Some (d', rx, r)" "dev_wf d'" "length rx = 128" "\<And>k. r = Inr k \<Longrightarrow> 4 \<le> k \<and> k \<le> 128"
    by (rule transact_cases [where hw = "hw (bus_count b)" and out = "replicate EC_SCAN_FRAME_BUF 0", OF _ d _ fr])
      (use hw in \<open>auto simp: env_wf_def\<close>)
  then show "\<exists>b' r. exchange hw cmd adp ado payload b = Some (b', r) \<and> dev_wf (bus_dev b') \<and>
      (\<forall>v. r = Inr v \<longrightarrow> True)"
    using tx n by (auto simp: exchange_def Let_def split: sum.split)
qed

lemma parsed_ok [io_rules]: "io_ok (parsed frame) (\<lambda>_. True)"
  using parse_total [of frame] by (auto simp: io_ok_def parsed_def split: option.split)

lemma ask_ok [io_rules]: "env_wf hw \<Longrightarrow> length payload \<le> 100 \<Longrightarrow> io_ok (ask hw cmd adp ado payload) (\<lambda>_. True)"
  unfolding ask_def by (rule io_then) (simp_all add: io_rules)

lemma ask_one_ok [io_rules]:
  "env_wf hw \<Longrightarrow> length payload \<le> 100 \<Longrightarrow> io_ok (ask_one hw cmd adp ado payload) (\<lambda>_. True)"
  unfolding ask_one_def by (rule io_then) (simp_all add: io_rules)

lemma sii_poll_loop_ok [io_rules]: "env_wf hw \<Longrightarrow> io_ok (sii_poll_loop hw station n) (\<lambda>_. True)"
proof (induction n)
  case 0
  then show ?case by (simp add: io_rules)
next
  case (Suc n)
  then have l: "io_ok (sii_poll_loop hw station n) (\<lambda>_. True)" by simp
  show ?case
    unfolding sii_poll_loop.simps
    by (rule io_bind_ok, rule ask_ok [OF Suc.prems])
      (use l in \<open>auto simp: io_ok_def idx_def\<close>)
qed

lemma sii_read_ok [io_rules]: "env_wf hw \<Longrightarrow> io_ok (sii_read_u32 hw station word) (\<lambda>_. True)"
  unfolding sii_read_u32_def by (rule io_then) (simp_all add: io_rules)

lemma scan_slave_ok:
  assumes "env_wf hw" "unat pos = n"
  shows "io_ok (scan_slave hw pos) (slave_at n)"
proof -
  have pos: "pos = of_nat n" using assms(2) by auto
  show ?thesis
    unfolding scan_slave_def Let_def
    by (intro io_then io_ret_ok ask_one_ok sii_read_ok assms(1)) (simp_all add: slave_at_def pos and.assoc)
qed

lemma scan_loop_ok:
  assumes "env_wf hw"
  shows "ring_order found \<Longrightarrow> length found = unat pos \<Longrightarrow> unat pos + n < 65536 \<Longrightarrow> length found \<le> 32 \<Longrightarrow>
    io_ok (scan_loop hw n pos found) (\<lambda>r. ring_order r \<and> length r = unat pos + n \<and> length r \<le> 32)"
proof (induction n arbitrary: pos found)
  case 0
  then show ?case by (simp add: io_ret_ok)
next
  case (Suc n)
  show ?case
  proof (cases "unat pos \<ge> 32")
    case True
    then show ?thesis by (simp add: io_err_ok)
  next
    case False
    have inc: "unat (pos + 1) = unat pos + 1"
      by (rule unat_inc [of _ "32 :: u16"]) (use False in \<open>simp add: word_less_nat_alt\<close>)
    show ?thesis
      unfolding scan_loop.simps EC_MAX_SLAVES_def
      using False Suc.prems Suc.IH [of "found @ [v]" "pos + 1" for v] inc ring_order_snoc [OF Suc.prems(1)]
      by (auto intro!: io_bind_ok [OF scan_slave_ok [OF assms refl]] simp: vec_push_def)
  qed
qed

text \<open>The scan of a whole bus returns, with an error or with every slave in ring order.\<close>

lemma scan_bus_returns:
  assumes "env_wf hw" "dev_wf d"
  shows "\<exists>b r. scan_bus hw d = Some (b, r) \<and> dev_wf (bus_dev b) \<and>
    (\<forall>slaves. r = Inr slaves \<longrightarrow> ring_order slaves \<and> length slaves \<le> 32)"
proof -
  let ?b = "\<lparr>bus_dev = d, bus_index = 0, bus_count = 0\<rparr>"
  have loop: "io_ok (scan_loop hw (unat count) 0 []) (\<lambda>r. ring_order r \<and> length r \<le> 32)" for count :: u16
  proof -
    have "io_ok (scan_loop hw (unat count) 0 []) (\<lambda>r. ring_order r \<and> length r = unat (0 :: u16) + unat count \<and> length r \<le> 32)"
      by (rule scan_loop_ok [OF assms(1)]) (use unat_u16 [of count] in \<open>simp_all add: ring_order_def\<close>)
    then show ?thesis unfolding io_ok_def by blast
  qed
  have c: "io_ok (count_slaves hw) (\<lambda>_. True)" "io_ok (clear_addresses hw) (\<lambda>_. True)"
    unfolding count_slaves_def clear_addresses_def using assms(1) by (simp_all add: io_then io_rules)
  have "io_ok (io_bind (count_slaves hw) (\<lambda>count. io_bind (clear_addresses hw) (\<lambda>_. scan_loop hw (unat count) 0 [])))
      (\<lambda>r. ring_order r \<and> length r \<le> 32)"
    by (rule io_bind_ok [OF c(1)], rule io_bind_ok [OF c(2)], rule loop)
  then show ?thesis using assms(2) unfolding io_ok_def scan_bus_def by fastforce
qed

end
