(* ===== verification/Cli.thy ===== *)
theory Cli
  imports Text Ecrt
begin

text \<open>
  The serial command line, \<^verbatim>\<open>src/src/ethercat/cli.rs\<close>: numbers with a base prefix, options, the
  commands, SDO values and their display. A line is a string of ASCII characters, which is what the
  line editor of \<^verbatim>\<open>src/src/main.rs\<close> lets through; tokens are separated by ASCII white space. The
  firmware is built with \<^verbatim>\<open>cargo build --release\<close>, so the negation of a signed number wraps.
\<close>

unbundle bit_operations_syntax

section \<open>Strings\<close>

definition is_ws :: "char \<Rightarrow> bool" where
  "is_ws c \<longleftrightarrow> (let n = of_char c :: nat in 9 \<le> n \<and> n \<le> 13 \<or> n = 32)"

definition trim :: "string \<Rightarrow> string" where
  "trim s = rev (dropWhile is_ws (rev (dropWhile is_ws s)))"

text \<open>\<^verbatim>\<open>split_whitespace\<close>; \<open>cur\<close> is the token being read.\<close>

fun split_ws :: "string \<Rightarrow> string \<Rightarrow> string list" where
  "split_ws cur [] = (if cur = [] then [] else [cur])"
| "split_ws cur (c # cs) =
     (if is_ws c then (if cur = [] then split_ws [] cs else cur # split_ws [] cs)
      else split_ws (cur @ [c]) cs)"

fun strip_prefix :: "string \<Rightarrow> string \<Rightarrow> string option" where
  "strip_prefix [] s = Some s"
| "strip_prefix (p # ps) [] = None"
| "strip_prefix (p # ps) (c # cs) = (if p = c then strip_prefix ps cs else None)"

definition lower :: "char \<Rightarrow> char" where
  "lower c = (let n = of_char c :: nat in if 65 \<le> n \<and> n \<le> 90 then char_of (n + 32) else c)"

definition eq_ignore_ascii_case :: "string \<Rightarrow> string \<Rightarrow> bool" where
  "eq_ignore_ascii_case a b \<longleftrightarrow> map lower a = map lower b"

text \<open>\<^verbatim>\<open>push_str\<close> on an empty \<^verbatim>\<open>heapless::String<cap>\<close>, its error ignored.\<close>

definition short_string :: "nat \<Rightarrow> string \<Rightarrow> string" where
  "short_string cap s = (if length s \<le> cap then s else [])"

definition quoted :: "string \<Rightarrow> string" where "quoted s = [CHR 0x27] @ s @ [CHR 0x27]"

section \<open>Numbers\<close>

definition char_digit :: "nat \<Rightarrow> char \<Rightarrow> nat option" where
  "char_digit radix c =
     (let n = of_char c :: nat;
          v = (if 48 \<le> n \<and> n \<le> 57 then n - 48
               else if 97 \<le> n \<and> n \<le> 122 then n - 87
               else if 65 \<le> n \<and> n \<le> 90 then n - 55 else radix)
      in if v < radix then Some v else None)"

text \<open>The accumulator is checked after every digit, as \<^verbatim>\<open>checked_mul\<close> and \<^verbatim>\<open>checked_add\<close> do.\<close>

fun radix_digits :: "nat \<Rightarrow> int \<Rightarrow> string \<Rightarrow> int option" where
  "radix_digits radix acc [] = Some acc"
| "radix_digits radix acc (c # cs) =
     (case char_digit radix c of
        None \<Rightarrow> None
      | Some v \<Rightarrow>
          (let next = acc * int radix + int v
           in if next < 0x10000000000000000 then radix_digits radix next cs else None))"

text \<open>\<^verbatim>\<open>u64::from_str_radix\<close>, which takes an optional plus sign.\<close>

definition from_str_radix :: "nat \<Rightarrow> string \<Rightarrow> u64 option" where
  "from_str_radix radix s =
     (let ds = (case s of c # cs \<Rightarrow> if c = CHR ''+'' \<and> cs \<noteq> [] then cs else s | [] \<Rightarrow> [])
      in if ds = [] then None else map_option of_int (radix_digits radix 0 ds))"

definition parse_uint :: "string \<Rightarrow> u64 option" where
  "parse_uint t =
     (let s = trim t
      in case (case strip_prefix ''0x'' s of Some h \<Rightarrow> Some h | None \<Rightarrow> strip_prefix ''0X'' s) of
           Some h \<Rightarrow> from_str_radix 16 h
         | None \<Rightarrow>
             (case (case strip_prefix ''0b'' s of Some b \<Rightarrow> Some b | None \<Rightarrow> strip_prefix ''0B'' s) of
                Some b \<Rightarrow> from_str_radix 2 b
              | None \<Rightarrow> from_str_radix 10 s))"

text \<open>\<^verbatim>\<open>i64\<close> as its bits.\<close>

definition parse_int :: "string \<Rightarrow> u64 option" where
  "parse_int t =
     (let s = trim t
      in case strip_prefix ''-'' s of
           Some rest \<Rightarrow> map_option (\<lambda>v. - v) (parse_uint rest)
         | None \<Rightarrow> parse_uint s)"

section \<open>Commands\<close>

record sdo_type =
  ty_name :: string
  ty_code :: u16
  ty_size :: u8

definition TYPES :: "sdo_type list" where
  "TYPES =
     [\<lparr>ty_name = ''bool'', ty_code = 0x0001, ty_size = 1\<rparr>,
      \<lparr>ty_name = ''int8'', ty_code = 0x0002, ty_size = 1\<rparr>,
      \<lparr>ty_name = ''int16'', ty_code = 0x0003, ty_size = 2\<rparr>,
      \<lparr>ty_name = ''int32'', ty_code = 0x0004, ty_size = 4\<rparr>,
      \<lparr>ty_name = ''uint8'', ty_code = 0x0005, ty_size = 1\<rparr>,
      \<lparr>ty_name = ''uint16'', ty_code = 0x0006, ty_size = 2\<rparr>,
      \<lparr>ty_name = ''uint32'', ty_code = 0x0007, ty_size = 4\<rparr>]"

definition find_type :: "string \<Rightarrow> sdo_type option" where
  "find_type name = find (\<lambda>t. ty_name t = name) TYPES"

definition RATE_MIN_HZ :: u32 where "RATE_MIN_HZ = 50"
definition RATE_MAX_HZ :: u32 where "RATE_MAX_HZ = 8000"

datatype monitor_mode = MonOn | MonOff | MonToggle

datatype cmd =
    CmdEmpty | CmdHelp | CmdSlaves | CmdStatus | CmdRescan
  | CmdStates u16 u8
  | CmdUpload u16 u16 u8 "sdo_type option"
  | CmdDownload u16 u16 u8 sdo_type bytes u8
  | CmdStart u16 "u32 option"
  | CmdStop | CmdStats
  | CmdMonitor monitor_mode
  | CmdPdos
  | CmdPd "string option" "u64 option"
  | CmdHost | CmdCrashlog | CmdCrashclear
  | CmdError string

definition cmd_err :: "string \<Rightarrow> cmd" where "cmd_err msg = CmdError (short_string 96 msg)"

record opts =
  op_position :: "u16 option"
  op_ty :: "string option"
  op_rate :: "u32 option"
  op_args :: "string list"

definition no_opts :: opts where
  "no_opts = \<lparr>op_position = None, op_ty = None, op_rate = None, op_args = []\<rparr>"

definition set_position :: "opts \<Rightarrow> string \<Rightarrow> cmd + opts" where
  "set_position o' v =
     (case parse_uint v of
        None \<Rightarrow> Inl (cmd_err ''invalid position'')
      | Some n \<Rightarrow> Inr (o'\<lparr>op_position := Some (ucast n)\<rparr>))"

definition set_rate :: "opts \<Rightarrow> string \<Rightarrow> cmd + opts" where
  "set_rate o' v =
     (case parse_uint v of
        None \<Rightarrow> Inl (cmd_err ''invalid rate'')
      | Some n \<Rightarrow> Inr (o'\<lparr>op_rate := Some (ucast n)\<rparr>))"

text \<open>An option given with its value attached, or a positional argument; one loop body.\<close>

definition parse_attached :: "opts \<Rightarrow> string \<Rightarrow> cmd + opts" where
  "parse_attached o' t =
     (case strip_prefix ''-p'' t of
        Some rest \<Rightarrow> set_position o' rest
      | None \<Rightarrow>
     (case strip_prefix ''-r'' t of
        Some rest \<Rightarrow> set_rate o' rest
      | None \<Rightarrow>
     (case strip_prefix ''--type='' t of
        Some rest \<Rightarrow> Inr (o'\<lparr>op_ty := Some rest\<rparr>)
      | None \<Rightarrow>
     (case strip_prefix ''-t'' t of
        Some rest \<Rightarrow> Inr (o'\<lparr>op_ty := Some rest\<rparr>)
      | None \<Rightarrow>
          if strip_prefix ''-'' t \<noteq> None then Inl (cmd_err ''unknown option'')
          else (case vec_push 8 (op_args o') t of
                  None \<Rightarrow> Inl (cmd_err ''too many arguments'')
                | Some args \<Rightarrow> Inr (o'\<lparr>op_args := args\<rparr>))))))"

fun parse_opts_loop :: "opts \<Rightarrow> string list \<Rightarrow> cmd + opts" where
  "parse_opts_loop o' [] = Inr o'"
| "parse_opts_loop o' (t # ts) =
     (if t = ''-p'' \<or> t = ''--position'' then
        (case ts of
           [] \<Rightarrow> Inl (cmd_err ''missing value for -p'')
         | v # ts \<Rightarrow> (case set_position o' v of Inl e \<Rightarrow> Inl e | Inr o' \<Rightarrow> parse_opts_loop o' ts))
      else if t = ''-r'' \<or> t = ''--rate'' then
        (case ts of
           [] \<Rightarrow> Inl (cmd_err ''missing value for -r'')
         | v # ts \<Rightarrow> (case set_rate o' v of Inl e \<Rightarrow> Inl e | Inr o' \<Rightarrow> parse_opts_loop o' ts))
      else if t = ''-t'' \<or> t = ''--type'' then
        (case ts of
           [] \<Rightarrow> Inl (cmd_err ''missing value for -t'')
         | v # ts \<Rightarrow> parse_opts_loop (o'\<lparr>op_ty := Some v\<rparr>) ts)
      else (case parse_attached o' t of Inl e \<Rightarrow> Inl e | Inr o' \<Rightarrow> parse_opts_loop o' ts))"

text \<open>The order of the tests in the source is \<^verbatim>\<open>-p\<close>, \<^verbatim>\<open>-p..\<close>, \<^verbatim>\<open>-r\<close>, \<^verbatim>\<open>-r..\<close>, \<^verbatim>\<open>-t\<close>, \<^verbatim>\<open>-t..\<close>; no token fits
  two of them, so the separate and the attached forms may be tested in turn.\<close>

definition parse_opts :: "string list \<Rightarrow> cmd + opts" where
  "parse_opts toks = parse_opts_loop no_opts toks"

definition parse_start :: "string list \<Rightarrow> cmd" where
  "parse_start toks =
     (case parse_opts toks of
        Inl e \<Rightarrow> e
      | Inr o' \<Rightarrow>
          (let start = CmdStart (case op_position o' of None \<Rightarrow> 0 | Some p \<Rightarrow> p) (op_rate o')
           in case op_rate o' of
                Some hz \<Rightarrow>
                  if \<not> (RATE_MIN_HZ \<le> hz \<and> hz \<le> RATE_MAX_HZ) then cmd_err ''rate out of range (50..8000 Hz)''
                  else start
              | None \<Rightarrow> start))"

definition parse_monitor :: "string list \<Rightarrow> cmd" where
  "parse_monitor toks =
     (case toks of
        [] \<Rightarrow> CmdMonitor MonToggle
      | t # _ \<Rightarrow>
          if eq_ignore_ascii_case t ''on'' then CmdMonitor MonOn
          else if eq_ignore_ascii_case t ''off'' then CmdMonitor MonOff
          else cmd_err ''usage: monitor [on|off]'')"

definition cli_pin_name :: "string \<Rightarrow> string" where "cli_pin_name s = short_string 48 s"

definition parse_pd :: "string list \<Rightarrow> cmd" where
  "parse_pd toks =
     (case toks of
        [] \<Rightarrow> CmdPd None None
      | [p] \<Rightarrow> CmdPd (Some (cli_pin_name p)) None
      | [p, v] \<Rightarrow>
          (case parse_int v of
             Some v \<Rightarrow> CmdPd (Some (cli_pin_name p)) (Some v)
           | None \<Rightarrow> cmd_err ''invalid value'')
      | _ \<Rightarrow> cmd_err ''usage: pd [<pin> [<value>]]'')"

definition al_state_from_name :: "string \<Rightarrow> u8 option" where
  "al_state_from_name name =
     (if eq_ignore_ascii_case name ''init'' then Some al_INIT
      else if eq_ignore_ascii_case name ''preop'' then Some al_PREOP
      else if eq_ignore_ascii_case name ''safeop'' then Some al_SAFEOP
      else if eq_ignore_ascii_case name ''op'' then Some al_OP
      else None)"

definition parse_states :: "string list \<Rightarrow> cmd" where
  "parse_states toks =
     (case parse_opts toks of
        Inl e \<Rightarrow> e
      | Inr o' \<Rightarrow>
          (case op_position o' of
             None \<Rightarrow> cmd_err ''states requires -p<pos>''
           | Some slave \<Rightarrow>
               (case op_args o' of
                  [name] \<Rightarrow>
                    (case al_state_from_name name of
                       None \<Rightarrow> cmd_err ''unknown state (INIT|PREOP|SAFEOP|OP)''
                     | Some target \<Rightarrow> CmdStates slave target)
                | _ \<Rightarrow> cmd_err ''usage: states -p<pos> <INIT|PREOP|SAFEOP|OP>'')))"

definition encode_value :: "sdo_type \<Rightarrow> string \<Rightarrow> (bytes \<times> u8) option" where
  "encode_value ty s =
     (case parse_int s of
        None \<Rightarrow> None
      | Some raw \<Rightarrow>
          Some (map (\<lambda>i. if i < unat (ty_size ty) then ucast (drop_bit (8 * i) raw) else 0) [0..<4], ty_size ty))"

text \<open>The arguments of an SDO command, after the options.\<close>

definition sdo_index_arg :: "string \<Rightarrow> u16 option" where
  "sdo_index_arg s =
     (case parse_uint s of Some v \<Rightarrow> if v \<le> 0xFFFF then Some (ucast v) else None | None \<Rightarrow> None)"

definition sdo_subindex_arg :: "string \<Rightarrow> u8 option" where
  "sdo_subindex_arg s =
     (case parse_uint s of Some v \<Rightarrow> if v \<le> 0xFF then Some (ucast v) else None | None \<Rightarrow> None)"

definition parse_sdo_command :: "sdo_type option \<Rightarrow> u16 \<Rightarrow> u16 \<Rightarrow> u8 \<Rightarrow> string list \<Rightarrow> bool \<Rightarrow> cmd" where
  "parse_sdo_command ty slave ix sub args download =
     (if download then
        (case ty of
           None \<Rightarrow> cmd_err ''download requires -t<type>''
         | Some t \<Rightarrow>
             (case encode_value t (args ! 2) of
                Some (dat, len) \<Rightarrow> CmdDownload slave ix sub t dat len
              | None \<Rightarrow> cmd_err ''invalid value for type''))
      else CmdUpload slave ix sub ty)"

definition parse_sdo :: "string list \<Rightarrow> bool \<Rightarrow> cmd" where
  "parse_sdo toks download =
     (case parse_opts toks of
        Inl e \<Rightarrow> e
      | Inr o' \<Rightarrow>
          (case op_position o' of
             None \<Rightarrow> cmd_err ''requires -p<pos>''
           | Some slave \<Rightarrow>
               if length (op_args o') \<noteq> (if download then 3 else 2)
               then cmd_err (if download then ''usage: download -p<pos> -t<type> <idx> <sub> <value>''
                             else ''usage: upload -p<pos> [-t<type>] <idx> <sub>'')
               else
                 (case sdo_index_arg (op_args o' ! 0) of
                    None \<Rightarrow> cmd_err ''invalid index''
                  | Some ix \<Rightarrow>
                      (case sdo_subindex_arg (op_args o' ! 1) of
                         None \<Rightarrow> cmd_err ''invalid subindex''
                       | Some sub \<Rightarrow>
                           (case op_ty o' of
                              None \<Rightarrow> parse_sdo_command None slave ix sub (op_args o') download
                            | Some name \<Rightarrow>
                                (case find_type name of
                                   None \<Rightarrow> cmd_err (''unknown type; see '' @ quoted ''help'')
                                 | Some t \<Rightarrow> parse_sdo_command (Some t) slave ix sub (op_args o') download))))))"

definition cmd_parse :: "string \<Rightarrow> cmd option" where
  "cmd_parse text =
     (let line = trim text
      in if line = [] then Some CmdEmpty
         else
           let toks = split_ws [] line
           in if length toks > 16 then Some (cmd_err ''too many arguments'')
              else do {
                t \<leftarrow> idx toks 0;
                let args = tl toks;
                Some (if t \<in> {''help'', ''?''} then CmdHelp
                      else if t = ''slaves'' then CmdSlaves
                      else if t \<in> {''status'', ''info''} then CmdStatus
                      else if t = ''rescan'' then CmdRescan
                      else if t \<in> {''states'', ''state''} then parse_states args
                      else if t \<in> {''upload'', ''up''} then parse_sdo args False
                      else if t \<in> {''download'', ''down''} then parse_sdo args True
                      else if t = ''start'' then parse_start args
                      else if t = ''stop'' then CmdStop
                      else if t = ''stats'' then CmdStats
                      else if t \<in> {''monitor'', ''mon''} then parse_monitor args
                      else if t = ''pdos'' then CmdPdos
                      else if t = ''pd'' then parse_pd args
                      else if t = ''host'' then CmdHost
                      else if t = ''crashlog'' then CmdCrashlog
                      else if t = ''crashclear'' then CmdCrashclear
                      else cmd_err (''unknown command; type '' @ quoted ''help'')) })"

section \<open>Showing a value\<close>

fun lhex :: "nat \<Rightarrow> string" where
  "lhex n = (if n < 16 then [''0123456789abcdef'' ! n] else lhex (n div 16) @ [''0123456789abcdef'' ! (n mod 16)])"

declare lhex.simps [simp del]

text \<open>\<^verbatim>\<open>{:0kx}\<close>, and \<^verbatim>\<open>{}\<close> of an \<^verbatim>\<open>i32\<close>.\<close>

definition put_lhex :: "nat \<Rightarrow> nat \<Rightarrow> string list" where
  "put_lhex k n = replicate (k - length (lhex n)) ''0'' @ [lhex n]"

definition put_int :: "u32 \<Rightarrow> string list" where
  "put_int v = (if sint v < 0 then [''-'', dec (nat (- sint v))] else [dec (nat (sint v))])"

definition cli_sign_extend :: "u32 \<Rightarrow> u8 \<Rightarrow> u32" where
  "cli_sign_extend raw sz =
     (if sz = 1 then scast (ucast raw :: u8) else if sz = 2 then scast (ucast raw :: u16) else raw)"

definition le_value :: "bytes \<Rightarrow> u32" where
  "le_value bs = foldl (\<lambda>raw (i, b). raw OR push_bit (8 * i) (ucast b)) 0 (enumerate 0 bs)"

definition format_value :: "sdo_type option \<Rightarrow> bytes \<Rightarrow> string" where
  "format_value ty dat =
     (case ty of
        None \<Rightarrow>
          foldl (\<lambda>s (i, b).
              let s = (if i > 0 then fst (write_pieces 80 s ['' '']) else s)
              in fst (write_pieces 80 s (''0x'' # put_lhex 2 (unat b)))) [] (enumerate 0 dat)
      | Some t \<Rightarrow>
          (let raw = le_value (take (min (unat (ty_size t)) (length dat)) dat);
               hexw = unat (ty_size t) * 2
           in fst (write_pieces 80 []
                (''0x'' # put_lhex hexw (unat raw) @ '' '' #
                 (if ty_code t \<in> {0x0002, 0x0003, 0x0004} then put_int (cli_sign_extend raw (ty_size t))
                  else put_dec (unat raw))))))"

section \<open>Every line is answered\<close>

lemma split_ws_cur: "cur \<noteq> [] \<Longrightarrow> split_ws cur s \<noteq> []"
  by (induction s arbitrary: cur) simp_all

lemma split_ws_empty: "split_ws [] s = [] \<longleftrightarrow> (\<forall>c\<in>set s. is_ws c)"
  by (induction s) (auto simp: split_ws_cur)

lemma trim_empty: "trim s = [] \<longleftrightarrow> (\<forall>c\<in>set s. is_ws c)"
proof -
  have "trim s = [] \<longleftrightarrow> dropWhile is_ws (rev (dropWhile is_ws s)) = []" by (simp add: trim_def)
  also have "\<dots> \<longleftrightarrow> (\<forall>c\<in>set (dropWhile is_ws s). is_ws c)" by (simp add: dropWhile_eq_Nil_conv)
  also have "\<dots> \<longleftrightarrow> dropWhile is_ws s = []"
    using hd_dropWhile [of is_ws s] by (metis dropWhile_eq_Nil_conv empty_iff hd_in_set list.set(1))
  finally show ?thesis by (simp add: dropWhile_eq_Nil_conv)
qed

lemma trim_last: "trim s \<noteq> [] \<Longrightarrow> \<not> is_ws (last (trim s))"
  using hd_dropWhile [of is_ws "rev (dropWhile is_ws s)"] by (simp add: trim_def last_rev)

lemma cmd_parse_total: "cmd_parse s \<noteq> None"
proof (cases "trim s = []")
  case False
  then have "\<not> is_ws (last (trim s))" "last (trim s) \<in> set (trim s)" using trim_last by simp_all
  then have "split_ws [] (trim s) \<noteq> []" using split_ws_empty by blast
  then have "idx (split_ws [] (trim s)) 0 = Some (hd (split_ws [] (trim s)))"
    by (simp add: idx_def hd_conv_nth)
  then show ?thesis by (simp add: cmd_parse_def Let_def)
qed (simp add: cmd_parse_def)

section \<open>Numbers read back\<close>

definition plain :: "string \<Rightarrow> bool" where
  "plain s \<longleftrightarrow> s \<noteq> [] \<and> (\<forall>c\<in>set s. \<not> is_ws c)"

lemma trim_plain: "(\<forall>c\<in>set s. \<not> is_ws c) \<Longrightarrow> trim s = s"
proof -
  assume a: "\<forall>c\<in>set s. \<not> is_ws c"
  have d: "dropWhile is_ws xs = xs" if "\<forall>c\<in>set xs. \<not> is_ws c" for xs using that by (cases xs) auto
  show ?thesis using d [OF a] d [of "rev s"] a by (simp add: trim_def)
qed

lemma radix_digits_append:
  "radix_digits r acc (xs @ ys) = (case radix_digits r acc xs of None \<Rightarrow> None | Some v \<Rightarrow> radix_digits r v ys)"
  by (induction xs arbitrary: acc) (simp_all add: Let_def split: option.split)

lemma char_digit_digit: "n < 10 \<Longrightarrow> char_digit 10 (digit n) = Some n"
proof -
  assume "n < 10"
  then have "n \<in> {0, 1, 2, 3, 4, 5, 6, 7, 8, 9}" by auto
  then show ?thesis by (auto simp: digit_def char_digit_def)
qed

lemma char_digit_lhex: "n < 16 \<Longrightarrow> char_digit 16 (''0123456789abcdef'' ! n) = Some n"
proof -
  assume "n < 16"
  then have "n \<in> {0, 1, 2, 3, 4, 5, 6, 7, 8, 9, 10, 11, 12, 13, 14, 15}"
    unfolding insert_iff empty_iff by presburger
  then show ?thesis by (auto simp: char_digit_def)
qed

lemma radix_digits_dec: "n < 2 ^ 64 \<Longrightarrow> radix_digits 10 0 (dec n) = Some (int n)"
proof (induction n rule: dec.induct)
  case (1 n)
  show ?case
  proof (cases "n < 10")
    case False
    then have "radix_digits 10 0 (dec (n div 10)) = Some (int (n div 10))" using 1 by simp
    moreover have "int (n div 10) * 10 + int (n mod 10) = int n"
      by (metis div_mult_mod_eq of_nat_add of_nat_mult of_nat_numeral)
    ultimately show ?thesis
      using False 1(2) by (subst dec.simps) (simp add: radix_digits_append char_digit_digit Let_def)
  qed (use 1(2) in \<open>simp add: dec.simps [of n] char_digit_digit Let_def\<close>)
qed

lemma radix_digits_lhex: "n < 2 ^ 64 \<Longrightarrow> radix_digits 16 0 (lhex n) = Some (int n)"
proof (induction n rule: lhex.induct)
  case (1 n)
  show ?case
  proof (cases "n < 16")
    case False
    then have "radix_digits 16 0 (lhex (n div 16)) = Some (int (n div 16))" using 1 by simp
    moreover have "int (n div 16) * 16 + int (n mod 16) = int n"
      by (metis div_mult_mod_eq of_nat_add of_nat_mult of_nat_numeral)
    ultimately show ?thesis
      using False 1(2) by (subst lhex.simps) (simp add: radix_digits_append char_digit_lhex Let_def)
  qed (use 1(2) in \<open>simp add: lhex.simps [of n] char_digit_lhex Let_def\<close>)
qed

text \<open>The characters of a number: no white space, no sign, no base letter.\<close>

definition dec_char :: "char \<Rightarrow> bool" where
  "dec_char c \<longleftrightarrow> (let n = of_char c :: nat in 48 \<le> n \<and> n \<le> 57)"

lemma dec_char_digit: "n < 10 \<Longrightarrow> dec_char (digit n)"
proof -
  assume "n < 10"
  then have "n \<in> {0, 1, 2, 3, 4, 5, 6, 7, 8, 9}" by auto
  then show ?thesis by (auto simp: digit_def dec_char_def)
qed

lemma dec_chars: "\<forall>c\<in>set (dec n). dec_char c"
proof (induction n rule: dec.induct)
  case (1 n)
  then show ?case by (cases "n < 10") (simp_all add: dec.simps [of n] dec_char_digit)
qed

lemma dec_char_props: "dec_char c \<Longrightarrow> \<not> is_ws c \<and> c \<noteq> CHR ''x'' \<and> c \<noteq> CHR ''X'' \<and> c \<noteq> CHR ''b'' \<and>
    c \<noteq> CHR ''B'' \<and> c \<noteq> CHR ''+'' \<and> c \<noteq> CHR ''-''"
  by (auto simp: dec_char_def is_ws_def Let_def)

lemma lhex_char: "n < 16 \<Longrightarrow> \<not> is_ws (''0123456789abcdef'' ! n) \<and> ''0123456789abcdef'' ! n \<noteq> CHR ''+''"
proof -
  assume "n < 16"
  then have "n \<in> {0, 1, 2, 3, 4, 5, 6, 7, 8, 9, 10, 11, 12, 13, 14, 15}"
    unfolding insert_iff empty_iff by presburger
  then show ?thesis by (auto simp: is_ws_def)
qed

lemma lhex_chars: "\<forall>c\<in>set (lhex n). \<not> is_ws c \<and> c \<noteq> CHR ''+''"
proof (induction n rule: lhex.induct)
  case (1 n)
  then show ?case using lhex_char [of n] lhex_char [of "n mod 16"] by (cases "n < 16") (auto simp: lhex.simps [of n])
qed

lemma lhex_not_empty: "lhex n \<noteq> []"
  by (subst lhex.simps) simp

lemma no_prefix:
  "(\<forall>c\<in>set s. dec_char c) \<Longrightarrow>
     strip_prefix ''0x'' s = None \<and> strip_prefix ''0X'' s = None \<and> strip_prefix ''0b'' s = None \<and>
     strip_prefix ''0B'' s = None \<and> strip_prefix ''-'' s = None"
proof -
  assume a: "\<forall>c\<in>set s. dec_char c"
  consider "s = []" | c where "s = [c]" | c d t where "s = c # d # t" by (cases s; cases "tl s") auto
  then show ?thesis using a dec_char_props by cases auto
qed

lemma from_str_plain:
  "s \<noteq> [] \<Longrightarrow> hd s \<noteq> CHR ''+'' \<Longrightarrow> from_str_radix r s = map_option of_int (radix_digits r 0 s)"
  by (cases s) (simp_all add: from_str_radix_def)

lemma parse_uint_dec: "n < 2 ^ 64 \<Longrightarrow> parse_uint (dec n) = Some (of_nat n)"
proof -
  assume n: "n < 2 ^ 64"
  have t: "trim (dec n) = dec n" by (rule trim_plain) (use dec_chars dec_char_props in blast)
  have "dec_char (hd (dec n))" using dec_chars [of n] dec_not_empty [of n] by (metis hd_in_set)
  then have "hd (dec n) \<noteq> CHR ''+''" using dec_char_props by blast
  then show ?thesis
    using t no_prefix [OF dec_chars, of n] from_str_plain [OF dec_not_empty] radix_digits_dec [OF n]
    by (simp add: parse_uint_def)
qed

lemma parse_uint_hex: "n < 2 ^ 64 \<Longrightarrow> parse_uint (''0x'' @ lhex n) = Some (of_nat n)"
proof -
  assume n: "n < 2 ^ 64"
  have t: "trim (''0x'' @ lhex n) = ''0x'' @ lhex n"
    by (rule trim_plain) (use lhex_chars in \<open>auto simp: is_ws_def\<close>)
  have "hd (lhex n) \<noteq> CHR ''+''" using lhex_chars [of n] lhex_not_empty [of n] by (metis hd_in_set)
  then show ?thesis
    using t from_str_plain [OF lhex_not_empty] radix_digits_lhex [OF n] by (simp add: parse_uint_def)
qed

lemma parse_int_dec: "n < 2 ^ 64 \<Longrightarrow> parse_int (dec n) = Some (of_nat n)"
proof -
  assume n: "n < 2 ^ 64"
  have t: "trim (dec n) = dec n" by (rule trim_plain) (use dec_chars dec_char_props in blast)
  then show ?thesis using no_prefix [OF dec_chars, of n] parse_uint_dec [OF n] by (simp add: parse_int_def)
qed

lemma parse_int_neg: "n < 2 ^ 64 \<Longrightarrow> parse_int (''-'' @ dec n) = Some (- of_nat n)"
proof -
  assume n: "n < 2 ^ 64"
  have "\<forall>c\<in>set (''-'' @ dec n). \<not> is_ws c" using dec_chars dec_char_props by (auto simp: is_ws_def)
  then have "trim (''-'' @ dec n) = ''-'' @ dec n" by (rule trim_plain)
  then show ?thesis using parse_uint_dec [OF n] by (simp add: parse_int_def)
qed

section \<open>Tokens read back\<close>

fun unwords :: "string list \<Rightarrow> string" where
  "unwords [] = []"
| "unwords [w] = w"
| "unwords (w # ws) = w @ '' '' @ unwords ws"

lemma split_ws_word: "(\<forall>c\<in>set w. \<not> is_ws c) \<Longrightarrow> split_ws cur (w @ s) = split_ws (cur @ w) s"
  by (induction w arbitrary: cur) simp_all

lemma space_ws: "is_ws CHR '' ''"
  by (simp add: is_ws_def)

lemma split_unwords: "\<forall>w\<in>set ws. plain w \<Longrightarrow> split_ws [] (unwords ws) = ws"
proof (induction ws rule: unwords.induct)
  case (2 w)
  then show ?case using split_ws_word [of w "[]" "[]"] by (simp add: plain_def)
next
  case (3 w v vs)
  then have "split_ws [] (w @ '' '' @ unwords (v # vs)) = split_ws w ('' '' @ unwords (v # vs))"
    using split_ws_word [of w "[]"] by (simp add: plain_def)
  then show ?case using 3 space_ws by (simp add: plain_def)
qed simp

lemma unwords_ends:
  assumes "ws \<noteq> []" "\<forall>w\<in>set ws. plain w"
  shows "unwords ws \<noteq> [] \<and> \<not> is_ws (hd (unwords ws)) \<and> \<not> is_ws (last (unwords ws))"
  using assms
proof (induction ws rule: unwords.induct)
  case (3 w v vs)
  then show ?case by (cases w) (auto simp: plain_def)
qed (auto simp: plain_def)

lemma trim_ends:
  assumes "s \<noteq> []" "\<not> is_ws (hd s)" "\<not> is_ws (last s)"
  shows "trim s = s"
proof -
  have d: "dropWhile is_ws xs = xs" if "xs \<noteq> []" "\<not> is_ws (hd xs)" for xs using that by (cases xs) auto
  then show ?thesis using assms d [of s] d [of "rev s"] by (simp add: trim_def hd_rev)
qed

lemma cmd_parse_words:
  assumes "ws \<noteq> []" "\<forall>w\<in>set ws. plain w" "length ws \<le> 16"
  shows "trim (unwords ws) = unwords ws" "unwords ws \<noteq> []" "split_ws [] (unwords ws) = ws"
  using trim_ends unwords_ends [OF assms(1,2)] split_unwords [OF assms(2)] by blast+

section \<open>Commands read back\<close>

text \<open>A command as the operator types it, with the numbers the shell accepts for it.\<close>

definition type_args :: "sdo_type option \<Rightarrow> string list" where
  "type_args ty = (case ty of None \<Rightarrow> [] | Some t \<Rightarrow> [''-t'' @ ty_name t])"

definition hex_arg :: "nat \<Rightarrow> string" where "hex_arg n = ''0x'' @ lhex n"

definition al_names :: "(u8 \<times> string) list" where
  "al_names = [(al_INIT, ''INIT''), (al_PREOP, ''PREOP''), (al_SAFEOP, ''SAFEOP''), (al_OP, ''OP'')]"

definition value_of :: "bytes \<Rightarrow> u64" where
  "value_of dat = foldr (\<lambda>b acc. ucast b OR push_bit 8 acc) dat 0"

fun cmd_words :: "cmd \<Rightarrow> string list" where
  "cmd_words (CmdStates slave target) =
     [''states'', ''-p'' @ dec (unat slave), the (map_of al_names target)]"
| "cmd_words (CmdUpload slave ix sub ty) =
     [''upload'', ''-p'' @ dec (unat slave)] @ type_args ty @ [hex_arg (unat ix), dec (unat sub)]"
| "cmd_words (CmdDownload slave ix sub t dat len) =
     [''download'', ''-p'' @ dec (unat slave), ''-t'' @ ty_name t, hex_arg (unat ix), dec (unat sub),
      dec (unat (value_of (take (unat len) dat)))]"
| "cmd_words (CmdStart slave rate) =
     [''start'', ''-p'' @ dec (unat slave)] @ (case rate of None \<Rightarrow> [] | Some hz \<Rightarrow> [''-r'' @ dec (unat hz)])"
| "cmd_words (CmdPd (Some p) None) = [''pd'', p]"
| "cmd_words (CmdPd (Some p) (Some v)) = [''pd'', p, dec (unat v)]"
| "cmd_words CmdRescan = [''rescan'']"
| "cmd_words CmdStop = [''stop'']"
| "cmd_words _ = []"

fun cmd_ok :: "cmd \<Rightarrow> bool" where
  "cmd_ok (CmdStates slave target) = (target \<in> fst ` set al_names)"
| "cmd_ok (CmdUpload slave ix sub ty) = (case ty of None \<Rightarrow> True | Some t \<Rightarrow> t \<in> set TYPES)"
| "cmd_ok (CmdDownload slave ix sub t dat len) =
     (t \<in> set TYPES \<and> len = ty_size t \<and> length dat = 4 \<and> drop (unat len) dat = replicate (4 - unat len) 0)"
| "cmd_ok (CmdStart slave rate) = (case rate of None \<Rightarrow> True | Some hz \<Rightarrow> RATE_MIN_HZ \<le> hz \<and> hz \<le> RATE_MAX_HZ)"
| "cmd_ok (CmdPd (Some p) _) = (plain p \<and> length p \<le> 48)"
| "cmd_ok CmdRescan = True"
| "cmd_ok CmdStop = True"
| "cmd_ok _ = False"

lemma plain_dec: "plain (dec n)"
  using dec_chars [of n] dec_not_empty [of n] dec_char_props by (auto simp: plain_def)

lemma plain_hex: "plain (hex_arg n)"
  using lhex_chars [of n] by (auto simp: plain_def hex_arg_def is_ws_def)

lemma plain_append: "(\<forall>c\<in>set p. \<not> is_ws c) \<Longrightarrow> plain s \<Longrightarrow> plain (p @ s)"
  by (auto simp: plain_def)

lemma plain_word: "s \<noteq> [] \<Longrightarrow> list_all (\<lambda>c. \<not> is_ws c) s \<Longrightarrow> plain s"
  by (simp add: plain_def list_all_iff)

lemma TYPES_names: "t \<in> set TYPES \<Longrightarrow> plain (ty_name t) \<and> find_type (ty_name t) = Some t \<and> unat (ty_size t) \<le> 4"
proof -
  have "list_all (\<lambda>t. plain (ty_name t) \<and> find_type (ty_name t) = Some t \<and> unat (ty_size t) \<le> 4) TYPES"
    by code_simp
  then show "t \<in> set TYPES \<Longrightarrow> ?thesis" by (auto simp: list_all_iff)
qed

lemma through_u64:
  "ucast (ucast (w :: u16) :: u64) = w" "ucast (ucast (v :: u32) :: u64) = v" "ucast (ucast (b :: u8) :: u64) = b"
  by (transfer; simp)+

lemma unat_u64:
  "unat (ucast (w :: u16) :: u64) = unat w" "unat (ucast (v :: u32) :: u64) = unat v" "unat (ucast (b :: u8) :: u64) = unat b"
  using unat_u16 [of w] unat_u32 [of v] unat_u8 [of b] by (simp_all add: unsigned_ucast_eq take_bit_nat_eq_self)

text \<open>One step of the option loop on each kind of word.\<close>

lemma dec_head:
  obtains c t where "dec n = c # t" "dec_char c"
  using dec_chars [of n] dec_not_empty [of n] by (cases "dec n") auto

lemma opts_position:
  "parse_opts_loop o' ((''-p'' @ dec (unat (w :: u16))) # ts) = parse_opts_loop (o'\<lparr>op_position := Some w\<rparr>) ts"
proof -
  obtain c t where ct: "dec (unat w) = c # t" "dec_char c" by (rule dec_head)
  have "unat w < 2 ^ 64" using unat_u16 [of w] by simp
  then have "parse_uint (c # t) = Some (of_nat (unat w))" using parse_uint_dec [of "unat w"] ct(1) by simp
  then show ?thesis
    using ct through_u64 by (auto simp: parse_attached_def set_position_def)
qed

lemma opts_rate:
  "parse_opts_loop o' ((''-r'' @ dec (unat (w :: u32))) # ts) = parse_opts_loop (o'\<lparr>op_rate := Some w\<rparr>) ts"
proof -
  obtain c t where ct: "dec (unat w) = c # t" "dec_char c" by (rule dec_head)
  have "unat w < 2 ^ 64" using unat_u32 [of w] by simp
  then have "parse_uint (c # t) = Some (of_nat (unat w))" using parse_uint_dec [of "unat w"] ct(1) by simp
  then show ?thesis using ct through_u64 by (auto simp: parse_attached_def set_rate_def)
qed

lemma opts_type:
  "s \<noteq> [] \<Longrightarrow> parse_opts_loop o' ((''-t'' @ s) # ts) = parse_opts_loop (o'\<lparr>op_ty := Some s\<rparr>) ts"
  by (cases s) (auto simp: parse_attached_def)

lemma opts_arg:
  "s \<noteq> [] \<Longrightarrow> hd s \<noteq> CHR ''-'' \<Longrightarrow> length (op_args o') < 8 \<Longrightarrow>
     parse_opts_loop o' (s # ts) = parse_opts_loop (o'\<lparr>op_args := op_args o' @ [s]\<rparr>) ts"
  by (cases s) (auto simp: parse_attached_def vec_push_def)

lemma hd_dec: "hd (dec n) \<noteq> CHR ''-''"
  using dec_head [of n] dec_char_props by (metis list.sel(1))

lemmas opts_steps = opts_position opts_rate opts_type opts_arg hd_dec dec_not_empty

lemma index_arg: "sdo_index_arg (hex_arg (unat w)) = Some w"
proof -
  have "unat w < 2 ^ 64" using unat_u16 [of w] by simp
  moreover have "(of_nat (unat w) :: u64) \<le> 0xFFFF"
    using unat_u16 [of w] by (simp add: word_le_nat_alt unat_u64)
  ultimately show ?thesis
    using parse_uint_hex [of "unat w"] by (simp add: sdo_index_arg_def hex_arg_def through_u64)
qed

lemma subindex_arg: "sdo_subindex_arg (dec (unat w)) = Some w"
proof -
  have "unat w < 2 ^ 64" using unat_u8 [of w] by simp
  moreover have "(of_nat (unat w) :: u64) \<le> 0xFF"
    using unat_u8 [of w] by (simp add: word_le_nat_alt unat_u64)
  ultimately show ?thesis
    using parse_uint_dec [of "unat w"] by (simp add: sdo_subindex_arg_def through_u64)
qed

text \<open>Bytes of a value, and back.\<close>

definition value_bytes :: "u64 \<Rightarrow> nat \<Rightarrow> bytes" where
  "value_bytes v n = map (\<lambda>i. if i < n then ucast (drop_bit (8 * i) v) else 0) [0..<4]"

lemma encode_value_eq: "parse_int s = Some v \<Longrightarrow> encode_value t s = Some (value_bytes v (unat (ty_size t)), ty_size t)"
  by (simp add: encode_value_def value_bytes_def)

lemma value_byte: "i < length dat \<Longrightarrow> length dat \<le> 8 \<Longrightarrow> ucast (drop_bit (8 * i) (value_of dat)) = dat ! i"
proof (rule bit_word_eqI)
  fix n assume i: "i < length dat" "length dat \<le> 8" and n: "n < LENGTH(8)"
  have bits: "bit (value_of dat) (8 * i + n) = bit (dat ! i) n"
    if "i < length dat" "length dat \<le> 8" "n < 8" for dat i
    using that
  proof (induction dat arbitrary: i)
    case (Cons b bs)
    then show ?case
      by (cases i) (auto simp: value_of_def bit_simps dest: bit_imp_le_length)
  qed simp
  show "bit (ucast (drop_bit (8 * i) (value_of dat)) :: u8) n = bit (dat ! i) n"
    using bits [OF i] n by (simp add: bit_simps)
qed

lemma value_bytes_of:
  assumes "length dat = 4" "n \<le> 4" "drop n dat = replicate (4 - n) 0"
  shows "value_bytes (value_of (take n dat)) n = dat"
proof (rule nth_equalityI)
  fix i assume "i < length (value_bytes (value_of (take n dat)) n)"
  then have i: "i < 4" by (simp add: value_bytes_def)
  show "value_bytes (value_of (take n dat)) n ! i = dat ! i"
  proof (cases "i < n")
    case True
    then show ?thesis using i assms value_byte [of i "take n dat"] by (simp add: value_bytes_def)
  next
    case False
    have "drop n dat ! (i - n) = dat ! i" by (subst nth_drop) (use assms(1,2) i False in auto)
    moreover have "drop n dat ! (i - n) = 0" unfolding assms(3) using False i by simp
    ultimately show ?thesis using False i by (simp add: value_bytes_def)
  qed
qed (use assms in \<open>simp add: value_bytes_def\<close>)

lemma plain_states:
  assumes "target \<in> fst ` set al_names"
  shows "plain (the (map_of al_names target)) \<and> hd (the (map_of al_names target)) \<noteq> CHR ''-'' \<and>
    al_state_from_name (the (map_of al_names target)) = Some target"
proof -
  have "list_all (\<lambda>t. plain (the (map_of al_names t)) \<and> hd (the (map_of al_names t)) \<noteq> CHR ''-'' \<and>
      al_state_from_name (the (map_of al_names t)) = Some t) (map fst al_names)" by code_simp
  then show ?thesis using assms by (auto simp: list_all_iff)
qed

lemma plain_opt: "plain (''-p'' @ dec n)" "plain (''-r'' @ dec n)" "plain s \<Longrightarrow> plain (''-t'' @ s)"
  by (rule plain_append; simp add: is_ws_def plain_dec)+

lemma hex_head: "hex_arg n \<noteq> []" "hd (hex_arg n) \<noteq> CHR ''-''"
  by (simp_all add: hex_arg_def)

lemma cmd_words_plain:
  assumes "cmd_ok c"
  shows "cmd_words c \<noteq> [] \<and> (\<forall>w\<in>set (cmd_words c). plain w) \<and> length (cmd_words c) \<le> 16"
proof -
  have w: "plain ''states''" "plain ''upload''" "plain ''download''" "plain ''start''" "plain ''pd''"
      "plain ''rescan''" "plain ''stop''" by (simp_all add: plain_def is_ws_def)
  show ?thesis
    using assms
    by (cases c rule: cmd_words.cases)
       (auto simp: w plain_opt [simplified] plain_dec plain_hex plain_states type_args_def TYPES_names split: option.splits)
qed

text \<open>The command after its first word.\<close>

lemma cmd_parse_split:
  assumes "ws \<noteq> []" "\<forall>w\<in>set ws. plain w" "length ws \<le> 16"
  shows "cmd_parse (unwords ws) = (let t = hd ws; args = tl ws in
                Some (if t \<in> {''help'', ''?''} then CmdHelp
                      else if t = ''slaves'' then CmdSlaves
                      else if t \<in> {''status'', ''info''} then CmdStatus
                      else if t = ''rescan'' then CmdRescan
                      else if t \<in> {''states'', ''state''} then parse_states args
                      else if t \<in> {''upload'', ''up''} then parse_sdo args False
                      else if t \<in> {''download'', ''down''} then parse_sdo args True
                      else if t = ''start'' then parse_start args
                      else if t = ''stop'' then CmdStop
                      else if t = ''stats'' then CmdStats
                      else if t \<in> {''monitor'', ''mon''} then parse_monitor args
                      else if t = ''pdos'' then CmdPdos
                      else if t = ''pd'' then parse_pd args
                      else if t = ''host'' then CmdHost
                      else if t = ''crashlog'' then CmdCrashlog
                      else if t = ''crashclear'' then CmdCrashclear
                      else cmd_err (''unknown command; type '' @ quoted ''help'')))"
proof -
  have "idx ws 0 = Some (hd ws)" using assms(1) by (simp add: idx_def hd_conv_nth)
  then show ?thesis
    using cmd_parse_words [OF assms] assms(3) by (simp add: cmd_parse_def Let_def)
qed

lemma parse_states_words:
  assumes "target \<in> fst ` set al_names"
  shows "parse_states [''-p'' @ dec (unat slave), the (map_of al_names target)] = CmdStates slave target"
proof -
  have "parse_opts [''-p'' @ dec (unat slave), the (map_of al_names target)] =
      Inr (no_opts\<lparr>op_position := Some slave, op_args := [the (map_of al_names target)]\<rparr>)"
    unfolding parse_opts_def
    using opts_position [of no_opts slave] opts_arg [of "the (map_of al_names target)"] plain_states [OF assms]
    by (simp add: no_opts_def plain_def)
  then show ?thesis using plain_states [OF assms] by (simp add: parse_states_def)
qed

lemma parse_upload_words:
  assumes "case ty of None \<Rightarrow> True | Some t \<Rightarrow> t \<in> set TYPES"
  shows "parse_sdo ([''-p'' @ dec (unat slave)] @ type_args ty @ [hex_arg (unat ix), dec (unat sub)]) False =
    CmdUpload slave ix sub ty"
proof -
  have o: "parse_opts ([''-p'' @ dec (unat slave)] @ type_args ty @ [hex_arg (unat ix), dec (unat sub)]) =
      Inr (no_opts\<lparr>op_position := Some slave, op_ty := map_option ty_name ty,
        op_args := [hex_arg (unat ix), dec (unat sub)]\<rparr>)"
    unfolding parse_opts_def
    using assms opts_position opts_type opts_arg hex_head hd_dec dec_not_empty TYPES_names
    by (cases ty) (auto simp: no_opts_def type_args_def plain_def)
  show ?thesis
    using assms TYPES_names
    unfolding parse_sdo_def o by (cases ty) (simp_all add: index_arg subindex_arg parse_sdo_command_def)
qed

lemma parse_download_words:
  assumes ok: "cmd_ok (CmdDownload slave ix sub t dat len)"
  shows "parse_sdo [''-p'' @ dec (unat slave), ''-t'' @ ty_name t, hex_arg (unat ix), dec (unat sub),
      dec (unat (value_of (take (unat len) dat)))] True = CmdDownload slave ix sub t dat len"
proof -
  let ?v = "value_of (take (unat len) dat)"
  have t: "plain (ty_name t)" "find_type (ty_name t) = Some t" "unat (ty_size t) \<le> 4"
    using ok TYPES_names by simp_all
  have len: "len = ty_size t" "length dat = 4" "unat len \<le> 4" "drop (unat len) dat = replicate (4 - unat len) 0"
    using ok t(3) by auto
  have o: "parse_opts [''-p'' @ dec (unat slave), ''-t'' @ ty_name t, hex_arg (unat ix), dec (unat sub), dec (unat ?v)] =
      Inr (no_opts\<lparr>op_position := Some slave, op_ty := Some (ty_name t),
        op_args := [hex_arg (unat ix), dec (unat sub), dec (unat ?v)]\<rparr>)"
    unfolding parse_opts_def
    using t opts_position opts_type opts_arg hex_head hd_dec dec_not_empty
    by (auto simp: no_opts_def plain_def)
  have "unat ?v < 2 ^ 64" using unsigned_less [of ?v, where ?'a = nat] by simp
  then have "parse_int (dec (unat ?v)) = Some ?v" using parse_int_dec by simp
  then have "encode_value t (dec (unat ?v)) = Some (dat, len)"
    using encode_value_eq [of _ _ t] value_bytes_of [OF len(2-4)] len(1) by simp
  then show ?thesis
    unfolding parse_sdo_def o using t by (simp add: index_arg subindex_arg parse_sdo_command_def)
qed

lemma parse_start_words:
  assumes "cmd_ok (CmdStart slave rate)"
  shows "parse_start ([''-p'' @ dec (unat slave)] @ (case rate of None \<Rightarrow> [] | Some hz \<Rightarrow> [''-r'' @ dec (unat hz)])) =
    CmdStart slave rate"
proof -
  have "parse_opts ([''-p'' @ dec (unat slave)] @ (case rate of None \<Rightarrow> [] | Some hz \<Rightarrow> [''-r'' @ dec (unat hz)])) =
      Inr (no_opts\<lparr>op_position := Some slave, op_rate := rate\<rparr>)"
    unfolding parse_opts_def
    using opts_position [of no_opts slave] opts_rate [of "no_opts\<lparr>op_position := Some slave\<rparr>"]
    by (cases rate) (simp_all add: no_opts_def)
  then show ?thesis using assms by (cases rate) (simp_all add: parse_start_def)
qed

lemma cmd_parse_show:
  assumes ok: "cmd_ok c"
  shows "cmd_parse (unwords (cmd_words c)) = Some c"
proof -
  have w: "cmd_words c \<noteq> []" "\<forall>w\<in>set (cmd_words c). plain w" "length (cmd_words c) \<le> 16"
    using cmd_words_plain [OF ok] by simp_all
  note eq = cmd_parse_split [OF w]
  show ?thesis
  proof (cases c rule: cmd_words.cases)
    case (1 slave target)
    then show ?thesis using eq parse_states_words [of target slave] ok by simp
  next
    case (2 slave ix sub ty)
    then show ?thesis using eq parse_upload_words [of ty slave ix sub] ok by simp
  next
    case (3 slave ix sub t dat len)
    then have "cmd_ok (CmdDownload slave ix sub t dat len)" using ok by (simp only:)
    from parse_download_words [OF this] show ?thesis using 3 eq by simp
  next
    case (4 slave rate)
    then show ?thesis using eq parse_start_words [of slave rate] ok by simp
  next
    case (6 p v)
    have "unat v < 2 ^ 64" using unsigned_less [of v, where ?'a = nat] by simp
    then have "parse_int (dec (unat v)) = Some v" using parse_int_dec by simp
    then show ?thesis using 6 eq ok by (simp add: parse_pd_def cli_pin_name_def short_string_def)
  qed (use eq ok in \<open>simp_all add: parse_pd_def cli_pin_name_def short_string_def\<close>)
qed

text \<open>The value of a download is a word among the options: with a minus sign it is taken for one.\<close>

lemma negative_download:
  fixes slave ix :: u16 and sub :: u8
  assumes t: "t \<in> set TYPES"
  shows "cmd_parse (unwords [''download'', ''-p'' @ dec (unat slave), ''-t'' @ ty_name t, hex_arg (unat ix),
      dec (unat sub), ''-'' @ dec n]) = Some (CmdError ''unknown option'')"
proof -
  let ?ws = "[''download'', ''-p'' @ dec (unat slave), ''-t'' @ ty_name t, hex_arg (unat ix), dec (unat sub), ''-'' @ dec n]"
  have ty: "plain (ty_name t)" using TYPES_names [OF t] by simp
  have neg: "plain (''-'' @ dec n)" by (rule plain_append) (simp_all add: is_ws_def plain_dec)
  have "plain ''download''" by (simp add: plain_def is_ws_def)
  then have w: "?ws \<noteq> []" "\<forall>w\<in>set ?ws. plain w" "length ?ws \<le> 16"
    using plain_opt [simplified] plain_opt(3) [OF ty, simplified] plain_dec plain_hex neg [simplified] by simp_all
  obtain c r where c: "dec n = c # r" "dec_char c" by (rule dec_head)
  then have "c \<noteq> CHR ''p''" "c \<noteq> CHR ''r''" "c \<noteq> CHR ''-''" "c \<noteq> CHR ''t''"
    by (auto simp: dec_char_def)
  then have last: "parse_opts_loop o' [''-'' @ dec n] = Inl (CmdError ''unknown option'')" for o'
    by (simp add: c(1) parse_attached_def cmd_err_def short_string_def)
  have ne: "ty_name t \<noteq> []" using ty by (simp add: plain_def)
  define o1 where "o1 = no_opts\<lparr>op_position := Some slave, op_ty := Some (ty_name t)\<rparr>"
  have o1: "length (op_args o1) < 8" "length (op_args (o1\<lparr>op_args := op_args o1 @ [s]\<rparr>)) < 8" for s
    by (simp_all add: o1_def no_opts_def)
  have "parse_opts (tl ?ws) = parse_opts_loop o1 [hex_arg (unat ix), dec (unat sub), ''-'' @ dec n]"
    unfolding parse_opts_def o1_def list.sel by (simp only: opts_position opts_type [OF ne])
  also have "\<dots> = Inl (CmdError ''unknown option'')"
    by (simp only: opts_arg [OF hex_head o1(1)] opts_arg [OF dec_not_empty hd_dec o1(2)] last)
  finally have "parse_opts (tl ?ws) = Inl (CmdError ''unknown option'')" .
  then have "parse_sdo (tl ?ws) True = CmdError ''unknown option''" by (simp only: parse_sdo_def sum.case)
  then show ?thesis using cmd_parse_split [OF w] by simp
qed

end
