(* ===== verification/Board.thy ===== *)
theory Board
  imports Ecrt
begin

text \<open>
  The board support that is computation rather than register access: the period timer of the cyclic
  interrupt (\<^verbatim>\<open>src/src/board/cycle_timer.rs\<close>), the clock profile (\<^verbatim>\<open>src/src/board/clock_config.rs\<close>), the pin
  map (\<^verbatim>\<open>src/src/board/teensy_pin_map.rs\<close>), fast GPIO outputs (\<^verbatim>\<open>src/src/board/fast_gpio.rs\<close>) and the
  request monitor of the USB port (\<^verbatim>\<open>src/src/board/usb_bootloader.rs\<close>). Registers appear as fields of a
  record or as the list of writes they receive; build settings are arguments.
\<close>

unbundle bit_operations_syntax

section \<open>The period timer\<close>

definition PERCLK_HZ :: u32 where "PERCLK_HZ = 24000000"

text \<open>\<^verbatim>\<open>saturating_mul\<close> on \<^verbatim>\<open>u64\<close>.\<close>

definition saturating_mul :: "u64 \<Rightarrow> u64 \<Rightarrow> u64" where
  "saturating_mul a b = (if uint a * uint b < 2 ^ 64 then a * b else - 1)"

definition load_value :: "u64 \<Rightarrow> u32" where
  "load_value cycle_ns = ucast (max (saturating_mul cycle_ns (ucast PERCLK_HZ) div 1000000000) 1 - 1)"

text \<open>\<^verbatim>\<open>load + 1\<close> overflows for the largest load.\<close>

definition actual_hz :: "u32 \<Rightarrow> u32 option" where
  "actual_hz load = (if load = - 1 then None else Some (PERCLK_HZ div (load + 1)))"

text \<open>Channel 0: its load value and whether timer and interrupt are enabled.\<close>

record pit =
  pit_ldval :: u32
  pit_on :: bool

definition pit_configure :: "u64 \<Rightarrow> pit \<Rightarrow> pit \<times> u32" where
  "pit_configure cycle_ns p =
     (let load = load_value cycle_ns in (p\<lparr>pit_on := False, pit_ldval := load\<rparr>, load))"

definition pit_start :: "pit \<Rightarrow> pit" where "pit_start p = p\<lparr>pit_on := True\<rparr>"

definition pit_stop :: "pit \<Rightarrow> pit" where "pit_stop p = p\<lparr>pit_on := False\<rparr>"

text \<open>\<open>cval\<close> is the down-counter's reading.\<close>

definition latency_ticks :: "u32 \<Rightarrow> pit \<Rightarrow> u32" where
  "latency_ticks cval p = (if cval \<le> pit_ldval p then pit_ldval p - cval else 0)"

section \<open>The clock profile\<close>

definition OVERCLOCK_STEP_HZ :: u32 where "OVERCLOCK_STEP_HZ = 28000000"
definition OVERCLOCK_MAX_MV :: u32 where "OVERCLOCK_MAX_MV = 1575"

record clock_profile =
  cp_requested_hz :: u32
  cp_core_hz :: u32
  cp_ipg_hz :: u32
  cp_vdd_soc_mv :: u32
  cp_pll1_div_select :: u32
  cp_arm_divider :: u32
  cp_ahb_divider :: u32
  cp_ipg_divider :: u32

definition supported_clocks :: "u32 list" where
  "supported_clocks =
     [24000000, 150000000, 396000000, 450000000, 528000000, 600000000, 720000000, 816000000, 912000000,
      960000000, 1008000000]"

definition required_voltage_for_hz :: "u32 \<Rightarrow> u32" where
  "required_voltage_for_hz hz =
     (if hz \<le> 240000000 then 950 + (hz div 32000000) * 25
      else if hz \<le> 456000000 then 1150
      else if hz \<le> 600000000 then 1150 + ((hz - 456000000) div 36000000) * 25
      else 1250 + ((hz - 600000000) div OVERCLOCK_STEP_HZ) * 25)"

definition clamp_voltage :: "u32 \<Rightarrow> u32" where
  "clamp_voltage mv = (if mv > OVERCLOCK_MAX_MV then OVERCLOCK_MAX_MV else mv)"

function clock_dividers :: "u32 \<Rightarrow> u32 \<Rightarrow> u32 \<Rightarrow> u32 \<times> u32" where
  "clock_dividers hz arm ahb =
     (if (ucast hz :: u64) * ucast arm * ucast ahb < 648000000 then
        if arm < 8 then clock_dividers hz (arm + 1) ahb
        else if ahb < 5 then clock_dividers hz 1 (ahb + 1)
        else (arm, ahb)
      else (arm, ahb))"
  by pat_completeness auto

termination
proof (relation "measure (\<lambda>(hz, arm, ahb). 9 * (5 - unat ahb) + (8 - unat arm))")
  fix hz arm ahb :: u32
  assume a: "arm < 8"
  have "unat (arm + 1) = unat arm + 1" using a by (simp add: unat_word_ariths word_less_nat_alt)
  then show "((hz, arm + 1, ahb), hz, arm, ahb) \<in> measure (\<lambda>(hz, arm, ahb). 9 * (5 - unat ahb) + (8 - unat arm))"
    using a by (simp add: word_less_nat_alt)
next
  fix hz arm ahb :: u32
  assume a: "ahb < 5"
  have "unat (ahb + 1) = unat ahb + 1" using a by (simp add: unat_word_ariths word_less_nat_alt)
  then show "((hz, 1, ahb + 1), hz, arm, ahb) \<in> measure (\<lambda>(hz, arm, ahb). 9 * (5 - unat ahb) + (8 - unat arm))"
    using a by (simp add: word_less_nat_alt)
qed simp

text \<open>\<^verbatim>\<open>panic!\<close> in the constant evaluation is \<open>None\<close>.\<close>

definition clock_profile_new :: "bool \<Rightarrow> bool \<Rightarrow> u32 \<Rightarrow> clock_profile option" where
  "clock_profile_new allow_overclock allow_max_voltage requested_hz =
     (if requested_hz \<notin> set supported_clocks then None
      else
        let (arm, ahb) = clock_dividers requested_hz 1 1;
            scaled_hz = (ucast requested_hz :: u64) * ucast arm * ucast ahb;
            pll = (ucast ((scaled_hz + 6000000) div 12000000) :: u32);
            pll = (if pll > 108 then 108 else pll);
            pll = (if pll < 54 then 54 else pll);
            core_hz = 12000000 * pll div arm div ahb;
            mv = required_voltage_for_hz core_hz
        in if core_hz > 600000000 \<and> \<not> allow_overclock then None
           else if mv > OVERCLOCK_MAX_MV \<and> \<not> allow_max_voltage then None
           else
             let d = (core_hz + 149999999) div 150000000;
                 d = (if d > 4 then 4 else d)
             in Some \<lparr>cp_requested_hz = requested_hz, cp_core_hz = core_hz, cp_ipg_hz = core_hz div d,
                  cp_vdd_soc_mv = clamp_voltage mv, cp_pll1_div_select = pll, cp_arm_divider = arm,
                  cp_ahb_divider = ahb, cp_ipg_divider = d\<rparr>)"

definition indicator_flash_count :: "clock_profile \<Rightarrow> u32" where
  "indicator_flash_count p = cp_core_hz p div 100000000"

text \<open>\<^verbatim>\<open>apply\<close>: the supply voltage is raised before the clock is switched and lowered after.\<close>

datatype clock_act = SetVdd u32 | SwitchClock u32

definition clock_apply :: "clock_profile \<Rightarrow> u32 \<Rightarrow> clock_act list" where
  "clock_apply p old_mv =
     (if old_mv < cp_vdd_soc_mv p then [SetVdd (cp_vdd_soc_mv p)] else []) @ [SwitchClock (cp_core_hz p)]
     @ (if old_mv > cp_vdd_soc_mv p then [SetVdd (cp_vdd_soc_mv p)] else [])"

text \<open>The compile-time settings are decimal numbers and \<^verbatim>\<open>true\<close> or \<^verbatim>\<open>false\<close>; anything else stops the build.\<close>

fun parse_u32_from :: "u32 \<Rightarrow> string \<Rightarrow> u32 option" where
  "parse_u32_from acc [] = Some acc"
| "parse_u32_from acc (c # cs) =
     (let b = (of_char c :: nat)
      in if b < 48 \<or> b > 57 then None
         else parse_u32_from (acc * 10 + of_nat (b - 48)) cs)"

definition parse_u32 :: "string \<Rightarrow> u32 option" where
  "parse_u32 value = (if value = [] then None else parse_u32_from 0 value)"

definition parse_u8 :: "string \<Rightarrow> u8 option" where
  "parse_u8 value = do { v \<leftarrow> parse_u32 value; if v > 255 then None else Some (ucast v) }"

definition parse_bool :: "string \<Rightarrow> bool option" where
  "parse_bool value = (if value = ''true'' then Some True else if value = ''false'' then Some False else None)"

section \<open>Pins\<close>

datatype fast_gpio = fast_gpio (fg_group: u8) (fg_bit: u8)

datatype teensy_board = Teensy40 | Teensy41

text \<open>\<^verbatim>\<open>1u32 << bit\<close> shifts by the low five bits of \<^verbatim>\<open>bit\<close>.\<close>

definition gpio_mask :: "fast_gpio \<Rightarrow> u32" where
  "gpio_mask g = push_bit (unat (fg_bit g AND 31)) 1"

definition COMMON_PINS :: "fast_gpio list" where
  "COMMON_PINS = [
    fast_gpio 6 3, fast_gpio 6 2, fast_gpio 9 4, fast_gpio 9 5, fast_gpio 9 6, fast_gpio 9 8,
    fast_gpio 7 10, fast_gpio 7 17, fast_gpio 7 16, fast_gpio 7 11, fast_gpio 7 0, fast_gpio 7 2,
    fast_gpio 7 1, fast_gpio 7 3, fast_gpio 6 18, fast_gpio 6 19, fast_gpio 6 23, fast_gpio 6 22,
    fast_gpio 6 17, fast_gpio 6 16, fast_gpio 6 26, fast_gpio 6 27, fast_gpio 6 24, fast_gpio 6 25,
    fast_gpio 6 12, fast_gpio 6 13, fast_gpio 6 30, fast_gpio 6 31, fast_gpio 8 18, fast_gpio 9 31,
    fast_gpio 8 23, fast_gpio 8 22, fast_gpio 7 12, fast_gpio 9 7]"

definition TEENSY_40_PINS :: "fast_gpio list" where
  "TEENSY_40_PINS = COMMON_PINS @ [
    fast_gpio 8 15, fast_gpio 8 14, fast_gpio 8 13, fast_gpio 8 12, fast_gpio 8 17, fast_gpio 8 16]"

definition TEENSY_41_PINS :: "fast_gpio list" where
  "TEENSY_41_PINS = COMMON_PINS @ [
    fast_gpio 7 29, fast_gpio 7 28, fast_gpio 7 18, fast_gpio 7 19, fast_gpio 6 28, fast_gpio 6 29,
    fast_gpio 6 20, fast_gpio 6 21, fast_gpio 8 15, fast_gpio 8 14, fast_gpio 8 13, fast_gpio 8 12,
    fast_gpio 8 17, fast_gpio 8 16, fast_gpio 9 24, fast_gpio 9 27, fast_gpio 9 28, fast_gpio 9 22,
    fast_gpio 9 26, fast_gpio 9 25, fast_gpio 9 29]"

definition lookup_pin :: "fast_gpio list \<Rightarrow> u8 \<Rightarrow> fast_gpio option" where
  "lookup_pin pins pin = (if unat pin < length pins then Some (pins ! unat pin) else None)"

fun lookup_gpio :: "fast_gpio list \<Rightarrow> nat \<Rightarrow> fast_gpio \<Rightarrow> u8 option" where
  "lookup_gpio [] i gpio = None"
| "lookup_gpio (c # pins) i gpio =
     (if fg_group c = fg_group gpio \<and> fg_bit c = fg_bit gpio then Some (of_nat i) else lookup_gpio pins (i + 1) gpio)"

fun board_pins :: "teensy_board \<Rightarrow> fast_gpio list" where
  "board_pins Teensy40 = TEENSY_40_PINS"
| "board_pins Teensy41 = TEENSY_41_PINS"

definition teensy_pin_to_fast_gpio :: "teensy_board \<Rightarrow> u8 \<Rightarrow> fast_gpio option" where
  "teensy_pin_to_fast_gpio board pin = lookup_pin (board_pins board) pin"

definition fast_gpio_to_teensy_pin :: "teensy_board \<Rightarrow> fast_gpio \<Rightarrow> u8 option" where
  "fast_gpio_to_teensy_pin board gpio = lookup_gpio (board_pins board) 0 gpio"

section \<open>Fast GPIO outputs\<close>

definition IOMUXC_GPR_BASE :: u32 where "IOMUXC_GPR_BASE = 0x400AC000"
definition GPIO_GDIR :: u32 where "GPIO_GDIR = 0x04"
definition GPIO_DR_SET :: u32 where "GPIO_DR_SET = 0x84"
definition GPIO_DR_CLEAR :: u32 where "GPIO_DR_CLEAR = 0x88"

definition gpio_base :: "u8 \<Rightarrow> u32 option" where
  "gpio_base grp =
     map_of [(1, 0x401B8000), (2, 0x401BC000), (3, 0x401C0000), (4, 0x401C4000), (5, 0x400C0000),
             (6, 0x42000000), (7, 0x42004000), (8, 0x42008000), (9, 0x4200C000)] grp"

text \<open>Registers by address; \<open>enable_fast_gpio\<close> and \<open>init\<close> read and write them.\<close>

type_synonym regs = "u32 \<Rightarrow> u32"

record fast_output =
  fo_gpio :: fast_gpio
  fo_level :: bool

definition fast_output_new :: "fast_gpio \<Rightarrow> fast_output" where
  "fast_output_new g = \<lparr>fo_gpio = g, fo_level = False\<rparr>"

definition enable_fast_gpio :: "fast_gpio \<Rightarrow> regs \<Rightarrow> regs" where
  "enable_fast_gpio g regs =
     (case map_of [(6, 0x68), (7, 0x6C), (8, 0x70), (9, 0x74)] (fg_group g) of
        None \<Rightarrow> regs
      | Some off \<Rightarrow> regs(IOMUXC_GPR_BASE + off := regs (IOMUXC_GPR_BASE + off) OR gpio_mask g))"

definition fast_output_init :: "fast_output \<Rightarrow> regs \<Rightarrow> regs option" where
  "fast_output_init f regs = do {
     let regs = enable_fast_gpio (fo_gpio f) regs;
     base \<leftarrow> gpio_base (fg_group (fo_gpio f));
     let mask = gpio_mask (fo_gpio f);
     let regs = regs(base + GPIO_GDIR := regs (base + GPIO_GDIR) OR mask);
     Some (regs(base + GPIO_DR_CLEAR := mask)) }"

text \<open>\<^verbatim>\<open>gpio_write_raw\<close>: the address and value of the one register write.\<close>

definition gpio_write_raw :: "fast_output \<Rightarrow> u32 \<Rightarrow> (u32 \<times> u32) option" where
  "gpio_write_raw f off = do {
     base \<leftarrow> gpio_base (fg_group (fo_gpio f)); Some (base + off, gpio_mask (fo_gpio f)) }"

definition fast_output_set :: "fast_output \<Rightarrow> (fast_output \<times> u32 \<times> u32) option" where
  "fast_output_set f = do { let f = f\<lparr>fo_level := True\<rparr>; w \<leftarrow> gpio_write_raw f GPIO_DR_SET; Some (f, w) }"

definition fast_output_clear :: "fast_output \<Rightarrow> (fast_output \<times> u32 \<times> u32) option" where
  "fast_output_clear f = do { let f = f\<lparr>fo_level := False\<rparr>; w \<leftarrow> gpio_write_raw f GPIO_DR_CLEAR; Some (f, w) }"

definition fast_output_write :: "bool \<Rightarrow> fast_output \<Rightarrow> (fast_output \<times> u32 \<times> u32) option" where
  "fast_output_write level f = (if level then fast_output_set f else fast_output_clear f)"

definition fast_output_toggle :: "fast_output \<Rightarrow> (fast_output \<times> u32 \<times> u32) option" where
  "fast_output_toggle f = fast_output_write (\<not> fo_level f) f"

section \<open>The request monitor of the USB port\<close>

datatype usb_direction = UsbOut | UsbIn
datatype usb_request_type = UsbStandard | UsbClass | UsbVendor | UsbReserved
datatype usb_recipient = UsbDevice | UsbInterface | UsbEndpoint | UsbOther | UsbRecipientReserved

record usb_request =
  ur_direction :: usb_direction
  ur_request_type :: usb_request_type
  ur_recipient :: usb_recipient
  ur_request :: u8
  ur_value :: u16
  ur_index :: u16
  ur_length :: u16

definition TEENSY_BOOTLOADER_BAUD :: u32 where "TEENSY_BOOTLOADER_BAUD = 134"
definition TEENSY_NORMAL_REBOOT_BAUD :: u32 where "TEENSY_NORMAL_REBOOT_BAUD = 135"
definition CDC_SET_LINE_CODING :: u8 where "CDC_SET_LINE_CODING = 0x20"

definition matches_line_coding :: "bytes \<Rightarrow> u32 \<Rightarrow> bool" where
  "matches_line_coding dat expected_baud \<longleftrightarrow>
     length dat = 7 \<and> read_u32_le dat = Some expected_baud \<and> dat ! 4 = 0 \<and> dat ! 5 = 0 \<and> dat ! 6 = 8"

definition line_coding_request :: "usb_request \<Rightarrow> bool" where
  "line_coding_request r \<longleftrightarrow>
     ur_direction r = UsbOut \<and> ur_request_type r = UsbClass \<and> ur_recipient r = UsbInterface \<and>
     ur_request r = CDC_SET_LINE_CODING \<and> ur_index r = 0"

definition is_soft_reboot_control_request :: "usb_request \<Rightarrow> bytes \<Rightarrow> bool" where
  "is_soft_reboot_control_request r dat \<longleftrightarrow> line_coding_request r \<and> matches_line_coding dat TEENSY_BOOTLOADER_BAUD"

definition is_normal_reboot_control_request :: "usb_request \<Rightarrow> bytes \<Rightarrow> bool" where
  "is_normal_reboot_control_request r dat \<longleftrightarrow> line_coding_request r \<and> matches_line_coding dat TEENSY_NORMAL_REBOOT_BAUD"

text \<open>The two latches.\<close>

record reboot_latch =
  rl_bootloader :: bool
  rl_reboot :: bool

definition monitor_control_out :: "usb_request \<Rightarrow> bytes \<Rightarrow> reboot_latch \<Rightarrow> reboot_latch" where
  "monitor_control_out r dat l =
     (if is_soft_reboot_control_request r dat then l\<lparr>rl_bootloader := True\<rparr>
      else if is_normal_reboot_control_request r dat then l\<lparr>rl_reboot := True\<rparr>
      else l)"

definition take_bootloader_request :: "reboot_latch \<Rightarrow> bool \<times> reboot_latch" where
  "take_bootloader_request l = (rl_bootloader l, l\<lparr>rl_bootloader := False\<rparr>)"

definition take_reboot_request :: "reboot_latch \<Rightarrow> bool \<times> reboot_latch" where
  "take_reboot_request l = (rl_reboot l, l\<lparr>rl_reboot := False\<rparr>)"

section \<open>Facts\<close>

text \<open>Every supported setting but 150 MHz is realised exactly, all within the voltage limit; the bus clock stays at 150 MHz unless
  the core is overclocked.\<close>

definition profile_ok :: "u32 \<Rightarrow> clock_profile option \<Rightarrow> bool" where
  "profile_ok hz r \<longleftrightarrow> (case r of None \<Rightarrow> False | Some p \<Rightarrow>
     cp_core_hz p = (if hz = 150000000 then 151200000 else hz) \<and> cp_vdd_soc_mv p \<le> OVERCLOCK_MAX_MV \<and> (hz \<le> 600000000 \<longrightarrow> cp_ipg_hz p \<le> 150000000))"

lemma supported_profiles: "\<forall>hz \<in> set supported_clocks. profile_ok hz (clock_profile_new True True hz)"
  unfolding supported_clocks_def
  by (simp add: profile_ok_def clock_profile_new_def supported_clocks_def clock_dividers.simps Let_def
      required_voltage_for_hz_def clamp_voltage_def OVERCLOCK_MAX_MV_def OVERCLOCK_STEP_HZ_def)

text \<open>The clock never runs at a voltage below the profile's.\<close>

fun supplied :: "u32 \<Rightarrow> u32 \<Rightarrow> clock_act list \<Rightarrow> bool" where
  "supplied need mv [] = True"
| "supplied need mv (SetVdd v # acts) = supplied need v acts"
| "supplied need mv (SwitchClock _ # acts) = (need \<le> mv \<and> supplied need mv acts)"

lemma clock_apply_supplied: "supplied (cp_vdd_soc_mv p) old_mv (clock_apply p old_mv)"
  by (simp add: clock_apply_def not_less)

lemma lookup_gpio_nth:
  assumes "distinct pins" "k < length pins"
  shows "lookup_gpio pins i (pins ! k) = Some (of_nat (i + k))"
  using assms
proof (induction pins arbitrary: i k)
  case Nil
  then show ?case by simp
next
  case (Cons c pins)
  show ?case
  proof (cases k)
    case 0
    then show ?thesis by simp
  next
    case (Suc k')
    then have "pins ! k' \<noteq> c" using Cons.prems by (auto simp: in_set_conv_nth)
    then have "\<not> (fg_group c = fg_group (pins ! k') \<and> fg_bit c = fg_bit (pins ! k'))"
      by (metis fast_gpio.expand)
    then show ?thesis using Suc Cons.IH [of k' "i + 1"] Cons.prems by (auto simp del: of_nat_Suc)
  qed
qed

lemma board_pins_distinct: "distinct (board_pins board)"
  by (cases board) (simp_all add: TEENSY_40_PINS_def TEENSY_41_PINS_def COMMON_PINS_def)

text \<open>The pin map is injective, and its inverse lookup is one.\<close>

lemma pin_lookup_inverse:
  "teensy_pin_to_fast_gpio board pin = Some g \<Longrightarrow> fast_gpio_to_teensy_pin board g = Some pin"
  using lookup_gpio_nth [OF board_pins_distinct, of "unat pin" board 0]
  by (simp add: teensy_pin_to_fast_gpio_def lookup_pin_def fast_gpio_to_teensy_pin_def split: if_splits)

lemma reboot_requests_exclusive:
  "\<not> (is_soft_reboot_control_request r dat \<and> is_normal_reboot_control_request r dat)"
  by (auto simp: is_soft_reboot_control_request_def is_normal_reboot_control_request_def matches_line_coding_def
      TEENSY_BOOTLOADER_BAUD_def TEENSY_NORMAL_REBOOT_BAUD_def)

text \<open>A rate the command line accepts is what the timer runs at, up to three hertz.\<close>

lemma timer_ticks:
  fixes hz :: int
  assumes hz: "50 \<le> hz" "hz \<le> 8000"
  defines "t \<equiv> 1000000000 div hz * 24000000 div 1000000000"
  shows "hz \<le> 24000000 div t" "24000000 div t \<le> hz + 3" "1 \<le> t" "t \<le> 480000"
proof -
  define ns where "ns = 1000000000 div hz"
  have t: "t = ns * 24000000 div 1000000000" by (simp add: t_def ns_def)
  have div_bounds: "y div x * x \<le> y" "y - x < y div x * x" if "0 < x" for x y :: int
    using pos_mod_sign [OF that, of y] pos_mod_bound [OF that, of y] div_mult_mod_eq [of y x] by linarith+
  have n1: "ns * hz \<le> 1000000000" and n2: "1000000000 - hz < ns * hz"
    using div_bounds [of hz 1000000000] hz by (simp_all add: ns_def)
  have t1: "t * 1000000000 \<le> ns * 24000000" and t2: "ns * 24000000 < (t + 1) * 1000000000"
    using div_bounds [of 1000000000 "ns * 24000000"] by (simp_all add: t)
  have n: "125000 \<le> ns" "ns \<le> 20000000"
    using hz zdiv_mono2 [of 1000000000 hz 8000] zdiv_mono2 [of 1000000000 50 hz] by (simp_all add: ns_def)
  show t3: "1 \<le> t" using n(1) t2 by simp
  show "t \<le> 480000" using n(2) t1 by simp
  have "t * 1000000000 * hz \<le> ns * 24000000 * hz" by (rule mult_right_mono) (use t1 hz in simp_all)
  then have u1: "t * hz \<le> 24000000" using n1 by (simp add: algebra_simps)
  show "hz \<le> 24000000 div t" using zdiv_mono1 [OF u1, of t] t3 by simp
  have "ns * 24000000 * hz \<le> (t + 1) * 1000000000 * hz" by (rule mult_right_mono) (use t2 hz in simp_all)
  then have "24000000 - 8192 \<le> t * hz" using n2 hz by (simp add: algebra_simps)
  moreover have "2999 \<le> t" using n(1) t2 by simp
  ultimately have "24000000 < (hz + 4) * t" by (simp add: algebra_simps)
  then have "24000000 div t * t < (hz + 4) * t" using div_bounds(1) [of t 24000000] t3 by linarith
  then have "24000000 div t < hz + 4" using t3 by simp
  then show "24000000 div t \<le> hz + 3" by simp
qed

lemma start_rate_realised:
  assumes "50 \<le> hz" "hz \<le> (8000 :: u32)"
  shows "\<exists>f. actual_hz (load_value (1000000000 div ucast hz)) = Some f \<and> hz \<le> f \<and> f \<le> hz + 3"
proof -
  define h where "h = uint hz"
  define t where "t = 1000000000 div h * 24000000 div 1000000000"
  have h: "50 \<le> h" "h \<le> 8000" using assms by (simp_all add: word_le_def h_def)
  note t = timer_ticks [OF h, folded t_def]
  let ?ns = "1000000000 div ucast hz :: u64"
  have ns: "uint ?ns = 1000000000 div h" by (simp add: uint_div h_def uint_up_ucast is_up)
  have le: "1000000000 div h \<le> 20000000" using h zdiv_mono2 [of 1000000000 50 h] by simp
  have prod: "uint (?ns * 24000000) = 1000000000 div h * 24000000"
    unfolding uint_word_ariths ns using le h by (simp add: mod_pos_pos_trivial pos_imp_zdiv_nonneg_iff)
  have ticks: "uint (?ns * 24000000 div 1000000000) = t" by (simp add: uint_div prod t_def)
  have sat: "saturating_mul ?ns (ucast PERCLK_HZ) = ?ns * 24000000"
    using le by (simp add: saturating_mul_def PERCLK_HZ_def ns)
  let ?x = "?ns * 24000000 div 1000000000"
  have x: "1 \<le> ?x" "uint (?x - 1) = t - 1"
    using t(3) ticks by (simp_all add: word_le_def uint_sub_lem [THEN iffD1])
  have load: "uint (load_value ?ns) = t - 1"
    using x t(3,4) by (simp add: load_value_def sat max_def unsigned_ucast_eq uint_word_of_int take_bit_eq_mod)
  then have ne: "load_value ?ns \<noteq> - 1" using t(4) by (auto simp: word_uint_eq_iff unsigned_minus_1_eq_mask mask_eq_exp_minus_1)
  have l1: "uint (load_value ?ns + 1) = t" using load t(3,4) by (simp add: uint_word_ariths)
  let ?f = "PERCLK_HZ div (load_value ?ns + 1)"
  have f: "uint ?f = 24000000 div t" by (simp add: uint_div l1 PERCLK_HZ_def)
  have "uint (hz + 3) = h + 3" using h by (simp add: uint_word_ariths h_def)
  then have "hz \<le> ?f \<and> ?f \<le> hz + 3" using t(1,2) by (simp add: word_le_def f h_def)
  then show ?thesis using ne by (simp add: actual_hz_def)
qed

end
