(* ===== verification/Console.thy ===== *)
theory Console
  imports MasterRun Cli Board
begin

text \<open>
  The console of \<^verbatim>\<open>src/src/main.rs\<close>: the line editor of the USB interrupt, the worker that takes one
  command at a time, drives the master and formats the response, the output buffer the interrupt drains
  in packets, the monitor lines and the crash report. USB itself, the executor and the timer registers
  are hardware; the timer of the cyclic interrupt appears as its load value while it runs, the PHY's link
  bit, the core clock and the build tag as arguments.
\<close>

unbundle bit_operations_syntax

section \<open>The output buffer\<close>

definition ECAT_RESP_LINES :: nat where [simp]: "ECAT_RESP_LINES = 40"
definition ECAT_OUT_CAP :: nat where "ECAT_OUT_CAP = ECAT_RESP_LINES * 98"
definition USB_MAX_PACKET_SIZE :: nat where [simp]: "USB_MAX_PACKET_SIZE = 512"

record ecat_out =
  eo_buf :: bytes
  eo_cursor :: nat

definition ecat_out_new :: ecat_out where "ecat_out_new = \<lparr>eo_buf = [], eo_cursor = 0\<rparr>"

definition as_bytes :: "string \<Rightarrow> bytes" where "as_bytes = map of_char"

text \<open>\<^verbatim>\<open>extend_from_slice\<close>, its error ignored: all or nothing.\<close>

definition buf_extend :: "bytes \<Rightarrow> bytes \<Rightarrow> bytes" where
  "buf_extend v xs = (if length v + length xs \<le> ECAT_OUT_CAP then v @ xs else v)"

definition set_lines :: "string list \<Rightarrow> ecat_out" where
  "set_lines lines =
     \<lparr>eo_buf = foldl (\<lambda>b l. buf_extend (buf_extend b (as_bytes l)) [13, 10]) [] lines, eo_cursor = 0\<rparr>"

definition load_line :: "string \<Rightarrow> ecat_out" where
  "load_line l = \<lparr>eo_buf = buf_extend (buf_extend [] (as_bytes l)) [13, 10], eo_cursor = 0\<rparr>"

definition out_remaining :: "ecat_out \<Rightarrow> bytes" where
  "out_remaining o' = drop (min (eo_cursor o') (length (eo_buf o'))) (eo_buf o')"

definition out_pending :: "ecat_out \<Rightarrow> bool" where "out_pending o' \<longleftrightarrow> eo_cursor o' < length (eo_buf o')"

definition out_advance :: "ecat_out \<Rightarrow> nat \<Rightarrow> ecat_out" where
  "out_advance o' n = o'\<lparr>eo_cursor := min (eo_cursor o' + n) (length (eo_buf o'))\<rparr>"

text \<open>One visit of the USB interrupt to a pending response: the packet handed to the endpoint, and what
  \<^verbatim>\<open>write_packet\<close> said.\<close>

datatype write_result = Written | WouldBlock | WriteError

definition usb_drain :: "write_result \<Rightarrow> ecat_out \<Rightarrow> bytes \<times> ecat_out" where
  "usb_drain r o' =
     (let n = min (length (out_remaining o')) USB_MAX_PACKET_SIZE;
          chunk = take n (out_remaining o')
      in case r of
           Written \<Rightarrow> (chunk, out_advance o' n)
         | WouldBlock \<Rightarrow> ([], o')
         | WriteError \<Rightarrow> ([], out_advance o' n))"

section \<open>The USB interrupt\<close>

text \<open>The task's locals and the two resources it shares with the worker: the command slot and the output buffer.\<close>

record usb_task =
  us_line :: string
  us_banner_done :: bool
  us_banner_line :: u8
  us_cmd :: "cmd option"
  us_out :: ecat_out

definition LINE_CAP :: nat where [simp]: "LINE_CAP = 128"

definition edit_byte :: "usb_task \<Rightarrow> u8 \<Rightarrow> usb_task option" where
  "edit_byte u b =
     (if b = 13 \<or> b = 10 then
        (if us_line u \<noteq> [] then do {
           c \<leftarrow> cmd_parse (us_line u);
           Some (u\<lparr>us_cmd := (case us_cmd u of None \<Rightarrow> Some c | Some c' \<Rightarrow> Some c'), us_line := []\<rparr>) }
         else Some u)
      else if b = 0x08 \<or> b = 0x7F then Some (u\<lparr>us_line := butlast (us_line u)\<rparr>)
      else if 0x20 \<le> b \<and> b \<le> 0x7E then Some (u\<lparr>us_line := push_drop LINE_CAP (us_line u) (char_of (unat b))\<rparr>)
      else Some u)"

fun edit_bytes :: "usb_task \<Rightarrow> bytes \<Rightarrow> usb_task option" where
  "edit_bytes u [] = Some u"
| "edit_bytes u (b # bs) = do { u \<leftarrow> edit_byte u b; edit_bytes u bs }"

text \<open>What the build settles.\<close>

record build_cfg =
  fw_name :: string
  fw_version :: string
  fw_tag :: string
  fw_core_hz :: u32

definition serial_line :: "string list \<Rightarrow> string" where
  "serial_line pieces =
     (let s = fst (write_pieces 192 [] pieces) in if length s + 2 \<le> 192 then s @ [CHR 0x0D, CHR 0x0A] else s)"

definition BOOT_BANNER_LINES :: u8 where "BOOT_BANNER_LINES = 2"

definition banner_line :: "build_cfg \<Rightarrow> u8 \<Rightarrow> string option" where
  "banner_line bld n =
     (if n = 0 then Some (serial_line [''[boot] '', fw_name bld, '' '', fw_version bld, '' ('', fw_tag bld, '')''])
      else if n = 1 then
        Some (serial_line [''[boot] EtherCAT master over RMII ENET; type '' @ quoted ''help'' @ '' for commands''])
      else None)"

text \<open>\<^verbatim>\<open>serial_try_banner_line\<close>: the bytes handed to the endpoint, and whether the line is done.\<close>

definition try_banner_line :: "build_cfg \<Rightarrow> write_result \<Rightarrow> u8 \<Rightarrow> bytes \<times> bool" where
  "try_banner_line bld wr n =
     (case banner_line bld n of
        None \<Rightarrow> ([], True)
      | Some l \<Rightarrow> (if wr = Written then as_bytes l else [], wr \<noteq> WouldBlock))"

text \<open>\<^verbatim>\<open>usb_isr\<close>: \<open>rx\<close> is the packet read, \<open>wr\<close> what the endpoint says to the packet written. The results are the
  bytes sent and whether the interrupt pends itself again.\<close>

definition usb_isr :: "build_cfg \<Rightarrow> bool \<Rightarrow> bytes option \<Rightarrow> write_result \<Rightarrow> usb_task \<Rightarrow> (bytes \<times> bool \<times> usb_task) option" where
  "usb_isr bld ready rx wr u =
     (if ready then do {
        u \<leftarrow> (case rx of None \<Rightarrow> Some u | Some bs \<Rightarrow> edit_bytes u bs);
        if out_pending (us_out u) then
          (let (chunk, out) = usb_drain wr (us_out u)
           in Some (chunk, wr = Written \<and> out_pending out, u\<lparr>us_out := out\<rparr>))
        else if \<not> us_banner_done u then
          (let (sent, fin) = try_banner_line bld wr (us_banner_line u)
           in Some (sent, False,
                if fin then u\<lparr>us_banner_line := us_banner_line u + 1,
                              us_banner_done := BOOT_BANNER_LINES \<le> us_banner_line u + 1\<rparr>
                else u))
        else Some ([], False, u) }
      else Some ([], False, u\<lparr>us_banner_done := False, us_banner_line := 0, us_line := []\<rparr>))"

section \<open>Response lines\<close>

type_synonym resp_lines = "string list"

definition resp_push :: "resp_lines \<Rightarrow> string list \<Rightarrow> resp_lines" where
  "resp_push out pieces = push_drop ECAT_RESP_LINES out (fst (write_pieces 96 [] pieces))"

definition al_state_name :: "u8 \<Rightarrow> string" where
  "al_state_name s =
     (let v = s AND al_MASK
      in if v = al_INIT then ''INIT'' else if v = al_PREOP then ''PREOP'' else if v = al_BOOT then ''BOOT''
         else if v = al_SAFEOP then ''SAFEOP'' else if v = al_OP then ''OP'' else ''?'')"

text \<open>The derived \<^verbatim>\<open>Debug\<close> of the errors without a text of their own.\<close>

fun ec_error_debug :: "ec_error \<Rightarrow> string" where
  "ec_error_debug WorkingCounter = ''WorkingCounter''"
| "ec_error_debug FrameTooShort = ''FrameTooShort''"
| "ec_error_debug SiiError = ''SiiError''"
| "ec_error_debug SiiTimeout = ''SiiTimeout''"
| "ec_error_debug TooManySlaves = ''TooManySlaves''"
| "ec_error_debug Transport = ''Transport''"
| "ec_error_debug MailboxProtocol = ''MailboxProtocol''"
| "ec_error_debug _ = []"

fun ecat_err_text :: "ec_error \<Rightarrow> string" where
  "ecat_err_text (SdoAbort c) = fst (write_pieces 64 [] (''SDO abort 0x'' # put_hex 8 (unat c)))"
| "ecat_err_text (StateChange c) = fst (write_pieces 64 [] (''AL status code 0x'' # put_hex 4 (unat c)))"
| "ecat_err_text NoSuchSlave = short_string 64 ''no such slave''"
| "ecat_err_text CoeUnsupported = short_string 64 ''slave has no CoE''"
| "ecat_err_text MailboxTimeout = short_string 64 ''mailbox timeout''"
| "ecat_err_text Timeout = short_string 64 ''timeout''"
| "ecat_err_text other = fst (write_pieces 64 [] [ec_error_debug other])"

definition slave_pieces :: "slave_info \<Rightarrow> string list" where
  "slave_pieces s =
     [''[ecat] slave ''] @ put_dec (unat (ring_pos s)) @ ['' station=''] @ put_dec (unat (station_addr s))
      @ ['' vid=0x''] @ put_hex 8 (unat (vendor_id s)) @ ['' pid=0x''] @ put_hex 8 (unat (product_code s))
      @ ['' al=0x''] @ put_hex 2 (unat (al_state s)) @ ['' coe='', if supports_coe s then ''yes'' else ''no'']"

definition ecat_format_slaves :: "slave_info list \<Rightarrow> resp_lines \<Rightarrow> resp_lines" where
  "ecat_format_slaves slaves out =
     foldl (\<lambda>out s. resp_push out (slave_pieces s))
       (resp_push out ([''[ecat] ''] @ put_dec (length slaves) @ ['' slave(s)''])) slaves"

definition reject_busy :: "resp_lines \<Rightarrow> resp_lines" where
  "reject_busy out = resp_push out [''[ecat] cyclic active; '' @ quoted ''stop'' @ '' before bus commands'']"

fun cyclic_phase_name :: "cyclic_phase \<Rightarrow> string" where
  "cyclic_phase_name Priming = ''priming''"
| "cyclic_phase_name RequestingOp = ''requesting-op''"
| "cyclic_phase_name Operational = ''OP''"
| "cyclic_phase_name Faulted = ''faulted''"

text \<open>\<^verbatim>\<open>for (row, chunk) in img.chunks(16).enumerate()\<close>\<close>

fun chunks :: "nat \<Rightarrow> bytes \<Rightarrow> bytes list" where
  "chunks n img = (if img = [] \<or> n = 0 then [] else take n img # chunks n (drop n img))"

declare chunks.simps [simp del]

definition dump_row :: "nat \<Rightarrow> bytes \<Rightarrow> string" where
  "dump_row row chunk =
     foldl (\<lambda>s b. fst (write_pieces 96 s ('' '' # put_hex 2 (unat b))))
       (fst (write_pieces 96 [] ([''[ecat] ''] @ put_hex 4 (row * 16) @ ['':'']))) chunk"

definition dump_image :: "resp_lines \<Rightarrow> bytes \<Rightarrow> resp_lines" where
  "dump_image out img =
     foldl (\<lambda>out (row, chunk). push_drop ECAT_RESP_LINES out (dump_row row chunk)) out (enumerate 0 (chunks 16 img))"

text \<open>\<^verbatim>\<open>{}\<close> of an \<^verbatim>\<open>i64\<close>.\<close>

definition put_int64 :: "u64 \<Rightarrow> string list" where
  "put_int64 v = (if sint v < 0 then [''-'', dec (nat (- sint v))] else [dec (nat (sint v))])"

definition not_running :: "resp_lines \<Rightarrow> resp_lines" where
  "not_running out = resp_push out [''[ecat] cyclic not running'']"

definition wkc_pieces :: "cyclic_status \<Rightarrow> string list" where
  "wkc_pieces st = put_dec (unat (st_wkc st)) @ [''/''] @ put_dec (unat (st_expected_wkc st))"

definition ecat_pd :: "u32 \<Rightarrow> master \<Rightarrow> resp_lines \<Rightarrow> string option \<Rightarrow> u64 option \<Rightarrow> (master \<times> resp_lines) option" where
  "ecat_pd core_hz m out pin v =
     (case pin of
        None \<Rightarrow> do {
          img \<leftarrow> master_cyclic_image m;
          Some (m, case (master_cyclic_status core_hz m, img) of
              (Some st, Some im) \<Rightarrow>
                dump_image (resp_push out ([''[ecat] cyclic '', cyclic_phase_name (st_phase st), '' wkc='']
                    @ wkc_pieces st @ ['' cycles=''] @ put_dec (unat (st_cycles st)))) (take (min (length im) 320) im)
            | _ \<Rightarrow> not_running out) }
      | Some name \<Rightarrow>
          (case hal_find name of
             None \<Rightarrow> Some (m, resp_push out [''[ecat] unknown pin '' @ [CHR 0x27], name, [CHR 0x27]])
           | Some p \<Rightarrow>
               (case v of
                  Some v \<Rightarrow> do {
                    m' \<leftarrow> master_image_mut m (\<lambda>im. Some (write_value im p v));
                    Some (m', if cyclic_active m
                              then resp_push out ([''[ecat] '', name, '' <= ''] @ put_int64 v) else not_running out) }
                | None \<Rightarrow> do {
                    img \<leftarrow> master_cyclic_image m;
                    Some (m, case img of
                        Some im \<Rightarrow>
                          (let v = read_value im p
                           in resp_push out ([''[ecat] '', name, '' = ''] @ put_int64 v @ ['' (0x'', hex (unat v), '')'']))
                      | None \<Rightarrow> not_running out) })))"

definition ecat_stats :: "u32 \<Rightarrow> master \<Rightarrow> resp_lines \<Rightarrow> resp_lines" where
  "ecat_stats core_hz m out =
     (case master_cyclic_status core_hz m of
        None \<Rightarrow> not_running out
      | Some st \<Rightarrow>
          (let out = resp_push out ([''[ecat] cyclic '', cyclic_phase_name (st_phase st), '' rate=''] @ put_dec (unat (st_rate_hz st))
                 @ [''Hz period=''] @ put_dec (unat (st_period_us st)) @ [''us cycles=''] @ put_dec (unat (st_cycles st)));
               out = resp_push out ([''[ecat] wkc=''] @ wkc_pieces st);
               out = resp_push out ([''[ecat] latency min=''] @ put_dec (unat (st_latency_min_ns st)) @ [''ns max='']
                 @ put_dec (unat (st_latency_max_ns st)) @ [''ns jitter=''] @ put_dec (unat (st_jitter_ns st))
                 @ [''ns (worst ''] @ put_dec (unat (st_latency_max_cyc st)) @ ['' cyc)''])
           in if st_dc_valid st
              then resp_push out ([''[ecat] dc-sync latest=''] @ put_int (st_dc_diff_ns st) @ [''ns max='']
                     @ put_int (st_dc_diff_max_ns st) @ [''ns''])
              else resp_push out [''[ecat] dc-sync n/a (no reading yet)'']))"

section \<open>The monitor\<close>

definition mon_line :: "cyclic_status \<Rightarrow> string" where
  "mon_line st =
     fst (write_pieces 96 [] ([''[mon] ''] @ put_dec (unat (st_rate_hz st)) @ [''Hz cyc=''] @ put_dec (unat (st_cycles st))
       @ ['' wkc=''] @ wkc_pieces st @ ['' jit=''] @ put_dec (unat (st_jitter_ns st)) @ [''ns dc='']
       @ put_int (st_dc_diff_ns st) @ [''ns'']))"

text \<open>\<open>running\<close> is the flag behind the one "stopped" line.\<close>

definition maybe_emit_monitor :: "u32 \<Rightarrow> master \<Rightarrow> ecat_out \<Rightarrow> bool \<Rightarrow> ecat_out \<times> bool" where
  "maybe_emit_monitor core_hz m out running =
     (case master_cyclic_status core_hz m of
        Some st \<Rightarrow>
          if out_pending out then (out, True) else (load_line (mon_line st), True)
      | None \<Rightarrow>
          if \<not> running then (out, running)
          else if out_pending out then (out, running)
          else (load_line (short_string 96 ''[mon] cyclic stopped''), False))"

section \<open>The host-bridge diagnostics\<close>

record host_snapshot =
  sn_has_host :: bool
  sn_frames_in :: u32
  sn_crc_errs :: u32
  sn_seq_errs :: u32
  sn_host_wdog :: u16
  sn_stall :: u16
  sn_teensy_wdog :: u16
  sn_motion_active :: bool
  sn_motion_depth :: nat
  sn_motion_underrun :: bool

definition take_snapshot :: "host_bridge \<Rightarrow> host_snapshot" where
  "take_snapshot h =
     \<lparr>sn_has_host = has_host h, sn_frames_in = hb_frames_in h, sn_crc_errs = hb_crc_errs h, sn_seq_errs = hb_seq_errs h,
      sn_host_wdog = hb_host_wdog h, sn_stall = hb_stall h, sn_teensy_wdog = hb_teensy_wdog h,
      sn_motion_active = host_motion_active h, sn_motion_depth = mr_len (hb_motion h),
      sn_motion_underrun = motion_underrun h\<rparr>"

definition host_lines :: "stream_layout \<Rightarrow> host_snapshot \<Rightarrow> resp_lines" where
  "host_lines lay s =
     (let line = (\<lambda>pieces. fst (write_pieces 96 [] pieces));
          out = [];
          out = push_drop ECAT_RESP_LINES out (line ([''[host] link='', if sn_has_host s then ''on'' else ''off'', '' frames='']
            @ put_dec (unat (sn_frames_in s)) @ ['' crc_err=''] @ put_dec (unat (sn_crc_errs s)) @ ['' seq_err='']
            @ put_dec (unat (sn_seq_errs s))));
          out = push_drop ECAT_RESP_LINES out (line ([''[host] host_wdog=''] @ put_dec (unat (sn_host_wdog s)) @ ['' stall='']
            @ put_dec (unat (sn_stall s)) @ ['' teensy_wdog=''] @ put_dec (unat (sn_teensy_wdog s))));
          out = push_drop ECAT_RESP_LINES out (line ([''[host] motion active=''] @ put_dec (of_bool (sn_motion_active s)) @ ['' depth='']
            @ put_dec (sn_motion_depth s) @ ['' underrun=''] @ put_dec (of_bool (sn_motion_underrun s))))
      in push_drop ECAT_RESP_LINES out (line ([''[host] frame mosi=''] @ put_dec (mosi_len lay) @ ['' miso=''] @ put_dec MISO_LEN
            @ ['' len=''] @ put_dec (frame_len lay))))"

section \<open>The crash report\<close>

definition CRASHLOG_MAGIC :: u32 where "CRASHLOG_MAGIC = 0xC0FFEE00"
definition CRASH_KIND_HARDFAULT :: u32 where "CRASH_KIND_HARDFAULT = 1"
definition CRASH_KIND_PANIC :: u32 where "CRASH_KIND_PANIC = 2"
definition CRASH_MSG_CAP :: nat where [simp]: "CRASH_MSG_CAP = 96"
definition FAULT_STACK_GUARD :: u32 where "FAULT_STACK_GUARD = 0x20000400"
definition CRASH_REPORT_LINES :: nat where [simp]: "CRASH_REPORT_LINES = 6"

record crash_log =
  cl_magic :: u32
  cl_kind :: u32
  cl_pc :: u32
  cl_lr :: u32
  cl_sp_frame :: u32
  cl_msp :: u32
  cl_r0 :: u32
  cl_r1 :: u32
  cl_r2 :: u32
  cl_r3 :: u32
  cl_r12 :: u32
  cl_xpsr :: u32
  cl_cfsr :: u32
  cl_hfsr :: u32
  cl_bfar :: u32
  cl_mmfar :: u32
  cl_msg_len :: u32
  cl_msg :: bytes

definition put_reg :: "string \<Rightarrow> u32 \<Rightarrow> string list" where
  "put_reg name v = (name @ ''=0x'') # put_hex 8 (unat v)"

text \<open>The pieces of \<^verbatim>\<open>write!\<close> are the literals up to each argument and the arguments; a name and the text around
  it are one literal.\<close>

definition crash_line :: "string list \<Rightarrow> string" where "crash_line pieces = fst (write_pieces 96 [] pieces)"

definition printable :: "u8 \<Rightarrow> char" where
  "printable b = (if 0x20 \<le> b \<and> b \<le> 0x7E then char_of (unat b) else CHR ''.'')"

definition fmt_crash_report :: "crash_log \<Rightarrow> resp_lines option" where
  "fmt_crash_report log =
     (let add = push_drop CRASH_REPORT_LINES
      in if cl_kind log = CRASH_KIND_HARDFAULT then
           let report = add [] (crash_line (put_reg ''[crash] HARDFAULT pc'' (cl_pc log) @ put_reg '' lr'' (cl_lr log)
                 @ put_reg '' frame_sp'' (cl_sp_frame log) @ put_reg '' msp'' (cl_msp log)));
               report = add report (crash_line (put_reg ''[crash] cfsr'' (cl_cfsr log) @ put_reg '' hfsr'' (cl_hfsr log)
                 @ put_reg '' bfar'' (cl_bfar log) @ put_reg '' mmfar'' (cl_mmfar log)));
               report = add report (crash_line (put_reg ''[crash] r0'' (cl_r0 log) @ put_reg '' r1'' (cl_r1 log)
                 @ put_reg '' r2'' (cl_r2 log) @ put_reg '' r3'' (cl_r3 log)));
               report = add report (crash_line (put_reg ''[crash] r12'' (cl_r12 log) @ put_reg '' xpsr'' (cl_xpsr log)))
           in Some (if cl_sp_frame log < FAULT_STACK_GUARD \<or> cl_msp log < FAULT_STACK_GUARD \<or>
                       (cl_bfar log \<noteq> 0 \<and> cl_bfar log < FAULT_STACK_GUARD)
                    then add report (crash_line ([''[crash] hint: SP/frame/BFAR below 0x''] @ put_hex 8 (unat FAULT_STACK_GUARD)
                      @ [''; suspect stack overflow'']))
                    else report)
         else if cl_kind log = CRASH_KIND_PANIC then do {
           msg \<leftarrow> slice (cl_msg log) 0 (min (unat (cl_msg_len log)) CRASH_MSG_CAP);
           Some (add [] (foldl (\<lambda>s b. push_drop 96 s (printable b)) (short_string 96 ''[crash] PANIC '') msg)) }
         else Some (add [] (crash_line ([''[crash] UNKNOWN kind=0x''] @ put_hex 8 (unat (cl_kind log))))))"

definition ecat_crashlog :: "crash_log \<Rightarrow> resp_lines \<Rightarrow> resp_lines option" where
  "ecat_crashlog log out =
     (if cl_magic log = CRASHLOG_MAGIC then do {
        report \<leftarrow> fmt_crash_report log;
        Some (foldl (\<lambda>out l. resp_push out [l]) out report) }
      else Some (resp_push out [''[crash] none recorded'']))"

text \<open>The panic handler: \<^verbatim>\<open>MsgSink\<close> keeps the first 96 bytes of the message.\<close>

definition panic_record :: "string \<Rightarrow> crash_log \<Rightarrow> crash_log" where
  "panic_record message log =
     (let sunk = take CRASH_MSG_CAP (as_bytes message)
      in log\<lparr>cl_magic := CRASHLOG_MAGIC, cl_kind := CRASH_KIND_PANIC,
             cl_msg := sunk @ drop (length sunk) (cl_msg log), cl_msg_len := of_nat (length sunk)\<rparr>)"


text \<open>The fault handler; \<open>frame\<close> are the stacked and status registers it reads.\<close>

definition hardfault_record :: "crash_log \<Rightarrow> crash_log \<Rightarrow> crash_log" where
  "hardfault_record frame log =
     frame\<lparr>cl_magic := CRASHLOG_MAGIC, cl_kind := CRASH_KIND_HARDFAULT, cl_msg_len := 0, cl_msg := cl_msg log\<rparr>"

section \<open>Running a command\<close>

text \<open>What the worker reaches: the master, the period timer and the crash record.\<close>

record firmware =
  fw_master :: master
  fw_pit :: pit
  fw_crash :: crash_log

text \<open>\<^verbatim>\<open>ecat_drive\<close>; \<open>env\<close> and \<open>n\<close> as in \<open>poll_until\<close>.\<close>

definition ecat_drive ::
    "(nat \<Rightarrow> master \<Rightarrow> master) \<Rightarrow> nat \<Rightarrow> master \<Rightarrow> master_request \<Rightarrow> (master \<times> outcome res option) option" where
  "ecat_drive env n m req =
     (let (m, r) = master_begin m req
      in case r of Inl e \<Rightarrow> Some (m, Some (Inl e)) | Inr _ \<Rightarrow> poll_until env n 0 m)"

definition push_error :: "resp_lines \<Rightarrow> ec_error \<Rightarrow> resp_lines" where
  "push_error out e = resp_push out [''[ecat] error: '', ecat_err_text e]"

definition unexpected :: "resp_lines \<Rightarrow> resp_lines" where
  "unexpected out = resp_push out [''[ecat] unexpected outcome'']"

text \<open>What is said of the result of a request.\<close>

definition rescan_lines :: "master \<Rightarrow> outcome res \<Rightarrow> resp_lines \<Rightarrow> resp_lines" where
  "rescan_lines m r out =
     (case r of
        Inr (Rescanned n) \<Rightarrow>
          ecat_format_slaves (ma_slaves m) (resp_push out ([''[ecat] rescan: ''] @ put_dec n @ ['' slave(s)'']))
      | Inr _ \<Rightarrow> unexpected out
      | Inl e \<Rightarrow> push_error out e)"

definition states_lines :: "u16 \<Rightarrow> outcome res \<Rightarrow> resp_lines \<Rightarrow> resp_lines" where
  "states_lines slave r out =
     (case r of
        Inr (StateReached s) \<Rightarrow>
          resp_push out ([''[ecat] slave ''] @ put_dec (unat slave) @ ['' -> '', al_state_name s])
      | Inr _ \<Rightarrow> unexpected out
      | Inl e \<Rightarrow> push_error out e)"

definition object_pieces :: "u16 \<Rightarrow> u16 \<Rightarrow> u8 \<Rightarrow> string list" where
  "object_pieces slave index subindex =
     [''[ecat] ''] @ put_dec (unat slave) @ ['':0x''] @ put_hex 4 (unat index) @ ['':''] @ put_hex 2 (unat subindex)"

definition upload_lines ::
    "master \<Rightarrow> u16 \<Rightarrow> u16 \<Rightarrow> u8 \<Rightarrow> sdo_type option \<Rightarrow> outcome res \<Rightarrow> resp_lines \<Rightarrow> resp_lines option" where
  "upload_lines m slave index subindex ty r out =
     (case r of
        Inr (SdoUploaded n) \<Rightarrow> do {
          b \<leftarrow> master_sdo_buf m;
          let k = min (length b) 4;
          buf \<leftarrow> copy_at (replicate 4 0) 0 k (take k b);
          Some (resp_push out (object_pieces slave index subindex @ ['' = '', format_value ty (take (min n 4) buf)])) }
      | Inr _ \<Rightarrow> Some (unexpected out)
      | Inl e \<Rightarrow> Some (push_error out e))"

definition download_lines :: "u16 \<Rightarrow> u16 \<Rightarrow> u8 \<Rightarrow> outcome res \<Rightarrow> resp_lines \<Rightarrow> resp_lines" where
  "download_lines slave index subindex r out =
     (case r of
        Inr SdoDownloaded \<Rightarrow> resp_push out (object_pieces slave index subindex @ ['' written''])
      | Inr _ \<Rightarrow> unexpected out
      | Inl e \<Rightarrow> push_error out e)"

definition status_lines :: "build_cfg \<Rightarrow> bool \<Rightarrow> master \<Rightarrow> resp_lines \<Rightarrow> resp_lines" where
  "status_lines bld link m out =
     (let out = resp_push out [''[ecat] fw '', fw_version bld, '' ('', fw_tag bld, '')''];
          out = resp_push out ([''[ecat] link='', if link then ''up'' else ''down'', '' slaves=''] @ put_dec (length (ma_slaves m)))
      in case master_cyclic_status (fw_core_hz bld) m of
           None \<Rightarrow> out
         | Some st \<Rightarrow> resp_push out ([''[ecat] cyclic '', cyclic_phase_name (st_phase st), '' ''] @ put_dec (unat (st_rate_hz st))
             @ [''Hz wkc=''] @ wkc_pieces st @ ['' cycles=''] @ put_dec (unat (st_cycles st))
             @ ['' ('' @ quoted ''stats'' @ '' for detail)'']))"

definition pin_pieces :: "pin_cfg \<Rightarrow> string list" where
  "pin_pieces p =
     [''[ecat] '', if is_output p then ''OUT'' else ''IN '', '' '', pin_name p, '' off=''] @ put_dec (unat (pin_byte_offset p))
      @ ['' bit=''] @ put_dec (unat (pin_bit_pos p)) @ ['' len=''] @ put_dec (unat (pin_bit_len p))"

definition HELP :: "string list" where
  "HELP = [
     ''[ecat] commands (IgH ethercat tool form):'',
     ''  slaves                                   list discovered slaves'',
     ''  status                                   firmware, link state, slave count'',
     ''  rescan                                   re-run the bus scan'',
     ''  states -p<pos> <INIT|PREOP|SAFEOP|OP>    request an AL state'',
     ''  upload -p<pos> -t<type> <idx> <sub>      SDO read (0x.. hex, else decimal)'',
     ''  download -p<pos> -t<type> <idx> <sub> <value>   SDO write'',
     ''  start [-p<pos>] [-r<hz>]                 configure + start cyclic PDO (50..8000 Hz)'',
     ''  stop                                     stop cyclic PDO'',
     ''  stats                                    cyclic rate, jitter, DC sync error'',
     ''  monitor [on|off]                         stream stats ~every 500ms (bare = toggle)'',
     ''  pdos                                     list process-data pins and offsets'',
     ''  pd [<pin> [<value>]]                     dump image / read pin / write pin'',
     ''  host                                     Pi/LinuxCNC SPI bridge diagnostics'',
     ''  crashlog                                 show the saved fault/panic context'',
     ''  crashclear                               clear the saved fault/panic context'',
     ''  types: bool int8 int16 int32 uint8 uint16 uint32'']"

text \<open>A request of a command: nothing is said while it is driven (\<open>None\<close>), then what \<open>say\<close> makes of its result.\<close>

definition drive_request ::
    "(nat \<Rightarrow> master \<Rightarrow> master) \<Rightarrow> nat \<Rightarrow> firmware \<Rightarrow> master_request \<Rightarrow>
       (firmware \<Rightarrow> outcome res \<Rightarrow> (firmware \<times> resp_lines) option) \<Rightarrow> (firmware \<times> resp_lines option) option" where
  "drive_request env n fw req say = do {
     (m, r) \<leftarrow> ecat_drive env n (fw_master fw) req;
     let fw = fw\<lparr>fw_master := m\<rparr>;
     case r of
       None \<Rightarrow> Some (fw, None)
     | Some r \<Rightarrow> do { (fw, out) \<leftarrow> say fw r; Some (fw, Some out) } }"

text \<open>The period of a start: the rate asked for, or the configured period.\<close>

definition start_cycle_ns :: "u32 option \<Rightarrow> u64 option" where
  "start_cycle_ns rate =
     (case rate of
        None \<Rightarrow> Some (bus_cycle_ns BUS)
      | Some hz \<Rightarrow> if hz = 0 then None else Some (1000000000 div ucast hz))"

definition start_done :: "u64 \<Rightarrow> firmware \<Rightarrow> outcome res \<Rightarrow> (firmware \<times> resp_lines) option" where
  "start_done ns fw r =
     (case r of
        Inr CyclicStarted \<Rightarrow> do {
          let (pit, load) = pit_configure ns (fw_pit fw);
          let pit = pit_start pit;
          hz \<leftarrow> actual_hz load;
          Some (fw\<lparr>fw_pit := pit\<rparr>,
            resp_push [] ([''[ecat] ''] @ put_dec (length (bus_slaves BUS)) @ ['' slave(s) configured; cyclic PDO started at '']
              @ put_dec (unat hz) @ ['' Hz''])) }
      | Inr _ \<Rightarrow> Some (fw, unexpected [])
      | Inl e \<Rightarrow> Some (fw, push_error [] e))"

text \<open>\<^verbatim>\<open>ecat_run_command\<close>; \<open>link\<close> is the PHY's link bit.\<close>

definition ecat_run_command ::
    "build_cfg \<Rightarrow> bool \<Rightarrow> (nat \<Rightarrow> master \<Rightarrow> master) \<Rightarrow> nat \<Rightarrow> firmware \<Rightarrow> cmd \<Rightarrow> (firmware \<times> resp_lines option) option" where
  "ecat_run_command bld link env n fw c =
     (let m = fw_master fw;
          busy = cyclic_active m;
          done = (\<lambda>out. Some (fw, Some out))
      in case c of
           CmdEmpty \<Rightarrow> done []
         | CmdHost \<Rightarrow> done []
         | CmdMonitor _ \<Rightarrow> done []
         | CmdHelp \<Rightarrow> done (foldl (\<lambda>out l. resp_push out [l]) [] HELP)
         | CmdError msg \<Rightarrow> done (resp_push [] [''[ecat] error: '', msg])
         | CmdSlaves \<Rightarrow> done (ecat_format_slaves (ma_slaves m) [])
         | CmdStatus \<Rightarrow> done (status_lines bld link m [])
         | CmdRescan \<Rightarrow>
             if busy then done (reject_busy [])
             else drive_request env n fw Rescan (\<lambda>fw r. Some (fw, rescan_lines (fw_master fw) r []))
         | CmdStates slave target \<Rightarrow>
             if busy then done (reject_busy [])
             else drive_request env n fw (SetState slave target) (\<lambda>fw r. Some (fw, states_lines slave r []))
         | CmdUpload slave index subindex ty \<Rightarrow>
             if busy then done (reject_busy [])
             else drive_request env n fw (SdoUpload slave index subindex)
               (\<lambda>fw r. do { out \<leftarrow> upload_lines (fw_master fw) slave index subindex ty r []; Some (fw, out) })
         | CmdDownload slave index subindex _ dat len \<Rightarrow>
             if busy then done (reject_busy [])
             else drive_request env n fw (SdoDownload slave index subindex dat len)
               (\<lambda>fw r. Some (fw, download_lines slave index subindex r []))
         | CmdStart _ rate \<Rightarrow>
             if busy then done (resp_push [] [''[ecat] cyclic already running; '' @ quoted ''stop'' @ '' first''])
             else do { ns \<leftarrow> start_cycle_ns rate; drive_request env n fw (StartCyclic ns) (start_done ns) }
         | CmdStop \<Rightarrow>
             drive_request env n (fw\<lparr>fw_pit := pit_stop (fw_pit fw)\<rparr>) StopCyclic
               (\<lambda>fw r. Some (fw, resp_push [] [''[ecat] cyclic PDO stopped'']))
         | CmdStats \<Rightarrow> done (ecat_stats (fw_core_hz bld) m [])
         | CmdPdos \<Rightarrow>
             done (foldl (\<lambda>out p. resp_push out (pin_pieces p))
               (resp_push [] ([''[ecat] ''] @ put_dec (length hal_all) @ ['' process-data pins:''])) hal_all)
         | CmdPd pin v \<Rightarrow> do { (m, out) \<leftarrow> ecat_pd (fw_core_hz bld) m [] pin v; Some (fw\<lparr>fw_master := m\<rparr>, Some out) }
         | CmdCrashlog \<Rightarrow> do { out \<leftarrow> ecat_crashlog (fw_crash fw) []; done out }
         | CmdCrashclear \<Rightarrow>
             Some (fw\<lparr>fw_crash := (fw_crash fw)\<lparr>cl_magic := 0\<rparr>\<rparr>, Some (resp_push [] [''[crash] cleared''])))"

section \<open>The worker\<close>

text \<open>\<^verbatim>\<open>run_rescan_traced\<close>: the lines it emits, in order; \<open>True\<close> when the scan is over.\<close>

definition rescan_result_line :: "outcome res \<Rightarrow> string" where
  "rescan_result_line r =
     fst (write_pieces 96 []
       (case r of
          Inr (Rescanned n) \<Rightarrow> [''[ecat] rescan complete: ''] @ put_dec n @ ['' slave(s); type '' @ quoted ''slaves'']
        | Inr _ \<Rightarrow> [''[ecat] unexpected outcome'']
        | Inl e \<Rightarrow> [''[ecat] error: '', ecat_err_text e]))"

fun rescan_poll ::
    "(nat \<Rightarrow> master \<Rightarrow> master) \<Rightarrow> nat \<Rightarrow> nat \<Rightarrow> master \<Rightarrow> (master \<times> string list \<times> bool) option" where
  "rescan_poll env 0 k m = Some (m, [], False)"
| "rescan_poll env (Suc n) k m = do {
     (m, res) \<leftarrow> poll_op (env k m);
     let (trace, m) = take_scan_trace m;
     let line = (case trace of None \<Rightarrow> [] | Some l \<Rightarrow> [l]);
     case res of
       None \<Rightarrow> do { (m, lines, fin) \<leftarrow> rescan_poll env n (k + 1) m; Some (m, line @ lines, fin) }
     | Some r \<Rightarrow> Some (m, line @ [rescan_result_line r], True) }"

definition run_rescan_traced ::
    "(nat \<Rightarrow> master \<Rightarrow> master) \<Rightarrow> nat \<Rightarrow> master \<Rightarrow> (master \<times> string list \<times> bool) option" where
  "run_rescan_traced env n m =
     (if cyclic_active m then
        Some (m, [''[ecat] cyclic active; '' @ quoted ''stop'' @ '' before bus commands''], True)
      else
        let (m, r) = master_begin m Rescan
        in case r of
             Inl e \<Rightarrow> Some (m, [fst (write_pieces 96 [] [''[ecat] error: '', ecat_err_text e])], True)
           | Inr _ \<Rightarrow> rescan_poll env n 0 m)"

definition MON_PERIOD_MS :: u32 where "MON_PERIOD_MS = 500"

record worker =
  wk_monitor_on :: bool
  wk_mon_running :: bool
  wk_last_mon :: u32

text \<open>What the worker publishes: lines emitted one by one as they come, or one response.\<close>

datatype reply_lines = Streamed "string list" | Response resp_lines

text \<open>One command taken from the slot, at the time \<open>now\<close>; the flag says whether it is done.\<close>

definition worker_command ::
    "build_cfg \<Rightarrow> bool \<Rightarrow> (nat \<Rightarrow> master \<Rightarrow> master) \<Rightarrow> nat \<Rightarrow> stream_layout \<Rightarrow> host_bridge \<Rightarrow> u32 \<Rightarrow>
       firmware \<times> worker \<Rightarrow> cmd \<Rightarrow> (firmware \<times> worker \<times> reply_lines option \<times> bool) option" where
  "worker_command bld link env n lay hb now = (\<lambda>(fw, wk) c.
     case c of
       CmdRescan \<Rightarrow> do {
         (m, lines, fin) \<leftarrow> run_rescan_traced env n (fw_master fw);
         Some (fw\<lparr>fw_master := m\<rparr>, wk, Some (Streamed lines), fin) }
     | CmdHost \<Rightarrow> Some (fw, wk, Some (Response (host_lines lay (take_snapshot hb))), True)
     | CmdMonitor mode \<Rightarrow>
         (let on = (case mode of MonOn \<Rightarrow> True | MonOff \<Rightarrow> False | MonToggle \<Rightarrow> \<not> wk_monitor_on wk)
          in Some (fw, wk\<lparr>wk_monitor_on := on, wk_last_mon := now\<rparr>,
               Some (Response (resp_push [] ([''[ecat] monitor '', if on then ''on'' else ''off'', '' (auto-stats ~'']
                 @ put_dec (unat MON_PERIOD_MS) @ [''ms)'']))), True))
     | _ \<Rightarrow> do {
         (fw, out) \<leftarrow> ecat_run_command bld link env n fw c;
         Some (fw, wk, map_option Response out, out \<noteq> None) })"

text \<open>The tail of the loop: the monitor line when it is due.\<close>

definition worker_monitor :: "u32 \<Rightarrow> u32 \<Rightarrow> master \<Rightarrow> worker \<Rightarrow> ecat_out \<Rightarrow> worker \<times> ecat_out" where
  "worker_monitor core_hz now m wk out =
     (if wk_monitor_on wk \<and> now - wk_last_mon wk \<ge> MON_PERIOD_MS then
        let (out, running) = maybe_emit_monitor core_hz m out (wk_mon_running wk)
        in (wk\<lparr>wk_last_mon := now, wk_mon_running := running\<rparr>, out)
      else (wk, out))"

end
