(* ===== verification/ConsoleRun.thy ===== *)
theory ConsoleRun
  imports Console
begin

text \<open>
  What the console does over a whole command: the result of a request is one of its kind, so the worker's
  "unexpected outcome" is never printed; the cyclic interrupt runs exactly while there is an engine; every
  command returns a response that fits the output buffer, and the interrupt delivers it once and in order.
\<close>

unbundle bit_operations_syntax

section \<open>Responses fit\<close>

definition resp_ok :: "resp_lines \<Rightarrow> bool" where
  "resp_ok out \<longleftrightarrow> length out \<le> 40 \<and> (\<forall>l \<in> set out. length l \<le> 96)"

named_theorems resp_intros \<open>responses that fit\<close>

lemma push_line_ok [resp_intros]: "resp_ok out \<Longrightarrow> length l \<le> 96 \<Longrightarrow> resp_ok (push_drop 40 out l)"
  by (auto simp: resp_ok_def push_drop_def vec_push_def)

lemma write_96 [resp_intros]: "length (fst (write_pieces 96 [] ps)) \<le> 96"
  by (rule write_pieces_bound) simp

lemma resp_push_ok [resp_intros]: "resp_ok out \<Longrightarrow> resp_ok (resp_push out ps)"
  unfolding resp_push_def ECAT_RESP_LINES_def by (intro resp_intros)

lemma resp_nil [resp_intros]: "resp_ok []"
  by (simp add: resp_ok_def)

lemma foldl_ok:
  "(\<And>out x. resp_ok out \<Longrightarrow> resp_ok (f out x)) \<Longrightarrow> resp_ok out \<Longrightarrow> resp_ok (foldl f out xs)"
  by (induction xs arbitrary: out) simp_all

lemma dump_row_length: "length (dump_row row chunk) \<le> 96"
proof -
  have "length s \<le> 96 \<Longrightarrow> length (foldl (\<lambda>s b. fst (write_pieces 96 s ('' '' # put_hex 2 (unat b)))) s chunk) \<le> 96" for s
    by (induction chunk arbitrary: s) (simp_all add: write_pieces_bound)
  then show ?thesis unfolding dump_row_def using write_96 by blast
qed

lemma dump_image_ok [resp_intros]: "resp_ok out \<Longrightarrow> resp_ok (dump_image out img)"
  unfolding dump_image_def ECAT_RESP_LINES_def
  by (rule foldl_ok) (auto intro!: resp_intros dump_row_length split: prod.split)

lemma format_slaves_ok [resp_intros]: "resp_ok out \<Longrightarrow> resp_ok (ecat_format_slaves ss out)"
  unfolding ecat_format_slaves_def by (intro foldl_ok resp_intros)

lemma small_lines_ok [resp_intros]:
  "resp_ok out \<Longrightarrow> resp_ok (push_error out e)" "resp_ok out \<Longrightarrow> resp_ok (unexpected out)"
  "resp_ok out \<Longrightarrow> resp_ok (reject_busy out)" "resp_ok out \<Longrightarrow> resp_ok (not_running out)"
  by (simp_all add: push_error_def unexpected_def reject_busy_def not_running_def resp_push_ok)

lemma result_lines_ok [resp_intros]:
  "resp_ok out \<Longrightarrow> resp_ok (rescan_lines m r out)" "resp_ok out \<Longrightarrow> resp_ok (states_lines slave r out)"
  "resp_ok out \<Longrightarrow> resp_ok (download_lines slave index subindex r out)"
  "resp_ok out \<Longrightarrow> resp_ok (status_lines bld link m out)" "resp_ok out \<Longrightarrow> resp_ok (ecat_stats hz m out)"
  unfolding rescan_lines_def states_lines_def download_lines_def status_lines_def ecat_stats_def Let_def
  by (auto split: sum.split outcome.split option.split intro!: resp_intros)

lemma host_lines_ok [resp_intros]: "resp_ok (host_lines lay s)"
  unfolding host_lines_def Let_def ECAT_RESP_LINES_def by (intro resp_intros)

section \<open>The output buffer\<close>

definition flat :: "string list \<Rightarrow> bytes" where
  "flat lines = concat (map (\<lambda>l. as_bytes l @ [13, 10]) lines)"

lemma length_flat: "(\<forall>l \<in> set lines. length l \<le> 96) \<Longrightarrow> length (flat lines) \<le> 98 * length lines"
  by (induction lines) (auto simp: flat_def as_bytes_def)

text \<open>Nothing of a response that fits is lost.\<close>

lemma set_lines_whole:
  assumes "resp_ok lines"
  shows "set_lines lines = \<lparr>eo_buf = flat lines, eo_cursor = 0\<rparr>"
proof -
  have "foldl (\<lambda>b l. buf_extend (buf_extend b (as_bytes l)) [13, 10]) b ls = b @ flat ls"
    if "length b + length (flat ls) \<le> 3920" for b ls
    using that
  proof (induction ls arbitrary: b)
    case (Cons l ls)
    have f: "flat (l # ls) = as_bytes l @ [13, 10] @ flat ls" by (simp add: flat_def)
    have "buf_extend (buf_extend b (as_bytes l)) [13, 10] = b @ as_bytes l @ [13, 10]"
      using Cons.prems by (simp add: f buf_extend_def ECAT_OUT_CAP_def)
    then show ?case using Cons.IH [of "b @ as_bytes l @ [13, 10]"] Cons.prems by (simp add: f)
  qed (simp add: flat_def)
  moreover have "length (flat lines) \<le> 3920" using length_flat assms by (force simp: resp_ok_def)
  ultimately show ?thesis by (simp add: set_lines_def)
qed

text \<open>The interrupt's visits to a pending response, with what the endpoint says each time.\<close>

fun usb_drains :: "write_result list \<Rightarrow> ecat_out \<Rightarrow> bytes \<times> ecat_out" where
  "usb_drains [] out = ([], out)"
| "usb_drains (r # rs) out = (let (sent, out) = usb_drain r out; (more, out) = usb_drains rs out in (sent @ more, out))"

definition out_wf :: "ecat_out \<Rightarrow> bool" where "out_wf out \<longleftrightarrow> eo_cursor out \<le> length (eo_buf out)"

lemma drain_split:
  assumes "out_wf out" "r \<noteq> WriteError" "usb_drain r out = (sent, out')"
  shows "out_wf out' \<and> out_remaining out = sent @ out_remaining out'"
proof (cases r)
  case Written
  let ?n = "min (length (out_remaining out)) 512"
  have "out_remaining (out_advance out ?n) = drop ?n (out_remaining out)"
    using assms(1) by (simp add: out_remaining_def out_advance_def out_wf_def min_def drop_drop add.commute)
  then show ?thesis
    using assms Written by (auto simp: usb_drain_def Let_def out_wf_def out_advance_def)
qed (use assms in \<open>auto simp: usb_drain_def Let_def\<close>)

lemma drains_split:
  assumes "out_wf out" "WriteError \<notin> set rs" "usb_drains rs out = (sent, out')"
  shows "out_wf out' \<and> out_remaining out = sent @ out_remaining out'"
  using assms
proof (induction rs arbitrary: out sent)
  case (Cons r rs)
  obtain s1 o1 where d: "usb_drain r out = (s1, o1)" by fastforce
  obtain s2 o2 where d2: "usb_drains rs o1 = (s2, o2)" by fastforce
  have "out_wf o1 \<and> out_remaining out = s1 @ out_remaining o1"
    using drain_split [OF Cons.prems(1) _ d] Cons.prems(2) by auto
  then show ?case using Cons.IH [of o1 s2] Cons.prems d d2 by auto
qed simp

section \<open>A request is answered in kind\<close>

fun outcome_of :: "master_request \<Rightarrow> outcome \<Rightarrow> bool" where
  "outcome_of Rescan (Rescanned _) = True"
| "outcome_of (SetState _ _) (StateReached _) = True"
| "outcome_of (SdoUpload _ _ _) (SdoUploaded _) = True"
| "outcome_of (SdoDownload _ _ _ _ _) SdoDownloaded = True"
| "outcome_of (StartCyclic _) CyclicStarted = True"
| "outcome_of StopCyclic CyclicStopped = True"
| "outcome_of _ _ = False"

fun op_of :: "master_request \<Rightarrow> op \<Rightarrow> bool" where
  "op_of Rescan (OpRescan _) = True"
| "op_of (SetState _ _) (OpState _) = True"
| "op_of (SdoUpload _ _ _) (OpSdo _ _ _ (SdoOpUpload _ _)) = True"
| "op_of (SdoDownload _ _ _ _ _) (OpSdo _ _ _ (SdoOpDownload _ _ _ _)) = True"
| "op_of (StartCyclic _) (OpStartCyclic _ _) = True"
| "op_of StopCyclic (OpStopCyclic _) = True"
| "op_of _ _ = False"

lemma outcome_of_cases:
  "outcome_of Rescan v \<longleftrightarrow> (\<exists>n. v = Rescanned n)"
  "outcome_of (SetState a b) v \<longleftrightarrow> (\<exists>s. v = StateReached s)"
  "outcome_of (SdoUpload a i j) v \<longleftrightarrow> (\<exists>n. v = SdoUploaded n)"
  "outcome_of (SdoDownload a i j d l) v \<longleftrightarrow> v = SdoDownloaded"
  "outcome_of (StartCyclic ns) v \<longleftrightarrow> v = CyclicStarted"
  "outcome_of StopCyclic v \<longleftrightarrow> v = CyclicStopped"
  by (cases v; simp)+

text \<open>Whether there is an engine after a result.\<close>

fun engine_after :: "bool \<Rightarrow> outcome option res \<Rightarrow> bool" where
  "engine_after on (Inr (Some CyclicStarted)) = True"
| "engine_after on (Inr (Some CyclicStopped)) = False"
| "engine_after on _ = on"

definition answered :: "master_request \<Rightarrow> master \<Rightarrow> (master \<times> op \<times> outcome option res) option \<Rightarrow> bool" where
  "answered r m t \<longleftrightarrow> (\<forall>m' p' out. t = Some (m', p', out) \<longrightarrow>
     op_of r p' \<and> (\<forall>v. out = Inr (Some v) \<longrightarrow> outcome_of r v) \<and> cyclic_active m' = engine_after (cyclic_active m) out)"

lemma update_state_cyclic [simp]: "ma_cyclic (update_state m station v) = ma_cyclic m"
  by (simp add: update_state_def)

lemma answers_rescan: "answered Rescan m (drive_rescan m f)"
proof (cases "scan_step f (ma_device m) (ma_index m)")
  case (Some t)
  then obtain f' d' ix' r where t: "scan_step f (ma_device m) (ma_index m) = Some (f', d', ix', r)" by (cases t) auto
  show ?thesis
    using t by (cases r) (auto simp: answered_def drive_rescan_def Let_def take_trace_def take_completed_slave_def
        cyclic_active_def split: option.splits)
qed (simp add: answered_def drive_rescan_def)

lemma answers_state: "answered (SetState a b) m (drive_state m p)"
proof (cases "pre_op_step p (ma_device m) (ma_index m)")
  case (Some t)
  then obtain q d' ix' r where t: "pre_op_step p (ma_device m) (ma_index m) = Some (q, d', ix', r)" by (cases t) auto
  show ?thesis
    using t by (cases r) (auto simp: answered_def drive_state_def Let_def cyclic_active_def)
qed (simp add: answered_def drive_state_def)

lemma answers_sdo_pre: "op_of r (OpSdo slave p None req) \<Longrightarrow> answered r m (drive_sdo_pre m slave p req)"
proof (cases "pre_op_step p (ma_device m) (ma_index m)")
  case (Some t)
  assume r: "op_of r (OpSdo slave p None req)"
  then have op: "op_of r (OpSdo slave q c req)" for q c by (cases r; cases req) simp_all
  obtain q d' ix' o' where t: "pre_op_step p (ma_device m) (ma_index m) = Some (q, d', ix', o')" using Some by (cases t) auto
  show ?thesis
    using t op by (cases o') (auto simp: answered_def drive_sdo_pre_def Let_def cyclic_active_def Option.bind_eq_Some_conv
        split: option.split_asm if_split_asm)
qed (simp add: answered_def drive_sdo_pre_def)

lemma answers_sdo_coe: "op_of r (OpSdo slave p (Some c) req) \<Longrightarrow> answered r m (drive_sdo_coe m slave p c req)"
proof (cases "coe_step c (ma_device m) (ma_index m)")
  case (Some t)
  assume r: "op_of r (OpSdo slave p (Some c) req)"
  then have op: "op_of r (OpSdo slave q c req)" for q c by (cases r; cases req) simp_all
  obtain q d' ix' o' where t: "coe_step c (ma_device m) (ma_index m) = Some (q, d', ix', o')" using Some by (cases t) auto
  show ?thesis
    using t op r by (cases o'; cases req; cases r)
      (auto simp: answered_def drive_sdo_coe_def Let_def cyclic_active_def Option.bind_eq_Some_conv split: if_split_asm)
qed (simp add: answered_def drive_sdo_coe_def)

lemma update_states_cyclic [simp]: "ma_cyclic (foldl (\<lambda>m cs. update_state m (cs_station cs) v) m ready) = ma_cyclic m"
  by (induction ready arbitrary: m) simp_all

lemma answers_start: "answered (StartCyclic ns) m (drive_start m q ns')"
proof (cases "config_seq_step (ma_slaves m) q (ma_device m) (ma_index m)")
  case (Some t)
  then obtain q' d' ix' r where t: "config_seq_step (ma_slaves m) q (ma_device m) (ma_index m) = Some (q', d', ix', r)"
    by (cases t) auto
  show ?thesis using t by (cases r) (auto simp: answered_def drive_start_def Let_def cyclic_active_def)
qed (simp add: answered_def drive_start_def)

lemma answers_stop: "answered StopCyclic m (drive_stop m q)"
  by (auto simp: answered_def drive_stop_def Let_def cyclic_active_def Option.bind_eq_Some_conv split: if_splits option.splits)

lemma drive_answers: "op_of r p \<Longrightarrow> answered r m (master_drive m p)"
proof (cases p)
  case (OpSdo slave po c req)
  assume "op_of r p"
  then show ?thesis using OpSdo answers_sdo_pre answers_sdo_coe by (cases c) simp_all
qed (cases r; simp add: answers_rescan answers_state answers_start answers_stop)+

lemma begin_op:
  assumes "master_begin m r = (m', Inr ())"
  shows "\<exists>p. ma_op m' = Some p \<and> op_of r p \<and> cyclic_active m' = cyclic_active m"
  using assms by (cases r) (auto simp: master_begin_def begin_sdo_def Let_def cyclic_active_def split: sum.splits if_splits)

lemma begin_refused:
  assumes "master_begin m r = (m', Inl e)"
  shows "m' = m"
  using assms by (cases r) (auto simp: master_begin_def Let_def split: sum.splits if_splits)

lemma env_engine:
  assumes "master_env m m'"
  shows "cyclic_active m' = cyclic_active m"
  using assms
  by cases (auto simp: cyclic_active_def master_cyclic_tick_def host_cycle_def master_image_mut_def take_scan_trace_def
      Option.bind_eq_Some_conv split: option.splits)

lemma env_star_engine: "master_env\<^sup>*\<^sup>* m m' \<Longrightarrow> cyclic_active m' = cyclic_active m"
  by (induction rule: rtranclp.induct) (auto dest: env_engine)

lemma poll_answers:
  assumes "ma_op m = Some p" "op_of r p" "poll_op m = Some (m', out)"
  shows "case out of
      None \<Rightarrow> (\<exists>q. ma_op m' = Some q \<and> op_of r q) \<and> cyclic_active m' = cyclic_active m
    | Some (Inl e) \<Rightarrow> cyclic_active m' = cyclic_active m
    | Some (Inr v) \<Rightarrow> outcome_of r v \<and> cyclic_active m' = engine_after (cyclic_active m) (Inr (Some v))"
proof -
  have act: "cyclic_active (m\<lparr>ma_op := x\<rparr>) = cyclic_active m" for m x by (simp add: cyclic_active_def)
  obtain m1 q o' where d: "master_drive (m\<lparr>ma_op := None\<rparr>) p = Some (m1, q, o')"
    using assms(1,3) by (cases "master_drive (m\<lparr>ma_op := None\<rparr>) p") (auto simp: poll_op_def)
  have ans: "op_of r q" "\<And>v. o' = Inr (Some v) \<Longrightarrow> outcome_of r v"
      "cyclic_active m1 = engine_after (cyclic_active m) o'"
    using drive_answers [OF assms(2), of "m\<lparr>ma_op := None\<rparr>"] d by (simp_all add: answered_def act)
  consider e where "o' = Inl e" | "o' = Inr None" | v where "o' = Inr (Some v)"
    by (metis option.exhaust sum.exhaust)
  then show ?thesis using assms(1,3) d ans by cases (auto simp: poll_op_def act)
qed

text \<open>Polled to its end.\<close>

lemma poll_until_answers:
  assumes "poll_until env n k m = Some (m', Some res)" "master_inv m" "ma_op m = Some p" "op_of r p"
    and "\<And>k m. master_env\<^sup>*\<^sup>* m (env k m)"
  shows "case res of
      Inl e \<Rightarrow> cyclic_active m' = cyclic_active m
    | Inr v \<Rightarrow> outcome_of r v \<and> cyclic_active m' = engine_after (cyclic_active m) (Inr (Some v))"
  using assms(1-4)
proof (induction n arbitrary: k m p)
  case 0
  then show ?case by simp
next
  case (Suc n)
  note e = env_star_inv [OF assms(5) [of m k] Suc.prems(2)] env_star_engine [OF assms(5) [of m k]]
  obtain m1 out where p: "poll_op (env k m) = Some (m1, out)"
    using Suc.prems(1) by (cases "poll_op (env k m)") auto
  have "ma_op (env k m) = Some p" using e(1) Suc.prems(3) by simp
  note a = poll_answers [OF this Suc.prems(4) p]
  show ?case
  proof (cases out)
    case None
    then obtain q where q: "ma_op m1 = Some q" "op_of r q" "cyclic_active m1 = cyclic_active m" using a e(2) by auto
    have "master_inv m1"
      by (rule poll_inv [of "env k m"]) (use e(1) p None Suc.prems(3) in auto)
    then show ?thesis using Suc.IH [of "k + 1" m1 q] Suc.prems(1) p None q by (cases res) simp_all
  next
    case (Some x)
    then show ?thesis using a Suc.prems(1) p e(2) by (auto split: sum.splits)
  qed
qed

section \<open>A command\<close>

definition console_inv :: "firmware \<Rightarrow> bool" where
  "console_inv fw \<longleftrightarrow> master_inv (fw_master fw) \<and> ma_op (fw_master fw) = None \<and>
     pit_on (fw_pit fw) = cyclic_active (fw_master fw) \<and> length (cl_msg (fw_crash fw)) = 96"

text \<open>The arguments of a parsed command.\<close>

fun command_ok :: "cmd \<Rightarrow> bool" where
  "command_ok (CmdDownload _ _ _ _ dat len) = (length dat = 4 \<and> unat len \<le> 4)"
| "command_ok (CmdStart _ (Some hz)) = (50 \<le> hz \<and> hz \<le> 8000)"
| "command_ok _ = True"

lemma cmd_err_ok [simp]: "command_ok (cmd_err msg)"
  by (simp add: cmd_err_def)

lemma set_option_ok:
  "set_position o' v = Inl e \<Longrightarrow> command_ok e" "set_rate o' v = Inl e \<Longrightarrow> command_ok e"
  "parse_attached o' t = Inl e \<Longrightarrow> command_ok e"
  by (auto simp: set_position_def set_rate_def parse_attached_def split: option.splits if_splits)

lemma parse_opts_loop_ok: "parse_opts_loop o' toks = Inl e \<Longrightarrow> command_ok e"
proof (induction "length toks" arbitrary: o' toks rule: less_induct)
  case less
  show ?case
  proof (cases toks)
    case Nil
    then show ?thesis using less.prems by simp
  next
    case (Cons t ts)
    have rest: "parse_opts_loop o' ts = Inl e \<Longrightarrow> command_ok e"
        "ts = v # ts' \<Longrightarrow> parse_opts_loop o' ts' = Inl e \<Longrightarrow> command_ok e" for o' v ts'
      using less.hyps [of ts o'] less.hyps [of ts' o'] Cons by (simp_all del: parse_opts_loop.simps)
    define c1 c2 c3 where c: "c1 \<longleftrightarrow> t = ''-p'' \<or> t = ''--position''" "c2 \<longleftrightarrow> t = ''-r'' \<or> t = ''--rate''"
      "c3 \<longleftrightarrow> t = ''-t'' \<or> t = ''--type''"
    note run = less.prems [unfolded Cons parse_opts_loop.simps(2), folded c]
    show ?thesis
    proof (cases ts)
      case Nil
      then show ?thesis using run by (auto split: if_split_asm sum.split_asm dest: rest(1) set_option_ok(3) simp del: parse_opts_loop.simps(2))
    next
      case (Cons v ts')
      note next_ok = rest(2) [OF Cons]
      show ?thesis using run unfolding Cons list.case
        by (auto split: if_split_asm sum.split_asm dest: next_ok rest(1) [unfolded Cons] set_option_ok
              simp del: parse_opts_loop.simps(2))
    qed
  qed
qed

lemma parse_opts_ok: "parse_opts toks = Inl e \<Longrightarrow> command_ok e"
  unfolding parse_opts_def by (rule parse_opts_loop_ok)

lemma find_type_size: "find_type name = Some t \<Longrightarrow> unat (ty_size t) \<le> 4"
proof -
  assume "find_type name = Some t"
  then have "t \<in> set TYPES" by (auto simp: find_type_def find_Some_iff in_set_conv_nth)
  then show ?thesis by (auto simp: TYPES_def)
qed

lemma sdo_command_ok:
  "command_ok (parse_sdo_command None slave ix sub args download)"
  "unat (ty_size t) \<le> 4 \<Longrightarrow> command_ok (parse_sdo_command (Some t) slave ix sub args download)"
  by (simp_all add: parse_sdo_command_def encode_value_def split: option.split)

lemma parse_sdo_ok: "command_ok (parse_sdo toks download)"
  unfolding parse_sdo_def
  using sdo_command_ok find_type_size parse_opts_ok
  by (simp split: sum.split option.split)

lemma parse_start_ok: "command_ok (parse_start toks)"
  unfolding parse_start_def Let_def RATE_MIN_HZ_def RATE_MAX_HZ_def
  using parse_opts_ok by (simp split: sum.split option.split)

lemma parse_states_ok: "command_ok (parse_states toks)"
  unfolding parse_states_def using parse_opts_ok by (simp split: sum.split option.split list.split)

lemma parse_monitor_ok: "command_ok (parse_monitor toks)"
  by (simp add: parse_monitor_def if_distrib [of command_ok] split: list.split)

lemma parse_pd_ok: "command_ok (parse_pd toks)"
  by (simp add: parse_pd_def split: list.split option.split)

lemma cmd_parse_ok: "cmd_parse line = Some c \<Longrightarrow> command_ok c"
proof -
  have "pred_option command_ok (cmd_parse line)"
    by (cases "idx (split_ws [] (trim line)) 0")
      (simp_all add: cmd_parse_def Let_def if_distrib [of "pred_option command_ok"] if_distrib [of command_ok]
        parse_sdo_ok parse_start_ok parse_states_ok parse_monitor_ok parse_pd_ok cong del: if_weak_cong)
  then show "cmd_parse line = Some c \<Longrightarrow> command_ok c" by simp
qed

text \<open>How long a command takes: polls of its request.\<close>

fun command_request :: "cmd \<Rightarrow> master_request option" where
  "command_request CmdRescan = Some Rescan"
| "command_request (CmdStates slave target) = Some (SetState slave target)"
| "command_request (CmdUpload slave ix sub _) = Some (SdoUpload slave ix sub)"
| "command_request (CmdDownload slave ix sub _ dat len) = Some (SdoDownload slave ix sub dat len)"
| "command_request (CmdStart _ rate) = map_option StartCyclic (start_cycle_ns rate)"
| "command_request CmdStop = Some StopCyclic"
| "command_request _ = None"

definition command_bound :: "master \<Rightarrow> cmd \<Rightarrow> nat" where
  "command_bound m c = (case command_request c of None \<Rightarrow> 0 | Some r \<Rightarrow> request_bound m r + 1)"

lemma drive_ends:
  assumes inv: "master_inv m" "ma_op m = None" and r: "request_ok r" and env: "\<And>k m. master_env\<^sup>*\<^sup>* m (env k m)"
    and n: "n = request_bound m r + 1"
  shows "\<exists>m' res. ecat_drive env n m r = Some (m', Some res) \<and> master_inv m' \<and> ma_op m' = None \<and>
     (case res of
        Inl e \<Rightarrow> cyclic_active m' = cyclic_active m
      | Inr v \<Rightarrow> outcome_of r v \<and> cyclic_active m' = engine_after (cyclic_active m) (Inr (Some v)))"
proof (cases "snd (master_begin m r)")
  case (Inl e)
  then have "master_begin m r = (m, Inl e)" using begin_refused by (metis prod.collapse)
  then show ?thesis using inv by (simp add: ecat_drive_def)
next
  case (Inr u)
  let ?m = "fst (master_begin m r)"
  have b: "master_begin m r = (?m, Inr ())" using Inr by (metis prod.collapse old.unit.exhaust)
  obtain p where p: "ma_op ?m = Some p" "op_left p \<le> request_bound m r" by (rule begin_left [OF b])
  obtain q where q: "ma_op ?m = Some q" "op_of r q" "cyclic_active ?m = cyclic_active m" using begin_op [OF b] by blast
  have i: "master_inv ?m" by (rule begin_inv [OF inv(1) r])
  have "op_left p < n" using p(2) n by simp
  then obtain m' res where run: "poll_until env n 0 ?m = Some (m', Some res)" "master_inv m'" "ma_op m' = None"
    using poll_until_ends [where env = env, OF i p(1) _ env] by blast
  have "ecat_drive env n m r = poll_until env n 0 ?m" unfolding ecat_drive_def by (subst b) simp
  then show ?thesis
    using run poll_until_answers [where env = env, OF run(1) i q(1,2) env] q(3) by (cases res) auto
qed

lemma stop_answer:
  assumes inv: "master_inv m" and env: "\<And>k m. master_env\<^sup>*\<^sup>* m (env k m)"
    and run: "ecat_drive env n m StopCyclic = Some (m', Some r)"
  shows "r = Inr CyclicStopped"
proof -
  let ?m = "fst (master_begin m StopCyclic)"
  have b: "master_begin m StopCyclic = (?m, Inr ())" by (simp add: master_begin_def Let_def)
  have q: "\<exists>q. ma_op ?m = Some (OpStopCyclic q)" by (simp add: master_begin_def Let_def)
  then obtain q where q: "ma_op ?m = Some (OpStopCyclic q)" by blast
  have i: "master_inv ?m" by (rule begin_inv [OF inv]) simp
  have "poll_until env n 0 ?m = Some (m', Some r)"
    using run unfolding ecat_drive_def by (subst (asm) b) simp
  from stop_until [where env = env, OF this q i env] show ?thesis by simp
qed

text \<open>The process image is there to be read and written while there is an engine.\<close>

lemma image_total:
  assumes "base_inv m"
  obtains "master_cyclic_image m = Some None" "ma_cyclic m = None"
  | img where "master_cyclic_image m = Some (Some img)" "ma_cyclic m \<noteq> None"
proof (cases "ma_cyclic m")
  case (Some c)
  then have "bridge_inv c (host_new LAYOUT)" using assms by (simp add: base_inv_def engine_ok_def)
  then have "domain_wf (cy_domain c)" by (simp add: bridge_inv_def cyclic_inv_def cyclic_wf_def)
  then show ?thesis using that Some by (simp add: master_cyclic_image_def domain_image_eq)
qed (use that in \<open>simp add: master_cyclic_image_def\<close>)

lemma pin_write_total:
  assumes "base_inv m"
  shows "\<exists>m'. master_image_mut m (\<lambda>im. Some (write_value im p v)) = Some m' \<and> base_inv m' \<and> ma_op m' = ma_op m \<and>
     ma_slaves m' = ma_slaves m \<and> cyclic_active m' = cyclic_active m"
proof -
  let ?f = "\<lambda>im. Some (write_value im p v)"
  have "master_image_mut m ?f \<noteq> None"
  proof (cases "ma_cyclic m")
    case (Some c)
    then have "bridge_inv c (host_new LAYOUT)" using assms by (simp add: base_inv_def engine_ok_def)
    then have "domain_wf (cy_domain c)" by (simp add: bridge_inv_def cyclic_inv_def cyclic_wf_def)
    then show ?thesis using Some
      by (simp add: master_image_mut_def domain_image_mut_def in_window_def domain_wf_def slice_def copy_at_def)
  qed (simp add: master_image_mut_def)
  then obtain m' where m': "master_image_mut m ?f = Some m'" by blast
  have "cyclic_active m' = cyclic_active m"
    using m' by (auto simp: master_image_mut_def cyclic_active_def Option.bind_eq_Some_conv split: option.splits)
  then show ?thesis using m' image_mut_kept [OF assms _ m'] by auto
qed

lemma pd_total:
  assumes "base_inv m" "resp_ok out"
  shows "\<exists>m' out'. ecat_pd hz m out pin v = Some (m', out') \<and> base_inv m' \<and> ma_op m' = ma_op m \<and>
     ma_slaves m' = ma_slaves m \<and> cyclic_active m' = cyclic_active m \<and> resp_ok out'"
proof (cases pin)
  case None
  have ok: "resp_ok (case (st, img) of
      (Some st, Some im) \<Rightarrow> dump_image (resp_push out (pieces st)) (f im) | _ \<Rightarrow> not_running out)" for st img pieces f
    using assms(2) by (auto intro!: resp_intros split: option.split)
  show ?thesis
    by (rule image_total [OF assms(1)])
      (use None assms ok in \<open>auto simp: ecat_pd_def intro!: resp_intros split: option.split\<close>)
next
  case (Some name)
  show ?thesis
  proof (cases "hal_find name")
    case None
    then show ?thesis using Some assms by (auto simp: ecat_pd_def intro: resp_intros)
  next
    case p: (Some q)
    show ?thesis
    proof (cases v)
      case None
      show ?thesis
        by (rule image_total [OF assms(1)])
          (use None Some p assms in \<open>auto simp: ecat_pd_def Let_def intro!: resp_intros\<close>)
    next
      case (Some x)
      show ?thesis
        using pin_write_total [OF assms(1), of q x] \<open>pin = Some name\<close> p Some assms(2)
        by (auto simp: ecat_pd_def intro!: resp_intros)
    qed
  qed
qed

lemma upload_total:
  assumes "base_inv m" "resp_ok out"
  shows "\<exists>out'. upload_lines m slave index subindex ty r out = Some out' \<and> resp_ok out'"
proof -
  obtain b where b: "master_sdo_buf m = Some b" "length b \<le> 4"
    using assms(1) by (auto simp: master_sdo_buf_def base_inv_def slice_def)
  show ?thesis
  proof (cases r)
    case (Inl e)
    then show ?thesis using assms by (auto simp: upload_lines_def intro: resp_intros)
  next
    case (Inr v)
    then show ?thesis
      using assms b by (cases v) (auto simp: upload_lines_def copy_at_def Let_def intro!: resp_intros)
  qed
qed

lemma crashlog_total:
  assumes "length (cl_msg log) = 96" "resp_ok out"
  shows "\<exists>out'. ecat_crashlog log out = Some out' \<and> resp_ok out'"
proof -
  have "\<exists>report. fmt_crash_report log = Some report"
    using assms(1) by (simp add: fmt_crash_report_def Let_def slice_def)
  then show ?thesis
    using assms(2) by (auto simp: ecat_crashlog_def intro!: foldl_ok resp_intros)
qed

text \<open>The rate of a started engine is one the timer can run at.\<close>

lemma start_rate_ok:
  assumes "command_ok (CmdStart p rate)"
  shows "\<exists>ns hz. start_cycle_ns rate = Some ns \<and> actual_hz (load_value ns) = Some hz"
proof (cases rate)
  case None
  have "actual_hz (load_value (bus_cycle_ns BUS)) \<noteq> None" by code_simp
  then show ?thesis using None by (auto simp: start_cycle_ns_def)
next
  case (Some hz)
  then have "50 \<le> hz" "hz \<le> 8000" using assms by simp_all
  then have "hz \<noteq> 0" by auto
  then show ?thesis
    using start_rate_realised [of hz] \<open>50 \<le> hz\<close> \<open>hz \<le> 8000\<close> Some by (auto simp: start_cycle_ns_def)
qed

text \<open>A command that is answered at once.\<close>

definition completes :: "firmware \<Rightarrow> (firmware \<times> resp_lines option) option \<Rightarrow> bool" where
  "completes fw t \<longleftrightarrow> (\<exists>fw' out. t = Some (fw', Some out) \<and> console_inv fw' \<and> resp_ok out)"

lemma finishes_same: "console_inv fw \<Longrightarrow> resp_ok out \<Longrightarrow> completes fw (Some (fw, Some out))"
  by (simp add: completes_def)

lemma console_base: "console_inv fw \<Longrightarrow> base_inv (fw_master fw)"
  by (simp add: console_inv_def master_inv_def)

text \<open>A command that drives a request, with what it says of the result.\<close>

lemma request_finishes:
  assumes inv: "console_inv fw" and r: "request_ok r" and env: "\<And>k m. master_env\<^sup>*\<^sup>* m (env k m)"
    and same: "fw0 = fw\<lparr>fw_pit := pit\<rparr>"
    and say: "\<And>m res. master_inv m \<Longrightarrow> ma_op m = None \<Longrightarrow>
      (case res of
         Inl e \<Rightarrow> cyclic_active m = cyclic_active (fw_master fw)
       | Inr v \<Rightarrow> outcome_of r v \<and> cyclic_active m = engine_after (cyclic_active (fw_master fw)) (Inr (Some v))) \<Longrightarrow>
      (r = StopCyclic \<Longrightarrow> res = Inr CyclicStopped) \<Longrightarrow>
      \<exists>fw' out. say (fw0\<lparr>fw_master := m\<rparr>) res = Some (fw', out) \<and> console_inv fw' \<and> resp_ok out"
  shows "completes fw (drive_request env (request_bound (fw_master fw) r + 1) fw0 r say)"
proof -
  have i: "master_inv (fw_master fw)" "ma_op (fw_master fw) = None" using inv by (simp_all add: console_inv_def)
  obtain m res where d: "ecat_drive env (request_bound (fw_master fw) r + 1) (fw_master fw) r = Some (m, Some res)"
      "master_inv m" "ma_op m = None"
      "case res of Inl e \<Rightarrow> cyclic_active m = cyclic_active (fw_master fw)
       | Inr v \<Rightarrow> outcome_of r v \<and> cyclic_active m = engine_after (cyclic_active (fw_master fw)) (Inr (Some v))"
    using drive_ends [where env = env, OF i r env refl] by blast
  have "r = StopCyclic \<Longrightarrow> res = Inr CyclicStopped"
    using stop_answer [where env = env, OF i(1) env] d(1) by blast
  from say [OF d(2-4) this] d(1) show ?thesis by (auto simp: completes_def drive_request_def same)
qed

lemma say_kept:
  assumes "console_inv fw" "master_inv m" "ma_op m = None" "cyclic_active m = cyclic_active (fw_master fw)"
  shows "console_inv (fw\<lparr>fw_master := m\<rparr>)"
  using assms by (simp add: console_inv_def)

lemma drive_report:
  assumes inv: "console_inv fw" and r: "request_ok r" "\<And>ns. r \<noteq> StartCyclic ns" "r \<noteq> StopCyclic"
    and env: "\<And>k m. master_env\<^sup>*\<^sup>* m (env k m)"
    and report: "\<And>m res. base_inv m \<Longrightarrow> \<exists>out. report m res = Some out \<and> resp_ok out"
  shows "completes fw (drive_request env (request_bound (fw_master fw) r + 1) fw r
    (\<lambda>fw res. do { out \<leftarrow> report (fw_master fw) res; Some (fw, out) }))"
proof (rule request_finishes [where env = env and pit = "fw_pit fw", OF inv r(1) env])
  fix m and res :: "outcome res"
  assume a: "master_inv m" "ma_op m = None"
    "case res of Inl e \<Rightarrow> cyclic_active m = cyclic_active (fw_master fw)
     | Inr v \<Rightarrow> outcome_of r v \<and> cyclic_active m = engine_after (cyclic_active (fw_master fw)) (Inr (Some v))"
  have "cyclic_active m = cyclic_active (fw_master fw)"
    using a(3) r by (cases res; cases r) (auto simp: outcome_of_cases)
  moreover obtain out where "report m res = Some out" "resp_ok out"
    using report [of m res] a(1) by (auto simp: master_inv_def)
  ultimately show "\<exists>fw' out. (do { out \<leftarrow> report (fw_master (fw\<lparr>fw_master := m\<rparr>)) res; Some (fw\<lparr>fw_master := m\<rparr>, out) }) =
      Some (fw', out) \<and> console_inv fw' \<and> resp_ok out"
    using say_kept [OF inv a(1,2)] by simp
qed simp_all

lemma start_finishes:
  assumes inv: "console_inv fw" and idle: "\<not> cyclic_active (fw_master fw)" and env: "\<And>k m. master_env\<^sup>*\<^sup>* m (env k m)"
    and hz: "actual_hz (load_value ns) = Some hz"
  shows "completes fw (drive_request env (request_bound (fw_master fw) (StartCyclic ns) + 1) fw (StartCyclic ns) (start_done ns))"
proof (rule request_finishes [where env = env, OF inv _ env])
  show "fw = fw\<lparr>fw_pit := fw_pit fw\<rparr>" by simp
next
  fix m and res :: "outcome res"
  assume a: "master_inv m" "ma_op m = None"
    "case res of Inl e \<Rightarrow> cyclic_active m = cyclic_active (fw_master fw)
     | Inr v \<Rightarrow> outcome_of (StartCyclic ns) v \<and> cyclic_active m = engine_after (cyclic_active (fw_master fw)) (Inr (Some v))"
  show "\<exists>fw' out. start_done ns (fw\<lparr>fw_master := m\<rparr>) res = Some (fw', out) \<and> console_inv fw' \<and> resp_ok out"
  proof (cases res)
    case (Inl e)
    then show ?thesis using a say_kept [OF inv a(1,2)] by (simp add: start_done_def resp_intros)
  next
    case (Inr v)
    then have "v = CyclicStarted" "cyclic_active m" using a(3) by (auto simp: outcome_of_cases)
    then show ?thesis
      using Inr a(1,2) inv hz
      by (simp add: start_done_def pit_configure_def pit_start_def Let_def console_inv_def resp_intros)
  qed
qed simp

lemma command_finishes:
  assumes inv: "console_inv fw" and ok: "command_ok c" and env: "\<And>k m. master_env\<^sup>*\<^sup>* m (env k m)"
  shows "completes fw (ecat_run_command bld link env (command_bound (fw_master fw) c) fw c)"
proof -
  note same = finishes_same [OF inv]
  note base = console_base [OF inv]
  note report = drive_report [where env = env, OF inv _ _ _ env]
  show ?thesis
  proof (cases c)
    case CmdRescan
    then show ?thesis
      using report [of Rescan "\<lambda>m res. Some (rescan_lines m res [])"] same
      by (simp add: ecat_run_command_def command_bound_def resp_intros)
  next
    case (CmdStates slave target)
    then show ?thesis
      using report [of "SetState slave target" "\<lambda>m res. Some (states_lines slave res [])"] same
      by (simp add: ecat_run_command_def command_bound_def resp_intros)
  next
    case (CmdUpload slave ix sub ty)
    then show ?thesis
      using report [of "SdoUpload slave ix sub" "\<lambda>m res. upload_lines m slave ix sub ty res []"] same
        upload_total [OF _ resp_nil]
      by (simp add: ecat_run_command_def command_bound_def resp_intros)
  next
    case (CmdDownload slave ix sub ty dat len)
    then show ?thesis
      using report [of "SdoDownload slave ix sub dat len" "\<lambda>m res. Some (download_lines slave ix sub res [])"] same ok
      by (simp add: ecat_run_command_def command_bound_def resp_intros)
  next
    case (CmdStart p rate)
    then obtain ns hz where ns: "start_cycle_ns rate = Some ns" "actual_hz (load_value ns) = Some hz"
      using start_rate_ok ok by blast
    show ?thesis
    proof (cases "cyclic_active (fw_master fw)")
      case True
      then show ?thesis using CmdStart same by (simp add: ecat_run_command_def resp_intros)
    next
      case False
      then show ?thesis
        using start_finishes [where env = env, OF inv False env ns(2)] CmdStart ns(1)
        by (simp add: ecat_run_command_def command_bound_def)
    qed
  next
    case CmdStop
    have "completes fw (drive_request env (request_bound (fw_master fw) StopCyclic + 1) (fw\<lparr>fw_pit := pit_stop (fw_pit fw)\<rparr>)
        StopCyclic (\<lambda>fw r. Some (fw, resp_push [] [''[ecat] cyclic PDO stopped''])))"
    proof (rule request_finishes [where env = env and pit = "pit_stop (fw_pit fw)", OF inv _ env])
      fix m and res :: "outcome res"
      assume a: "master_inv m" "ma_op m = None"
        "case res of Inl e \<Rightarrow> cyclic_active m = cyclic_active (fw_master fw)
         | Inr v \<Rightarrow> outcome_of StopCyclic v \<and> cyclic_active m = engine_after (cyclic_active (fw_master fw)) (Inr (Some v))"
        "StopCyclic = StopCyclic \<Longrightarrow> res = Inr CyclicStopped"
      then have "\<not> cyclic_active m" by simp
      then have "console_inv (fw\<lparr>fw_pit := pit_stop (fw_pit fw), fw_master := m\<rparr>)"
        using inv a(1,2) by (simp add: console_inv_def pit_stop_def)
      then show "\<exists>fw' out. Some (fw\<lparr>fw_pit := pit_stop (fw_pit fw), fw_master := m\<rparr>,
          resp_push [] [''[ecat] cyclic PDO stopped'']) = Some (fw', out) \<and> console_inv fw' \<and> resp_ok out"
        using resp_push_ok [OF resp_nil] by blast
    qed simp_all
    then show ?thesis using CmdStop by (simp add: ecat_run_command_def command_bound_def)
  next
    case (CmdPd pin v)
    obtain m out where "ecat_pd (fw_core_hz bld) (fw_master fw) [] pin v = Some (m, out)" "base_inv m"
        "ma_op m = ma_op (fw_master fw)" "cyclic_active m = cyclic_active (fw_master fw)" "resp_ok out"
      using pd_total [OF base resp_nil] by blast
    then show ?thesis
      using CmdPd inv by (simp add: ecat_run_command_def completes_def console_inv_def master_inv_def)
  next
    case CmdCrashlog
    then show ?thesis
      using crashlog_total [of "fw_crash fw" "[]"] inv same
      by (auto simp: ecat_run_command_def console_inv_def resp_intros)
  next
    case CmdCrashclear
    then show ?thesis
      using inv by (simp add: ecat_run_command_def completes_def console_inv_def resp_intros)
  qed (use same in \<open>simp_all add: ecat_run_command_def resp_intros foldl_ok\<close>)
qed

section \<open>The worker\<close>

lemma trace_kept:
  "master_inv (snd (take_scan_trace m)) = master_inv m" "ma_op (snd (take_scan_trace m)) = ma_op m"
  "cyclic_active (snd (take_scan_trace m)) = cyclic_active m"
  by (simp_all add: take_scan_trace_def master_inv_def base_inv_def cyclic_active_def)

lemma rescan_poll_ends:
  assumes "master_inv m" "ma_op m = Some p" "op_of Rescan p" "op_left p < n" "\<And>k m. master_env\<^sup>*\<^sup>* m (env k m)"
  shows "\<exists>m' lines. rescan_poll env n k m = Some (m', lines, True) \<and> master_inv m' \<and> ma_op m' = None \<and>
     cyclic_active m' = cyclic_active m"
  using assms(1-4)
proof (induction n arbitrary: k m p)
  case 0
  then show ?case by simp
next
  case (Suc n)
  have e: "master_inv (env k m)" "ma_op (env k m) = Some p" "cyclic_active (env k m) = cyclic_active m"
    using env_star_inv [OF assms(5) [of m k] Suc.prems(1)] env_star_engine [OF assms(5) [of m k]] Suc.prems(2) by simp_all
  from e(1) show ?case
  proof (rule poll_inv)
    fix p' m1 q
    assume a: "ma_op (env k m) = Some p'" "poll_op (env k m) = Some (m1, None)" "master_inv m1"
      "ma_op m1 = Some q" "op_left q < op_left p'"
    have q: "op_of Rescan q" "cyclic_active m1 = cyclic_active m"
      using poll_answers [OF e(2) Suc.prems(3) a(2)] a(4) e(3) by simp_all
    have "op_left q < n" using a(1,5) e(2) Suc.prems(4) by simp
    then show ?thesis
      using Suc.IH [of "snd (take_scan_trace m1)" q "k + 1"] a(2,3,4) q
      by (auto simp: trace_kept case_prod_beta Let_def)
  next
    fix m1 r
    assume a: "poll_op (env k m) = Some (m1, Some r)" "master_inv m1" "ma_op m1 = None"
    have "cyclic_active m1 = cyclic_active m"
      using poll_answers [OF e(2) Suc.prems(3) a(1)] e(3) by (cases r) (auto simp: outcome_of_cases)
    then show ?thesis using a by (simp add: case_prod_beta Let_def trace_kept)
  qed (use e(2) in simp)
qed

definition busy_refused :: "cmd \<Rightarrow> bool" where
  "busy_refused c \<longleftrightarrow> c \<noteq> CmdStop \<and> command_request c \<noteq> None"

lemma worker_finishes:
  assumes inv: "console_inv fw" and ok: "command_ok c" and env: "\<And>k m. master_env\<^sup>*\<^sup>* m (env k m)"
  shows "\<exists>fw' wk' rep.
    worker_command bld link env (command_bound (fw_master fw) c) lay hb now (fw, wk) c = Some (fw', wk', Some rep, True) \<and>
    console_inv fw' \<and> (case rep of Streamed lines \<Rightarrow> c = CmdRescan | Response out \<Rightarrow> resp_ok out) \<and>
    (cyclic_active (fw_master fw) \<and> busy_refused c \<longrightarrow> fw' = fw)"
proof -
  let ?n = "command_bound (fw_master fw) c"
  consider "c = CmdRescan" | "c = CmdHost" | mode where "c = CmdMonitor mode"
    | "c \<noteq> CmdRescan" "c \<noteq> CmdHost" "\<forall>mode. c \<noteq> CmdMonitor mode" by blast
  then show ?thesis
  proof cases
    case 1
    show ?thesis
    proof (cases "cyclic_active (fw_master fw)")
      case True
      then show ?thesis using 1 inv by (simp add: worker_command_def run_rescan_traced_def)
    next
      case False
      let ?m = "fst (master_begin (fw_master fw) Rescan)"
      have i: "master_inv (fw_master fw)" using inv by (simp add: console_inv_def)
      have b: "master_begin (fw_master fw) Rescan = (?m, Inr ())" by (simp add: master_begin_def)
      obtain p where p: "ma_op ?m = Some p" "op_left p \<le> request_bound (fw_master fw) Rescan" by (rule begin_left [OF b])
      then have q: "op_of Rescan p" "cyclic_active ?m = cyclic_active (fw_master fw)" using begin_op [OF b] by auto
      have "op_left p < ?n" using p(2) 1 by (simp add: command_bound_def)
      moreover have "master_inv ?m" by (rule begin_inv [OF i]) simp
      ultimately obtain m lines where
        "rescan_poll env ?n 0 ?m = Some (m, lines, True)" "master_inv m" "ma_op m = None" "cyclic_active m = cyclic_active ?m"
        using rescan_poll_ends [where env = env, OF _ p(1) q(1) _ env] by blast
      moreover have "run_rescan_traced env ?n (fw_master fw) = rescan_poll env ?n 0 ?m"
        unfolding run_rescan_traced_def using False by (subst b) simp
      ultimately show ?thesis
        using 1 inv q(2) False by (simp add: worker_command_def console_inv_def)
    qed
  next
    case 2
    then show ?thesis using inv by (simp add: worker_command_def host_lines_ok busy_refused_def)
  next
    case 3
    then show ?thesis using inv by (simp add: worker_command_def resp_intros Let_def)
  next
    case 4
    obtain fw' out where r: "ecat_run_command bld link env ?n fw c = Some (fw', Some out)" "console_inv fw'" "resp_ok out"
      using command_finishes [where env = env, OF inv ok env] unfolding completes_def by blast
    have "worker_command bld link env ?n lay hb now (fw, wk) c = Some (fw', wk, Some (Response out), True)"
      using r(1) 4 by (cases c) (simp_all add: worker_command_def)
    moreover have "fw' = fw" if "cyclic_active (fw_master fw)" "busy_refused c"
      using that r(1) by (cases c) (auto simp: ecat_run_command_def busy_refused_def)
    ultimately show ?thesis using r(2,3) by simp
  qed
qed

text \<open>A line typed on the terminal reaches the command slot.\<close>

definition printable_text :: "string \<Rightarrow> bool" where
  "printable_text s \<longleftrightarrow> list_all (\<lambda>c. 0x20 \<le> (of_char c :: nat) \<and> (of_char c :: nat) \<le> 0x7E) s"

lemma unat_of_char [simp]: "unat (of_char c :: u8) = of_char c"
proof -
  have "(of_char c :: u8) = of_nat (of_char c)" by (metis of_nat_of_char)
  moreover have "of_char c < (256 :: nat)" by (metis char_of_mod_256 mod_less_divisor of_char_of of_char_mod_256 zero_less_numeral)
  ultimately show ?thesis by (simp add: unat_of_nat)
qed

lemma edit_printable:
  assumes "0x20 \<le> (of_char c :: nat)" "(of_char c :: nat) \<le> 0x7E" "length (us_line u) < 128"
  shows "edit_byte u (of_char c) = Some (u\<lparr>us_line := us_line u @ [c]\<rparr>)"
proof -
  let ?b = "of_char c :: u8"
  have "?b \<noteq> 13" "?b \<noteq> 10" "?b \<noteq> 8" "?b \<noteq> 0x7F"
    using assms(1,2) by (auto dest!: arg_cong [where f = unat])
  moreover have "0x20 \<le> ?b" "?b \<le> 0x7E" using assms(1,2) by (simp_all add: word_le_nat_alt)
  ultimately show ?thesis using assms(3) by (simp add: edit_byte_def push_drop_room)
qed

lemma edit_text:
  assumes "printable_text s" "length (us_line u) + length s \<le> 128"
  shows "edit_bytes u (as_bytes s @ bs) = edit_bytes (u\<lparr>us_line := us_line u @ s\<rparr>) bs"
  using assms
proof (induction s arbitrary: u)
  case (Cons c s)
  then show ?case
    using edit_printable [of c u] Cons.IH [of "u\<lparr>us_line := us_line u @ [c]\<rparr>"]
    by (simp add: printable_text_def as_bytes_def)
qed (simp add: as_bytes_def)

lemma edit_line:
  assumes "printable_text s" "s \<noteq> []" "length s \<le> 128" "us_line u = []" "us_cmd u = None" "cmd_parse s = Some c"
  shows "edit_bytes u (as_bytes s @ [13]) = Some (u\<lparr>us_line := [], us_cmd := Some c\<rparr>)"
  using edit_text [of s u "[13]"] assms by (simp add: edit_byte_def)

text \<open>The monitor never overwrites a response in flight.\<close>

lemma monitor_spares_reply:
  "out_pending out \<Longrightarrow> snd (worker_monitor hz now m wk out) = out"
  by (simp add: worker_monitor_def maybe_emit_monitor_def split: option.split)

end
