(* ===== verification/Spi.thy ===== *)
theory Spi
  imports Host
begin

text \<open>
  The SPI peripheral that talks to the host, \<^verbatim>\<open>src/src/board/host_spi.rs\<close>, and its interrupt task
  \<^verbatim>\<open>host_spi_task\<close> of \<^verbatim>\<open>src/src/main.rs\<close>. The state of the driver is the record \<open>host_spi\<close>; the registers
  it touches are the record \<open>lpspi\<close>: the received words, the words queued for transmission and the error
  flags. The controller clocks one byte at a time; how the FIFOs follow is the parameter \<open>clk\<close>. A service of the interrupt is atomic; bytes that arrive during one
  are bytes that arrive after it. Pad multiplexing is register access and not modelled.
\<close>

section \<open>Registers\<close>

definition HOST_SPI_MAX_FRAME :: nat where "HOST_SPI_MAX_FRAME = 600"
definition FIFO_DEPTH :: nat where [simp]: "FIFO_DEPTH = 16"

record lpspi =
  lp_rx :: bytes
  lp_tx :: bytes
  lp_tef :: bool
  lp_ref :: bool

definition lpspi_reset :: lpspi where
  "lpspi_reset = \<lparr>lp_rx = [], lp_tx = [], lp_tef = False, lp_ref = False\<rparr>"

text \<open>\<^verbatim>\<open>RTF\<close> and \<^verbatim>\<open>RRF\<close>.\<close>

definition flush_fifos :: "lpspi \<Rightarrow> lpspi" where "flush_fifos l = l\<lparr>lp_rx := [], lp_tx := []\<rparr>"

text \<open>What the peripheral does when the controller clocks a byte is a parameter; the second result is the byte
  the controller reads. All that is used of it is its documented FIFO behaviour while the receive FIFO has
  room and the transmit FIFO has a byte: the byte joins the one and the head of the other goes out.\<close>

type_synonym clocking = "u8 \<Rightarrow> lpspi \<Rightarrow> lpspi \<times> u8"

definition fifo_clock :: "clocking \<Rightarrow> bool" where
  "fifo_clock clk \<longleftrightarrow> (\<forall>b l. length (lp_rx l) < FIFO_DEPTH \<and> lp_tx l \<noteq> [] \<longrightarrow>
     clk b l = (l\<lparr>lp_rx := lp_rx l @ [b], lp_tx := tl (lp_tx l)\<rparr>, hd (lp_tx l)))"

section \<open>The driver\<close>

record host_spi =
  hs_frame_len :: nat
  hs_rx :: bytes
  hs_rx_idx :: nat
  hs_tx :: bytes
  hs_tx_idx :: nat
  hs_next_tx :: bytes

datatype service_event = Pending | FrameComplete

definition push_tx_word :: "host_spi \<times> lpspi \<Rightarrow> (host_spi \<times> lpspi) option" where
  "push_tx_word = (\<lambda>(h, l).
     if hs_tx_idx h \<ge> hs_frame_len h then Some (h, l)
     else if length (lp_tx l) \<ge> FIFO_DEPTH then Some (h, l)
     else do {
       b \<leftarrow> idx (hs_tx h) (hs_tx_idx h);
       Some (h\<lparr>hs_tx_idx := hs_tx_idx h + 1\<rparr>, l\<lparr>lp_tx := lp_tx l @ [b]\<rparr>) })"

text \<open>\<open>n\<close> bounds the iterations of the \<^verbatim>\<open>while\<close> loop of \<^verbatim>\<open>reload_tx_fifo\<close>, each of which queues a byte.\<close>

fun reload_loop :: "nat \<Rightarrow> host_spi \<times> lpspi \<Rightarrow> (host_spi \<times> lpspi) option" where
  "reload_loop 0 s = Some s"
| "reload_loop (Suc n) (h, l) =
     (if hs_tx_idx h < hs_frame_len h then
        if length (lp_tx l) \<ge> FIFO_DEPTH then Some (h, l)
        else do { s \<leftarrow> push_tx_word (h, l); reload_loop n s }
      else Some (h, l))"

definition reload_tx_fifo :: "host_spi \<times> lpspi \<Rightarrow> (host_spi \<times> lpspi) option" where
  "reload_tx_fifo s = reload_loop (Suc FIFO_DEPTH) s"

definition host_spi_new :: "nat \<Rightarrow> (host_spi \<times> lpspi) option" where
  "host_spi_new n =
     reload_tx_fifo
       (\<lparr>hs_frame_len = min n HOST_SPI_MAX_FRAME, hs_rx = replicate HOST_SPI_MAX_FRAME 0, hs_rx_idx = 0,
         hs_tx = replicate HOST_SPI_MAX_FRAME 0, hs_tx_idx = 0, hs_next_tx = replicate HOST_SPI_MAX_FRAME 0\<rparr>,
        lpspi_reset)"

definition set_next_tx :: "host_spi \<Rightarrow> bytes \<Rightarrow> host_spi option" where
  "set_next_tx h frame = do {
     let n = min (length frame) (hs_frame_len h);
     src \<leftarrow> slice frame 0 n;
     next \<leftarrow> copy_at (hs_next_tx h) 0 n src;
     next \<leftarrow> copy_at next n (hs_frame_len h) (replicate (hs_frame_len h - n) 0);
     Some (h\<lparr>hs_next_tx := next\<rparr>) }"

definition rx_frame :: "host_spi \<Rightarrow> bytes option" where
  "rx_frame h = slice (hs_rx h) 0 (hs_frame_len h)"

definition restart_frame :: "host_spi \<times> lpspi \<Rightarrow> (host_spi \<times> lpspi) option" where
  "restart_frame = (\<lambda>(h, l). reload_tx_fifo (h\<lparr>hs_rx_idx := 0, hs_tx_idx := 0\<rparr>, flush_fifos l))"

text \<open>The drain loop, over the words in the receive FIFO.\<close>

fun drain :: "bytes \<Rightarrow> host_spi \<times> lpspi \<Rightarrow> (host_spi \<times> lpspi \<times> bool) option" where
  "drain [] (h, l) = Some (h, l, False)"
| "drain (word # ws) (h, l) = do {
     let l = l\<lparr>lp_rx := ws\<rparr>;
     h \<leftarrow> (if hs_rx_idx h < hs_frame_len h then do {
             rx \<leftarrow> put (hs_rx h) (hs_rx_idx h) word;
             Some (h\<lparr>hs_rx := rx, hs_rx_idx := hs_rx_idx h + 1\<rparr>) }
           else Some h);
     (h, l) \<leftarrow> push_tx_word (h, l);
     if hs_rx_idx h \<ge> hs_frame_len h then Some (h, l, True) else drain ws (h, l) }"

definition service :: "host_spi \<times> lpspi \<Rightarrow> (host_spi \<times> lpspi \<times> service_event) option" where
  "service = (\<lambda>(h, l).
     if lp_tef l \<or> lp_ref l then do {
       (h, l) \<leftarrow> restart_frame (h, l\<lparr>lp_tef := False, lp_ref := False\<rparr>);
       Some (h, l, Pending) }
     else do {
       (h, l, completed) \<leftarrow> drain (lp_rx l) (h, l);
       Some (h, l, if completed then FrameComplete else Pending) })"

definition begin_next_frame :: "host_spi \<times> lpspi \<Rightarrow> (host_spi \<times> lpspi) option" where
  "begin_next_frame = (\<lambda>(h, l). do {
     src \<leftarrow> slice (hs_next_tx h) 0 (hs_frame_len h);
     tx \<leftarrow> copy_at (hs_tx h) 0 (hs_frame_len h) src;
     reload_tx_fifo (h\<lparr>hs_tx := tx, hs_rx_idx := 0, hs_tx_idx := 0\<rparr>, flush_fifos l) })"

section \<open>The interrupt task\<close>

text \<open>The strobe is the level of the \<^verbatim>\<open>FRAME_READY\<close> line.\<close>

record spi_task =
  sp_dev :: host_spi
  sp_regs :: lpspi
  sp_bridge :: host_bridge
  sp_ready :: bool

definition host_spi_task :: "stream_layout \<Rightarrow> spi_task \<Rightarrow> spi_task option" where
  "host_spi_task lay t = do {
     (h, l, ev) \<leftarrow> service (sp_dev t, sp_regs t);
     if ev \<noteq> FrameComplete then Some (t\<lparr>sp_dev := h, sp_regs := l\<rparr>)
     else do {
       frame \<leftarrow> rx_frame h;
       hb \<leftarrow> host_ingest lay (sp_bridge t) frame;
       r \<leftarrow> host_reply hb;
       reply \<leftarrow> copy_at (replicate (frame_len lay) 0) 0 (length r) r;
       h \<leftarrow> set_next_tx h reply;
       (h, l) \<leftarrow> begin_next_frame (h, l);
       Some \<lparr>sp_dev = h, sp_regs = l, sp_bridge = hb, sp_ready = \<not> sp_ready t\<rparr> } }"

text \<open>What happens to the port and its bridge: the controller clocks a byte, the interrupt runs, or the cyclic
  interrupt changes the bridge (its watchdog, its outputs, the staged reply).\<close>

datatype spi_event = Clock u8 | Irq | Engine "host_bridge \<Rightarrow> host_bridge"

fun spi_run :: "clocking \<Rightarrow> stream_layout \<Rightarrow> spi_event list \<Rightarrow> spi_task \<Rightarrow> (spi_task \<times> bytes) option" where
  "spi_run clk lay [] t = Some (t, [])"
| "spi_run clk lay (Clock b # evs) t = do {
     let (l, out) = clk b (sp_regs t);
     (t, miso) \<leftarrow> spi_run clk lay evs (t\<lparr>sp_regs := l\<rparr>);
     Some (t, out # miso) }"
| "spi_run clk lay (Irq # evs) t = do { t \<leftarrow> host_spi_task lay t; spi_run clk lay evs t }"
| "spi_run clk lay (Engine g # evs) t = spi_run clk lay evs (t\<lparr>sp_bridge := g (sp_bridge t)\<rparr>)"

fun clocked :: "spi_event list \<Rightarrow> bytes" where
  "clocked [] = []"
| "clocked (Clock b # evs) = b # clocked evs"
| "clocked (Irq # evs) = clocked evs"
| "clocked (Engine g # evs) = clocked evs"

text \<open>What the cyclic interrupt made of the bridge.\<close>

fun engine_of :: "spi_event list \<Rightarrow> host_bridge \<Rightarrow> host_bridge" where
  "engine_of [] hb = hb"
| "engine_of (Engine g # evs) hb = engine_of evs (g hb)"
| "engine_of (Clock b # evs) hb = engine_of evs hb"
| "engine_of (Irq # evs) hb = engine_of evs hb"

fun engine_keeps :: "stream_layout \<Rightarrow> spi_event \<Rightarrow> bool" where
  "engine_keeps lay (Engine g) = (\<forall>hb. host_wf lay hb \<longrightarrow> host_wf lay (g hb))"
| "engine_keeps lay _ = True"

text \<open>The interrupt keeps up: never more than \<open>room\<close> bytes between two services, \<open>k\<close> of them still to come before
  the FIFO is full.\<close>

fun keeps_up :: "nat \<Rightarrow> spi_event list \<Rightarrow> bool" where
  "keeps_up k [] = True"
| "keeps_up k (Clock b # evs) = (0 < k \<and> keeps_up (k - 1) evs)"
| "keeps_up k (Irq # evs) = keeps_up FIFO_DEPTH evs"
| "keeps_up k (Engine g # evs) = keeps_up k evs"


section \<open>A frame in progress\<close>

text \<open>Between two services: of the frame whose first bytes are \<open>w\<close>, \<open>j\<close> have been read; \<open>out\<close> is the outgoing frame.\<close>

definition sized :: "nat \<Rightarrow> host_spi \<Rightarrow> bool" where
  "sized n h \<longleftrightarrow> hs_frame_len h = n \<and> 0 < n \<and> n \<le> 600 \<and> length (hs_rx h) = 600 \<and> length (hs_tx h) = 600 \<and>
     length (hs_next_tx h) = 600"

definition spi_at :: "nat \<Rightarrow> bytes \<Rightarrow> bytes \<Rightarrow> nat \<Rightarrow> host_spi \<times> lpspi \<Rightarrow> bool" where
  "spi_at n out w j = (\<lambda>(h, l).
     sized n h \<and> take n (hs_tx h) = out \<and> j \<le> length w \<and> length w \<le> j + 16 \<and> length w \<le> n \<and> j < n \<and>
     hs_rx_idx h = j \<and> take j (hs_rx h) = take j w \<and> hs_tx_idx h = min n (j + 16) \<and>
     l = \<lparr>lp_rx = drop j w, lp_tx = drop (length w) (take (j + 16) out), lp_tef = False, lp_ref = False\<rparr>)"

lemma spi_at_out: "spi_at n out w j s \<Longrightarrow> length out = n"
  by (auto simp: spi_at_def sized_def)

lemma spi_clock_at:
  assumes "fifo_clock clk" "spi_at n out w j (h, l)" "length w < j + 16" "length w < n"
  shows "spi_at n out (w @ [b]) j (h, fst (clk b l)) \<and> snd (clk b l) = out ! length w"
proof -
  have out: "length out = n" by (rule spi_at_out [OF assms(2)])
  have l: "l = \<lparr>lp_rx = drop j w, lp_tx = drop (length w) (take (j + 16) out), lp_tef = False, lp_ref = False\<rparr>"
    and j: "j \<le> length w" using assms(2) by (simp_all add: spi_at_def)
  have "drop (length w) (take (j + 16) out) = out ! length w # drop (length (w @ [b])) (take (j + 16) out)"
    using assms(3,4) out by (simp add: Cons_nth_drop_Suc [symmetric])
  then have "clk b l =
      (\<lparr>lp_rx = drop j (w @ [b]), lp_tx = drop (length (w @ [b])) (take (j + 16) out), lp_tef = False, lp_ref = False\<rparr>,
       out ! length w)"
    using j assms(1,3) by (simp add: fifo_clock_def l)
  then show ?thesis using assms by (simp add: spi_at_def)
qed

lemma spi_atD:
  assumes "spi_at n out w j (h, l)"
  shows "sized n h" "j \<le> length w" "length w \<le> j + 16" "length w \<le> n" "j < n" "hs_rx_idx h = j"
    "take j (hs_rx h) = take j w" "hs_tx_idx h = min n (j + 16)" "lp_rx l = drop j w"
    "lp_tx l = drop (length w) (take (j + 16) out)" "hs_frame_len h = n" "n \<le> 600" "length (hs_rx h) = 600"
    "length (hs_tx h) = 600" "lp_tef l = False" "lp_ref l = False" "take n (hs_tx h) = out"
  using assms by (simp_all add: spi_at_def sized_def)

lemma push_tx_at:
  assumes "spi_at n out w j (h, l)" "j < length w"
  shows "push_tx_word (h\<lparr>hs_rx := rx, hs_rx_idx := i\<rparr>, l\<lparr>lp_rx := ws\<rparr>) =
     Some (h\<lparr>hs_rx := rx, hs_rx_idx := i, hs_tx_idx := min n (j + 17)\<rparr>,
       l\<lparr>lp_rx := ws, lp_tx := drop (length w) (take (j + 17) out)\<rparr>)"
proof (cases "j + 16 < n")
  case True
  note d = spi_atD [OF assms(1)]
  have out: "length out = n" by (rule spi_at_out [OF assms(1)])
  have nxt: "out ! (j + 16) = hs_tx h ! (j + 16)" using True d(17) by (metis nth_take)
  have e: "j + 17 = Suc (j + 16)" by simp
  have "take (j + 17) out = take (j + 16) out @ [out ! (j + 16)]"
    unfolding e by (rule take_Suc_conv_app_nth) (use True out in simp)
  then have tx: "drop (length w) (take (j + 17) out) = lp_tx l @ [hs_tx h ! (j + 16)]"
    using d(3,10) True out nxt by simp
  have "length (lp_tx l) < 16" using d(10) assms(2) out True by simp
  then show ?thesis
    using d(8,11,12,14) True unfolding tx by (simp add: push_tx_word_def idx_def min_def)
next
  case False
  note d = spi_atD [OF assms(1)]
  have "take (j + 17) out = out" "take (j + 16) out = out" using spi_at_out [OF assms(1)] False by simp_all
  then show ?thesis using d(8,10,11) False by (simp add: push_tx_word_def min_def)
qed

lemma drain_at:
  assumes "spi_at n out w j (h, l)"
  shows "\<exists>h' l'. drain (drop j w) (h, l) = Some (h', l', length w = n) \<and>
     (if length w = n then sized n h' \<and> take n (hs_rx h') = w \<and> lp_tef l' = False \<and> lp_ref l' = False
      else spi_at n out w (length w) (h', l'))"
  using assms
proof (induction "length w - j" arbitrary: j h l)
  case 0
  then have "j = length w" "length w \<noteq> n" by (auto simp: spi_at_def)
  then show ?case using 0 by simp
next
  case (Suc k)
  then have j: "j < length w" by simp
  note d = spi_atD [OF Suc.prems]
  let ?rx = "(hs_rx h)[j := w ! j]"
  let ?h = "h\<lparr>hs_rx := ?rx, hs_rx_idx := j + 1, hs_tx_idx := min n (j + 17)\<rparr>"
  let ?l = "l\<lparr>lp_rx := drop (j + 1) w, lp_tx := drop (length w) (take (j + 17) out)\<rparr>"
  have w: "drop j w = w ! j # drop (j + 1) w" using j by (simp add: Cons_nth_drop_Suc)
  note push = push_tx_at [OF Suc.prems j, where rx = ?rx and i = "j + 1" and ws = "drop (j + 1) w"]
  have "put (hs_rx h) j (w ! j) = Some ?rx" using d by (simp add: put_in)
  then have st: "drain (drop j w) (h, l) =
      (if j + 1 \<ge> n then Some (?h, ?l, True) else drain (drop (j + 1) w) (?h, ?l))"
    unfolding w using d(5,6,11) push by simp
  have rx: "take (j + 1) ?rx = take (j + 1) w"
    using d(7) d(5,12,13) j by (simp add: take_Suc_conv_app_nth)
  have sz: "sized n ?h" using d(1) by (simp add: sized_def)
  show ?case
  proof (cases "j + 1 = n")
    case True
    then have "length w = n" using d(4) j by simp
    then show ?thesis using st True rx sz d(15,16) by simp
  next
    case False
    have e: "j + 1 + 16 = j + 17" by simp
    have "?l = \<lparr>lp_rx = drop (j + 1) w, lp_tx = drop (length w) (take (j + 17) out), lp_tef = False, lp_ref = False\<rparr>"
      by (rule lpspi.equality) (use d(15,16) in simp_all)
    then have "spi_at n out w (j + 1) (?h, ?l)"
      unfolding spi_at_def e using d(2-6,17) j False rx sz by simp
    from Suc.hyps(1) [OF _ this] Suc.hyps(2) show ?thesis using st False d(5) by auto
  qed
qed

lemma service_at:
  assumes "spi_at n out w j (h, l)"
  shows "\<exists>h' l'. service (h, l) = Some (h', l', if length w = n then FrameComplete else Pending) \<and>
     (if length w = n then sized n h' \<and> take n (hs_rx h') = w \<and> lp_tef l' = False \<and> lp_ref l' = False
      else spi_at n out w (length w) (h', l'))"
proof -
  have "lp_rx l = drop j w" "\<not> (lp_tef l \<or> lp_ref l)" using assms by (simp_all add: spi_at_def)
  then show ?thesis using drain_at [OF assms] by (auto simp: service_def)
qed

text \<open>Reloading an empty transmit FIFO.\<close>

lemma reload_loop_fills:
  assumes "hs_tx_idx h + k = min (hs_frame_len h) 16" "length (lp_tx l) = hs_tx_idx h" "hs_frame_len h \<le> length (hs_tx h)"
    "k < m"
  shows "reload_loop m (h, l) =
     Some (h\<lparr>hs_tx_idx := min (hs_frame_len h) 16\<rparr>,
       l\<lparr>lp_tx := lp_tx l @ take k (drop (hs_tx_idx h) (hs_tx h))\<rparr>)"
  using assms
proof (induction k arbitrary: m h l)
  case 0
  then obtain m' where "m = Suc m'" by (metis less_imp_Suc_add)
  then show ?case using 0 by (auto simp: min_def split: if_splits)
next
  case (Suc k)
  then obtain m' where m: "m = Suc m'" "k < m'" by (metis Suc_lessE)
  let ?i = "hs_tx_idx h"
  have i: "?i < hs_frame_len h" "?i < 16" "?i < length (hs_tx h)" using Suc.prems by (auto simp: min_def split: if_splits)
  have "drop ?i (hs_tx h) = hs_tx h ! ?i # drop (Suc ?i) (hs_tx h)" using i(3) by (simp add: Cons_nth_drop_Suc)
  then show ?case
    using Suc.IH [of "h\<lparr>hs_tx_idx := Suc ?i\<rparr>" "l\<lparr>lp_tx := lp_tx l @ [hs_tx h ! ?i]\<rparr>" m'] Suc.prems m i
    by (simp add: push_tx_word_def idx_def)
qed

lemma reload_ready:
  assumes "sized n h" "hs_rx_idx h = 0" "hs_tx_idx h = 0" "lp_rx l = []" "lp_tx l = []" "\<not> lp_tef l" "\<not> lp_ref l"
  shows "\<exists>h' l'. reload_tx_fifo (h, l) = Some (h', l') \<and> spi_at n (take n (hs_tx h)) [] 0 (h', l') \<and>
     hs_next_tx h' = hs_next_tx h"
proof -
  have "reload_tx_fifo (h, l) = Some (h\<lparr>hs_tx_idx := min n 16\<rparr>, l\<lparr>lp_tx := take (min n 16) (hs_tx h)\<rparr>)"
    using assms reload_loop_fills [of h "min n 16" l 17] by (simp add: reload_tx_fifo_def sized_def)
  then show ?thesis using assms by (auto simp: spi_at_def sized_def min_def intro: lpspi.equality)
qed

text \<open>An error ends the frame in progress: the next byte clocked is byte 0 of a frame, whatever it was on the wire.\<close>

lemma service_error:
  assumes "sized n h" "lp_tef l \<or> lp_ref l"
  shows "\<exists>h' l'. service (h, l) = Some (h', l', Pending) \<and> spi_at n (take n (hs_tx h)) [] 0 (h', l')"
  using assms reload_ready [of n "h\<lparr>hs_rx_idx := 0, hs_tx_idx := 0\<rparr>" "flush_fifos (l\<lparr>lp_tef := False, lp_ref := False\<rparr>)"]
  by (auto simp: service_def restart_frame_def flush_fifos_def sized_def)

lemma next_frame_ready:
  assumes "sized n h" "length r \<le> n" "\<not> lp_tef l" "\<not> lp_ref l"
  shows "\<exists>h' s. set_next_tx h r = Some h' \<and> begin_next_frame (h', l) = Some s \<and>
     spi_at n (r @ replicate (n - length r) 0) [] 0 s"
proof -
  let ?next = "r @ replicate (n - length r) 0 @ drop n (hs_next_tx h)"
  have nx: "set_next_tx h r = Some (h\<lparr>hs_next_tx := ?next\<rparr>)"
    using assms(1,2) by (simp add: set_next_tx_def sized_def copy_at_in)
  let ?h = "h\<lparr>hs_next_tx := ?next, hs_tx := take n ?next @ drop n (hs_tx h), hs_rx_idx := 0, hs_tx_idx := 0\<rparr>"
  have "begin_next_frame (h\<lparr>hs_next_tx := ?next\<rparr>, l) = reload_tx_fifo (?h, flush_fifos l)"
    using assms(1,2) by (simp add: begin_next_frame_def sized_def copy_at_in)
  moreover have "sized n ?h" using assms(1,2) by (simp add: sized_def)
  ultimately show ?thesis
    using reload_ready [of n ?h "flush_fifos l"] assms(2-4) nx by (auto simp: flush_fifos_def)
qed

section \<open>A frame over the wire\<close>

text \<open>The events of one frame: \<open>n\<close> bytes still to come, and the interrupt after the last of them.\<close>

fun frame_left :: "nat \<Rightarrow> spi_event list \<Rightarrow> bool" where
  "frame_left n [] = False"
| "frame_left n (Clock b # evs) = (0 < n \<and> frame_left (n - 1) evs)"
| "frame_left n (Irq # evs) = (if n = 0 then evs = [] else frame_left n evs)"
| "frame_left n (Engine g # evs) = frame_left n evs"

definition one_frame :: "stream_layout \<Rightarrow> spi_event list \<Rightarrow> bool" where
  "one_frame lay evs \<longleftrightarrow> frame_left (frame_len lay) evs \<and> keeps_up FIFO_DEPTH evs \<and> list_all (engine_keeps lay) evs"

text \<open>Ready for a frame, with \<open>out\<close> to go out.\<close>

definition spi_ready :: "stream_layout \<Rightarrow> bytes \<Rightarrow> spi_task \<Rightarrow> bool" where
  "spi_ready lay out t \<longleftrightarrow> spi_at (frame_len lay) out [] 0 (sp_dev t, sp_regs t) \<and> host_wf lay (sp_bridge t)"

text \<open>What the bridge answers, filled up to the length of a frame.\<close>

definition padded_reply :: "stream_layout \<Rightarrow> host_bridge \<Rightarrow> bytes" where
  "padded_reply lay hb = take 98 (hb_staged_in hb) @ replicate (frame_len lay - 98) 0"

lemma spi_init:
  assumes "frame_len lay \<le> 600" "host_wf lay hb"
  shows "\<exists>h l. host_spi_new (frame_len lay) = Some (h, l) \<and>
     spi_ready lay (replicate (frame_len lay) 0) \<lparr>sp_dev = h, sp_regs = l, sp_bridge = hb, sp_ready = rdy\<rparr>"
proof -
  have "0 < frame_len lay" using frame_len_bounds(2) [of lay] by simp
  let ?h = "\<lparr>hs_frame_len = min (frame_len lay) HOST_SPI_MAX_FRAME, hs_rx = replicate HOST_SPI_MAX_FRAME 0, hs_rx_idx = 0,
         hs_tx = replicate HOST_SPI_MAX_FRAME 0, hs_tx_idx = 0, hs_next_tx = replicate HOST_SPI_MAX_FRAME 0\<rparr>"
  have "sized (frame_len lay) ?h"
    using assms(1) \<open>0 < frame_len lay\<close> by (simp add: sized_def HOST_SPI_MAX_FRAME_def)
  then show ?thesis
    using reload_ready [of "frame_len lay" ?h lpspi_reset] assms
    by (auto simp: host_spi_new_def spi_ready_def lpspi_reset_def HOST_SPI_MAX_FRAME_def)
qed

lemma task_at:
  assumes "spi_at n out w j (sp_dev t, sp_regs t)" "length w < n"
  shows "\<exists>h l. host_spi_task lay t = Some (t\<lparr>sp_dev := h, sp_regs := l\<rparr>) \<and> spi_at n out w (length w) (h, l)"
proof -
  obtain h l where "service (sp_dev t, sp_regs t) = Some (h, l, Pending)" "spi_at n out w (length w) (h, l)"
    using service_at [OF assms(1)] assms(2) by auto
  then show ?thesis by (intro exI [of _ h] exI [of _ l]) (simp add: host_spi_task_def)
qed

lemma task_done:
  assumes "spi_at (frame_len lay) out w j (sp_dev t, sp_regs t)" "length w = frame_len lay" "host_wf lay (sp_bridge t)"
  shows "\<exists>t' hb. host_spi_task lay t = Some t' \<and> host_ingest lay (sp_bridge t) w = Some hb \<and>
     sp_bridge t' = hb \<and> spi_ready lay (padded_reply lay hb) t' \<and> sp_ready t' = (\<not> sp_ready t)"
proof -
  obtain h l where sv: "service (sp_dev t, sp_regs t) = Some (h, l, FrameComplete)" "sized (frame_len lay) h"
      "take (frame_len lay) (hs_rx h) = w" "\<not> lp_tef l" "\<not> lp_ref l"
    using service_at [OF assms(1)] assms(2) by auto
  obtain hb where hb: "host_ingest lay (sp_bridge t) w = Some hb" "host_wf lay hb"
    using host_ingest_total [OF assms(3)] by metis
  have len: "length (hb_staged_in hb) = frame_len lay" "98 \<le> frame_len lay"
    using hb(2) frame_len_bounds(2) by (simp_all add: host_wf_def)
  have reply: "host_reply hb = Some (take 98 (hb_staged_in hb))" using len by (simp add: host_reply_def)
  have pad: "copy_at (replicate (frame_len lay) 0) 0 98 (take 98 (hb_staged_in hb)) = Some (padded_reply lay hb)"
    using len by (simp add: copy_at_in padded_reply_def)
  have plen: "length (padded_reply lay hb) = frame_len lay" using len by (simp add: padded_reply_def)
  obtain h' s where nx: "set_next_tx h (padded_reply lay hb) = Some h'" "begin_next_frame (h', l) = Some s"
      "spi_at (frame_len lay) (padded_reply lay hb) [] 0 s"
    using next_frame_ready [OF sv(2), of "padded_reply lay hb" l] sv(4,5) plen by auto
  obtain h2 l2 where s: "s = (h2, l2)" by (cases s)
  have "rx_frame h = Some w" using sv(2,3) by (auto simp: rx_frame_def sized_def)
  then have "host_spi_task lay t = Some \<lparr>sp_dev = h2, sp_regs = l2, sp_bridge = hb, sp_ready = \<not> sp_ready t\<rparr>"
    using sv(1) hb(1) reply pad nx(1,2) len s by (simp add: host_spi_task_def)
  then show ?thesis using hb nx(3) s by (simp add: spi_ready_def)
qed

lemma clocked_append [simp]: "clocked (xs @ ys) = clocked xs @ clocked ys"
  by (induction xs rule: clocked.induct) simp_all

lemma frame_left_clocked: "frame_left n evs \<Longrightarrow> length (clocked evs) = n"
  by (induction n evs rule: frame_left.induct) (auto split: if_splits)

text \<open>The run moves bytes until the completing interrupt, which hands the frame to the bridge.\<close>

lemma spi_run_frame:
  assumes clk: "fifo_clock clk" and "spi_at (frame_len lay) out w j (sp_dev t, sp_regs t)" "host_wf lay (sp_bridge t)"
    and "keeps_up (j + 16 - length w) evs" "frame_left (frame_len lay - length w) evs" "list_all (engine_keeps lay) evs"
  shows "\<exists>t' hb. spi_run clk lay evs t = Some (t', drop (length w) out) \<and>
     host_ingest lay (engine_of evs (sp_bridge t)) (w @ clocked evs) = Some hb \<and>
     sp_bridge t' = hb \<and> spi_ready lay (padded_reply lay hb) t' \<and> sp_ready t' = (\<not> sp_ready t)"
  using assms(2-)
proof (induction evs arbitrary: w j t)
  case Nil
  then show ?case by simp
next
  case (Cons ev evs)
  note out = spi_at_out [OF Cons.prems(1)]
  note d = spi_atD [OF Cons.prems(1)]
  show ?case
  proof (cases ev)
    case (Clock b)
    then have lt: "length w < j + 16" "length w < frame_len lay" using Cons.prems(3,4) by auto
    let ?t = "t\<lparr>sp_regs := fst (clk b (sp_regs t))\<rparr>"
    have at: "spi_at (frame_len lay) out (w @ [b]) j (sp_dev ?t, sp_regs ?t)"
        "snd (clk b (sp_regs t)) = out ! length w"
      using spi_clock_at [OF clk Cons.prems(1) lt] by simp_all
    have left: "keeps_up (j + 16 - length (w @ [b])) evs" "frame_left (frame_len lay - length (w @ [b])) evs"
      using Cons.prems(3,4) Clock by (simp_all add: Suc_diff_Suc)
    have "host_wf lay (sp_bridge ?t)" "list_all (engine_keeps lay) evs" using Cons.prems(2,5) by simp_all
    from Cons.IH [OF at(1) this(1) left this(2)] obtain t' hb where
      r: "spi_run clk lay evs ?t = Some (t', drop (length (w @ [b])) out)"
        "host_ingest lay (engine_of evs (sp_bridge t)) (w @ clocked (Clock b # evs)) = Some hb"
        "sp_bridge t' = hb" "spi_ready lay (padded_reply lay hb) t'" "sp_ready t' = (\<not> sp_ready t)"
      by auto
    have "drop (length w) out = out ! length w # drop (length (w @ [b])) out"
      using lt(2) out by (simp add: Cons_nth_drop_Suc)
    then show ?thesis using r Clock at(2) by (auto simp: case_prod_beta)
  next
    case Irq
    show ?thesis
    proof (cases "length w = frame_len lay")
      case True
      then have "evs = []" using Cons.prems(4) Irq by simp
      then show ?thesis using task_done [OF Cons.prems(1) True Cons.prems(2)] Irq out True by auto
    next
      case False
      then have lt: "length w < frame_len lay" using d(4) by simp
      obtain h l where tk: "host_spi_task lay t = Some (t\<lparr>sp_dev := h, sp_regs := l\<rparr>)"
          "spi_at (frame_len lay) out w (length w) (h, l)"
        using task_at [OF Cons.prems(1) lt] by blast
      have "keeps_up (length w + 16 - length w) evs" "frame_left (frame_len lay - length w) evs"
        using Cons.prems(3,4) Irq lt by simp_all
      then show ?thesis
        using Cons.IH [of w "length w" "t\<lparr>sp_dev := h, sp_regs := l\<rparr>"] tk Cons.prems(2,5) Irq by simp
    qed
  next
    case (Engine g)
    then show ?thesis
      using Cons.IH [of w j "t\<lparr>sp_bridge := g (sp_bridge t)\<rparr>"] Cons.prems by simp
  qed
qed

text \<open>A conversation, frame by frame, each with what the cyclic interrupt did meanwhile: the reference the event-level run is equivalent to.\<close>

fun conversation ::
    "stream_layout \<Rightarrow> host_bridge \<Rightarrow> bytes \<Rightarrow> ((host_bridge \<Rightarrow> host_bridge) \<times> bytes) list \<Rightarrow> (host_bridge \<times> bytes) option" where
  "conversation lay hb out [] = Some (hb, [])"
| "conversation lay hb out ((g, f) # fs) = do {
     hb \<leftarrow> host_ingest lay (g hb) f;
     (hb', miso) \<leftarrow> conversation lay hb (padded_reply lay hb) fs;
     Some (hb', out @ miso) }"

lemma spi_run_append:
  "spi_run clk lay (xs @ ys) t = do {
     (t, m) \<leftarrow> spi_run clk lay xs t; (t, m') \<leftarrow> spi_run clk lay ys t; Some (t, m @ m') }"
proof (induction xs arbitrary: t)
  case Nil
  then show ?case by (auto split: bind_splits)
next
  case (Cons ev xs)
  then show ?case by (cases ev) (auto simp: case_prod_beta split: bind_splits)
qed

lemma spi_frame:
  assumes "fifo_clock clk" "spi_ready lay out t" "one_frame lay evs"
  shows "\<exists>t' hb. spi_run clk lay evs t = Some (t', out) \<and> host_ingest lay (engine_of evs (sp_bridge t)) (clocked evs) = Some hb \<and>
     sp_bridge t' = hb \<and> spi_ready lay (padded_reply lay hb) t' \<and> sp_ready t' = (\<not> sp_ready t)"
  using spi_run_frame [of clk lay out "[]" 0 t evs] assms by (simp add: spi_ready_def one_frame_def)

lemma spi_conversation:
  assumes clk: "fifo_clock clk" and "spi_ready lay out t" "list_all (one_frame lay) frames"
  shows "\<exists>t' hb miso. spi_run clk lay (concat frames) t = Some (t', miso) \<and>
     conversation lay (sp_bridge t) out (map (\<lambda>evs. (engine_of evs, clocked evs)) frames) = Some (hb, miso) \<and>
     sp_bridge t' = hb"
  using assms(2-)
proof (induction frames arbitrary: t out)
  case Nil
  then show ?case by simp
next
  case (Cons evs frames)
  obtain t1 hb where f: "spi_run clk lay evs t = Some (t1, out)" "host_ingest lay (engine_of evs (sp_bridge t)) (clocked evs) = Some hb"
      "sp_bridge t1 = hb" "spi_ready lay (padded_reply lay hb) t1"
    using spi_frame [OF clk Cons.prems(1), of evs] Cons.prems(2) by auto
  from Cons.IH [OF f(4)] Cons.prems(2) f(3) obtain t' hb' miso where
    "spi_run clk lay (concat frames) t1 = Some (t', miso)"
    "conversation lay hb (padded_reply lay hb) (map (\<lambda>evs. (engine_of evs, clocked evs)) frames) = Some (hb', miso)"
    "sp_bridge t' = hb'"
    by auto
  then show ?case using f(1,2) by (simp add: spi_run_append)
qed

text \<open>What an error does: the frame in progress is dropped, and the rest of it, still on the wire, becomes the
  beginning of the next frame.\<close>

lemma spi_error_realigns:
  assumes clk: "fifo_clock clk" and "sized (frame_len lay) (sp_dev t)" "host_wf lay (sp_bridge t)" "lp_tef (sp_regs t) \<or> lp_ref (sp_regs t)"
    and "one_frame lay (rest @ start)"
  shows "\<exists>t' hb miso. spi_run clk lay (Irq # rest @ start) t = Some (t', miso) \<and>
     host_ingest lay (engine_of (rest @ start) (sp_bridge t)) (clocked rest @ clocked start) = Some hb \<and> sp_bridge t' = hb"
proof -
  obtain h l where sv: "service (sp_dev t, sp_regs t) = Some (h, l, Pending)"
      "spi_at (frame_len lay) (take (frame_len lay) (hs_tx (sp_dev t))) [] 0 (h, l)"
    using service_error [OF assms(2,4)] by blast
  then have "host_spi_task lay t = Some (t\<lparr>sp_dev := h, sp_regs := l\<rparr>)" by (simp add: host_spi_task_def)
  moreover have "spi_ready lay (take (frame_len lay) (hs_tx (sp_dev t))) (t\<lparr>sp_dev := h, sp_regs := l\<rparr>)"
    using sv(2) assms(3) by (simp add: spi_ready_def)
  from spi_frame [OF clk this assms(5)] obtain t' hb where
    "spi_run clk lay (rest @ start) (t\<lparr>sp_dev := h, sp_regs := l\<rparr>) = Some (t', take (frame_len lay) (hs_tx (sp_dev t)))"
    "host_ingest lay (engine_of (rest @ start) (sp_bridge t)) (clocked rest @ clocked start) = Some hb" "sp_bridge t' = hb" by auto
  ultimately show ?thesis by simp
qed

end
