(* ===== verification/Modbus.thy ===== *)
theory Modbus
  imports Ecrt
begin

text \<open>
  The Modbus TCP holding registers, \<^verbatim>\<open>src/src/modbus/modbus_slave.rs\<close> over the register map
  \<^verbatim>\<open>src/src/modbus/register_map.rs\<close>: the table of at most 32 registers, the three requests it serves, the
  exceptions, and the network configuration read out of it. The firmware keeps the module without running
  it. The reference is a server over a finite map from addresses to values; every operation refines it.
\<close>

unbundle bit_operations_syntax

section \<open>The register map\<close>

record register_def =
  rd_address :: u16
  rd_default_value :: u16
  rd_name :: string
  rd_saveable :: bool

definition REG_IP :: "u16 list" where "REG_IP = [0x0000, 0x0002, 0x0004, 0x0006]"
definition REG_SUBNET :: "u16 list" where "REG_SUBNET = [0x0008, 0x000A, 0x000C, 0x000E]"
definition REG_GW :: "u16 list" where "REG_GW = [0x0010, 0x0012, 0x0014, 0x0016]"
definition REG_APPLY_NETWORK :: u16 where "REG_APPLY_NETWORK = 0x0018"
definition REG_MODBUS_UNIT_ID :: u16 where "REG_MODBUS_UNIT_ID = 0x0020"
definition REG_STATUS :: u16 where "REG_STATUS = 0x0022"

definition USER_REGISTERS :: "register_def list" where
  "USER_REGISTERS =
     [\<lparr>rd_address = REG_IP ! 0, rd_default_value = 10, rd_name = ''ip_octet_1'', rd_saveable = True\<rparr>,
      \<lparr>rd_address = REG_IP ! 1, rd_default_value = 0, rd_name = ''ip_octet_2'', rd_saveable = True\<rparr>,
      \<lparr>rd_address = REG_IP ! 2, rd_default_value = 0, rd_name = ''ip_octet_3'', rd_saveable = True\<rparr>,
      \<lparr>rd_address = REG_IP ! 3, rd_default_value = 55, rd_name = ''ip_octet_4'', rd_saveable = True\<rparr>,
      \<lparr>rd_address = REG_SUBNET ! 0, rd_default_value = 255, rd_name = ''subnet_octet_1'', rd_saveable = True\<rparr>,
      \<lparr>rd_address = REG_SUBNET ! 1, rd_default_value = 255, rd_name = ''subnet_octet_2'', rd_saveable = True\<rparr>,
      \<lparr>rd_address = REG_SUBNET ! 2, rd_default_value = 255, rd_name = ''subnet_octet_3'', rd_saveable = True\<rparr>,
      \<lparr>rd_address = REG_SUBNET ! 3, rd_default_value = 0, rd_name = ''subnet_octet_4'', rd_saveable = True\<rparr>,
      \<lparr>rd_address = REG_GW ! 0, rd_default_value = 10, rd_name = ''gateway_octet_1'', rd_saveable = True\<rparr>,
      \<lparr>rd_address = REG_GW ! 1, rd_default_value = 0, rd_name = ''gateway_octet_2'', rd_saveable = True\<rparr>,
      \<lparr>rd_address = REG_GW ! 2, rd_default_value = 0, rd_name = ''gateway_octet_3'', rd_saveable = True\<rparr>,
      \<lparr>rd_address = REG_GW ! 3, rd_default_value = 1, rd_name = ''gateway_octet_4'', rd_saveable = True\<rparr>,
      \<lparr>rd_address = REG_APPLY_NETWORK, rd_default_value = 0, rd_name = ''apply_network'', rd_saveable = False\<rparr>,
      \<lparr>rd_address = REG_MODBUS_UNIT_ID, rd_default_value = 1, rd_name = ''modbus_unit_id'', rd_saveable = True\<rparr>,
      \<lparr>rd_address = REG_STATUS, rd_default_value = 0, rd_name = ''status'', rd_saveable = False\<rparr>]"

section \<open>The table\<close>

definition MAX_REGS :: nat where [simp]: "MAX_REGS = 32"
definition MAX_FRAME :: nat where [simp]: "MAX_FRAME = 260"
definition MBAP_HEADER_LEN :: nat where [simp]: "MBAP_HEADER_LEN = 7"

record register =
  rg_address :: u16
  rg_value :: u16

record modbus_slave =
  mb_registers :: "register list"
  mb_count :: nat

definition modbus_new :: modbus_slave where
  "modbus_new = \<lparr>mb_registers = replicate MAX_REGS \<lparr>rg_address = 0xFFFF, rg_value = 0\<rparr>, mb_count = 0\<rparr>"

text \<open>\<^verbatim>\<open>iter().find(..)\<close> and \<^verbatim>\<open>iter_mut().find(..)\<close> over \<^verbatim>\<open>registers[..register_count]\<close>: the position of the first
  register of the address.\<close>

fun find_address :: "u16 \<Rightarrow> nat \<Rightarrow> register list \<Rightarrow> nat option" where
  "find_address a i [] = None"
| "find_address a i (r # rs) = (if rg_address r = a then Some i else find_address a (i + 1) rs)"

definition find_reg :: "modbus_slave \<Rightarrow> u16 \<Rightarrow> nat option option" where
  "find_reg m a = do { rs \<leftarrow> slice (mb_registers m) 0 (mb_count m); Some (find_address a 0 rs) }"

definition set_value :: "modbus_slave \<Rightarrow> nat \<Rightarrow> u16 \<Rightarrow> modbus_slave" where
  "set_value m i v = m\<lparr>mb_registers := (mb_registers m)[i := (mb_registers m ! i)\<lparr>rg_value := v\<rparr>]\<rparr>"

definition add_hreg :: "modbus_slave \<Rightarrow> u16 \<Rightarrow> u16 \<Rightarrow> modbus_slave option" where
  "add_hreg m a v = do {
     r \<leftarrow> find_reg m a;
     case r of
       Some i \<Rightarrow> Some (set_value m i v)
     | None \<Rightarrow>
         if mb_count m < MAX_REGS then do {
           rs \<leftarrow> put (mb_registers m) (mb_count m) \<lparr>rg_address = a, rg_value = v\<rparr>;
           Some (m\<lparr>mb_registers := rs, mb_count := mb_count m + 1\<rparr>) }
         else Some m }"

fun load_register_map :: "modbus_slave \<Rightarrow> register_def list \<Rightarrow> modbus_slave option" where
  "load_register_map m [] = Some m"
| "load_register_map m (d # ds) = do { m \<leftarrow> add_hreg m (rd_address d) (rd_default_value d); load_register_map m ds }"

definition get_hreg :: "modbus_slave \<Rightarrow> u16 \<Rightarrow> u16 option" where
  "get_hreg m a = do {
     r \<leftarrow> find_reg m a; Some (case r of Some i \<Rightarrow> rg_value (mb_registers m ! i) | None \<Rightarrow> 0) }"

definition set_hreg :: "modbus_slave \<Rightarrow> u16 \<Rightarrow> u16 \<Rightarrow> (modbus_slave \<times> bool) option" where
  "set_hreg m a v = do {
     r \<leftarrow> find_reg m a; Some (case r of Some i \<Rightarrow> (set_value m i v, True) | None \<Rightarrow> (m, False)) }"

section \<open>Requests\<close>

text \<open>\<^verbatim>\<open>push_u16\<close>: both bytes or, when the vector is full, none.\<close>

definition push_u16 :: "bytes \<Rightarrow> u16 \<Rightarrow> bytes" where
  "push_u16 v w = (if length v + 2 \<le> MAX_FRAME then v @ be16 w else v)"

definition modbus_read_u16 :: "bytes \<Rightarrow> nat \<Rightarrow> u16 option" where
  "modbus_read_u16 bs off = do { a \<leftarrow> idx bs off; b \<leftarrow> idx bs (off + 1); Some (of_be16 a b) }"

definition mbap_header :: "u16 \<Rightarrow> u8 \<Rightarrow> u16 \<Rightarrow> bytes" where
  "mbap_header tid unit_id len = push_drop MAX_FRAME (push_u16 (push_u16 (push_u16 [] tid) 0) len) unit_id"

definition modbus_exception :: "u16 \<Rightarrow> u8 \<Rightarrow> u8 \<Rightarrow> u8 \<Rightarrow> bytes" where
  "modbus_exception tid unit_id func code =
     push_drop MAX_FRAME (push_drop MAX_FRAME (mbap_header tid unit_id 3) (func OR 0x80)) code"

text \<open>The loops over \<open>0..quantity\<close>, \<open>n\<close> iterations to go.\<close>

fun push_registers :: "modbus_slave \<Rightarrow> u16 \<Rightarrow> nat \<Rightarrow> u16 \<Rightarrow> bytes \<Rightarrow> bytes option" where
  "push_registers m start 0 offset resp = Some resp"
| "push_registers m start (Suc n) offset resp = do {
     v \<leftarrow> get_hreg m (start + offset); push_registers m start n (offset + 1) (push_u16 resp v) }"

definition read_holding :: "modbus_slave \<Rightarrow> bytes \<Rightarrow> u16 \<Rightarrow> u8 \<Rightarrow> bytes option" where
  "read_holding m frame tid unit_id =
     (if length frame < 12 then Some (modbus_exception tid unit_id 0x03 0x03)
      else do {
        start \<leftarrow> modbus_read_u16 frame 8;
        quantity \<leftarrow> modbus_read_u16 frame 10;
        let data_bytes = unat quantity * 2;
        if quantity = 0 \<or> data_bytes + 9 > MAX_FRAME then Some (modbus_exception tid unit_id 0x03 0x03)
        else
          let resp = mbap_header tid unit_id (of_nat (3 + data_bytes));
              resp = push_drop MAX_FRAME resp 0x03;
              resp = push_drop MAX_FRAME resp (of_nat data_bytes)
          in push_registers m start (unat quantity) 0 resp })"

definition write_single :: "modbus_slave \<Rightarrow> bytes \<Rightarrow> u16 \<Rightarrow> u8 \<Rightarrow> (modbus_slave \<times> bytes) option" where
  "write_single m frame tid unit_id =
     (if length frame < 12 then Some (m, modbus_exception tid unit_id 0x06 0x03)
      else do {
        address \<leftarrow> modbus_read_u16 frame 8;
        v \<leftarrow> modbus_read_u16 frame 10;
        (m, known) \<leftarrow> set_hreg m address v;
        let resp = push_drop MAX_FRAME (mbap_header tid unit_id 6) 0x06;
        Some (m, push_u16 (push_u16 resp address) v) })"

fun write_registers :: "modbus_slave \<Rightarrow> bytes \<Rightarrow> u16 \<Rightarrow> nat \<Rightarrow> u16 \<Rightarrow> modbus_slave option" where
  "write_registers m frame start 0 index = Some m"
| "write_registers m frame start (Suc n) index = do {
     v \<leftarrow> modbus_read_u16 frame (13 + unat index * 2);
     (m, known) \<leftarrow> set_hreg m (start + index) v;
     write_registers m frame start n (index + 1) }"

definition write_multiple :: "modbus_slave \<Rightarrow> bytes \<Rightarrow> u16 \<Rightarrow> u8 \<Rightarrow> (modbus_slave \<times> bytes) option" where
  "write_multiple m frame tid unit_id =
     (if length frame < 13 then Some (m, modbus_exception tid unit_id 0x10 0x03)
      else do {
        start \<leftarrow> modbus_read_u16 frame 8;
        quantity \<leftarrow> modbus_read_u16 frame 10;
        b \<leftarrow> idx frame 12;
        let byte_count = unat b;
        if quantity = 0 \<or> byte_count \<noteq> unat quantity * 2 \<or> length frame < 13 + byte_count
        then Some (m, modbus_exception tid unit_id 0x10 0x03)
        else do {
          m \<leftarrow> write_registers m frame start (unat quantity) 0;
          let resp = push_drop MAX_FRAME (mbap_header tid unit_id 6) 0x10;
          Some (m, push_u16 (push_u16 resp start) quantity) } })"

text \<open>\<open>None\<close> of the inner option: no response.\<close>

definition process_frame :: "modbus_slave \<Rightarrow> bytes \<Rightarrow> (modbus_slave \<times> bytes option) option" where
  "process_frame m frame =
     (if length frame < MBAP_HEADER_LEN + 1 then Some (m, None)
      else do {
        tid \<leftarrow> modbus_read_u16 frame 0;
        unit_id \<leftarrow> idx frame 6;
        func \<leftarrow> idx frame 7;
        if func = 0x03 then do { resp \<leftarrow> read_holding m frame tid unit_id; Some (m, Some resp) }
        else if func = 0x06 then do { (m, resp) \<leftarrow> write_single m frame tid unit_id; Some (m, Some resp) }
        else if func = 0x10 then do { (m, resp) \<leftarrow> write_multiple m frame tid unit_id; Some (m, Some resp) }
        else Some (m, Some (modbus_exception tid unit_id func 0x01)) })"

section \<open>The network configuration\<close>

record network_cfg =
  nc_ip :: bytes
  nc_subnet :: bytes
  nc_gateway :: bytes

fun ip_from_registers :: "modbus_slave \<Rightarrow> u16 list \<Rightarrow> bytes option" where
  "ip_from_registers m [] = Some []"
| "ip_from_registers m (a # as) = do { v \<leftarrow> get_hreg m a; vs \<leftarrow> ip_from_registers m as; Some (ucast v # vs) }"

definition network_config :: "modbus_slave \<Rightarrow> network_cfg option" where
  "network_config m = do {
     ip \<leftarrow> ip_from_registers m REG_IP;
     subnet \<leftarrow> ip_from_registers m REG_SUBNET;
     gateway \<leftarrow> ip_from_registers m REG_GW;
     Some \<lparr>nc_ip = ip, nc_subnet = subnet, nc_gateway = gateway\<rparr> }"

definition take_network_update :: "modbus_slave \<Rightarrow> (modbus_slave \<times> network_cfg option) option" where
  "take_network_update m = do {
     v \<leftarrow> get_hreg m REG_APPLY_NETWORK;
     if v = 0 then Some (m, None)
     else do {
       (m, known) \<leftarrow> set_hreg m REG_APPLY_NETWORK 0;
       nc \<leftarrow> network_config m;
       Some (m, Some nc) } }"

section \<open>The reference: a server over a map\<close>

text \<open>A write to an address that is not in the map is answered like one that is, and has no effect.\<close>

type_synonym bank = "u16 \<Rightarrow> u16 option"

definition bank_get :: "bank \<Rightarrow> u16 \<Rightarrow> u16" where "bank_get b a = (case b a of Some v \<Rightarrow> v | None \<Rightarrow> 0)"

definition bank_put :: "bank \<Rightarrow> u16 \<Rightarrow> u16 \<Rightarrow> bank" where
  "bank_put b a v = (if a \<in> dom b then b(a \<mapsto> v) else b)"

definition reply_frame :: "u16 \<Rightarrow> u8 \<Rightarrow> bytes \<Rightarrow> bytes" where
  "reply_frame tid unit_id pdu = be16 tid @ [0, 0] @ be16 (of_nat (length pdu + 1)) @ [unit_id] @ pdu"

definition frame_u16 :: "bytes \<Rightarrow> nat \<Rightarrow> u16" where "frame_u16 f i = of_be16 (f ! i) (f ! (i + 1))"

text \<open>Reading and writing runs of registers.\<close>

definition bank_read :: "bank \<Rightarrow> u16 \<Rightarrow> nat \<Rightarrow> bytes" where
  "bank_read b start n = concat (map (\<lambda>i. be16 (bank_get b (start + of_nat i))) [0..<n])"

definition bank_write :: "bank \<Rightarrow> u16 \<Rightarrow> u16 list \<Rightarrow> bank" where
  "bank_write b start vs = foldl (\<lambda>b (i, v). bank_put b (start + of_nat i) v) b (enumerate 0 vs)"

definition write_values :: "bytes \<Rightarrow> nat \<Rightarrow> u16 list" where
  "write_values f n = map (\<lambda>i. frame_u16 f (13 + i * 2)) [0..<n]"

definition bank_serve :: "bank \<Rightarrow> bytes \<Rightarrow> bank \<times> bytes option" where
  "bank_serve b f =
     (if length f < 8 then (b, None)
      else
        let tid = frame_u16 f 0; u = f ! 6; func = f ! 7;
            start = frame_u16 f 8; quantity = unat (frame_u16 f 10);
            refuse = (\<lambda>code. (b, Some (reply_frame tid u [func OR 0x80, code])))
        in if func = 0x03 then
             if length f < 12 \<or> quantity \<notin> {1..125} then refuse 3
             else (b, Some (reply_frame tid u ([3, of_nat (2 * quantity)] @ bank_read b start quantity)))
           else if func = 0x06 then
             if length f < 12 then refuse 3
             else (bank_put b start (frame_u16 f 10), Some (reply_frame tid u ([6] @ be16 start @ be16 (frame_u16 f 10))))
           else if func = 0x10 then
             if length f < 13 \<or> quantity = 0 \<or> unat (f ! 12) \<noteq> 2 * quantity \<or> length f < 13 + 2 * quantity then refuse 3
             else (bank_write b start (write_values f quantity),
                   Some (reply_frame tid u ([0x10] @ be16 start @ be16 (of_nat quantity))))
           else refuse 1)"

section \<open>The table is a finite map\<close>

definition modbus_inv :: "modbus_slave \<Rightarrow> bool" where
  "modbus_inv m \<longleftrightarrow> length (mb_registers m) = 32 \<and> mb_count m \<le> 32"

definition register_pair :: "register \<Rightarrow> u16 \<times> u16" where "register_pair r = (rg_address r, rg_value r)"

definition bank_of :: "modbus_slave \<Rightarrow> bank" where
  "bank_of m = map_of (map register_pair (take (mb_count m) (mb_registers m)))"

lemma find_address_None: "find_address a i rs = None \<longleftrightarrow> map_of (map register_pair rs) a = None"
  by (induction rs arbitrary: i) (auto simp: register_pair_def)

lemma find_address_Some:
  "find_address a i rs = Some j \<Longrightarrow>
     i \<le> j \<and> j - i < length rs \<and> map_of (map register_pair rs) a = Some (rg_value (rs ! (j - i))) \<and>
     map_of (map register_pair (rs[j - i := (rs ! (j - i))\<lparr>rg_value := v\<rparr>])) = (map_of (map register_pair rs))(a \<mapsto> v)"
proof (induction rs arbitrary: i)
  case (Cons r rs)
  show ?case
  proof (cases "rg_address r = a")
    case True
    then show ?thesis using Cons.prems by (auto simp: register_pair_def)
  next
    case False
    then have "find_address a (i + 1) rs = Some j" using Cons.prems by simp
    from Cons.IH [OF this] have ih: "i + 1 \<le> j" "j - (i + 1) < length rs"
      "map_of (map register_pair rs) a = Some (rg_value (rs ! (j - (i + 1))))"
      "map_of (map register_pair (rs[j - (i + 1) := (rs ! (j - (i + 1)))\<lparr>rg_value := v\<rparr>])) = (map_of (map register_pair rs))(a \<mapsto> v)"
      by blast+
    have ji: "j - i = Suc (j - (i + 1))" using ih(1) by simp
    show ?thesis
      unfolding ji
    proof (intro conjI)
      show "i \<le> j" "Suc (j - (i + 1)) < length (r # rs)" using ih(1,2) by simp_all
      show "map_of (map register_pair (r # rs)) a = Some (rg_value ((r # rs) ! Suc (j - (i + 1))))"
        using ih(3) False by (simp add: register_pair_def)
      have "map_of (map register_pair ((r # rs)[Suc (j - (i + 1)) := ((r # rs) ! Suc (j - (i + 1)))\<lparr>rg_value := v\<rparr>])) =
          ((map_of (map register_pair rs))(a \<mapsto> v))(rg_address r \<mapsto> rg_value r)"
        using ih(4) by (simp add: register_pair_def del: fun_upd_apply)
      also have "\<dots> = (map_of (map register_pair (r # rs)))(a \<mapsto> v)"
        using False by (simp add: register_pair_def fun_upd_twist del: fun_upd_apply)
      finally show "map_of (map register_pair ((r # rs)[Suc (j - (i + 1)) := ((r # rs) ! Suc (j - (i + 1)))\<lparr>rg_value := v\<rparr>])) =
          (map_of (map register_pair (r # rs)))(a \<mapsto> v)" .
    qed
  qed
qed simp

lemma find_reg_total: "modbus_inv m \<Longrightarrow> find_reg m a = Some (find_address a 0 (take (mb_count m) (mb_registers m)))"
  by (simp add: find_reg_def modbus_inv_def)

lemma get_hreg_bank: "modbus_inv m \<Longrightarrow> get_hreg m a = Some (bank_get (bank_of m) a)"
proof (cases "find_address a 0 (take (mb_count m) (mb_registers m))")
  case None
  assume "modbus_inv m"
  then show ?thesis using None find_address_None [THEN iffD1, OF None] by (simp add: get_hreg_def find_reg_total bank_get_def bank_of_def)
next
  case (Some i)
  assume "modbus_inv m"
  then show ?thesis using Some find_address_Some [OF Some] by (simp add: get_hreg_def find_reg_total bank_get_def bank_of_def)
qed

lemma set_value_bank:
  assumes "modbus_inv m" "find_address a 0 (take (mb_count m) (mb_registers m)) = Some i"
  shows "modbus_inv (set_value m i v) \<and> bank_of (set_value m i v) = (bank_of m)(a \<mapsto> v) \<and> a \<in> dom (bank_of m)"
proof -
  note f = find_address_Some [OF assms(2), of v, simplified]
  have "i < mb_count m" using f by simp
  then have "take (mb_count m) ((mb_registers m)[i := (mb_registers m ! i)\<lparr>rg_value := v\<rparr>]) =
      (take (mb_count m) (mb_registers m))[i := (take (mb_count m) (mb_registers m) ! i)\<lparr>rg_value := v\<rparr>]"
    by (simp add: take_update_swap)
  then show ?thesis using f assms(1) by (auto simp: bank_of_def set_value_def modbus_inv_def)
qed

lemma set_hreg_bank:
  assumes "modbus_inv m"
  shows "\<exists>m'. set_hreg m a v = Some (m', a \<in> dom (bank_of m)) \<and> modbus_inv m' \<and> bank_of m' = bank_put (bank_of m) a v"
proof (cases "find_address a 0 (take (mb_count m) (mb_registers m))")
  case None
  then have "a \<notin> dom (bank_of m)" using find_address_None by (auto simp: bank_of_def)
  then show ?thesis using None assms by (simp add: set_hreg_def find_reg_total bank_put_def)
next
  case (Some i)
  then show ?thesis using set_value_bank [OF assms Some, of v] assms by (simp add: set_hreg_def find_reg_total bank_put_def)
qed

text \<open>Adding a register: a new address while there is room, the new value of an old one.\<close>

lemma add_hreg_bank:
  assumes "modbus_inv m"
  shows "\<exists>m'. add_hreg m a v = Some m' \<and> modbus_inv m' \<and> mb_count m' \<le> mb_count m + 1 \<and>
     bank_of m' = (if a \<in> dom (bank_of m) \<or> mb_count m < 32 then (bank_of m)(a \<mapsto> v) else bank_of m)"
proof (cases "find_address a 0 (take (mb_count m) (mb_registers m))")
  case (Some i)
  then show ?thesis using set_value_bank [OF assms Some, of v] assms
    by (simp add: add_hreg_def find_reg_total) (simp add: set_value_def)
next
  case None
  then have a: "a \<notin> dom (bank_of m)" using find_address_None by (auto simp: bank_of_def)
  let ?r = "\<lparr>rg_address = a, rg_value = v\<rparr>"
  have "take (Suc (mb_count m)) ((mb_registers m)[mb_count m := ?r]) = take (mb_count m) (mb_registers m) @ [?r]"
    if "mb_count m < length (mb_registers m)"
    using that by (simp add: take_Suc_conv_app_nth)
  moreover have "map_of (xs @ [(a, v)]) = (map_of xs)(a \<mapsto> v)" if "map_of xs a = None" for xs
    using that by (auto simp: map_add_def fun_eq_iff split: option.split)
  ultimately show ?thesis
    using a None assms
    by (auto simp: add_hreg_def find_reg_total put_def modbus_inv_def bank_of_def register_pair_def dom_def)
qed

lemma modbus_new_bank: "modbus_inv modbus_new \<and> bank_of modbus_new = Map.empty"
  by (simp add: modbus_inv_def modbus_new_def bank_of_def)

lemma load_register_map_bank:
  assumes "modbus_inv m" "mb_count m + length ds \<le> 32"
  shows "\<exists>m'. load_register_map m ds = Some m' \<and> modbus_inv m' \<and>
     bank_of m' = bank_of m ++ map_of (rev (map (\<lambda>d. (rd_address d, rd_default_value d)) ds))"
  using assms
proof (induction ds arbitrary: m)
  case (Cons d ds)
  have "mb_count m < 32" using Cons.prems(2) by simp
  then obtain m1 where m1: "add_hreg m (rd_address d) (rd_default_value d) = Some m1" "modbus_inv m1"
      "mb_count m1 \<le> mb_count m + 1" "bank_of m1 = (bank_of m)(rd_address d \<mapsto> rd_default_value d)"
    using add_hreg_bank [OF Cons.prems(1)] by metis
  then obtain m' where "load_register_map m1 ds = Some m'" "modbus_inv m'"
      "bank_of m' = bank_of m1 ++ map_of (rev (map (\<lambda>d. (rd_address d, rd_default_value d)) ds))"
    using Cons.IH [OF m1(2)] m1(3) Cons.prems(2) by fastforce
  then show ?case using m1 by (simp add: map_add_def fun_eq_iff split: option.split)
qed simp

section \<open>Requests refine the reference\<close>

lemma be16_zero [simp]: "be16 0 = [0, 0]"
  by (simp add: be16_def)

lemma mbap_header_eq: "mbap_header tid u len = be16 tid @ [0, 0] @ be16 len @ [u]"
  by (simp add: mbap_header_def push_u16_def push_drop_room)

lemma modbus_exception_eq: "modbus_exception tid u func code = reply_frame tid u [func OR 0x80, code]"
  by (simp add: modbus_exception_def mbap_header_eq push_drop_room reply_frame_def)

lemma read_u16_eq: "i + 1 < length f \<Longrightarrow> modbus_read_u16 f i = Some (frame_u16 f i)"
  by (simp add: modbus_read_u16_def frame_u16_def idx_def)

lemma push_registers_eq:
  assumes "modbus_inv m" "length resp + 2 * n \<le> 260"
  shows "push_registers m start n off resp =
    Some (resp @ concat (map (\<lambda>i. be16 (bank_get (bank_of m) (start + (off + of_nat i)))) [0..<n]))"
  using assms(2)
proof (induction n arbitrary: off resp)
  case (Suc n)
  let ?v = "bank_get (bank_of m) (start + off)"
  have "[0..<Suc n] = 0 # map Suc [0..<n]" by (simp add: upt_conv_Cons map_Suc_upt)
  then have "concat (map (\<lambda>i. be16 (bank_get (bank_of m) (start + (off + of_nat i)))) [0..<Suc n]) =
      be16 ?v @ concat (map (\<lambda>i. be16 (bank_get (bank_of m) (start + ((off + 1) + of_nat i)))) [0..<n])"
    by (simp add: comp_def add.assoc)
  then show ?case
    using Suc.IH [of "push_u16 resp ?v" "off + 1"] Suc.prems by (simp add: get_hreg_bank [OF assms(1)] push_u16_def)
qed simp

lemma write_registers_eq:
  assumes "modbus_inv m" "k + n \<le> 60000" "13 + 2 * (k + n) \<le> length f"
  shows "\<exists>m'. write_registers m f start n (of_nat k) = Some m' \<and> modbus_inv m' \<and>
    bank_of m' = foldl (\<lambda>b i. bank_put b (start + of_nat i) (frame_u16 f (13 + i * 2))) (bank_of m) [k..<k + n]"
  using assms
proof (induction n arbitrary: k m)
  case (Suc n)
  have k: "unat (of_nat k :: u16) = k" using Suc.prems(2) by (simp add: unat_of_nat)
  have rd: "modbus_read_u16 f (13 + k * 2) = Some (frame_u16 f (13 + k * 2))"
    by (rule read_u16_eq) (use Suc.prems(3) in simp)
  obtain m1 known where m1: "set_hreg m (start + of_nat k) (frame_u16 f (13 + k * 2)) = Some (m1, known)" "modbus_inv m1"
      "bank_of m1 = bank_put (bank_of m) (start + of_nat k) (frame_u16 f (13 + k * 2))"
    using set_hreg_bank [OF Suc.prems(1)] by metis
  have up: "[k..<k + Suc n] = k # [Suc k..<Suc k + n]" by (simp add: upt_conv_Cons)
  show ?case
    using Suc.IH [OF m1(2), of "Suc k"] Suc.prems(2,3) m1 k rd unfolding up by (simp add: add.commute)
qed simp

lemma bank_write_eq:
  "bank_write b start (write_values f n) =
     foldl (\<lambda>b i. bank_put b (start + of_nat i) (frame_u16 f (13 + i * 2))) b [0..<n]"
proof -
  have "enumerate 0 (write_values f n) = map (\<lambda>i. (i, frame_u16 f (13 + i * 2))) [0..<n]"
    by (simp add: write_values_def enumerate_eq_zip zip_map2 zip_same_conv_map)
  then show ?thesis by (simp add: bank_write_def foldl_map)
qed

lemma read_refines:
  assumes inv: "modbus_inv m" and f: "8 \<le> length f" "f ! 7 = 3"
  shows "\<exists>resp. read_holding m f tid u = Some resp \<and> resp =
    (let start = frame_u16 f 8; quantity = unat (frame_u16 f 10)
     in if length f < 12 \<or> quantity \<notin> {1..125} then reply_frame tid u [3 OR 0x80, 3]
        else reply_frame tid u ([3, of_nat (2 * quantity)] @ bank_read (bank_of m) start quantity))"
proof (cases "length f < 12")
  case True
  then show ?thesis by (simp add: read_holding_def modbus_exception_eq)
next
  case False
  let ?q = "unat (frame_u16 f 10)"
  have rd: "modbus_read_u16 f 8 = Some (frame_u16 f 8)" "modbus_read_u16 f 10 = Some (frame_u16 f 10)"
    using False by (simp_all add: read_u16_eq)
  have q0: "frame_u16 f 10 = 0 \<longleftrightarrow> ?q = 0" by (simp add: unat_eq_zero)
  show ?thesis
  proof (cases "?q \<in> {1..125}")
    case True
    let ?h = "mbap_header tid u (of_nat (3 + ?q * 2)) @ [3, of_nat (?q * 2)]"
    have h: "length ?h = 9" by (simp add: mbap_header_eq)
    have "push_registers m (frame_u16 f 8) ?q 0 ?h = Some (?h @ bank_read (bank_of m) (frame_u16 f 8) ?q)"
      using push_registers_eq [OF inv, of ?h ?q "frame_u16 f 8" 0] h True by (simp add: bank_read_def)
    moreover have "length (bank_read (bank_of m) (frame_u16 f 8) ?q) = 2 * ?q"
      by (simp add: bank_read_def length_concat comp_def sum_list_triv)
    moreover have "push_drop 260 (push_drop 260 (mbap_header tid u (of_nat (3 + ?q * 2))) 3) (of_nat (?q * 2)) = ?h"
      by (simp add: push_drop_room mbap_header_eq)
    ultimately show ?thesis
      using False True rd q0 by (simp add: read_holding_def Let_def reply_frame_def mbap_header_eq mult.commute)
  next
    case no: False
    then have "frame_u16 f 10 = 0 \<or> ?q * 2 + 9 > 260" using q0 by auto
    then show ?thesis using False no rd by (auto simp: read_holding_def Let_def modbus_exception_eq)
  qed
qed

lemma write_single_refines:
  assumes inv: "modbus_inv m" and f: "12 \<le> length f"
  shows "\<exists>m'. write_single m f tid u =
      Some (m', reply_frame tid u ([6] @ be16 (frame_u16 f 8) @ be16 (frame_u16 f 10))) \<and> modbus_inv m' \<and>
    bank_of m' = bank_put (bank_of m) (frame_u16 f 8) (frame_u16 f 10)"
proof -
  have "modbus_read_u16 f 8 = Some (frame_u16 f 8)" "modbus_read_u16 f 10 = Some (frame_u16 f 10)"
    using f by (simp_all add: read_u16_eq)
  then show ?thesis
    using set_hreg_bank [OF inv, of "frame_u16 f 8" "frame_u16 f 10"] f
    by (auto simp: write_single_def mbap_header_eq push_drop_room push_u16_def reply_frame_def)
qed

lemma write_multiple_refines:
  assumes inv: "modbus_inv m" and f: "13 \<le> length f"
    and q: "q = unat (frame_u16 f 10)" "0 < q" "unat (f ! 12) = 2 * q" "13 + 2 * q \<le> length f"
  shows "\<exists>m'. write_multiple m f tid u =
      Some (m', reply_frame tid u ([0x10] @ be16 (frame_u16 f 8) @ be16 (of_nat q))) \<and> modbus_inv m' \<and>
    bank_of m' = bank_write (bank_of m) (frame_u16 f 8) (write_values f q)"
proof -
  have rd: "modbus_read_u16 f 8 = Some (frame_u16 f 8)" "modbus_read_u16 f 10 = Some (frame_u16 f 10)" "idx f 12 = Some (f ! 12)"
    using f by (simp_all add: read_u16_eq idx_def)
  have ne: "frame_u16 f 10 \<noteq> 0" using q(1,2) by auto
  have "unat (f ! 12) < 256" using unsigned_less [of "f ! 12"] by simp
  then have "0 + q \<le> 60000" using q(3) by simp
  from write_registers_eq [OF inv this, of f "frame_u16 f 8"] q(4) obtain m' where
    m': "write_registers m f (frame_u16 f 8) q 0 = Some m'" "modbus_inv m'"
      "bank_of m' = bank_write (bank_of m) (frame_u16 f 8) (write_values f q)"
    by (auto simp: bank_write_eq)
  have "of_nat q = frame_u16 f 10" using q(1) by simp
  then have "write_multiple m f tid u = Some (m', reply_frame tid u ([0x10] @ be16 (frame_u16 f 8) @ be16 (of_nat q)))"
    using rd ne f q m'(1)
    by (simp add: write_multiple_def Let_def mbap_header_eq push_drop_room push_u16_def reply_frame_def)
  then show ?thesis using m' by simp
qed

lemma write_multiple_refused:
  assumes "length f < 13 \<or> unat (frame_u16 f 10) = 0 \<or> unat (f ! 12) \<noteq> 2 * unat (frame_u16 f 10) \<or>
     length f < 13 + 2 * unat (frame_u16 f 10)"
  shows "write_multiple m f tid u = Some (m, reply_frame tid u [0x10 OR 0x80, 3])"
proof (cases "length f < 13")
  case True
  then show ?thesis by (simp add: write_multiple_def modbus_exception_eq)
next
  case False
  then have "modbus_read_u16 f 8 = Some (frame_u16 f 8)" "modbus_read_u16 f 10 = Some (frame_u16 f 10)" "idx f 12 = Some (f ! 12)"
    by (simp_all add: read_u16_eq idx_def)
  then show ?thesis using assms False
    by (auto simp: write_multiple_def Let_def modbus_exception_eq mult.commute unat_eq_zero)
qed

lemma process_frame_refines:
  assumes inv: "modbus_inv m"
  shows "\<exists>m' resp. process_frame m f = Some (m', resp) \<and> modbus_inv m' \<and> (bank_of m', resp) = bank_serve (bank_of m) f"
proof (cases "length f < 8")
  case True
  then show ?thesis using inv by (simp add: process_frame_def bank_serve_def)
next
  case False
  let ?q = "unat (frame_u16 f 10)"
  have pf: "modbus_read_u16 f 0 = Some (frame_u16 f 0)" "idx f 6 = Some (f ! 6)" "idx f 7 = Some (f ! 7)"
    using False by (simp_all add: read_u16_eq idx_def)
  consider "f ! 7 = 3" | "f ! 7 = 6" | "f ! 7 = 0x10" | "f ! 7 \<notin> {3, 6, 0x10}" by blast
  then show ?thesis
  proof cases
    case 1
    then show ?thesis
      using read_refines [OF inv, of f "frame_u16 f 0" "f ! 6"] False pf inv
      by (auto simp: process_frame_def bank_serve_def Let_def)
  next
    case 2
    show ?thesis
    proof (cases "length f < 12")
      case True
      then show ?thesis
        using 2 False pf inv by (simp add: process_frame_def bank_serve_def Let_def write_single_def modbus_exception_eq)
    next
      case no: False
      then obtain m' where "write_single m f (frame_u16 f 0) (f ! 6) =
          Some (m', reply_frame (frame_u16 f 0) (f ! 6) ([6] @ be16 (frame_u16 f 8) @ be16 (frame_u16 f 10)))" "modbus_inv m'"
          "bank_of m' = bank_put (bank_of m) (frame_u16 f 8) (frame_u16 f 10)"
        using write_single_refines [OF inv, of f "frame_u16 f 0" "f ! 6"] by auto
      then show ?thesis using 2 False pf no by (simp add: process_frame_def bank_serve_def Let_def)
    qed
  next
    case 3
    show ?thesis
    proof (cases "length f < 13 \<or> ?q = 0 \<or> unat (f ! 12) \<noteq> 2 * ?q \<or> length f < 13 + 2 * ?q")
      case True
      then show ?thesis
        using write_multiple_refused [OF True, of m "frame_u16 f 0" "f ! 6"] 3 False pf inv
        by (simp add: process_frame_def bank_serve_def Let_def)
    next
      case no: False
      then obtain m' where "write_multiple m f (frame_u16 f 0) (f ! 6) =
          Some (m', reply_frame (frame_u16 f 0) (f ! 6) ([0x10] @ be16 (frame_u16 f 8) @ be16 (of_nat ?q)))" "modbus_inv m'"
          "bank_of m' = bank_write (bank_of m) (frame_u16 f 8) (write_values f ?q)"
        using write_multiple_refines [OF inv _ refl, of f "frame_u16 f 0" "f ! 6"] by auto
      then show ?thesis using 3 False pf no by (simp add: process_frame_def bank_serve_def Let_def)
    qed
  next
    case 4
    then show ?thesis
      using False pf inv by (simp add: process_frame_def bank_serve_def Let_def modbus_exception_eq)
  qed
qed

text \<open>A session: requests one after the other, with the responses.\<close>

fun modbus_session :: "modbus_slave \<Rightarrow> bytes list \<Rightarrow> (modbus_slave \<times> bytes option list) option" where
  "modbus_session m [] = Some (m, [])"
| "modbus_session m (f # fs) = do {
     (m, r) \<leftarrow> process_frame m f; (m, rs) \<leftarrow> modbus_session m fs; Some (m, r # rs) }"

fun bank_session :: "bank \<Rightarrow> bytes list \<Rightarrow> bank \<times> bytes option list" where
  "bank_session b [] = (b, [])"
| "bank_session b (f # fs) = (let (b, r) = bank_serve b f; (b, rs) = bank_session b fs in (b, r # rs))"

lemma session_refines:
  assumes "modbus_inv m"
  shows "\<exists>m' rs. modbus_session m fs = Some (m', rs) \<and> modbus_inv m' \<and> (bank_of m', rs) = bank_session (bank_of m) fs"
  using assms
proof (induction fs arbitrary: m)
  case (Cons f fs)
  obtain m1 r where m1: "process_frame m f = Some (m1, r)" "modbus_inv m1" "bank_serve (bank_of m) f = (bank_of m1, r)"
    using process_frame_refines [OF Cons.prems, of f] by auto
  obtain m' rs where "modbus_session m1 fs = Some (m', rs)" "modbus_inv m'" "bank_session (bank_of m1) fs = (bank_of m', rs)"
    using Cons.IH [OF m1(2)] by metis
  then show ?case using m1 by simp
qed simp

text \<open>Registers written in one request read back what was written.\<close>

lemma bank_put_dom [simp]: "dom (bank_put b a v) = dom b"
  by (auto simp: bank_put_def)

lemma bank_write_Nil [simp]: "bank_write b start [] = b"
  by (simp add: bank_write_def)

lemma bank_write_snoc:
  "bank_write b start (vs @ [v]) = bank_put (bank_write b start vs) (start + of_nat (length vs)) v"
  by (simp add: bank_write_def enumerate_append_eq)

lemma bank_write_dom [simp]: "dom (bank_write b start vs) = dom b"
  by (induction vs rule: rev_induct) (simp_all add: bank_write_snoc)

lemma bank_read_back:
  assumes "length vs \<le> 65536" "i < length vs" "start + of_nat i \<in> dom b"
  shows "bank_get (bank_write b start vs) (start + of_nat i) = vs ! i"
  using assms(1,2)
proof (induction vs rule: rev_induct)
  case (snoc v vs)
  show ?case
  proof (cases "i = length vs")
    case True
    then show ?thesis using assms(3) by (simp add: bank_write_snoc bank_put_def bank_get_def)
  next
    case False
    then have i: "i < length vs" "length vs < 65536" using snoc.prems by simp_all
    have "(of_nat i :: u16) \<noteq> of_nat (length vs)"
      using i by (auto dest!: arg_cong [where f = unat] simp: unat_of_nat)
    then show ?thesis
      using snoc.IH i by (simp add: bank_write_snoc bank_put_def bank_get_def nth_append)
  qed
qed simp

section \<open>The network configuration is taken once\<close>

lemma ip_total: "modbus_inv m \<Longrightarrow> ip_from_registers m as = Some (map (\<lambda>a. ucast (bank_get (bank_of m) a)) as)"
  by (induction "as") (simp_all add: get_hreg_bank)

lemma network_config_total:
  "modbus_inv m \<Longrightarrow> network_config m = Some
     \<lparr>nc_ip = map (\<lambda>a. ucast (bank_get (bank_of m) a)) REG_IP,
      nc_subnet = map (\<lambda>a. ucast (bank_get (bank_of m) a)) REG_SUBNET,
      nc_gateway = map (\<lambda>a. ucast (bank_get (bank_of m) a)) REG_GW\<rparr>"
  by (simp add: network_config_def ip_total)

lemma take_network_update_once:
  assumes "modbus_inv m"
  shows "\<exists>m' r. take_network_update m = Some (m', r) \<and> modbus_inv m' \<and> take_network_update m' = Some (m', None)"
proof (cases "bank_get (bank_of m) REG_APPLY_NETWORK = 0")
  case True
  then show ?thesis using assms by (simp add: take_network_update_def get_hreg_bank)
next
  case False
  then have known: "REG_APPLY_NETWORK \<in> dom (bank_of m)" by (auto simp: bank_get_def split: option.splits)
  obtain m' where m': "set_hreg m REG_APPLY_NETWORK 0 = Some (m', True)" "modbus_inv m'"
      "bank_of m' = bank_put (bank_of m) REG_APPLY_NETWORK 0"
    using set_hreg_bank [OF assms, of REG_APPLY_NETWORK 0] known by auto
  then have "bank_get (bank_of m') REG_APPLY_NETWORK = 0" using known by (simp add: bank_put_def bank_get_def)
  then show ?thesis
    using m' False assms by (simp add: take_network_update_def get_hreg_bank network_config_total)
qed

text \<open>The default map.\<close>

lemma default_map_loads:
  "\<exists>m. load_register_map modbus_new USER_REGISTERS = Some m \<and> modbus_inv m \<and>
     bank_of m = map_of (map (\<lambda>d. (rd_address d, rd_default_value d)) USER_REGISTERS)"
proof -
  have "length USER_REGISTERS = 15" "mb_count modbus_new = 0" by (simp_all add: USER_REGISTERS_def modbus_new_def)
  then obtain m where m: "load_register_map modbus_new USER_REGISTERS = Some m" "modbus_inv m"
      "bank_of m = map_of (rev (map (\<lambda>d. (rd_address d, rd_default_value d)) USER_REGISTERS))"
    using load_register_map_bank [of modbus_new USER_REGISTERS] modbus_new_bank by auto
  have "distinct (map rd_address USER_REGISTERS)"
    by (simp add: USER_REGISTERS_def REG_IP_def REG_SUBNET_def REG_GW_def REG_APPLY_NETWORK_def REG_MODBUS_UNIT_ID_def
        REG_STATUS_def)
  then have "map_of (rev (map (\<lambda>d. (rd_address d, rd_default_value d)) USER_REGISTERS)) =
      map_of (map (\<lambda>d. (rd_address d, rd_default_value d)) USER_REGISTERS)"
    by (intro map_of_inject_set [THEN iffD2]) (simp_all add: comp_def rev_map [symmetric])
  then show ?thesis using m by simp
qed

end
