(* ===== verification/W5500.thy ===== *)
theory W5500
  imports Modbus
begin

text \<open>
  The W5500 network chip behind an SPI bus, \<^verbatim>\<open>src/src/net/w5500_spi.rs\<close>: register access in frames of
  address, control byte and data, the socket buffers as rings, the TCP socket that carries Modbus, and the
  echo server. The SPI bus is the trait \<^verbatim>\<open>Transfer\<close>, a parameter \<open>xf\<close>: it takes the bytes sent and gives
  the bytes received or an error. The firmware for EtherCAT does not run the module.
\<close>

unbundle bit_operations_syntax

section \<open>Constants\<close>

definition DEFAULT_MAC :: bytes where "DEFAULT_MAC = [0x04, 0xE9, 0xE5, 0x10, 0x00, 0x01]"
definition MODBUS_TCP_PORT :: u16 where "MODBUS_TCP_PORT = 502"

definition COMMON_BLOCK :: u8 where "COMMON_BLOCK = 0x00"
definition SOCKET0_BLOCK :: u8 where "SOCKET0_BLOCK = 0x01"
definition SOCKET0_TX_BLOCK :: u8 where "SOCKET0_TX_BLOCK = 0x02"
definition SOCKET0_RX_BLOCK :: u8 where "SOCKET0_RX_BLOCK = 0x03"
definition SOCKET1_BLOCK :: u8 where "SOCKET1_BLOCK = 0x05"
definition SOCKET1_TX_BLOCK :: u8 where "SOCKET1_TX_BLOCK = 0x06"
definition SOCKET1_RX_BLOCK :: u8 where "SOCKET1_RX_BLOCK = 0x07"
definition READ_CONTROL :: u8 where "READ_CONTROL = 0x00"
definition WRITE_CONTROL :: u8 where "WRITE_CONTROL = 0x04"

definition REG_MODE :: u16 where "REG_MODE = 0x0000"
definition REG_GATEWAY :: u16 where "REG_GATEWAY = 0x0001"
definition REG_SUBNET_MASK :: u16 where "REG_SUBNET_MASK = 0x0005"
definition REG_MAC :: u16 where "REG_MAC = 0x0009"
definition REG_IP_ADDRESS :: u16 where "REG_IP_ADDRESS = 0x000F"
definition REG_PHY_CONFIG :: u16 where "REG_PHY_CONFIG = 0x002E"
definition REG_VERSION :: u16 where "REG_VERSION = 0x0039"
definition EXPECTED_VERSION :: u8 where "EXPECTED_VERSION = 0x04"
definition PHY_CONFIG_RESET :: u8 where "PHY_CONFIG_RESET = 0x80"
definition PHY_CONFIG_SOFTWARE_MODE :: u8 where "PHY_CONFIG_SOFTWARE_MODE = 0x40"
definition PHY_CONFIG_100BT_FULL_DUPLEX :: u8 where "PHY_CONFIG_100BT_FULL_DUPLEX = 0x18"
definition PHY_CONFIG_FORCED_100_FULL :: u8 where
  "PHY_CONFIG_FORCED_100_FULL = PHY_CONFIG_RESET OR PHY_CONFIG_SOFTWARE_MODE OR PHY_CONFIG_100BT_FULL_DUPLEX"

definition SOCKET_MODE :: u16 where "SOCKET_MODE = 0x0000"
definition SOCKET_COMMAND :: u16 where "SOCKET_COMMAND = 0x0001"
definition SOCKET_STATUS :: u16 where "SOCKET_STATUS = 0x0003"
definition SOCKET_PORT :: u16 where "SOCKET_PORT = 0x0004"
definition SOCKET_DESTINATION_IP :: u16 where "SOCKET_DESTINATION_IP = 0x000C"
definition SOCKET_RX_BUFFER_SIZE :: u16 where "SOCKET_RX_BUFFER_SIZE = 0x001E"
definition SOCKET_TX_BUFFER_SIZE :: u16 where "SOCKET_TX_BUFFER_SIZE = 0x001F"
definition SOCKET_TX_FREE_SIZE :: u16 where "SOCKET_TX_FREE_SIZE = 0x0020"
definition SOCKET_TX_WRITE_POINTER :: u16 where "SOCKET_TX_WRITE_POINTER = 0x0024"
definition SOCKET_RX_RECEIVED_SIZE :: u16 where "SOCKET_RX_RECEIVED_SIZE = 0x0026"
definition SOCKET_RX_READ_POINTER :: u16 where "SOCKET_RX_READ_POINTER = 0x0028"

definition SOCKET_MODE_TCP :: u8 where "SOCKET_MODE_TCP = 0x01"
definition SOCKET_MODE_IPRAW :: u8 where "SOCKET_MODE_IPRAW = 0x03"
definition SOCKET_COMMAND_OPEN :: u8 where "SOCKET_COMMAND_OPEN = 0x01"
definition SOCKET_COMMAND_DISCONNECT :: u8 where "SOCKET_COMMAND_DISCONNECT = 0x08"
definition SOCKET_COMMAND_CLOSE :: u8 where "SOCKET_COMMAND_CLOSE = 0x10"
definition SOCKET_COMMAND_LISTEN :: u8 where "SOCKET_COMMAND_LISTEN = 0x02"
definition SOCKET_COMMAND_SEND :: u8 where "SOCKET_COMMAND_SEND = 0x20"
definition SOCKET_COMMAND_RECEIVE :: u8 where "SOCKET_COMMAND_RECEIVE = 0x40"
definition SOCKET_STATUS_CLOSED :: u8 where "SOCKET_STATUS_CLOSED = 0x00"
definition SOCKET_STATUS_INIT :: u8 where "SOCKET_STATUS_INIT = 0x13"
definition SOCKET_STATUS_LISTEN :: u8 where "SOCKET_STATUS_LISTEN = 0x14"
definition SOCKET_STATUS_ESTABLISHED :: u8 where "SOCKET_STATUS_ESTABLISHED = 0x17"
definition SOCKET_STATUS_CLOSE_WAIT :: u8 where "SOCKET_STATUS_CLOSE_WAIT = 0x1C"
definition SOCKET_STATUS_IPRAW :: u8 where "SOCKET_STATUS_IPRAW = 0x32"
definition COMMAND_POLL_LIMIT :: nat where "COMMAND_POLL_LIMIT = 256"
definition STATUS_POLL_LIMIT :: nat where "STATUS_POLL_LIMIT = 512"
definition SOCKET_BUFFER_MASK :: u16 where "SOCKET_BUFFER_MASK = 0x07FF"
definition BUFFER_TRANSFER_CHUNK :: nat where [simp]: "BUFFER_TRANSFER_CHUNK = 32"
definition MAX_ICMP_PACKET :: nat where [simp]: "MAX_ICMP_PACKET = 128"
definition MAX_MODBUS_TCP_FRAME :: nat where [simp]: "MAX_MODBUS_TCP_FRAME = 260"
definition ICMP_ECHO_REPLY :: u8 where "ICMP_ECHO_REPLY = 0"
definition ICMP_ECHO_REQUEST :: u8 where "ICMP_ECHO_REQUEST = 8"

section \<open>Operations on the bus\<close>

text \<open>An operation returns, with the bus after it, or panics (\<open>None\<close>); \<open>port_bind\<close> is \<^verbatim>\<open>?\<close>.\<close>

type_synonym ('s, 'e) port = "'s \<Rightarrow> bytes \<Rightarrow> 's \<times> ('e + bytes)"
type_synonym ('s, 'e, 'a) port_io = "'s \<Rightarrow> ('s \<times> ('e + 'a)) option"

definition port_ret :: "'a \<Rightarrow> ('s, 'e, 'a) port_io" where "port_ret v s = Some (s, Inr v)"

definition port_bind :: "('s, 'e, 'a) port_io \<Rightarrow> ('a \<Rightarrow> ('s, 'e, 'b) port_io) \<Rightarrow> ('s, 'e, 'b) port_io" where
  "port_bind m f s = do {
     (s, r) \<leftarrow> m s;
     case r of Inl e \<Rightarrow> Some (s, Inl e) | Inr v \<Rightarrow> f v s }"

definition address_hi :: "u16 \<Rightarrow> u8" where "address_hi a = ucast (drop_bit 8 a)"
definition address_lo :: "u16 \<Rightarrow> u8" where "address_lo a = ucast a"

definition spi_control :: "u8 \<Rightarrow> bool \<Rightarrow> u8" where
  "spi_control block wr = push_bit 3 block OR (if wr then WRITE_CONTROL else READ_CONTROL)"

definition w5_read_u8 :: "('s, 'e) port \<Rightarrow> u8 \<Rightarrow> u16 \<Rightarrow> ('s, 'e, u8) port_io" where
  "w5_read_u8 xf block address s =
     (let (s, r) = xf s [address_hi address, address_lo address, spi_control block False, 0]
      in case r of
           Inl e \<Rightarrow> Some (s, Inl e)
         | Inr frame \<Rightarrow> do { v \<leftarrow> idx frame 3; Some (s, Inr v) })"

text \<open>\<open>n\<close> is the length of the slice to fill.\<close>

definition read_into :: "('s, 'e) port \<Rightarrow> u8 \<Rightarrow> u16 \<Rightarrow> nat \<Rightarrow> ('s, 'e, bytes) port_io" where
  "read_into xf block address n s = do {
     let frame = replicate (3 + BUFFER_TRANSFER_CHUNK) 0;
     let len = 3 + n;
     frame \<leftarrow> put frame 0 (address_hi address);
     frame \<leftarrow> put frame 1 (address_lo address);
     frame \<leftarrow> put frame 2 (spi_control block False);
     sent \<leftarrow> slice frame 0 len;
     let (s, r) = xf s sent;
     case r of
       Inl e \<Rightarrow> Some (s, Inl e)
     | Inr frame \<Rightarrow> do { vs \<leftarrow> slice frame 3 len; Some (s, Inr vs) } }"

definition w5_write :: "('s, 'e) port \<Rightarrow> u8 \<Rightarrow> u16 \<Rightarrow> bytes \<Rightarrow> ('s, 'e, unit) port_io" where
  "w5_write xf block address values s = do {
     let frame = replicate (3 + BUFFER_TRANSFER_CHUNK) 0;
     let len = 3 + length values;
     frame \<leftarrow> put frame 0 (address_hi address);
     frame \<leftarrow> put frame 1 (address_lo address);
     frame \<leftarrow> put frame 2 (spi_control block True);
     frame \<leftarrow> copy_at frame 3 len values;
     sent \<leftarrow> slice frame 0 len;
     let (s, r) = xf s sent;
     case r of Inl e \<Rightarrow> Some (s, Inl e) | Inr _ \<Rightarrow> Some (s, Inr ()) }"

definition read_socket_u8 :: "('s, 'e) port \<Rightarrow> u8 \<Rightarrow> u16 \<Rightarrow> ('s, 'e, u8) port_io" where
  "read_socket_u8 xf block address = w5_read_u8 xf block address"

definition read_common_u8 :: "('s, 'e) port \<Rightarrow> u16 \<Rightarrow> ('s, 'e, u8) port_io" where
  "read_common_u8 xf address = w5_read_u8 xf COMMON_BLOCK address"

definition read_socket0_u8 :: "('s, 'e) port \<Rightarrow> u16 \<Rightarrow> ('s, 'e, u8) port_io" where
  "read_socket0_u8 xf address = read_socket_u8 xf SOCKET0_BLOCK address"

definition read_socket_u16 :: "('s, 'e) port \<Rightarrow> u8 \<Rightarrow> u16 \<Rightarrow> ('s, 'e, u16) port_io" where
  "read_socket_u16 xf block address =
     port_bind (read_into xf block address 2) (\<lambda>bs s. do {
       a \<leftarrow> idx bs 0; b \<leftarrow> idx bs 1; Some (s, Inr (of_be16 a b)) })"

definition read_socket0_u16 :: "('s, 'e) port \<Rightarrow> u16 \<Rightarrow> ('s, 'e, u16) port_io" where
  "read_socket0_u16 xf address = read_socket_u16 xf SOCKET0_BLOCK address"

definition write_socket_u8 :: "('s, 'e) port \<Rightarrow> u8 \<Rightarrow> u16 \<Rightarrow> u8 \<Rightarrow> ('s, 'e, unit) port_io" where
  "write_socket_u8 xf block address v = w5_write xf block address [v]"

definition write_socket_u16 :: "('s, 'e) port \<Rightarrow> u8 \<Rightarrow> u16 \<Rightarrow> u16 \<Rightarrow> ('s, 'e, unit) port_io" where
  "write_socket_u16 xf block address v = w5_write xf block address (be16 v)"

definition write_socket0_u8 :: "('s, 'e) port \<Rightarrow> u16 \<Rightarrow> u8 \<Rightarrow> ('s, 'e, unit) port_io" where
  "write_socket0_u8 xf address v = write_socket_u8 xf SOCKET0_BLOCK address v"

definition write_socket0_u16 :: "('s, 'e) port \<Rightarrow> u16 \<Rightarrow> u16 \<Rightarrow> ('s, 'e, unit) port_io" where
  "write_socket0_u16 xf address v = write_socket_u16 xf SOCKET0_BLOCK address v"

definition write_socket0 :: "('s, 'e) port \<Rightarrow> u16 \<Rightarrow> bytes \<Rightarrow> ('s, 'e, unit) port_io" where
  "write_socket0 xf address values = w5_write xf SOCKET0_BLOCK address values"

definition write_common :: "('s, 'e) port \<Rightarrow> u16 \<Rightarrow> bytes \<Rightarrow> ('s, 'e, unit) port_io" where
  "write_common xf address values = w5_write xf COMMON_BLOCK address values"

definition write_common_u8 :: "('s, 'e) port \<Rightarrow> u16 \<Rightarrow> u8 \<Rightarrow> ('s, 'e, unit) port_io" where
  "write_common_u8 xf address v = write_common xf address [v]"

text \<open>The socket buffers are rings of 2048 bytes, moved 32 bytes at a time.\<close>

function read_buffer_from ::
    "('s, 'e) port \<Rightarrow> u8 \<Rightarrow> u16 \<Rightarrow> nat \<Rightarrow> nat \<Rightarrow> ('s, 'e, bytes) port_io" where
  "read_buffer_from xf block pointer n offset =
     (if offset < n then
        let stop = min (offset + BUFFER_TRANSFER_CHUNK) n;
            address = (pointer + of_nat offset) AND SOCKET_BUFFER_MASK
        in port_bind (read_into xf block address (stop - offset)) (\<lambda>vs.
           port_bind (read_buffer_from xf block pointer n stop) (\<lambda>rest. port_ret (vs @ rest)))
      else port_ret [])"
  by pat_completeness auto
termination by (relation "measure (\<lambda>(xf, block, pointer, n, offset). n - offset)") auto

definition read_buffer :: "('s, 'e) port \<Rightarrow> u8 \<Rightarrow> u16 \<Rightarrow> nat \<Rightarrow> ('s, 'e, bytes) port_io" where
  "read_buffer xf block pointer n = read_buffer_from xf block pointer n 0"

function write_buffer_from ::
    "('s, 'e) port \<Rightarrow> u8 \<Rightarrow> u16 \<Rightarrow> bytes \<Rightarrow> nat \<Rightarrow> ('s, 'e, unit) port_io" where
  "write_buffer_from xf block pointer values offset =
     (if offset < length values then
        let stop = min (offset + BUFFER_TRANSFER_CHUNK) (length values);
            address = (pointer + of_nat offset) AND SOCKET_BUFFER_MASK
        in port_bind (w5_write xf block address (take (stop - offset) (drop offset values))) (\<lambda>_.
           write_buffer_from xf block pointer values stop)
      else port_ret ())"
  by pat_completeness auto
termination by (relation "measure (\<lambda>(xf, block, pointer, values, offset). length values - offset)") auto

declare read_buffer_from.simps [simp del] write_buffer_from.simps [simp del]

definition write_buffer :: "('s, 'e) port \<Rightarrow> u8 \<Rightarrow> u16 \<Rightarrow> bytes \<Rightarrow> ('s, 'e, unit) port_io" where
  "write_buffer xf block pointer values = write_buffer_from xf block pointer values 0"

text \<open>The waits give up silently after their limit; the last argument counts the attempts left.\<close>

fun command_clear_loop :: "('s, 'e) port \<Rightarrow> u8 \<Rightarrow> nat \<Rightarrow> ('s, 'e, unit) port_io" where
  "command_clear_loop xf block 0 = port_ret ()"
| "command_clear_loop xf block (Suc n) =
     port_bind (read_socket_u8 xf block SOCKET_COMMAND) (\<lambda>v.
       if v = 0 then port_ret () else command_clear_loop xf block n)"

definition wait_socket_command_clear :: "('s, 'e) port \<Rightarrow> u8 \<Rightarrow> ('s, 'e, unit) port_io" where
  "wait_socket_command_clear xf block = command_clear_loop xf block COMMAND_POLL_LIMIT"

definition wait_socket0_command_clear :: "('s, 'e) port \<Rightarrow> ('s, 'e, unit) port_io" where
  "wait_socket0_command_clear xf = wait_socket_command_clear xf SOCKET0_BLOCK"

fun status_loop :: "('s, 'e) port \<Rightarrow> u8 \<Rightarrow> u8 \<Rightarrow> u8 \<Rightarrow> nat \<Rightarrow> ('s, 'e, u8) port_io" where
  "status_loop xf block expected status 0 = port_ret status"
| "status_loop xf block expected status (Suc n) =
     port_bind (read_socket_u8 xf block SOCKET_STATUS) (\<lambda>status.
       if status = expected \<or> status = SOCKET_STATUS_LISTEN \<or> status = SOCKET_STATUS_ESTABLISHED
       then port_ret status else status_loop xf block expected status n)"

definition wait_socket_status :: "('s, 'e) port \<Rightarrow> u8 \<Rightarrow> u8 \<Rightarrow> ('s, 'e, u8) port_io" where
  "wait_socket_status xf block expected = status_loop xf block expected SOCKET_STATUS_CLOSED STATUS_POLL_LIMIT"

definition wait_socket0_status :: "('s, 'e) port \<Rightarrow> u8 \<Rightarrow> ('s, 'e, u8) port_io" where
  "wait_socket0_status xf expected = wait_socket_status xf SOCKET0_BLOCK expected"

fun capacity_loop :: "('s, 'e) port \<Rightarrow> u8 \<Rightarrow> nat \<Rightarrow> nat \<Rightarrow> ('s, 'e, unit) port_io" where
  "capacity_loop xf block len 0 = port_ret ()"
| "capacity_loop xf block len (Suc n) =
     port_bind (read_socket_u16 xf block SOCKET_TX_FREE_SIZE) (\<lambda>v.
       if unat v \<ge> len then port_ret () else capacity_loop xf block len n)"

definition wait_tx_capacity :: "('s, 'e) port \<Rightarrow> u8 \<Rightarrow> nat \<Rightarrow> ('s, 'e, unit) port_io" where
  "wait_tx_capacity xf block len = capacity_loop xf block len STATUS_POLL_LIMIT"

section \<open>Sockets\<close>

definition skip_socket_rx :: "('s, 'e) port \<Rightarrow> u8 \<Rightarrow> u16 \<Rightarrow> nat \<Rightarrow> ('s, 'e, unit) port_io" where
  "skip_socket_rx xf block rx_read len =
     port_bind (write_socket_u16 xf block SOCKET_RX_READ_POINTER (rx_read + of_nat len)) (\<lambda>_.
     port_bind (write_socket_u8 xf block SOCKET_COMMAND SOCKET_COMMAND_RECEIVE) (\<lambda>_.
     wait_socket_command_clear xf block))"

definition send_ipraw :: "('s, 'e) port \<Rightarrow> bytes \<Rightarrow> bytes \<Rightarrow> ('s, 'e, unit) port_io" where
  "send_ipraw xf destination_ip packet =
     port_bind (wait_tx_capacity xf SOCKET1_BLOCK (length packet)) (\<lambda>_.
     port_bind (read_socket_u16 xf SOCKET1_BLOCK SOCKET_TX_WRITE_POINTER) (\<lambda>tx_write.
     port_bind (write_buffer xf SOCKET1_TX_BLOCK tx_write packet) (\<lambda>_.
     port_bind (write_socket_u16 xf SOCKET1_BLOCK SOCKET_TX_WRITE_POINTER (tx_write + of_nat (length packet))) (\<lambda>_.
     port_bind (w5_write xf SOCKET1_BLOCK SOCKET_DESTINATION_IP destination_ip) (\<lambda>_.
     port_bind (write_socket_u8 xf SOCKET1_BLOCK SOCKET_COMMAND SOCKET_COMMAND_SEND) (\<lambda>_.
     wait_socket_command_clear xf SOCKET1_BLOCK))))))"

definition send_tcp :: "('s, 'e) port \<Rightarrow> bytes \<Rightarrow> ('s, 'e, unit) port_io" where
  "send_tcp xf packet =
     port_bind (wait_tx_capacity xf SOCKET0_BLOCK (length packet)) (\<lambda>_.
     port_bind (read_socket0_u16 xf SOCKET_TX_WRITE_POINTER) (\<lambda>tx_write.
     port_bind (write_buffer xf SOCKET0_TX_BLOCK tx_write packet) (\<lambda>_.
     port_bind (write_socket0_u16 xf SOCKET_TX_WRITE_POINTER (tx_write + of_nat (length packet))) (\<lambda>_.
     port_bind (write_socket0_u8 xf SOCKET_COMMAND SOCKET_COMMAND_SEND) (\<lambda>_.
     wait_socket0_command_clear xf)))))"

definition configure_phy_100_full_duplex :: "('s, 'e) port \<Rightarrow> ('s, 'e, unit) port_io" where
  "configure_phy_100_full_duplex xf =
     port_bind (write_common_u8 xf REG_PHY_CONFIG (PHY_CONFIG_FORCED_100_FULL AND NOT PHY_CONFIG_RESET)) (\<lambda>_.
     write_common_u8 xf REG_PHY_CONFIG PHY_CONFIG_FORCED_100_FULL)"

definition configure_socket0_listener :: "('s, 'e) port \<Rightarrow> u16 \<Rightarrow> ('s, 'e, unit) port_io" where
  "configure_socket0_listener xf port =
     port_bind (write_socket0_u8 xf SOCKET_RX_BUFFER_SIZE 2) (\<lambda>_.
     port_bind (write_socket0_u8 xf SOCKET_TX_BUFFER_SIZE 2) (\<lambda>_.
     port_bind (write_socket0_u8 xf SOCKET_MODE SOCKET_MODE_TCP) (\<lambda>_.
     port_bind (write_socket0 xf SOCKET_PORT (be16 port)) (\<lambda>_.
     port_bind (write_socket0_u8 xf SOCKET_COMMAND SOCKET_COMMAND_OPEN) (\<lambda>_.
     port_bind (wait_socket0_command_clear xf) (\<lambda>_.
     port_bind (wait_socket0_status xf SOCKET_STATUS_INIT) (\<lambda>status.
       if status = SOCKET_STATUS_INIT then
         port_bind (write_socket0_u8 xf SOCKET_COMMAND SOCKET_COMMAND_LISTEN) (\<lambda>_.
         port_bind (wait_socket0_command_clear xf) (\<lambda>_.
         port_bind (wait_socket0_status xf SOCKET_STATUS_LISTEN) (\<lambda>_. port_ret ())))
       else port_ret ())))))))"

definition configure_socket1_icmp :: "('s, 'e) port \<Rightarrow> ('s, 'e, unit) port_io" where
  "configure_socket1_icmp xf =
     port_bind (write_socket_u8 xf SOCKET1_BLOCK SOCKET_COMMAND SOCKET_COMMAND_CLOSE) (\<lambda>_.
     port_bind (wait_socket_command_clear xf SOCKET1_BLOCK) (\<lambda>_.
     port_bind (write_socket_u8 xf SOCKET1_BLOCK SOCKET_RX_BUFFER_SIZE 2) (\<lambda>_.
     port_bind (write_socket_u8 xf SOCKET1_BLOCK SOCKET_TX_BUFFER_SIZE 2) (\<lambda>_.
     port_bind (write_socket_u8 xf SOCKET1_BLOCK SOCKET_MODE SOCKET_MODE_IPRAW) (\<lambda>_.
     port_bind (write_socket_u8 xf SOCKET1_BLOCK SOCKET_COMMAND SOCKET_COMMAND_OPEN) (\<lambda>_.
     port_bind (wait_socket_command_clear xf SOCKET1_BLOCK) (\<lambda>_.
     port_bind (wait_socket_status xf SOCKET1_BLOCK SOCKET_STATUS_IPRAW) (\<lambda>_. port_ret ()))))))))"

section \<open>The echo server\<close>

text \<open>\<^verbatim>\<open>chunks_exact(2)\<close> and its remainder.\<close>

fun sum_words :: "u32 \<Rightarrow> bytes \<Rightarrow> u32" where
  "sum_words acc (a # b # rest) = sum_words (acc + ucast (of_be16 a b)) rest"
| "sum_words acc [a] = acc + push_bit 8 (ucast a)"
| "sum_words acc [] = acc"

lemma carry_halves:
  fixes acc :: u32
  shows "unat (acc AND 0xFFFF) = unat acc mod 65536" "unat (drop_bit 16 acc) = unat acc div 65536"
    "unat ((acc AND 0xFFFF) + drop_bit 16 acc) = unat acc mod 65536 + unat acc div 65536"
proof -
  have "(0xFFFF :: u32) = mask 16" by (simp add: mask_eq_exp_minus_1)
  then have "acc AND 0xFFFF = take_bit 16 acc" by (simp add: take_bit_eq_mask)
  then show lo: "unat (acc AND 0xFFFF) = unat acc mod 65536"
    by (simp add: unsigned_take_bit_eq take_bit_nat_def)
  show hi: "unat (drop_bit 16 acc) = unat acc div 65536"
    by (simp add: unat_drop_bit_eq drop_bit_nat_def)
  have "unat acc < 4294967296" using unsigned_less [of acc] by simp
  then have "unat acc div 65536 < 65536" by (simp add: less_mult_imp_div_less)
  moreover have "unat acc mod 65536 < 65536" by simp
  ultimately show "unat ((acc AND 0xFFFF) + drop_bit 16 acc) = unat acc mod 65536 + unat acc div 65536"
    by (subst unat_add_lem [THEN iffD1]) (simp_all add: lo hi)
qed

function fold_carries :: "u32 \<Rightarrow> u32" where
  "fold_carries acc = (if drop_bit 16 acc \<noteq> 0 then fold_carries ((acc AND 0xFFFF) + drop_bit 16 acc) else acc)"
  by pat_completeness auto

termination
proof (relation "measure unat")
  fix acc :: u32
  assume "drop_bit 16 acc \<noteq> 0"
  then have "unat acc div 65536 \<noteq> 0" by (metis carry_halves(2) unsigned_eq_0_iff)
  then have "unat acc mod 65536 + unat acc div 65536 < unat acc"
    using div_mult_mod_eq [of "unat acc" 65536] by arith
  then show "((acc AND 0xFFFF) + drop_bit 16 acc, acc) \<in> measure unat" by (simp only: carry_halves in_measure)
qed simp

declare fold_carries.simps [simp del]

definition internet_checksum :: "bytes \<Rightarrow> u16" where
  "internet_checksum bs = NOT (ucast (fold_carries (sum_words 0 bs)))"

definition make_icmp_echo_reply :: "bytes \<Rightarrow> (bytes \<times> bool) option" where
  "make_icmp_echo_reply packet =
     (if length packet < 8 then Some (packet, False)
      else do {
        p0 \<leftarrow> idx packet 0;
        p1 \<leftarrow> idx packet 1;
        if p0 \<noteq> ICMP_ECHO_REQUEST \<or> p1 \<noteq> 0 then Some (packet, False)
        else do {
          packet \<leftarrow> put packet 0 ICMP_ECHO_REPLY;
          packet \<leftarrow> put packet 2 0;
          packet \<leftarrow> put packet 3 0;
          packet \<leftarrow> copy_at packet 2 4 (be16 (internet_checksum packet));
          Some (packet, True) } })"

definition echo_answer :: "('s, 'e) port \<Rightarrow> bytes \<Rightarrow> bytes \<Rightarrow> ('s, 'e, bool) port_io" where
  "echo_answer xf source_ip packet s = do {
     (packet, is_request) \<leftarrow> make_icmp_echo_reply packet;
     if \<not> is_request then Some (s, Inr False)
     else port_bind (send_ipraw xf source_ip packet) (\<lambda>_. port_ret True) s }"

definition echo_packet :: "('s, 'e) port \<Rightarrow> u16 \<Rightarrow> bytes \<Rightarrow> ('s, 'e, bool) port_io" where
  "echo_packet xf rx_read header s = do {
     source_ip \<leftarrow> slice header 0 4;
     h4 \<leftarrow> idx header 4;
     h5 \<leftarrow> idx header 5;
     let packet_len = unat (of_be16 h4 h5);
     if packet_len > MAX_ICMP_PACKET then
       port_bind (skip_socket_rx xf SOCKET1_BLOCK rx_read (6 + packet_len)) (\<lambda>_. port_ret False) s
     else
       port_bind (read_buffer xf SOCKET1_RX_BLOCK (rx_read + 6) packet_len) (\<lambda>packet.
       port_bind (skip_socket_rx xf SOCKET1_BLOCK rx_read (6 + packet_len)) (\<lambda>_. echo_answer xf source_ip packet)) s }"

definition poll_icmp_echo :: "('s, 'e) port \<Rightarrow> ('s, 'e, bool) port_io" where
  "poll_icmp_echo xf =
     port_bind (read_socket_u8 xf SOCKET1_BLOCK SOCKET_STATUS) (\<lambda>status.
     if status \<noteq> SOCKET_STATUS_IPRAW then port_bind (configure_socket1_icmp xf) (\<lambda>_. port_ret False)
     else
     port_bind (read_socket_u16 xf SOCKET1_BLOCK SOCKET_RX_RECEIVED_SIZE) (\<lambda>received.
     if unat received < 6 then port_ret False
     else
     port_bind (read_socket_u16 xf SOCKET1_BLOCK SOCKET_RX_READ_POINTER) (\<lambda>rx_read.
     port_bind (read_buffer xf SOCKET1_RX_BLOCK rx_read 6) (echo_packet xf rx_read))))"

section \<open>Modbus over TCP\<close>

text \<open>The slave is handed through; it keeps what a request did even when sending the response fails.\<close>

definition tcp_request :: "('s, 'e) port \<Rightarrow> ('s, 'e, bytes option) port_io" where
  "tcp_request xf =
     port_bind (read_socket0_u16 xf SOCKET_RX_RECEIVED_SIZE) (\<lambda>received.
     if unat received < 8 then port_ret None
     else
     let frame_len = min (unat received) MAX_MODBUS_TCP_FRAME in
     port_bind (read_socket0_u16 xf SOCKET_RX_READ_POINTER) (\<lambda>rx_read.
     port_bind (read_buffer xf SOCKET0_RX_BLOCK rx_read frame_len) (\<lambda>request.
     port_bind (skip_socket_rx xf SOCKET0_BLOCK rx_read frame_len) (\<lambda>_. port_ret (Some request)))))"

definition tcp_response ::
    "('s, 'e) port \<Rightarrow> modbus_slave \<Rightarrow> bytes \<Rightarrow> 's \<Rightarrow> ('s \<times> modbus_slave \<times> ('e + bool)) option" where
  "tcp_response xf m request s = do {
     (m, response) \<leftarrow> process_frame m request;
     case response of
       None \<Rightarrow> Some (s, m, Inr False)
     | Some response \<Rightarrow> do {
         (s, r) \<leftarrow> port_bind (send_tcp xf response) (\<lambda>_. port_ret True) s;
         Some (s, m, r) } }"

definition poll_modbus_tcp ::
    "('s, 'e) port \<Rightarrow> modbus_slave \<Rightarrow> u16 \<Rightarrow> 's \<Rightarrow> ('s \<times> modbus_slave \<times> ('e + bool)) option" where
  "poll_modbus_tcp xf m port s = do {
     (s, status) \<leftarrow> read_socket0_u8 xf SOCKET_STATUS s;
     case status of
       Inl e \<Rightarrow> Some (s, m, Inl e)
     | Inr status \<Rightarrow>
         if status = SOCKET_STATUS_ESTABLISHED then do {
           (s, request) \<leftarrow> tcp_request xf s;
           case request of
             Inl e \<Rightarrow> Some (s, m, Inl e)
           | Inr None \<Rightarrow> Some (s, m, Inr False)
           | Inr (Some request) \<Rightarrow> tcp_response xf m request s }
         else if status = SOCKET_STATUS_CLOSE_WAIT then do {
           (s, r) \<leftarrow> port_bind (write_socket0_u8 xf SOCKET_COMMAND SOCKET_COMMAND_DISCONNECT) (\<lambda>_.
                     port_bind (wait_socket0_command_clear xf) (\<lambda>_. port_ret False)) s;
           Some (s, m, r) }
         else if status = SOCKET_STATUS_CLOSED then do {
           (s, r) \<leftarrow> port_bind (configure_socket0_listener xf port) (\<lambda>_. port_ret False) s;
           Some (s, m, r) }
         else Some (s, m, Inr False) }"

section \<open>Bring-up and status\<close>

record w5500_config =
  wc_mac :: bytes
  wc_network :: network_cfg
  wc_modbus_port :: u16

definition from_network :: "network_cfg \<Rightarrow> w5500_config" where
  "from_network network = \<lparr>wc_mac = DEFAULT_MAC, wc_network = network, wc_modbus_port = MODBUS_TCP_PORT\<rparr>"

record w5500_status =
  ws_spi_ok :: bool
  ws_version :: u8
  ws_chip_detected :: bool
  ws_phy_config :: u8
  ws_mode :: u8
  ws_mac :: bytes
  ws_network :: network_cfg
  ws_link_up :: bool
  ws_socket0_status :: u8
  ws_socket0_rx_size :: u16
  ws_socket1_status :: u8
  ws_socket1_rx_size :: u16
  ws_interrupt_asserted :: bool

definition status_not_checked :: w5500_status where
  "status_not_checked =
     \<lparr>ws_spi_ok = False, ws_version = 0, ws_chip_detected = False, ws_phy_config = 0, ws_mode = 0,
      ws_mac = replicate 6 0,
      ws_network = \<lparr>nc_ip = replicate 4 0, nc_subnet = replicate 4 0, nc_gateway = replicate 4 0\<rparr>,
      ws_link_up = False, ws_socket0_status = SOCKET_STATUS_CLOSED, ws_socket0_rx_size = 0,
      ws_socket1_status = SOCKET_STATUS_CLOSED, ws_socket1_rx_size = 0, ws_interrupt_asserted = False\<rparr>"

definition status_spi_error :: w5500_status where "status_spi_error = status_not_checked"

definition status_from_reads :: "('s, 'e) port \<Rightarrow> u8 \<Rightarrow> bool \<Rightarrow> ('s, 'e, w5500_status) port_io" where
  "status_from_reads xf version detected =
     port_bind (read_common_u8 xf REG_PHY_CONFIG) (\<lambda>phy.
     port_bind (read_common_u8 xf REG_MODE) (\<lambda>mode.
     port_bind (read_into xf COMMON_BLOCK REG_GATEWAY 4) (\<lambda>gateway.
     port_bind (read_into xf COMMON_BLOCK REG_SUBNET_MASK 4) (\<lambda>subnet.
     port_bind (read_into xf COMMON_BLOCK REG_MAC 6) (\<lambda>mac.
     port_bind (read_into xf COMMON_BLOCK REG_IP_ADDRESS 4) (\<lambda>ip.
     port_bind (read_socket0_u8 xf SOCKET_STATUS) (\<lambda>status0.
     port_bind (read_socket0_u16 xf SOCKET_RX_RECEIVED_SIZE) (\<lambda>size0.
     port_bind (read_socket_u8 xf SOCKET1_BLOCK SOCKET_STATUS) (\<lambda>status1.
     port_bind (read_socket_u16 xf SOCKET1_BLOCK SOCKET_RX_RECEIVED_SIZE) (\<lambda>size1.
     port_ret
       \<lparr>ws_spi_ok = True, ws_version = version, ws_chip_detected = detected, ws_phy_config = phy, ws_mode = mode,
        ws_mac = mac, ws_network = \<lparr>nc_ip = ip, nc_subnet = subnet, nc_gateway = gateway\<rparr>,
        ws_link_up = (phy AND 0x01 \<noteq> 0), ws_socket0_status = status0, ws_socket0_rx_size = size0,
        ws_socket1_status = status1, ws_socket1_rx_size = size1, ws_interrupt_asserted = False\<rparr>))))))))))"

definition bring_up :: "('s, 'e) port \<Rightarrow> w5500_config \<Rightarrow> ('s, 'e, w5500_status) port_io" where
  "bring_up xf cfg =
     port_bind (read_common_u8 xf REG_VERSION) (\<lambda>version.
     if version \<noteq> EXPECTED_VERSION then status_from_reads xf version False
     else
     port_bind (write_common_u8 xf REG_MODE 0) (\<lambda>_.
     port_bind (write_common xf REG_GATEWAY (nc_gateway (wc_network cfg))) (\<lambda>_.
     port_bind (write_common xf REG_SUBNET_MASK (nc_subnet (wc_network cfg))) (\<lambda>_.
     port_bind (write_common xf REG_MAC (wc_mac cfg)) (\<lambda>_.
     port_bind (write_common xf REG_IP_ADDRESS (nc_ip (wc_network cfg))) (\<lambda>_.
     port_bind (configure_phy_100_full_duplex xf) (\<lambda>_.
     port_bind (configure_socket0_listener xf (wc_modbus_port cfg)) (\<lambda>_.
     status_from_reads xf version True))))))))"

definition read_status :: "('s, 'e) port \<Rightarrow> ('s, 'e, w5500_status) port_io" where
  "read_status xf =
     port_bind (read_common_u8 xf REG_VERSION) (\<lambda>version.
     status_from_reads xf version (version = EXPECTED_VERSION))"

text \<open>\<^verbatim>\<open>W5500Interface\<close>: the functions above under the configuration it carries.\<close>

record w5500_interface =
  wi_config :: w5500_config

definition w5500_new :: "w5500_config \<Rightarrow> w5500_interface" where "w5500_new cfg = \<lparr>wi_config = cfg\<rparr>"

definition w5500_configure :: "w5500_interface \<Rightarrow> w5500_config \<Rightarrow> w5500_interface" where
  "w5500_configure w cfg = w\<lparr>wi_config := cfg\<rparr>"

definition ensure_modbus_listener :: "('s, 'e) port \<Rightarrow> u16 \<Rightarrow> ('s, 'e, unit) port_io" where
  "ensure_modbus_listener xf port = configure_socket0_listener xf port"

definition interface_poll_modbus_tcp ::
    "('s, 'e) port \<Rightarrow> w5500_interface \<Rightarrow> modbus_slave \<Rightarrow> 's \<Rightarrow> ('s \<times> modbus_slave \<times> ('e + bool)) option" where
  "interface_poll_modbus_tcp xf w m = poll_modbus_tcp xf m (wc_modbus_port (wi_config w))"

section \<open>Any chip\<close>

text \<open>Total-correctness triples: from a state in \<open>P\<close> the operation returns, with an error only if \<open>E\<close> allows it,
  or with a value and a state in \<open>Q\<close>.\<close>

definition triple :: "bool \<Rightarrow> ('s \<Rightarrow> bool) \<Rightarrow> ('s, 'e, 'a) port_io \<Rightarrow> ('a \<Rightarrow> 's \<Rightarrow> bool) \<Rightarrow> bool" where
  "triple E P m Q \<longleftrightarrow> (\<forall>s. P s \<longrightarrow> (\<exists>s' r. m s = Some (s', r) \<and> (case r of Inl _ \<Rightarrow> E | Inr v \<Rightarrow> Q v s')))"

named_theorems triple_intros \<open>operations on an arbitrary chip\<close>

lemma triple_ret [triple_intros]: "(\<And>s. P s \<Longrightarrow> Q v s) \<Longrightarrow> triple E P (port_ret v) Q"
  by (simp add: triple_def port_ret_def)

lemma triple_bind:
  assumes "triple E P m R" "\<And>v. triple E (R v) (f v) Q"
  shows "triple E P (port_bind m f) Q"
  unfolding triple_def
proof (intro allI impI)
  fix s assume "P s"
  then obtain s' r where m: "m s = Some (s', r)" "case r of Inl _ \<Rightarrow> E | Inr v \<Rightarrow> R v s'"
    using assms(1) unfolding triple_def by blast
  show "\<exists>s' r. port_bind m f s = Some (s', r) \<and> (case r of Inl _ \<Rightarrow> E | Inr v \<Rightarrow> Q v s')"
  proof (cases r)
    case (Inl e)
    then show ?thesis using m by (simp add: port_bind_def)
  next
    case (Inr v)
    then show ?thesis using m assms(2) [of v] by (simp add: port_bind_def triple_def)
  qed
qed

lemma triple_weaken: "triple E P m Q \<Longrightarrow> (\<And>s. P' s \<Longrightarrow> P s) \<Longrightarrow> (\<And>v s. Q v s \<Longrightarrow> Q' v s) \<Longrightarrow> triple E P' m Q'"
  unfolding triple_def
proof (intro allI impI)
  fix s
  assume a: "\<forall>s. P s \<longrightarrow> (\<exists>s' r. m s = Some (s', r) \<and> (case r of Inl _ \<Rightarrow> E | Inr v \<Rightarrow> Q v s'))"
    "\<And>s. P' s \<Longrightarrow> P s" "\<And>v s. Q v s \<Longrightarrow> Q' v s" and "P' s"
  then obtain s' r where "m s = Some (s', r)" "case r of Inl _ \<Rightarrow> E | Inr v \<Rightarrow> Q v s'" by blast
  then show "\<exists>s' r. m s = Some (s', r) \<and> (case r of Inl _ \<Rightarrow> E | Inr v \<Rightarrow> Q' v s')"
    using a(3) by (cases r) auto
qed

text \<open>All that is assumed of a bus: a transfer returns as many bytes as it was given.\<close>

definition port_ok :: "('s, 'e) port \<Rightarrow> bool" where
  "port_ok xf \<longleftrightarrow> (\<forall>s f s' g. xf s f = (s', Inr g) \<longrightarrow> length g = length f)"

definition safe :: "('s, 'e, 'a) port_io \<Rightarrow> ('a \<Rightarrow> bool) \<Rightarrow> bool" where
  "safe m Q \<longleftrightarrow> triple True (\<lambda>_. True) m (\<lambda>v _. Q v)"

lemma safe_bind: "safe m R \<Longrightarrow> (\<And>v. R v \<Longrightarrow> safe (f v) Q) \<Longrightarrow> safe (port_bind m f) Q"
  unfolding safe_def by (rule triple_bind) (auto simp: triple_def)

lemma safe_ret [simp]: "Q v \<Longrightarrow> safe (port_ret v) Q"
  by (simp add: safe_def triple_ret)

lemma safe_any: "safe m Q \<Longrightarrow> safe m (\<lambda>_. True)"
  unfolding safe_def by (erule triple_weaken) simp_all

lemma safeI: "(\<And>s. \<exists>s' r. m s = Some (s', r) \<and> (\<forall>v. r = Inr v \<longrightarrow> Q v)) \<Longrightarrow> safe m Q"
  unfolding safe_def triple_def by (metis sum.case_eq_if sum.collapse(2))

lemma safeE:
  assumes "safe m Q"
  obtains s' r where "m s = Some (s', r)" "\<And>v. r = Inr v \<Longrightarrow> Q v"
proof -
  obtain s' r where "m s = Some (s', r)" "case r of Inl _ \<Rightarrow> True | Inr v \<Rightarrow> Q v"
    using assms unfolding safe_def triple_def by blast
  then show thesis using that by (auto split: sum.splits)
qed

lemma w5_read_u8_safe:
  assumes "port_ok xf"
  shows "safe (w5_read_u8 xf block a) (\<lambda>_. True)"
proof (rule safeI)
  fix s
  obtain s' r where x: "xf s [address_hi a, address_lo a, spi_control block False, 0] = (s', r)" by fastforce
  then have "length g = 4" if "r = Inr g" for g using assms that by (auto simp: port_ok_def)
  then show "\<exists>s' r. w5_read_u8 xf block a s = Some (s', r) \<and> (\<forall>v. r = Inr v \<longrightarrow> True)"
    using x by (auto simp: w5_read_u8_def idx_def split: sum.split)
qed

lemma take_header: "take (3 + n) (a # b # c # xs) = a # b # c # take n xs" "drop (3 + n) (a # b # c # xs) = drop n xs"
  by (simp_all add: numeral_3_eq_3)

lemma read_frame:
  assumes "n \<le> 32"
  shows "read_into xf block a n s =
    (let (s, r) = xf s ([address_hi a, address_lo a, spi_control block False] @ replicate n 0)
     in case r of Inl e \<Rightarrow> Some (s, Inl e) | Inr g \<Rightarrow> do { vs \<leftarrow> slice g 3 (3 + n); Some (s, Inr vs) })"
proof -
  have "(replicate 35 (0 :: u8)) = 0 # 0 # 0 # replicate 32 0" by (simp add: numeral_eq_Suc)
  then show ?thesis using assms by (simp add: read_into_def put_def slice_def Let_def take_header split: prod.split sum.split)
qed

lemma write_frame:
  assumes "length vs \<le> 32"
  shows "w5_write xf block a vs s =
    (let (s, r) = xf s ([address_hi a, address_lo a, spi_control block True] @ vs)
     in case r of Inl e \<Rightarrow> Some (s, Inl e) | Inr _ \<Rightarrow> Some (s, Inr ()))"
proof -
  have "(replicate 35 (0 :: u8)) = 0 # 0 # 0 # replicate 32 0" by (simp add: numeral_eq_Suc)
  then show ?thesis using assms by (simp add: w5_write_def put_def slice_def copy_at_def Let_def take_header)
qed

lemma read_into_safe:
  assumes "port_ok xf" "n \<le> 32"
  shows "safe (read_into xf block a n) (\<lambda>vs. length vs = n)"
proof (rule safeI)
  fix s
  obtain s' r where x: "xf s ([address_hi a, address_lo a, spi_control block False] @ replicate n 0) = (s', r)" by fastforce
  then have "length g = n + 3" if "r = Inr g" for g using assms(1) that unfolding port_ok_def by fastforce
  then show "\<exists>s' r. read_into xf block a n s = Some (s', r) \<and> (\<forall>v. r = Inr v \<longrightarrow> length v = n)"
    using x by (auto simp: read_frame [OF assms(2)] slice_def split: sum.split)
qed

lemma w5_write_safe: "length vs \<le> 32 \<Longrightarrow> safe (w5_write xf block a vs) (\<lambda>_. True)"
  by (rule safeI) (auto simp: write_frame Let_def case_prod_beta split: sum.split)

lemma read_socket_u16_safe:
  assumes "port_ok xf"
  shows "safe (read_socket_u16 xf block a) (\<lambda>_. True)"
  unfolding read_socket_u16_def
  by (rule safe_bind [OF read_into_safe [OF assms]]) (auto intro!: safeI simp: idx_def)

lemmas access_defs =
  read_socket_u8_def read_common_u8_def read_socket0_u8_def read_socket0_u16_def write_socket_u8_def write_socket_u16_def
  write_socket0_u8_def write_socket0_u16_def write_socket0_def write_common_def write_common_u8_def

lemma read_buffer_from_safe:
  assumes "port_ok xf"
  shows "safe (read_buffer_from xf block p n off) (\<lambda>vs. length vs = n - off)"
proof (induction "n - off" arbitrary: off rule: less_induct)
  case less
  show ?case
  proof (cases "off < n")
    case True
    let ?stop = "min (off + 32) n"
    have c: "safe (read_into xf block ((p + of_nat off) AND SOCKET_BUFFER_MASK) (?stop - off)) (\<lambda>vs. length vs = ?stop - off)"
      by (rule read_into_safe [OF assms]) auto
    have r: "safe (read_buffer_from xf block p n ?stop) (\<lambda>vs. length vs = n - ?stop)"
      by (rule less) (use True in auto)
    have "safe (port_bind (read_into xf block ((p + of_nat off) AND SOCKET_BUFFER_MASK) (?stop - off)) (\<lambda>vs.
        port_bind (read_buffer_from xf block p n ?stop) (\<lambda>rest. port_ret (vs @ rest)))) (\<lambda>vs. length vs = n - off)"
      by (rule safe_bind [OF c], rule safe_bind [OF r], rule safe_ret) (use True in auto)
    then show ?thesis using True by (subst read_buffer_from.simps) (simp add: Let_def)
  next
    case False
    then show ?thesis by (subst read_buffer_from.simps) simp
  qed
qed

lemma write_buffer_from_safe: "safe (write_buffer_from xf block p values off) (\<lambda>_. True)"
proof (induction "length values - off" arbitrary: off rule: less_induct)
  case less
  show ?case
  proof (cases "off < length values")
    case True
    let ?stop = "min (off + 32) (length values)"
    have c: "safe (w5_write xf block ((p + of_nat off) AND SOCKET_BUFFER_MASK) (take (?stop - off) (drop off values))) (\<lambda>_. True)"
      by (rule w5_write_safe) auto
    have r: "safe (write_buffer_from xf block p values ?stop) (\<lambda>_. True)"
      by (rule less) (use True in auto)
    show ?thesis
      using True safe_bind [OF c r] by (subst write_buffer_from.simps) (simp add: Let_def)
  next
    case False
    then show ?thesis by (subst write_buffer_from.simps) simp
  qed
qed

named_theorems safe_intros \<open>operations that return on any chip\<close>

lemma safe_then: "safe m (\<lambda>_. True) \<Longrightarrow> (\<And>v. safe (f v) Q) \<Longrightarrow> safe (port_bind m f) Q"
  by (rule safe_bind)

lemma access_safe [safe_intros]:
  "port_ok xf \<Longrightarrow> safe (w5_read_u8 xf block a) (\<lambda>_. True)"
  "port_ok xf \<Longrightarrow> safe (read_socket_u16 xf block a) (\<lambda>_. True)"
  "port_ok xf \<Longrightarrow> n \<le> 32 \<Longrightarrow> safe (read_into xf block a n) (\<lambda>_. True)"
  "length vs \<le> 32 \<Longrightarrow> safe (w5_write xf block a vs) (\<lambda>_. True)"
  by (simp_all add: w5_read_u8_safe read_socket_u16_safe w5_write_safe safe_any [OF read_into_safe])

lemma safe_if [safe_intros]: "(b \<Longrightarrow> safe m Q) \<Longrightarrow> (\<not> b \<Longrightarrow> safe m' Q) \<Longrightarrow> safe (if b then m else m') Q"
  by simp

lemma loops_safe [safe_intros]:
  assumes "port_ok xf"
  shows "safe (command_clear_loop xf block n) (\<lambda>_. True)" "safe (status_loop xf block e st n) (\<lambda>_. True)"
    "safe (capacity_loop xf block len n) (\<lambda>_. True)"
proof -
  show "safe (command_clear_loop xf block n) (\<lambda>_. True)"
    by (induction n) (simp_all add: access_defs safe_then w5_read_u8_safe [OF assms])
  show "safe (status_loop xf block e st n) (\<lambda>_. True)"
    by (induction n arbitrary: st) (simp_all add: access_defs safe_then w5_read_u8_safe [OF assms])
  show "safe (capacity_loop xf block len n) (\<lambda>_. True)"
    by (induction n) (simp_all add: access_defs safe_then read_socket_u16_safe [OF assms])
qed

lemmas socket_defs =
  access_defs wait_socket_command_clear_def wait_socket0_command_clear_def wait_socket_status_def wait_socket0_status_def
  wait_tx_capacity_def write_buffer_def

lemma sockets_safe [safe_intros]:
  assumes "port_ok xf"
  shows "safe (skip_socket_rx xf block p n) (\<lambda>_. True)" "safe (send_tcp xf packet) (\<lambda>_. True)"
    "length ip \<le> 32 \<Longrightarrow> safe (send_ipraw xf ip packet) (\<lambda>_. True)"
    "safe (configure_socket0_listener xf port) (\<lambda>_. True)" "safe (configure_socket1_icmp xf) (\<lambda>_. True)"
    "safe (configure_phy_100_full_duplex xf) (\<lambda>_. True)"
  unfolding skip_socket_rx_def send_tcp_def send_ipraw_def configure_socket0_listener_def configure_socket1_icmp_def
    configure_phy_100_full_duplex_def socket_defs
  by (intro safe_then safe_intros assms write_buffer_from_safe safe_ret; simp)+

text \<open>A reply to an echo request never panics; whatever the chip says, the pollers and the bring-up return.\<close>

lemma four_bytes: "4 \<le> length packet \<Longrightarrow> \<exists>a b c d rest. packet = a # b # c # d # rest"
  by (auto simp: Suc_le_length_iff numeral_eq_Suc)

lemma make_icmp_eq:
  assumes "4 \<le> length rest"
  shows "make_icmp_echo_reply (a # b # c # d # rest) =
    (if a \<noteq> 8 \<or> b \<noteq> 0 then Some (a # b # c # d # rest, False)
     else Some (0 # 0 # be16 (internet_checksum (0 # 0 # 0 # 0 # rest)) @ rest, True))"
  using assms
  by (simp add: make_icmp_echo_reply_def idx_def put_def copy_at_def ICMP_ECHO_REQUEST_def ICMP_ECHO_REPLY_def
      numeral_2_eq_2 numeral_3_eq_3 numeral_eq_Suc)

lemma make_icmp_total: "\<exists>r. make_icmp_echo_reply packet = Some r"
proof (cases "length packet < 8")
  case True
  then have "make_icmp_echo_reply packet = Some (packet, False)" by (simp add: make_icmp_echo_reply_def)
  then show ?thesis by blast
next
  case False
  then obtain a b c d rest where p: "packet = a # b # c # d # rest" using four_bytes [of packet] by auto
  show ?thesis using make_icmp_eq [of rest a b c d] False p by auto
qed

lemma read_buffer_safe: "port_ok xf \<Longrightarrow> safe (read_buffer xf block p n) (\<lambda>vs. length vs = n)"
  using read_buffer_from_safe [of xf block p n 0] by (simp add: read_buffer_def)

lemma echo_answer_safe:
  assumes "port_ok xf" "length ip \<le> 32"
  shows "safe (echo_answer xf ip packet) (\<lambda>_. True)"
proof (rule safeI)
  fix s
  obtain p b where p: "make_icmp_echo_reply packet = Some (p, b)" using make_icmp_total [of packet] by fastforce
  have "safe (port_bind (send_ipraw xf ip p) (\<lambda>_. port_ret True)) (\<lambda>_. True)"
    by (intro safe_then sockets_safe assms safe_ret TrueI)
  then obtain s' r where "port_bind (send_ipraw xf ip p) (\<lambda>_. port_ret True) s = Some (s', r)"
    by (rule safeE)
  then show "\<exists>s' r. echo_answer xf ip packet s = Some (s', r) \<and> (\<forall>v. r = Inr v \<longrightarrow> True)"
    using p by (auto simp: echo_answer_def)
qed

lemma echo_packet_safe:
  assumes "port_ok xf" "length header = 6"
  shows "safe (echo_packet xf rx_read header) (\<lambda>_. True)"
proof -
  let ?n = "unat (of_be16 (header ! 4) (header ! 5))"
  have "safe (port_bind (skip_socket_rx xf SOCKET1_BLOCK rx_read (6 + ?n)) (\<lambda>_. port_ret False)) (\<lambda>_. True)"
    by (intro safe_then sockets_safe assms safe_ret TrueI)
  moreover have "safe (port_bind (read_buffer xf SOCKET1_RX_BLOCK (rx_read + 6) ?n) (\<lambda>packet.
      port_bind (skip_socket_rx xf SOCKET1_BLOCK rx_read (6 + ?n)) (\<lambda>_. echo_answer xf (take 4 header) packet))) (\<lambda>_. True)"
    by (intro safe_then sockets_safe assms safe_any [OF read_buffer_safe] echo_answer_safe) (simp add: assms)
  moreover have "echo_packet xf rx_read header =
      (if ?n > MAX_ICMP_PACKET then port_bind (skip_socket_rx xf SOCKET1_BLOCK rx_read (6 + ?n)) (\<lambda>_. port_ret False)
       else port_bind (read_buffer xf SOCKET1_RX_BLOCK (rx_read + 6) ?n) (\<lambda>packet.
         port_bind (skip_socket_rx xf SOCKET1_BLOCK rx_read (6 + ?n)) (\<lambda>_. echo_answer xf (take 4 header) packet)))"
    using assms(2) by (intro ext) (simp add: echo_packet_def idx_def Let_def)
  ultimately show ?thesis by simp
qed

lemma poll_icmp_echo_safe:
  assumes "port_ok xf"
  shows "safe (poll_icmp_echo xf) (\<lambda>_. True)"
  unfolding poll_icmp_echo_def access_defs
  by (intro safe_then access_safe sockets_safe safe_if safe_ret TrueI assms
      safe_bind [OF read_buffer_safe] echo_packet_safe)

lemma tcp_request_safe: "port_ok xf \<Longrightarrow> safe (tcp_request xf) (\<lambda>_. True)"
  unfolding tcp_request_def access_defs Let_def
  by (intro safe_then access_safe sockets_safe safe_if safe_ret TrueI safe_any [OF read_buffer_safe])

lemma poll_modbus_tcp_returns:
  assumes xf: "port_ok xf" and m: "modbus_inv m"
  shows "\<exists>s' m' r. poll_modbus_tcp xf m port s = Some (s', m', r) \<and> modbus_inv m'"
proof -
  have "safe (read_socket0_u8 xf SOCKET_STATUS) (\<lambda>_. True)" by (simp add: access_defs w5_read_u8_safe [OF xf])
  then obtain s1 st where st: "read_socket0_u8 xf SOCKET_STATUS s = Some (s1, st)" by (rule safeE)
  obtain s2 rq where rq: "tcp_request xf s1 = Some (s2, rq)" using tcp_request_safe [OF xf] by (rule safeE)
  have resp: "\<exists>s' m' r. tcp_response xf m f s2 = Some (s', m', r) \<and> modbus_inv m'" for f
  proof -
    obtain m' resp where p: "process_frame m f = Some (m', resp)" "modbus_inv m'"
      using process_frame_refines [OF m, of f] by blast
    have "safe (port_bind (send_tcp xf out) (\<lambda>_. port_ret True)) (\<lambda>_. True)" for out
      by (intro safe_then sockets_safe xf safe_ret TrueI)
    then have sent: "\<exists>s' r. port_bind (send_tcp xf out) (\<lambda>_. port_ret True) s2 = Some (s', r)" for out
      by (meson safeE)
    show ?thesis
    proof (cases resp)
      case None
      then show ?thesis using p by (simp add: tcp_response_def)
    next
      case (Some out)
      then show ?thesis using p sent [of out] by (auto simp: tcp_response_def)
    qed
  qed
  have "safe (port_bind (write_socket0_u8 xf SOCKET_COMMAND SOCKET_COMMAND_DISCONNECT) (\<lambda>_.
      port_bind (wait_socket0_command_clear xf) (\<lambda>_. port_ret False))) (\<lambda>_. True)"
    unfolding access_defs wait_socket0_command_clear_def wait_socket_command_clear_def
    by (intro safe_then access_safe loops_safe xf safe_ret TrueI) simp
  then obtain s3 r3 where "port_bind (write_socket0_u8 xf SOCKET_COMMAND SOCKET_COMMAND_DISCONNECT) (\<lambda>_.
      port_bind (wait_socket0_command_clear xf) (\<lambda>_. port_ret False)) s1 = Some (s3, r3)" by (rule safeE)
  moreover have "safe (port_bind (configure_socket0_listener xf port) (\<lambda>_. port_ret False)) (\<lambda>_. True)"
    by (intro safe_then sockets_safe xf safe_ret TrueI)
  then obtain s4 r4 where "port_bind (configure_socket0_listener xf port) (\<lambda>_. port_ret False) s1 = Some (s4, r4)"
    by (rule safeE)
  ultimately show ?thesis
    using st rq resp m by (auto simp: poll_modbus_tcp_def split: sum.split option.split)
qed

lemma bring_up_safe:
  assumes "port_ok xf" "length (wc_mac cfg) \<le> 32" "length (nc_ip (wc_network cfg)) \<le> 32"
    "length (nc_subnet (wc_network cfg)) \<le> 32" "length (nc_gateway (wc_network cfg)) \<le> 32"
  shows "safe (bring_up xf cfg) (\<lambda>_. True)" "safe (read_status xf) (\<lambda>_. True)"
proof -
  have st: "safe (status_from_reads xf v b) (\<lambda>_. True)" for v b
    unfolding status_from_reads_def access_defs
    by (intro safe_then access_safe assms safe_ret TrueI; simp)
  show "safe (read_status xf) (\<lambda>_. True)"
    unfolding read_status_def access_defs by (intro safe_then access_safe st assms)
  show "safe (bring_up xf cfg) (\<lambda>_. True)"
    unfolding bring_up_def access_defs by (intro safe_then access_safe sockets_safe safe_if st assms; simp)
qed

section \<open>The checksum\<close>

text \<open>The sum of the 16-bit words, in plain arithmetic.\<close>

fun word_total :: "bytes \<Rightarrow> nat" where
  "word_total (a # b # rest) = unat (of_be16 a b) + word_total rest"
| "word_total [a] = 256 * unat a"
| "word_total [] = 0"

lemma word_small: "unat (w :: u16) < 65536" "unat (b :: u8) < 256"
proof -
  have "unat w < 2 ^ LENGTH(16)" "unat b < 2 ^ LENGTH(8)" by (rule unsigned_less)+
  then show "unat w < 65536" "unat b < 256" by simp_all
qed

lemma word_total_bound: "word_total bs \<le> 65535 * (length bs + 1) div 2"
proof (induction bs rule: word_total.induct)
  case (1 a b rest)
  have "unat (of_be16 a b) \<le> 65535" using word_small(1) [of "of_be16 a b"] by simp
  then show ?case using 1 by simp
next
  case (2 a)
  have "unat a \<le> 255" using word_small(2) [of a] by simp
  then show ?case by simp
qed simp

lemma sum_words_total:
  assumes "unat acc + word_total bs < 4294967296"
  shows "unat (sum_words acc bs) = unat acc + word_total bs"
  using assms
proof (induction acc bs rule: sum_words.induct)
  case (1 acc a b rest)
  have u: "unat (ucast (of_be16 a b) :: u32) = unat (of_be16 a b)" by (rule unat_ucast_up) simp
  have "unat (acc + ucast (of_be16 a b)) = unat acc + unat (of_be16 a b)"
    using 1(2) by (subst unat_add_lem [THEN iffD1]) (simp_all add: u)
  then show ?case using 1 by simp
next
  case (2 acc a)
  have "unat (push_bit 8 (ucast a :: u32)) = 256 * unat a"
    using word_small(2) [of a] unat_ucast_up [of a, where 'b = 32]
    by (simp add: unsigned_push_bit_eq push_bit_nat_def take_bit_nat_eq_self)
  then show ?case using 2 by (subst sum_words.simps, subst unat_add_lem [THEN iffD1]) simp_all
qed simp

lemma fold_carries_mod: "unat (fold_carries acc) mod 65535 = unat acc mod 65535 \<and> unat (fold_carries acc) < 65536 \<and>
    (unat acc \<noteq> 0 \<longrightarrow> unat (fold_carries acc) \<noteq> 0)"
proof (induction acc rule: fold_carries.induct)
  case (1 acc)
  show ?case
  proof (cases "drop_bit 16 acc = 0")
    case True
    then have "unat acc div 65536 = 0" by (metis carry_halves(2) unsigned_eq_0_iff)
    then have "unat acc < 65536" by (simp only: div_eq_0_iff) simp
    moreover have "fold_carries acc = acc" using True by (subst fold_carries.simps) simp
    ultimately show ?thesis by simp
  next
    case False
    let ?acc = "(acc AND 0xFFFF) + drop_bit 16 acc"
    define h l where "h = unat acc div 65536" and "l = unat acc mod 65536"
    have e: "fold_carries acc = fold_carries ?acc" using False by (subst fold_carries.simps) simp
    have u: "unat ?acc = l + h" by (simp only: carry_halves h_def l_def)
    have "h \<noteq> 0" unfolding h_def using False by (metis carry_halves(2) unsigned_eq_0_iff)
    have "unat acc = h * 65536 + l" by (simp add: h_def l_def)
    then have "unat acc = (l + h) + h * 65535" by simp
    then have m: "unat acc mod 65535 = (l + h) mod 65535" by (simp only: mod_mult_self1)
    show ?thesis using 1 [OF False] \<open>h \<noteq> 0\<close> unfolding e u m by simp
  qed
qed

lemma word_minus_one: "unat (- 1 :: u16) = 65535"
  by (simp add: unsigned_minus_1_eq_mask mask_eq_exp_minus_1)

lemma word_complement: "unat (- 1 - x :: u16) = 65535 - unat x"
  using unat_sub [of x "- 1"] word_minus_one by (simp only: word_order.extremum)

lemma internet_checksum_total:
  assumes "length bs < 65536"
  shows "(unat (internet_checksum bs) + word_total bs) mod 65535 = 0"
    "word_total bs \<noteq> 0 \<Longrightarrow> word_total bs mod 65535 = 0 \<Longrightarrow> internet_checksum bs = 0"
    "word_total bs = 0 \<Longrightarrow> unat (internet_checksum bs) = 65535"
proof -
  let ?acc = "sum_words 0 bs"
  let ?v = "unat (fold_carries ?acc)"
  have "word_total bs < 4294967296" using word_total_bound [of bs] assms by simp
  then have t: "unat ?acc = word_total bs" using sum_words_total [of 0 bs] by simp
  have v: "?v mod 65535 = word_total bs mod 65535" "?v < 65536" "word_total bs \<noteq> 0 \<longrightarrow> ?v \<noteq> 0"
    using fold_carries_mod [of ?acc] t by simp_all
  have n: "unat (ucast (fold_carries ?acc) :: u16) = ?v"
    using v(2) by (simp add: unsigned_ucast_eq take_bit_nat_eq_self)
  have "internet_checksum bs = - 1 - ucast (fold_carries ?acc)"
    by (simp add: internet_checksum_def not_eq_complement)
  then have c: "unat (internet_checksum bs) = 65535 - ?v"
    using n by (simp only: word_complement)
  show "(unat (internet_checksum bs) + word_total bs) mod 65535 = 0"
  proof -
    have "(65535 - ?v + word_total bs) mod 65535 = (65535 - ?v + ?v) mod 65535"
      using v(1) by (metis mod_add_right_eq)
    then show ?thesis using c v(2) by simp
  qed
  show "internet_checksum bs = 0" if "word_total bs \<noteq> 0" "word_total bs mod 65535 = 0"
  proof -
    have "?v mod 65535 = 0" "?v \<noteq> 0" using v that by simp_all
    then have "?v = 65535" using v(2) by (auto simp: mod_eq_0_iff_dvd elim!: dvdE)
    then show ?thesis using c by (simp add: unat_eq_zero)
  qed
  show "unat (internet_checksum bs) = 65535" if "word_total bs = 0"
  proof -
    have "?acc = 0" using that t by (simp add: unat_eq_zero)
    then show ?thesis using c by (simp add: fold_carries.simps)
  qed
qed

text \<open>The reply to an echo request: type and code 0, the rest of the request, and a checksum under which the
  words sum to 0 modulo 65535, so that the receiver's own checksum of it is 0.\<close>

lemma word_total_append4: "word_total (a # b # c # d # rest) = unat (of_be16 a b) + unat (of_be16 c d) + word_total rest"
  by simp

lemma echo_reply_checksum:
  assumes "make_icmp_echo_reply packet = Some (p, True)" "length packet < 65536"
  shows "length p = length packet \<and> take 2 p = [0, 0] \<and> drop 4 p = drop 4 packet \<and>
    word_total p mod 65535 = 0 \<and> internet_checksum p = 0"
proof -
  have len: "8 \<le> length packet" using assms(1) by (auto simp: make_icmp_echo_reply_def split: if_splits)
  then obtain a b c d rest where packet: "packet = a # b # c # d # rest" using four_bytes [of packet] by auto
  let ?z = "0 # 0 # 0 # 0 # rest"
  let ?c = "internet_checksum ?z"
  have p: "p = 0 # 0 # be16 ?c @ rest"
    using assms(1) make_icmp_eq [of rest a b c d] len unfolding packet by (simp split: if_splits)
  have z: "of_be16 0 0 = 0" by code_simp
  have t: "word_total p = unat ?c + word_total ?z" unfolding p by (simp add: be16_def z)
  have l: "length ?z < 65536" "length p < 65536" using assms(2) unfolding packet p by simp_all
  have m: "word_total p mod 65535 = 0" unfolding t by (rule internet_checksum_total(1) [OF l(1)])
  have "word_total p \<noteq> 0"
    using internet_checksum_total(3) [OF l(1)] t by fastforce
  then have "internet_checksum p = 0" using internet_checksum_total(2) [OF l(2)] m by simp
  then show ?thesis using m unfolding p packet by (simp add: be16_def)
qed

end
