(* ===== verification/W5500Chip.thy ===== *)
theory W5500Chip
  imports W5500 "HOL-Library.Sublist"
begin

text \<open>
  Socket 0 of the W5500 with an open TCP connection, as its data sheet describes it, and the Modbus server of
  \<^verbatim>\<open>src/src/net/w5500_spi.rs\<close> on it. The chip works on its own between and during the frames on the bus:
  bytes arrive, sent bytes are acknowledged, a command is accepted some time after it was written, and the
  connection can break. Registers of other sockets and the set-up of the chip are left open.
\<close>

unbundle bit_operations_syntax

section \<open>The socket\<close>

text \<open>The buffers of a socket are rings of 2048 bytes: the upper address bits are ignored.\<close>

definition slot :: "u16 \<Rightarrow> u16" where "slot x = x AND SOCKET_BUFFER_MASK"

lemma slot_mask: "slot x = take_bit 11 x"
proof -
  have "SOCKET_BUFFER_MASK = mask 11" by (simp add: SOCKET_BUFFER_MASK_def mask_eq_exp_minus_1)
  then show ?thesis by (simp add: slot_def take_bit_eq_mask)
qed

lemma slot_add: "slot (slot x + y) = slot (x + y)"
  unfolding slot_mask
proof -
  have t: "unat (take_bit 11 z) = unat z mod 2048" for z :: u16
    by (simp add: unsigned_take_bit_eq take_bit_nat_def)
  have p: "unat (z + w) mod 2048 = (unat z + unat w) mod 2048" for z w :: u16
    by (simp add: unat_word_ariths mod_mod_cancel)
  have "unat (take_bit 11 (take_bit 11 x + y)) = unat (take_bit 11 (x + y))"
    by (simp only: t p mod_add_left_eq)
  then show "take_bit 11 (take_bit 11 x + y) = take_bit 11 (x + y)" by (simp only: word_unat_eq_iff)
qed

lemma slot_small: "i < 2048 \<Longrightarrow> unat (slot (of_nat i)) = i"
  by (simp add: slot_mask unsigned_take_bit_eq unat_of_nat take_bit_nat_def)

lemma slot_distinct:
  assumes "slot (q + of_nat i) = slot (q + of_nat j)" "i < 2048" "j < 2048"
  shows "i = j"
proof -
  have "slot (q + of_nat i + (- q)) = slot (q + of_nat j + (- q))" using assms(1) slot_add by metis
  then have "slot (of_nat i) = slot (of_nat j)" by simp
  then show ?thesis using slot_small assms(2,3) by metis
qed

text \<open>
  \<open>tk_in\<close> are all bytes that arrived on the connection, of which \<open>tk_taken\<close> were released by RECV commands;
  the others lie in the receive ring from \<open>tk_rx_base\<close> on. \<open>tk_done\<close> are the bytes sent and acknowledged;
  from \<open>tk_tx_base\<close> on the transmit ring holds \<open>tk_out\<close> bytes handed over by SEND commands and not yet
  acknowledged. \<open>tk_rx_rd\<close>, \<open>tk_tx_wr\<close> and \<open>tk_cmd\<close> are the registers Sn_RX_RD, Sn_TX_WR and Sn_CR.
\<close>

record tcp_sock =
  tk_in :: bytes
  tk_taken :: nat
  tk_rx_base :: u16
  tk_rx_rd :: u16
  tk_tx :: "u16 \<Rightarrow> u8"
  tk_done :: bytes
  tk_tx_base :: u16
  tk_out :: nat
  tk_tx_wr :: u16
  tk_cmd :: u8

definition unread :: "tcp_sock \<Rightarrow> bytes" where "unread k = drop (tk_taken k) (tk_in k)"

definition tx_bytes :: "tcp_sock \<Rightarrow> nat \<Rightarrow> bytes" where
  "tx_bytes k n = map (\<lambda>i. tk_tx k (slot (tk_tx_base k + of_nat i))) [0..<n]"

text \<open>What the chip does by itself: the peer sends no more than the receive ring takes; the peer acknowledges
  sent bytes; a RECV or a SEND is accepted, which clears the command register.\<close>

inductive chip_step :: "tcp_sock \<Rightarrow> tcp_sock \<Rightarrow> bool" where
  arrive: "length (unread k) + length bs \<le> 2048 \<Longrightarrow> chip_step k (k\<lparr>tk_in := tk_in k @ bs\<rparr>)"
| ack: "n \<le> tk_out k \<Longrightarrow>
    chip_step k (k\<lparr>tk_done := tk_done k @ tx_bytes k n, tk_tx_base := tk_tx_base k + of_nat n, tk_out := tk_out k - n\<rparr>)"
| receive: "tk_cmd k = SOCKET_COMMAND_RECEIVE \<Longrightarrow> unat (tk_rx_rd k - tk_rx_base k) \<le> length (unread k) \<Longrightarrow>
    chip_step k (k\<lparr>tk_taken := tk_taken k + unat (tk_rx_rd k - tk_rx_base k), tk_rx_base := tk_rx_rd k, tk_cmd := 0\<rparr>)"
| send: "tk_cmd k = SOCKET_COMMAND_SEND \<Longrightarrow>
    chip_step k (k\<lparr>tk_out := unat (tk_tx_wr k - tk_tx_base k), tk_cmd := 0\<rparr>)"

text \<open>What a read shows, where that is documented and does not depend on anything else.\<close>

definition shown :: "tcp_sock \<Rightarrow> u8 \<Rightarrow> u16 \<Rightarrow> u8 option" where
  "shown k b x =
     (if b = SOCKET0_BLOCK then
        if x = SOCKET_COMMAND then Some (tk_cmd k)
        else if x = SOCKET_TX_WRITE_POINTER then Some (address_hi (tk_tx_wr k))
        else if x = SOCKET_TX_WRITE_POINTER + 1 then Some (address_lo (tk_tx_wr k))
        else if x = SOCKET_RX_READ_POINTER then Some (address_hi (tk_rx_rd k))
        else if x = SOCKET_RX_READ_POINTER + 1 then Some (address_lo (tk_rx_rd k))
        else None
      else if b = SOCKET0_RX_BLOCK then
        (let j = unat (slot (x - tk_rx_base k)) in if j < length (unread k) then Some (unread k ! j) else None)
      else None)"

text \<open>The writes of the data path: bytes of the transmit ring, the two pointers, and RECV and SEND. A command
  written before the last one was accepted is not documented, and neither is any other write here.\<close>

fun tx_put :: "u16 \<Rightarrow> bytes \<Rightarrow> (u16 \<Rightarrow> u8) \<Rightarrow> (u16 \<Rightarrow> u8)" where
  "tx_put a [] t = t"
| "tx_put a (v # vs) t = tx_put (a + 1) vs (t(slot a := v))"

definition data_write :: "u8 \<Rightarrow> u16 \<Rightarrow> bytes \<Rightarrow> bool" where
  "data_write b a vs \<longleftrightarrow> b = SOCKET0_TX_BLOCK \<or> b = SOCKET0_BLOCK \<and>
     (a = SOCKET_TX_WRITE_POINTER \<and> length vs = 2 \<or> a = SOCKET_RX_READ_POINTER \<and> length vs = 2 \<or>
      a = SOCKET_COMMAND \<and> (vs = [SOCKET_COMMAND_RECEIVE] \<or> vs = [SOCKET_COMMAND_SEND]))"

definition tcp_write :: "u8 \<Rightarrow> u16 \<Rightarrow> bytes \<Rightarrow> tcp_sock \<Rightarrow> tcp_sock option" where
  "tcp_write b a vs k =
     (if \<not> data_write b a vs then None
      else if b = SOCKET0_TX_BLOCK then Some (k\<lparr>tk_tx := tx_put a vs (tk_tx k)\<rparr>)
      else if a = SOCKET_TX_WRITE_POINTER then Some (k\<lparr>tk_tx_wr := of_be16 (vs ! 0) (vs ! 1)\<rparr>)
      else if a = SOCKET_RX_READ_POINTER then Some (k\<lparr>tk_rx_rd := of_be16 (vs ! 0) (vs ! 1)\<rparr>)
      else if tk_cmd k = 0 then Some (k\<lparr>tk_cmd := hd vs\<rparr>)
      else None)"

text \<open>
  A chip on the bus \<open>xf\<close>, with \<open>sock\<close> as what can be said of socket 0: it listens, it has a connection, or
  nothing is known of it any more (\<open>Lost\<close>: the connection broke, or a write was made that is not of the data
  path). A read frame is answered with as many bytes as it asks for. A byte that the documentation fixes before
  and after the frame is read as such, and the received size is read, when no RECV is pending, as at most the
  bytes held at the end (they only become more meanwhile, and the high byte is read first). A lost connection does not come back by reading and by
  writes of the data path. Nothing is said of the answers of a listening socket, nor of any other register.
\<close>

datatype tcp_state = Listening | Connected tcp_sock | Lost

definition moved :: "(tcp_sock \<Rightarrow> tcp_sock \<Rightarrow> bool) \<Rightarrow> tcp_state \<Rightarrow> tcp_state \<Rightarrow> bool" where
  "moved R st st' \<longleftrightarrow> st' = Lost \<or> (\<exists>k k'. st = Connected k \<and> st' = Connected k' \<and> R k k')"

definition read_well :: "u8 \<Rightarrow> u16 \<Rightarrow> bytes \<Rightarrow> tcp_sock \<Rightarrow> tcp_sock \<Rightarrow> bool" where
  "read_well b a vs k k' \<longleftrightarrow> chip_step\<^sup>*\<^sup>* k k' \<and>
     (\<forall>i < length vs. \<forall>v. shown k b (a + of_nat i) = Some v \<and> shown k' b (a + of_nat i) = Some v \<longrightarrow> vs ! i = v) \<and>
     (b = SOCKET0_BLOCK \<and> a = SOCKET_RX_RECEIVED_SIZE \<and> length vs = 2 \<and> tk_cmd k \<noteq> SOCKET_COMMAND_RECEIVE \<longrightarrow>
       unat (of_be16 (vs ! 0) (vs ! 1)) \<le> length (unread k'))"

definition written :: "u8 \<Rightarrow> u16 \<Rightarrow> bytes \<Rightarrow> tcp_sock \<Rightarrow> tcp_sock \<Rightarrow> bool" where
  "written b a vs k k' \<longleftrightarrow> (\<exists>k1 k2. chip_step\<^sup>*\<^sup>* k k1 \<and> tcp_write b a vs k1 = Some k2 \<and> chip_step\<^sup>*\<^sup>* k2 k')"

definition w5500_tcp :: "('s, 'e) port \<Rightarrow> ('s \<Rightarrow> tcp_state) \<Rightarrow> bool" where
  "w5500_tcp xf sock \<longleftrightarrow>
     (\<forall>s b a n. sock s \<noteq> Listening \<and> b < 32 \<and> n \<le> 32 \<longrightarrow> (\<exists>s' h vs.
        xf s ([address_hi a, address_lo a, spi_control b False] @ replicate n 0) = (s', Inr (h @ vs)) \<and>
        length h = 3 \<and> length vs = n \<and> moved (read_well b a vs) (sock s) (sock s'))) \<and>
     (\<forall>s b a vs. sock s \<noteq> Listening \<and> b < 32 \<and> length vs \<le> 32 \<and> data_write b a vs \<longrightarrow> (\<exists>s' g.
        xf s ([address_hi a, address_lo a, spi_control b True] @ vs) = (s', Inr g) \<and>
        moved (written b a vs) (sock s) (sock s')))"

section \<open>Operations\<close>

definition up :: "('s \<Rightarrow> tcp_state) \<Rightarrow> (tcp_sock \<Rightarrow> bool) \<Rightarrow> 's \<Rightarrow> bool" where
  "up sock P s \<longleftrightarrow> sock s = Lost \<or> (\<exists>k. sock s = Connected k \<and> P k)"

definition stable :: "(tcp_sock \<Rightarrow> bool) \<Rightarrow> bool" where
  "stable P \<longleftrightarrow> (\<forall>k k'. P k \<longrightarrow> chip_step k k' \<longrightarrow> P k')"

lemma stable_star: "chip_step\<^sup>*\<^sup>* k k' \<Longrightarrow> stable P \<Longrightarrow> P k \<Longrightarrow> P k'"
  by (induction rule: rtranclp_induct) (auto simp: stable_def)

lemma upE: "up sock P s \<Longrightarrow> sock s \<noteq> Listening"
  by (auto simp: up_def)

lemma up_moved:
  assumes "up sock P s" "moved R (sock s) (sock s')" "\<And>k k'. P k \<Longrightarrow> R k k' \<Longrightarrow> Q k'"
  shows "up sock Q s'"
  using assms unfolding up_def moved_def by auto

lemma up_mono: "up sock P s \<Longrightarrow> (\<And>k. P k \<Longrightarrow> Q k) \<Longrightarrow> up sock Q s"
  by (auto simp: up_def)

text \<open>A control byte has five bits for the block.\<close>

lemma blocks: "SOCKET0_BLOCK < 32" "SOCKET0_TX_BLOCK < 32" "SOCKET0_RX_BLOCK < 32"
  by (simp_all add: SOCKET0_BLOCK_def SOCKET0_TX_BLOCK_def SOCKET0_RX_BLOCK_def)

lemma tripleI:
  "(\<And>s. P s \<Longrightarrow> \<exists>s' v. m s = Some (s', Inr v) \<and> Q v s') \<Longrightarrow> triple E P m Q"
  unfolding triple_def by fastforce

lemma triple_const: "triple E P m Q \<Longrightarrow> triple E (\<lambda>s. B \<and> P s) m (\<lambda>v s. B \<and> Q v s)"
  by (cases B) (auto simp: triple_def)

text \<open>A read frame in a phase \<open>P\<close> that the chip does not leave by itself; \<open>told\<close> are the bytes the phase fixes.\<close>

definition told :: "(tcp_sock \<Rightarrow> bool) \<Rightarrow> u8 \<Rightarrow> u16 \<Rightarrow> bytes \<Rightarrow> bool" where
  "told P b a vs \<longleftrightarrow> (\<forall>i < length vs. \<forall>v. (\<forall>k. P k \<longrightarrow> shown k b (a + of_nat i) = Some v) \<longrightarrow> vs ! i = v)"

lemma chip_read_frame:
  assumes chip: "w5500_tcp xf sock" and b: "b < 32" and n: "n \<le> 32" and st: "stable P" and s: "up sock P s"
  obtains s' h vs where "xf s ([address_hi a, address_lo a, spi_control b False] @ replicate n 0) = (s', Inr (h @ vs))"
    "length h = 3" "length vs = n" "up sock (\<lambda>k. P k \<and> told P b a vs) s'"
proof -
  obtain s' h vs where x: "xf s ([address_hi a, address_lo a, spi_control b False] @ replicate n 0) = (s', Inr (h @ vs))"
      "length h = 3" "length vs = n" and m: "moved (read_well b a vs) (sock s) (sock s')"
    using chip upE [OF s] b n unfolding w5500_tcp_def by blast
  have "P k' \<and> told P b a vs" if "P k" "read_well b a vs k k'" for k k'
  proof -
    have k': "P k'" using that stable_star [OF _ st] unfolding read_well_def by blast
    then show ?thesis using that unfolding read_well_def told_def by blast
  qed
  then have "up sock (\<lambda>k. P k \<and> told P b a vs) s'" by (rule up_moved [OF s m])
  then show thesis by (rule that [OF x])
qed

lemma chip_read_into:
  assumes "w5500_tcp xf sock" "b < 32" "n \<le> 32" "stable P"
  shows "triple False (up sock P) (read_into xf b a n) (\<lambda>vs s. length vs = n \<and> up sock (\<lambda>k. P k \<and> told P b a vs) s)"
proof (rule tripleI)
  fix s assume "up sock P s"
  then obtain s' h vs where "xf s ([address_hi a, address_lo a, spi_control b False] @ replicate n 0) = (s', Inr (h @ vs))"
      "length h = 3" "length vs = n" "up sock (\<lambda>k. P k \<and> told P b a vs) s'"
    by (rule chip_read_frame [OF assms])
  then show "\<exists>s' v. read_into xf b a n s = Some (s', Inr v) \<and> length v = n \<and> up sock (\<lambda>k. P k \<and> told P b a v) s'"
    by (simp add: read_frame [OF assms(3)] slice_def)
qed

lemma chip_read_u8:
  assumes chip: "w5500_tcp xf sock" and b: "b < 32" and st: "stable P"
  shows "triple False (up sock P) (w5_read_u8 xf b a) (\<lambda>v s. up sock (\<lambda>k. P k \<and> told P b a [v]) s)"
proof (rule tripleI)
  fix s assume s: "up sock P s"
  have one: "(1 :: nat) \<le> 32" by simp
  obtain s' h vs where x: "xf s ([address_hi a, address_lo a, spi_control b False] @ replicate 1 0) = (s', Inr (h @ vs))"
      "length h = 3" "length vs = 1" "up sock (\<lambda>k. P k \<and> told P b a vs) s'"
    by (rule chip_read_frame [OF chip b one st s])
  obtain v where "vs = [v]" using x(3) by (cases vs) auto
  then show "\<exists>s' v. w5_read_u8 xf b a s = Some (s', Inr v) \<and> up sock (\<lambda>k. P k \<and> told P b a [v]) s'"
    using x by (auto simp: w5_read_u8_def idx_def nth_append)
qed

lemma chip_read_u16:
  assumes "w5500_tcp xf sock" "b < 32" "stable P"
  shows "triple False (up sock P) (read_socket_u16 xf b a)
    (\<lambda>v s. \<exists>x y. v = of_be16 x y \<and> up sock (\<lambda>k. P k \<and> told P b a [x, y]) s)"
  unfolding read_socket_u16_def
proof (rule triple_bind [OF chip_read_into [OF assms(1,2) _ assms(3)]])
  show "triple False (\<lambda>s. length vs = 2 \<and> up sock (\<lambda>k. P k \<and> told P b a vs) s)
      (\<lambda>s. do { x \<leftarrow> idx vs 0; y \<leftarrow> idx vs 1; Some (s, Inr (of_be16 x y)) })
      (\<lambda>v s. \<exists>x y. v = of_be16 x y \<and> up sock (\<lambda>k. P k \<and> told P b a [x, y]) s)" for vs
    by (rule tripleI) (auto simp: idx_def length_Suc_conv numeral_2_eq_2, blast)
qed simp

text \<open>A pointer that a phase fixes is read as it is.\<close>

lemma pointer_back: "of_be16 (address_hi a) (address_lo a) = a"
  by (simp add: address_hi_def address_lo_def)

lemma told_pointer:
  assumes "told P SOCKET0_BLOCK SOCKET_RX_READ_POINTER [x, y]" "\<And>k. P k \<Longrightarrow> tk_rx_rd k = p"
  shows "of_be16 x y = p"
proof -
  have "x = address_hi p" "y = address_lo p"
    using assms(1) [unfolded told_def, rule_format, of 0 "address_hi p"] assms(1) [unfolded told_def, rule_format, of 1 "address_lo p"] assms(2)
    by (simp_all add: shown_def SOCKET_RX_READ_POINTER_def SOCKET_TX_WRITE_POINTER_def SOCKET_COMMAND_def)
  then show ?thesis by (simp add: pointer_back)
qed

lemma told_tx_pointer:
  assumes "told P SOCKET0_BLOCK SOCKET_TX_WRITE_POINTER [x, y]" "\<And>k. P k \<Longrightarrow> tk_tx_wr k = p"
  shows "of_be16 x y = p"
proof -
  have "x = address_hi p" "y = address_lo p"
    using assms(1) [unfolded told_def, rule_format, of 0 "address_hi p"] assms(1) [unfolded told_def, rule_format, of 1 "address_lo p"] assms(2)
    by (simp_all add: shown_def SOCKET_RX_READ_POINTER_def SOCKET_TX_WRITE_POINTER_def SOCKET_COMMAND_def)
  then show ?thesis by (simp add: pointer_back)
qed

text \<open>A write frame, between phases that the chip does not leave by itself.\<close>

lemma chip_write:
  assumes chip: "w5500_tcp xf sock" and d: "data_write b a vs" "b < 32" "length vs \<le> 32"
    and st: "stable P" "stable Q" and q: "\<And>k k'. P k \<Longrightarrow> tcp_write b a vs k = Some k' \<Longrightarrow> Q k'"
  shows "triple False (up sock P) (w5_write xf b a vs) (\<lambda>_. up sock Q)"
proof (rule tripleI)
  fix s assume s: "up sock P s"
  obtain s' g where x: "xf s ([address_hi a, address_lo a, spi_control b True] @ vs) = (s', Inr g)"
      and m: "moved (written b a vs) (sock s) (sock s')"
    using chip upE [OF s] d unfolding w5500_tcp_def by blast
  have "Q k'" if "P k" "written b a vs k k'" for k k'
    using that stable_star [OF _ st(1)] stable_star [OF _ st(2)] q unfolding written_def by blast
  then have "up sock Q s'" by (rule up_moved [OF s m])
  then show "\<exists>s' v. w5_write xf b a vs s = Some (s', Inr v) \<and> up sock Q s'"
    using x by (simp add: write_frame [OF d(3)])
qed

lemma chip_clear:
  assumes chip: "w5500_tcp xf sock" and b: "b < 32" and st: "stable P"
  shows "triple False (up sock P) (command_clear_loop xf b n) (\<lambda>_. up sock P)"
proof (induction n)
  case 0
  show ?case by (simp add: triple_ret)
next
  case (Suc n)
  show ?case
    unfolding command_clear_loop.simps read_socket_u8_def
  proof (rule triple_bind [OF chip_read_u8 [OF chip b st]])
    fix v
    show "triple False (up sock (\<lambda>k. P k \<and> told P b SOCKET_COMMAND [v]))
        (if v = 0 then port_ret () else command_clear_loop xf b n) (\<lambda>_. up sock P)"
      by (cases "v = 0") (auto intro!: triple_ret intro: triple_weaken [OF Suc] elim: up_mono)
  qed
qed

lemma chip_capacity:
  assumes chip: "w5500_tcp xf sock" and b: "b < 32" and st: "stable P"
  shows "triple False (up sock P) (capacity_loop xf b len n) (\<lambda>_. up sock P)"
proof (induction n)
  case 0
  show ?case by (simp add: triple_ret)
next
  case (Suc n)
  show ?case
    unfolding capacity_loop.simps
  proof (rule triple_bind [OF chip_read_u16 [OF chip b st]])
    fix v
    show "triple False (\<lambda>s. \<exists>x y. v = of_be16 x y \<and> up sock (\<lambda>k. P k \<and> told P b SOCKET_TX_FREE_SIZE [x, y]) s)
        (if len \<le> unat v then port_ret () else capacity_loop xf b len n) (\<lambda>_. up sock P)"
      by (cases "len \<le> unat v") (auto intro!: triple_ret intro: triple_weaken [OF Suc] elim: up_mono)
  qed
qed


section \<open>Phases of a transfer\<close>

text \<open>The bytes given to the connection so far: those acknowledged, and those up to the write pointer.\<close>

definition tcp_sent :: "tcp_sock \<Rightarrow> bytes" where
  "tcp_sent k = tk_done k @ tx_bytes k (unat (tk_tx_wr k - tk_tx_base k))"

text \<open>The transmit side: the write pointer is \<open>v\<close>, of which SEND commands cover all up to \<open>w\<close>, and at most \<open>r\<close> bytes lie
  in the ring. The receive side: at rest, or with the \<open>n\<close> bytes of a request being released.\<close>

definition tx_held :: "u16 \<Rightarrow> u16 \<Rightarrow> bytes \<Rightarrow> nat \<Rightarrow> tcp_sock \<Rightarrow> bool" where
  "tx_held w v S r k \<longleftrightarrow> tk_tx_wr k = v \<and> tcp_sent k = S \<and> tk_out k \<le> unat (w - tk_tx_base k) \<and>
     unat (w - tk_tx_base k) \<le> unat (v - tk_tx_base k) \<and> unat (v - tk_tx_base k) \<le> r \<and>
     (if tk_cmd k = SOCKET_COMMAND_SEND then w = v else tk_out k = unat (w - tk_tx_base k))"

definition rx_rest :: "bytes \<Rightarrow> nat \<Rightarrow> u16 \<Rightarrow> u16 \<Rightarrow> tcp_sock \<Rightarrow> bool" where
  "rx_rest ar t q p k \<longleftrightarrow> prefix ar (tk_in k) \<and> tk_taken k = t \<and> tk_rx_base k = q \<and> tk_rx_rd k = p \<and>
     (tk_cmd k = 0 \<or> tk_cmd k = SOCKET_COMMAND_SEND)"

definition rx_releasing :: "bytes \<Rightarrow> nat \<Rightarrow> nat \<Rightarrow> u16 \<Rightarrow> tcp_sock \<Rightarrow> bool" where
  "rx_releasing ar n t q k \<longleftrightarrow> prefix ar (tk_in k) \<and> tk_rx_rd k = q + of_nat n \<and>
     (tk_cmd k = SOCKET_COMMAND_RECEIVE \<and> tk_taken k = t \<and> tk_rx_base k = q \<or>
      tk_cmd k = 0 \<and> tk_taken k = t + n \<and> tk_rx_base k = q + of_nat n)"

lemma commands: "SOCKET_COMMAND_SEND \<noteq> SOCKET_COMMAND_RECEIVE" "SOCKET_COMMAND_SEND \<noteq> 0" "SOCKET_COMMAND_RECEIVE \<noteq> 0"
    "0 \<noteq> SOCKET_COMMAND_SEND" "0 \<noteq> SOCKET_COMMAND_RECEIVE" "SOCKET_COMMAND_RECEIVE \<noteq> SOCKET_COMMAND_SEND"
  by (simp_all add: SOCKET_COMMAND_SEND_def SOCKET_COMMAND_RECEIVE_def)

lemma advance:
  fixes b x :: u16
  assumes "n \<le> unat (x - b)"
  shows "unat (x - (b + of_nat n)) = unat (x - b) - n"
proof -
  have "unat (x - b) < 65536" using unsigned_less [of "x - b"] by simp
  then have n: "unat (of_nat n :: u16) = n" using assms by (simp add: unat_of_nat)
  then have "of_nat n \<le> x - b" using assms by (simp add: word_le_nat_alt)
  then have "unat (x - b - of_nat n) = unat (x - b) - n" by (simp only: unat_sub n)
  then show ?thesis by (simp only: diff_diff_add)
qed

lemma sent_ack:
  assumes "n \<le> tk_out k" "tk_out k \<le> unat (tk_tx_wr k - tk_tx_base k)"
  shows "tcp_sent (k\<lparr>tk_done := tk_done k @ tx_bytes k n, tk_tx_base := tk_tx_base k + of_nat n, tk_out := tk_out k - n\<rparr>) = tcp_sent k"
proof -
  let ?m = "unat (tk_tx_wr k - tk_tx_base k)" and ?f = "\<lambda>i. tk_tx k (slot (tk_tx_base k + of_nat i))"
  have n: "n \<le> ?m" using assms by simp
  have "map (\<lambda>i. tk_tx k (slot (tk_tx_base k + of_nat n + of_nat i))) [0..<?m - n] = map ?f [n..<?m]"
  proof (rule nth_equalityI)
    fix i assume "i < length (map (\<lambda>i. tk_tx k (slot (tk_tx_base k + of_nat n + of_nat i))) [0..<?m - n])"
    then show "map (\<lambda>i. tk_tx k (slot (tk_tx_base k + of_nat n + of_nat i))) [0..<?m - n] ! i = map ?f [n..<?m] ! i"
      using nth_upt [of n i ?m] by (simp add: less_diff_conv ac_simps)
  qed simp
  moreover have "map ?f [0..<n] @ map ?f [n..<?m] = map ?f [0..<?m]"
    using n upt_add_eq_append [of 0 n "?m - n"] by (simp flip: map_append)
  ultimately show ?thesis by (simp add: tcp_sent_def tx_bytes_def advance [OF n])
qed

lemma tx_held_step: "chip_step k k' \<Longrightarrow> tx_held w v S r k \<Longrightarrow> tx_held w v S r k'"
proof (induction rule: chip_step.induct)
  case (ack n k)
  then have le: "n \<le> unat (w - tk_tx_base k)" "n \<le> unat (v - tk_tx_base k)" "tk_tx_wr k = v"
    "tk_out k \<le> unat (tk_tx_wr k - tk_tx_base k)" by (auto simp: tx_held_def)
  show ?case
    using ack le sent_ack [OF ack(1) le(4)] advance [OF le(1)] advance [OF le(2)] unfolding tx_held_def by auto
qed (auto simp: tx_held_def tcp_sent_def tx_bytes_def commands)

lemma rx_rest_step: "chip_step k k' \<Longrightarrow> rx_rest ar t q p k \<Longrightarrow> rx_rest ar t q p k'"
  by (induction rule: chip_step.induct) (auto simp: rx_rest_def commands)

lemma rx_releasing_step:
  assumes "chip_step k k'" "rx_releasing ar n t q k" "n < 2048"
  shows "rx_releasing ar n t q k'"
proof -
  have "unat (of_nat n :: u16) = n" using assms(3) by (simp add: unat_of_nat)
  with assms show ?thesis
    by (induction rule: chip_step.induct) (auto simp: rx_releasing_def commands)
qed

lemma tx_kept: "chip_step k k' \<Longrightarrow> tk_tx k' = tk_tx k"
  by (induction rule: chip_step.induct) auto


lemma stable_const: "stable P \<Longrightarrow> stable (\<lambda>k. P k \<and> C)"
  by (auto simp: stable_def)

text \<open>The phases in turn: the request is read, the read pointer is moved, RECV is written and accepted.\<close>

definition tcp_await :: "bytes \<Rightarrow> nat \<Rightarrow> u16 \<Rightarrow> u16 \<Rightarrow> bytes \<Rightarrow> nat \<Rightarrow> tcp_sock \<Rightarrow> bool" where
  "tcp_await ar t q w S r k \<longleftrightarrow> rx_rest ar t q q k \<and> tx_held w w S r k"

definition releasing :: "bytes \<Rightarrow> nat \<Rightarrow> nat \<Rightarrow> u16 \<Rightarrow> u16 \<Rightarrow> bytes \<Rightarrow> nat \<Rightarrow> tcp_sock \<Rightarrow> bool" where
  "releasing ar n t q w S r k \<longleftrightarrow> rx_releasing ar n t q k \<and> tx_held w w S r k"

lemma await_stable: "stable (\<lambda>k. rx_rest ar t q p k \<and> tx_held w v S r k)" "stable (tcp_await ar t q w S r)"
  unfolding stable_def tcp_await_def using rx_rest_step tx_held_step by blast+

lemma release_stable:
  "n < 2048 \<Longrightarrow> stable (\<lambda>k. rx_releasing ar n t q k \<and> tx_held w v S r k)" "n < 2048 \<Longrightarrow> stable (releasing ar n t q w S r)"
  unfolding stable_def releasing_def using rx_releasing_step tx_held_step by blast+

lemma told_ring:
  assumes told: "told (\<lambda>k. tcp_await ar t q w S r k \<and> C) SOCKET0_RX_BLOCK (slot (q + of_nat off)) vs" and C: C
    and len: "off + length vs \<le> length (drop t ar)" "off + length vs \<le> 2048"
  shows "vs = take (length vs) (drop off (drop t ar))"
proof (rule nth_equalityI)
  fix i assume i: "i < length vs"
  have "shown k SOCKET0_RX_BLOCK (slot (q + of_nat off) + of_nat i) = Some (drop t ar ! (off + i))" if "tcp_await ar t q w S r k" for k
  proof -
    have k: "tk_rx_base k = q" "tk_taken k = t" and "prefix ar (tk_in k)" using that by (simp_all add: tcp_await_def rx_rest_def)
    then obtain more where more: "tk_in k = ar @ more" by (auto simp: prefix_def)
    have "slot (slot (q + of_nat off) + of_nat i - q) = slot (slot (q + of_nat off) + (of_nat i - q))" by (simp add: algebra_simps)
    also have "\<dots> = slot (q + of_nat off + (of_nat i - q))" by (rule slot_add)
    also have "\<dots> = slot (of_nat (off + i))" by simp
    finally have j: "unat (slot (slot (q + of_nat off) + of_nat i - q)) = off + i" using slot_small [of "off + i"] i len by simp
    have "off + i < length (drop t ar)" using i len by simp
    then have "off + i < length (unread k)" "unread k ! (off + i) = drop t ar ! (off + i)"
      using k more by (simp_all add: unread_def nth_append less_diff_conv ac_simps)
    then show ?thesis using j k by (simp add: shown_def SOCKET0_RX_BLOCK_def SOCKET0_BLOCK_def)
  qed
  then have "vs ! i = drop t ar ! (off + i)" using told i unfolding told_def by blast
  then show "vs ! i = take (length vs) (drop off (drop t ar)) ! i" using i len by (simp add: ac_simps)
qed (use len in simp)

lemma chip_read_ring:
  assumes chip: "w5500_tcp xf sock" and n: "n \<le> length (drop t ar)" "n \<le> 2048"
  shows "triple False (up sock (\<lambda>k. tcp_await ar t q w S r k \<and> C)) (read_buffer_from xf SOCKET0_RX_BLOCK q n off)
    (\<lambda>vs s. length vs = n - off \<and> up sock (\<lambda>k. tcp_await ar t q w S r k \<and> C \<and> vs = drop off (take n (drop t ar))) s)"
proof (induction "n - off" arbitrary: off C rule: less_induct)
  case less
  let ?b = SOCKET0_RX_BLOCK and ?rq = "take n (drop t ar)" and ?R = "tcp_await ar t q w S r"
  show ?case
  proof (cases "off < n")
    case False
    then show ?thesis by (subst read_buffer_from.simps) (auto intro!: triple_ret elim: up_mono)
  next
    case True
    define stop where "stop = min (off + 32) n"
    have stop: "off < stop" "stop \<le> n" "stop - off \<le> 32" using True by (simp_all add: stop_def)
    define C' where "C' vs \<longleftrightarrow> C \<and> vs = take (stop - off) (drop off ?rq)" for vs
    have read: "triple False (up sock (\<lambda>k. ?R k \<and> C)) (read_into xf ?b (slot (q + of_nat off)) (stop - off))
        (\<lambda>vs s. length vs = stop - off \<and> up sock (\<lambda>k. ?R k \<and> C' vs) s)"
    proof (rule triple_weaken [OF chip_read_into [OF chip blocks(3) stop(3) stable_const [OF await_stable(2)]]])
      fix vs s
      assume a: "length vs = stop - off \<and> up sock (\<lambda>k. (?R k \<and> C) \<and> told (\<lambda>k. ?R k \<and> C) ?b (slot (q + of_nat off)) vs) s"
      have "take (stop - off) (drop off (drop t ar)) = take (stop - off) (drop off ?rq)"
        using stop by (simp add: drop_take min_absorb1)
      moreover have len: "off + length vs \<le> length (drop t ar)" "off + length vs \<le> 2048" using a stop n by linarith+
      ultimately have "C' vs" if "told (\<lambda>k. ?R k \<and> C) ?b (slot (q + of_nat off)) vs" C
        using told_ring [OF that len] a that(2) by (simp only: C'_def)
      then have "up sock (\<lambda>k. ?R k \<and> C' vs) s" by (intro up_mono [OF conjunct2 [OF a]]) blast
      then show "length vs = stop - off \<and> up sock (\<lambda>k. ?R k \<and> C' vs) s" using a by blast
    qed
    have rest: "triple False (\<lambda>s. length vs = stop - off \<and> up sock (\<lambda>k. ?R k \<and> C' vs) s) (read_buffer_from xf ?b q n stop)
        (\<lambda>ws s. length vs = stop - off \<and> length ws = n - stop \<and> up sock (\<lambda>k. ?R k \<and> C' vs \<and> ws = drop stop ?rq) s)" for vs
      by (rule triple_const, rule less) (use True stop in auto)
    have "take (stop - off) (drop off ?rq) @ drop stop ?rq = drop off ?rq"
      using stop append_take_drop_id [of "stop - off" "drop off ?rq"] by simp
    then have "up sock (\<lambda>k. ?R k \<and> C \<and> vs @ ws = drop off ?rq) s"
      if "up sock (\<lambda>k. ?R k \<and> C' vs \<and> ws = drop stop ?rq) s" for vs ws s
      by (intro up_mono [OF that]) (simp add: C'_def)
    then have fin: "length (vs @ ws) = n - off \<and> up sock (\<lambda>k. ?R k \<and> C \<and> vs @ ws = drop off ?rq) s"
      if "length vs = stop - off \<and> length ws = n - stop \<and> up sock (\<lambda>k. ?R k \<and> C' vs \<and> ws = drop stop ?rq) s" for vs ws s
      using that stop by simp
    have "triple False (up sock (\<lambda>k. ?R k \<and> C)) (port_bind (read_into xf ?b (slot (q + of_nat off)) (stop - off)) (\<lambda>vs.
        port_bind (read_buffer_from xf ?b q n stop) (\<lambda>rest. port_ret (vs @ rest))))
        (\<lambda>vs s. length vs = n - off \<and> up sock (\<lambda>k. ?R k \<and> C \<and> vs = drop off ?rq) s)"
      by (rule triple_bind [OF read], rule triple_bind [OF rest], rule triple_ret, erule fin)
    moreover have "read_buffer_from xf ?b q n off = port_bind (read_into xf ?b (slot (q + of_nat off)) (stop - off)) (\<lambda>vs.
        port_bind (read_buffer_from xf ?b q n stop) (\<lambda>rest. port_ret (vs @ rest)))"
      by (subst read_buffer_from.simps) (simp only: True if_True Let_def slot_def stop_def BUFFER_TRANSFER_CHUNK_def)
    ultimately show ?thesis by (simp only:)
  qed
qed

lemma be16_write: "length (be16 v) = 2" "of_be16 (be16 v ! 0) (be16 v ! 1) = v" "of_be16 (be16 v ! 0) (be16 v ! Suc 0) = v"
  by (simp_all add: be16_def)

lemma tcp_write_cases:
  "tcp_write SOCKET0_BLOCK SOCKET_RX_READ_POINTER (be16 v) k = Some (k\<lparr>tk_rx_rd := v\<rparr>)"
  "tcp_write SOCKET0_BLOCK SOCKET_TX_WRITE_POINTER (be16 v) k = Some (k\<lparr>tk_tx_wr := v\<rparr>)"
  "c = SOCKET_COMMAND_RECEIVE \<or> c = SOCKET_COMMAND_SEND \<Longrightarrow>
    tcp_write SOCKET0_BLOCK SOCKET_COMMAND [c] k = (if tk_cmd k = 0 then Some (k\<lparr>tk_cmd := c\<rparr>) else None)"
  "tcp_write SOCKET0_TX_BLOCK a vs k = Some (k\<lparr>tk_tx := tx_put a vs (tk_tx k)\<rparr>)"
  "data_write SOCKET0_BLOCK SOCKET_RX_READ_POINTER (be16 v)" "data_write SOCKET0_BLOCK SOCKET_TX_WRITE_POINTER (be16 v)"
  "c = SOCKET_COMMAND_RECEIVE \<or> c = SOCKET_COMMAND_SEND \<Longrightarrow> data_write SOCKET0_BLOCK SOCKET_COMMAND [c]"
  "data_write SOCKET0_TX_BLOCK a vs"
  by (auto simp: tcp_write_def data_write_def be16_write SOCKET0_BLOCK_def SOCKET0_TX_BLOCK_def SOCKET_RX_READ_POINTER_def
      SOCKET_TX_WRITE_POINTER_def SOCKET_COMMAND_def)

lemma chip_release:
  assumes chip: "w5500_tcp xf sock" and n: "n < 2048"
  shows "triple False (up sock (\<lambda>k. tcp_await ar t q w S r k \<and> C)) (skip_socket_rx xf SOCKET0_BLOCK q n)
    (\<lambda>_. up sock (\<lambda>k. releasing ar n t q w S r k \<and> C))"
  unfolding skip_socket_rx_def write_socket_u16_def write_socket_u8_def wait_socket_command_clear_def
proof (rule triple_bind)
  let ?M = "\<lambda>k. (rx_rest ar t q (q + of_nat n) k \<and> tx_held w w S r k) \<and> C"
  show "triple False (up sock (\<lambda>k. tcp_await ar t q w S r k \<and> C)) (w5_write xf SOCKET0_BLOCK SOCKET_RX_READ_POINTER (be16 (q + of_nat n)))
      (\<lambda>_. up sock ?M)"
    by (rule chip_write [OF chip _ blocks(1) _ stable_const [OF await_stable(2)] stable_const [OF await_stable(1)]])
      (auto simp: tcp_write_cases be16_write tcp_await_def rx_rest_def tx_held_def tcp_sent_def tx_bytes_def split: if_splits)
  show "triple False (up sock ?M) (port_bind (w5_write xf SOCKET0_BLOCK SOCKET_COMMAND [SOCKET_COMMAND_RECEIVE])
      (\<lambda>_. command_clear_loop xf SOCKET0_BLOCK COMMAND_POLL_LIMIT)) (\<lambda>_. up sock (\<lambda>k. releasing ar n t q w S r k \<and> C))"
  proof (rule triple_bind [OF _ chip_clear [OF chip blocks(1) stable_const [OF release_stable(2) [OF n]]]])
    show "triple False (up sock ?M) (w5_write xf SOCKET0_BLOCK SOCKET_COMMAND [SOCKET_COMMAND_RECEIVE])
        (\<lambda>_. up sock (\<lambda>k. releasing ar n t q w S r k \<and> C))"
      by (rule chip_write [OF chip _ blocks(1) _ stable_const [OF await_stable(1)] stable_const [OF release_stable(2) [OF n]]])
        (auto simp: tcp_write_cases releasing_def rx_rest_def rx_releasing_def tx_held_def tcp_sent_def tx_bytes_def commands
          split: if_splits)
  qed
qed


text \<open>The answer: its bytes are written behind the write pointer, the pointer is moved, SEND is written and accepted.\<close>

lemma tx_put_other: "\<forall>i < length vs. slot (a + of_nat i) \<noteq> y \<Longrightarrow> tx_put a vs m y = m y"
proof (induction vs arbitrary: a m)
  case (Cons v vs)
  have "\<forall>i < length vs. slot (a + 1 + of_nat i) \<noteq> y"
    using Cons.prems by (auto simp: ac_simps dest: spec [where x = "Suc _"])
  then have "tx_put (a + 1) vs (m(slot a := v)) y = (m(slot a := v)) y" by (rule Cons.IH)
  moreover have "slot a \<noteq> y" using Cons.prems by force
  ultimately show ?case by simp
qed simp

lemma tx_put_at: "i < length vs \<Longrightarrow> length vs \<le> 2048 \<Longrightarrow> tx_put a vs m (slot (a + of_nat i)) = vs ! i"
proof (induction vs arbitrary: a m i)
  case (Cons v vs)
  show ?case
  proof (cases i)
    case 0
    have "slot (a + 1 + of_nat j) \<noteq> slot a" if "j < length vs" for j
      using slot_distinct [of a "Suc j" 0] that Cons.prems by (auto simp: ac_simps)
    then show ?thesis using 0 by (simp add: tx_put_other)
  next
    case (Suc j)
    then show ?thesis using Cons.IH [of j "a + 1"] Cons.prems by (simp add: ac_simps)
  qed
qed simp

definition tx_filled :: "u16 \<Rightarrow> bytes \<Rightarrow> nat \<Rightarrow> tcp_sock \<Rightarrow> bool" where
  "tx_filled w resp off k \<longleftrightarrow> (\<forall>i < off. tk_tx k (slot (w + of_nat i)) = resp ! i)"

definition writing :: "bytes \<Rightarrow> nat \<Rightarrow> nat \<Rightarrow> u16 \<Rightarrow> u16 \<Rightarrow> bytes \<Rightarrow> nat \<Rightarrow> bytes \<Rightarrow> nat \<Rightarrow> tcp_sock \<Rightarrow> bool" where
  "writing ar n t q w S r resp off k \<longleftrightarrow> releasing ar n t q w S r k \<and> tx_filled w resp off k"

lemma writing_stable: "n < 2048 \<Longrightarrow> stable (writing ar n t q w S r resp off)"
  unfolding stable_def writing_def tx_filled_def by (metis release_stable(2) stable_def tx_kept)

text \<open>A chunk goes to free cells: those in use lie before the write pointer, and there is room.\<close>

lemma behind:
  fixes w b :: u16
  shows "slot (slot (w + of_nat off) + of_nat i) = slot (b + of_nat (unat (w - b) + off + i))"
proof -
  have "slot (slot (w + of_nat off) + of_nat i) = slot (w + of_nat off + of_nat i)" by (rule slot_add)
  also have "w + of_nat off + of_nat i = b + of_nat (unat (w - b) + off + i)" by simp
  finally show ?thesis .
qed

lemma put_keeps_sent:
  assumes "unat (tk_tx_wr k - tk_tx_base k) + off + length vs \<le> 2048"
  shows "tcp_sent (k\<lparr>tk_tx := tx_put (slot (tk_tx_wr k + of_nat off)) vs (tk_tx k)\<rparr>) = tcp_sent k"
proof -
  let ?b = "tk_tx_base k" and ?m = "unat (tk_tx_wr k - tk_tx_base k)"
  have "tx_put (slot (tk_tx_wr k + of_nat off)) vs (tk_tx k) (slot (?b + of_nat j)) = tk_tx k (slot (?b + of_nat j))" if "j < ?m" for j
  proof (rule tx_put_other, intro allI impI notI)
    fix i assume i: "i < length vs" and e: "slot (slot (tk_tx_wr k + of_nat off) + of_nat i) = slot (?b + of_nat j)"
    have "?m + off + i < 2048" "j < 2048" using i that assms by linarith+
    then have "?m + off + i = j" using slot_distinct e unfolding behind [of "tk_tx_wr k" off i ?b] by blast
    then show False using that by simp
  qed
  then show ?thesis by (simp add: tcp_sent_def tx_bytes_def)
qed

lemma put_fills:
  assumes f: "tx_filled w resp off k" and off: "off < stop" "stop \<le> length resp" "length resp \<le> 2048"
  shows "tx_filled w resp stop (k\<lparr>tk_tx := tx_put (slot (w + of_nat off)) (take (stop - off) (drop off resp)) (tk_tx k)\<rparr>)"
  unfolding tx_filled_def
proof (intro allI impI)
  fix i assume i: "i < stop"
  let ?vs = "take (stop - off) (drop off resp)"
  have len: "length ?vs = stop - off" using off by simp
  have at: "slot (slot (w + of_nat off) + of_nat j) = slot (w + of_nat (off + j))" for j
    by (simp only: slot_add of_nat_add add.assoc)
  show "tk_tx (k\<lparr>tk_tx := tx_put (slot (w + of_nat off)) ?vs (tk_tx k)\<rparr>) (slot (w + of_nat i)) = resp ! i"
  proof (cases "i < off")
    case True
    have "slot (slot (w + of_nat off) + of_nat j) \<noteq> slot (w + of_nat i)" if "j < length ?vs" for j
    proof
      assume "slot (slot (w + of_nat off) + of_nat j) = slot (w + of_nat i)"
      moreover have "off + j < 2048" "i < 2048" using that True off unfolding len by linarith+
      ultimately have "off + j = i" using slot_distinct unfolding at by blast
      then show False using True by simp
    qed
    then show ?thesis using f True by (simp add: tx_put_other tx_filled_def)
  next
    case False
    then have "slot (w + of_nat i) = slot (slot (w + of_nat off) + of_nat (i - off))" unfolding at by simp
    moreover have "i - off < length ?vs" "length ?vs \<le> 2048" using i False off unfolding len by linarith+
    ultimately have "tx_put (slot (w + of_nat off)) ?vs (tk_tx k) (slot (w + of_nat i)) = ?vs ! (i - off)"
      by (simp only: tx_put_at)
    then show ?thesis using i False off by simp
  qed
qed

lemma chip_write_ring:
  assumes chip: "w5500_tcp xf sock" and n: "n < 2048" and room: "r + length resp \<le> 2048"
  shows "triple False (up sock (\<lambda>k. writing ar n t q w S r resp off k \<and> C)) (write_buffer_from xf SOCKET0_TX_BLOCK w resp off)
    (\<lambda>_. up sock (\<lambda>k. writing ar n t q w S r resp (length resp) k \<and> C))"
proof (induction "length resp - off" arbitrary: off rule: less_induct)
  case less
  let ?b = SOCKET0_TX_BLOCK and ?W = "writing ar n t q w S r resp"
  show ?case
  proof (cases "off < length resp")
    case False
    then have "?W off k \<Longrightarrow> ?W (length resp) k" for k by (simp add: writing_def tx_filled_def)
    then have "up sock (\<lambda>k. ?W off k \<and> C) s \<Longrightarrow> up sock (\<lambda>k. ?W (length resp) k \<and> C) s" for s by (auto elim: up_mono)
    then show ?thesis using False by (subst write_buffer_from.simps) (simp add: triple_ret)
  next
    case True
    define stop where "stop = min (off + 32) (length resp)"
    let ?vs = "take (stop - off) (drop off resp)"
    have stop: "off < stop" "stop \<le> length resp" "length ?vs \<le> 32" using True by (simp_all add: stop_def)
    have put: "?W stop k'" if "?W off k" "tcp_write ?b (slot (w + of_nat off)) ?vs k = Some k'" for k k'
    proof -
      have k': "k' = k\<lparr>tk_tx := tx_put (slot (w + of_nat off)) ?vs (tk_tx k)\<rparr>" using that(2) by (simp add: tcp_write_cases)
      have k: "tk_tx_wr k = w" "unat (w - tk_tx_base k) \<le> r" using that(1) by (simp_all add: writing_def releasing_def tx_held_def)
      have "tcp_sent k' = tcp_sent k" unfolding k' k(1) [symmetric]
        by (rule put_keeps_sent) (use k room stop in simp)
      moreover have "tx_filled w resp stop k'" unfolding k'
        by (rule put_fills) (use that(1) room stop in \<open>simp_all add: writing_def\<close>)
      ultimately show ?thesis using that(1)
        by (auto simp: k' writing_def releasing_def tx_held_def rx_releasing_def split: if_splits)
    qed
    have one: "triple False (up sock (\<lambda>k. ?W off k \<and> C)) (w5_write xf ?b (slot (w + of_nat off)) ?vs) (\<lambda>_. up sock (\<lambda>k. ?W stop k \<and> C))"
      by (rule chip_write [OF chip _ blocks(2) stop(3) stable_const [OF writing_stable [OF n]] stable_const [OF writing_stable [OF n]]])
        (auto simp: tcp_write_cases(8) dest: put)
    have "triple False (up sock (\<lambda>k. ?W stop k \<and> C)) (write_buffer_from xf ?b w resp stop) (\<lambda>_. up sock (\<lambda>k. ?W (length resp) k \<and> C))"
      by (rule less) (use True stop in auto)
    with one have "triple False (up sock (\<lambda>k. ?W off k \<and> C))
        (port_bind (w5_write xf ?b (slot (w + of_nat off)) ?vs) (\<lambda>_. write_buffer_from xf ?b w resp stop))
        (\<lambda>_. up sock (\<lambda>k. ?W (length resp) k \<and> C))"
      by (rule triple_bind)
    moreover have "write_buffer_from xf ?b w resp off =
        port_bind (w5_write xf ?b (slot (w + of_nat off)) ?vs) (\<lambda>_. write_buffer_from xf ?b w resp stop)"
      by (subst write_buffer_from.simps) (simp only: True if_True Let_def slot_def stop_def BUFFER_TRANSFER_CHUNK_def)
    ultimately show ?thesis by (simp only:)
  qed
qed

text \<open>Moving the pointer hands the bytes over.\<close>

lemma pointer_hands_over:
  assumes f: "tx_filled w resp (length resp) k" and h: "tx_held w w S r k" and c: "tk_cmd k \<noteq> SOCKET_COMMAND_SEND"
    and room: "r + length resp \<le> 2048"
  shows "tx_held w (w + of_nat (length resp)) (S @ resp) (r + length resp) (k\<lparr>tk_tx_wr := w + of_nat (length resp)\<rparr>)"
proof -
  let ?b = "tk_tx_base k" and ?m = "unat (w - tk_tx_base k)" and ?l = "length resp"
  have k: "tk_tx_wr k = w" "tcp_sent k = S" "?m \<le> r" "tk_out k = ?m" using h c by (simp_all add: tx_held_def)
  have len: "unat (w + of_nat ?l - ?b) = ?m + ?l"
  proof -
    have l: "unat (of_nat ?l :: u16) = ?l" using room by (simp add: unat_of_nat)
    have "?m + ?l < 2 ^ LENGTH(16)" using k(3) room by simp
    then have "unat ((w - ?b) + of_nat ?l) = ?m + ?l" using unat_add_lem [THEN iffD1, of "w - ?b" "of_nat ?l"] unfolding l by blast
    moreover have "(w - ?b) + of_nat ?l = w + of_nat ?l - ?b" by simp
    ultimately show ?thesis by (simp only:)
  qed
  have "map (\<lambda>i. tk_tx k (slot (?b + of_nat i))) [?m..<?m + ?l] = map (\<lambda>i. tk_tx k (slot (w + of_nat i))) [0..<?l]"
  proof -
    have "?b + of_nat (i + ?m) = w + of_nat i" for i by simp
    then show ?thesis unfolding map_add_upt [symmetric, of ?m ?l] add.commute [of ?m ?l] by (simp only: list.map_comp o_def)
  qed
  also have "\<dots> = resp" using f by (intro nth_equalityI) (simp_all add: tx_filled_def)
  finally have "map (\<lambda>i. tk_tx k (slot (?b + of_nat i))) [?m..<?m + ?l] = resp" .
  then have "tx_bytes k (?m + ?l) = tx_bytes k ?m @ resp"
    unfolding tx_bytes_def upt_add_eq_append [OF zero_le] map_append by (simp only:)
  then have "tcp_sent (k\<lparr>tk_tx_wr := w + of_nat ?l\<rparr>) = S @ resp"
    using k(2) unfolding tcp_sent_def k(1) by (simp add: tx_bytes_def len)
  then show ?thesis using k(3,4) len c by (auto simp: tx_held_def)
qed


lemma chip_send:
  assumes chip: "w5500_tcp xf sock" and n: "n < 2048" and room: "r + length resp \<le> 2048"
  shows "triple False (up sock (\<lambda>k. releasing ar n t q w S r k \<and> C)) (send_tcp xf resp)
    (\<lambda>_. up sock (\<lambda>k. tcp_await ar (t + n) (q + of_nat n) (w + of_nat (length resp)) (S @ resp) (r + length resp) k \<and> C))"
  unfolding send_tcp_def wait_tx_capacity_def read_socket0_u16_def write_socket0_u16_def write_socket_u16_def write_socket0_u8_def
    write_socket_u8_def wait_socket0_command_clear_def wait_socket_command_clear_def write_buffer_def
proof (rule triple_bind)
  let ?R = "\<lambda>k. releasing ar n t q w S r k \<and> C" and ?l = "length resp"
  let ?v = "w + of_nat ?l" and ?p = "q + of_nat n"
  let ?H = "\<lambda>k. (rx_releasing ar n t q k \<and> tx_held w ?v (S @ resp) (r + ?l) k) \<and> C"
  let ?F = "\<lambda>k. tcp_await ar (t + n) ?p ?v (S @ resp) (r + ?l) k \<and> C"
  note st = stable_const [OF release_stable(2) [OF n]] stable_const [OF release_stable(1) [OF n]]
    stable_const [OF writing_stable [OF n]] stable_const [OF await_stable(2)]
  show "triple False (up sock ?R) (capacity_loop xf SOCKET0_BLOCK ?l STATUS_POLL_LIMIT) (\<lambda>_. up sock ?R)"
    by (rule chip_capacity [OF chip blocks(1) st(1)])
  have send: "triple False (up sock ?H) (w5_write xf SOCKET0_BLOCK SOCKET_COMMAND [SOCKET_COMMAND_SEND]) (\<lambda>_. up sock ?F)"
    by (rule chip_write [OF chip _ blocks(1) _ st(2,4)])
      (auto simp: tcp_write_cases tcp_await_def rx_rest_def rx_releasing_def tx_held_def tcp_sent_def tx_bytes_def commands
        split: if_splits)
  have rest: "triple False (up sock (\<lambda>k. ?R k \<and> u = w)) (port_bind (write_buffer_from xf SOCKET0_TX_BLOCK u resp 0) (\<lambda>_.
      port_bind (w5_write xf SOCKET0_BLOCK SOCKET_TX_WRITE_POINTER (be16 (u + of_nat ?l))) (\<lambda>_.
      port_bind (w5_write xf SOCKET0_BLOCK SOCKET_COMMAND [SOCKET_COMMAND_SEND]) (\<lambda>_.
      command_clear_loop xf SOCKET0_BLOCK COMMAND_POLL_LIMIT)))) (\<lambda>_. up sock ?F)" for u
  proof (rule triple_bind)
    let ?W = "writing ar n t q u S r resp"
    show "triple False (up sock (\<lambda>k. ?R k \<and> u = w)) (write_buffer_from xf SOCKET0_TX_BLOCK u resp 0)
        (\<lambda>_. up sock (\<lambda>k. ?W ?l k \<and> u = w \<and> C))"
      by (rule triple_weaken [OF chip_write_ring [OF chip n room]]) (auto simp: writing_def tx_filled_def elim!: up_mono)
    have "?H (k\<lparr>tk_tx_wr := u + of_nat ?l\<rparr>)" if "?W ?l k \<and> u = w \<and> C" for k
      using that pointer_hands_over [of w resp k S r] room
      by (auto simp: writing_def releasing_def rx_releasing_def commands)
    then have "triple False (up sock (\<lambda>k. ?W ?l k \<and> u = w \<and> C))
        (w5_write xf SOCKET0_BLOCK SOCKET_TX_WRITE_POINTER (be16 (u + of_nat ?l))) (\<lambda>_. up sock ?H)"
      by (intro chip_write [OF chip _ blocks(1) _ st(3,2)]) (auto simp: tcp_write_cases be16_write)
    then show "triple False (up sock (\<lambda>k. ?W ?l k \<and> u = w \<and> C))
        (port_bind (w5_write xf SOCKET0_BLOCK SOCKET_TX_WRITE_POINTER (be16 (u + of_nat ?l))) (\<lambda>_.
         port_bind (w5_write xf SOCKET0_BLOCK SOCKET_COMMAND [SOCKET_COMMAND_SEND]) (\<lambda>_.
         command_clear_loop xf SOCKET0_BLOCK COMMAND_POLL_LIMIT))) (\<lambda>_. up sock ?F)"
      by (rule triple_bind) (rule triple_bind [OF send chip_clear [OF chip blocks(1) st(4)]])
  qed
  show "triple False (up sock ?R) (port_bind (read_socket_u16 xf SOCKET0_BLOCK SOCKET_TX_WRITE_POINTER) (\<lambda>u.
      port_bind (write_buffer_from xf SOCKET0_TX_BLOCK u resp 0) (\<lambda>_.
      port_bind (w5_write xf SOCKET0_BLOCK SOCKET_TX_WRITE_POINTER (be16 (u + of_nat ?l))) (\<lambda>_.
      port_bind (w5_write xf SOCKET0_BLOCK SOCKET_COMMAND [SOCKET_COMMAND_SEND]) (\<lambda>_.
      command_clear_loop xf SOCKET0_BLOCK COMMAND_POLL_LIMIT))))) (\<lambda>_. up sock ?F)"
  proof (rule triple_bind [OF triple_weaken [OF chip_read_u16 [OF chip blocks(1) st(1)]] rest])
    fix u s
    assume "\<exists>x y. u = of_be16 x y \<and> up sock (\<lambda>k. ?R k \<and> told ?R SOCKET0_BLOCK SOCKET_TX_WRITE_POINTER [x, y]) s"
    then obtain x y where u: "u = of_be16 x y" "up sock (\<lambda>k. ?R k \<and> told ?R SOCKET0_BLOCK SOCKET_TX_WRITE_POINTER [x, y]) s" by blast
    have "u = w" if "told ?R SOCKET0_BLOCK SOCKET_TX_WRITE_POINTER [x, y]"
      unfolding u(1) by (rule told_tx_pointer [OF that]) (simp add: releasing_def tx_held_def)
    then show "up sock (\<lambda>k. ?R k \<and> u = w) s" by (intro up_mono [OF u(2)]) blast
  qed
qed


section \<open>A request served\<close>

text \<open>Between two polls: no request half taken, and all that was written is handed over, perhaps by a SEND not yet accepted.\<close>

definition tcp_idle :: "tcp_sock \<Rightarrow> bool" where
  "tcp_idle k \<longleftrightarrow> tk_rx_rd k = tk_rx_base k \<and>
     (tk_cmd k = 0 \<and> tk_out k = unat (tk_tx_wr k - tk_tx_base k) \<or>
      tk_cmd k = SOCKET_COMMAND_SEND \<and> tk_out k \<le> unat (tk_tx_wr k - tk_tx_base k))"

lemma idle_await:
  "tcp_idle k \<Longrightarrow> tcp_await (tk_in k) (tk_taken k) (tk_rx_rd k) (tk_tx_wr k) (tcp_sent k) (unat (tk_tx_wr k - tk_tx_base k)) k"
  by (auto simp: tcp_idle_def tcp_await_def rx_rest_def tx_held_def commands)

lemma await_idle:
  "tcp_await ar t q w S r k \<Longrightarrow> tcp_idle k \<and> prefix ar (tk_in k) \<and> tk_taken k = t \<and> tcp_sent k = S"
  by (auto simp: tcp_idle_def tcp_await_def rx_rest_def tx_held_def split: if_splits)

text \<open>What \<^verbatim>\<open>poll_modbus_tcp\<close> does after it read the received size.\<close>

lemma chip_take:
  assumes chip: "w5500_tcp xf sock" and n: "n \<le> length (drop t ar)" "n < 2048"
  shows "triple False (up sock (tcp_await ar t q w S r))
    (port_bind (read_socket0_u16 xf SOCKET_RX_READ_POINTER) (\<lambda>p. port_bind (read_buffer xf SOCKET0_RX_BLOCK p n) (\<lambda>rq.
     port_bind (skip_socket_rx xf SOCKET0_BLOCK p n) (\<lambda>_. port_ret (Some rq)))))
    (\<lambda>ro s. \<exists>rq. ro = Some rq \<and> length rq = n \<and> up sock (\<lambda>k. releasing ar n t q w S r k \<and> rq = take n (drop t ar)) s)"
proof -
  let ?R = "tcp_await ar t q w S r" and ?rq = "take n (drop t ar)"
  have n': "n \<le> 2048" using n(2) by simp
  have pointer: "triple False (up sock ?R) (read_socket0_u16 xf SOCKET_RX_READ_POINTER) (\<lambda>p. up sock (\<lambda>k. tcp_await ar t p w S r k \<and> p = q))"
    unfolding read_socket0_u16_def
  proof (rule triple_weaken [OF chip_read_u16 [OF chip blocks(1) await_stable(2)]])
    fix p s assume "\<exists>x y. p = of_be16 x y \<and> up sock (\<lambda>k. ?R k \<and> told ?R SOCKET0_BLOCK SOCKET_RX_READ_POINTER [x, y]) s"
    then obtain x y where p: "p = of_be16 x y" "up sock (\<lambda>k. ?R k \<and> told ?R SOCKET0_BLOCK SOCKET_RX_READ_POINTER [x, y]) s" by blast
    have "p = q" if "told ?R SOCKET0_BLOCK SOCKET_RX_READ_POINTER [x, y]"
      unfolding p(1) by (rule told_pointer [OF that]) (simp add: tcp_await_def rx_rest_def)
    then show "up sock (\<lambda>k. tcp_await ar t p w S r k \<and> p = q) s" by (intro up_mono [OF p(2)]) blast
  qed
  have skip: "triple False (\<lambda>s. length vs = n \<and> up sock (\<lambda>k. tcp_await ar t p w S r k \<and> p = q \<and> vs = ?rq) s)
      (port_bind (skip_socket_rx xf SOCKET0_BLOCK p n) (\<lambda>_. port_ret (Some vs)))
      (\<lambda>ro s. \<exists>rq. ro = Some rq \<and> length rq = n \<and> up sock (\<lambda>k. releasing ar n t q w S r k \<and> rq = ?rq) s)" for p vs
    by (rule triple_bind [OF triple_const [OF chip_release [OF chip n(2)]] triple_ret]) (auto elim!: up_mono)
  show ?thesis
    by (rule triple_bind [OF pointer], unfold read_buffer_def, rule triple_bind [OF chip_read_ring [OF chip n(1) n']])
      (use skip in simp)
qed

lemma bank_read_length: "length (bank_read b start n) = 2 * n"
  by (induction n) (simp_all add: bank_read_def be16_def)

lemma bank_serve_reply:
  assumes "8 \<le> length f"
  obtains b' resp where "bank_serve b f = (b', Some resp)" "length resp \<le> 260"
proof -
  have "\<exists>b' resp. bank_serve b f = (b', Some resp) \<and> length resp \<le> 260"
    using assms by (simp add: bank_serve_def Let_def reply_frame_def be16_def bank_read_length)
  then show thesis using that by blast
qed

lemma triple_run:
  assumes "triple False P m Q" "P s"
  obtains s' v where "m s = Some (s', Inr v)" "Q v s'"
  using assms unfolding triple_def by (fastforce split: sum.splits)

lemma poll_modbus_tcp_serves:
  assumes chip: "w5500_tcp xf sock" and inv: "modbus_inv m"
    and status: "read_socket0_u8 xf SOCKET_STATUS s = Some (s1, Inr SOCKET_STATUS_ESTABLISHED)"
    and size: "read_socket0_u16 xf SOCKET_RX_RECEIVED_SIZE s1 = Some (s2, Inr v)" "n = min (unat v) 260" "8 \<le> n"
    and s2: "up sock (tcp_await ar t q w S r) s2" and n: "n \<le> length (drop t ar)" and room: "r + 260 \<le> 2048"
  shows "\<exists>s' m' rq resp q' w' r'. poll_modbus_tcp xf m port s = Some (s', m', Inr True) \<and> modbus_inv m' \<and>
    bank_serve (bank_of m) rq = (bank_of m', Some resp) \<and>
    up sock (\<lambda>k. tcp_await ar (t + n) q' w' (S @ resp) r' k \<and> rq = take n (drop t ar)) s'"
proof -
  have n': "n < 2048" using size(2) by simp
  obtain s3 ro where s3: "port_bind (read_socket0_u16 xf SOCKET_RX_READ_POINTER) (\<lambda>p. port_bind (read_buffer xf SOCKET0_RX_BLOCK p n) (\<lambda>rq.
      port_bind (skip_socket_rx xf SOCKET0_BLOCK p n) (\<lambda>_. port_ret (Some rq)))) s2 = Some (s3, Inr ro)"
      and ro: "\<exists>rq. ro = Some rq \<and> length rq = n \<and> up sock (\<lambda>k. releasing ar n t q w S r k \<and> rq = take n (drop t ar)) s3"
    by (rule triple_run [OF chip_take [OF chip n n'] s2])
  from ro obtain rq where rq: "length rq = n" "up sock (\<lambda>k. releasing ar n t q w S r k \<and> rq = take n (drop t ar)) s3" and
    "ro = Some rq" by blast
  have request: "tcp_request xf s1 = Some (s3, Inr (Some rq))"
    using size s3 \<open>ro = Some rq\<close> by (simp add: tcp_request_def port_bind_def [of "read_socket0_u16 xf SOCKET_RX_RECEIVED_SIZE"] Let_def)
  have "8 \<le> length rq" using rq(1) size(3) by simp
  then obtain b' resp where resp: "bank_serve (bank_of m) rq = (b', Some resp)" "length resp \<le> 260" by (rule bank_serve_reply)
  obtain m' where m': "process_frame m rq = Some (m', Some resp)" "modbus_inv m'" "b' = bank_of m'"
    using process_frame_refines [OF inv, of rq] resp(1) by auto
  have "r + length resp \<le> 2048" using room resp(2) by simp
  then obtain s4 u where s4: "send_tcp xf resp s3 = Some (s4, Inr u)"
      "up sock (\<lambda>k. tcp_await ar (t + n) (q + of_nat n) (w + of_nat (length resp)) (S @ resp) (r + length resp) k \<and> rq = take n (drop t ar)) s4"
    by (rule triple_run [OF chip_send [OF chip n'] rq(2)])
  have "poll_modbus_tcp xf m port s = Some (s4, m', Inr True)"
    using status request m'(1) s4(1) by (simp add: poll_modbus_tcp_def tcp_response_def port_bind_def port_ret_def)
  then show ?thesis using m' resp(1) s4(2) by blast
qed


lemma chip_status:
  assumes chip: "w5500_tcp xf sock" and s: "up sock (tcp_await ar t q w S r) s" and run: "read_socket0_u8 xf a s = Some (s', Inr v)"
  shows "up sock (tcp_await ar t q w S r) s'"
proof -
  obtain s1 v1 where "read_socket0_u8 xf a s = Some (s1, Inr v1)"
      "up sock (\<lambda>k. tcp_await ar t q w S r k \<and> told (tcp_await ar t q w S r) SOCKET0_BLOCK a [v1]) s1"
    unfolding read_socket0_u8_def read_socket_u8_def
    by (rule triple_run [OF chip_read_u8 [OF chip blocks(1) await_stable(2)] s])
  then show ?thesis using run by (auto elim: up_mono)
qed

lemma prefix_slice: "prefix ar bs \<Longrightarrow> n \<le> length (drop t ar) \<Longrightarrow> take n (drop t bs) = take n (drop t ar)"
  by (auto simp: prefix_def)

lemma chip_size:
  assumes chip: "w5500_tcp xf sock" and s: "up sock (tcp_await ar t q w S r) s"
    and size: "read_socket0_u16 xf SOCKET_RX_RECEIVED_SIZE s = Some (s', Inr v)"
  shows "\<exists>ar'. prefix ar ar' \<and> unat v \<le> length (drop t ar') \<and> up sock (tcp_await ar' t q w S r) s'"
proof -
  let ?f = "[address_hi SOCKET_RX_RECEIVED_SIZE, address_lo SOCKET_RX_RECEIVED_SIZE, spi_control SOCKET0_BLOCK False] @ replicate 2 0"
  have two: "(2 :: nat) \<le> 32" by simp
  obtain s1 h vs where x: "xf s ?f = (s1, Inr (h @ vs))" "length h = 3" "length vs = 2"
      and m: "moved (read_well SOCKET0_BLOCK SOCKET_RX_RECEIVED_SIZE vs) (sock s) (sock s1)"
    using chip upE [OF s] blocks(1) two unfolding w5500_tcp_def by blast
  obtain y z where vs: "vs = [y, z]" using x(3) by (auto simp: length_Suc_conv numeral_2_eq_2)
  have run: "s' = s1" "v = of_be16 y z"
    using size x by (auto simp: vs read_socket0_u16_def read_socket_u16_def port_bind_def read_frame [OF two] slice_def idx_def
        simp del: append_Cons)
  have "up sock (tcp_await ar t q w S r) s'" unfolding run
    by (rule up_moved [OF s m]) (auto simp: read_well_def intro: stable_star [OF _ await_stable(2)])
  then consider "sock s' = Lost" | k' where "sock s' = Connected k'" "tcp_await ar t q w S r k'" by (auto simp: up_def)
  then show ?thesis
  proof cases
    case 1
    then show ?thesis by (intro exI [of _ "ar @ replicate (t + unat v) 0"]) (simp add: up_def)
  next
    case 2
    obtain k where "sock s = Connected k" "tcp_await ar t q w S r k" using s m 2(1) by (auto simp: run moved_def up_def)
    moreover from this have "tk_cmd k \<noteq> SOCKET_COMMAND_RECEIVE" by (auto simp: tcp_await_def rx_rest_def commands)
    ultimately have "unat v \<le> length (unread k')" using m 2(1) by (auto simp: run moved_def read_well_def vs)
    then show ?thesis using 2 by (intro exI [of _ "tk_in k'"]) (simp add: up_def tcp_await_def rx_rest_def unread_def)
  qed
qed

section \<open>A scripted chip\<close>

text \<open>A chip of this kind that can be run: before each frame one event of a script takes place.\<close>

datatype chip_event = Arrive bytes | Ack nat | Accept

fun happen :: "chip_event \<Rightarrow> tcp_sock \<Rightarrow> tcp_sock" where
  "happen (Arrive bs) k = (if length (unread k) + length bs \<le> 2048 then k\<lparr>tk_in := tk_in k @ bs\<rparr> else k)"
| "happen (Ack n) k =
     (if n \<le> tk_out k
      then k\<lparr>tk_done := tk_done k @ tx_bytes k n, tk_tx_base := tk_tx_base k + of_nat n, tk_out := tk_out k - n\<rparr> else k)"
| "happen Accept k =
     (if tk_cmd k = SOCKET_COMMAND_RECEIVE \<and> unat (tk_rx_rd k - tk_rx_base k) \<le> length (unread k)
      then k\<lparr>tk_taken := tk_taken k + unat (tk_rx_rd k - tk_rx_base k), tk_rx_base := tk_rx_rd k, tk_cmd := 0\<rparr>
      else if tk_cmd k = SOCKET_COMMAND_SEND then k\<lparr>tk_out := unat (tk_tx_wr k - tk_tx_base k), tk_cmd := 0\<rparr>
      else k)"

definition chip_register :: "tcp_sock \<Rightarrow> u8 \<Rightarrow> u16 \<Rightarrow> u8" where
  "chip_register k b x =
     (case shown k b x of
        Some v \<Rightarrow> v
      | None \<Rightarrow>
          if b \<noteq> SOCKET0_BLOCK then 0
          else if x = SOCKET_STATUS then SOCKET_STATUS_ESTABLISHED
          else if x = SOCKET_RX_RECEIVED_SIZE then address_hi (of_nat (length (unread k)))
          else if x = SOCKET_RX_RECEIVED_SIZE + 1 then address_lo (of_nat (length (unread k)))
          else if x = SOCKET_TX_FREE_SIZE then address_hi (2048 - (tk_tx_wr k - tk_tx_base k))
          else if x = SOCKET_TX_FREE_SIZE + 1 then address_lo (2048 - (tk_tx_wr k - tk_tx_base k))
          else 0)"

fun script_port :: "(tcp_state \<times> chip_event list, unit) port" where
  "script_port (Connected k, es) f =
     (let k1 = (case es of [] \<Rightarrow> k | e # _ \<Rightarrow> happen e k); b = drop_bit 3 (f ! 2); a = of_be16 (f ! 0) (f ! 1); vs = drop 3 f in
      if bit (f ! 2) 2
      then ((case tcp_write b a vs k1 of None \<Rightarrow> Lost | Some k2 \<Rightarrow> Connected k2, tl es), Inr f)
      else ((Connected k1, tl es), Inr (take 3 f @ map (\<lambda>i. chip_register k1 b (a + of_nat i)) [0..<length vs])))"
| "script_port st f = (st, Inr f)"

lemma happen_steps: "chip_step\<^sup>*\<^sup>* k (happen e k)"
  by (cases e) (auto simp: commands intro: chip_step.intros)

lemma control_back:
  fixes b :: u8
  assumes "b < 32"
  shows "drop_bit 3 (spi_control b w) = b" "bit (spi_control b w) 2 = w"
proof -
  have "unat b < 32" using assms by (simp add: word_less_nat_alt)
  then have "b = of_nat (unat b)" and "unat b \<in> set [0..<32]" by simp_all
  moreover have "\<forall>k \<in> set [0..<32]. \<forall>w \<in> {True, False}. drop_bit 3 (spi_control (of_nat k) w) = (of_nat k :: u8) \<and> bit (spi_control (of_nat k) w) 2 = w"
    by code_simp
  ultimately show "drop_bit 3 (spi_control b w) = b" "bit (spi_control b w) 2 = w" by (metis (full_types) insertCI)+
qed

lemma script_reads:
  "read_well b a (map (\<lambda>i. chip_register k' b (a + of_nat i)) [0..<n]) k k'" if "chip_step\<^sup>*\<^sup>* k k'"
proof -
  have r: "chip_register k' SOCKET0_BLOCK SOCKET_RX_RECEIVED_SIZE = address_hi (of_nat (length (unread k')))"
    "chip_register k' SOCKET0_BLOCK (SOCKET_RX_RECEIVED_SIZE + 1) = address_lo (of_nat (length (unread k')))"
    by (simp_all add: chip_register_def shown_def SOCKET_RX_RECEIVED_SIZE_def SOCKET_STATUS_def SOCKET_TX_WRITE_POINTER_def
        SOCKET_RX_READ_POINTER_def SOCKET_COMMAND_def)
  have "unat (of_nat (length (unread k')) :: u16) \<le> length (unread k')" by (simp add: unat_of_nat)
  then have "unat (of_be16 (chip_register k' SOCKET0_BLOCK SOCKET_RX_RECEIVED_SIZE)
      (chip_register k' SOCKET0_BLOCK (SOCKET_RX_RECEIVED_SIZE + 1))) \<le> length (unread k')"
    unfolding r pointer_back .
  moreover have "chip_register k' b x = v" if "shown k' b x = Some v" for x v using that by (simp add: chip_register_def)
  ultimately show ?thesis using that by (auto simp: read_well_def)
qed

lemma script_chip: "w5500_tcp script_port fst"
  unfolding w5500_tcp_def
proof (intro conjI allI impI)
  fix s :: "tcp_state \<times> chip_event list" and b :: u8 and a :: u16 and n :: nat
  assume l: "fst s \<noteq> Listening \<and> b < 32 \<and> n \<le> 32"
  let ?h = "[address_hi a, address_lo a, spi_control b False]"
  show "\<exists>s' h vs. script_port s (?h @ replicate n 0) = (s', Inr (h @ vs)) \<and> length h = 3 \<and> length vs = n \<and>
      moved (read_well b a vs) (fst s) (fst s')"
  proof (cases s)
    case (Pair st es)
    show ?thesis
    proof (cases st)
      case (Connected k)
      define k1 where "k1 = (case es of [] \<Rightarrow> k | e # _ \<Rightarrow> happen e k)"
      let ?vs = "map (\<lambda>i. chip_register k1 b (a + of_nat i)) [0..<n]"
      have k1: "chip_step\<^sup>*\<^sup>* k k1" by (simp add: k1_def happen_steps split: list.split)
      have "drop 3 (?h @ replicate n 0) = replicate n 0" "take 3 (?h @ replicate n 0) = ?h" by simp_all
      then have "script_port s (?h @ replicate n 0) = ((Connected k1, tl es), Inr (?h @ ?vs))"
        using l by (simp add: Pair Connected Let_def pointer_back control_back k1_def del: drop_append take_append)
      moreover have "moved (read_well b a ?vs) (fst s) (Connected k1)"
        using script_reads [OF k1] by (simp add: moved_def Pair Connected)
      ultimately show ?thesis by (intro exI [of _ "(Connected k1, tl es)"] exI [of _ ?h] exI [of _ ?vs]) simp
    next
      case Lost
      then show ?thesis
        by (intro exI [of _ s] exI [of _ ?h] exI [of _ "replicate n 0"]) (simp add: Pair moved_def)
    qed (use l Pair in simp)
  qed
next
  fix s :: "tcp_state \<times> chip_event list" and b :: u8 and a :: u16 and vs :: bytes
  assume l: "fst s \<noteq> Listening \<and> b < 32 \<and> length vs \<le> 32 \<and> data_write b a vs"
  let ?f = "[address_hi a, address_lo a, spi_control b True] @ vs"
  show "\<exists>s' g. script_port s ?f = (s', Inr g) \<and> moved (written b a vs) (fst s) (fst s')"
  proof (cases s)
    case (Pair st es)
    show ?thesis
    proof (cases st)
      case (Connected k)
      define k1 where "k1 = (case es of [] \<Rightarrow> k | e # _ \<Rightarrow> happen e k)"
      have k1: "chip_step\<^sup>*\<^sup>* k k1" by (simp add: k1_def happen_steps split: list.split)
      have "script_port s ?f = ((case tcp_write b a vs k1 of None \<Rightarrow> Lost | Some k2 \<Rightarrow> Connected k2, tl es), Inr ?f)"
        using l by (simp add: Pair Connected Let_def pointer_back control_back k1_def)
      moreover have "moved (written b a vs) (fst s) (case tcp_write b a vs k1 of None \<Rightarrow> Lost | Some k2 \<Rightarrow> Connected k2)"
        using k1 by (auto simp: moved_def written_def Pair Connected split: option.split)
      ultimately show ?thesis by simp
    next
      case Lost
      then show ?thesis by (simp add: Pair moved_def)
    qed (use l Pair in simp)
  qed
qed

text \<open>A request that arrives in two pieces, the second after the first poll of the status; the commands are accepted
  late; the answer goes around the end of its ring; more bytes arrive meanwhile.\<close>

definition demo_tcp :: tcp_sock where
  "demo_tcp = \<lparr>tk_in = [1, 2, 3], tk_taken = 3, tk_rx_base = 0x1FFC, tk_rx_rd = 0x1FFC, tk_tx = (\<lambda>_. 7), tk_done = [9, 9],
     tk_tx_base = 0x27FA, tk_out = 4, tk_tx_wr = 0x27FE, tk_cmd = 0\<rparr>"

definition demo_script :: "chip_event list" where
  "demo_script =
     [Arrive [0, 1, 0, 0, 0, 6, 1, 3], Arrive [0, 0, 0, 1], Ack 2, Arrive [0, 2, 0], Arrive [], Arrive [], Arrive [], Accept,
      Ack 1, Arrive [], Arrive [], Arrive [], Arrive [], Arrive [], Accept, Ack 5]"

definition demo_stream :: bytes where
  "demo_stream = [1, 2, 3, 0, 1, 0, 0, 0, 6, 1, 3, 0, 0, 0, 1, 0, 2, 0]"

lemma demo_reads:
  "\<exists>s1 s2. read_socket0_u8 script_port SOCKET_STATUS (Connected demo_tcp, demo_script) = Some (s1, Inr SOCKET_STATUS_ESTABLISHED) \<and>
    read_socket0_u16 script_port SOCKET_RX_RECEIVED_SIZE s1 = Some (s2, Inr 12)"
proof -
  let ?r = "read_socket0_u8 script_port SOCKET_STATUS (Connected demo_tcp, demo_script)"
  have "map_option snd ?r = Some (Inr SOCKET_STATUS_ESTABLISHED)"
    "map_option snd (read_socket0_u16 script_port SOCKET_RX_RECEIVED_SIZE (fst (the ?r))) = Some (Inr 12)"
    by code_simp+
  then show ?thesis by force
qed

lemma demo_served:
  "(case poll_modbus_tcp script_port modbus_new 502 (Connected demo_tcp, demo_script) of
      Some (s', _) \<Rightarrow> (case fst s' of Connected k' \<Rightarrow> tk_in k' = demo_stream | _ \<Rightarrow> False) | None \<Rightarrow> False)"
  by code_simp

end
