(* ===== verification/BringUp.thy ===== *)
theory BringUp
  imports Bridge
begin

text \<open>
  The cyclic engine of \<^verbatim>\<open>src/src/ethercat/cyclic.rs\<close> on a healthy bus. The bus is a relation between the frame
  that lies in the transmit ring and the frame that lies in the receive ring one cycle later: every
  datagram comes back with a working counter, and a slave told to go to OP reports it after at most \<open>D\<close>
  status requests. The engine then reaches its operational phase within a bound and stays there.
\<close>

unbundle bit_operations_syntax

section \<open>A frame determines its datagrams\<close>

lemma len_word_inject:
  assumes "len_word m d = len_word n e" "length d < 2048" "length e < 2048"
  shows "m = n \<and> length d = length e"
  using unat_len_word [OF assms(2), of m] unat_len_word [OF assms(3), of n] more_bit_len_word [OF assms(2), of m]
    more_bit_len_word [OF assms(3), of n] assms(1) by simp

lemma dgrams_bytes_inject:
  assumes "dgrams_bytes ds @ xs = dgrams_bytes es @ ys" "ds \<noteq> []" "es \<noteq> []" "dgrams_len ds < 2048" "dgrams_len es < 2048"
  shows "ds = es \<and> xs = ys"
  using assms
proof (induction ds arbitrary: es)
  case (Cons d ds)
  obtain e es' where es: "es = e # es'" using Cons.prems(3) by (cases es) auto
  note eq = Cons.prems(1) [unfolded es dgrams_bytes.simps dgram_bytes_def append_assoc append_Cons append_Nil list.inject
      append_eq_append_conv]
  have small: "length (dg_data d) < 2048" "length (dg_data e) < 2048" using Cons.prems(4,5) es by simp_all
  have h: "dg_cmd d = dg_cmd e" "dg_index d = dg_index e" "dg_adp d = dg_adp e" "dg_ado d = dg_ado e"
      "len_word (ds \<noteq> []) (dg_data d) = len_word (es' \<noteq> []) (dg_data e)" "dg_irq d = dg_irq e"
      "dg_data d @ le16 (dg_wkc d) @ dgrams_bytes ds @ xs = dg_data e @ le16 (dg_wkc e) @ dgrams_bytes es' @ ys"
    using eq by simp_all
  have l: "(ds \<noteq> []) = (es' \<noteq> [])" "length (dg_data d) = length (dg_data e)"
    using len_word_inject [OF h(5) small] by simp_all
  have r: "dg_data d = dg_data e" "dg_wkc d = dg_wkc e" "dgrams_bytes ds @ xs = dgrams_bytes es' @ ys"
    using h(7) l(2) by simp_all
  have "d = e" using h r by simp
  show ?case
  proof (cases "ds = []")
    case True
    then show ?thesis using l(1) r(3) \<open>d = e\<close> es by simp
  next
    case False
    then have "ds = es' \<and> xs = ys" using Cons.IH [of es'] l(1) r(3) Cons.prems(4,5) es by simp
    then show ?thesis using \<open>d = e\<close> es by simp
  qed
qed simp

lemma frame_bytes_inject:
  assumes "frame_bytes ds @ xs = frame_bytes es @ ys" "frame_ok ds" "frame_ok es"
  shows "ds = es"
proof -
  have h: "dgrams_bytes ds @ (replicate (46 - (2 + dgrams_len ds)) 0 @ xs) = dgrams_bytes es @ (replicate (46 - (2 + dgrams_len es)) 0 @ ys)"
    using assms(1) by (simp add: frame_bytes_def Let_def frame_header_def)
  show ?thesis using dgrams_bytes_inject [OF h] assms(2,3) by (simp add: frame_ok_def)
qed


section \<open>The bus\<close>

text \<open>The frame handed to the DMA engine last: the descriptor before \<^verbatim>\<open>tx_pos\<close>.\<close>

definition last_sent :: "enet \<Rightarrow> bytes" where
  "last_sent e =
     (let p = (tx_pos e + ECAT_TX_LEN - 1) mod ECAT_TX_LEN
      in take (unat (ds_len (tx_desc e ! p))) (tx_bufs e ! p))"

text \<open>What a slave has been asked: for a station \<open>Some k\<close> when it was told to go to OP and has answered \<open>k\<close>
  status requests since; and the stations that have reported OP.\<close>

record bus_state =
  bs_asked :: "u16 \<Rightarrow> nat option"
  bs_up :: "u16 set"

definition quiet_bus :: bus_state where "quiet_bus = \<lparr>bs_asked = (\<lambda>_. None), bs_up = {}\<rparr>"

definition status_up :: "bytes \<Rightarrow> bool" where
  "status_up dat \<longleftrightarrow> get_or 0 dat 0 AND al_MASK = al_OP"

text \<open>One datagram: somebody answers it (the working counter is not 0) and nothing of its shape changes. A
  control write asks the station for OP. A status carries no error; a station that has reported OP, or was
  asked and has answered \<open>D\<close> requests, reports OP. All other data are arbitrary.\<close>

definition is_control :: "dgram \<Rightarrow> bool" where
  "is_control q \<longleftrightarrow> dg_cmd q = command_code Fpwr \<and> dg_ado q = reg_AL_CONTROL"

definition is_status :: "dgram \<Rightarrow> bool" where
  "is_status q \<longleftrightarrow> dg_cmd q = command_code Fprd \<and> dg_ado q = reg_AL_STATUS"

definition answered :: "nat \<Rightarrow> bus_state \<Rightarrow> dgram \<Rightarrow> dgram \<Rightarrow> bus_state \<Rightarrow> bool" where
  "answered D b q a b' \<longleftrightarrow>
     (\<exists>w dat. a = q\<lparr>dg_data := dat, dg_wkc := w\<rparr> \<and> w \<noteq> 0 \<and> length dat = length (dg_data q)) \<and>
     (if is_control q then
        b' = (if bs_asked b (dg_adp q) = None \<and> dg_data q = [al_OP, 0]
              then b\<lparr>bs_asked := (bs_asked b)(dg_adp q \<mapsto> 0)\<rparr> else b)
      else if is_status q then
        get_or 0 (dg_data a) 0 AND al_ERROR = 0 \<and>
        (dg_adp q \<in> bs_up b \<or> (\<exists>k. bs_asked b (dg_adp q) = Some k \<and> D \<le> k) \<longrightarrow> status_up (dg_data a)) \<and>
        b' = \<lparr>bs_asked = (bs_asked b)(dg_adp q := map_option Suc (bs_asked b (dg_adp q))),
              bs_up = (if status_up (dg_data a) then insert (dg_adp q) (bs_up b) else bs_up b)\<rparr>
      else b' = b)"

fun all_answered :: "nat \<Rightarrow> bus_state \<Rightarrow> dgram list \<Rightarrow> dgram list \<Rightarrow> bus_state \<Rightarrow> bool" where
  "all_answered D b [] as b' \<longleftrightarrow> as = [] \<and> b' = b"
| "all_answered D b (q # qs) as b' \<longleftrightarrow>
     (\<exists>a rest b1. as = a # rest \<and> answered D b q a b1 \<and> all_answered D b1 qs rest b')"

text \<open>One cycle of the bus: the frame sent last comes back answered, and its transmit descriptor is free again.\<close>

definition ready_device :: "device \<Rightarrow> bool" where
  "ready_device d \<longleftrightarrow> dev_wf d \<and> \<not> tx_owned_by_dma (dev_enet d)"

definition bus_cycle :: "nat \<Rightarrow> bus_state \<Rightarrow> device \<Rightarrow> device \<Rightarrow> bus_state \<Rightarrow> bool" where
  "bus_cycle D b d d' b' \<longleftrightarrow>
     ready_device d' \<and> \<not> rx_owned_by_dma (dev_enet d') \<and>
     (\<exists>hdr qs pad hdr' as pad'.
        last_sent (dev_enet d) = hdr @ frame_bytes qs @ pad \<and> length hdr = 14 \<and> frame_ok qs \<and>
        all_answered D b qs as b' \<and>
        received (dev_enet d') = hdr' @ frame_bytes as @ pad' \<and> length hdr' = 14 \<and> drop 12 hdr' = drop 12 hdr)"

text \<open>Runs: ticks under the host's frames, \<open>n\<close> of them so far.\<close>

inductive healthy_run :: "nat \<Rightarrow> cyclic_slave list \<Rightarrow> nat \<Rightarrow> cyclic \<Rightarrow> device \<Rightarrow> host_bridge \<Rightarrow> bus_state \<Rightarrow> bool"
  for D slaves where
  start: "ready_device d \<Longrightarrow> healthy_run D slaves 0 (cyclic_new slaves pos ns) d (host_new LAYOUT) quiet_bus"
| frame: "healthy_run D slaves n c d h b \<Longrightarrow> host_ingest LAYOUT h f = Some h' \<Longrightarrow> healthy_run D slaves n c d h' b"
| first: "healthy_run D slaves 0 c d h b \<Longrightarrow> tick_with_host LAYOUT lat c d ix h = Some (c', d', ix', h') \<Longrightarrow>
    healthy_run D slaves 1 c' d' h' b"
| tick: "healthy_run D slaves (Suc n) c d h b \<Longrightarrow> bus_cycle D b d d1 b' \<Longrightarrow>
    tick_with_host LAYOUT lat c d1 ix h = Some (c', d', ix', h') \<Longrightarrow> healthy_run D slaves (Suc (Suc n)) c' d' h' b'"

section \<open>The device in a cycle\<close>

lemma last_sent_submit:
  assumes "enet_wf e" "length im \<le> ECAT_MTU"
  shows "last_sent (tx_submit e im) = im"
proof -
  have p: "tx_pos e < ECAT_TX_LEN" and l: "length (tx_desc e) = ECAT_TX_LEN" "length (tx_bufs e) = ECAT_TX_LEN"
    using assms(1) by (simp_all add: enet_wf_def)
  have q: "(next_pos (tx_pos e) ECAT_TX_LEN + ECAT_TX_LEN - 1) mod ECAT_TX_LEN = tx_pos e"
    using p by (auto simp: next_pos_def)
  have "unat (of_nat (length im) :: u16) = length im" using assms(2) by (simp add: unat_of_nat_16)
  then show ?thesis
    using p l q by (simp add: last_sent_def tx_submit_def Let_def del: ECAT_TX_LEN_def)
qed

lemma sent_image_frame:
  assumes "length (eth_header mac) = 14"
  shows "\<exists>pad. sent_image (eth_header mac) f = eth_header mac @ f @ pad"
  by (simp add: sent_image_def Let_def)

lemma poll_frame:
  assumes wf: "dev_wf d" and rx: "\<not> rx_owned_by_dma (dev_enet d)" and out: "length out = 576"
    and f: "received (dev_enet d) = hdr @ f @ pad" "length hdr = 14" "drop 12 hdr = [0x88, 0xA4]" "0 < length f" "length f \<le> 576"
  obtains n rest where "dev_poll d out = Some (d\<lparr>dev_enet := rx_release (dev_enet d)\<rparr>, f @ rest, Some n)"
    "length (f @ rest) = 576" "length f \<le> n" "n \<le> 576"
proof -
  let ?r = "received (dev_enet d)"
  let ?n = "min (length ?r - 14) (length out)"
  have ty: "?r ! 12 = 0x88" "?r ! 13 = 0xA4" "14 \<le> length ?r"
  proof -
    have "hdr ! 12 = drop 12 hdr ! 0" "hdr ! 13 = drop 12 hdr ! 1" using f(2) by simp_all
    then show "?r ! 12 = 0x88" "?r ! 13 = 0xA4" "14 \<le> length ?r" using f by (simp_all add: nth_append)
  qed
  have c: "poll_closure out ?r = Some (take ?n (drop 14 ?r) @ drop ?n out, ?n)"
    using ty by (simp add: poll_closure_def idx_def slice_def copy_at_def Let_def)
  have n: "length f \<le> ?n" "?n \<le> 576" using f(1,2,5) out by simp_all
  have pos: "0 < ?n" using n(1) f(4) by linarith
  have "drop 14 ?r = f @ pad" using f(1,2) by simp
  then have t: "take ?n (drop 14 ?r) = f @ take (?n - length f) pad" using n by (simp add: take_append)
  have e: "enet_wf (dev_enet d)" using wf by (simp add: dev_wf_def)
  have "dev_poll d out = Some (d\<lparr>dev_enet := rx_release (dev_enet d)\<rparr>, f @ (take (?n - length f) pad @ drop ?n out), Some ?n)"
    using e rx c t pos by (simp add: dev_poll_def poll_raw_frame del: take_append min_less_iff_conj)
  moreover have "length (f @ (take (?n - length f) pad @ drop ?n out)) = 576"
    using arg_cong [OF t, of length] n out f(1,2) by simp
  ultimately show thesis using n by (rule that)
qed


section \<open>A tick on a healthy bus\<close>

text \<open>What a tick leaves alone besides the inputs, the phase and the list of slaves.\<close>

definition same_cursor :: "cyclic \<Rightarrow> cyclic \<Rightarrow> bool" where
  "same_cursor c c' \<longleftrightarrow>
     cy_op_cursor c' = cy_op_cursor c \<and> cy_op_ctrl_phase c' = cy_op_ctrl_phase c \<and>
     cy_mon_cursor c' = cy_mon_cursor c \<and> cy_mon_toggle c' = cy_mon_toggle c \<and>
     cy_ref_ring_pos c' = cy_ref_ring_pos c"

lemma effects_cursor: "same_cursor c (process_effects w as c)"
proof -
  have a: "same_cursor c (apply_action c x)" for c x
    by (simp add: same_cursor_def apply_action_def Let_def split: applied_reply.split)
  have "same_cursor c (foldl apply_action c as)" for c
    by (induction as arbitrary: c) (use a in \<open>simp_all add: same_cursor_def\<close>)
  then show ?thesis by (simp add: process_effects_def Let_def same_cursor_def)
qed

lemma frame_index: "qs \<noteq> [] \<Longrightarrow> (frame_bytes qs @ rest) ! 3 = dg_index (hd qs)"
  by (cases qs) (simp_all add: frame_bytes_def Let_def frame_header_def le16_def dgram_bytes_def)

lemma collect_answer:
  assumes wf: "cyclic_wf c" and out: "cy_outstanding c" and dev: "dev_wf d" and rx: "\<not> rx_owned_by_dma (dev_enet d)"
    and f: "received (dev_enet d) = hdr @ frame_bytes (lrw # as) @ pad" "length hdr = 14" "drop 12 hdr = [0x88, 0xA4]"
    and ix: "dg_index lrw = cy_expected_index c" and len: "length as = length (cy_appended c)" "length as \<le> 3"
      "length (frame_bytes (lrw # as)) \<le> 576"
  obtains a where "cyclic_collect lat c d =
      Some ((process_effects (dg_wkc lrw) (map2 (\<lambda>k e. the (decode_appended k (reply_of e))) (cy_appended c) as) a)\<lparr>cy_outstanding := False\<rparr>,
        d\<lparr>dev_enet := rx_release (dev_enet d)\<rparr>)"
    "same_cursor c a" "cy_phase a = cy_phase c" "cy_slaves a = cy_slaves c" "cy_good_cycles a = cy_good_cycles c"
    "\<exists>st. apply_reply (cy_domain c) (reply_of lrw) = Some (cy_domain a, st)"
proof -
  let ?c = "begin_tick lat c" and ?d = "d\<lparr>dev_enet := rx_release (dev_enet d)\<rparr>" and ?f = "frame_bytes (lrw # as)"
  have l: "length (cy_rx ?c) = 576" using wf by (simp add: cyclic_wf_def)
  have pos: "0 < length ?f" by simp
  obtain n rest where p: "dev_poll d (cy_rx ?c) = Some (?d, ?f @ rest, Some n)" "length (?f @ rest) = 576" "length ?f \<le> n" "n \<le> 576"
    by (rule poll_frame [OF dev rx l f(1,2,3) pos len(3)])
  let ?a = "?c\<lparr>cy_rx := ?f @ rest\<rparr>"
  have wfa: "cyclic_wf ?a" using wf p(2) by (simp add: cyclic_wf_def)
  obtain dom st where dom: "apply_reply (cy_domain ?a) (reply_of lrw) = Some (dom, st)"
      and e: "cyclic_process ?a n =
      Some (process_effects (dg_wkc lrw) (map2 (\<lambda>k e. the (decode_appended k (reply_of e))) (cy_appended ?a) as) (?a\<lparr>cy_domain := dom\<rparr>))"
    using cyclic_process_frame [OF wfa _ p(3,4)] len(1,2) by auto
  have i: "idx (?f @ rest) 3 = Some (cy_expected_index ?a)"
    using frame_index [of "lrw # as" rest] p(2) ix by (simp add: idx_def del: length_append)
  have n4: "4 \<le> n" using p(3) by simp
  obtain k where k: "ECAT_RX_LEN = Suc k" by simp
  have "cyclic_receive ?c d = Some (process_effects (dg_wkc lrw)
      (map2 (\<lambda>k e. the (decode_appended k (reply_of e))) (cy_appended ?a) as) (?a\<lparr>cy_domain := dom\<rparr>), ?d)"
    using p(1) e i n4 by (simp add: cyclic_receive_def k Let_def del: ECAT_RX_LEN_def)
  then have "cyclic_collect lat c d = Some ((process_effects (dg_wkc lrw)
      (map2 (\<lambda>k e. the (decode_appended k (reply_of e))) (cy_appended c) as) (?a\<lparr>cy_domain := dom\<rparr>))\<lparr>cy_outstanding := False\<rparr>, ?d)"
    using out by (simp add: cyclic_collect_def)
  moreover have "same_cursor c (?a\<lparr>cy_domain := dom\<rparr>)" "cy_good_cycles ?a = cy_good_cycles c"
    by (simp_all add: same_cursor_def begin_tick_def record_latency_def Let_def)
  ultimately show thesis using that [of "?a\<lparr>cy_domain := dom\<rparr>"] dom by simp
qed

lemma host_outputs_cursor:
  assumes "host_outputs lay c h t = Some (c', h', u)"
  shows "same_cursor c c' \<and> cy_good_cycles c' = cy_good_cycles c"
proof -
  obtain h1 dom where o: "apply_drive_control (c\<lparr>cy_domain := dom\<rparr>) h1 t (motion_underrun h1) = Some c'"
    using assms unfolding host_outputs_def Let_def by (auto split: bind_splits prod.splits)
  then show ?thesis
    unfolding apply_drive_control_def Let_def by (auto simp: same_cursor_def split: if_splits bind_splits prod.splits)
qed

lemma op_seek_finds:
  assumes "op_seek ss cur ctrl = (cur', ctrl')"
  shows "cur \<le> cur'" "\<And>i. cur \<le> i \<Longrightarrow> i < cur' \<Longrightarrow> i < length ss \<and> rt_reached_op (ss ! i)"
    "cur' < length ss \<Longrightarrow> \<not> rt_reached_op (ss ! cur')" "ctrl' = (if cur' = cur then ctrl else True)"
proof -
  have "cur \<le> cur' \<and> (\<forall>i. cur \<le> i \<and> i < cur' \<longrightarrow> i < length ss \<and> rt_reached_op (ss ! i)) \<and>
      (cur' < length ss \<longrightarrow> \<not> rt_reached_op (ss ! cur')) \<and> ctrl' = (if cur' = cur then ctrl else True)"
    using assms
  proof (induction ss cur ctrl rule: op_seek.induct)
    case (1 ss cur ctrl)
    show ?case
    proof (cases "cur < length ss \<and> rt_reached_op (ss ! cur)")
      case True
      then have "op_seek ss (cur + 1) True = (cur', ctrl')" using 1(2) by (simp add: op_seek.simps [of ss cur])
      then have ih: "cur + 1 \<le> cur'" "\<forall>i. cur + 1 \<le> i \<and> i < cur' \<longrightarrow> i < length ss \<and> rt_reached_op (ss ! i)"
          "cur' < length ss \<longrightarrow> \<not> rt_reached_op (ss ! cur')" "ctrl'"
        using 1(1) [OF True] by auto
      have "i < length ss \<and> rt_reached_op (ss ! i)" if "cur \<le> i" "i < cur'" for i
        using ih(2) True that by (cases "i = cur") auto
      then show ?thesis using ih(1,3,4) by auto
    next
      case False
      then show ?thesis using 1(2) by (subst (asm) op_seek.simps) auto
    qed
  qed
  then show "cur \<le> cur'" "\<And>i. cur \<le> i \<Longrightarrow> i < cur' \<Longrightarrow> i < length ss \<and> rt_reached_op (ss ! i)"
    "cur' < length ss \<Longrightarrow> \<not> rt_reached_op (ss ! cur')" "ctrl' = (if cur' = cur then ctrl else True)"
    by simp_all
qed

lemma append_fields:
  "cyclic_append c i cmd adp ado pl k = Some c' \<Longrightarrow>
     cy_op_cursor c' = cy_op_cursor c \<and> cy_op_ctrl_phase c' = cy_op_ctrl_phase c \<and> cy_good_cycles c' = cy_good_cycles c"
  by (auto simp: cyclic_append_def split: bind_splits)

lemma monitor_fields:
  "append_monitor c ix = Some (c', ix') \<Longrightarrow>
     cy_op_cursor c' = cy_op_cursor c \<and> cy_op_ctrl_phase c' = cy_op_ctrl_phase c \<and> cy_good_cycles c' = cy_good_cycles c"
  by (auto simp: append_monitor_def alloc_index_def Let_def split: list.splits bind_splits if_splits dest!: append_fields)

lemma op_request_fields:
  assumes "append_op_request c ix = Some (c', ix')" "op_seek (cy_slaves c) (cy_op_cursor c) (cy_op_ctrl_phase c) = (cur, ctrl)"
  shows "cy_good_cycles c' = cy_good_cycles c \<and> (cur < length (cy_slaves c) \<longrightarrow> cy_op_cursor c' = cur \<and> cy_op_ctrl_phase c' = (\<not> ctrl))"
  using assms by (auto simp: append_op_request_def alloc_index_def Let_def split: bind_splits if_splits dest!: append_fields)

lemma send_cursor:
  assumes "cyclic_send c d ix = Some (c', d', ix')" "op_seek (cy_slaves c) (cy_op_cursor c) (cy_op_ctrl_phase c) = (cur, ctrl)"
  shows "cy_good_cycles c' = cy_good_cycles c"
    "cy_phase c \<noteq> RequestingOp \<Longrightarrow> cy_op_cursor c' = cy_op_cursor c \<and> cy_op_ctrl_phase c' = cy_op_ctrl_phase c"
    "cy_phase c = RequestingOp \<Longrightarrow> cur < length (cy_slaves c) \<Longrightarrow> cy_op_cursor c' = cur \<and> cy_op_ctrl_phase c' = (\<not> ctrl)"
proof -
  obtain c2 jx r where b: "cyclic_build c ix = Some (c2, jx)" and c': "c' = c2\<lparr>cy_outstanding := r\<rparr>"
    using assms(1) unfolding cyclic_send_def by (auto split: bind_splits prod.splits)
  have "cy_good_cycles c2 = cy_good_cycles c \<and>
      (cy_phase c \<noteq> RequestingOp \<longrightarrow> cy_op_cursor c2 = cy_op_cursor c \<and> cy_op_ctrl_phase c2 = cy_op_ctrl_phase c) \<and>
      (cy_phase c = RequestingOp \<longrightarrow> cur < length (cy_slaves c) \<longrightarrow> cy_op_cursor c2 = cur \<and> cy_op_ctrl_phase c2 = (\<not> ctrl))"
  proof (cases "cy_phase c = RequestingOp")
    case True
    then obtain tx n where "append_op_request (c\<lparr>cy_tx := tx, cy_tx_len := n, cy_expected_index := ix, cy_appended := []\<rparr>) (ix + 1) =
        Some (c2, jx)"
      using b by (auto simp: cyclic_build_def alloc_index_def Let_def split: bind_splits)
    from op_request_fields [OF this] show ?thesis using assms(2) True by simp
  next
    case False
    then show ?thesis
      using b by (auto simp: cyclic_build_def alloc_index_def Let_def split: bind_splits if_splits dest!: monitor_fields)
  qed
  then show "cy_good_cycles c' = cy_good_cycles c"
    "cy_phase c \<noteq> RequestingOp \<Longrightarrow> cy_op_cursor c' = cy_op_cursor c \<and> cy_op_ctrl_phase c' = cy_op_ctrl_phase c"
    "cy_phase c = RequestingOp \<Longrightarrow> cur < length (cy_slaves c) \<Longrightarrow> cy_op_cursor c' = cur \<and> cy_op_ctrl_phase c' = (\<not> ctrl)"
    using c' by simp_all
qed


lemma cycle_tail_same:
  assumes "same_cursor c c'" "cy_phase c' = cy_phase c" "cy_slaves c' = cy_slaves c"
  shows "cycle_tail c' ix = cycle_tail c ix"
proof -
  have "op_tail c' ix = op_tail c ix" "follower_station c' = follower_station c"
    using assms by (simp_all add: op_tail_def follower_station_def same_cursor_def split: prod.split option.split list.split)
  moreover from this have "monitor_tail c' ix = monitor_tail c ix"
    using assms by (simp add: monitor_tail_def same_cursor_def split: list.split)
  ultimately show ?thesis using assms(2) by (cases "cy_phase c") (simp_all add: cycle_tail_def)
qed

lemma tail_length: "length (cycle_tail c ix) \<le> 2"
  by (auto simp: cycle_tail_def op_tail_def monitor_tail_def Let_def split: cyclic_phase.split list.split prod.split)

text \<open>A tick, taken apart: collect, fill the outputs, send.\<close>

lemma tick_parts:
  assumes inv: "bridge_inv c h" and dev: "dev_wf d" and tick: "tick_with_host LAYOUT lat c d ix h = Some (c', d', ix', h')"
  obtains c1 d1 c2 h2 u r where
    "cyclic_collect lat c d = Some (c1, d1)" "dev_wf d1" "collected c c1"
    "host_outputs LAYOUT c1 (fst (tick_watchdog h)) (host_late h) = Some (c2, h2, u)" "same_inputs c1 c2" "same_engine c2 c'"
    "dev_send d1 (frame_bytes (cycle_frame c2 ix)) = Some (d', r)" "cy_outstanding c' = (r = Inr ())"
    "built c' (cycle_frame c2 ix) (map snd (cycle_tail c2 (ix + 1)))" "cy_expected_index c' = ix"
    "\<forall>j. cycle_tail c2 j = cycle_tail c1 j" "cyclic_wf c'" "host_wf LAYOUT h2"
    "\<exists>st. cyclic_reply_status c' (host_late h) u = Some st \<and> build_host_reply h2 (live_image c') st = Some h'"
proof -
  have wf: "cyclic_wf c" and hw: "host_wf LAYOUT h" and len: "110 \<le> dom_len (cy_domain c)"
    using inv by (simp_all add: bridge_inv_def cyclic_inv_def)
  obtain c1 d1 c2 h2 u c3 d3 ix3 r h4 where t: "cyclic_collect lat c d = Some (c1, d1)" "collected c c1"
    "host_outputs LAYOUT c1 (fst (tick_watchdog h)) (host_late h) = Some (c2, h2, u)" "same_inputs c1 c2"
    "hb_out_valid h2 = hb_out_valid h" "hb_flags h2 = hb_flags h" "host_wf LAYOUT h2"
    "cyclic_send c2 d1 ix = Some (c3, d3, ix3)" "same_engine c2 c3" "cy_expected_index c3 = ix"
    "built c3 (cycle_frame c2 ix) (map snd (cycle_tail c2 (ix + 1)))"
    "dev_send d1 (frame_bytes (cycle_frame c2 ix)) = Some (d3, r)" "cy_outstanding c3 = (r = Inr ())" "dev_wf d3"
    "tick_with_host LAYOUT lat c d ix h = Some (c3, d3, ix3, h4)" "host_wf LAYOUT h4"
    by (rule tick_with_host_parts [OF wf dev hw len, of lat ix])
  have eq: "c' = c3" "d' = d3" using t(15) tick by simp_all
  have d1: "dev_wf d1" using cyclic_collect_total [OF wf dev, of lat] t(1) by auto
  have tl: "cycle_tail c2 j = cycle_tail c1 j" for j
    by (rule cycle_tail_same [OF conjunct1 [OF host_outputs_cursor [OF t(3)]]]) (use t(4) in \<open>simp_all add: same_inputs_def\<close>)
  have wf2: "cyclic_wf c2" using t(4) by (simp add: same_inputs_def)
  have wf3: "cyclic_wf c'" unfolding eq by (rule same_engine_wf [OF t(9) wf2])
  have img: "domain_image (cy_domain c3) = Some (live_image c3)"
    using domain_image_eq [of "cy_domain c3"] wf3 eq by (simp add: live_image_def cyclic_wf_def)
  have reply: "\<exists>st. cyclic_reply_status c3 (host_late h) u = Some st \<and> build_host_reply h2 (live_image c3) st = Some h'"
    using tick t(1,3,8) img by (auto simp: tick_with_host_def split_beta Let_def host_late_def split: bind_splits)
  show thesis
    by (rule that [OF t(1) d1 t(2,3,4) t(9) [folded eq] t(12) [folded eq] t(13) [folded eq] t(11) [folded eq] t(10) [folded eq] _ wf3
          t(7) reply [folded eq]]) (use tl in blast)
qed

lemma tick_phase:
  assumes "bridge_inv c h" "dev_wf d" "tick_with_host LAYOUT lat c d ix h = Some (c', d', ix', h')"
    and col: "cyclic_collect lat c d = Some (c1, d1)"
  shows "cy_phase c' = cy_phase c1"
proof -
  obtain e1 f1 c2 where "cyclic_collect lat c d = Some (e1, f1)" "same_inputs e1 c2" "same_engine c2 c'"
    by (rule tick_parts [OF assms(1-3)])
  then show ?thesis using col by (simp add: same_inputs_def same_engine_def)
qed

lemma tick_slaves:
  assumes "bridge_inv c h" "dev_wf d" "tick_with_host LAYOUT lat c d ix h = Some (c', d', ix', h')"
  shows "length (cy_slaves c') = length (cy_slaves c)"
proof -
  obtain c1 c2 where "collected c c1" "same_inputs c1 c2" "same_engine c2 c'" by (rule tick_parts [OF assms])
  then show ?thesis by (simp add: collected_def same_inputs_def same_engine_def)
qed

text \<open>The counter a tick leaves is the one it collected: filling the outputs and sending do not change it.\<close>

lemma host_outputs_wkc:
  assumes "host_outputs lay c h t = Some (c', h', u)"
  shows "last_wkc (cy_domain c') = last_wkc (cy_domain c) \<and> expected_wkc (cy_domain c') = expected_wkc (cy_domain c) \<and>
    input_ranges (cy_domain c') = input_ranges (cy_domain c)"
proof -
  have m: "last_wkc e' = last_wkc e \<and> expected_wkc e' = expected_wkc e \<and> input_ranges e' = input_ranges e" if "domain_image_mut e f = Some e'" for e f e'
    using that by (auto simp: domain_image_mut_def split: bind_splits)
  obtain h1 dom f where o: "domain_image_mut (cy_domain c) f = Some dom"
      "apply_drive_control (c\<lparr>cy_domain := dom\<rparr>) h1 t (motion_underrun h1) = Some c'"
    using assms unfolding host_outputs_def Let_def by (auto split: bind_splits prod.splits)
  have "last_wkc (cy_domain c') = last_wkc dom \<and> expected_wkc (cy_domain c') = expected_wkc dom \<and>
      input_ranges (cy_domain c') = input_ranges dom"
    using o(2) unfolding apply_drive_control_def Let_def by (auto split: if_splits bind_splits prod.splits dest!: m)
  then show ?thesis using m [OF o(1)] by simp
qed

lemma host_outputs_seq:
  "host_outputs lay c h t = Some (c', h', u) \<Longrightarrow> hb_host_seq h' = hb_host_seq h \<and> hb_teensy_wdog h' = hb_teensy_wdog h"
  by (auto simp: host_outputs_def host_apply_outputs_def Let_def split: bind_splits prod.splits if_splits option.splits)

lemma tick_wkc:
  assumes "bridge_inv c h" "dev_wf d" "tick_with_host LAYOUT lat c d ix h = Some (c', d', ix', h')"
    and col: "cyclic_collect lat c d = Some (c1, d1)"
  shows "last_wkc (cy_domain c') = last_wkc (cy_domain c1)" "expected_wkc (cy_domain c') = expected_wkc (cy_domain c1)"
proof -
  obtain e1 f1 c2 h2 u r where t: "cyclic_collect lat c d = Some (e1, f1)" "dev_wf f1" "collected c e1"
    "host_outputs LAYOUT e1 (fst (tick_watchdog h)) (host_late h) = Some (c2, h2, u)" "same_inputs e1 c2" "same_engine c2 c'"
    by (rule tick_parts [OF assms(1-3)])
  have "e1 = c1" using t(1) col by simp
  then show "last_wkc (cy_domain c') = last_wkc (cy_domain c1)" "expected_wkc (cy_domain c') = expected_wkc (cy_domain c1)"
    using host_outputs_wkc [OF t(4)] t(6) by (simp_all add: same_engine_def)
qed

text \<open>In every run the windows are those of the bus, and at most two datagrams are outstanding beside the LRW.\<close>

lemma run_shape:
  "bridge_run c h \<Longrightarrow> input_ranges (cy_domain c) = [(32, 39), (71, 39)] \<and> expected_wkc (cy_domain c) = 6 \<and>
     length (cy_appended c) \<le> 2"
proof (induction rule: bridge_run.induct)
  case (tick c h d lat ix c' d' ix' h')
  obtain c1 d1 c2 h2 u r where t: "cyclic_collect lat c d = Some (c1, d1)" "dev_wf d1" "collected c c1"
    "host_outputs LAYOUT c1 (fst (tick_watchdog h)) (host_late h) = Some (c2, h2, u)" "same_inputs c1 c2" "same_engine c2 c'"
    "dev_send d1 (frame_bytes (cycle_frame c2 ix)) = Some (d', r)" "cy_outstanding c' = (r = Inr ())"
    "built c' (cycle_frame c2 ix) (map snd (cycle_tail c2 (ix + 1)))"
    by (rule tick_parts [OF bridge_run_inv [OF tick.hyps(1)] tick.hyps(2,3)])
  have "input_ranges (cy_domain c1) = input_ranges (cy_domain c) \<and> expected_wkc (cy_domain c1) = expected_wkc (cy_domain c)"
  proof (cases "cy_domain c1 = cy_domain c")
    case False
    then obtain a len e where a: "cy_domain a = cy_domain c" "cyclic_wf a" "len \<le> 576" "cyclic_process a len = Some e"
        "c1 = e\<lparr>cy_outstanding := False\<rparr>"
      using t(3) by (auto simp: collected_def)
    have wf: "domain_wf (cy_domain a)" using a(2) by (simp add: cyclic_wf_def)
    show ?thesis
    proof (rule cyclic_process_cases [OF a(2,3)])
      fix lrw nxt dom st acts
      assume p: "apply_reply (cy_domain a) lrw = Some (dom, st)"
        "cyclic_process a len = Some (process_effects (rp_wkc lrw) acts (a\<lparr>cy_domain := dom\<rparr>))"
      have "input_ranges dom = input_ranges (cy_domain a) \<and> expected_wkc dom = expected_wkc (cy_domain a)"
        by (rule apply_reply_effect [OF wf, of lrw]) (use p(1) in simp)
      then show ?thesis using p(2) a by simp
    qed (use a in simp)
  qed simp
  then show ?case
    using tick.IH t(6,9) host_outputs_wkc [OF t(4)] tail_length [of c2 "ix + 1"] by (simp add: same_engine_def built_def)
qed (simp_all add: cyclic_new_def domain_BUS)

text \<open>An answered exchange: the inputs of the bus lie in the image, and in the reply staged for the host.\<close>

lemma tick_delivers:
  assumes run: "bridge_run c h" and dev: "dev_wf d" and tick: "tick_with_host LAYOUT lat c d ix h = Some (c', d', ix', h')"
    and out: "cy_outstanding c" and rx: "\<not> rx_owned_by_dma (dev_enet d)"
    and f: "received (dev_enet d) = hdr @ frame_bytes (lrw # as) @ pad" "length hdr = 14" "drop 12 hdr = [0x88, 0xA4]"
    and ix: "dg_index lrw = cy_expected_index c" and len: "length as = length (cy_appended c)"
      "length (frame_bytes (lrw # as)) \<le> 576" "110 \<le> length (dg_data lrw)"
  obtains hb st u where "drop 32 (live_image c') = take 78 (drop 32 (dg_data lrw))" "last_wkc (cy_domain c') = dg_wkc lrw"
    "cyclic_reply_status c' (host_late h) u = Some st" "hb_host_seq hb = hb_host_seq h" "hb_teensy_wdog hb = hb_teensy_wdog h"
    "host_reply h' = Some (reply_header hb st @ take 78 (drop 32 (dg_data lrw)) @
       le16 (crc16 (reply_header hb st @ take 78 (drop 32 (dg_data lrw)))))"
proof -
  have inv: "bridge_inv c h" by (rule bridge_run_inv [OF run])
  then have wf: "cyclic_wf c" and dl: "dom_len (cy_domain c) = 110" by (simp_all add: bridge_inv_def cyclic_inv_def)
  note sh = run_shape [OF run]
  have "length as \<le> 3" using len(1) sh by simp
  then obtain a where a: "cyclic_collect lat c d =
      Some ((process_effects (dg_wkc lrw) (map2 (\<lambda>k e. the (decode_appended k (reply_of e))) (cy_appended c) as) a)\<lparr>cy_outstanding := False\<rparr>,
        d\<lparr>dev_enet := rx_release (dev_enet d)\<rparr>)" "\<exists>st. apply_reply (cy_domain c) (reply_of lrw) = Some (cy_domain a, st)"
    by (rule collect_answer [OF wf out dev rx f ix len(1) _ len(2), of lat])
  let ?I = "take 78 (drop 32 (dg_data lrw))"
  obtain c1 d1 c2 h2 u r where t: "cyclic_collect lat c d = Some (c1, d1)" "dev_wf d1" "collected c c1"
    "host_outputs LAYOUT c1 (fst (tick_watchdog h)) (host_late h) = Some (c2, h2, u)" "same_inputs c1 c2" "same_engine c2 c'"
    "dev_send d1 (frame_bytes (cycle_frame c2 ix)) = Some (d', r)" "cy_outstanding c' = (r = Inr ())"
    "built c' (cycle_frame c2 ix) (map snd (cycle_tail c2 (ix + 1)))" "cy_expected_index c' = ix"
    "\<forall>j. cycle_tail c2 j = cycle_tail c1 j" "cyclic_wf c'" "host_wf LAYOUT h2"
    "\<exists>st. cyclic_reply_status c' (host_late h) u = Some st \<and> build_host_reply h2 (live_image c') st = Some h'"
    by (rule tick_parts [OF inv dev tick])
  have dom1: "cy_domain c1 = cy_domain a" using t(1) a(1) by auto
  have "domain_wf (cy_domain c)" using wf by (simp add: cyclic_wf_def)
  then obtain dom st0 where e: "apply_reply (cy_domain c) (reply_of lrw) = Some (dom, st0)" "domain_wf dom" "dom_len dom = dom_len (cy_domain c)"
      "last_wkc dom = rp_wkc (reply_of lrw)"
      "\<And>i. i < 512 \<Longrightarrow> dom_image dom ! i =
         (if delivered (dom_len (cy_domain c)) (length (rp_data (reply_of lrw))) (input_ranges (cy_domain c)) i
          then rp_data (reply_of lrw) ! i else dom_image (cy_domain c) ! i)"
    by (rule apply_reply_effect [of "cy_domain c" "reply_of lrw"]) blast
  have dom: "dom = cy_domain c1" using e(1) a(2) dom1 by auto
  have img: "length (live_image c1) = 110" using e(2,3) dl unfolding dom by (simp add: live_image_def domain_wf_def)
  have "drop 32 (live_image c1) = ?I"
  proof (rule nth_equalityI)
    fix i assume "i < length (drop 32 (live_image c1))"
    then have i: "32 + i < 110" using img by simp
    then have "live_image c1 ! (32 + i) = dom_image dom ! (32 + i)" unfolding dom using img by (simp add: live_image_def)
    also have "\<dots> = dg_data lrw ! (32 + i)"
      using e(5) [of "32 + i"] i delivered_BUS [OF len(3), of "32 + i"] sh dl by (simp add: reply_of_def)
    finally show "drop 32 (live_image c1) ! i = ?I ! i" using i len(3) img by simp
  qed (use img len(3) in simp)
  moreover have "live_image c' = tick_image c1 h" using bridge_tick [OF inv dev, of lat ix] tick t(1) by auto
  ultimately have inputs: "drop 32 (live_image c') = ?I" using tick_inputs [OF inv t(3)] by simp
  have wkc: "last_wkc (cy_domain c') = dg_wkc lrw" using tick_wkc(1) [OF inv dev tick t(1)] e(4) by (simp add: dom reply_of_def)
  obtain st where st: "cyclic_reply_status c' (host_late h) u = Some st" "build_host_reply h2 (live_image c') st = Some h'"
    using t(14) by blast
  have "length (live_image c') - 32 = 78" using arg_cong [OF inputs, of length] len(3) by simp
  then have "110 \<le> length (live_image c')" by linarith
  from build_host_reply_frame [OF t(13) this, of st] inputs st(2)
  have "host_reply h' = Some (reply_header h2 st @ ?I @ le16 (crc16 (reply_header h2 st @ ?I)))" by auto
  moreover have "hb_host_seq h2 = hb_host_seq h" "hb_teensy_wdog h2 = hb_teensy_wdog h"
    using host_outputs_seq [OF t(4)] by (simp_all add: tick_watchdog_def)
  ultimately show thesis by (intro that [OF inputs wkc st(1)])
qed

text \<open>Collecting touches the receive side only, so a tick sends exactly one frame, or none when the ring is full.\<close>

definition tx_side :: "enet \<Rightarrow> nat \<times> descriptor list \<times> bytes list \<times> nat" where
  "tx_side e = (tx_pos e, tx_desc e, tx_bufs e, tdar_writes e)"

lemma dev_poll_tx:
  "dev_poll d out = Some (d', out', r) \<Longrightarrow> tx_side (dev_enet d') = tx_side (dev_enet d) \<and> src_mac d' = src_mac d"
  by (auto simp: dev_poll_def poll_raw_def tx_side_def Let_def split: bind_splits if_splits option.splits prod.splits)

lemma receive_loop_tx:
  "receive_loop n c d = Some (c', d') \<Longrightarrow> tx_side (dev_enet d') = tx_side (dev_enet d) \<and> src_mac d' = src_mac d"
proof (induction n c d rule: receive_loop.induct)
  case (2 n c d)
  obtain d1 rx r where p: "dev_poll d (cy_rx c) = Some (d1, rx, r)"
    using 2(2) by (auto split: bind_splits prod.splits)
  note k = dev_poll_tx [OF p]
  show ?case
  proof (cases r)
    case None
    then show ?thesis using 2(2) p k by simp
  next
    case (Some len)
    obtain hit where h: "(if len \<ge> 4 then do { x \<leftarrow> idx rx 3; Some (x = cy_expected_index (c\<lparr>cy_rx := rx\<rparr>)) } else Some False) = Some hit"
        "(if hit then do { c \<leftarrow> cyclic_process (c\<lparr>cy_rx := rx\<rparr>) len; Some (c, d1) } else receive_loop n (c\<lparr>cy_rx := rx\<rparr>) d1) = Some (c', d')"
      using 2(2) p Some by (auto simp: Let_def split: bind_splits if_splits)
    show ?thesis
    proof (cases hit)
      case True
      then show ?thesis using h(2) k by (auto split: bind_splits)
    next
      case False
      then have "receive_loop n (c\<lparr>cy_rx := rx\<rparr>) d1 = Some (c', d')" using h(2) by simp
      from 2(1) [OF p refl refl refl Some h(1) False this] k show ?thesis by simp
    qed
  qed
qed simp

lemma collect_tx:
  "cyclic_collect lat c d = Some (c', d') \<Longrightarrow> tx_side (dev_enet d') = tx_side (dev_enet d) \<and> src_mac d' = src_mac d"
  by (auto simp: cyclic_collect_def cyclic_receive_def Let_def split: if_splits bind_splits dest!: receive_loop_tx)

lemma submit_side: "tx_side e1 = tx_side e \<Longrightarrow> tx_side (tx_submit e1 im) = tx_side (tx_submit e im)"
  by (simp add: tx_side_def tx_submit_def)

lemma tick_transmits:
  assumes inv: "bridge_inv c h" and dev: "dev_wf d" and tick: "tick_with_host LAYOUT lat c d ix h = Some (c', d', ix', h')"
    and col: "cyclic_collect lat c d = Some (c1, d1)"
    and f: "f = frame_bytes (request ix Lrw 0 0 (live_image c') # map fst (cycle_tail c1 (ix + 1)))"
  shows "tx_side (dev_enet d') =
      (if tx_owned_by_dma (dev_enet d) then tx_side (dev_enet d)
       else tx_side (tx_submit (dev_enet d) (sent_image (eth_header (src_mac d)) f)))"
    "cy_outstanding c' \<longleftrightarrow> \<not> tx_owned_by_dma (dev_enet d)" "cy_expected_index c' = ix"
    "cy_appended c' = map snd (cycle_tail c1 (ix + 1))"
proof -
  obtain e1 f1 c2 h2 u r where t: "cyclic_collect lat c d = Some (e1, f1)" "dev_wf f1" "collected c e1"
    "host_outputs LAYOUT e1 (fst (tick_watchdog h)) (host_late h) = Some (c2, h2, u)" "same_inputs e1 c2" "same_engine c2 c'"
    "dev_send f1 (frame_bytes (cycle_frame c2 ix)) = Some (d', r)" "cy_outstanding c' = (r = Inr ())"
    "built c' (cycle_frame c2 ix) (map snd (cycle_tail c2 (ix + 1)))" "cy_expected_index c' = ix"
    "\<forall>j. cycle_tail c2 j = cycle_tail e1 j" "cyclic_wf c'"
    by (rule tick_parts [OF inv dev tick])
  have eq: "e1 = c1" "f1 = d1" using t(1) col by simp_all
  have "live_image c2 = live_image c'" using t(6) by (simp add: same_engine_def live_image_def)
  then have fr: "frame_bytes (cycle_frame c2 ix) = f" unfolding f cycle_frame_def using t(11) eq by simp
  have small: "length f + 14 \<le> ECAT_MTU" using built_frame_slice(2) [OF t(9,12)] fr by simp
  have side: "tx_side (dev_enet d1) = tx_side (dev_enet d)" "src_mac d1 = src_mac d" using collect_tx [OF col] by simp_all
  then have own: "tx_owned_by_dma (dev_enet d1) = tx_owned_by_dma (dev_enet d)" by (simp add: tx_owned_by_dma_def tx_side_def)
  have dev1: "dev_wf d1" using t(2) eq by simp
  note s = t(7) [unfolded eq fr dev_send_eq [OF dev1 small] own side(2)]
  show "tx_side (dev_enet d') = (if tx_owned_by_dma (dev_enet d) then tx_side (dev_enet d)
      else tx_side (tx_submit (dev_enet d) (sent_image (eth_header (src_mac d)) f)))"
    using s side(1) submit_side [OF side(1)] by (auto split: if_splits)
  show "cy_outstanding c' \<longleftrightarrow> \<not> tx_owned_by_dma (dev_enet d)" using s t(8) by (auto split: if_splits)
  show "cy_expected_index c' = ix" by (rule t(10))
  show "cy_appended c' = map snd (cycle_tail c1 (ix + 1))" using t(9,11) eq by (simp add: built_def)
qed

lemma tick_sends:
  assumes inv: "bridge_inv c h" and dev: "dev_wf d" and col: "cyclic_collect lat c d = Some (c1, d1)"
    and free: "\<not> tx_owned_by_dma (dev_enet d1)"
    and tick: "tick_with_host LAYOUT lat c d ix h = Some (c', d', ix', h')"
    and seek: "op_seek (cy_slaves c1) (cy_op_cursor c1) (cy_op_ctrl_phase c1) = (cur, ctrl)"
  obtains img hdr pad where "bridge_inv c' h'" "dev_wf d'" "cy_outstanding c'" "cy_expected_index c' = ix"
    "last_sent (dev_enet d') = hdr @ frame_bytes (request ix Lrw 0 0 img # map fst (cycle_tail c1 (ix + 1))) @ pad"
    "length hdr = 14" "drop 12 hdr = [0x88, 0xA4]"
    "length (frame_bytes (request ix Lrw 0 0 img # map fst (cycle_tail c1 (ix + 1)))) \<le> 576"
    "cy_appended c' = map snd (cycle_tail c1 (ix + 1))"
    "cy_phase c' = cy_phase c1" "cy_slaves c' = cy_slaves c1" "cy_good_cycles c' = cy_good_cycles c1"
    "cy_phase c1 \<noteq> RequestingOp \<longrightarrow> cy_op_cursor c' = cy_op_cursor c1 \<and> cy_op_ctrl_phase c' = cy_op_ctrl_phase c1"
    "cy_phase c1 = RequestingOp \<longrightarrow> cur < length (cy_slaves c1) \<longrightarrow> cy_op_cursor c' = cur \<and> cy_op_ctrl_phase c' = (\<not> ctrl)"
proof -
  have wf: "cyclic_wf c" and hw: "host_wf LAYOUT h" and len: "110 \<le> dom_len (cy_domain c)"
    using inv by (simp_all add: bridge_inv_def cyclic_inv_def)
  obtain c2 h2 u c3 d3 ix3 r h4 where t: "host_outputs LAYOUT c1 (fst (tick_watchdog h)) (host_late h) = Some (c2, h2, u)"
      "same_inputs c1 c2" "cyclic_send c2 d1 ix = Some (c3, d3, ix3)" "same_engine c2 c3" "cy_expected_index c3 = ix"
      "built c3 (cycle_frame c2 ix) (map snd (cycle_tail c2 (ix + 1)))"
      "dev_send d1 (frame_bytes (cycle_frame c2 ix)) = Some (d3, r)" "cy_outstanding c3 = (r = Inr ())" "dev_wf d3"
      "tick_with_host LAYOUT lat c d ix h = Some (c3, d3, ix3, h4)"
  proof (rule tick_with_host_parts [OF wf dev hw len, of lat ix])
    fix e1 f1 c2 h2 u c3 d3 ix3 r h4
    assume "cyclic_collect lat c d = Some (e1, f1)"
      and rest: "host_outputs LAYOUT e1 (fst (tick_watchdog h)) (host_late h) = Some (c2, h2, u)"
        "same_inputs e1 c2" "cyclic_send c2 f1 ix = Some (c3, d3, ix3)" "same_engine c2 c3" "cy_expected_index c3 = ix"
        "built c3 (cycle_frame c2 ix) (map snd (cycle_tail c2 (ix + 1)))"
        "dev_send f1 (frame_bytes (cycle_frame c2 ix)) = Some (d3, r)" "cy_outstanding c3 = (r = Inr ())" "dev_wf d3"
        "tick_with_host LAYOUT lat c d ix h = Some (c3, d3, ix3, h4)"
    then have "e1 = c1" "f1 = d1" using col by simp_all
    then show thesis using that rest by blast
  qed
  have eq: "c' = c3" "d' = d3" "h' = h4" using t(10) tick by simp_all
  obtain c5 d5 ix5 h5 where "tick_with_host LAYOUT lat c d ix h = Some (c5, d5, ix5, h5)" "bridge_inv c5 h5"
    using bridge_tick [OF inv dev, of lat ix] by metis
  then have inv': "bridge_inv c' h'" using tick by simp
  have dev1: "dev_wf d1" using cyclic_collect_total [OF wf dev, of lat] col by auto
  have wf3: "cyclic_wf c3" using inv' eq by (simp add: bridge_inv_def cyclic_inv_def)
  note cur = host_outputs_cursor [OF t(1)]
  have same: "cy_phase c2 = cy_phase c1" "cy_slaves c2 = cy_slaves c1" using t(2) by (simp_all add: same_inputs_def)
  have ts: "cycle_tail c2 j = cycle_tail c1 j" for j using cycle_tail_same [OF conjunct1 [OF cur] same] .
  have fr: "cycle_frame c2 ix = request ix Lrw 0 0 (live_image c2) # map fst (cycle_tail c1 (ix + 1))"
    by (simp add: cycle_frame_def ts)
  have small: "length (frame_bytes (cycle_frame c2 ix)) \<le> 576" by (rule built_frame_slice(2) [OF t(6) wf3])
  let ?hdr = "eth_header (src_mac d1)"
  have hdr: "length ?hdr = 14" "drop 12 ?hdr = [0x88, 0xA4]" using dev1 by (simp_all add: dev_wf_def eth_header_def)
  obtain pad where pad: "sent_image ?hdr (frame_bytes (cycle_frame c2 ix)) = ?hdr @ frame_bytes (cycle_frame c2 ix) @ pad"
    using sent_image_frame [OF hdr(1)] by blast
  have "dev_send d1 (frame_bytes (cycle_frame c2 ix)) =
      Some (d1\<lparr>dev_enet := tx_submit (dev_enet d1) (sent_image ?hdr (frame_bytes (cycle_frame c2 ix)))\<rparr>, Inr ())"
    using dev_send_eq [OF dev1, of "frame_bytes (cycle_frame c2 ix)"] small free by simp
  then have sent: "r = Inr ()" "dev_enet d3 = tx_submit (dev_enet d1) (sent_image ?hdr (frame_bytes (cycle_frame c2 ix)))"
    using t(7) by auto
  have "length (sent_image ?hdr (frame_bytes (cycle_frame c2 ix))) \<le> ECAT_MTU"
    using small hdr(1) by (simp add: sent_image_def Let_def)
  then have last: "last_sent (dev_enet d') = ?hdr @ frame_bytes (request ix Lrw 0 0 (live_image c2) # map fst (cycle_tail c1 (ix + 1))) @ pad"
    using last_sent_submit dev1 sent(2) pad eq fr by (simp add: dev_wf_def)
  have seek2: "op_seek (cy_slaves c2) (cy_op_cursor c2) (cy_op_ctrl_phase c2) = (cur, ctrl)"
    using seek same cur by (simp add: same_cursor_def)
  note sc = send_cursor [OF t(3) seek2]
  show thesis
  proof (rule that [OF inv' _ _ _ last hdr])
    show "dev_wf d'" "cy_outstanding c'" "cy_expected_index c' = ix" using t(5,8,9) eq sent(1) by simp_all
    show "length (frame_bytes (request ix Lrw 0 0 (live_image c2) # map fst (cycle_tail c1 (ix + 1)))) \<le> 576"
      using small by (simp only: fr)
    show "cy_appended c' = map snd (cycle_tail c1 (ix + 1))" using t(6) eq by (simp add: built_def ts)
    show "cy_phase c' = cy_phase c1" "cy_slaves c' = cy_slaves c1" using t(4) same eq by (simp_all add: same_engine_def)
    show "cy_good_cycles c' = cy_good_cycles c1" using sc(1) cur eq by simp
    show "cy_phase c1 \<noteq> RequestingOp \<longrightarrow> cy_op_cursor c' = cy_op_cursor c1 \<and> cy_op_ctrl_phase c' = cy_op_ctrl_phase c1"
      using sc(2) same cur eq by (simp add: same_cursor_def)
    show "cy_phase c1 = RequestingOp \<longrightarrow> cur < length (cy_slaves c1) \<longrightarrow> cy_op_cursor c' = cur \<and> cy_op_ctrl_phase c' = (\<not> ctrl)"
      using sc(3) same eq by simp
  qed
qed


section \<open>Progress\<close>

text \<open>What is on its way, by phase: nothing but the LRW, the request to the slave at the cursor, or monitoring.\<close>

definition cursor_station :: "cyclic \<Rightarrow> u16" where
  "cursor_station c = rt_station (cy_slaves c ! cy_op_cursor c)"

definition tail_ok :: "cyclic \<Rightarrow> bus_state \<Rightarrow> (dgram \<times> appended) list \<Rightarrow> bool" where
  "tail_ok c b ts =
     (case cy_phase c of
        Priming \<Rightarrow> ts = []
      | RequestingOp \<Rightarrow> \<exists>ix.
          if cy_op_ctrl_phase c
          then ts = [(request ix Fprd (cursor_station c) reg_AL_STATUS [0, 0], AppStatus (cy_op_cursor c))] \<and>
            bs_asked b (cursor_station c) \<noteq> None
          else ts = [(request ix Fpwr (cursor_station c) reg_AL_CONTROL [al_OP, 0], AppControl)]
      | Operational \<Rightarrow> \<forall>(q, k) \<in> set ts.
          k = AppAlPoll \<and> is_status q \<and> (\<exists>s \<in> set (cy_slaves c). dg_adp q = rt_station s) \<or>
          (k = AppDcArmw \<or> k = AppDcDiff) \<and> \<not> is_status q \<and> \<not> is_control q
      | Faulted \<Rightarrow> False)"

text \<open>The cycles left until the operational phase; the \<open>D\<close> of the bus bounds the requests one slave needs.\<close>

definition cycles_left :: "nat \<Rightarrow> cyclic \<Rightarrow> bus_state \<Rightarrow> nat" where
  "cycles_left D c b =
     2 * (D + 1) * (length (cy_slaves c) - 1 - cy_op_cursor c) + (if cy_op_ctrl_phase c then 1 else 2) +
     2 * (D - (case bs_asked b (cursor_station c) of None \<Rightarrow> 0 | Some k \<Rightarrow> k))"

definition progress :: "nat \<Rightarrow> nat \<Rightarrow> nat \<Rightarrow> cyclic \<Rightarrow> bus_state \<Rightarrow> bool" where
  "progress D m n c b =
     (case cy_phase c of
        Priming \<Rightarrow> 0 < n \<and> n \<le> 3 \<and> cy_good_cycles c = of_nat (n - 1) \<and> cy_op_cursor c = 0 \<and> cy_op_ctrl_phase c \<and>
          (\<forall>s \<in> set (cy_slaves c). \<not> rt_reached_op s)
      | RequestingOp \<Rightarrow> cy_op_cursor c < length (cy_slaves c) \<and> \<not> rt_reached_op (cy_slaves c ! cy_op_cursor c) \<and>
          (\<forall>i < cy_op_cursor c. rt_reached_op (cy_slaves c ! i)) \<and> n + cycles_left D c b \<le> 4 + 2 * (D + 1) * m
      | Operational \<Rightarrow> True
      | Faulted \<Rightarrow> False)"

definition up_known :: "cyclic \<Rightarrow> bus_state \<Rightarrow> bool" where
  "up_known c b \<longleftrightarrow> (\<forall>s \<in> set (cy_slaves c). rt_reached_op s \<longrightarrow> rt_station s \<in> bs_up b)"

definition under_way :: "nat \<Rightarrow> nat \<Rightarrow> nat \<Rightarrow> cyclic \<Rightarrow> device \<Rightarrow> host_bridge \<Rightarrow> bus_state \<Rightarrow> bool" where
  "under_way D m n c d h b \<longleftrightarrow>
     bridge_inv c h \<and> dev_wf d \<and> cy_outstanding c \<and> length (cy_slaves c) \<le> m \<and> up_known c b \<and> progress D m n c b \<and>
     (\<exists>hdr img ts pad qs. qs = request (cy_expected_index c) Lrw 0 0 img # map fst ts \<and>
        last_sent (dev_enet d) = hdr @ frame_bytes qs @ pad \<and> length hdr = 14 \<and> drop 12 hdr = [0x88, 0xA4] \<and>
        length (frame_bytes qs) \<le> 576 \<and> length ts \<le> 2 \<and> cy_appended c = map snd ts \<and> tail_ok c b ts \<and>
        (\<forall>q \<in> set qs. is_status q \<longrightarrow> dg_data q \<noteq> []))"

text \<open>What the engine sends in a phase fits the description.\<close>

lemma request_kinds:
  "is_control (request ix cmd adp ado pl) \<longleftrightarrow> command_code cmd = command_code Fpwr \<and> ado = reg_AL_CONTROL"
  "is_status (request ix cmd adp ado pl) \<longleftrightarrow> command_code cmd = command_code Fprd \<and> ado = reg_AL_STATUS"
  by (simp_all add: is_control_def is_status_def request_def)

lemma tail_status_data: "q \<in> fst ` set (cycle_tail c ix) \<Longrightarrow> is_status q \<Longrightarrow> dg_data q \<noteq> []"
  by (cases "cy_phase c"; cases "cy_slaves c" rule: remdups_adj.cases)
    (auto simp: cycle_tail_def op_tail_def monitor_tail_def Let_def request_kinds request_def split: prod.splits if_splits)

lemma monitor_tail_ok:
  assumes "(q, k) \<in> set (monitor_tail c ix)"
  shows "k = AppAlPoll \<and> is_status q \<and> (\<exists>s \<in> set (cy_slaves c). dg_adp q = rt_station s) \<or>
    (k = AppDcArmw \<or> k = AppDcDiff) \<and> \<not> is_status q \<and> \<not> is_control q"
proof -
  have "reg_DC_SYS_TIME_DIFF \<noteq> reg_AL_STATUS" "reg_DC_SYS_TIME_DIFF \<noteq> reg_AL_CONTROL"
    "reg_DC_SYS_TIME \<noteq> reg_AL_STATUS" "reg_DC_SYS_TIME \<noteq> reg_AL_CONTROL"
    by (simp_all add: reg_DC_SYS_TIME_DIFF_def reg_DC_SYS_TIME_def reg_AL_STATUS_def reg_AL_CONTROL_def)
  moreover have "dg_adp (request i cmd adp ado pl) = adp" for i cmd adp ado pl by (simp add: request_def)
  moreover have "(\<exists>i st. q = request i Fprd st reg_DC_SYS_TIME_DIFF (replicate 4 0) \<and> k = AppDcDiff) \<or>
      (\<exists>i adp. q = request i Armw adp reg_DC_SYS_TIME (replicate 8 0) \<and> k = AppDcArmw) \<or>
      (\<exists>i. q = request i Fprd (rt_station (cy_slaves c ! ((cy_mon_cursor c + 1) mod length (cy_slaves c)))) reg_AL_STATUS [0, 0] \<and>
         k = AppAlPoll \<and> cy_slaves c \<noteq> [])"
    using assms by (cases "cy_slaves c" rule: remdups_adj.cases) (auto simp: monitor_tail_def split: if_splits)
  moreover have "cy_slaves c \<noteq> [] \<Longrightarrow> cy_slaves c ! ((cy_mon_cursor c + 1) mod length (cy_slaves c)) \<in> set (cy_slaves c)" by simp
  ultimately show ?thesis by (auto simp: request_kinds)
qed


text \<open>What a collected state must satisfy for the frame sent next to keep the bound.\<close>

definition polls :: "bus_state \<Rightarrow> u16 \<Rightarrow> nat" where
  "polls b st = (case bs_asked b st of None \<Rightarrow> 0 | Some k \<Rightarrow> k)"

definition sendable :: "nat \<Rightarrow> nat \<Rightarrow> nat \<Rightarrow> cyclic \<Rightarrow> bus_state \<Rightarrow> bool" where
  "sendable D m n c b =
     (if cy_phase c = RequestingOp then
        (let (cur, ctrl) = op_seek (cy_slaves c) (cy_op_cursor c) (cy_op_ctrl_phase c);
             st = rt_station (cy_slaves c ! cur)
         in cur < length (cy_slaves c) \<and> (\<forall>i < cur. rt_reached_op (cy_slaves c ! i)) \<and>
            (\<not> ctrl \<longrightarrow> bs_asked b st \<noteq> None) \<and>
            n + (2 * (D + 1) * (length (cy_slaves c) - 1 - cur) + (if ctrl then 2 else 1) + 2 * (D - polls b st)) \<le>
              4 + 2 * (D + 1) * m)
      else progress D m n c b)"

lemma sends_under_way:
  assumes inv: "bridge_inv c h" and dev: "dev_wf d" and col: "cyclic_collect lat c d = Some (c1, d1)"
    and free: "\<not> tx_owned_by_dma (dev_enet d1)"
    and tick: "tick_with_host LAYOUT lat c d ix h = Some (c', d', ix', h')"
    and ok: "length (cy_slaves c1) \<le> m" "up_known c1 b" "sendable D m n c1 b"
  shows "under_way D m n c' d' h' b"
proof -
  obtain cur ctrl where seek: "op_seek (cy_slaves c1) (cy_op_cursor c1) (cy_op_ctrl_phase c1) = (cur, ctrl)" by fastforce
  obtain img hdr pad where s: "bridge_inv c' h'" "dev_wf d'" "cy_outstanding c'" "cy_expected_index c' = ix"
      "last_sent (dev_enet d') = hdr @ frame_bytes (request ix Lrw 0 0 img # map fst (cycle_tail c1 (ix + 1))) @ pad"
      "length hdr = 14" "drop 12 hdr = [0x88, 0xA4]"
      "length (frame_bytes (request ix Lrw 0 0 img # map fst (cycle_tail c1 (ix + 1)))) \<le> 576"
      "cy_appended c' = map snd (cycle_tail c1 (ix + 1))"
      "cy_phase c' = cy_phase c1" "cy_slaves c' = cy_slaves c1" "cy_good_cycles c' = cy_good_cycles c1"
      "cy_phase c1 \<noteq> RequestingOp \<longrightarrow> cy_op_cursor c' = cy_op_cursor c1 \<and> cy_op_ctrl_phase c' = cy_op_ctrl_phase c1"
      "cy_phase c1 = RequestingOp \<longrightarrow> cur < length (cy_slaves c1) \<longrightarrow> cy_op_cursor c' = cur \<and> cy_op_ctrl_phase c' = (\<not> ctrl)"
    by (rule tick_sends [OF inv dev col free tick seek])
  have up: "up_known c' b" "length (cy_slaves c') \<le> m" using ok s(11) by (simp_all add: up_known_def)
  have main: "progress D m n c' b \<and> tail_ok c' b (cycle_tail c1 (ix + 1))"
  proof (cases "cy_phase c1 = RequestingOp")
    case True
    note sn = ok(3) [unfolded sendable_def if_P [OF True] seek Let_def prod.case]
    then have r: "cur < length (cy_slaves c1)" "\<forall>i < cur. rt_reached_op (cy_slaves c1 ! i)"
        "\<not> ctrl \<longrightarrow> bs_asked b (rt_station (cy_slaves c1 ! cur)) \<noteq> None"
        "n + (2 * (D + 1) * (length (cy_slaves c1) - 1 - cur) + (if ctrl then 2 else 1) +
          2 * (D - polls b (rt_station (cy_slaves c1 ! cur)))) \<le> 4 + 2 * (D + 1) * m"
      by blast+
    have cc: "cy_op_cursor c' = cur" "cy_op_ctrl_phase c' = (\<not> ctrl)" using s(14) True r(1) by simp_all
    have "\<not> rt_reached_op (cy_slaves c1 ! cur)" using op_seek_finds(3) [OF seek r(1)] .
    moreover have "cycles_left D c' b = 2 * (D + 1) * (length (cy_slaves c1) - 1 - cur) + (if ctrl then 2 else 1) +
        2 * (D - polls b (rt_station (cy_slaves c1 ! cur)))"
      unfolding cycles_left_def cursor_station_def polls_def cc s(11) by (cases ctrl) simp_all
    then have "n + cycles_left D c' b \<le> 4 + 2 * (D + 1) * m" using r(4) by (simp only:)
    ultimately have "progress D m n c' b"
      using r(1,2) cc s(10,11) True by (simp add: progress_def)
    moreover have "tail_ok c' b (cycle_tail c1 (ix + 1))"
      using r(1,3) cc s(10,11) True seek by (auto simp: tail_ok_def cursor_station_def cycle_tail_def op_tail_def Let_def)
    ultimately show ?thesis ..
  next
    case False
    then have p: "progress D m n c1 b" using ok(3) by (simp add: sendable_def)
    have cc: "cy_op_cursor c' = cy_op_cursor c1" "cy_op_ctrl_phase c' = cy_op_ctrl_phase c1" using s(13) False by simp_all
    have "progress D m n c' b" using p cc s(10,11,12) False by (cases "cy_phase c1") (simp_all add: progress_def)
    moreover have "tail_ok c' b (cycle_tail c1 (ix + 1))"
    proof (cases "cy_phase c1")
      case Operational
      have "\<forall>(q, k) \<in> set (monitor_tail c1 (ix + 1)).
          k = AppAlPoll \<and> is_status q \<and> (\<exists>s \<in> set (cy_slaves c1). dg_adp q = rt_station s) \<or>
          (k = AppDcArmw \<or> k = AppDcDiff) \<and> \<not> is_status q \<and> \<not> is_control q"
        using monitor_tail_ok [of _ _ c1 "ix + 1"] by blast
      then show ?thesis using Operational s(10,11) by (simp add: tail_ok_def cycle_tail_def)
    qed (use s(10) p False in \<open>simp_all add: tail_ok_def cycle_tail_def progress_def\<close>)
    ultimately show ?thesis ..
  qed
  let ?ts = "cycle_tail c1 (ix + 1)" and ?lrw = "request ix Lrw 0 0 img"
  have data: "\<forall>q \<in> set (?lrw # map fst ?ts). is_status q \<longrightarrow> dg_data q \<noteq> []"
    using tail_status_data [of _ c1 "ix + 1"] by (auto simp: request_kinds)
  show ?thesis
    unfolding under_way_def
    using s(1,2,3,5,6,7,8,9) main up data tail_length [of c1 "ix + 1"] unfolding s(4) by blast
qed

section \<open>The answer\<close>

lemma answered_shape:
  assumes "answered D b q a b'"
  shows "dg_index a = dg_index q" "length (dg_data a) = length (dg_data q)" "dg_wkc a \<noteq> 0" "bs_up b \<subseteq> bs_up b'"
  using assms by (auto simp: answered_def split: if_splits)

lemma all_answered_shape:
  assumes "all_answered D b qs as b'"
  shows "length as = length qs" "dgrams_len as = dgrams_len qs" "bs_up b \<subseteq> bs_up b'"
proof -
  have "length as = length qs \<and> dgrams_len as = dgrams_len qs \<and> bs_up b \<subseteq> bs_up b'"
    using assms
  proof (induction qs arbitrary: b as)
    case (Cons q qs)
    then obtain a rest b1 where a: "as = a # rest" "answered D b q a b1" "all_answered D b1 qs rest b'" by auto
    from Cons.IH [OF a(3)] answered_shape [OF a(2)] show ?case using a(1) by auto
  qed simp
  then show "length as = length qs" "dgrams_len as = dgrams_len qs" "bs_up b \<subseteq> bs_up b'" by simp_all
qed

lemma under_way_collect:
  assumes u: "under_way D m n c d h b" and bus: "bus_cycle D b d d1 b'"
  obtains ts as w a where "tail_ok c b ts" "all_answered D b (map fst ts) as b'" "w \<noteq> 0"
    "cyclic_collect lat c d1 = Some ((process_effects w (map2 (\<lambda>k e. the (decode_appended k (reply_of e))) (map snd ts) as) a)
        \<lparr>cy_outstanding := False\<rparr>, d1\<lparr>dev_enet := rx_release (dev_enet d1)\<rparr>)"
    "same_cursor c a" "cy_phase a = cy_phase c" "cy_slaves a = cy_slaves c" "cy_good_cycles a = cy_good_cycles c"
proof -
  obtain hdr img ts pad where q: "last_sent (dev_enet d) = hdr @ frame_bytes (request (cy_expected_index c) Lrw 0 0 img # map fst ts) @ pad"
      "length hdr = 14" "drop 12 hdr = [0x88, 0xA4]"
      "length (frame_bytes (request (cy_expected_index c) Lrw 0 0 img # map fst ts)) \<le> 576" "length ts \<le> 2"
      "cy_appended c = map snd ts" "tail_ok c b ts"
    using u unfolding under_way_def by blast
  let ?lrw = "request (cy_expected_index c) Lrw 0 0 img"
  have wf: "cyclic_wf c" and out: "cy_outstanding c" using u by (simp_all add: under_way_def bridge_inv_def cyclic_inv_def)
  obtain hdr0 qs pad0 hdr1 as pad1 where b: "last_sent (dev_enet d) = hdr0 @ frame_bytes qs @ pad0" "length hdr0 = 14" "frame_ok qs"
      "all_answered D b qs as b'" "received (dev_enet d1) = hdr1 @ frame_bytes as @ pad1" "length hdr1 = 14" "drop 12 hdr1 = drop 12 hdr0"
      "dev_wf d1" "\<not> rx_owned_by_dma (dev_enet d1)"
    using bus unfolding bus_cycle_def ready_device_def by blast
  have ok: "frame_ok (?lrw # map fst ts)" using q(4) by (simp add: frame_ok_def)
  have "hdr0 = hdr \<and> frame_bytes qs @ pad0 = frame_bytes (?lrw # map fst ts) @ pad"
    using b(1,2) q(1,2) by simp
  then have h: "hdr0 = hdr" "qs = ?lrw # map fst ts"
    using frame_bytes_inject [OF _ b(3) ok] by blast+
  obtain a0 as' b1 where a: "as = a0 # as'" "answered D b ?lrw a0 b1" "all_answered D b1 (map fst ts) as' b'"
    using b(4) unfolding h(2) by auto
  have "b1 = b" using a(2) by (simp add: answered_def request_kinds)
  have l: "length (frame_bytes (a0 # as')) \<le> 576" "length as' = length (cy_appended c)" "length as' \<le> 3"
    using all_answered_shape [OF b(4)] all_answered_shape(1) [OF a(3)] q(4,5,6) unfolding h(2) a(1) by simp_all
  have ix: "dg_index a0 = cy_expected_index c" using answered_shape(1) [OF a(2)] by (simp add: request_def)
  have hdr1: "drop 12 hdr1 = [0x88, 0xA4]" using b(7) q(3) h(1) by simp
  have rcv: "received (dev_enet d1) = hdr1 @ frame_bytes (a0 # as') @ pad1" using b(5) a(1) by simp
  obtain e where e: "cyclic_collect lat c d1 =
        Some ((process_effects (dg_wkc a0) (map2 (\<lambda>k e. the (decode_appended k (reply_of e))) (cy_appended c) as') e)
          \<lparr>cy_outstanding := False\<rparr>, d1\<lparr>dev_enet := rx_release (dev_enet d1)\<rparr>)"
      "same_cursor c e" "cy_phase e = cy_phase c" "cy_slaves e = cy_slaves c" "cy_good_cycles e = cy_good_cycles c"
      "\<exists>st. apply_reply (cy_domain c) (reply_of a0) = Some (cy_domain e, st)"
    by (rule collect_answer [OF wf out b(8,9) rcv b(6) hdr1 ix l(2,3,1), of lat])
  show thesis
    by (rule that [OF q(7) a(3) [unfolded \<open>b1 = b\<close>] answered_shape(3) [OF a(2)] e(1-5) [unfolded q(6)]])
qed


lemma sendableI:
  assumes "cy_phase c = RequestingOp" "op_seek (cy_slaves c) (cy_op_cursor c) (cy_op_ctrl_phase c) = (cur, ctrl)"
    "cur < length (cy_slaves c)" "\<forall>i < cur. rt_reached_op (cy_slaves c ! i)"
    "\<not> ctrl \<Longrightarrow> bs_asked b (rt_station (cy_slaves c ! cur)) \<noteq> None"
    "n + (2 * (D + 1) * (length (cy_slaves c) - 1 - cur) + (if ctrl then 2 else 1) + 2 * (D - polls b (rt_station (cy_slaves c ! cur)))) \<le>
      4 + 2 * (D + 1) * m"
  shows "sendable D m n c b"
  unfolding sendable_def if_P [OF assms(1)] assms(2) Let_def prod.case using assms(3-6) by blast

text \<open>The collected state, phase by phase.\<close>

lemma slot_bound:
  fixes D m len cur p :: nat
  assumes "cur < len"
  shows "2 * (D + 1) * (len - 1 - cur) + 2 + 2 * (D - p) \<le> 2 * (D + 1) * (len - cur)"
proof -
  obtain k where "len - cur = Suc k" using assms by (metis Suc_diff_Suc)
  moreover from this have "len - 1 - cur = k" by simp
  ultimately show ?thesis by simp
qed

lemma priming_collected:
  assumes ph: "cy_phase c = Priming" and pr: "progress D m n c b" and len: "length (cy_slaves c) \<le> m" and w: "w \<noteq> 0"
  defines "e \<equiv> process_effects w [] c"
  shows "sendable D m (Suc n) e b" "cy_slaves e = cy_slaves c"
proof -
  have p: "n = 1 \<or> n = 2 \<or> n = 3" "cy_good_cycles c = of_nat (n - 1)" "cy_op_cursor c = 0" "cy_op_ctrl_phase c"
      "\<forall>s \<in> set (cy_slaves c). \<not> rt_reached_op s"
    using pr ph by (auto simp: progress_def)
  have w0: "w > 0" using w by (simp add: word_gt_0)
  show sl: "cy_slaves e = cy_slaves c" using w0 by (simp add: e_def process_effects_def Let_def)
  have cur: "cy_op_cursor e = 0" "cy_op_ctrl_phase e" using effects_cursor [of c w "[]"] p(3,4) by (simp_all add: e_def same_cursor_def)
  show "sendable D m (Suc n) e b"
  proof (cases "n = 3")
    case False
    then have "cy_phase e = Priming" "cy_good_cycles e = of_nat n"
      using p(1,2) ph w0 by (auto simp: e_def process_effects_def Let_def PRIMING_CYCLES_def word_le_nat_alt)
    then show ?thesis using p False cur sl by (auto simp: sendable_def progress_def)
  next
    case True
    then have e: "cy_phase e = (if cy_slaves c = [] then Operational else RequestingOp)"
      using p(2,5) ph w0 by (cases "cy_slaves c") (simp_all add: e_def process_effects_def Let_def PRIMING_CYCLES_def all_reached_op_def)
    show ?thesis
    proof (cases "cy_slaves c")
      case Nil
      then show ?thesis using e by (simp add: sendable_def progress_def)
    next
      case (Cons s ss)
      then have "\<not> rt_reached_op (cy_slaves c ! 0)" "0 < length (cy_slaves c)" using p(5) by simp_all
      then have seek: "op_seek (cy_slaves e) (cy_op_cursor e) (cy_op_ctrl_phase e) = (0, True)"
        using cur sl by (subst op_seek.simps) simp
      have "2 * (D + 1) * (length (cy_slaves c) - 1 - 0) + 2 + 2 * (D - polls b (rt_station (cy_slaves c ! 0))) \<le>
          2 * (D + 1) * (length (cy_slaves c) - 0)"
        by (rule slot_bound) (use Cons in simp)
      also have "\<dots> \<le> 2 * (D + 1) * m" using len by (intro mult_le_mono2) simp
      finally have bound: "Suc n + (2 * (D + 1) * (length (cy_slaves e) - 1 - 0) + (if True then 2 else 1) +
          2 * (D - polls b (rt_station (cy_slaves e ! 0)))) \<le> 4 + 2 * (D + 1) * m"
        unfolding sl True by simp
      show ?thesis by (rule sendableI [OF _ seek _ _ _ bound]) (use e Cons sl in simp_all)
    qed
  qed
qed

lemma effects_requesting:
  assumes "cy_phase c = RequestingOp" "ApFault \<notin> set as"
  shows "cy_phase (process_effects w as c) = (if all_reached_op (process_effects w as c) then Operational else RequestingOp)"
  using assms by (simp add: process_effects_def Let_def foldl_action_phase all_reached_op_def)

lemma control_collected:
  fixes w :: u16
  assumes ph: "cy_phase c = RequestingOp" and pr: "progress D m n c b" and ctrl: "\<not> cy_op_ctrl_phase c"
    and b': "bs_asked b' (cursor_station c) \<noteq> None" "polls b' (cursor_station c) = polls b (cursor_station c)"
  defines "e \<equiv> process_effects w [ApNone] c"
  shows "sendable D m (Suc n) e b'" "cy_slaves e = cy_slaves c"
proof -
  have p: "cy_op_cursor c < length (cy_slaves c)" "\<not> rt_reached_op (cy_slaves c ! cy_op_cursor c)"
      "\<forall>i < cy_op_cursor c. rt_reached_op (cy_slaves c ! i)" "n + cycles_left D c b \<le> 4 + 2 * (D + 1) * m"
    using pr ph by (auto simp: progress_def)
  show sl: "cy_slaves e = cy_slaves c"
    by (simp add: e_def process_effects_def Let_def apply_action_def)
  have "\<not> all_reached_op e" using p(1,2) sl by (auto simp: all_reached_op_def list_all_length)
  then have ph': "cy_phase e = RequestingOp" using effects_requesting [OF ph, of "[ApNone]" w] by (simp add: e_def)
  have cur: "cy_op_cursor e = cy_op_cursor c" "\<not> cy_op_ctrl_phase e"
    using effects_cursor [of c w "[ApNone]"] ctrl by (simp_all add: e_def same_cursor_def)
  have seek: "op_seek (cy_slaves e) (cy_op_cursor e) (cy_op_ctrl_phase e) = (cy_op_cursor c, False)"
    using cur sl p(2) by (subst op_seek.simps) simp
  have "cycles_left D c b = 2 * (D + 1) * (length (cy_slaves c) - 1 - cy_op_cursor c) + 2 + 2 * (D - polls b' (cursor_station c))"
    using ctrl b'(2) by (simp add: cycles_left_def polls_def)
  then have "Suc n + (2 * (D + 1) * (length (cy_slaves c) - 1 - cy_op_cursor c) + 1 + 2 * (D - polls b' (cursor_station c))) \<le> 4 + 2 * (D + 1) * m"
    using p(4) by linarith
  then have "Suc n + (2 * (D + 1) * (length (cy_slaves e) - 1 - cy_op_cursor c) + (if False then 2 else 1) +
      2 * (D - polls b' (rt_station (cy_slaves e ! cy_op_cursor c)))) \<le> 4 + 2 * (D + 1) * m"
    unfolding sl cursor_station_def by (simp only: if_False)
  then show "sendable D m (Suc n) e b'"
    by (rule sendableI [OF ph' seek, rotated 3]) (use p(1,3) b'(1) sl in \<open>simp_all add: cursor_station_def\<close>)
qed


text \<open>The slave at the cursor has reported OP: on to the next one, or the operational phase.\<close>

lemma reached_collected:
  fixes w :: u16
  assumes ph: "cy_phase c = RequestingOp" and pr: "progress D m n c b"
  defines "e \<equiv> process_effects w [ApOpReached (cy_op_cursor c)] c"
  shows "sendable D m (Suc n) e b'"
    "cy_slaves e = (cy_slaves c)[cy_op_cursor c := (cy_slaves c ! cy_op_cursor c)\<lparr>rt_reached_op := True\<rparr>]"
proof -
  let ?i = "cy_op_cursor c"
  have p: "?i < length (cy_slaves c)" "\<forall>i < ?i. rt_reached_op (cy_slaves c ! i)" "n + cycles_left D c b \<le> 4 + 2 * (D + 1) * m"
    using pr ph by (auto simp: progress_def)
  show sl: "cy_slaves e = (cy_slaves c)[?i := (cy_slaves c ! ?i)\<lparr>rt_reached_op := True\<rparr>]"
    using p(1) by (simp add: e_def process_effects_def Let_def apply_action_def)
  have ph': "cy_phase e = (if all_reached_op e then Operational else RequestingOp)"
    using effects_requesting [OF ph, of "[ApOpReached ?i]" w] by (simp add: e_def)
  have cur: "cy_op_cursor e = ?i"
    using effects_cursor [of c w "[ApOpReached ?i]"] by (simp add: e_def same_cursor_def)
  show "sendable D m (Suc n) e b'"
  proof (cases "all_reached_op e")
    case True
    then show ?thesis using ph' by (simp add: sendable_def progress_def)
  next
    case False
    obtain k ctrl where seek: "op_seek (cy_slaves e) (cy_op_cursor e) (cy_op_ctrl_phase e) = (k, ctrl)" by fastforce
    note f = op_seek_finds [OF seek, unfolded cur]
    have here: "rt_reached_op (cy_slaves e ! ?i)" "?i < length (cy_slaves e)" using sl p(1) by simp_all
    have before: "rt_reached_op (cy_slaves e ! i)" if "i < k" for i
      using f(2) [of i] p(2) that here(1) sl by (cases "i < ?i") auto
    have "k \<noteq> ?i" using f(3) here by auto
    then have k: "?i < k" "ctrl" using f(1,4) by auto
    have "k < length (cy_slaves e)"
    proof (rule ccontr)
      assume "\<not> k < length (cy_slaves e)"
      then have "all_reached_op e" using before by (simp add: all_reached_op_def list_all_length)
      then show False using False by simp
    qed
    then have kl: "k < length (cy_slaves c)" using sl by simp
    have "2 * (D + 1) * (length (cy_slaves c) - 1 - k) + 2 + 2 * (D - polls b' (rt_station (cy_slaves e ! k))) \<le>
        2 * (D + 1) * (length (cy_slaves c) - k)" by (rule slot_bound [OF kl])
    also have "\<dots> \<le> 2 * (D + 1) * (length (cy_slaves c) - 1 - ?i)" using k(1) by (intro mult_le_mono2) simp
    finally have left: "2 * (D + 1) * (length (cy_slaves c) - 1 - k) + 2 + 2 * (D - polls b' (rt_station (cy_slaves e ! k))) \<le>
        2 * (D + 1) * (length (cy_slaves c) - 1 - ?i)" .
    have "2 * (D + 1) * (length (cy_slaves c) - 1 - ?i) + 1 \<le> cycles_left D c b" by (simp only: cycles_left_def) simp
    with left have "Suc n + (2 * (D + 1) * (length (cy_slaves c) - 1 - k) + 2 + 2 * (D - polls b' (rt_station (cy_slaves e ! k)))) \<le>
        n + cycles_left D c b" by linarith
    then have "Suc n + (2 * (D + 1) * (length (cy_slaves e) - 1 - k) + (if ctrl then 2 else 1) +
        2 * (D - polls b' (rt_station (cy_slaves e ! k)))) \<le> 4 + 2 * (D + 1) * m"
      using p(3) sl k(2) by simp
    then show ?thesis
      by (rule sendableI [OF _ seek, rotated 4]) (use ph' False before kl sl k(2) in simp_all)
  qed
qed

text \<open>It has not yet: it is asked again.\<close>

lemma waiting_collected:
  fixes w :: u16
  assumes ph: "cy_phase c = RequestingOp" and pr: "progress D m n c b" and ctrl: "cy_op_ctrl_phase c"
    and b: "bs_asked b (cursor_station c) = Some k" "k < D" "bs_asked b' (cursor_station c) = Some (Suc k)"
  defines "e \<equiv> process_effects w [ApNone] c"
  shows "sendable D m (Suc n) e b'" "cy_slaves e = cy_slaves c"
proof -
  have p: "cy_op_cursor c < length (cy_slaves c)" "\<not> rt_reached_op (cy_slaves c ! cy_op_cursor c)"
      "\<forall>i < cy_op_cursor c. rt_reached_op (cy_slaves c ! i)" "n + cycles_left D c b \<le> 4 + 2 * (D + 1) * m"
    using pr ph by (auto simp: progress_def)
  show sl: "cy_slaves e = cy_slaves c"
    by (simp add: e_def process_effects_def Let_def apply_action_def)
  have "\<not> all_reached_op e" using p(1,2) sl by (auto simp: all_reached_op_def list_all_length)
  then have ph': "cy_phase e = RequestingOp" using effects_requesting [OF ph, of "[ApNone]" w] by (simp add: e_def)
  have cur: "cy_op_cursor e = cy_op_cursor c" "cy_op_ctrl_phase e"
    using effects_cursor [of c w "[ApNone]"] ctrl by (simp_all add: e_def same_cursor_def)
  have seek: "op_seek (cy_slaves e) (cy_op_cursor e) (cy_op_ctrl_phase e) = (cy_op_cursor c, True)"
    using cur sl p(2) by (subst op_seek.simps) simp
  have q: "polls b' (cursor_station c) = Suc k" using b by (simp add: polls_def)
  have "cycles_left D c b = 2 * (D + 1) * (length (cy_slaves c) - 1 - cy_op_cursor c) + 1 + 2 * (D - k)"
    using ctrl b(1) by (simp add: cycles_left_def)
  then have "Suc n + (2 * (D + 1) * (length (cy_slaves c) - 1 - cy_op_cursor c) + 2 + 2 * (D - polls b' (cursor_station c))) \<le> 4 + 2 * (D + 1) * m"
    using p(4) b(2) unfolding q by linarith
  then have "Suc n + (2 * (D + 1) * (length (cy_slaves e) - 1 - cy_op_cursor c) + (if True then 2 else 1) +
      2 * (D - polls b' (rt_station (cy_slaves e ! cy_op_cursor c)))) \<le> 4 + 2 * (D + 1) * m"
    unfolding sl cursor_station_def by (simp only: if_True)
  then show "sendable D m (Suc n) e b'"
    by (rule sendableI [OF ph' seek, rotated 3]) (use p(1,3) sl in simp_all)
qed

text \<open>Monitoring.\<close>

lemma quiet_fold:
  assumes "\<forall>x \<in> set as. x \<noteq> ApFault \<and> (\<forall>i. x \<noteq> ApOpReached i)" "cy_phase c = Operational"
  shows "cy_phase (process_effects w as c) = Operational" "cy_slaves (process_effects w as c) = cy_slaves c"
proof -
  have one: "cy_slaves (apply_action c x) = cy_slaves c" if "x \<noteq> ApFault" "\<forall>i. x \<noteq> ApOpReached i" for c x
    using that by (cases x) (simp_all add: apply_action_def Let_def)
  have "cy_slaves (foldl apply_action c as) = cy_slaves c" for c
    using assms(1) by (induction as arbitrary: c) (simp_all add: one)
  then show "cy_slaves (process_effects w as c) = cy_slaves c" by (simp add: process_effects_def Let_def)
  have "ApFault \<notin> set as" using assms(1) by blast
  then show "cy_phase (process_effects w as c) = Operational"
    using assms(2) by (simp add: process_effects_def Let_def foldl_action_phase)
qed

lemma monitor_quiet:
  assumes "all_answered D b (map fst ts) as b'"
    and "\<forall>(q, k) \<in> set ts. k = AppAlPoll \<and> is_status q \<and> (\<exists>s \<in> S. dg_adp q = rt_station s) \<or>
      (k = AppDcArmw \<or> k = AppDcDiff) \<and> \<not> is_status q \<and> \<not> is_control q"
    and "\<forall>s \<in> S. rt_station s \<in> bs_up b"
  shows "\<forall>x \<in> set (map2 (\<lambda>k e. the (decode_appended k (reply_of e))) (map snd ts) as). x \<noteq> ApFault \<and> (\<forall>i. x \<noteq> ApOpReached i)"
  using assms
proof (induction ts arbitrary: b as)
  case (Cons t ts)
  obtain q k where t: "t = (q, k)" by fastforce
  obtain a rest b1 where a: "as = a # rest" "answered D b q a b1" "all_answered D b1 (map fst ts) rest b'"
    using Cons.prems(1) t by auto
  have "\<forall>s \<in> S. rt_station s \<in> bs_up b1" using Cons.prems(3) answered_shape(4) [OF a(2)] by blast
  then have ih: "\<forall>x \<in> set (map2 (\<lambda>k e. the (decode_appended k (reply_of e))) (map snd ts) rest). x \<noteq> ApFault \<and> (\<forall>i. x \<noteq> ApOpReached i)"
    using Cons.IH [OF a(3)] Cons.prems(2) by simp
  consider "k = AppAlPoll" "is_status q" "dg_adp q \<in> bs_up b" | "k = AppDcArmw \<or> k = AppDcDiff"
    using Cons.prems(2,3) t by auto
  then have "the (decode_appended k (reply_of a)) \<noteq> ApFault \<and> (\<forall>i. the (decode_appended k (reply_of a)) \<noteq> ApOpReached i)"
  proof cases
    case 1
    then have "\<not> is_control q" by (auto simp: is_status_def is_control_def)
    then have "get_or 0 (dg_data a) 0 AND al_ERROR = 0" "status_up (dg_data a)"
      using a(2) 1(2,3) by (auto simp: answered_def)
    then show ?thesis using 1(1) by (simp add: decode_appended_def reply_of_def Let_def status_up_def)
  next
    case 2
    obtain x where "decode_appended k (reply_of a) = Some x" using decode_appended_total by blast
    then show ?thesis using 2 decode_fault [of k "reply_of a"] decode_op_reached [of k "reply_of a"] by auto
  qed
  then show ?case using ih t a(1) by auto
qed simp


section \<open>A healthy run\<close>

lemma progress_cong:
  assumes "same_cursor c a" "cy_phase a = cy_phase c" "cy_slaves a = cy_slaves c" "cy_good_cycles a = cy_good_cycles c"
  shows "progress D m n a b = progress D m n c b" "tail_ok a b ts = tail_ok c b ts" "cursor_station a = cursor_station c"
proof -
  show st: "cursor_station a = cursor_station c" using assms by (simp add: cursor_station_def same_cursor_def)
  have "cycles_left D a b = cycles_left D c b" unfolding cycles_left_def st using assms by (simp add: same_cursor_def)
  then show "progress D m n a b = progress D m n c b"
    using assms by (cases "cy_phase c") (simp_all add: progress_def same_cursor_def)
  show "tail_ok a b ts = tail_ok c b ts"
    using assms st by (cases "cy_phase c") (simp_all add: tail_ok_def same_cursor_def)
qed

lemma sendable_out: "sendable D m n (c\<lparr>cy_outstanding := v\<rparr>) b = sendable D m n c b"
proof -
  have "progress D m n (c\<lparr>cy_outstanding := v\<rparr>) b = progress D m n c b"
    by (rule progress_cong(1)) (simp_all add: same_cursor_def)
  then show ?thesis by (simp add: sendable_def)
qed

lemma request_answered:
  assumes "all_answered D b [request ix cmd st ado pl] as b'"
  obtains w dat where "as = [(request ix cmd st ado pl)\<lparr>dg_data := dat, dg_wkc := w\<rparr>]" "w \<noteq> 0"
    "answered D b (request ix cmd st ado pl) ((request ix cmd st ado pl)\<lparr>dg_data := dat, dg_wkc := w\<rparr>) b'"
  using assms by (auto simp: answered_def)

lemma collected_step:
  assumes ph: "tail_ok c b ts" and pr: "progress D m n c b" and up: "up_known c b" and len: "length (cy_slaves c) \<le> m"
    and ans: "all_answered D b (map fst ts) as b'" and w: "w \<noteq> 0"
    and op: "cy_phase c = Operational \<Longrightarrow> all_reached_op c"
  defines "e \<equiv> process_effects w (map2 (\<lambda>k e. the (decode_appended k (reply_of e))) (map snd ts) as) c"
  shows "sendable D m (Suc n) e b' \<and> up_known e b' \<and> length (cy_slaves e) \<le> m"
proof -
  have l: "length (cy_slaves e) \<le> m" using len by (simp add: e_def)
  have mono: "bs_up b \<subseteq> bs_up b'" by (rule all_answered_shape(3) [OF ans])
  have same: "up_known e b'" if "cy_slaves e = cy_slaves c" using that up mono by (auto simp: up_known_def)
  consider "cy_phase c = Priming" | "cy_phase c = Operational" | "cy_phase c = RequestingOp" "cy_op_ctrl_phase c"
    | "cy_phase c = RequestingOp" "\<not> cy_op_ctrl_phase c" | "cy_phase c = Faulted" by (cases "cy_phase c") auto
  then show ?thesis
  proof cases
    case 1
    then have "ts = []" using ph by (simp add: tail_ok_def)
    then have "as = []" "b' = b" "e = process_effects w [] c" using ans by (simp_all add: e_def)
    then show ?thesis using priming_collected [OF 1 pr len w] same l by simp
  next
    case 2
    have k: "\<forall>(q, k) \<in> set ts. k = AppAlPoll \<and> is_status q \<and> (\<exists>s \<in> set (cy_slaves c). dg_adp q = rt_station s) \<or>
        (k = AppDcArmw \<or> k = AppDcDiff) \<and> \<not> is_status q \<and> \<not> is_control q"
      using ph 2 by (simp add: tail_ok_def)
    have "\<forall>s \<in> set (cy_slaves c). rt_station s \<in> bs_up b"
      using up op [OF 2] by (simp add: up_known_def all_reached_op_def list_all_iff)
    from quiet_fold [OF monitor_quiet [OF ans k this] 2, of w]
    have "cy_phase e = Operational" "cy_slaves e = cy_slaves c" by (simp_all only: e_def)
    then show ?thesis using same l by (simp add: sendable_def progress_def)
  next
    case 3
    let ?i = "cy_op_cursor c" and ?st = "cursor_station c"
    obtain ix k where ts: "ts = [(request ix Fprd ?st reg_AL_STATUS [0, 0], AppStatus ?i)]" and k: "bs_asked b ?st = Some k"
      using ph 3 by (auto simp: tail_ok_def)
    let ?q = "request ix Fprd ?st reg_AL_STATUS [0, 0]"
    have ans': "all_answered D b [?q] as b'" using ans ts by simp
    obtain w' dat where a: "as = [?q\<lparr>dg_data := dat, dg_wkc := w'\<rparr>]" "w' \<noteq> 0" "answered D b ?q (?q\<lparr>dg_data := dat, dg_wkc := w'\<rparr>) b'"
      by (rule request_answered [OF ans'])
    have q: "\<not> is_control ?q" "is_status ?q" by (simp_all add: request_kinds)
    have qa: "dg_adp ?q = ?st" by (simp add: request_def)
    have s: "get_or 0 dat 0 AND al_ERROR = 0" "D \<le> k \<longrightarrow> status_up dat"
        "bs_asked b' ?st = Some (Suc k)" "status_up dat \<longrightarrow> ?st \<in> bs_up b'"
      using a(3) q qa k by (auto simp: answered_def)
    have d: "the (decode_appended (AppStatus ?i) (reply_of (?q\<lparr>dg_data := dat, dg_wkc := w'\<rparr>))) = (if status_up dat then ApOpReached ?i else ApNone)"
      using s(1) a(2) by (simp add: decode_appended_def reply_of_def Let_def status_up_def)
    then have e: "e = process_effects w [if status_up dat then ApOpReached ?i else ApNone] c"
      unfolding e_def ts a(1) by (simp add: d del: if_split)
    show ?thesis
    proof (cases "status_up dat")
      case True
      note r = reached_collected [OF 3(1) pr, where w = w, folded e [unfolded if_P [OF True]]]
      have "?i < length (cy_slaves c)" using pr 3(1) by (simp add: progress_def)
      then have "up_known e b'"
        using r(2) up mono s(4) True set_update_subset_insert [of "cy_slaves c" ?i]
        by (fastforce simp: up_known_def cursor_station_def)
      then show ?thesis using r(1) l by simp
    next
      case False
      then have "k < D" using s(2) by auto
      from waiting_collected [OF 3(1) pr 3(2) k this s(3), where w = w] show ?thesis
        using e False same l by simp
    qed
  next
    case 4
    let ?i = "cy_op_cursor c" and ?st = "cursor_station c"
    obtain ix where ts: "ts = [(request ix Fpwr ?st reg_AL_CONTROL [al_OP, 0], AppControl)]"
      using ph 4 by (auto simp: tail_ok_def)
    let ?q = "request ix Fpwr ?st reg_AL_CONTROL [al_OP, 0]"
    have ans': "all_answered D b [?q] as b'" using ans ts by simp
    obtain w' dat where a: "as = [?q\<lparr>dg_data := dat, dg_wkc := w'\<rparr>]" "w' \<noteq> 0" "answered D b ?q (?q\<lparr>dg_data := dat, dg_wkc := w'\<rparr>) b'"
      by (rule request_answered [OF ans'])
    have q: "is_control ?q" by (simp add: request_kinds)
    have qa: "dg_adp ?q = ?st" "dg_data ?q = [al_OP, 0]" by (simp_all add: request_def)
    have b': "bs_asked b' ?st \<noteq> None" "polls b' ?st = polls b ?st"
      using a(3) q qa by (auto simp: answered_def polls_def)
    have e: "e = process_effects w [ApNone] c" by (simp add: e_def ts a(1) decode_appended_def)
    from control_collected [OF 4(1) pr 4(2) b', where w = w] show ?thesis using e same l by simp
  next
    case 5
    then show ?thesis using pr by (simp add: progress_def)
  qed
qed

lemma release_ready: "ready_device d \<Longrightarrow> \<not> tx_owned_by_dma (rx_release (dev_enet d))"
  by (simp add: ready_device_def tx_owned_by_dma_def rx_release_def)

text \<open>A tick under way keeps under way.\<close>

lemma under_way_step:
  assumes u: "under_way D m n c d h b" and bus: "bus_cycle D b d d1 b'"
    and tick: "tick_with_host LAYOUT lat c d1 ix h = Some (c', d', ix', h')"
  shows "under_way D m (Suc n) c' d' h' b'"
proof -
  obtain ts as w a where t: "tail_ok c b ts" "all_answered D b (map fst ts) as b'" "w \<noteq> 0"
      "cyclic_collect lat c d1 = Some ((process_effects w (map2 (\<lambda>k e. the (decode_appended k (reply_of e))) (map snd ts) as) a)
        \<lparr>cy_outstanding := False\<rparr>, d1\<lparr>dev_enet := rx_release (dev_enet d1)\<rparr>)"
      "same_cursor c a" "cy_phase a = cy_phase c" "cy_slaves a = cy_slaves c" "cy_good_cycles a = cy_good_cycles c"
    by (rule under_way_collect [OF u bus])
  let ?e = "process_effects w (map2 (\<lambda>k e. the (decode_appended k (reply_of e))) (map snd ts) as) a"
  have u': "bridge_inv c h" "up_known c b" "length (cy_slaves c) \<le> m" "progress D m n c b"
    using u by (simp_all add: under_way_def)
  note cong = progress_cong [OF t(5-8)]
  have op: "cy_phase a = Operational \<Longrightarrow> all_reached_op a"
    using u'(1) t(6,7) by (simp add: bridge_inv_def cyclic_inv_def all_reached_op_def)
  have up: "up_known a b" using u'(2) t(7) by (simp add: up_known_def)
  have len: "length (cy_slaves a) \<le> m" using u'(3) t(7) by simp
  have s: "sendable D m (Suc n) ?e b' \<and> up_known ?e b' \<and> length (cy_slaves ?e) \<le> m"
    by (rule collected_step [OF _ _ up len t(2,3) op]) (use t(1) u'(4) cong in simp_all)
  have dev: "ready_device d1" using bus by (simp add: bus_cycle_def)
  show ?thesis
  proof (rule sends_under_way [OF u'(1) _ t(4) _ tick])
    show "dev_wf d1" using dev by (simp add: ready_device_def)
    show "\<not> tx_owned_by_dma (dev_enet (d1\<lparr>dev_enet := rx_release (dev_enet d1)\<rparr>))" using release_ready [OF dev] by simp
    show "length (cy_slaves (?e\<lparr>cy_outstanding := False\<rparr>)) \<le> m" using s by simp
    show "up_known (?e\<lparr>cy_outstanding := False\<rparr>) b'" using s by (simp add: up_known_def)
    show "sendable D m (Suc n) (?e\<lparr>cy_outstanding := False\<rparr>) b'" using s by (simp only: sendable_out)
  qed
qed

text \<open>Before the first tick.\<close>

definition fresh :: "nat \<Rightarrow> cyclic \<Rightarrow> device \<Rightarrow> host_bridge \<Rightarrow> bus_state \<Rightarrow> bool" where
  "fresh m c d h b \<longleftrightarrow> bridge_inv c h \<and> ready_device d \<and> \<not> cy_outstanding c \<and> cy_phase c = Priming \<and>
     cy_good_cycles c = 0 \<and> cy_op_cursor c = 0 \<and> cy_op_ctrl_phase c \<and> length (cy_slaves c) \<le> m \<and>
     (\<forall>s \<in> set (cy_slaves c). \<not> rt_reached_op s) \<and> b = quiet_bus"

lemma slave_rts_fresh:
  "length (slave_rts slaves) \<le> length slaves" "\<forall>s \<in> set (slave_rts slaves). \<not> rt_reached_op s"
proof -
  have "length (foldl (\<lambda>rt s. push_drop EC_MAX_SLAVES rt
      \<lparr>rt_station = cs_station s, rt_ring_pos = cs_ring_pos s, rt_reached_op = False\<rparr>) acc slaves) \<le> length acc + length slaves \<and>
    ((\<forall>s \<in> set acc. \<not> rt_reached_op s) \<longrightarrow> (\<forall>s \<in> set (foldl (\<lambda>rt s. push_drop EC_MAX_SLAVES rt
      \<lparr>rt_station = cs_station s, rt_ring_pos = cs_ring_pos s, rt_reached_op = False\<rparr>) acc slaves). \<not> rt_reached_op s))" for acc
  proof (induction slaves arbitrary: acc)
    case (Cons s ss)
    let ?r = "\<lparr>rt_station = cs_station s, rt_ring_pos = cs_ring_pos s, rt_reached_op = False\<rparr>"
    have "length (push_drop EC_MAX_SLAVES acc ?r) \<le> Suc (length acc)" "set (push_drop EC_MAX_SLAVES acc ?r) \<subseteq> insert ?r (set acc)"
      by (auto simp: push_drop_def vec_push_def)
    then show ?case using Cons.IH [of "push_drop EC_MAX_SLAVES acc ?r"] by (auto dest: subsetD)
  qed simp
  from this [of "[]"] show "length (slave_rts slaves) \<le> length slaves" "\<forall>s \<in> set (slave_rts slaves). \<not> rt_reached_op s"
    by (simp_all add: slave_rts_def)
qed

lemma fresh_start: "ready_device d \<Longrightarrow> fresh (length slaves) (cyclic_new slaves pos ns) d (host_new LAYOUT) quiet_bus"
  using bridge_start slave_rts_fresh [of slaves] by (simp add: fresh_def cyclic_new_def)

lemma first_tick:
  assumes f: "fresh m c d h b" and tick: "tick_with_host LAYOUT lat c d ix h = Some (c', d', ix', h')"
  shows "under_way D m 1 c' d' h' b"
proof (rule sends_under_way [OF _ _ _ _ tick])
  show "bridge_inv c h" "dev_wf d" "\<not> tx_owned_by_dma (dev_enet d)" using f by (simp_all add: fresh_def ready_device_def)
  show "cyclic_collect lat c d = Some (begin_tick lat c, d)"
    using f by (simp add: cyclic_collect_def fresh_def)
  have same: "cy_slaves (begin_tick lat c) = cy_slaves c" "cy_phase (begin_tick lat c) = cy_phase c"
      "cy_good_cycles (begin_tick lat c) = cy_good_cycles c" "cy_op_cursor (begin_tick lat c) = cy_op_cursor c"
      "cy_op_ctrl_phase (begin_tick lat c) = cy_op_ctrl_phase c"
    by (simp_all add: begin_tick_def record_latency_def Let_def)
  show "length (cy_slaves (begin_tick lat c)) \<le> m" "up_known (begin_tick lat c) b"
    using f same by (auto simp: fresh_def up_known_def)
  show "sendable D m 1 (begin_tick lat c) b"
    using f same by (simp add: fresh_def sendable_def progress_def)
qed

lemma healthy_run_inv:
  "healthy_run D slaves n c d h b \<Longrightarrow>
     if n = 0 then fresh (length slaves) c d h b else under_way D (length slaves) n c d h b"
proof (induction rule: healthy_run.induct)
  case (start d pos ns)
  then show ?case by (simp add: fresh_start)
next
  case (frame n c d h b f h')
  then show ?case using bridge_frame [OF _ frame.hyps(2)] by (auto simp: fresh_def under_way_def split: if_splits)
next
  case (first c d h b lat ix c' d' ix' h')
  then show ?case using first_tick by simp
next
  case (tick n c d h b d1 b' lat ix c' d' ix' h')
  then show ?case using under_way_step by simp
qed

text \<open>The bound.\<close>

lemma operational_reached:
  assumes "healthy_run D slaves n c d h b" "4 + 2 * (D + 1) * length slaves \<le> n"
  shows "cy_phase c = Operational"
proof -
  have u: "under_way D (length slaves) n c d h b" using healthy_run_inv [OF assms(1)] assms(2) by (simp split: if_splits)
  then have p: "progress D (length slaves) n c b" by (simp add: under_way_def)
  have "0 < cycles_left D c b" by (simp add: cycles_left_def)
  then show ?thesis using p assms(2) by (cases "cy_phase c") (simp_all add: progress_def)
qed

text \<open>A healthy run is a run, over the slaves it started with.\<close>

lemma healthy_run_ready:
  assumes "healthy_run D slaves n c d h b"
  shows "bridge_inv c h" "n = 0 \<Longrightarrow> dev_wf d"
  using healthy_run_inv [OF assms] by (auto simp: fresh_def under_way_def ready_device_def split: if_splits)

lemma healthy_bridge_run: "healthy_run D slaves n c d h b \<Longrightarrow> bridge_run c h"
proof (induction rule: healthy_run.induct)
  case (first c d h b lat ix c' d' ix' h')
  then show ?case using bridge_run.tick healthy_run_ready(2) by blast
next
  case (tick n c d h b d1 b' lat ix c' d' ix' h')
  then show ?case using bridge_run.tick by (auto simp: bus_cycle_def ready_device_def)
qed (auto intro: bridge_run.intros)

lemma healthy_slaves: "healthy_run D slaves n c d h b \<Longrightarrow> length (cy_slaves c) = length (slave_rts slaves)"
proof (induction rule: healthy_run.induct)
  case (first c d h b lat ix c' d' ix' h')
  then show ?case using tick_slaves healthy_run_ready by metis
next
  case (tick n c d h b d1 b' lat ix c' d' ix' h')
  have "dev_wf d1" using tick.hyps(2) by (simp add: bus_cycle_def ready_device_def)
  then show ?case using tick_slaves [OF healthy_run_ready(1) [OF tick.hyps(1)] _ tick.hyps(3)] tick.IH by simp
qed (simp_all add: cyclic_new_def)

section \<open>Runs exist\<close>

definition good_answer :: "dgram \<Rightarrow> dgram" where
  "good_answer q = q\<lparr>dg_data := (if is_status q then al_OP # tl (dg_data q) else dg_data q), dg_wkc := 1\<rparr>"

lemma good_answer_ok:
  assumes "is_status q \<longrightarrow> dg_data q \<noteq> []"
  shows "\<exists>b'. answered D b q (good_answer q) b'"
proof -
  let ?dat = "if is_status q then al_OP # tl (dg_data q) else dg_data q"
  have op: "get_or 0 (al_OP # xs) 0 AND al_ERROR = 0" "status_up (al_OP # xs)" for xs
    by (simp_all add: status_up_def get_or_def al_OP_def al_ERROR_def al_MASK_def)
  have "length ?dat = length (dg_data q)" using assms by (cases "dg_data q") auto
  then have shape: "\<exists>w dat. good_answer q = q\<lparr>dg_data := dat, dg_wkc := w\<rparr> \<and> w \<noteq> 0 \<and> length dat = length (dg_data q)"
    by (intro exI [of _ 1] exI [of _ ?dat]) (simp add: good_answer_def)
  have dq: "is_status q \<Longrightarrow> dg_data (good_answer q) = al_OP # tl (dg_data q)" by (simp add: good_answer_def)
  have data: "is_status q \<Longrightarrow> get_or 0 (dg_data (good_answer q)) 0 AND al_ERROR = 0" "is_status q \<Longrightarrow> status_up (dg_data (good_answer q))"
    by (simp_all only: dq op)
  show ?thesis
  proof (cases "is_control q")
    case True
    then show ?thesis unfolding answered_def if_P [OF True] using shape by blast
  next
    case False
    show ?thesis
    proof (cases "is_status q")
      case True
      then show ?thesis unfolding answered_def if_not_P [OF False] if_P [OF True] using shape data [OF True] by blast
    next
      case False
      then show ?thesis unfolding answered_def if_not_P [OF \<open>\<not> is_control q\<close>] if_not_P [OF False] using shape by blast
    qed
  qed
qed

lemma good_answers:
  "\<forall>q \<in> set qs. is_status q \<longrightarrow> dg_data q \<noteq> [] \<Longrightarrow> \<exists>b'. all_answered D b qs (map good_answer qs) b'"
proof (induction qs arbitrary: b)
  case (Cons q qs)
  have "is_status q \<longrightarrow> dg_data q \<noteq> []" using Cons.prems by simp
  from good_answer_ok [OF this] obtain b1 where "answered D b q (good_answer q) b1" by blast
  moreover obtain b' where "all_answered D b1 qs (map good_answer qs) b'" using Cons by auto
  ultimately have "all_answered D b (q # qs) (map good_answer (q # qs)) b'" by auto
  then show ?case by blast
qed (intro exI, simp)

text \<open>The frame arrives: its receive descriptor is given to the driver, and every transmit descriptor is free.\<close>

definition deliver :: "bytes \<Rightarrow> enet \<Rightarrow> enet" where
  "deliver f e =
     e\<lparr>rx_bufs := (rx_bufs e)[rx_pos e := f @ drop (length f) (rx_bufs e ! rx_pos e)],
       rx_desc := (rx_desc e)[rx_pos e := \<lparr>ds_len = of_nat (length f), ds_flags = 0\<rparr>],
       tx_desc := map (\<lambda>t. t\<lparr>ds_flags := 0\<rparr>) (tx_desc e)\<rparr>"

lemma deliver_received:
  assumes "enet_wf e" "length f \<le> ECAT_MTU"
  shows "enet_wf (deliver f e)" "received (deliver f e) = f" "\<not> rx_owned_by_dma (deliver f e)" "\<not> tx_owned_by_dma (deliver f e)"
proof -
  let ?b = "f @ drop (length f) (rx_bufs e ! rx_pos e)"
  have fields: "rx_bufs (deliver f e) = (rx_bufs e)[rx_pos e := ?b]" "rx_pos (deliver f e) = rx_pos e"
      "rx_desc (deliver f e) = (rx_desc e)[rx_pos e := \<lparr>ds_len = of_nat (length f), ds_flags = 0\<rparr>]"
      "tx_desc (deliver f e) = map (\<lambda>t. t\<lparr>ds_flags := 0\<rparr>) (tx_desc e)" "tx_bufs (deliver f e) = tx_bufs e"
      "tx_pos (deliver f e) = tx_pos e"
    by (simp_all add: deliver_def)
  have p: "rx_pos e < length (rx_desc e)" "rx_pos e < length (rx_bufs e)" "tx_pos e < length (tx_desc e)"
    and bufs: "\<forall>b \<in> set (rx_bufs e). length b = ECAT_MTU"
    using assms(1) by (auto simp: enet_wf_def)
  have "length (rx_bufs e ! rx_pos e) = ECAT_MTU" using bspec [OF bufs nth_mem [OF p(2)]] .
  then have l: "length ?b = ECAT_MTU" using assms(2) by simp
  show "enet_wf (deliver f e)"
    unfolding enet_wf_def fields length_list_update length_map using assms(1) [unfolded enet_wf_def] all_set_update [OF bufs l]
    by blast
  have "unat (of_nat (length f) :: u16) = length f" using assms(2) by (simp add: unat_of_nat_16)
  then show "received (deliver f e) = f" using p by (simp add: received_def fields)
  show "\<not> rx_owned_by_dma (deliver f e)" "\<not> tx_owned_by_dma (deliver f e)"
    using p by (simp_all add: rx_owned_by_dma_def tx_owned_by_dma_def fields)
qed

lemma bus_answers:
  assumes u: "under_way D m n c d h b"
  obtains d1 b' where "bus_cycle D b d d1 b'"
proof -
  obtain hdr qs pad where q: "last_sent (dev_enet d) = hdr @ frame_bytes qs @ pad" "length hdr = 14"
      "length (frame_bytes qs) \<le> 576" "qs \<noteq> []" "\<forall>q \<in> set qs. is_status q \<longrightarrow> dg_data q \<noteq> []"
    using u unfolding under_way_def by blast
  obtain b' where a: "all_answered D b qs (map good_answer qs) b'" using good_answers [OF q(5)] by blast
  let ?f = "hdr @ frame_bytes (map good_answer qs) @ []"
  have wf: "dev_wf d" using u by (simp add: under_way_def)
  have "length (frame_bytes (map good_answer qs)) = length (frame_bytes qs)"
    using all_answered_shape(2) [OF a] by simp
  then have l: "length ?f \<le> ECAT_MTU" using q(2,3) by simp
  have e: "enet_wf (dev_enet d)" using wf by (simp add: dev_wf_def)
  note r = deliver_received [OF e l]
  let ?d = "d\<lparr>dev_enet := deliver ?f (dev_enet d)\<rparr>"
  have ok: "frame_ok qs" using q(3,4) by (simp add: frame_ok_def)
  have "ready_device ?d" using wf r by (simp add: ready_device_def dev_wf_def)
  moreover have "\<not> rx_owned_by_dma (dev_enet ?d)" "received (dev_enet ?d) = ?f" using r by simp_all
  ultimately have "bus_cycle D b d ?d b'" unfolding bus_cycle_def using q(1,2) ok a by blast
  then show thesis by (rule that)
qed

lemma tick_exists:
  assumes "bridge_inv c h" "dev_wf d"
  shows "\<exists>c' d' ix' h'. tick_with_host LAYOUT lat c d ix h = Some (c', d', ix', h')"
  using bridge_tick [OF assms, of lat ix] by metis

lemma healthy_run_extends:
  assumes "healthy_run D slaves n c d h b"
  shows "\<exists>c' d' h' b'. healthy_run D slaves (Suc n) c' d' h' b'"
proof (cases n)
  case 0
  then have f: "fresh (length slaves) c d h b" using healthy_run_inv [OF assms] by simp
  then have "bridge_inv c h" "dev_wf d" by (simp_all add: fresh_def ready_device_def)
  then obtain c' d' ix' h' where t: "tick_with_host LAYOUT 0 c d 0 h = Some (c', d', ix', h')" using tick_exists by blast
  have "healthy_run D slaves 1 c' d' h' b" by (rule healthy_run.first [OF assms [unfolded 0] t])
  then show ?thesis using 0 by auto
next
  case (Suc k)
  then have u: "under_way D (length slaves) n c d h b" using healthy_run_inv [OF assms] by simp
  obtain d1 b' where bus: "bus_cycle D b d d1 b'" by (rule bus_answers [OF u])
  have "bridge_inv c h" "dev_wf d1" using u bus by (simp_all add: under_way_def bus_cycle_def ready_device_def)
  then obtain c' d' ix' h' where t: "tick_with_host LAYOUT 0 c d1 0 h = Some (c', d', ix', h')" using tick_exists by blast
  show ?thesis using healthy_run.tick [OF assms [unfolded Suc] bus t] Suc by blast
qed

definition powered_device :: device where
  "powered_device = device_new (enet_new RxDT_default TxDT_default) (replicate 6 0)"

lemma healthy_run_exists: "\<exists>c d h b. healthy_run D slaves n c d h b"
proof (induction n)
  case 0
  have "\<not> tx_owned_by_dma (enet_new RxDT_default TxDT_default)"
    by (simp add: tx_owned_by_dma_def enet_new_def enable_dma_def reset_descriptor_tables_def RxDT_default_def TxDT_default_def Let_def)
  then have "ready_device powered_device"
    using enet_new_wf by (simp add: ready_device_def powered_device_def dev_wf_def device_new_def)
  then show ?case using healthy_run.start by blast
next
  case (Suc n)
  then show ?case using healthy_run_extends by blast
qed

end
