(* ===== verification/Phy.thy ===== *)
theory Phy
  imports Enet Text
begin

text \<open>
  The Ethernet PHY behind the MAC: the start-up diagnostics of \<^verbatim>\<open>src/src/net/boot_diag.rs\<close>, the management
  port of \<^verbatim>\<open>src/src/net/enet_driver.rs\<close> (\<^verbatim>\<open>mdio_read\<close>, \<^verbatim>\<open>mdio_write\<close>) and the set-up of
  \<^verbatim>\<open>src/src/net/ethernet.rs\<close>. The PHY is a parameter, a function from its state and one management frame
  to its next state and the data it returns; the bits the driver polls are functions of the number of the
  read. What the set-up writes to clock and pad registers is the list of the writes.
\<close>

unbundle bit_operations_syntax

section \<open>Start-up diagnostics\<close>

definition FLAG_PLL_TIMEOUT :: u32 where "FLAG_PLL_TIMEOUT = 1"
definition FLAG_MDIO_WRITE_TIMEOUT :: u32 where "FLAG_MDIO_WRITE_TIMEOUT = 2"
definition FLAG_MDIO_READ_TIMEOUT :: u32 where "FLAG_MDIO_READ_TIMEOUT = 4"
definition FLAG_ADC_INIT_TIMEOUT :: u32 where "FLAG_ADC_INIT_TIMEOUT = 8"
definition FLAG_ADC_READ_TIMEOUT :: u32 where "FLAG_ADC_READ_TIMEOUT = 16"

definition ERR_PLL_TIMEOUT :: u8 where "ERR_PLL_TIMEOUT = 1"
definition ERR_MDIO_WRITE_TIMEOUT :: u8 where "ERR_MDIO_WRITE_TIMEOUT = 2"
definition ERR_MDIO_READ_TIMEOUT :: u8 where "ERR_MDIO_READ_TIMEOUT = 3"

text \<open>The two statics.\<close>

record boot_diag =
  boot_flags :: u32
  first_error :: u8

definition boot_diag_new :: boot_diag where "boot_diag_new = \<lparr>boot_flags = 0, first_error = 0\<rparr>"

definition diag_record :: "u32 \<Rightarrow> u8 \<Rightarrow> boot_diag \<Rightarrow> boot_diag \<times> bool" where
  "diag_record flag code d =
     (let previous = boot_flags d; d = d\<lparr>boot_flags := previous OR flag\<rparr>
      in if previous AND flag = 0
         then (if first_error d = 0 then d\<lparr>first_error := code\<rparr> else d, True)
         else (d, False))"

definition emit_logs :: "boot_diag \<Rightarrow> string list" where
  "emit_logs d =
     (let flags = boot_flags d
      in if flags = 0 then []
         else [concat ([''[boot] startup diagnostics flags=0x''] @ put_hex 8 (unat flags) @
                 ['', first_error=''] @ put_dec (unat (first_error d)))]
           @ (if flags AND FLAG_PLL_TIMEOUT \<noteq> 0 then [''[boot] timed out waiting for ENET PLL lock''] else [])
           @ (if flags AND FLAG_MDIO_WRITE_TIMEOUT \<noteq> 0 then [''[boot] timed out waiting for MDIO write completion''] else [])
           @ (if flags AND FLAG_MDIO_READ_TIMEOUT \<noteq> 0 then [''[boot] timed out waiting for MDIO read completion''] else [])
           @ (if flags AND FLAG_ADC_INIT_TIMEOUT \<noteq> 0 then [''[boot] timed out waiting for ADC2 calibration''] else [])
           @ (if flags AND FLAG_ADC_READ_TIMEOUT \<noteq> 0 then [''[boot] timed out waiting for ADC2 conversion''] else []))"

text \<open>The first error is the first one recorded, whatever follows; a timeout is logged once.\<close>

lemma record_keeps_first: "first_error d \<noteq> 0 \<Longrightarrow> first_error (fst (diag_record flag code d)) = first_error d"
  by (simp add: diag_record_def Let_def)

lemma first_error_sticks:
  "first_error d \<noteq> 0 \<Longrightarrow> first_error (foldl (\<lambda>d (f, c). fst (diag_record f c d)) d es) = first_error d"
proof (induction es arbitrary: d)
  case (Cons e es)
  then show ?case using record_keeps_first [of d] by (cases e) simp
qed simp

lemma first_error_first:
  assumes "c \<noteq> 0"
  shows "first_error (foldl (\<lambda>d (f, c). fst (diag_record f c d)) boot_diag_new ((f, c) # es)) = c"
proof -
  have e: "first_error (fst (diag_record f c boot_diag_new)) = c"
    by (simp add: diag_record_def boot_diag_new_def)
  then show ?thesis using first_error_sticks [of "fst (diag_record f c boot_diag_new)" es] assms by simp
qed

lemma record_once: "flag \<noteq> 0 \<Longrightarrow> snd (diag_record flag code (fst (diag_record flag code d))) = False"
  by (auto simp: diag_record_def Let_def bit.conj_disj_distrib2)

section \<open>The management port\<close>

text \<open>A write to MMFR, by its fields.\<close>

record mmfr =
  mm_ST :: u32
  mm_OP :: u32
  mm_TA :: u32
  mm_PA :: u32
  mm_RA :: u32
  mm_DATA :: u32

text \<open>The driver's side: the diagnostics, how often EIR has been read, and the PHY.\<close>

record 'p mdio_port =
  mp_diag :: boot_diag
  mp_reads :: nat
  mp_phy :: 'p

record 'p mdio_hw =
  hw_mii :: "nat \<Rightarrow> bool"
  hw_exec :: "'p \<Rightarrow> mmfr \<Rightarrow> 'p \<times> u32"

fun mii_wait :: "nat \<Rightarrow> nat \<Rightarrow> (nat \<Rightarrow> bool) \<Rightarrow> bool \<times> nat" where
  "mii_wait 0 k mii = (False, k)"
| "mii_wait (Suc n) k mii = (if mii k then (True, k + 1) else mii_wait n (k + 1) mii)"

definition mdio_wait :: "'p mdio_hw \<Rightarrow> u32 \<Rightarrow> u8 \<Rightarrow> 'p mdio_port \<Rightarrow> 'p mdio_port \<times> bool" where
  "mdio_wait hw flag code p =
     (let (ok, k) = mii_wait MDIO_TIMEOUT_LOOPS (mp_reads p) (hw_mii hw);
          p = p\<lparr>mp_reads := k\<rparr>
      in if ok then (p, True)
         else (p\<lparr>mp_diag := fst (diag_record flag code (mp_diag p))\<rparr>, False))"

definition mdio_write :: "'p mdio_hw \<Rightarrow> u8 \<Rightarrow> u8 \<Rightarrow> u16 \<Rightarrow> 'p mdio_port \<Rightarrow> 'p mdio_port \<times> bool" where
  "mdio_write hw phyaddr regaddr dat p =
     (let (phy, _) = hw_exec hw (mp_phy p)
            \<lparr>mm_ST = 1, mm_OP = 1, mm_TA = 0, mm_PA = ucast phyaddr, mm_RA = ucast regaddr, mm_DATA = ucast dat\<rparr>
      in mdio_wait hw FLAG_MDIO_WRITE_TIMEOUT ERR_MDIO_WRITE_TIMEOUT (p\<lparr>mp_phy := phy\<rparr>))"

definition mdio_read_reg :: "'p mdio_hw \<Rightarrow> u8 \<Rightarrow> u8 \<Rightarrow> 'p mdio_port \<Rightarrow> 'p mdio_port \<times> u16 option" where
  "mdio_read_reg hw phyaddr regaddr p =
     (let (phy, dat) = hw_exec hw (mp_phy p)
            \<lparr>mm_ST = 1, mm_OP = 2, mm_TA = 0, mm_PA = ucast phyaddr, mm_RA = ucast regaddr, mm_DATA = 0\<rparr>;
          (p, ok) = mdio_wait hw FLAG_MDIO_READ_TIMEOUT ERR_MDIO_READ_TIMEOUT (p\<lparr>mp_phy := phy\<rparr>)
      in (p, if \<not> ok then None else Some (ucast dat)))"

section \<open>The PHY registers\<close>

definition PHY_ADDR :: u8 where "PHY_ADDR = 0"
definition PHY_REG_BMSR :: u8 where "PHY_REG_BMSR = 1"
definition PHY_LINK_UP_MASK :: u16 where "PHY_LINK_UP_MASK = 4"

text \<open>The result is what is logged: RCSR, LEDCR and PHYCR, or that the set-up is incomplete.\<close>

definition setup_phy :: "'p mdio_hw \<Rightarrow> 'p mdio_port \<Rightarrow> 'p mdio_port \<times> (u16 \<times> u16 \<times> u16) option" where
  "setup_phy hw p =
     (let (p, ledcr_ok) = mdio_write hw PHY_ADDR 0x18 0x0280 p;
          (p, rcsr_ok) = mdio_write hw PHY_ADDR 0x17 0x0081 p;
          (p, rcsr) = mdio_read_reg hw PHY_ADDR 0x17 p;
          (p, ledcr) = mdio_read_reg hw PHY_ADDR 0x18 p;
          (p, phycr) = mdio_read_reg hw PHY_ADDR 0x19 p
      in (p, case (ledcr_ok, rcsr_ok, rcsr, ledcr, phycr) of
               (True, True, Some r, Some l, Some c) \<Rightarrow> Some (r, l, c)
             | _ \<Rightarrow> None))"

definition read_link_state :: "'p mdio_hw \<Rightarrow> 'p mdio_port \<Rightarrow> 'p mdio_port \<times> bool option" where
  "read_link_state hw p =
     (let (p, _) = mdio_read_reg hw PHY_ADDR PHY_REG_BMSR p;
          (p, bmsr_live) = mdio_read_reg hw PHY_ADDR PHY_REG_BMSR p
      in (p, case bmsr_live of None \<Rightarrow> None | Some b \<Rightarrow> Some (b AND PHY_LINK_UP_MASK \<noteq> 0)))"

text \<open>The result is what is logged: the four registers, the link and the auto-negotiation bit.\<close>

definition log_phy_status ::
  "'p mdio_hw \<Rightarrow> 'p mdio_port \<Rightarrow> 'p mdio_port \<times> (u16 \<times> u16 \<times> u16 \<times> u16 \<times> bool \<times> bool) option" where
  "log_phy_status hw p =
     (let (p, bmcr) = mdio_read_reg hw PHY_ADDR 0x00 p;
          (p, bmsr_latched) = mdio_read_reg hw PHY_ADDR PHY_REG_BMSR p;
          (p, bmsr_live) = mdio_read_reg hw PHY_ADDR PHY_REG_BMSR p;
          (p, phycr) = mdio_read_reg hw PHY_ADDR 0x19 p
      in (p, case (bmcr, bmsr_latched, bmsr_live, phycr) of
               (Some bmcr, Some latched, Some live, Some phycr) \<Rightarrow>
                 Some (bmcr, latched, live, phycr, live AND PHY_LINK_UP_MASK \<noteq> 0, live AND 0x0020 \<noteq> 0)
             | _ \<Rightarrow> None))"

text \<open>\<^verbatim>\<open>Master::link_up\<close>.\<close>

definition link_up :: "'p mdio_hw \<Rightarrow> 'p mdio_port \<Rightarrow> 'p mdio_port \<times> bool" where
  "link_up hw p = (let (p, r) = read_link_state hw p in (p, case r of None \<Rightarrow> False | Some b \<Rightarrow> b))"

section \<open>Statistics and snapshots of the MAC\<close>

text \<open>Registers are read by name.\<close>

record enet_mac_stats =
  ms_rx_packets :: u32
  ms_tx_packets :: u32
  ms_rx_ok :: u32
  ms_tx_ok :: u32
  ms_rx_crc :: u32
  ms_rx_align :: u32
  ms_rx_macerr :: u32
  ms_tx_macerr :: u32

definition mac_stats :: "(string \<Rightarrow> u32) \<Rightarrow> enet_mac_stats" where
  "mac_stats reg =
     \<lparr>ms_rx_packets = reg ''RMON_R_PACKETS'', ms_tx_packets = reg ''RMON_T_PACKETS'', ms_rx_ok = reg ''IEEE_R_FRAME_OK'',
      ms_tx_ok = reg ''IEEE_T_FRAME_OK'', ms_rx_crc = reg ''IEEE_R_CRC'', ms_rx_align = reg ''IEEE_R_ALIGN'',
      ms_rx_macerr = reg ''IEEE_R_MACERR'', ms_tx_macerr = reg ''IEEE_T_MACERR''\<rparr>"

record enet_debug_snapshot =
  sn_last_rx_progress_ms :: u32
  sn_last_tx_progress_ms :: u32
  sn_rx_pos :: nat
  sn_tx_pos :: nat
  sn_rx_flags :: "u16 list"
  sn_rx_lens :: "u16 list"
  sn_tx_flags :: "u16 list"
  sn_tx_lens :: "u16 list"
  sn_rdar :: u32
  sn_tdar :: u32
  sn_eir :: u32
  sn_eimr :: u32
  sn_ecr :: u32

text \<open>The loops write the fields of the descriptors into arrays of the length of the ring.\<close>

fun fill_from :: "nat \<Rightarrow> 'a list \<Rightarrow> 'a list \<Rightarrow> 'a list option" where
  "fill_from i [] arr = Some arr"
| "fill_from i (x # xs) arr = (if i < length arr then fill_from (i + 1) xs (arr[i := x]) else None)"

definition debug_snapshot :: "(string \<Rightarrow> u32) \<Rightarrow> enet \<Rightarrow> enet_debug_snapshot option" where
  "debug_snapshot reg e = do {
     rx_flags \<leftarrow> fill_from 0 (map ds_flags (rx_desc e)) (replicate ECAT_RX_LEN 0);
     rx_lens \<leftarrow> fill_from 0 (map ds_len (rx_desc e)) (replicate ECAT_RX_LEN 0);
     tx_flags \<leftarrow> fill_from 0 (map ds_flags (tx_desc e)) (replicate ECAT_TX_LEN 0);
     tx_lens \<leftarrow> fill_from 0 (map ds_len (tx_desc e)) (replicate ECAT_TX_LEN 0);
     Some \<lparr>sn_last_rx_progress_ms = last_rx_progress_ms e, sn_last_tx_progress_ms = last_tx_progress_ms e,
           sn_rx_pos = rx_pos e, sn_tx_pos = tx_pos e, sn_rx_flags = rx_flags, sn_rx_lens = rx_lens,
           sn_tx_flags = tx_flags, sn_tx_lens = tx_lens, sn_rdar = reg ''RDAR'', sn_tdar = reg ''TDAR'',
           sn_eir = reg ''EIR'', sn_eimr = reg ''EIMR'', sn_ecr = reg ''ECR''\<rparr> }"

lemma fill_from_all: "i + length xs = length arr \<Longrightarrow> fill_from i xs arr = Some (take i arr @ xs)"
proof (induction xs arbitrary: i arr)
  case (Cons x xs)
  then show ?case using Cons.IH [of "i + 1" "arr[i := x]"] by (simp add: take_Suc_conv_app_nth)
qed simp

text \<open>A snapshot of rings in shape never panics and shows the descriptors as they are.\<close>

lemma debug_snapshot_shows:
  assumes "enet_wf e"
  shows "map_option (\<lambda>s. (sn_rx_flags s, sn_rx_lens s, sn_tx_flags s, sn_tx_lens s, sn_rx_pos s, sn_tx_pos s)) (debug_snapshot reg e) =
    Some (map ds_flags (rx_desc e), map ds_len (rx_desc e), map ds_flags (tx_desc e), map ds_len (tx_desc e), rx_pos e, tx_pos e)"
proof -
  have l: "length (rx_desc e) = ECAT_RX_LEN" "length (tx_desc e) = ECAT_TX_LEN" using assms by (simp_all add: enet_wf_def)
  have r: "fill_from 0 xs (replicate n 0) = Some xs" if "length xs = n" for xs :: "u16 list" and n
    using fill_from_all [of 0 xs "replicate n 0"] that by simp
  show ?thesis by (simp add: debug_snapshot_def r l del: ECAT_RX_LEN_def ECAT_TX_LEN_def)
qed

section \<open>Clocks and pads\<close>

definition PLL_LOCK_TIMEOUT_LOOPS :: nat where "PLL_LOCK_TIMEOUT_LOOPS = 10000000"

datatype pull_keeper = Pulldown100k | Pullup22k

record pad_config =
  pad_pull :: "pull_keeper option"
  pad_speed_max :: bool
  pad_drive :: nat
  pad_fast :: bool

text \<open>\<^verbatim>\<open>Config::zero()\<close>; the drive strength \<^verbatim>\<open>R0_n\<close> is \<open>n\<close>, 0 is a disabled driver.\<close>

definition pad_zero :: pad_config where
  "pad_zero = \<lparr>pad_pull = None, pad_speed_max = False, pad_drive = 0, pad_fast = False\<rparr>"

definition ENET_IO_PD :: pad_config where
  "ENET_IO_PD = pad_zero\<lparr>pad_pull := Some Pulldown100k, pad_speed_max := True, pad_drive := 5, pad_fast := True\<rparr>"

definition ENET_IO_PU :: pad_config where "ENET_IO_PU = ENET_IO_PD\<lparr>pad_pull := Some Pullup22k\<rparr>"

definition XI_CONFIG :: pad_config where "XI_CONFIG = pad_zero\<lparr>pad_drive := 6, pad_fast := True\<rparr>"

text \<open>What the set-up does to the hardware: register writes by field, pads of \<^verbatim>\<open>gpio_b1\<close>, the two PHY pins, delays
  in core cycles.\<close>

datatype eth_op =
    EthWrite string "(string \<times> nat) list"
  | EthModify string "(string \<times> nat) list"
  | EthPad nat pad_config
  | EthAlt nat nat
  | EthSion nat
  | PhyShdn bool
  | PhyRst bool
  | EthDelay nat

fun pll_wait :: "nat \<Rightarrow> nat \<Rightarrow> (nat \<Rightarrow> bool) \<Rightarrow> bool" where
  "pll_wait 0 k locked = False"
| "pll_wait (Suc n) k locked = (if locked k then True else pll_wait n (k + 1) locked)"

definition eth_pad :: "pad_config \<Rightarrow> nat \<Rightarrow> nat \<Rightarrow> eth_op list" where
  "eth_pad cfg p alt = [EthPad p cfg, EthAlt p alt]"

definition setup_clocks_and_pins :: "(nat \<Rightarrow> bool) \<Rightarrow> boot_diag \<Rightarrow> boot_diag \<times> eth_op list" where
  "setup_clocks_and_pins locked d =
     (let before =
            [EthModify ''CCGR1'' [(''CG5'', 3)],
             EthWrite ''PLL_ENET_CLR'' [(''BYPASS_CLK_SRC'', 3), (''ENET2_DIV_SELECT'', 3), (''DIV_SELECT'', 3), (''POWERDOWN'', 1)],
             EthWrite ''PLL_ENET_SET'' [(''ENET_25M_REF_EN'', 1), (''ENABLE'', 1), (''BYPASS'', 1), (''DIV_SELECT'', 1)]];
          pll_locked = pll_wait PLL_LOCK_TIMEOUT_LOOPS 0 locked;
          (d, lock) =
            (if pll_locked then (d, [EthWrite ''PLL_ENET_CLR'' [(''BYPASS'', 1)]])
             else (fst (diag_record FLAG_PLL_TIMEOUT ERR_PLL_TIMEOUT d), []));
          clk = [EthModify ''GPR1'' [(''ENET1_CLK_SEL'', 0), (''ENET_IPG_CLK_S_EN'', 0), (''ENET1_TX_CLK_DIR'', 1)]];
          pads = eth_pad ENET_IO_PD 4 3 @ eth_pad ENET_IO_PD 5 3 @ eth_pad ENET_IO_PD 6 3 @ eth_pad ENET_IO_PD 11 3
            @ eth_pad ENET_IO_PU 7 3 @ eth_pad ENET_IO_PU 8 3 @ eth_pad ENET_IO_PU 9 3
            @ eth_pad XI_CONFIG 10 6 @ [EthSion 10] @ eth_pad ENET_IO_PU 15 0 @ eth_pad ENET_IO_PU 14 0;
          daisy = [EthWrite ''ENET_MDIO_SELECT_INPUT'' [(''DAISY'', 2)], EthWrite ''ENET0_RXDATA_SELECT_INPUT'' [(''DAISY'', 1)],
             EthWrite ''ENET1_RXDATA_SELECT_INPUT'' [(''DAISY'', 1)], EthWrite ''ENET_RXEN_SELECT_INPUT'' [(''DAISY'', 1)],
             EthWrite ''ENET_RXERR_SELECT_INPUT'' [(''DAISY'', 1)], EthWrite ''ENET_IPG_CLK_RMII_SELECT_INPUT'' [(''DAISY'', 1)]];
          reset = [PhyShdn False, PhyRst False, EthDelay (150000000 div 20), PhyShdn True, EthDelay (150000000 div 20),
             PhyRst True, EthDelay (150000000 div 20)]
      in (d, before @ lock @ clk @ pads @ daisy @ reset))"

lemma pll_wait_iff: "pll_wait n k locked \<longleftrightarrow> (\<exists>j < n. locked (k + j))"
proof (induction n arbitrary: k)
  case (Suc n)
  have "(\<exists>j < Suc n. locked (k + j)) \<longleftrightarrow> locked k \<or> (\<exists>j < n. locked (k + 1 + j))"
    by (simp add: Ex_less_Suc2)
  then show ?case using Suc [of "k + 1"] by simp
qed simp

text \<open>The PLL is taken out of bypass only when it has locked; otherwise the time-out is on record.\<close>

lemma pll_bypass_only_locked:
  "EthWrite ''PLL_ENET_CLR'' [(''BYPASS'', 1)] \<in> set (snd (setup_clocks_and_pins locked d)) \<longleftrightarrow>
     (\<exists>k < PLL_LOCK_TIMEOUT_LOOPS. locked k)"
  by (simp add: setup_clocks_and_pins_def Let_def pll_wait_iff eth_pad_def split: prod.split)

lemma pll_timeout_recorded:
  assumes "\<forall>k < PLL_LOCK_TIMEOUT_LOOPS. \<not> locked k"
  shows "boot_flags (fst (setup_clocks_and_pins locked d)) AND FLAG_PLL_TIMEOUT \<noteq> 0"
proof -
  have "\<not> pll_wait PLL_LOCK_TIMEOUT_LOOPS 0 locked" using assms by (simp add: pll_wait_iff)
  then show ?thesis
    by (simp add: setup_clocks_and_pins_def Let_def diag_record_def FLAG_PLL_TIMEOUT_def bit.conj_disj_distrib2)
qed

text \<open>A pad is given its electrical settings before it is switched to the controller, and none is forgotten.\<close>

fun pads_ready :: "nat set \<Rightarrow> eth_op list \<Rightarrow> bool" where
  "pads_ready cfg [] = True"
| "pads_ready cfg (EthPad p c # ops) = pads_ready (insert p cfg) ops"
| "pads_ready cfg (EthAlt p a # ops) = (p \<in> cfg \<and> pads_ready cfg ops)"
| "pads_ready cfg (_ # ops) = pads_ready cfg ops"

lemma setup_pads_ready: "pads_ready {} (snd (setup_clocks_and_pins locked d))"
  by (simp add: setup_clocks_and_pins_def Let_def eth_pad_def split: prod.split)

section \<open>The registers of the MAC\<close>

definition configure_registers :: "eth_op list" where
  "configure_registers =
     [EthWrite ''MSCR'' [(''MII_SPEED'', 9)], EthWrite ''EIMR'' [(''EIMR'', 0)],
      EthModify ''RCR'' [(''RMII_MODE'', 1), (''MII_MODE'', 1), (''LOOP'', 0), (''PROM'', 1), (''CRCFWD'', 1), (''DRT'', 0),
        (''MAX_FL'', 1522), (''NLC'', 1), (''PADEN'', 1)],
      EthModify ''ECR'' [(''DBSWP'', 1)], EthModify ''TCR'' [(''FDEN'', 1)], EthModify ''TFWR'' [(''STRFWD'', 1)],
      EthModify ''MSCR'' [(''HOLDTIME'', unat (hold_time 150000000)), (''MII_SPEED'', unat (mii_speed 150000000))]]"

text \<open>The addresses of the two rings are arguments; a write of a whole register has the register's name as its field.\<close>

definition descriptor_registers :: "nat \<Rightarrow> nat \<Rightarrow> eth_op list" where
  "descriptor_registers rx_ring tx_ring =
     [EthWrite ''RDSR'' [(''RDSR'', rx_ring)], EthWrite ''TDSR'' [(''TDSR'', tx_ring)],
      EthWrite ''MRBR'' [(''R_BUF_SIZE'', ECAT_MTU)]]"

definition enable_registers :: "eth_op list" where
  "enable_registers = [EthModify ''ECR'' [(''ETHEREN'', 1), (''EN1588'', 1)], EthWrite ''RDAR'' [(''RDAR'', 1)]]"

definition new_registers :: "nat \<Rightarrow> nat \<Rightarrow> eth_op list" where
  "new_registers rx_ring tx_ring = configure_registers @ descriptor_registers rx_ring tx_ring @ enable_registers"

definition restart_registers :: "nat \<Rightarrow> nat \<Rightarrow> eth_op list" where
  "restart_registers rx_ring tx_ring =
     EthModify ''ECR'' [(''ETHEREN'', 0)] # configure_registers @ descriptor_registers rx_ring tx_ring @ enable_registers"

text \<open>The MAC is configured while it is disabled, and told of receive descriptors only once it is enabled; \<open>on\<close> is
  whether it is.\<close>

fun mac_ordered :: "bool \<Rightarrow> eth_op list \<Rightarrow> bool" where
  "mac_ordered on [] = True"
| "mac_ordered on (EthModify r fs # ops) =
     (if r = ''ECR'' then
        (case map_of fs ''ETHEREN'' of
           None \<Rightarrow> \<not> on \<and> mac_ordered on ops
         | Some v \<Rightarrow> mac_ordered (v = 1) ops)
      else \<not> on \<and> mac_ordered on ops)"
| "mac_ordered on (EthWrite r fs # ops) = ((r = ''RDAR'' \<longleftrightarrow> on) \<and> mac_ordered on ops)"
| "mac_ordered on (_ # ops) = mac_ordered on ops"

lemma mac_configured_disabled:
  "mac_ordered False (new_registers rx_ring tx_ring)" "mac_ordered on (restart_registers rx_ring tx_ring)"
  by (simp_all add: new_registers_def restart_registers_def configure_registers_def descriptor_registers_def enable_registers_def)

text \<open>What smoltcp is told.\<close>

record device_capabilities =
  cap_mtu :: nat
  cap_max_burst :: "nat option"
  cap_ethernet :: bool
  cap_ipv4_checksum_both :: bool

definition capabilities :: device_capabilities where
  "capabilities = \<lparr>cap_mtu = ECAT_MTU, cap_max_burst = Some 1, cap_ethernet = True, cap_ipv4_checksum_both = True\<rparr>"

section \<open>Waiting\<close>

lemma mii_wait_loop: "fst (mii_wait n k mii) = wait_for_mii_loop n k mii"
  by (induction n arbitrary: k) simp_all

lemma mii_wait_bound: "snd (mii_wait n k mii) \<le> k + n"
proof (induction n arbitrary: k)
  case (Suc n)
  then show ?case using Suc [of "k + 1"] by simp
qed simp

text \<open>A management frame ends: after at most five million reads, with the time-out recorded if the PHY kept
  silent.\<close>

lemma mdio_wait_ends: "mp_reads (fst (mdio_wait hw flag code p)) \<le> mp_reads p + MDIO_TIMEOUT_LOOPS"
  using mii_wait_bound [of MDIO_TIMEOUT_LOOPS "mp_reads p" "hw_mii hw"]
  by (auto simp: mdio_wait_def Let_def split: prod.split)

lemma mdio_wait_fields:
  "mp_phy (fst (mdio_wait hw flag code p)) = mp_phy p"
  "snd (mdio_wait hw flag code p) \<longleftrightarrow> (\<exists>j < MDIO_TIMEOUT_LOOPS. hw_mii hw (mp_reads p + j))"
proof -
  show "mp_phy (fst (mdio_wait hw flag code p)) = mp_phy p"
    by (simp add: mdio_wait_def Let_def split: prod.split)
  have "snd (mdio_wait hw flag code p) = fst (mii_wait MDIO_TIMEOUT_LOOPS (mp_reads p) (hw_mii hw))"
    by (simp add: mdio_wait_def Let_def split: prod.split)
  then show "snd (mdio_wait hw flag code p) \<longleftrightarrow> (\<exists>j < MDIO_TIMEOUT_LOOPS. hw_mii hw (mp_reads p + j))"
    by (simp only: mii_wait_loop wait_for_mii_loop_iff)
qed

lemma mdio_wait_silent:
  assumes "\<not> snd (mdio_wait hw flag code p)"
  shows "mp_diag (fst (mdio_wait hw flag code p)) = fst (diag_record flag code (mp_diag p))"
  using assms by (simp add: mdio_wait_def Let_def split: prod.splits if_splits)

lemma silent_read_recorded:
  assumes "snd (mdio_read_reg hw pa ra p) = None"
  shows "boot_flags (mp_diag (fst (mdio_read_reg hw pa ra p))) AND FLAG_MDIO_READ_TIMEOUT \<noteq> 0"
proof -
  obtain phy dat where x: "hw_exec hw (mp_phy p) \<lparr>mm_ST = 1, mm_OP = 2, mm_TA = 0, mm_PA = ucast pa, mm_RA = ucast ra, mm_DATA = 0\<rparr> = (phy, dat)"
    by fastforce
  let ?w = "mdio_wait hw FLAG_MDIO_READ_TIMEOUT ERR_MDIO_READ_TIMEOUT (p\<lparr>mp_phy := phy\<rparr>)"
  have n: "\<not> snd ?w" and f: "fst (mdio_read_reg hw pa ra p) = fst ?w"
    using assms by (simp_all add: mdio_read_reg_def x Let_def split: prod.splits if_splits)
  have "boot_flags (fst (diag_record flag code d)) = boot_flags d OR flag" for flag code d
    by (simp add: diag_record_def Let_def)
  then show ?thesis using mdio_wait_silent [OF n] f
    by (simp add: FLAG_MDIO_READ_TIMEOUT_def bit.conj_disj_distrib2)
qed

section \<open>A PHY that answers\<close>

text \<open>The management interface of a PHY (IEEE 802.3, clause 22): a register file; the link bit of the status
  register is latched low, a read shows a link failure once even if the link is back.\<close>

record phy22 =
  ph_regs :: "u32 \<Rightarrow> u16"
  ph_link :: bool
  ph_lost :: bool

definition phy22_read :: "u32 \<Rightarrow> phy22 \<Rightarrow> u16" where
  "phy22_read r s =
     (if r = 1 then (if ph_link s \<and> \<not> ph_lost s then ph_regs s 1 OR 4 else ph_regs s 1 AND NOT 4) else ph_regs s r)"

definition phy22_exec :: "phy22 \<Rightarrow> mmfr \<Rightarrow> phy22 \<times> u32" where
  "phy22_exec s m =
     (if mm_PA m \<noteq> 0 then (s, 0xFFFF)
      else if mm_OP m = 1 then (s\<lparr>ph_regs := (ph_regs s)(mm_RA m := ucast (mm_DATA m))\<rparr>, mm_DATA m)
      else (if mm_RA m = 1 then s\<lparr>ph_lost := \<not> ph_link s\<rparr> else s, ucast (phy22_read (mm_RA m) s)))"

definition phy22_hw :: "(nat \<Rightarrow> bool) \<Rightarrow> phy22 mdio_hw" where
  "phy22_hw mii = \<lparr>hw_mii = mii, hw_exec = phy22_exec\<rparr>"

text \<open>Every frame is completed in time.\<close>

definition mii_alive :: "(nat \<Rightarrow> bool) \<Rightarrow> bool" where
  "mii_alive mii \<longleftrightarrow> (\<forall>k. \<exists>j < MDIO_TIMEOUT_LOOPS. mii (k + j))"

lemma ucast_16_32 [simp]: "(ucast (ucast (w :: u16) :: u32) :: u16) = w"
  by (rule bit_word_eqI) (simp add: bit_simps)

lemma phy22_write:
  assumes "mii_alive mii"
  shows "snd (mdio_write (phy22_hw mii) 0 r w p)"
    "mp_phy (fst (mdio_write (phy22_hw mii) 0 r w p)) = (mp_phy p)\<lparr>ph_regs := (ph_regs (mp_phy p))(ucast r := w)\<rparr>"
  using assms by (simp_all add: mdio_write_def phy22_hw_def phy22_exec_def mdio_wait_fields mii_alive_def Let_def)

lemma phy22_read_reg:
  assumes "mii_alive mii"
  shows "snd (mdio_read_reg (phy22_hw mii) 0 r p) = Some (phy22_read (ucast r) (mp_phy p))"
    "mp_phy (fst (mdio_read_reg (phy22_hw mii) 0 r p)) =
       (if ucast r = (1 :: u32) then (mp_phy p)\<lparr>ph_lost := \<not> ph_link (mp_phy p)\<rparr> else mp_phy p)"
proof -
  let ?phy = "if ucast r = (1 :: u32) then (mp_phy p)\<lparr>ph_lost := \<not> ph_link (mp_phy p)\<rparr> else mp_phy p"
  let ?w = "mdio_wait (phy22_hw mii) FLAG_MDIO_READ_TIMEOUT ERR_MDIO_READ_TIMEOUT (p\<lparr>mp_phy := ?phy\<rparr>)"
  have x: "mdio_read_reg (phy22_hw mii) 0 r p = (fst ?w, if \<not> snd ?w then None else Some (phy22_read (ucast r) (mp_phy p)))"
    by (simp add: mdio_read_reg_def phy22_hw_def phy22_exec_def Let_def split: prod.split)
  have "snd ?w" using assms unfolding mdio_wait_fields(2) by (simp add: mii_alive_def phy22_hw_def)
  then show "snd (mdio_read_reg (phy22_hw mii) 0 r p) = Some (phy22_read (ucast r) (mp_phy p))" by (simp add: x)
  show "mp_phy (fst (mdio_read_reg (phy22_hw mii) 0 r p)) = ?phy" by (simp add: x mdio_wait_fields(1))
qed

text \<open>Reading the status twice shows the link as it is, also right after a failure.\<close>

lemma link_state_is_live:
  assumes "mii_alive mii"
  shows "snd (read_link_state (phy22_hw mii) p) = Some (ph_link (mp_phy p))"
    "snd (link_up (phy22_hw mii) p) = ph_link (mp_phy p)"
proof -
  obtain p1 r1 where a: "mdio_read_reg (phy22_hw mii) 0 1 p = (p1, r1)" by fastforce
  have p1: "mp_phy p1 = (mp_phy p)\<lparr>ph_lost := \<not> ph_link (mp_phy p)\<rparr>" using phy22_read_reg(2) [OF assms, of 1 p] a by simp
  obtain p2 r2 where b: "mdio_read_reg (phy22_hw mii) 0 1 p1 = (p2, r2)" by fastforce
  have r2: "r2 = Some (phy22_read 1 (mp_phy p1))" using phy22_read_reg(1) [OF assms, of 1 p1] b by simp
  have "(x OR 4) AND 4 \<noteq> 0" "(x AND NOT 4) AND 4 = 0" for x :: u16
    by (simp_all add: bit.conj_disj_distrib2 and.assoc)
  then have "phy22_read 1 (mp_phy p1) AND 4 \<noteq> 0 \<longleftrightarrow> ph_link (mp_phy p)" using p1 by (simp add: phy22_read_def)
  then show "snd (read_link_state (phy22_hw mii) p) = Some (ph_link (mp_phy p))"
    using a b r2 by (simp add: read_link_state_def PHY_ADDR_def PHY_REG_BMSR_def PHY_LINK_UP_MASK_def)
  then show "snd (link_up (phy22_hw mii) p) = ph_link (mp_phy p)"
    by (simp add: link_up_def Let_def split: prod.split) (metis option.simps(5) prod.collapse snd_conv)
qed

text \<open>The set-up writes the two registers and reads them back.\<close>

lemma setup_phy_written:
  assumes "mii_alive mii"
  shows "\<exists>p' c. setup_phy (phy22_hw mii) p = (p', Some (0x0081, 0x0280, c)) \<and>
    ph_regs (mp_phy p') = (ph_regs (mp_phy p))(0x18 := 0x0280, 0x17 := 0x0081)"
proof -
  let ?hw = "phy22_hw mii"
  obtain p1 o1 where a: "mdio_write ?hw 0 0x18 0x0280 p = (p1, o1)" by fastforce
  obtain p2 o2 where b: "mdio_write ?hw 0 0x17 0x0081 p1 = (p2, o2)" by fastforce
  obtain p3 r3 where c: "mdio_read_reg ?hw 0 0x17 p2 = (p3, r3)" by fastforce
  obtain p4 r4 where d: "mdio_read_reg ?hw 0 0x18 p3 = (p4, r4)" by fastforce
  obtain p5 r5 where e: "mdio_read_reg ?hw 0 0x19 p4 = (p5, r5)" by fastforce
  note w = phy22_write [OF assms] and r = phy22_read_reg [OF assms]
  have 1: "o1" "mp_phy p1 = (mp_phy p)\<lparr>ph_regs := (ph_regs (mp_phy p))(0x18 := 0x0280)\<rparr>"
    using w [where r = "0x18" and w = "0x0280" and p = p] a by simp_all
  have 2: "o2" "mp_phy p2 = (mp_phy p1)\<lparr>ph_regs := (ph_regs (mp_phy p1))(0x17 := 0x0081)\<rparr>"
    using w [where r = "0x17" and w = "0x0081" and p = p1] b by simp_all
  have 3: "r3 = Some (phy22_read 0x17 (mp_phy p2))" "mp_phy p3 = mp_phy p2" using r [where r = "0x17" and p = p2] c by simp_all
  have 4: "r4 = Some (phy22_read 0x18 (mp_phy p3))" "mp_phy p4 = mp_phy p3" using r [where r = "0x18" and p = p3] d by simp_all
  have 5: "r5 = Some (phy22_read 0x19 (mp_phy p4))" "mp_phy p5 = mp_phy p4" using r [where r = "0x19" and p = p4] e by simp_all
  have "setup_phy ?hw p = (p5, Some (0x0081, 0x0280, phy22_read 0x19 (mp_phy p4)))"
    using a b c d e 1 2 3 4 5 by (simp add: setup_phy_def PHY_ADDR_def phy22_read_def)
  moreover have "ph_regs (mp_phy p5) = (ph_regs (mp_phy p))(0x18 := 0x0280, 0x17 := 0x0081)"
    using 1 2 3 4 5 by simp
  ultimately show ?thesis by blast
qed

end
