(* ===== verification/Boot.thy ===== *)
theory Boot
  imports Board
begin

text \<open>
  Start-up and last words: the LEDs of \<^verbatim>\<open>src/src/main.rs\<close> (boot stages, blinking, the crash code), the clock
  switch of \<^verbatim>\<open>src/src/board/clock_config.rs\<close>, the pads of \<^verbatim>\<open>src/src/board/host_spi.rs\<close> and the two ways out
  of \<^verbatim>\<open>src/src/board/usb_bootloader.rs\<close>. An operation on the hardware is an event of a list; the lemmas read
  the list back as what the hardware shows.
\<close>

unbundle bit_operations_syntax

section \<open>LEDs\<close>

text \<open>The pin of a LED is a build setting; a panic is \<^term>\<open>None\<close>.\<close>

definition led_fast_gpio :: "u8 \<Rightarrow> fast_gpio option" where
  "led_fast_gpio teensy_pin = teensy_pin_to_fast_gpio Teensy41 teensy_pin"

datatype pad_write =
    MuxMode string nat
  | PadCtl string u32
  | Daisy string nat

definition PAD :: u32 where "PAD = 0x10B0"

definition configure_led_pad :: "u8 \<Rightarrow> pad_write list option" where
  "configure_led_pad teensy_pin =
     (if teensy_pin = 4 then Some [MuxMode ''GPIO_EMC_06'' 5, PadCtl ''GPIO_EMC_06'' PAD]
      else if teensy_pin = 5 then Some [MuxMode ''GPIO_EMC_08'' 5, PadCtl ''GPIO_EMC_08'' PAD]
      else if teensy_pin = 13 then Some [MuxMode ''GPIO_B0_03'' 5, PadCtl ''GPIO_B0_03'' PAD]
      else None)"

text \<open>What the outputs do: a register write, or a wait in core cycles.\<close>

datatype led_event = LedWrite "u32 \<times> u32" | LedDelay u32

definition drive_bootloader_safe_outputs :: "u8 \<Rightarrow> u8 \<Rightarrow> u8 \<Rightarrow> led_event list option" where
  "drive_bootloader_safe_outputs indicator_pin a_pin b_pin = do {
     gi \<leftarrow> led_fast_gpio indicator_pin;
     ga \<leftarrow> led_fast_gpio a_pin;
     gb \<leftarrow> led_fast_gpio b_pin;
     (_, wi) \<leftarrow> fast_output_clear (fast_output_new gi);
     (_, wa) \<leftarrow> fast_output_clear (fast_output_new ga);
     (_, wb) \<leftarrow> fast_output_clear (fast_output_new gb);
     Some [LedWrite wi, LedWrite wa, LedWrite wb] }"

text \<open>The three outputs and a stage code; the core clock is a build setting.\<close>

definition boot_stage ::
  "u32 \<Rightarrow> u8 \<Rightarrow> fast_output \<times> fast_output \<times> fast_output \<Rightarrow>
     ((fast_output \<times> fast_output \<times> fast_output) \<times> led_event list) option" where
  "boot_stage core_hz code outs =
     (let (indicator, led_a, led_b) = outs in do {
        (indicator, wi) \<leftarrow> fast_output_write (code AND 4 \<noteq> 0) indicator;
        (led_a, wa) \<leftarrow> fast_output_write (code AND 2 \<noteq> 0) led_a;
        (led_b, wb) \<leftarrow> fast_output_write (code AND 1 \<noteq> 0) led_b;
        Some ((indicator, led_a, led_b), [LedWrite wi, LedWrite wa, LedWrite wb, LedDelay (core_hz div 3)]) })"

text \<open>\<^verbatim>\<open>1_000 / (BLINK_HZ * 2)\<close> in the constant evaluation: no overflow, no division by 0.\<close>

definition LED_SWAP_PERIOD_MS :: "u32 \<Rightarrow> u32 option" where
  "LED_SWAP_PERIOD_MS blink_hz =
     (if uint blink_hz * 2 \<ge> 2 ^ 32 \<or> blink_hz = 0 then None else Some (1000 div (blink_hz * 2)))"

text \<open>One round of the blinking task; the waits are in milliseconds.\<close>

definition blink_round ::
  "u32 \<Rightarrow> fast_output \<times> fast_output \<Rightarrow> ((fast_output \<times> fast_output) \<times> led_event list) option" where
  "blink_round period outs =
     (let (led_a, led_b) = outs in do {
        (led_a, w1) \<leftarrow> fast_output_write True led_a;
        (led_b, w2) \<leftarrow> fast_output_write False led_b;
        (led_a, w3) \<leftarrow> fast_output_write False led_a;
        (led_b, w4) \<leftarrow> fast_output_write True led_b;
        Some ((led_a, led_b), [LedWrite w1, LedWrite w2, LedDelay period, LedWrite w3, LedWrite w4, LedDelay period]) })"

section \<open>The crash code\<close>

definition fault_led :: "u8 \<Rightarrow> regs \<Rightarrow> (fast_output \<times> regs) option option" where
  "fault_led teensy_pin regs =
     (case teensy_pin_to_fast_gpio Teensy41 teensy_pin of
        None \<Rightarrow> Some None
      | Some gpio \<Rightarrow> do {
          let out = fast_output_new gpio;
          regs \<leftarrow> fast_output_init out regs;
          Some (Some (out, regs)) })"

text \<open>A pulse: on, wait, off, wait. Without a LED only the waits remain.\<close>

definition led_pulse :: "u32 \<Rightarrow> u32 \<Rightarrow> fast_output option \<Rightarrow> (fast_output option \<times> led_event list) option" where
  "led_pulse on off ind =
     (case ind of
        None \<Rightarrow> Some (None, [LedDelay on, LedDelay off])
      | Some out \<Rightarrow> do {
          (out, w1) \<leftarrow> fast_output_set out;
          (out, w2) \<leftarrow> fast_output_clear out;
          Some (Some out, [LedWrite w1, LedDelay on, LedWrite w2, LedDelay off]) })"

fun led_pulses :: "nat \<Rightarrow> u32 \<Rightarrow> u32 \<Rightarrow> fast_output option \<Rightarrow> (fast_output option \<times> led_event list) option" where
  "led_pulses 0 on off ind = Some (ind, [])"
| "led_pulses (Suc n) on off ind = do {
     (ind, es) \<leftarrow> led_pulse on off ind;
     (ind, fs) \<leftarrow> led_pulses n on off ind;
     Some (ind, es @ fs) }"

text \<open>One turn of the endless loop.\<close>

definition blink_diag_round :: "u32 \<Rightarrow> u8 \<Rightarrow> u8 \<Rightarrow> fast_output option \<Rightarrow> (fast_output option \<times> led_event list) option" where
  "blink_diag_round hz cls count ind = do {
     (ind, longs) \<leftarrow> led_pulses (unat cls) (hz * 6 div 10) (hz * 3 div 10) ind;
     (ind, shorts) \<leftarrow> led_pulses (unat count) (hz div 8) (hz div 5) ind;
     Some (ind, longs @ [LedDelay (hz * 4 div 10)] @ shorts @ [LedDelay (hz * 2)]) }"

section \<open>What the pins show\<close>

text \<open>\<^verbatim>\<open>DR_SET\<close> and \<^verbatim>\<open>DR_CLEAR\<close> change the pins whose bits are written.\<close>

definition pin_after :: "fast_gpio \<Rightarrow> bool \<Rightarrow> led_event \<Rightarrow> bool" where
  "pin_after g level ev =
     (case (ev, gpio_base (fg_group g)) of
        (LedWrite (addr, val), Some base) \<Rightarrow>
          if val AND gpio_mask g = 0 then level
          else if addr = base + GPIO_DR_SET then True
          else if addr = base + GPIO_DR_CLEAR then False
          else level
      | _ \<Rightarrow> level)"

definition pin_shows :: "fast_gpio \<Rightarrow> bool \<Rightarrow> led_event list \<Rightarrow> bool" where
  "pin_shows g level es = foldl (pin_after g) level es"

lemma gpio_mask_nonzero: "gpio_mask g \<noteq> 0"
proof -
  have "unat (fg_bit g AND 31) < 32"
  proof -
    have "fg_bit g AND 31 \<le> 31" by (rule word_and_le1)
    then show ?thesis by (simp add: word_le_nat_alt)
  qed
  then have "bit (gpio_mask g) (unat (fg_bit g AND 31))" by (simp add: gpio_mask_def bit_simps)
  then show ?thesis by auto
qed

lemma pin_own_write:
  assumes "fast_output_write v f = Some (f', w)"
  shows "pin_after (fo_gpio f) level (LedWrite w) = v" "f' = f\<lparr>fo_level := v\<rparr>"
proof -
  obtain base where b: "gpio_base (fg_group (fo_gpio f)) = Some base"
    and w: "w = (base + (if v then GPIO_DR_SET else GPIO_DR_CLEAR), gpio_mask (fo_gpio f))" "f' = f\<lparr>fo_level := v\<rparr>"
    using assms by (auto simp: fast_output_write_def fast_output_set_def fast_output_clear_def gpio_write_raw_def Let_def
        split: if_splits bind_splits)
  show "f' = f\<lparr>fo_level := v\<rparr>" by (rule w(2))
  have "GPIO_DR_CLEAR \<noteq> GPIO_DR_SET" by (simp add: GPIO_DR_SET_def GPIO_DR_CLEAR_def)
  then show "pin_after (fo_gpio f) level (LedWrite w) = v"
    using b w(1) gpio_mask_nonzero [of "fo_gpio f"] by (simp add: pin_after_def)
qed

text \<open>The board's LEDs, pins 13, 4 and 5.\<close>

lemma led_pins:
  "led_fast_gpio 13 = Some (fast_gpio 7 3)" "led_fast_gpio 4 = Some (fast_gpio 9 6)" "led_fast_gpio 5 = Some (fast_gpio 9 8)"
  by code_simp+

lemma led_writes:
  assumes "fo_gpio i = fast_gpio 7 3" "fo_gpio a = fast_gpio 9 6" "fo_gpio b = fast_gpio 9 8"
  shows "fast_output_write v i = Some (i\<lparr>fo_level := v\<rparr>, 0x42004000 + (if v then 0x84 else 0x88), 8)"
    "fast_output_write v a = Some (a\<lparr>fo_level := v\<rparr>, 0x4200C000 + (if v then 0x84 else 0x88), 0x40)"
    "fast_output_write v b = Some (b\<lparr>fo_level := v\<rparr>, 0x4200C000 + (if v then 0x84 else 0x88), 0x100)"
  using assms by (simp_all add: fast_output_write_def fast_output_set_def fast_output_clear_def gpio_write_raw_def
      gpio_base_def gpio_mask_def GPIO_DR_SET_def GPIO_DR_CLEAR_def)

text \<open>Whatever the LEDs showed before, after a stage they show its code, so a boot that hangs leaves the
  number of the last stage it reached.\<close>

lemma boot_stage_shows:
  assumes "fo_gpio i = fast_gpio 7 3" "fo_gpio a = fast_gpio 9 6" "fo_gpio b = fast_gpio 9 8"
  obtains i' a' b' es where "boot_stage hz code (i, a, b) = Some ((i', a', b'), es)"
    "fo_gpio i' = fo_gpio i" "fo_gpio a' = fo_gpio a" "fo_gpio b' = fo_gpio b"
    "pin_shows (fast_gpio 7 3) l es = (code AND 4 \<noteq> 0)" "pin_shows (fast_gpio 9 6) l es = (code AND 2 \<noteq> 0)"
    "pin_shows (fast_gpio 9 8) l es = (code AND 1 \<noteq> 0)"
proof -
  note w = led_writes [OF assms]
  let ?w = "\<lambda>base v m. LedWrite (base + (if v then 0x84 else 0x88), m)"
  let ?es = "[?w 0x42004000 (code AND 4 \<noteq> 0) 8, ?w 0x4200C000 (code AND 2 \<noteq> 0) 0x40, ?w 0x4200C000 (code AND 1 \<noteq> 0) 0x100,
    LedDelay (hz div 3)]"
  have e: "boot_stage hz code (i, a, b) = Some ((i\<lparr>fo_level := code AND 4 \<noteq> 0\<rparr>, a\<lparr>fo_level := code AND 2 \<noteq> 0\<rparr>,
      b\<lparr>fo_level := code AND 1 \<noteq> 0\<rparr>), ?es)"
    unfolding boot_stage_def Let_def prod.case w bind.bind_lunit by simp
  have "pin_shows (fast_gpio 7 3) l [?w 0x42004000 x 8, ?w 0x4200C000 y 0x40, ?w 0x4200C000 z 0x100, LedDelay k] = x"
    "pin_shows (fast_gpio 9 6) l [?w 0x42004000 x 8, ?w 0x4200C000 y 0x40, ?w 0x4200C000 z 0x100, LedDelay k] = y"
    "pin_shows (fast_gpio 9 8) l [?w 0x42004000 x 8, ?w 0x4200C000 y 0x40, ?w 0x4200C000 z 0x100, LedDelay k] = z" for x y z k
    by (simp_all add: pin_shows_def pin_after_def gpio_base_def gpio_mask_def GPIO_DR_SET_def GPIO_DR_CLEAR_def)
  then show thesis by (intro that [OF e]) simp_all
qed

text \<open>The LEDs are off when the bootloader takes over.\<close>

lemma safe_outputs_off:
  obtains es where "drive_bootloader_safe_outputs 13 4 5 = Some es"
    "\<not> pin_shows (fast_gpio 7 3) l es" "\<not> pin_shows (fast_gpio 9 6) l es" "\<not> pin_shows (fast_gpio 9 8) l es"
proof -
  let ?es = "[LedWrite (0x42004088, 8), LedWrite (0x4200C088, 0x40), LedWrite (0x4200C088, 0x100)]"
  have "drive_bootloader_safe_outputs 13 4 5 = Some ?es"
    by (simp add: drive_bootloader_safe_outputs_def led_pins fast_output_clear_def fast_output_new_def gpio_write_raw_def
        gpio_base_def gpio_mask_def GPIO_DR_CLEAR_def)
  then show thesis
    by (rule that) (simp_all add: pin_shows_def pin_after_def gpio_base_def gpio_mask_def GPIO_DR_SET_def GPIO_DR_CLEAR_def)
qed

section \<open>Reading the crash code\<close>

text \<open>The lengths of the pulses a LED shows.\<close>

fun pulses :: "led_event list \<Rightarrow> u32 list" where
  "pulses (LedWrite w # LedDelay on # LedWrite w' # LedDelay off # es) = on # pulses es"
| "pulses (_ # es) = pulses es"
| "pulses [] = []"

lemma led_pulses_shown:
  assumes "fo_gpio f = fast_gpio 7 3"
  shows "\<exists>f' es. led_pulses n on off (Some f) = Some (Some f', es) \<and> fo_gpio f' = fast_gpio 7 3 \<and>
    (\<forall>fs. pulses (es @ fs) = replicate n on @ pulses fs)"
  using assms
proof (induction n arbitrary: f)
  case (Suc n)
  obtain w1 w2 where p: "led_pulse on off (Some f) = Some (Some (f\<lparr>fo_level := False\<rparr>), [LedWrite w1, LedDelay on, LedWrite w2, LedDelay off])"
    using Suc.prems by (simp add: led_pulse_def fast_output_set_def fast_output_clear_def gpio_write_raw_def gpio_base_def)
  obtain f' es where "led_pulses n on off (Some (f\<lparr>fo_level := False\<rparr>)) = Some (Some f', es)" "fo_gpio f' = fast_gpio 7 3"
      "\<forall>fs. pulses (es @ fs) = replicate n on @ pulses fs"
    using Suc.IH [of "f\<lparr>fo_level := False\<rparr>"] Suc.prems by auto
  then show ?case using p by simp
qed simp

text \<open>A round shows the class in long pulses and the count in short ones. The lengths are told apart for a
  core clock up to 715827882 Hz; beyond, \<open>hz * 6\<close> exceeds 32 bits and at 720 MHz and 816 MHz the long pulse is
  shorter than the short one.\<close>

lemma crash_code_shown:
  assumes "fo_gpio f = fast_gpio 7 3"
  obtains f' es where "blink_diag_round hz cls count (Some f) = Some (Some f', es)" "fo_gpio f' = fast_gpio 7 3"
    "pulses es = replicate (unat cls) (hz * 6 div 10) @ replicate (unat count) (hz div 8)"
proof -
  obtain g es where a: "led_pulses (unat cls) (hz * 6 div 10) (hz * 3 div 10) (Some f) = Some (Some g, es)" "fo_gpio g = fast_gpio 7 3"
      "\<forall>fs. pulses (es @ fs) = replicate (unat cls) (hz * 6 div 10) @ pulses fs"
    using led_pulses_shown [OF assms] by blast
  obtain h fs where b: "led_pulses (unat count) (hz div 8) (hz div 5) (Some g) = Some (Some h, fs)" "fo_gpio h = fast_gpio 7 3"
      "\<forall>gs. pulses (fs @ gs) = replicate (unat count) (hz div 8) @ pulses gs"
    using led_pulses_shown [OF a(2)] by blast
  have r: "blink_diag_round hz cls count (Some f) = Some (Some h, es @ [LedDelay (hz * 4 div 10)] @ fs @ [LedDelay (hz * 2)])"
    by (simp add: blink_diag_round_def a(1) b(1))
  show thesis by (rule that [OF r b(2)]) (simp add: a(3) b(3))
qed

lemma pulse_lengths:
  fixes hz :: u32
  assumes "8 \<le> hz" "hz \<le> 715827882"
  shows "hz div 8 < hz * 6 div 10"
proof -
  have b: "8 \<le> unat hz" "unat hz \<le> 715827882" using assms by (simp_all add: word_le_nat_alt)
  then have "unat (hz * 6) = unat hz * 6" by (simp add: unat_word_ariths)
  then have "unat (hz * 6 div 10) = unat hz * 6 div 10" "unat (hz div 8) = unat hz div 8" by (simp_all add: unat_div)
  moreover have "unat hz div 8 < unat hz * 6 div 10" using b by linarith
  ultimately show ?thesis by (simp add: word_less_nat_alt)
qed

lemma pulse_lengths_overclocked:
  "(720000000 :: u32) * 6 div 10 < 720000000 div 8" "(816000000 :: u32) * 6 div 10 < 816000000 div 8"
  by simp_all

section \<open>The clock switch\<close>

text \<open>\<^verbatim>\<open>delay_ms\<close>: core cycles, saturating.\<close>

definition delay_cycles :: "u32 \<Rightarrow> u32 \<Rightarrow> u32" where
  "delay_cycles core_hz ms =
     (let k = core_hz div 1000 in if uint k * uint ms < 2 ^ 32 then k * ms else 0xFFFFFFFF)"

lemma count_up_less:
  fixes a b :: u32
  assumes "a < b"
  shows "unat b - unat (a + 1) < unat b - unat a" "unat (a + 1) = unat a + 1"
proof -
  show "unat (a + 1) = unat a + 1"
    using assms unsigned_less [of b, where 'a = nat] by (simp add: unat_word_ariths word_less_nat_alt)
  then show "unat b - unat (a + 1) < unat b - unat a" using assms by (simp add: word_less_nat_alt)
qed

text \<open>The indicator flashes once per 100 MHz; the loop counts up to \<open>n\<close>.\<close>

function flash_loop ::
  "u32 \<Rightarrow> u32 \<Rightarrow> u32 \<Rightarrow> fast_output \<Rightarrow> (fast_output \<times> led_event list) option" where
  "flash_loop core_hz n flashes ind =
     (if flashes < n then do {
        (ind, w1) \<leftarrow> fast_output_set ind;
        (ind, w2) \<leftarrow> fast_output_clear ind;
        let flashes = flashes + 1;
        let off_time_ms = (if flashes = n then 500 * 2 else 500);
        (ind, es) \<leftarrow> flash_loop core_hz n flashes ind;
        Some (ind, [LedWrite w1, LedDelay (delay_cycles core_hz 100), LedWrite w2,
                    LedDelay (delay_cycles core_hz off_time_ms)] @ es) }
      else Some (ind, []))"
  by pat_completeness auto
termination
  by (relation "measure (\<lambda>(core_hz, n, flashes, ind). unat n - unat flashes)") (auto simp: word_less_nat_alt count_up_less(2))

declare flash_loop.simps [simp del]

definition flash_indicator :: "clock_profile \<Rightarrow> fast_output \<Rightarrow> (fast_output \<times> led_event list) option" where
  "flash_indicator p ind = flash_loop (cp_core_hz p) (indicator_flash_count p) 0 ind"

lemma flash_loop_shown:
  assumes "fo_gpio f = fast_gpio 7 3" "unat n - unat k = m"
  shows "\<exists>f' es. flash_loop hz n k f = Some (f', es) \<and> pulses es = replicate m (delay_cycles hz 100)"
  using assms
proof (induction m arbitrary: k f)
  case 0
  then show ?case by (subst flash_loop.simps) (simp add: word_less_nat_alt)
next
  case (Suc m)
  then have k: "k < n" by (simp add: word_less_nat_alt)
  have "unat n - unat (k + 1) = m" using count_up_less(2) [OF k] Suc.prems(2) by simp
  then obtain f' es where "flash_loop hz n (k + 1) (f\<lparr>fo_level := False\<rparr>) = Some (f', es)" "pulses es = replicate m (delay_cycles hz 100)"
    using Suc.IH [of "f\<lparr>fo_level := False\<rparr>" "k + 1"] Suc.prems(1) by auto
  then show ?case using k Suc.prems(1)
    by (subst flash_loop.simps)
      (simp add: fast_output_set_def fast_output_clear_def gpio_write_raw_def gpio_base_def Let_def)
qed

lemma flash_loop_pin:
  assumes "flash_loop hz n k f = Some (f', es)"
  shows "fo_gpio f' = fo_gpio f"
  using assms
proof (induction hz n k f arbitrary: f' es rule: flash_loop.induct)
  case (1 hz n k f)
  show ?case
  proof (cases "k < n")
    case True
    obtain g w1 g2 w2 fs where r: "fast_output_set f = Some (g, w1)" "fast_output_clear g = Some (g2, w2)"
        "flash_loop hz n (k + 1) g2 = Some (f', fs)"
      using 1(2) True by (subst (asm) flash_loop.simps) (auto simp: Let_def split: bind_splits prod.splits)
    have "fo_gpio f' = fo_gpio g2" by (rule 1(1) [OF True r(1) refl r(2) refl refl refl r(3)])
    then show ?thesis using r(1,2)
      by (auto simp: fast_output_set_def fast_output_clear_def Let_def split: bind_splits)
  next
    case False
    then show ?thesis using 1(2) by (subst (asm) flash_loop.simps) simp
  qed
qed

lemma flash_indicator_pin:
  "flash_indicator p f = Some (f', es) \<Longrightarrow> fo_gpio f' = fo_gpio f"
  by (simp add: flash_indicator_def flash_loop_pin)

text \<open>The number of flashes tells the core clock in units of 100 MHz.\<close>

lemma flash_indicator_shown:
  assumes "fo_gpio f = fast_gpio 7 3"
  shows "\<exists>f' es. flash_indicator p f = Some (f', es) \<and>
    pulses es = replicate (unat (cp_core_hz p div 100000000)) (delay_cycles (cp_core_hz p) 100)"
  using flash_loop_shown [OF assms, of "indicator_flash_count p" 0] by (simp add: flash_indicator_def indicator_flash_count_def)

text \<open>The switch of the core clock, as the operations on the clock tree; \<open>sel\<close> is the source the core runs from
  before.\<close>

datatype ahb_sel = PeriphClk2Sel | PrePeriphClkSel

datatype clock_op =
    IpgGates bool
  | AhbSelect ahb_sel
  | PeriphClk2Div u32
  | PeriphClk2Osc
  | Pll1Restart u32
  | ArmDivider u32
  | AhbDivider u32
  | PrePeriphPll1
  | IpgDivider u32

definition configure_arm_clock :: "ahb_sel \<Rightarrow> clock_profile \<Rightarrow> clock_op list" where
  "configure_arm_clock sel p =
     [IpgGates False]
     @ (if sel = PeriphClk2Sel then [AhbSelect PrePeriphClkSel] else [])
     @ [PeriphClk2Div 1, PeriphClk2Osc, AhbSelect PeriphClk2Sel,
        Pll1Restart (cp_pll1_div_select p), ArmDivider (cp_arm_divider p), AhbDivider (cp_ahb_divider p),
        PrePeriphPll1, AhbSelect PrePeriphClkSel, IpgDivider (cp_ipg_divider p), IpgGates True]"

text \<open>A glitch-free switch: a source, its divider or its PLL is changed only while the core runs from the other
  source, and everything happens with the peripheral clocks gated.\<close>

fun glitch_free :: "ahb_sel \<Rightarrow> bool \<Rightarrow> clock_op list \<Rightarrow> bool" where
  "glitch_free sel gated [] = True"
| "glitch_free sel gated (op # ops) =
     (case op of
        IpgGates on \<Rightarrow> glitch_free sel (\<not> on) ops
      | AhbSelect s \<Rightarrow> gated \<and> glitch_free s gated ops
      | PeriphClk2Div _ \<Rightarrow> gated \<and> sel = PrePeriphClkSel \<and> glitch_free sel gated ops
      | PeriphClk2Osc \<Rightarrow> gated \<and> sel = PrePeriphClkSel \<and> glitch_free sel gated ops
      | Pll1Restart _ \<Rightarrow> gated \<and> sel = PeriphClk2Sel \<and> glitch_free sel gated ops
      | ArmDivider _ \<Rightarrow> gated \<and> sel = PeriphClk2Sel \<and> glitch_free sel gated ops
      | PrePeriphPll1 \<Rightarrow> gated \<and> sel = PeriphClk2Sel \<and> glitch_free sel gated ops
      | AhbDivider _ \<Rightarrow> gated \<and> glitch_free sel gated ops
      | IpgDivider _ \<Rightarrow> gated \<and> glitch_free sel gated ops)"

lemma clock_switch_glitch_free: "glitch_free sel gated (configure_arm_clock sel p)"
  by (cases sel) (simp_all add: configure_arm_clock_def)

text \<open>The clock tree after the switch: PLL1 is 12 MHz times its divider, over the two dividers.\<close>

fun tree_after :: "u32 \<times> u32 \<times> u32 \<Rightarrow> clock_op \<Rightarrow> u32 \<times> u32 \<times> u32" where
  "tree_after (pll, arm, ahb) (Pll1Restart d) = (d, arm, ahb)"
| "tree_after (pll, arm, ahb) (ArmDivider d) = (pll, d, ahb)"
| "tree_after (pll, arm, ahb) (AhbDivider d) = (pll, arm, d)"
| "tree_after t _ = t"

definition tree_hz :: "u32 \<times> u32 \<times> u32 \<Rightarrow> u32" where
  "tree_hz t = (let (pll, arm, ahb) = t in 12000000 * pll div arm div ahb)"

lemma some_of_ifs: "(if a then None else if b then None else if c then None else Some x) = Some p \<Longrightarrow> p = x"
  by (simp split: if_splits)

lemma clock_switch_realises:
  assumes "clock_profile_new oc mx hz = Some p"
  shows "tree_hz (foldl tree_after t (configure_arm_clock sel p)) = cp_core_hz p"
proof -
  obtain pll arm ahb where t: "t = (pll, arm, ahb)" by (cases t)
  have "foldl tree_after t (configure_arm_clock sel p) = (cp_pll1_div_select p, cp_arm_divider p, cp_ahb_divider p)"
    unfolding t by (cases sel) (simp_all add: configure_arm_clock_def)
  moreover obtain x y where d: "clock_dividers hz 1 1 = (x, y)" by fastforce
  note p = some_of_ifs [OF assms [unfolded clock_profile_new_def d Let_def prod.case]]
  have "cp_core_hz p = 12000000 * cp_pll1_div_select p div cp_arm_divider p div cp_ahb_divider p"
    by (simp only: p clock_profile.simps)
  ultimately show ?thesis by (simp add: tree_hz_def)
qed

section \<open>Pads of the host port\<close>

definition configure_frame_ready_pad :: "u8 \<Rightarrow> pad_write list option" where
  "configure_frame_ready_pad teensy_pin =
     (if teensy_pin = 24 then Some [MuxMode ''GPIO_AD_B0_12'' 5, PadCtl ''GPIO_AD_B0_12'' PAD]
      else if teensy_pin = 25 then Some [MuxMode ''GPIO_AD_B0_13'' 5, PadCtl ''GPIO_AD_B0_13'' PAD]
      else None)"

definition configure_pads :: "u8 \<Rightarrow> u8 \<Rightarrow> u8 \<Rightarrow> u8 \<Rightarrow> pad_write list option" where
  "configure_pads sdo_pin sck_pin sdi_pin cs_pin = do {
     sdo \<leftarrow> (if sdo_pin = 26 then Some [MuxMode ''GPIO_AD_B1_14'' 2, PadCtl ''GPIO_AD_B1_14'' PAD, Daisy ''LPSPI3_SDO'' 1]
             else None);
     sck \<leftarrow> (if sck_pin = 27 then Some [MuxMode ''GPIO_AD_B1_15'' 2, PadCtl ''GPIO_AD_B1_15'' PAD, Daisy ''LPSPI3_SCK'' 1]
             else None);
     sdi \<leftarrow> (if sdi_pin = 39 then Some [MuxMode ''GPIO_AD_B1_13'' 2, PadCtl ''GPIO_AD_B1_13'' PAD, Daisy ''LPSPI3_SDI'' 1]
             else None);
     cs \<leftarrow> (if cs_pin = 38 then Some [MuxMode ''GPIO_AD_B1_12'' 2, PadCtl ''GPIO_AD_B1_12'' PAD, Daisy ''LPSPI3_PCS0'' 1]
            else if cs_pin = 0 then Some [MuxMode ''GPIO_AD_B0_03'' 7, PadCtl ''GPIO_AD_B0_03'' PAD, Daisy ''LPSPI3_PCS0'' 0]
            else None);
     Some (sdo @ sck @ sdi @ cs) }"

definition muxed :: "pad_write list \<Rightarrow> string list" where
  "muxed ws = concat (map (\<lambda>w. case w of MuxMode n _ \<Rightarrow> [n] | _ \<Rightarrow> []) ws)"

text \<open>The pads of the board's LEDs, of the port and of the frame-ready line are different pads: no set-up undoes
  another.\<close>

lemma pads_apart:
  assumes "configure_pads sdo sck sdi cs = Some port" "configure_frame_ready_pad fr = Some line"
    "configure_led_pad 13 = Some i" "configure_led_pad 4 = Some a" "configure_led_pad 5 = Some b"
  shows "distinct (muxed (port @ line @ i @ a @ b))"
proof -
  have led: "muxed i = [''GPIO_B0_03'']" "muxed a = [''GPIO_EMC_06'']" "muxed b = [''GPIO_EMC_08'']"
    using assms(3-5) by (auto simp: configure_led_pad_def muxed_def)
  have fr: "muxed line = [''GPIO_AD_B0_12''] \<or> muxed line = [''GPIO_AD_B0_13'']"
    using assms(2) by (auto simp: configure_frame_ready_pad_def muxed_def split: if_splits)
  have port: "muxed port = [''GPIO_AD_B1_14'', ''GPIO_AD_B1_15'', ''GPIO_AD_B1_13''] @ [''GPIO_AD_B1_12''] \<or>
      muxed port = [''GPIO_AD_B1_14'', ''GPIO_AD_B1_15'', ''GPIO_AD_B1_13''] @ [''GPIO_AD_B0_03'']"
    using assms(1) by (cases "cs = 38"; cases "cs = 0"; cases "sdo = 26"; cases "sck = 27"; cases "sdi = 39")
      (auto simp: configure_pads_def muxed_def)
  have "muxed (port @ line @ i @ a @ b) = muxed port @ muxed line @ muxed i @ muxed a @ muxed b" by (simp add: muxed_def)
  then show ?thesis using led fr port by (elim disjE) simp_all
qed

lemma pads_supported:
  "configure_pads sdo sck sdi cs \<noteq> None \<longleftrightarrow> sdo = 26 \<and> sck = 27 \<and> sdi = 39 \<and> (cs = 38 \<or> cs = 0)"
  by (auto simp: configure_pads_def)

section \<open>The host port's peripheral\<close>

text \<open>\<^verbatim>\<open>HostSpi::init\<close> on the registers of LPSPI3, by field; \<open>LpPrefill\<close> is the filling of the transmit FIFO that
  \<^verbatim>\<open>reload_tx_fifo\<close> does.\<close>

datatype lp_write =
    LpCR "(string \<times> nat) list"
  | LpCFGR1 "(string \<times> nat) list"
  | LpFCR "(string \<times> nat) list"
  | LpTCR "(string \<times> nat) list"
  | LpPrefill
  | LpIER "(string \<times> nat) list"

definition FRAME_BITS :: nat where "FRAME_BITS = 8"

definition lpspi_init :: "lp_write list" where
  "lpspi_init =
     [LpCR [(''MEN'', 0), (''RST'', 1)], LpCR [(''RST'', 0), (''RTF'', 1), (''RRF'', 1)], LpCR [],
      LpCFGR1 [(''MASTER'', 0)],
      LpFCR [(''RXWATER'', 0), (''TXWATER'', 0)],
      LpTCR [(''FRAMESZ'', FRAME_BITS - 1), (''CPOL'', 0), (''CPHA'', 0), (''LSBF'', 0), (''PCS'', 0), (''RXMSK'', 0), (''TXMSK'', 0)],
      LpPrefill,
      LpCR [(''MEN'', 1)],
      LpIER [(''RDIE'', 1), (''REIE'', 1), (''TEIE'', 1)]]"

text \<open>The peripheral is configured while it is disabled, and the interrupts come last.\<close>

fun lp_ordered :: "bool \<Rightarrow> lp_write list \<Rightarrow> bool" where
  "lp_ordered en [] = True"
| "lp_ordered en (LpCR fs # ws) =
     lp_ordered (case map_of fs ''MEN'' of None \<Rightarrow> en | Some v \<Rightarrow> v = 1) ws"
| "lp_ordered en (LpIER fs # ws) = (en \<and> ws = [])"
| "lp_ordered en (w # ws) = (\<not> en \<and> lp_ordered en ws)"

lemma lpspi_init_ordered: "lp_ordered en lpspi_init"
  by (simp add: lpspi_init_def)

section \<open>Leaving the firmware\<close>

definition request_bootloader :: "reboot_latch \<Rightarrow> reboot_latch" where "request_bootloader l = l\<lparr>rl_bootloader := True\<rparr>"

definition request_reboot :: "reboot_latch \<Rightarrow> reboot_latch" where "request_reboot l = l\<lparr>rl_reboot := True\<rparr>"

datatype leave_event = LeaveLed led_event | InterruptsOff | EnterBootloader | SysReset

definition enter_teensy_bootloader :: "leave_event list" where
  "enter_teensy_bootloader = [InterruptsOff, EnterBootloader]"

definition shutdown_and_enter :: "led_event list option \<Rightarrow> leave_event list option" where
  "shutdown_and_enter shutdown = do { es \<leftarrow> shutdown; Some (map LeaveLed es @ enter_teensy_bootloader) }"

definition reboot :: "leave_event list" where "reboot = [SysReset]"

text \<open>The end of the USB interrupt; \<^term>\<open>Some []\<close> is to go on.\<close>

definition leave_requests :: "led_event list option \<Rightarrow> reboot_latch \<Rightarrow> (reboot_latch \<times> leave_event list) option" where
  "leave_requests shutdown l =
     (let (boot, l) = take_bootloader_request l
      in if boot then do { es \<leftarrow> shutdown_and_enter shutdown; Some (l, es) }
         else
           let (again, l) = take_reboot_request l
           in Some (l, if again then reboot else []))"

lemma requests_latch:
  "monitor_control_out r dat l =
     (if is_soft_reboot_control_request r dat then request_bootloader l
      else if is_normal_reboot_control_request r dat then request_reboot l else l)"
  by (simp add: monitor_control_out_def request_bootloader_def request_reboot_def)

text \<open>The firmware is left only on a request of the host, and for the bootloader only with the LEDs off.\<close>

lemma left_on_request:
  assumes "leave_requests (drive_bootloader_safe_outputs 13 4 5) l = Some (l', es)"
  shows "(es \<noteq> []) = (rl_bootloader l \<or> rl_reboot l)" "EnterBootloader \<in> set es \<longleftrightarrow> rl_bootloader l"
    "\<not> rl_bootloader l'"
proof -
  obtain ws where "drive_bootloader_safe_outputs 13 4 5 = Some ws" by (rule safe_outputs_off)
  then show "(es \<noteq> []) = (rl_bootloader l \<or> rl_reboot l)" "EnterBootloader \<in> set es \<longleftrightarrow> rl_bootloader l"
    "\<not> rl_bootloader l'"
    using assms by (auto simp: leave_requests_def take_bootloader_request_def take_reboot_request_def Let_def
        shutdown_and_enter_def enter_teensy_bootloader_def reboot_def split: if_splits)
qed

end
