(* ===== verification/Init.thy ===== *)
theory Init
  imports MasterRun ConsoleRun Spi BringUp Phy Boot
begin

text \<open>
  The start of the firmware, \<^verbatim>\<open>init\<close> of \<^verbatim>\<open>src/src/main.rs\<close>: what it does to the hardware, in order, and the shared
  and local state it leaves for the tasks. The lemmas show that it does not panic on the configured board,
  that the LEDs count its stages, and that the state it leaves is the one from which the theorems on runs
  start.
\<close>

unbundle bit_operations_syntax

section \<open>Build settings\<close>

record board_cfg =
  bc_profile :: clock_profile
  bc_indicator :: u8
  bc_led_a :: u8
  bc_led_b :: u8
  bc_sdo :: u8
  bc_sck :: u8
  bc_sdi :: u8
  bc_cs :: u8
  bc_frame_ready :: u8

text \<open>The constants, parsed from the environment of the build; \<open>env\<close> is that environment.\<close>

definition board_cfg_of :: "(string \<Rightarrow> string option) \<Rightarrow> board_cfg option" where
  "board_cfg_of env = do {
     hz \<leftarrow> Option.bind (env ''TEENSY4_CORE_CLOCK_HZ'') parse_u32;
     oc \<leftarrow> Option.bind (env ''TEENSY4_ALLOW_OVERCLOCK'') parse_bool;
     mx \<leftarrow> Option.bind (env ''TEENSY4_ALLOW_MAX_VOLTAGE'') parse_bool;
     p \<leftarrow> clock_profile_new oc mx hz;
     i \<leftarrow> Option.bind (env ''LED_INDICATOR_PIN'') parse_u8;
     a \<leftarrow> Option.bind (env ''BASE_LED_A_PIN'') parse_u8;
     b \<leftarrow> Option.bind (env ''BASE_LED_B_PIN'') parse_u8;
     sdo \<leftarrow> Option.bind (env ''HOST_SPI_SDO_PIN'') parse_u8;
     sck \<leftarrow> Option.bind (env ''HOST_SPI_SCK_PIN'') parse_u8;
     sdi \<leftarrow> Option.bind (env ''HOST_SPI_SDI_PIN'') parse_u8;
     cs \<leftarrow> Option.bind (env ''HOST_SPI_CS_PIN'') parse_u8;
     fr \<leftarrow> Option.bind (env ''HOST_SPI_FRAME_READY_PIN'') parse_u8;
     Some \<lparr>bc_profile = p, bc_indicator = i, bc_led_a = a, bc_led_b = b, bc_sdo = sdo, bc_sck = sck, bc_sdi = sdi,
           bc_cs = cs, bc_frame_ready = fr\<rparr> }"

text \<open>\<^verbatim>\<open>src/.cargo/config.toml\<close>.\<close>

definition cargo_env :: "string \<Rightarrow> string option" where
  "cargo_env = map_of
     [(''TEENSY4_CORE_CLOCK_HZ'', ''600000000''), (''TEENSY4_ALLOW_OVERCLOCK'', ''true''),
      (''TEENSY4_ALLOW_MAX_VOLTAGE'', ''false''), (''LED_INDICATOR_PIN'', ''13''), (''BASE_LED_A_PIN'', ''4''),
      (''BASE_LED_B_PIN'', ''5''), (''BASE_LED_BLINK_HZ'', ''2''), (''HOST_SPI_SDO_PIN'', ''26''),
      (''HOST_SPI_SCK_PIN'', ''27''), (''HOST_SPI_SDI_PIN'', ''39''), (''HOST_SPI_CS_PIN'', ''38''),
      (''HOST_SPI_FRAME_READY_PIN'', ''25'')]"

definition ECAT_MAC :: bytes where "ECAT_MAC = [0x02, 0, 0, 0, 0, 0x01]"

section \<open>The init task\<close>

text \<open>\<^verbatim>\<open>Shared\<close> and \<^verbatim>\<open>Local\<close>: the command slot, the output buffer and the line with the USB task, the port with
  its registers.\<close>

record app =
  ap_usb :: usb_task
  ap_usb_configured :: bool
  ap_master :: master
  ap_bridge :: host_bridge
  ap_led_a :: fast_output
  ap_led_b :: fast_output
  ap_spi :: host_spi
  ap_lpspi :: lpspi
  ap_frame_ready :: fast_output

text \<open>What happens on the way. \<open>BspPrepare\<close>, \<open>BspResources\<close>, \<open>MonoStart\<close> and \<open>UsbInit\<close> are calls of the board
  support package, the monotonic timer and the USB stack.\<close>

datatype init_event =
    BspPrepare
  | ClockApply
  | InitPad pad_write
  | PinInit fast_gpio
  | Flash led_event
  | BspResources
  | MonoStart
  | Stage led_event
  | UsbInit
  | EthSetup eth_op
  | MacSetup eth_op
  | PortSetup lp_write
  | Spawn string

text \<open>A LED: its pad, then the pin; \<open>regs\<close> are the GPIO registers.\<close>

definition init_led :: "u8 \<Rightarrow> regs \<Rightarrow> (fast_output \<times> regs \<times> init_event list) option" where
  "init_led pin regs = do {
     gpio \<leftarrow> led_fast_gpio pin;
     pad \<leftarrow> configure_led_pad pin;
     let out = fast_output_new gpio;
     regs \<leftarrow> fast_output_init out regs;
     Some (out, regs, map InitPad pad @ [PinInit gpio]) }"

definition init_stage ::
  "u32 \<Rightarrow> u8 \<Rightarrow> fast_output \<times> fast_output \<times> fast_output \<Rightarrow>
     ((fast_output \<times> fast_output \<times> fast_output) \<times> init_event list) option" where
  "init_stage hz code outs = do { (outs, es) \<leftarrow> boot_stage hz code outs; Some (outs, map Stage es) }"

definition app_init ::
  "board_cfg \<Rightarrow> (nat \<Rightarrow> bool) \<Rightarrow> 'p mdio_hw \<Rightarrow> 'p \<Rightarrow> nat \<Rightarrow> nat \<Rightarrow> regs \<Rightarrow>
     (app \<times> regs \<times> 'p mdio_port \<times> init_event list) option" where
  "app_init cfg locked hw phy rx_ring tx_ring regs = do {
     let hz = cp_core_hz (bc_profile cfg);
     (indicator, regs, t1) \<leftarrow> init_led (bc_indicator cfg) regs;
     (indicator, flash) \<leftarrow> flash_indicator (bc_profile cfg) indicator;
     (led_a, regs, t2) \<leftarrow> init_led (bc_led_a cfg) regs;
     (led_b, regs, t3) \<leftarrow> init_led (bc_led_b cfg) regs;
     (leds, s1) \<leftarrow> init_stage hz 1 (indicator, led_a, led_b);
     (leds, s2) \<leftarrow> init_stage hz 2 leds;
     let (diag, eth) = setup_clocks_and_pins locked boot_diag_new;
     (leds, s3) \<leftarrow> init_stage hz 3 leds;
     let ecat_enet = enet_new RxDT_default TxDT_default;
     (leds, s4) \<leftarrow> init_stage hz 4 leds;
     let (port, _) = setup_phy hw \<lparr>mp_diag = diag, mp_reads = 0, mp_phy = phy\<rparr>;
     (leds, s5) \<leftarrow> init_stage hz 5 leds;
     let ecat_master = master_new (device_new ecat_enet ECAT_MAC);
     ((indicator, led_a, led_b), s6) \<leftarrow> init_stage hz 6 leds;
     pads \<leftarrow> configure_pads (bc_sdo cfg) (bc_sck cfg) (bc_sdi cfg) (bc_cs cfg);
     ready_pad \<leftarrow> configure_frame_ready_pad (bc_frame_ready cfg);
     (spi, lp) \<leftarrow> host_spi_new (frame_len LAYOUT);
     ready_gpio \<leftarrow> teensy_pin_to_fast_gpio Teensy41 (bc_frame_ready cfg);
     let frame_ready = fast_output_new ready_gpio;
     regs \<leftarrow> fast_output_init frame_ready regs;
     Some (\<lparr>ap_usb = \<lparr>us_line = [], us_banner_done = False, us_banner_line = 0, us_cmd = None, us_out = ecat_out_new\<rparr>,
            ap_usb_configured = False, ap_master = ecat_master, ap_bridge = host_new LAYOUT, ap_led_a = led_a,
            ap_led_b = led_b, ap_spi = spi, ap_lpspi = lp, ap_frame_ready = frame_ready\<rparr>, regs, port,
       [BspPrepare, ClockApply] @ t1 @ map Flash flash @ [BspResources] @ t2 @ t3 @ [MonoStart] @ s1 @ [UsbInit] @ s2
       @ map EthSetup eth @ s3 @ map MacSetup (new_registers rx_ring tx_ring) @ s4 @ s5 @ s6
       @ map InitPad pads @ map InitPad ready_pad @ map PortSetup lpspi_init @ [PinInit ready_gpio]
       @ [Spawn ''blink_leds'', Spawn ''ethercat_worker'']) }"

text \<open>\<^verbatim>\<open>poll_usb\<close> after the stack has been polled: whether the device is configured, and the flag of the task. The
  results are the flag, whether the endpoints are configured now, and whether the port may be used.\<close>

definition poll_usb :: "bool \<Rightarrow> bool \<Rightarrow> bool \<times> bool \<times> bool" where
  "poll_usb device_configured configured =
     (if \<not> device_configured then (False, False, False)
      else if \<not> configured then (True, True, True)
      else (True, False, True))"

text \<open>The endpoints are configured once per attachment.\<close>

fun usb_polls :: "bool \<Rightarrow> bool list \<Rightarrow> bool list" where
  "usb_polls configured [] = []"
| "usb_polls configured (st # sts) =
     (let (configured, act, _) = poll_usb st configured in act # usb_polls configured sts)"

lemma configured_on_attach: "usb_polls configured sts = map2 (\<lambda>prev st. st \<and> \<not> prev) (configured # sts) sts"
  by (induction sts arbitrary: configured) (auto simp: poll_usb_def)

section \<open>What it leaves\<close>

lemma cargo_cfg:
  "\<exists>p. board_cfg_of cargo_env = Some \<lparr>bc_profile = p, bc_indicator = 13, bc_led_a = 4, bc_led_b = 5, bc_sdo = 26, bc_sck = 27,
     bc_sdi = 39, bc_cs = 38, bc_frame_ready = 25\<rparr> \<and> cp_core_hz p = 600000000"
proof -
  have p: "parse_u32 ''600000000'' = Some 600000000" "parse_bool ''true'' = Some True" "parse_bool ''false'' = Some False"
    "parse_u8 ''13'' = Some 13" "parse_u8 ''4'' = Some 4" "parse_u8 ''5'' = Some 5" "parse_u8 ''26'' = Some 26"
    "parse_u8 ''27'' = Some 27" "parse_u8 ''39'' = Some 39" "parse_u8 ''38'' = Some 38" "parse_u8 ''25'' = Some 25"
    by code_simp+
  have c: "\<exists>p. clock_profile_new True False 600000000 = Some p \<and> cp_core_hz p = 600000000"
    by (simp add: clock_profile_new_def supported_clocks_def clock_dividers.simps Let_def required_voltage_for_hz_def
        clamp_voltage_def OVERCLOCK_MAX_MV_def OVERCLOCK_STEP_HZ_def)
  then show ?thesis by (auto simp: board_cfg_of_def cargo_env_def p)
qed

text \<open>The code the LEDs hold at the wait of every stage, from any levels before.\<close>

fun codes_held :: "bool \<times> bool \<times> bool \<Rightarrow> init_event list \<Rightarrow> nat list" where
  "codes_held (i, a, b) (Stage e # es) =
     (let i = pin_after (fast_gpio 7 3) i e; a = pin_after (fast_gpio 9 6) a e; b = pin_after (fast_gpio 9 8) b e;
          held = (case e of LedDelay _ \<Rightarrow> [(if i then 4 else 0) + (if a then 2 else 0) + (if b then 1 else 0)] | _ \<Rightarrow> [])
      in held @ codes_held (i, a, b) es)"
| "codes_held s (_ # es) = codes_held s es"
| "codes_held s [] = []"

lemma codes_skip: "(\<And>e. e \<in> set es \<Longrightarrow> \<forall>l. e \<noteq> Stage l) \<Longrightarrow> codes_held s (es @ fs) = codes_held s fs"
proof (induction es)
  case (Cons e es)
  then have "codes_held s (es @ fs) = codes_held s fs" "\<forall>l. e \<noteq> Stage l" by simp_all
  then show ?case by (cases e; cases s) simp_all
qed simp

definition led_set :: "fast_output \<times> fast_output \<times> fast_output \<Rightarrow> bool" where
  "led_set outs \<longleftrightarrow> (case outs of (i, a, b) \<Rightarrow>
     fo_gpio i = fast_gpio 7 3 \<and> fo_gpio a = fast_gpio 9 6 \<and> fo_gpio b = fast_gpio 9 8)"

lemma init_stage_holds:
  assumes "led_set outs"
  obtains outs' s where "init_stage hz code outs = Some (outs', s)" "led_set outs'"
    "\<forall>l fs. codes_held l (s @ fs) =
       ((if code AND 4 \<noteq> 0 then 4 else 0) + (if code AND 2 \<noteq> 0 then 2 else 0) + (if code AND 1 \<noteq> 0 then 1 else 0)) #
         codes_held (code AND 4 \<noteq> 0, code AND 2 \<noteq> 0, code AND 1 \<noteq> 0) fs"
proof -
  obtain i a b where o: "outs = (i, a, b)" "fo_gpio i = fast_gpio 7 3" "fo_gpio a = fast_gpio 9 6" "fo_gpio b = fast_gpio 9 8"
    using assms by (cases outs) (simp add: led_set_def)
  note w = led_writes [OF o(2,3,4)]
  let ?w = "\<lambda>base v m. LedWrite (base + (if v then 0x84 else 0x88), m)"
  let ?es = "[?w 0x42004000 (code AND 4 \<noteq> 0) 8, ?w 0x4200C000 (code AND 2 \<noteq> 0) 0x40, ?w 0x4200C000 (code AND 1 \<noteq> 0) 0x100,
    LedDelay (hz div 3)]"
  let ?o = "(i\<lparr>fo_level := code AND 4 \<noteq> 0\<rparr>, a\<lparr>fo_level := code AND 2 \<noteq> 0\<rparr>, b\<lparr>fo_level := code AND 1 \<noteq> 0\<rparr>)"
  have e: "init_stage hz code outs = Some (?o, map Stage ?es)"
    unfolding init_stage_def boot_stage_def Let_def o(1) prod.case w bind.bind_lunit by simp
  have g: "codes_held l (map Stage [?w 0x42004000 x 8, ?w 0x4200C000 y 0x40, ?w 0x4200C000 z 0x100, LedDelay k] @ fs) =
      ((if x then 4 else 0) + (if y then 2 else 0) + (if z then 1 else 0)) # codes_held (x, y, z) fs" for l fs x y z k
    by (cases l) (simp add: pin_after_def gpio_base_def gpio_mask_def GPIO_DR_SET_def GPIO_DR_CLEAR_def Let_def)
  show thesis
  proof (rule that [OF e])
    show "led_set ?o" using o(2,3,4) by (simp add: led_set_def)
    show "\<forall>l fs. codes_held l (map Stage ?es @ fs) =
       ((if code AND 4 \<noteq> 0 then 4 else 0) + (if code AND 2 \<noteq> 0 then 2 else 0) + (if code AND 1 \<noteq> 0 then 1 else 0)) #
         codes_held (code AND 4 \<noteq> 0, code AND 2 \<noteq> 0, code AND 1 \<noteq> 0) fs"
      using g by blast
  qed
qed

lemma init_led_board:
  assumes "pin = 13 \<and> gpio = fast_gpio 7 3 \<or> pin = 4 \<and> gpio = fast_gpio 9 6 \<or> pin = 5 \<and> gpio = fast_gpio 9 8"
  obtains out regs' t where "init_led pin regs = Some (out, regs', t)" "fo_gpio out = gpio" "\<forall>e \<in> set t. \<forall>l. e \<noteq> Stage l"
proof -
  have "\<exists>out regs' t. init_led pin regs = Some (out, regs', t) \<and> fo_gpio out = gpio \<and> (\<forall>e \<in> set t. \<forall>l. e \<noteq> Stage l)"
    using assms by (elim disjE conjE)
      (simp_all add: init_led_def led_pins configure_led_pad_def fast_output_init_def fast_output_new_def gpio_base_def Let_def)
  then show thesis using that by blast
qed

lemma init_establishes:
  fixes hw :: "'p mdio_hw"
  assumes cfg: "board_cfg_of cargo_env = Some cfg"
  shows "\<exists>a regs' port tr. app_init cfg locked hw phy rx_ring tx_ring regs = Some (a, regs', port, tr) \<and>
    master_run (ap_master a) \<and> ready_device (ma_device (ap_master a)) \<and>
    (\<forall>v crash. length (cl_msg crash) = 96 \<longrightarrow>
       console_inv \<lparr>fw_master = ap_master a, fw_pit = \<lparr>pit_ldval = v, pit_on = False\<rparr>, fw_crash = crash\<rparr>) \<and>
    us_line (ap_usb a) = [] \<and> us_cmd (ap_usb a) = None \<and> out_remaining (us_out (ap_usb a)) = [] \<and>
    (\<forall>rdy. spi_ready LAYOUT (replicate (frame_len LAYOUT) 0)
       \<lparr>sp_dev = ap_spi a, sp_regs = ap_lpspi a, sp_bridge = ap_bridge a, sp_ready = rdy\<rparr>) \<and>
    (\<forall>slaves pos ns. bridge_run (cyclic_new slaves pos ns) (ap_bridge a)) \<and>
    (\<forall>l. codes_held l tr = [1, 2, 3, 4, 5, 6])"
proof -
  obtain p where c: "cfg = \<lparr>bc_profile = p, bc_indicator = 13, bc_led_a = 4, bc_led_b = 5, bc_sdo = 26, bc_sck = 27,
     bc_sdi = 39, bc_cs = 38, bc_frame_ready = 25\<rparr>"
    using cfg cargo_cfg by auto
  let ?hz = "cp_core_hz p"
  obtain ind regs1 t1 where i: "init_led 13 regs = Some (ind, regs1, t1)" "fo_gpio ind = fast_gpio 7 3" "\<forall>e \<in> set t1. \<forall>l. e \<noteq> Stage l"
    by (rule init_led_board [of 13 "fast_gpio 7 3" regs]) simp_all
  obtain ind2 flash where f: "flash_indicator p ind = Some (ind2, flash)" "fo_gpio ind2 = fast_gpio 7 3"
    using flash_indicator_shown [OF i(2), of p] flash_indicator_pin [of p ind] i(2) by fastforce
  obtain la regs2 t2 where a: "init_led 4 regs1 = Some (la, regs2, t2)" "fo_gpio la = fast_gpio 9 6" "\<forall>e \<in> set t2. \<forall>l. e \<noteq> Stage l"
    by (rule init_led_board [of 4 "fast_gpio 9 6" regs1]) simp_all
  obtain lb regs3 t3 where b: "init_led 5 regs2 = Some (lb, regs3, t3)" "fo_gpio lb = fast_gpio 9 8" "\<forall>e \<in> set t3. \<forall>l. e \<noteq> Stage l"
    by (rule init_led_board [of 5 "fast_gpio 9 8" regs2]) simp_all
  have l0: "led_set (ind2, la, lb)" using f a b by (simp add: led_set_def)
  note stage = init_stage_holds [where hz = ?hz]
  obtain o1 s1 where s1: "init_stage ?hz 1 (ind2, la, lb) = Some (o1, s1)" "led_set o1" "\<forall>l fs. codes_held l (s1 @ fs) = 1 # codes_held (False, False, True) fs"
    by (rule stage [OF l0, of 1]) simp
  obtain o2 s2 where s2: "init_stage ?hz 2 o1 = Some (o2, s2)" "led_set o2" "\<forall>l fs. codes_held l (s2 @ fs) = 2 # codes_held (False, True, False) fs"
    by (rule stage [OF s1(2), of 2]) simp
  obtain o3 s3 where s3: "init_stage ?hz 3 o2 = Some (o3, s3)" "led_set o3" "\<forall>l fs. codes_held l (s3 @ fs) = 3 # codes_held (False, True, True) fs"
    by (rule stage [OF s2(2), of 3]) simp
  obtain o4 s4 where s4: "init_stage ?hz 4 o3 = Some (o4, s4)" "led_set o4" "\<forall>l fs. codes_held l (s4 @ fs) = 4 # codes_held (True, False, False) fs"
    by (rule stage [OF s3(2), of 4]) simp
  obtain o5 s5 where s5: "init_stage ?hz 5 o4 = Some (o5, s5)" "led_set o5" "\<forall>l fs. codes_held l (s5 @ fs) = 5 # codes_held (True, False, True) fs"
    by (rule stage [OF s4(2), of 5]) simp
  obtain o6 s6 where s6: "init_stage ?hz 6 o5 = Some (o6, s6)" "led_set o6" "\<forall>l fs. codes_held l (s6 @ fs) = 6 # codes_held (True, True, False) fs"
    by (rule stage [OF s5(2), of 6]) simp
  obtain i6 a6 b6 where o6: "o6 = (i6, a6, b6)" by (cases o6)
  obtain diag eth where eth: "setup_clocks_and_pins locked boot_diag_new = (diag, eth)" by fastforce
  obtain port r where port: "setup_phy hw \<lparr>mp_diag = diag, mp_reads = 0, mp_phy = phy\<rparr> = (port, r)" by fastforce
  obtain pads where pads: "configure_pads 26 27 39 38 = Some pads" by (simp add: configure_pads_def)
  obtain rp where rp: "configure_frame_ready_pad 25 = Some rp" by (simp add: configure_frame_ready_pad_def)
  have fl: "frame_len LAYOUT \<le> 600" by code_simp
  obtain h l where spi: "host_spi_new (frame_len LAYOUT) = Some (h, l)"
    using spi_init [OF fl host_new_wf] by blast
  have ready: "spi_ready LAYOUT (replicate (frame_len LAYOUT) 0) \<lparr>sp_dev = h, sp_regs = l, sp_bridge = host_new LAYOUT, sp_ready = rdy\<rparr>" for rdy
    using spi_init [OF fl host_new_wf, of rdy] spi by auto
  have g25: "teensy_pin_to_fast_gpio Teensy41 25 = Some (fast_gpio 6 13)" by code_simp
  obtain regs4 where g: "fast_output_init (fast_output_new (fast_gpio 6 13)) regs3 = Some regs4"
    by (simp add: fast_output_init_def fast_output_new_def gpio_base_def Let_def)
  let ?m = "master_new (device_new (enet_new RxDT_default TxDT_default) ECAT_MAC)"
  let ?tr = "[BspPrepare, ClockApply] @ t1 @ map Flash flash @ [BspResources] @ t2 @ t3 @ [MonoStart] @ s1 @ [UsbInit] @ s2
       @ map EthSetup eth @ s3 @ map MacSetup (new_registers rx_ring tx_ring) @ s4 @ s5 @ s6
       @ map InitPad pads @ map InitPad rp @ map PortSetup lpspi_init @ [PinInit (fast_gpio 6 13)]
       @ [Spawn ''blink_leds'', Spawn ''ethercat_worker'']"
  let ?a = "\<lparr>ap_usb = \<lparr>us_line = [], us_banner_done = False, us_banner_line = 0, us_cmd = None, us_out = ecat_out_new\<rparr>,
            ap_usb_configured = False, ap_master = ?m, ap_bridge = host_new LAYOUT, ap_led_a = a6,
            ap_led_b = b6, ap_spi = h, ap_lpspi = l, ap_frame_ready = fast_output_new (fast_gpio 6 13)\<rparr>"
  have run: "app_init cfg locked hw phy rx_ring tx_ring regs = Some (?a, regs4, port, ?tr)"
    unfolding app_init_def Let_def c
    by (simp add: i a b f s1 s2 s3 s4 s5 s6 o6 eth port pads rp spi g25 g)
  have free: "\<not> tx_owned_by_dma (enet_new RxDT_default TxDT_default)"
    by (simp add: tx_owned_by_dma_def enet_new_def enable_dma_def reset_descriptor_tables_def RxDT_default_def TxDT_default_def Let_def)
  have wf: "dev_wf (device_new (enet_new RxDT_default TxDT_default) ECAT_MAC)"
    using enet_new_wf by (simp add: dev_wf_def device_new_def ECAT_MAC_def)
  have dev: "ready_device (ma_device ?m)"
    using wf free by (simp add: ready_device_def master_new_def device_new_def)
  have m: "master_run ?m" using wf by (rule master_run.start)
  have con: "length (cl_msg crash) = 96 \<longrightarrow>
      console_inv \<lparr>fw_master = ?m, fw_pit = \<lparr>pit_ldval = v, pit_on = False\<rparr>, fw_crash = crash\<rparr>" for v crash
    using master_run_inv [OF m] by (simp add: console_inv_def cyclic_active_def master_new_def)
  have skip: "codes_held l (es @ fs) = codes_held l fs" if "\<forall>e \<in> set es. \<forall>l. e \<noteq> Stage l" for l es fs
    using codes_skip [of es l fs] that by blast
  have maps: "codes_held l (map Flash xs @ fs) = codes_held l fs" "codes_held l (map EthSetup ys @ fs) = codes_held l fs"
      "codes_held l (map MacSetup ys @ fs) = codes_held l fs" "codes_held l (map InitPad zs @ fs) = codes_held l fs"
      "codes_held l (map PortSetup us @ fs) = codes_held l fs" for l xs ys zs us fs
    by (rule skip, simp)+
  have one: "codes_held l (e # fs) = codes_held l fs" if "\<forall>l. e \<noteq> Stage l" for l e fs
    using skip [of "[e]" l fs] that by simp
  have none: "codes_held l [] = []" for l by (cases l) simp
  have codes: "codes_held l ?tr = [1, 2, 3, 4, 5, 6]" for l
    by (simp add: one skip i(3) a(3) b(3) maps s1(3) s2(3) s3(3) s4(3) s5(3) s6(3) none)
  show ?thesis
  proof (intro exI conjI allI)
    show "app_init cfg locked hw phy rx_ring tx_ring regs = Some (?a, regs4, port, ?tr)" by (rule run)
    show "codes_held l ?tr = [1, 2, 3, 4, 5, 6]" for l by (rule codes)
  qed (use m dev con ready bridge_run.start in \<open>simp_all add: ecat_out_new_def out_remaining_def\<close>)
qed

end
