(* ===== verification/Spec2Isabelle.thy ===== *)
theory Spec2Isabelle
  imports MasterRun BlockScan ConsoleRun Spi W5500Chip Init
begin

text \<open>
  A verification of the RTIC EtherCAT master firmware (\<^verbatim>\<open>src/src\<close>), which drives two CiA-402 servo
  drives over EtherCAT from an i.MX RT1062 and is itself commanded by a LinuxCNC host over SPI and by an
  operator over a serial line.

  \<^bold>\<open>The parts and how they interact.\<close> The operator types at a USB console (\<open>Console\<close>, \<open>ConsoleRun\<close>): the
  interrupt edits the line and parses it (\<open>Cli\<close>), the worker takes one command at a time, drives it and
  leaves the response in a buffer that the interrupt sends. The master
  (\<open>Master\<close>, \<open>MasterRun\<close>) turns a request into an operation and polls it, one datagram at a time, until it
  has an outcome. An operation is a tree of state machines, all over one request channel (\<open>Channel\<close>): the
  bus scan (\<open>Scan\<close>; \<open>BlockScan\<close> is the blocking one), the AL state change (\<open>Change\<close>), SDO transfers and
  sequences of them (\<open>Coe\<close>), the distributed clocks (\<open>Dc\<close>) and the bring-up of one slave
  (\<open>SlaveConfig\<close>), which writes the register pages (\<open>Pages\<close>) of the generated bus configuration
  (\<open>Config\<close>). Every exchange goes through the EtherCAT device (\<open>Device\<close>) over the DMA rings of the
  Ethernet controller (\<open>Enet\<close>), in frames of datagrams (\<open>Datagram\<close>). Once the slaves are configured the
  timer interrupt runs the cyclic engine (\<open>Cyclic\<close>): it takes the reply of the last cycle into the process
  image (\<open>Domain\<close>), lets the host's outputs in (\<open>Host\<close>, with the streamed samples of \<open>Motion\<close>), lets the
  drive control write the controlwords (\<open>Cia402\<close>, over the pins of \<open>Hal\<close>) and sends the next frame.
  \<open>Bridge\<close> composes the engine and the host over whole runs, \<open>BringUp\<close> adds a healthy bus; the host's frames arrive byte by byte at the
  SPI port (\<open>Spi\<close>). \<open>Board\<close> holds the period timer of the interrupt, clock profiles and pins, \<open>Boot\<close> the
  clock switch, the pads, the LEDs with boot stages and crash code and the ways out of the firmware, \<open>Phy\<close> the
  PHY behind the controller with its set-up and start-up diagnostics, \<open>Init\<close> the start that composes them all; \<open>Modbus\<close> the
  register server the firmware keeps beside EtherCAT, \<open>W5500\<close> the network chip it is served over (and
  \<open>W5500Chip\<close> a connection on that chip as documented, which goes on by itself between and during the driver's
  accesses). \<open>Ecrt\<close> holds the constants and byte accessors,
  \<open>Text\<close> the formatting of numbers, \<open>Prelude\<close> what all share.

  \<^bold>\<open>How the code is rendered.\<close> A \<^verbatim>\<open>struct\<close> is a record, an \<^verbatim>\<open>enum\<close> a datatype, an integer of \<open>w\<close> bits a
  \<open>w word\<close> (\<^verbatim>\<open>usize\<close> indices and lengths are \<open>nat\<close>), a byte slice a list; a panic of the source (an index
  or a slice out of range, a copy of unequal lengths) is \<^term>\<open>None\<close> of an outer option, an \<^verbatim>\<open>Err\<close> is
  \<^term>\<open>Inl\<close>. \<^verbatim>\<open>&mut self\<close> is state passing. Arithmetic wraps, as in the release build the Makefile makes.
  Memory fences, register writes without effect on the modelled state and the clock are left out; the
  timer's latency count is an argument of the tick, and what the network and the DMA engine do to the device
  between two calls is an arbitrary function (or an arbitrary well-formed device), assumed friendly in
  \<open>BringUp\<close> alone.

  \<^bold>\<open>Interfaces.\<close> \<open>Channel.bounded_fsm\<close> is the contract of a state machine towards its driver: no panic in a
  good state, and a pending step lowers a measure; that a driven machine ends under any network is proved
  there once. \<open>change\<close>, \<open>coe\<close>, \<open>coe_seq\<close>, \<open>dc\<close>, \<open>slave_config\<close>, \<open>scan\<close>, \<open>pre_op\<close>, \<open>config_seq\<close> and
  \<open>down\<close> interpret it. The measures are explicit, so the bounds of the termination theorems are numbers: one
  exchange takes at most 2002 polls (\<^verbatim>\<open>PUMP_MAX_ATTEMPTS\<close> is 2000), a state change at most 2003 exchanges, an
  SDO transfer 1002, a scanned slave 2415. The locale of \<open>Motion\<close> is the contract of a bounded queue, which
  the motion ring refines.

  \<^bold>\<open>What the theorems of this theory show.\<close> C1 to C9: the cyclic engine
  under a host, that is the safe state, no panic in any run, what a tick computes, sends and believes, and
  that a healthy bus is brought up within a bound. C10 to C13: the exchange of inputs with the host, pins, and the
  drive state machine. C14 to C18: the host bridge and the motion stream. C19 to C22: frames and
  the device. C23 to C30: the state machines, their ends, what success means, what they write. C31: the start of the
  firmware, which leaves the initial states of the runs. C32 to C35: the
  master over all requests and interleavings. C36 and C37: the command line and the operator's session at
  the console. C38: the SPI port under the host's exchange. C39 and C40: the register server, and the same
  over the TCP socket of the W5500. The lemmas of the
  component theories are grouped the same way: shape of the operation's result, well-formedness kept,
  progress, meaning.

  \<^bold>\<open>Not modelled.\<close> The board support package, interrupt wiring and the RTIC locks, the USB device and its stack, smoltcp (the W5500 and the
  tokens of the driver are modelled, a stack over them is not in the program), generators and scripts, the
  stubs of \<^verbatim>\<open>src/src/ethercat\<close> that hold only a comment. Registers appear as far as the model needs them: the
  FIFOs of the SPI port, descriptors, timer loads, GPIO bits; set-up writes are lists of field writes,
  addresses and bit layouts of the peripherals being the register crate's. Plain accessors and constants used
  by none of the modelled code are left out.
\<close>

unbundle bit_operations_syntax

section \<open>Fixtures for the witnesses\<close>

text \<open>A device as \<^verbatim>\<open>main\<close> creates it, and a host frame with a quick stop request.\<close>

definition idle_device :: device where
  "idle_device = device_new (enet_new RxDT_default TxDT_default) [2, 0, 0, 0, 0, 1]"

definition receiving :: "bytes \<Rightarrow> device" where
  "receiving f = idle_device\<lparr>dev_enet := (dev_enet idle_device)
     \<lparr>rx_desc := (rx_desc (dev_enet idle_device))[0 := \<lparr>ds_len = of_nat (14 + length f), ds_flags = 0\<rparr>],
      rx_bufs := (rx_bufs (dev_enet idle_device))
        [0 := replicate 12 0 @ [0x88, 0xA4] @ f @ replicate (1522 - length f) 0]\<rparr>\<rparr>"

definition sealed :: "bytes \<Rightarrow> bytes" where
  "sealed body = body @ le16 (crc16 body)"

definition host_frame :: "u8 \<Rightarrow> bytes \<Rightarrow> bytes" where
  "host_frame flags outputs = sealed (le16 MAGIC @ [1, flags] @ le16 7 @ le16 9 @ outputs @ [0])"

definition stop_frame :: bytes where
  "stop_frame = host_frame 5 (replicate 32 0)"

definition stopped_host :: host_bridge where
  "stopped_host = absorbed (host_new LAYOUT) stop_frame"

definition fresh_engine :: cyclic where
  "fresh_engine = cyclic_new [] 0 1000000"

lemma idle_device_wf: "dev_wf idle_device"
  using enet_new_wf by (simp add: idle_device_def device_new_def dev_wf_def)

lemma receiving_wf:
  assumes "length f \<le> 1522"
  shows "dev_wf (receiving f)"
proof -
  have upd: "b \<in> set (xs[i := x]) \<Longrightarrow> b = x \<or> b \<in> set xs" for b x :: bytes and xs i
    using set_update_subset_insert [of xs i x] by auto
  show ?thesis
    using idle_device_wf assms by (auto simp: dev_wf_def receiving_def enet_wf_def dest!: upd)
qed

lemma stop_frame_accepted: "accepted LAYOUT stop_frame"
  by code_simp

lemma stopped_host_ingest: "host_ingest LAYOUT (host_new LAYOUT) stop_frame = Some stopped_host"
  using host_ingest_accept [OF stop_frame_accepted host_new_wf] bridge_idle_motion [OF host_new_wf]
  by (simp add: stopped_host_def)

lemma stop_frame_flags: "stop_frame ! 3 = 5"
  by (simp add: stop_frame_def host_frame_def sealed_def le16_def nth_append)

lemma stopped_host_facts: "hb_out_valid stopped_host" "quick_stop_requested stopped_host"
  by (simp_all add: stopped_host_def absorbed_def quick_stop_requested_def stop_frame_flags flag_QUICK_STOP_def)

lemma fresh_run: "bridge_run fresh_engine (host_new LAYOUT)"
  unfolding fresh_engine_def by (rule bridge_run.start)

lemma stopped_run: "bridge_run fresh_engine stopped_host"
  by (rule bridge_run.frame [OF fresh_run stopped_host_ingest])

lemma stopped_tick:
  obtains c' d' ix' h' where "tick_with_host LAYOUT 0 fresh_engine idle_device 0 stopped_host = Some (c', d', ix', h')"
  using bridge_tick [OF bridge_run_inv [OF stopped_run] idle_device_wf, of 0 0] by metis

text \<open>The two drives of the bus.\<close>

lemma bus_drives:
  "cia402_new ! 0 \<in> set cia402_new" "cia402_new ! 1 \<in> set cia402_new" "length cia402_new = 2"
  using bridge_drives(3) [OF bridge_start, of "[]" 0 0] by (simp_all add: cyclic_new_def)

lemma run_drives:
  assumes "bridge_inv c h" "i < 2"
  shows "bd_cw (cy_cia402 c ! i) = bd_cw (cia402_new ! i)" "bd_sw (cy_cia402 c ! i) = bd_sw (cia402_new ! i)"
    "i < length (cy_cia402 c)"
proof -
  have len: "length (cy_cia402 c) = 2" by (rule bridge_drives [OF assms(1)])
  have p: "map bd_cw (cy_cia402 c) = map bd_cw cia402_new" "map bd_sw (cy_cia402 c) = map bd_sw cia402_new"
    using assms(1) by (simp_all add: bridge_inv_def)
  show "bd_cw (cy_cia402 c ! i) = bd_cw (cia402_new ! i)"
    using arg_cong [OF p(1), of "\<lambda>xs. xs ! i"] assms(2) len bus_drives(3) by simp
  show "bd_sw (cy_cia402 c ! i) = bd_sw (cia402_new ! i)"
    using arg_cong [OF p(2), of "\<lambda>xs. xs ! i"] assms(2) len bus_drives(3) by simp
  show "i < length (cy_cia402 c)" using assms(2) len by simp
qed

definition controlword :: "cyclic \<Rightarrow> nat \<Rightarrow> u16" where
  "controlword c i = ucast (read_value (live_image c) (bd_cw (cia402_new ! i)))"

definition statusword :: "cyclic \<Rightarrow> nat \<Rightarrow> u16" where
  "statusword c i = ucast (read_value (live_image c) (bd_sw (cia402_new ! i)))"

lemma narrow_wide: "ucast (ucast (w :: u16) :: u64) = w"
  by (rule bit_word_eqI) (simp add: bit_ucast_iff)

lemma run_controlword:
  assumes run: "bridge_run c h" and dev: "dev_wf d" and valid: "hb_out_valid h"
    and tick: "tick_with_host LAYOUT lat c d ix h = Some (c', d', ix', h')" and i: "i < 2"
  shows "controlword c' i =
    command_word (statusword c' i) (drive_intent c' h (host_late h) False) (bd_fr_high (cy_cia402 c ! i))"
proof -
  note inv = bridge_run_inv [OF run] and drv = run_drives [OF bridge_run_inv [OF run] i]
  show ?thesis
    using tick_controlword [OF inv dev valid tick drv(3)] drv(1,2)
    by (simp add: controlword_def statusword_def narrow_wide)
qed

section \<open>The cyclic engine under a host\<close>

text \<open>C1: the safe state. In every run of the engine with the host bridge (any network, any frames of
  the host), a tick with a quick stop request of the host, a host whose heartbeat has stalled for
  \<^verbatim>\<open>HOST_WDOG_LIMIT_CYCLES\<close> ticks, or a faulted engine puts no enable command into the image of the
  LRW: whatever controlword the host staged, a drive in operation gets the quick stop command.\<close>

theorem safe_state_commanded:
  assumes "bridge_run c h" "dev_wf d" "hb_out_valid h" "i < 2"
    and "tick_with_host LAYOUT lat c d ix h = Some (c', d', ix', h')"
    and "quick_stop_requested h \<or> host_late h \<or> cy_phase c' = Faulted"
  shows "controlword c' i \<noteq> CW_ENABLE_OP \<and>
    (statusword c' i AND SW_FAULT = 0 \<and> statusword c' i AND SW_STATE_MASK = SW_OPERATION_ENABLED \<longrightarrow>
      controlword c' i = CW_QUICK_STOP)"
  using assms(6) run_controlword [OF assms(1,2,3,5,4)]
    enable_only_on_intent [of "statusword c' i" "drive_intent c' h (host_late h) False"]
    quick_stop_commanded [of "statusword c' i" "drive_intent c' h (host_late h) False"]
  by (auto simp: drive_intent_def)

theorem safe_state_witness:
  "\<exists>c' d' ix' h'. tick_with_host LAYOUT 0 fresh_engine idle_device 0 stopped_host = Some (c', d', ix', h') \<and>
     controlword c' 0 \<noteq> CW_ENABLE_OP"
proof -
  obtain c' d' ix' h' where t: "tick_with_host LAYOUT 0 fresh_engine idle_device 0 stopped_host = Some (c', d', ix', h')"
    by (rule stopped_tick)
  have "controlword c' 0 \<noteq> CW_ENABLE_OP"
    using safe_state_commanded [OF stopped_run idle_device_wf stopped_host_facts(1) _ t, of 0] stopped_host_facts
    by simp
  then show ?thesis using t by blast
qed

text \<open>C2: no tick panics. In every run a tick returns, whatever the receive ring holds, and so does the
  absorption of any frame of the host.\<close>

theorem run_never_panics:
  assumes "bridge_run c h" "dev_wf d"
  shows "(\<exists>c' d' ix' h'. tick_with_host LAYOUT lat c d ix h = Some (c', d', ix', h') \<and> dev_wf d' \<and> bridge_run c' h') \<and>
    (\<exists>h'. host_ingest LAYOUT h f = Some h' \<and> bridge_run c h')"
proof -
  have inv: "bridge_inv c h" by (rule bridge_run_inv [OF assms(1)])
  obtain c' d' ix' h' where "tick_with_host LAYOUT lat c d ix h = Some (c', d', ix', h')" "dev_wf d'"
    using bridge_tick [OF inv assms(2), of lat ix] by metis
  then have t: "\<exists>c' d' ix' h'. tick_with_host LAYOUT lat c d ix h = Some (c', d', ix', h') \<and> dev_wf d' \<and> bridge_run c' h'"
    using bridge_run.tick [OF assms] by blast
  have "\<exists>h'. host_ingest LAYOUT h f = Some h' \<and> bridge_run c h'"
    using host_ingest_total [of LAYOUT h f] inv bridge_run.frame [OF assms(1)] by (metis bridge_inv_def)
  with t show ?thesis by blast
qed

theorem run_never_panics_witness:
  "\<exists>c' d' ix' h'. tick_with_host LAYOUT 3 fresh_engine idle_device 0 stopped_host = Some (c', d', ix', h') \<and>
     dev_wf d' \<and> bridge_run c' h'"
  using run_never_panics [OF stopped_run idle_device_wf] by blast

text \<open>A host that asks for operation, and a tick whose exchange reached every slave.\<close>

definition go_frame :: bytes where
  "go_frame = host_frame 1 (replicate 32 0)"

lemma go_frame_accepted: "accepted LAYOUT go_frame"
  by code_simp

lemma go_frame_flags: "go_frame ! 3 = 1"
  by (simp add: go_frame_def host_frame_def sealed_def le16_def nth_append)

lemma go_host:
  assumes "bridge_run c h"
  shows "bridge_run c (absorbed h go_frame)" "hb_out_valid (absorbed h go_frame)" "hb_flags (absorbed h go_frame) = 1"
proof -
  have wf: "host_wf LAYOUT h" using bridge_run_inv [OF assms] by (simp add: bridge_inv_def)
  have "host_ingest LAYOUT h go_frame = Some (absorbed h go_frame)"
    using host_ingest_accept [OF go_frame_accepted wf] bridge_idle_motion [OF wf] by simp
  then show "bridge_run c (absorbed h go_frame)" by (rule bridge_run.frame [OF assms])
qed (simp_all add: absorbed_def go_frame_flags)

lemma idle_device_free: "\<not> tx_owned_by_dma (dev_enet idle_device)"
  by (simp add: idle_device_def device_new_def tx_owned_by_dma_def enet_new_def enable_dma_def reset_descriptor_tables_def
      RxDT_default_def TxDT_default_def Let_def)

definition moving_reply :: dgram where
  "moving_reply = (request 0 Lrw 0 0 (replicate 110 0x27))\<lparr>dg_wkc := 6\<rparr>"

lemma receiving_received:
  assumes "length f \<le> 1508"
  shows "received (dev_enet (receiving f)) = (replicate 12 0 @ [0x88, 0xA4]) @ f" "\<not> rx_owned_by_dma (dev_enet (receiving f))"
proof -
  have e: "rx_pos (dev_enet idle_device) = 0" "length (rx_desc (dev_enet idle_device)) = ECAT_RX_LEN"
      "length (rx_bufs (dev_enet idle_device)) = ECAT_RX_LEN"
    by (simp_all add: idle_device_def device_new_def enet_new_def enable_dma_def reset_descriptor_tables_def RxDT_default_def
        TxDT_default_def Let_def)
  have "unat (of_nat (14 + length f) :: u16) = 14 + length f" using assms by (subst unat_of_nat_16) simp_all
  then show "received (dev_enet (receiving f)) = (replicate 12 0 @ [0x88, 0xA4]) @ f" "\<not> rx_owned_by_dma (dev_enet (receiving f))"
    using e by (simp_all add: received_def receiving_def rx_owned_by_dma_def)
qed

lemma moving_reply_received:
  "dev_wf (receiving (frame_bytes [moving_reply]))"
  "received (dev_enet (receiving (frame_bytes [moving_reply]))) = (replicate 12 0 @ [0x88, 0xA4]) @ frame_bytes (moving_reply # []) @ []"
  "\<not> rx_owned_by_dma (dev_enet (receiving (frame_bytes [moving_reply])))" "length (frame_bytes [moving_reply]) \<le> 576"
proof -
  show fl: "length (frame_bytes [moving_reply]) \<le> 576" by code_simp
  show "dev_wf (receiving (frame_bytes [moving_reply]))" using receiving_wf [of "frame_bytes [moving_reply]"] fl by simp
  show "received (dev_enet (receiving (frame_bytes [moving_reply]))) = (replicate 12 0 @ [0x88, 0xA4]) @ frame_bytes (moving_reply # []) @ []"
    "\<not> rx_owned_by_dma (dev_enet (receiving (frame_bytes [moving_reply])))"
    using receiving_received [of "frame_bytes [moving_reply]"] fl by simp_all
qed

text \<open>A run after its first tick, under a host that asks for operation.\<close>

lemma one_outstanding:
  obtains c h where "bridge_run c h" "hb_out_valid h" "hb_flags h = 1" "cy_outstanding c" "cy_appended c = []" "cy_expected_index c = 0"
proof -
  obtain c d i h0 where t: "tick_with_host LAYOUT 0 fresh_engine idle_device 0 stopped_host = Some (c, d, i, h0)" by (rule stopped_tick)
  have col0: "cyclic_collect 0 fresh_engine idle_device = Some (begin_tick 0 fresh_engine, idle_device)"
    by (simp add: cyclic_collect_def fresh_engine_def cyclic_new_def)
  note sent = tick_transmits [OF bridge_run_inv [OF stopped_run] idle_device_wf t col0 refl]
  have tl: "cy_appended c = []"
    using sent(4) by (simp add: cycle_tail_def begin_tick_def record_latency_def Let_def fresh_engine_def cyclic_new_def)
  have run: "bridge_run c h0" by (rule bridge_run.tick [OF stopped_run idle_device_wf t])
  show thesis using that [OF go_host [OF run] _ tl sent(3)] sent(2) idle_device_free by simp
qed

lemma complete_tick:
  obtains c h c' d' ix' h' where "bridge_run c h" "hb_out_valid h" "hb_flags h = 1" "dev_wf (receiving (frame_bytes [moving_reply]))"
    "tick_with_host LAYOUT 0 c (receiving (frame_bytes [moving_reply])) 1 h = Some (c', d', ix', h')"
    "last_wkc (cy_domain c') = 6" "expected_wkc (cy_domain c') = 6"
proof -
  obtain c h where c: "bridge_run c h" "hb_out_valid h" "hb_flags h = 1" "cy_outstanding c" "cy_appended c = []"
      "cy_expected_index c = 0"
    by (rule one_outstanding)
  note m = moving_reply_received
  obtain c' d' ix' h' where t: "tick_with_host LAYOUT 0 c (receiving (frame_bytes [moving_reply])) 1 h = Some (c', d', ix', h')"
    using tick_exists [OF bridge_run_inv [OF c(1)] m(1)] by blast
  have e: "dg_index moving_reply = cy_expected_index c" "length [] = length (cy_appended c)" "110 \<le> length (dg_data moving_reply)"
    using c by (simp_all add: moving_reply_def request_def)
  have w: "last_wkc (cy_domain c') = 6"
    by (rule tick_delivers [OF c(1) m(1) t c(4) m(3,2) _ _ e(1,2) m(4) e(3)]) (simp_all add: moving_reply_def)
  have "expected_wkc (cy_domain c') = 6" using run_shape [OF bridge_run.tick [OF c(1) m(1) t]] by simp
  then show thesis by (rule that [OF c(1-3) m(1) t w])
qed

lemma counter_is_no_trigger:
  assumes "i < 2"
  obtains c' d' ix' h' where
    "tick_with_host LAYOUT 0 fresh_engine idle_device 0 (absorbed (host_new LAYOUT) go_frame) = Some (c', d', ix', h')"
    "last_wkc (cy_domain c') = 0" "expected_wkc (cy_domain c') = 6"
    "controlword c' i = fst (next_controlword (statusword c' i) \<lparr>dc_enable = True, dc_fault_reset = False, dc_quick_stop = False\<rparr>
       (bd_fr_high (cy_cia402 fresh_engine ! i)))"
proof -
  note go = go_host [OF fresh_run]
  let ?h = "absorbed (host_new LAYOUT) go_frame"
  obtain c' d' ix' h' where t: "tick_with_host LAYOUT 0 fresh_engine idle_device 0 ?h = Some (c', d', ix', h')"
    using tick_exists [OF bridge_run_inv [OF go(1)] idle_device_wf] by blast
  have col: "cyclic_collect 0 fresh_engine idle_device = Some (begin_tick 0 fresh_engine, idle_device)"
    by (simp add: cyclic_collect_def fresh_engine_def cyclic_new_def)
  have w: "last_wkc (cy_domain c') = 0" "expected_wkc (cy_domain c') = 6"
    using tick_wkc [OF bridge_run_inv [OF go(1)] idle_device_wf t col] by (simp_all add: fresh_engine_def cyclic_new_def domain_BUS)
  have "\<not> host_late ?h" by code_simp
  moreover have "cy_phase c' \<noteq> Faulted"
    using tick_phase [OF bridge_run_inv [OF go(1)] idle_device_wf t col]
    by (simp add: begin_tick_def record_latency_def Let_def fresh_engine_def cyclic_new_def)
  ultimately have "drive_intent c' ?h (host_late ?h) False = \<lparr>dc_enable = True, dc_fault_reset = False, dc_quick_stop = False\<rparr>"
    using go(2,3) by (simp add: drive_intent_def enable_requested_def fault_reset_requested_def quick_stop_requested_def
        flag_ENABLE_def flag_FAULT_RESET_def flag_QUICK_STOP_def)
  then show thesis using that [OF t w] run_controlword [OF go(1) idle_device_wf go(2) t assms] by simp
qed

text \<open>C3: what a drive is told. Once the host has spoken, in a tick whose last answered exchange reached
  every slave (the working counter is complete) the controlword in the image is the profile's answer to the
  statusword in the same image and to the flags of the host, whatever the host staged for the controlword.
  With a counter that is zero or incomplete the code does the same (\<open>counter_is_no_trigger\<close>), where
  \<^verbatim>\<open>docs/linuxcnc-spi-bridge.md\<close> lists a quick stop; the property leaves those ticks out.\<close>

theorem controlword_follows_statusword:
  assumes "bridge_run c h" "dev_wf d" "hb_out_valid h" "i < 2"
    and "tick_with_host LAYOUT lat c d ix h = Some (c', d', ix', h')"
    and "last_wkc (cy_domain c') = expected_wkc (cy_domain c')"
  shows "controlword c' i = fst (next_controlword (statusword c' i)
      \<lparr>dc_enable = hb_flags h AND flag_ENABLE \<noteq> 0, dc_fault_reset = hb_flags h AND flag_FAULT_RESET \<noteq> 0,
       dc_quick_stop = hb_flags h AND flag_QUICK_STOP \<noteq> 0 \<or> host_late h \<or> cy_phase c' = Faulted\<rparr>
      (bd_fr_high (cy_cia402 c ! i)))"
  using run_controlword [OF assms(1,2,3,5,4)] assms(3)
  by (simp add: drive_intent_def enable_requested_def fault_reset_requested_def quick_stop_requested_def)

theorem controlword_witness:
  "\<exists>c h c' d' ix' h'. tick_with_host LAYOUT 0 c (receiving (frame_bytes [moving_reply])) 1 h = Some (c', d', ix', h') \<and>
     last_wkc (cy_domain c') = 6 \<and>
     controlword c' 1 = fst (next_controlword (statusword c' 1)
      \<lparr>dc_enable = True, dc_fault_reset = False, dc_quick_stop = host_late h \<or> cy_phase c' = Faulted\<rparr>
      (bd_fr_high (cy_cia402 c ! 1)))"
proof -
  obtain c h c' d' ix' h' where t: "bridge_run c h" "hb_out_valid h" "hb_flags h = 1" "dev_wf (receiving (frame_bytes [moving_reply]))"
    "tick_with_host LAYOUT 0 c (receiving (frame_bytes [moving_reply])) 1 h = Some (c', d', ix', h')"
    "last_wkc (cy_domain c') = 6" "expected_wkc (cy_domain c') = 6"
    by (rule complete_tick)
  have "last_wkc (cy_domain c') = expected_wkc (cy_domain c')" using t(6,7) by simp
  from controlword_follows_statusword [OF t(1,4,2) _ t(5) this, of 1]
  have "controlword c' 1 = fst (next_controlword (statusword c' 1)
      \<lparr>dc_enable = True, dc_fault_reset = False, dc_quick_stop = host_late h \<or> cy_phase c' = Faulted\<rparr>
      (bd_fr_high (cy_cia402 c ! 1)))"
    by (simp add: t(3) flag_ENABLE_def flag_FAULT_RESET_def flag_QUICK_STOP_def)
  then show ?thesis using t(5,6) by blast
qed

text \<open>C4: what goes on the wire. A tick hands the device exactly one frame, or none when the DMA engine
  still owns the next transmit descriptor: the transmit ring after the tick is the one before it with this
  frame submitted. The frame is the LRW with the whole process image of the tick, followed by the at most two
  monitoring or state request datagrams that are due after what the tick received. The engine expects the reply
  under the index of that LRW, records what it appended, and counts a frame as outstanding exactly when the
  device took it.\<close>

theorem tick_frame_on_wire:
  assumes "bridge_run c h" "dev_wf d" "tick_with_host LAYOUT lat c d ix h = Some (c', d', ix', h')"
  shows "\<exists>c1 d1. cyclic_collect lat c d = Some (c1, d1) \<and>
    (let tail = cycle_tail c1 (ix + 1); frame = frame_bytes (request ix Lrw 0 0 (live_image c') # map fst tail) in
      tx_side (dev_enet d') =
        (if tx_owned_by_dma (dev_enet d) then tx_side (dev_enet d)
         else tx_side (tx_submit (dev_enet d) (sent_image (eth_header (src_mac d)) frame))) \<and>
      length tail \<le> 2 \<and> cy_appended c' = map snd tail \<and>
      cy_expected_index c' = ix \<and> cy_outstanding c' = (\<not> tx_owned_by_dma (dev_enet d)))"
proof -
  have inv: "bridge_inv c h" by (rule bridge_run_inv [OF assms(1)])
  then obtain c1 d1 where col: "cyclic_collect lat c d = Some (c1, d1)"
    using cyclic_collect_total [OF _ assms(2), of c lat] by (auto simp: bridge_inv_def cyclic_inv_def)
  show ?thesis
    unfolding Let_def using tick_transmits [OF inv assms(2,3) col refl] tail_length [of c1 "ix + 1"] col by blast
qed

theorem tick_frame_witness:
  "\<exists>c' d' ix' h' frame. tick_with_host LAYOUT 0 fresh_engine idle_device 0 stopped_host = Some (c', d', ix', h') \<and>
     frame = frame_bytes [request 0 Lrw 0 0 (live_image c')] \<and>
     tx_side (dev_enet d') = tx_side (tx_submit (dev_enet idle_device) (sent_image (eth_header (src_mac idle_device)) frame)) \<and>
     cy_outstanding c'"
proof -
  obtain c' d' ix' h' where t: "tick_with_host LAYOUT 0 fresh_engine idle_device 0 stopped_host = Some (c', d', ix', h')"
    by (rule stopped_tick)
  have "cyclic_collect 0 fresh_engine idle_device = Some (begin_tick 0 fresh_engine, idle_device)"
    by (simp add: cyclic_collect_def fresh_engine_def cyclic_new_def)
  moreover have "cycle_tail (begin_tick 0 fresh_engine) 1 = []"
    by (simp add: cycle_tail_def begin_tick_def record_latency_def Let_def fresh_engine_def cyclic_new_def)
  ultimately show ?thesis
    using tick_frame_on_wire [OF stopped_run idle_device_wf t] t idle_device_free by (auto simp: Let_def)
qed

text \<open>C5: \<^verbatim>\<open>Operational\<close> means operational. In every run the engine is in its operational phase only when
  every slave it drives has reported OP.\<close>

theorem operational_means_all_op:
  assumes "bridge_run c h" "cy_phase c = Operational"
  shows "all_reached_op c"
  using bridge_run_inv [OF assms(1)] assms(2) by (simp add: bridge_inv_def cyclic_inv_def)

text \<open>The witness: two slaves on a healthy bus, after twelve ticks.\<close>

theorem operational_witness:
  "\<exists>c h. bridge_run c h \<and> cy_phase c = Operational \<and> length (cy_slaves c) = 2 \<and> all_reached_op c"
proof -
  let ?ss = "[\<lparr>cs_station = 1, cs_ring_pos = 0\<rparr>, \<lparr>cs_station = 2, cs_ring_pos = 1\<rparr>]"
  obtain c d h b where run: "healthy_run 1 ?ss 12 c d h b" using healthy_run_exists by blast
  have op: "bridge_run c h" "cy_phase c = Operational"
    using healthy_bridge_run [OF run] operational_reached [OF run] by simp_all
  have "length (cy_slaves c) = 2"
    using healthy_slaves [OF run] by (simp add: slave_rts_def push_drop_def vec_push_def)
  then show ?thesis using operational_means_all_op [OF op] op by blast
qed

text \<open>C6: bring-up. On a healthy bus (every frame comes back, every datagram answered, no error reported,
  and a slave told to go to OP reports it after at most \<open>D\<close> further status requests) the engine, started
  over any slaves and whatever the host sends meanwhile, is in its operational phase after
  \<open>4 + 2 * (D + 1)\<close> per slave ticks, and in every tick from then on; such runs of every length exist.\<close>

theorem bring_up_reaches_operational:
  "(\<forall>c d h b. healthy_run D slaves n c d h b \<longrightarrow> 4 + 2 * (D + 1) * length slaves \<le> n \<longrightarrow> cy_phase c = Operational) \<and>
   (\<exists>c d h b. healthy_run D slaves n c d h b)"
  using operational_reached healthy_run_exists by blast

theorem bring_up_witness:
  "\<exists>c d h b. healthy_run 1 [\<lparr>cs_station = 1, cs_ring_pos = 0\<rparr>, \<lparr>cs_station = 2, cs_ring_pos = 1\<rparr>] 12 c d h b \<and>
     cy_phase c = Operational"
  using bring_up_reaches_operational [of 1 "[\<lparr>cs_station = 1, cs_ring_pos = 0\<rparr>, \<lparr>cs_station = 2, cs_ring_pos = 1\<rparr>]" 12]
  by fastforce

text \<open>C7: the phases. A tick of a run changes the phase only along the edges Priming to RequestingOp or
  Operational, RequestingOp to Operational or Faulted, Operational to Faulted; a faulted engine stays
  faulted.\<close>

theorem phase_changes:
  assumes "bridge_run c h" "dev_wf d" "tick_with_host LAYOUT lat c d ix h = Some (c', d', ix', h')"
  shows "cy_phase c' = cy_phase c \<or>
    (cy_phase c, cy_phase c') \<in> {(Priming, RequestingOp), (Priming, Operational), (RequestingOp, Operational),
      (RequestingOp, Faulted), (Operational, Faulted)}"
proof -
  obtain c3 d3 ix3 h3 where "tick_with_host LAYOUT lat c d ix h = Some (c3, d3, ix3, h3)"
      "phase_edge (cy_phase c) (cy_phase c3)"
    by (rule bridge_tick [OF bridge_run_inv [OF assms(1)] assms(2), of lat ix]) (rule that, assumption, simp)
  then show ?thesis using assms(3) by (auto simp: phase_edge_iff)
qed

theorem phase_changes_witness:
  "\<exists>c' d' ix' h'. tick_with_host LAYOUT 0 fresh_engine idle_device 0 stopped_host = Some (c', d', ix', h') \<and>
     cy_phase c' \<in> {Priming, RequestingOp, Operational}"
proof -
  obtain c' d' ix' h' where t: "tick_with_host LAYOUT 0 fresh_engine idle_device 0 stopped_host = Some (c', d', ix', h')"
    by (rule stopped_tick)
  have "cy_phase fresh_engine = Priming" by (simp add: fresh_engine_def cyclic_new_def)
  then show ?thesis using phase_changes [OF stopped_run idle_device_wf t] t by auto
qed

text \<open>C8: when a slave counts as operational. Processing a reply marks a slave only for a status
  datagram recorded for that slave, with a working counter, the OP state and no error bit; a status with
  the error bit faults the engine.\<close>

theorem slave_marked_on_evidence:
  fixes w :: u16
  assumes "i < length (cy_slaves c)" "length ks = length answers"
  defines "c' \<equiv> process_effects w (map2 (\<lambda>k e. the (decode_appended k (reply_of e))) ks answers) c"
  shows "rt_reached_op (cy_slaves c' ! i) \<longleftrightarrow> rt_reached_op (cy_slaves c ! i) \<or>
    (\<exists>j<length ks. ks ! j = AppStatus i \<and> dg_wkc (answers ! j) \<noteq> 0 \<and>
       get_or 0 (dg_data (answers ! j)) 0 AND al_ERROR = 0 \<and> get_or 0 (dg_data (answers ! j)) 0 AND al_MASK = al_OP)"
proof -
  have one: "the (decode_appended k (reply_of e)) = ApOpReached i \<longleftrightarrow>
      k = AppStatus i \<and> dg_wkc e \<noteq> 0 \<and> get_or 0 (dg_data e) 0 AND al_ERROR = 0 \<and>
      get_or 0 (dg_data e) 0 AND al_MASK = al_OP" for k e
  proof -
    obtain a where "decode_appended k (reply_of e) = Some a" using decode_appended_total by blast
    then show ?thesis using decode_op_reached [of k "reply_of e" i] by (simp add: reply_of_def)
  qed
  have "ApOpReached i \<in> set (map2 (\<lambda>k e. the (decode_appended k (reply_of e))) ks answers) \<longleftrightarrow>
      (\<exists>j<length ks. the (decode_appended (ks ! j) (reply_of (answers ! j))) = ApOpReached i)"
    using assms(2) by (auto simp: in_set_conv_nth simp del: set_map)
  then show ?thesis
    unfolding c'_def effects_reached [OF assms(1)] by (simp only: one)
qed

theorem slave_marked_witness:
  "rt_reached_op (cy_slaves (process_effects 3
      (map2 (\<lambda>k e. the (decode_appended k (reply_of e))) [AppStatus 0]
        [(request 4 Fprd 1 reg_AL_STATUS [8, 0])\<lparr>dg_wkc := 1\<rparr>])
      (cyclic_new [\<lparr>cs_station = 1, cs_ring_pos = 0\<rparr>] 0 1000000)) ! 0)"
proof -
  let ?c = "cyclic_new [\<lparr>cs_station = 1, cs_ring_pos = 0\<rparr>] 0 1000000"
  have len: "0 < length (cy_slaves ?c)" by (simp add: cyclic_new_def slave_rts_def push_drop_def vec_push_def)
  show ?thesis
    by (subst slave_marked_on_evidence [OF len]) (simp_all add: request_def get_or_def)
qed

section \<open>The process image\<close>

text \<open>C9: a reply changes inputs only. Whatever the image of the engine holds, a reply to the LRW, of any
  length, leaves every byte outside the input half alone, and an input byte is afterwards the reply's or as it
  was; a reply to a full frame delivers every input byte. The counter is recorded, and the cycle counts as
  complete exactly when it is the 6 that two drives produce, as unanswered exactly when it is 0.\<close>

theorem reply_changes_inputs:
  assumes "d = (domain_from_config BUS)\<lparr>dom_image := img, last_wkc := w\<rparr>" "length img = 512"
  shows "\<exists>d' st. apply_reply d r = Some (d', st) \<and> length (dom_image d') = 512 \<and>
    (\<forall>i<512. i < 32 \<or> 110 \<le> i \<longrightarrow> dom_image d' ! i = img ! i) \<and>
    (\<forall>i. 32 \<le> i \<and> i < 110 \<longrightarrow> dom_image d' ! i = img ! i \<or> i < length (rp_data r) \<and> dom_image d' ! i = rp_data r ! i) \<and>
    (110 \<le> length (rp_data r) \<longrightarrow> (\<forall>i. 32 \<le> i \<and> i < 110 \<longrightarrow> dom_image d' ! i = rp_data r ! i)) \<and>
    last_wkc d' = rp_wkc r \<and> (st = WkcComplete \<longleftrightarrow> rp_wkc r = 6) \<and> (st = WkcZero \<longleftrightarrow> rp_wkc r = 0)"
proof -
  have c: "dom_len d = 110" "input_ranges d = [(32, 39), (71, 39)]" "expected_wkc d = 6" "dom_image d = img"
    by (simp_all add: assms(1) domain_BUS)
  have wf: "domain_wf d" using assms(2) c by (simp add: domain_wf_def)
  obtain d' st where e: "apply_reply d r = Some (d', st)" "domain_wf d'" "last_wkc d' = rp_wkc r"
      "\<And>i. i < 512 \<Longrightarrow> dom_image d' ! i =
         (if delivered 110 (length (rp_data r)) [(32, 39), (71, 39)] i then rp_data r ! i else img ! i)"
      "st = WkcComplete \<longleftrightarrow> rp_wkc r = 6 \<and> rp_wkc r \<noteq> 0" "st = WkcZero \<longleftrightarrow> rp_wkc r = 0"
    by (rule apply_reply_effect [OF wf, of r, unfolded c]) (rule that)
  have "dom_image d' ! i = img ! i" if "i < 512" "i < 32 \<or> 110 \<le> i" for i
  proof -
    have "\<not> delivered 110 (length (rp_data r)) [(32, 39), (71, 39)] i"
      using that(2) delivered_BUS_input [of "length (rp_data r)" i] by linarith
    then show ?thesis using e(4) [OF that(1)] by (simp only: if_False)
  qed
  moreover have "dom_image d' ! i = img ! i \<or> i < length (rp_data r) \<and> dom_image d' ! i = rp_data r ! i" if "32 \<le> i \<and> i < 110" for i
    using e(4) [of i] that by (cases "delivered 110 (length (rp_data r)) [(32, 39), (71, 39)] i") auto
  moreover have "dom_image d' ! i = rp_data r ! i" if "110 \<le> length (rp_data r)" "32 \<le> i \<and> i < 110" for i
    using e(4) [of i] delivered_BUS [of "length (rp_data r)" i] that by auto
  moreover have "length (dom_image d') = 512" using e(2) by (simp add: domain_wf_def)
  moreover have "st = WkcComplete \<longleftrightarrow> rp_wkc r = 6" using e(5) by auto
  ultimately show ?thesis using e(1,3,6) by blast
qed

text \<open>The witness: outputs that are not zero, and a reply with other data everywhere.\<close>

theorem reply_changes_inputs_witness:
  "\<exists>d' st. apply_reply ((domain_from_config BUS)\<lparr>dom_image := replicate 512 9, last_wkc := 3\<rparr>)
       \<lparr>rp_command = 12, rp_index = 0, rp_wkc = 6, rp_data = replicate 110 7\<rparr> = Some (d', st) \<and>
     dom_image d' ! 0 = 9 \<and> dom_image d' ! 40 = 7 \<and> dom_image d' ! 110 = 9 \<and> st = WkcComplete"
proof -
  let ?r = "\<lparr>rp_command = 12, rp_index = 0, rp_wkc = 6, rp_data = replicate 110 7\<rparr> :: reply"
  have l: "length (replicate 512 (9 :: u8)) = 512" by simp
  obtain d' st where e: "apply_reply ((domain_from_config BUS)\<lparr>dom_image := replicate 512 9, last_wkc := 3\<rparr>) ?r = Some (d', st)"
      "\<forall>i<512. i < 32 \<or> 110 \<le> i \<longrightarrow> dom_image d' ! i = replicate 512 9 ! i"
      "110 \<le> length (rp_data ?r) \<longrightarrow> (\<forall>i. 32 \<le> i \<and> i < 110 \<longrightarrow> dom_image d' ! i = rp_data ?r ! i)"
      "st = WkcComplete \<longleftrightarrow> rp_wkc ?r = 6"
    using reply_changes_inputs [OF refl l, of 3 ?r] by blast
  have "dom_image d' ! 0 = 9" "dom_image d' ! 110 = 9" using e(2) by simp_all
  moreover have "dom_image d' ! 40 = 7" using e(3) by simp
  ultimately show ?thesis using e(1,4) by auto
qed

text \<open>C10: the exchange. In every run, a tick that finds the answer to its outstanding frame (the LRW under the
  expected index, with an answer to every appended datagram) takes over the counter and all input bytes: they
  lie in the image the tick sends, and in the reply staged for the host, with the status of the tick before
  them and the checksum behind.\<close>

theorem inputs_reach_host:
  assumes "bridge_run c h" "dev_wf d" "tick_with_host LAYOUT lat c d ix h = Some (c', d', ix', h')"
    and "cy_outstanding c" "\<not> rx_owned_by_dma (dev_enet d)"
    and "received (dev_enet d) = hdr @ frame_bytes (lrw # as) @ pad" "length hdr = 14" "drop 12 hdr = [0x88, 0xA4]"
    and "dg_index lrw = cy_expected_index c" "length as = length (cy_appended c)"
      "length (frame_bytes (lrw # as)) \<le> 576" "110 \<le> length (dg_data lrw)"
    and "ins = take 78 (drop 32 (dg_data lrw))"
  shows "drop 32 (live_image c') = ins \<and> last_wkc (cy_domain c') = dg_wkc lrw \<and>
    (\<exists>hb st underrun. cyclic_reply_status c' (host_late h) underrun = Some st \<and>
      hb_host_seq hb = hb_host_seq h \<and> hb_teensy_wdog hb = hb_teensy_wdog h \<and>
      host_reply h' = Some (reply_header hb st @ ins @ le16 (crc16 (reply_header hb st @ ins))))"
  by (rule tick_delivers [OF assms(1-12)]) (use assms(13) in blast)

theorem inputs_reach_host_witness:
  "\<exists>c h c' d' ix' h'. tick_with_host LAYOUT 0 c (receiving (frame_bytes [moving_reply])) 1 h = Some (c', d', ix', h') \<and>
     drop 32 (live_image c') = replicate 78 0x27 \<and> last_wkc (cy_domain c') = 6"
proof -
  obtain c h where c: "bridge_run c h" "hb_out_valid h" "hb_flags h = 1" "cy_outstanding c" "cy_appended c = []"
      "cy_expected_index c = 0"
    by (rule one_outstanding)
  note m = moving_reply_received
  obtain c' d' ix' h' where t: "tick_with_host LAYOUT 0 c (receiving (frame_bytes [moving_reply])) 1 h = Some (c', d', ix', h')"
    using tick_exists [OF bridge_run_inv [OF c(1)] m(1)] by blast
  have e: "dg_index moving_reply = cy_expected_index c" "length [] = length (cy_appended c)" "110 \<le> length (dg_data moving_reply)"
    using c by (simp_all add: moving_reply_def request_def)
  have "take 78 (drop 32 (dg_data moving_reply)) = replicate 78 0x27" "dg_wkc moving_reply = 6" by (simp_all add: moving_reply_def request_def)
  then have "drop 32 (live_image c') = replicate 78 0x27" "last_wkc (cy_domain c') = 6"
    using inputs_reach_host [OF c(1) m(1) t c(4) m(3,2) _ _ e(1,2) m(4) e(3) refl] by simp_all
  then show ?thesis using t by blast
qed

text \<open>C11: pins are independent variables. On an image of the bus, a pin reads back what was written to
  it, clipped to its width and sign-extended by its type, and no other pin changes.\<close>

theorem pins_read_back:
  assumes "i < length hal_all" "j < length hal_all" "110 \<le> length img"
  shows "read_value (write_value img (hal_all ! i) v) (hal_all ! j) =
    (if i = j then pin_clip (hal_all ! i) v else read_value img (hal_all ! j))"
proof -
  have fit: "pin_fits img (hal_all ! i)" "pin_fits img (hal_all ! j)"
    using assms BUS_pin_fits by (simp_all add: hal_all_def)
  show ?thesis
  proof (cases "i = j")
    case True
    then show ?thesis using read_write_value [OF fit(1)] by simp
  next
    case False
    then show ?thesis
      using write_value_apart [OF fit] BUS_pins_apart assms by (simp add: hal_all_def)
  qed
qed

theorem pins_read_back_witness:
  "read_value (write_value (replicate 110 0) (hal_all ! 0) 5) (hal_all ! 1) = read_value (replicate 110 0) (hal_all ! 1)"
proof -
  have "1 < length hal_all" by code_simp
  then have "0 < length hal_all" "1 < length hal_all" by linarith+
  then show ?thesis using pins_read_back [of 0 1 "replicate 110 0" 5] by simp
qed

section \<open>Drives\<close>

text \<open>C12: a drive is enabled on intent only. The command word is the enable command exactly if the host
  asks for it, nothing asks for a quick stop, the drive reports no fault and is switched on or already
  enabled; it is the quick stop command exactly if an enabled drive without a fault is to stop.\<close>

theorem enable_on_intent_only:
  "(fst (next_controlword sw cmd fr) = CW_ENABLE_OP \<longleftrightarrow>
     dc_enable cmd \<and> \<not> dc_quick_stop cmd \<and> sw AND SW_FAULT = 0 \<and>
     (sw AND SW_STATE_MASK = SW_SWITCHED_ON \<or> sw AND SW_STATE_MASK = SW_OPERATION_ENABLED)) \<and>
   (fst (next_controlword sw cmd fr) = CW_QUICK_STOP \<longleftrightarrow>
     dc_quick_stop cmd \<and> sw AND SW_FAULT = 0 \<and> sw AND SW_STATE_MASK = SW_OPERATION_ENABLED)"
  using enable_only_on_intent quick_stop_commanded by simp

text \<open>C13: a drive that follows the profile is in operation after three cycles of an enable request and
  stays there.\<close>

theorem drive_reaches_operation:
  assumes "follows_profile react" "dc_enable cmd" "\<not> dc_quick_stop cmd" "3 \<le> n"
  shows "fst (drive_run react cmd n (SW_SWITCH_ON_DISABLED, fr)) = SW_OPERATION_ENABLED"
  by (rule reaches_operation [OF assms])

definition ideal_drive :: "u16 \<Rightarrow> u16 \<Rightarrow> u16" where
  "ideal_drive sw cw =
     (if sw = SW_SWITCH_ON_DISABLED then (if cw = CW_SHUTDOWN then SW_READY_TO_SWITCH_ON else sw)
      else if sw = SW_READY_TO_SWITCH_ON then (if cw = CW_SWITCH_ON then SW_SWITCHED_ON else sw)
      else if cw = CW_ENABLE_OP then SW_OPERATION_ENABLED
      else if cw = CW_SWITCH_ON then SW_SWITCHED_ON else sw)"

theorem drive_reaches_operation_witness:
  "fst (drive_run ideal_drive \<lparr>dc_enable = True, dc_fault_reset = False, dc_quick_stop = False\<rparr> 4
     (SW_SWITCH_ON_DISABLED, False)) = SW_OPERATION_ENABLED"
proof -
  have "follows_profile ideal_drive" by code_simp
  then show ?thesis by (rule drive_reaches_operation) simp_all
qed

section \<open>The host bridge\<close>

text \<open>C14: corruption is detected. A frame that differs from an accepted one in one byte or two neighbouring
  bytes of its body, or in the two bytes of its checksum, is not accepted: it is counted and changes nothing
  else. A pair across the border of the two is left out; the checksum does not detect all of those
  (\<open>border_pair_accepted\<close>).\<close>

theorem corruption_detected:
  assumes "accepted lay f" "length f' = length f"
    and "i + 1 < mosi_len lay - 2 \<or> i = mosi_len lay - 2"
    and "\<And>j. j < length f \<Longrightarrow> j \<noteq> i \<Longrightarrow> j \<noteq> i + 1 \<Longrightarrow> f ! j = f' ! j"
    and "take (mosi_len lay) f \<noteq> take (mosi_len lay) f'"
  shows "host_ingest lay b f' = Some (count_crc_err b)"
  by (rule host_ingest_reject) (rule corrupt_rejected [OF assms])

theorem corruption_detected_witness:
  "host_ingest LAYOUT (host_new LAYOUT) (stop_frame[20 := 1]) = Some (count_crc_err (host_new LAYOUT))"
proof (rule corruption_detected [OF stop_frame_accepted, of _ 20])
  show "take (mosi_len LAYOUT) stop_frame \<noteq> take (mosi_len LAYOUT) (stop_frame[20 := 1])" by code_simp
  show "20 + 1 < mosi_len LAYOUT - 2 \<or> 20 = mosi_len LAYOUT - 2" by code_simp
qed simp_all

lemma border_pair_accepted:
  "accepted LAYOUT (stop_frame[mosi_len LAYOUT - 3 := stop_frame ! (mosi_len LAYOUT - 3) XOR 0x89,
     mosi_len LAYOUT - 2 := stop_frame ! (mosi_len LAYOUT - 2) XOR 0xA1])"
  by code_simp

text \<open>C15: the last good frame decides. A host may repeat a frame, under the same sequence number and with the
  same outputs and flags, as often as it likes. After any sequence of frames the staged outputs and the flags are
  those of the last accepted frame that was not such a repetition; repetitions and frames that are not accepted
  leave them alone. (A frame with the sequence number of the one before and other contents is absorbed as well,
  \<open>repeated_sequence_absorbed\<close>, though the comment in \<^verbatim>\<open>ingest\<close> says it is ignored; the property leaves such
  hosts out.)\<close>

theorem last_good_frame_decides:
  assumes "host_wf lay b" "repeats_agree lay (spoken b) fs" "fr = fresh_frames lay (map_option fst (spoken b)) fs"
  shows "\<exists>b'. host_ingest_all lay b fs = Some b' \<and> host_wf lay b' \<and>
    hb_out_valid b' = (hb_out_valid b \<or> filter (accepted lay) fs \<noteq> []) \<and>
    (hb_staged_out b', hb_flags b') = (if fr = [] then (hb_staged_out b, hb_flags b) else (frame_outputs (last fr), last fr ! 3))"
  by (rule host_ingest_fresh [OF assms])

definition later_frame :: bytes where
  "later_frame = sealed (le16 MAGIC @ [1, 5] @ le16 8 @ le16 10 @ replicate 32 1 @ [0])"

lemma later_frame_accepted: "accepted LAYOUT later_frame"
  by code_simp

lemma frames_read:
  "frame_seq go_frame = of_le16 7 0" "frame_seq stop_frame = of_le16 7 0" "frame_seq later_frame = of_le16 8 0"
  "frame_outputs later_frame = replicate 32 1" "later_frame ! 3 = 5"
proof -
  have seven: "le16 7 = [7, 0]" "le16 8 = [8, 0]" by code_simp+
  show "frame_seq go_frame = of_le16 7 0" "frame_seq stop_frame = of_le16 7 0" "frame_seq later_frame = of_le16 8 0"
    "frame_outputs later_frame = replicate 32 1" "later_frame ! 3 = 5"
    by (simp_all add: frame_seq_def frame_outputs_def go_frame_def stop_frame_def later_frame_def host_frame_def sealed_def
        length_le16 seven nth_append)
qed

theorem last_good_frame_witness:
  "\<exists>b'. host_ingest_all LAYOUT (host_new LAYOUT) [go_frame, later_frame, [], later_frame] = Some b' \<and>
     hb_staged_out b' = replicate 32 1 \<and> hb_flags b' = 5"
proof -
  let ?fs = "[go_frame, later_frame, [], later_frame]"
  have s: "spoken (host_new LAYOUT) = None" by (simp add: spoken_def host_new_def)
  have "(of_le16 7 0 :: u16) \<noteq> of_le16 8 0" "\<not> accepted LAYOUT []" by (code_simp, simp add: accepted_def mosi_len_eq)
  note facts = this go_frame_accepted later_frame_accepted frames_read
  have a: "repeats_agree LAYOUT (spoken (host_new LAYOUT)) ?fs" unfolding s by (simp add: facts)
  have fr: "[go_frame, later_frame] = fresh_frames LAYOUT (map_option fst (spoken (host_new LAYOUT))) ?fs"
    unfolding s by (simp add: facts)
  show ?thesis using last_good_frame_decides [OF host_new_wf a fr] frames_read by auto
qed

lemma repeated_sequence_absorbed:
  "\<exists>b'. host_ingest_all LAYOUT (host_new LAYOUT) [go_frame, stop_frame] = Some b' \<and>
     frame_seq go_frame = frame_seq stop_frame \<and> hb_flags b' = 5 \<and> hb_seq_errs b' = hb_seq_errs (host_new LAYOUT) + 1"
proof -
  have run: "bridge_run fresh_engine (absorbed (host_new LAYOUT) go_frame)" by (rule go_host [OF fresh_run])
  then have wf: "host_wf LAYOUT (absorbed (host_new LAYOUT) go_frame)" using bridge_run_inv by (simp add: bridge_inv_def)
  have "host_ingest LAYOUT (host_new LAYOUT) go_frame = Some (absorbed (host_new LAYOUT) go_frame)"
    using host_ingest_accept [OF go_frame_accepted host_new_wf] bridge_idle_motion [OF host_new_wf] by simp
  moreover have "host_ingest LAYOUT (absorbed (host_new LAYOUT) go_frame) stop_frame =
      Some (absorbed (absorbed (host_new LAYOUT) go_frame) stop_frame)"
    using host_ingest_accept [OF stop_frame_accepted wf] bridge_idle_motion [OF wf] by simp
  moreover have "frame_seq go_frame = frame_seq stop_frame" by (simp only: frames_read)
  moreover have "\<not> hb_out_valid (host_new LAYOUT)" by (simp add: host_new_def)
  ultimately show ?thesis
    by (simp add: absorbed_def stop_frame_flags flip: frame_seq_def)
qed

text \<open>C16: the watchdog. Without a new heartbeat the stall counter of a spoken host counts the ticks, up to
  its saturation; so after twenty silent ticks from a fresh heartbeat the host is late, and stays late.\<close>

theorem silent_host_is_late:
  assumes "hb_host_wdog b = hb_last_seen_wdog b" "hb_out_valid b" "20 \<le> unat (hb_stall b) + n + 1"
  shows "host_late (watchdog_ticks n b)"
proof -
  have w: "unat (hb_stall (watchdog_ticks (Suc n) b)) = min 65535 (unat (hb_stall b) + Suc n)"
    using watchdog_stalled [OF assms(1,2), of "Suc n"] by blast
  have "snd (tick_watchdog (watchdog_ticks n b)) = hb_stall (watchdog_ticks (Suc n) b)"
    by (simp add: tick_watchdog_def Let_def)
  then show ?thesis
    using w assms(3) by (simp add: host_late_def HOST_WDOG_LIMIT_CYCLES_def word_le_nat_alt)
qed

theorem silent_host_witness:
  "host_late (watchdog_ticks 20 (fst (tick_watchdog stopped_host)))"
proof (rule silent_host_is_late)
  show "hb_out_valid (fst (tick_watchdog stopped_host))" by (simp add: stopped_host_facts)
qed (simp_all add: tick_watchdog_def Let_def)

text \<open>C17: streamed motion. Up to 32 samples pushed for consecutive cycles come out on those cycles, each on
  its own and in order, fitted to the sample size, and the ring is empty again.\<close>

theorem motion_stream_delivered:
  assumes "ring_ok n r" "ring_queue r = []" "length ps \<le> 32"
  shows "\<exists>r1 r2. push_all motion_push r (tagged c ps) = Some r1 \<and>
    pull_all motion_pull r1 (map fst (tagged c ps)) = Some (r2, map (\<lambda>p. Some (fit_sample n p)) ps) \<and> ring_queue r2 = []"
  using motion.stream_delivered [OF assms] by blast

theorem motion_stream_witness:
  "\<exists>r1 r2. push_all motion_push (motion_new 4) (tagged 0xFFFFFFFF [[1, 2], [3, 4, 5, 6, 7]]) = Some r1 \<and>
     pull_all motion_pull r1 (map fst (tagged 0xFFFFFFFF [[1, 2], [3, 4, 5, 6, 7 :: u8]])) =
       Some (r2, [Some [1, 2, 0, 0], Some [3, 4, 5, 6]]) \<and> ring_queue r2 = []"
proof -
  have "ring_ok 4 (motion_new 4)" using motion_new_wf [of 4] by (simp add: ring_ok_def motion_new_def)
  then show ?thesis
    using motion_stream_delivered [of 4 "motion_new 4" "[[1, 2], [3, 4, 5, 6, 7]]" "0xFFFFFFFF"] motion_new_queue
    by (simp add: fit_sample_def numeral_2_eq_2)
qed

text \<open>C18: the motion ring is a queue. The ring over its fixed array implements a bounded queue: a push
  appends unless 32 samples wait, a pull drops the samples of passed cycles and returns the one of the
  current cycle if it is at the head.\<close>

theorem motion_ring_refines_queue:
  assumes "motion_wf r"
  shows "(\<exists>r'. motion_push r tag p = Some (r', length (ring_queue r) < 32) \<and> motion_wf r' \<and>
      ring_queue r' = (if length (ring_queue r) < 32 then ring_queue r @ [(tag, fit_sample (mr_sample_len r) p)] else ring_queue r)) \<and>
    (\<exists>r'. motion_pull r current = Some (r', snd (queue_pull current (ring_queue r))) \<and> motion_wf r' \<and>
      ring_queue r' = fst (queue_pull current (ring_queue r)))"
  using motion_push_queue [OF assms] motion_pull_queue [OF assms] by blast

theorem motion_ring_witness:
  "\<exists>r'. motion_push (motion_new 2) 5 [1] = Some (r', True) \<and> ring_queue r' = [(5, [1, 0])]"
  using motion_ring_refines_queue [OF motion_new_wf, of 2 5 "[1]" 0]
  by (simp add: motion_new_queue fit_sample_def) (auto simp: motion_new_def)

section \<open>Frames and the device\<close>

text \<open>C19: frames round trip. A frame built with one datagram and extended by others parses back, datagram
  by datagram, to what was put in, with the answers of the slaves.\<close>

theorem frame_round_trip:
  assumes "dgrams_len (ds @ d # es) < 2048"
  shows "parse_at (frame_bytes (ds @ d # es) @ rest) (2 + dgrams_len ds) =
      Some (Some (reply_of d, if es = [] then 0 else 2 + dgrams_len (ds @ [d]))) \<and>
    (ds = [] \<longrightarrow> parse (frame_bytes (ds @ d # es) @ rest) = Some (Some (reply_of d)))"
  using parse_at_frame [OF assms] parse_frame [of d es rest] assms by auto

theorem frame_round_trip_witness:
  "parse (frame_bytes [request 7 Fprd 1 0x130 [0, 0]]) =
     Some (Some \<lparr>rp_command = command_code Fprd, rp_index = 7, rp_wkc = 0, rp_data = [0, 0]\<rparr>)"
  using frame_round_trip [of "[]" "request 7 Fprd 1 0x130 [0, 0]" "[]" "[]"]
  by (simp add: request_def reply_of_def)

text \<open>C20: building. \<^verbatim>\<open>build\<close> and \<^verbatim>\<open>append\<close> write exactly the frame of the datagrams given so far, padded to
  the Ethernet minimum, and leave the rest of the buffer alone.\<close>

theorem build_writes_frame:
  assumes "length payload + 12 < 2048" "max 46 (14 + length payload) \<le> length buf"
    and "dgrams_len ds + 12 + length payload < 2048" "ds \<noteq> []"
    and "max 46 (14 + dgrams_len ds + length payload) \<le> max 46 (2 + dgrams_len ds) + length rest"
  shows "build buf ix cmd adp ado payload =
      Some (frame_bytes [request ix cmd adp ado payload] @ drop (max 46 (14 + length payload)) buf,
            max 46 (14 + length payload)) \<and>
    append (frame_bytes ds @ rest) ix cmd adp ado payload =
      Some (frame_bytes (ds @ [request ix cmd adp ado payload]) @
              drop (max 46 (14 + dgrams_len ds + length payload) - max 46 (2 + dgrams_len ds)) rest,
            max 46 (14 + dgrams_len ds + length payload))"
  using build_frame [OF assms(1,2)] append_frame [OF assms(4,3,5)] by blast

theorem build_writes_frame_witness:
  "build (replicate 46 9) 1 Brd 0 0x130 [0, 0] = Some (frame_bytes [request 1 Brd 0 0x130 [0, 0]], 46)"
  using build_writes_frame [where payload = "[0, 0]" and buf = "replicate 46 9" and ds = "[request 1 Brd 0 0x130 [0, 0]]" and rest = "[]"
      and ix = 1 and cmd = Brd and adp = 0 and ado = "0x130"]
  by (simp add: request_def)

text \<open>C21: parsing is safe. Whatever bytes arrive, \<^verbatim>\<open>parse\<close> and \<^verbatim>\<open>parse_at\<close> return, and a datagram they
  report lies inside the frame, as does the offset of the next one.\<close>

theorem parse_is_safe:
  "parse frame \<noteq> None \<and> (\<exists>r. parse_at frame off = Some r \<and>
     (case r of None \<Rightarrow> True
      | Some (dg, nxt) \<Rightarrow> off + 12 + length (rp_data dg) \<le> length frame \<and>
          (nxt = 0 \<or> nxt = off + 12 + length (rp_data dg))))"
proof -
  obtain r where r: "parse_at frame off = Some r" using parse_at_total by blast
  then show ?thesis
    using parse_total [of frame] parse_at_bounds [of frame off] by (auto split: option.split prod.split)
qed

text \<open>C22: sending. The device writes broadcast destination, source address, EtherType and the frame, padded
  to 60 bytes, into the current transmit buffer and marks it ready, unless the DMA engine still owns the
  descriptor or the frame is too long: then nothing changes and the transport error is returned.\<close>

theorem device_sends:
  assumes "dev_wf d"
  shows "dev_send d frame =
    (if length frame + 14 > ECAT_MTU \<or> tx_owned_by_dma (dev_enet d) then Some (d, Inl Transport)
     else Some (d\<lparr>dev_enet := tx_submit (dev_enet d)
       (sent_image (replicate 6 0xFF @ src_mac d @ [0x88, 0xA4]) frame)\<rparr>, Inr ()))"
  using dev_send_eq [OF assms, of frame] dev_send_long [of frame d]
  by (cases "length frame + 14 > ECAT_MTU") (auto simp: eth_header_def)

theorem device_sends_witness:
  "dev_send idle_device (replicate 2000 0) = Some (idle_device, Inl Transport)"
  using device_sends [OF idle_device_wf, of "replicate 2000 0"] by simp

section \<open>State machines\<close>

text \<open>C23: a state change ends. Driven by any network, the AL state machine finishes within the stated
  number of steps, with success or an error.\<close>

theorem state_change_ends:
  assumes "dev_wf d" "\<And>k d. dev_wf d \<Longrightarrow> dev_wf (hw k d)"
  shows "\<exists>f d' ix' r. drive change_step hw (2003 * 2003 + 2003) 0 (change_new station target) d ix =
    Some (Some (f, d', ix', r)) \<and> r \<noteq> Inr False"
  using change.drive_finishes [OF change_new_inv assms(1), where hw = hw and n = "2003 * 2003 + 2003"] assms(2)
  by (fastforce simp: change_new_left)

theorem state_change_ends_witness:
  "\<exists>f d' ix' r. drive change_step (\<lambda>k d. d) (2003 * 2003 + 2003) 0 (change_new 1 2) idle_device 0 =
    Some (Some (f, d', ix', r)) \<and> r \<noteq> Inr False"
  by (rule state_change_ends [OF idle_device_wf])

text \<open>C24: success is confirmed. The machine reports success only on an AL status reply of the addressed
  slave that shows the target state without the error bit.\<close>

theorem state_change_confirmed:
  assumes "change_step f d ix = Some (f', d', ix', Inr True)" "fc_state f \<noteq> ChangeDone"
  shows "fc_state f = ReadStatus \<and> (\<exists>len r. chan_reply f' len = Some (Inr r) \<and> rp_wkc r = 1 \<and>
    get_or 0 (rp_data r) 0 AND al_ERROR = 0 \<and> get_or 0 (rp_data r) 0 AND al_MASK = fc_target f)"
  using change_done_status [OF assms] by (auto simp: status_confirms_def)

text \<open>The witness: a device with an AL status reply in its receive ring.\<close>

definition status_reply :: bytes where
  "status_reply = frame_bytes [(request 5 Fprd 1 reg_AL_STATUS [2, 0])\<lparr>dg_wkc := 1\<rparr>]"

definition answering_device :: device where
  "answering_device = receiving status_reply"

definition reading_status :: fsm_change where
  "reading_status = (change_new 1 2)\<lparr>fc_state := ReadStatus, fs_tx_len := 46,
     fs_pump := \<lparr>pump_sent = True, pump_expected = 5, pump_attempts = 0\<rparr>\<rparr>"

lemma reading_status_done:
  "map_option (\<lambda>(f, d, i, r). (fc_state f, r)) (change_step reading_status answering_device 6) = Some (ChangeDone, Inr True)"
  by code_simp

theorem state_change_confirmed_witness:
  "\<exists>f' d' ix' len r. change_step reading_status answering_device 6 = Some (f', d', ix', Inr True) \<and>
     chan_reply f' len = Some (Inr r) \<and> get_or 0 (rp_data r) 0 AND al_MASK = 2"
proof -
  obtain f' d' ix' where st: "change_step reading_status answering_device 6 = Some (f', d', ix', Inr True)"
    using reading_status_done by auto
  have "fc_state reading_status \<noteq> ChangeDone" "fc_target reading_status = 2"
    by (simp_all add: reading_status_def change_new_def)
  then show ?thesis using state_change_confirmed [OF st] st by auto
qed

text \<open>C25: an SDO transfer ends. An expedited download or upload finishes, with its result or an error, in
  the stated number of steps, whatever the mailbox of the slave does.\<close>

theorem sdo_transfer_ends:
  assumes "dev_wf d" "\<And>k d. dev_wf d \<Longrightarrow> dev_wf (hw k d)"
  shows "\<forall>f \<in> {coe_download mbox index sub dat, coe_upload mbox index sub}.
    \<exists>f' d' ix' r. drive coe_step hw (1002 * 2003 + 2003) 0 f d ix = Some (Some (f', d', ix', r)) \<and> r \<noteq> Inr False"
proof -
  have "\<exists>f' d' ix' r. drive coe_step hw (1002 * 2003 + 2003) 0 f d ix = Some (Some (f', d', ix', r)) \<and> r \<noteq> Inr False"
    if "coe_inv f" "coe_left f = 1002 * 2003 + 2002" for f
    using coe.drive_finishes [OF that(1) assms(1), where hw = hw and n = "1002 * 2003 + 2003"] assms(2) that(2) by fastforce
  then show ?thesis
    using coe_download_inv coe_upload_inv coe_new_left by (simp add: coe_download_def coe_upload_def)
qed

theorem sdo_transfer_ends_witness:
  "\<exists>f' d' ix' r. drive coe_step (\<lambda>k d. d) (1002 * 2003 + 2003) 0 (coe_upload (mailbox_of slave_info_default) 0x6041 0)
     idle_device 0 = Some (Some (f', d', ix', r)) \<and> r \<noteq> Inr False"
  using sdo_transfer_ends [OF idle_device_wf, of "\<lambda>k d. d"] by blast

text \<open>C26: the PDO configuration takes effect. Written in order into an object dictionary, the sequence for
  a PDO leaves the packed entries in the mapping object and their number in subindex 0; the sequence for a
  sync manager does the same for the assigned PDOs.\<close>

theorem pdo_configuration_effect:
  assumes "length (pdo_entries pdo) \<le> EC_MAX_PDO_ENTRIES" "length pdos \<le> 34"
  shows "(let od' = od_apply od (cs_ops (build_mapping mbox pdo))
      in od' (pdo_index pdo) 0 = [of_nat (length (pdo_entries pdo))] \<and>
         (\<forall>j<length (pdo_entries pdo). od' (pdo_index pdo) (of_nat (j + 1)) =
            le32 (pack (pe_index (pdo_entries pdo ! j)) (pe_subindex (pdo_entries pdo ! j))
                    (pe_bit_length (pdo_entries pdo ! j))))) \<and>
    (let od' = od_apply od (cs_ops (build_assign mbox sm pdos))
      in od' (pdo_assign sm) 0 = [of_nat (length pdos)] \<and>
         (\<forall>j<length pdos. od' (pdo_assign sm) (of_nat (j + 1)) = le16 (pdo_index (pdos ! j))))"
proof -
  let ?vs = "map (\<lambda>e. le32 (pack (pe_index e) (pe_subindex e) (pe_bit_length e))) (pdo_entries pdo)"
  let ?ws = "map (\<lambda>p. le16 (pdo_index p)) pdos"
  have vs: "\<forall>v\<in>set ?vs. length v \<le> 4" "length ?vs \<le> 34" and ws: "\<forall>v\<in>set ?ws. length v \<le> 4" "length ?ws \<le> 34"
    using assms by auto
  show ?thesis
    using list_writes_effect [OF vs] list_writes_effect [OF ws]
    by (simp add: Let_def build_mapping_ops [OF assms(1)] build_assign_ops [OF assms(2)])
qed

theorem pdo_configuration_witness:
  "(od_apply (\<lambda>_ _. []) (cs_ops (build_mapping (mailbox_of slave_info_default)
      \<lparr>pdo_index = 0x1600, pdo_entries = [pdo_e 0x6040 0 16, pdo_e 0x607A 0 32]\<rparr>))) 0x1600 0 = [2]"
  using pdo_configuration_effect [of "\<lparr>pdo_index = 0x1600, pdo_entries = [pdo_e 0x6040 0 16, pdo_e 0x607A 0 32]\<rparr>" "[]"]
  by (simp add: Let_def)

text \<open>C27: the whole configuration of a slave ends, in SAFE-OP or with an error, within the budget of its
  phases.\<close>

theorem slave_configuration_ends:
  assumes "dev_wf d" "\<And>k d. dev_wf d \<Longrightarrow> dev_wf (hw k d)"
  shows "\<exists>f d' ix' r. drive slave_config_step hw (slave_config_left (slave_config_new station mbox slave dref) + 1) 0
      (slave_config_new station mbox slave dref) d ix = Some (Some (f, d', ix', r)) \<and> r \<noteq> Inr False"
  using slave_config.drive_finishes [OF slave_config_new_inv assms(1), where hw = hw] assms(2) by fastforce

theorem slave_configuration_ends_witness:
  "\<exists>f d' ix' r. drive slave_config_step (\<lambda>k d. d)
      (slave_config_left (slave_config_new 1 (mailbox_of slave_info_default) (hd SLAVES) dc_ref_reference) + 1) 0
      (slave_config_new 1 (mailbox_of slave_info_default) (hd SLAVES) dc_ref_reference) idle_device 0 =
        Some (Some (f, d', ix', r)) \<and> r \<noteq> Inr False"
  by (rule slave_configuration_ends [OF idle_device_wf])

text \<open>C28: the SYNC0 start time of a slave lies on the cycle grid of the reference clock, later than the margin
  and at most one cycle beyond it, plus the shift.\<close>

theorem dc_start_on_grid:
  fixes cfg :: dc_cfg
  assumes "unat now < 2 ^ 63"
  defines "c \<equiv> max (unat (sync0_cycle_ns cfg)) 1" and "t \<equiv> unat (cyclic_start cfg now) - unat (sync0_shift_ns cfg)"
  shows "c dvd t \<and> unat now + 100000000 < t \<and> t \<le> unat now + 100000000 + c"
  using cyclic_start_grid [OF assms(1), of cfg] cycle_grid_bounds [of c "unat now + 100000000"]
  by (simp add: c_def t_def)

theorem dc_start_on_grid_witness:
  "1000000 dvd unat (cyclic_start \<lparr>assign_activate = 0x300, sync0_cycle_ns = 1000000, sync0_shift_ns = 0,
     sync1_cycle_ns = 0\<rparr> 123456789)"
  using dc_start_on_grid [of 123456789 "\<lparr>assign_activate = 0x300, sync0_cycle_ns = 1000000, sync0_shift_ns = 0,
     sync1_cycle_ns = 0\<rparr>"] by simp

text \<open>The propagation delay: the measured cable delay is half the difference of the port time spans, taken
  as zero when it is negative or beyond the plausible 10 us; the result never exceeds that bound.\<close>

theorem propagation_delay_value:
  "\<exists>v. propagation_delay [r0, r1, r2, r3] [f0, f1, f2, f3] = Some v \<and> v \<le> MAX_DELAY_NS \<and>
     (let d = uint (r1 - r0) - uint (f1 - f0)
      in v = (if -2 < d \<and> d \<le> 20001 then word_of_int (d sdiv 2) else 0))"
proof -
  obtain v where v: "propagation_delay [r0, r1, r2, r3] [f0, f1, f2, f3] = Some v"
    "(let d = uint (r1 - r0) - uint (f1 - f0) in v = (if -2 < d \<and> d \<le> 20001 then word_of_int (d sdiv 2) else 0))"
    using propagation_delay_eq [of r0 r1 r2 r3 f0 f1 f2 f3] by (simp add: Let_def)
  then show ?thesis using propagation_delay_bound by blast
qed

text \<open>C29: the scan ends. A bus scan finishes, with the end of the ring or an error, in the stated number
  of steps.\<close>

theorem scan_ends:
  assumes "dev_wf d" "\<And>k d. dev_wf d \<Longrightarrow> dev_wf (hw k d)"
  shows "\<exists>f d' ix' r. drive scan_step hw ((32 * 2415 + 1) * 2003 + 2003) 0 scan_new d ix =
    Some (Some (f, d', ix', r)) \<and> r \<noteq> Inr False"
  using scan.drive_finishes [OF scan_new_inv assms(1), where hw = hw and n = "(32 * 2415 + 1) * 2003 + 2003"] assms(2)
  by (fastforce simp: scan_new_left)

theorem scan_ends_witness:
  "\<exists>f d' ix' r. drive scan_step (\<lambda>k d. d) ((32 * 2415 + 1) * 2003 + 2003) 0 scan_new idle_device 0 =
    Some (Some (f, d', ix', r)) \<and> r \<noteq> Inr False"
  by (rule scan_ends [OF idle_device_wf])

text \<open>C30: what a scan finds. The slaves a running scan has delivered are the slaves of the ring in order,
  each under the station address of its position plus one; when the scan is done there are as many as the
  bus counted, but at most 32.\<close>

theorem scan_finds_ring:
  assumes "scan_run s found"
  shows "(\<forall>i<length found. ring_pos (found ! i) = of_nat i \<and> station_addr (found ! i) = of_nat i + 1) \<and>
    (sf_stage s = ScanDone \<longrightarrow> length found = min (unat (sf_count s)) 32)"
  using scan_run_position [OF assms]
  by (auto simp: ring_order_def slave_at_def scan_at_def scan_limit_def in_slave_def)

text \<open>The witness: an empty ring, whose broadcast read comes back with a working counter of zero.\<close>

definition scan_sent :: scan_fsm where
  "scan_sent = (case scan_step scan_new idle_device 0 of Some (s, _) \<Rightarrow> snd (take_completed_slave s) | None \<Rightarrow> scan_new)"

definition scan_empty :: scan_fsm where
  "scan_empty = (case scan_step scan_sent (receiving (frame_bytes [request 0 Brd 0 reg_AL_STATUS [0, 0]])) 1 of
     Some (s, _) \<Rightarrow> snd (take_completed_slave s) | None \<Rightarrow> scan_sent)"

lemma scan_sent_run: "scan_run scan_sent []"
proof -
  have "map_option (\<lambda>(s, d, i, r). (fst (take_completed_slave s), r)) (scan_step scan_new idle_device 0) = Some (None, Inr False)"
    by code_simp
  then obtain s d i where s: "scan_step scan_new idle_device 0 = Some (s, d, i, Inr False)" "fst (take_completed_slave s) = None"
    by auto
  show ?thesis using scan_run.tick [OF scan_run.start s(1)] s by (simp add: scan_sent_def)
qed

lemma scan_empty_run: "scan_run scan_empty []" "sf_stage scan_empty = ScanDone"
proof -
  let ?d = "receiving (frame_bytes [request 0 Brd 0 reg_AL_STATUS [0, 0]])"
  have "map_option (\<lambda>(s, d, i, r). (fst (take_completed_slave s), sf_stage s, r)) (scan_step scan_sent ?d 1) =
      Some (None, ScanDone, Inr False)"
    by code_simp
  then obtain s d i where s: "scan_step scan_sent ?d 1 = Some (s, d, i, Inr False)" "fst (take_completed_slave s) = None"
      "sf_stage s = ScanDone"
    by auto
  show "scan_run scan_empty []" using scan_run.tick [OF scan_sent_run s(1)] s by (simp add: scan_empty_def)
  show "sf_stage scan_empty = ScanDone" using s by (simp add: scan_empty_def take_completed_slave_def)
qed

theorem scan_finds_ring_witness:
  "length ([] :: slave_info list) = min (unat (sf_count scan_empty)) 32"
  using scan_finds_ring [OF scan_empty_run(1)] scan_empty_run(2) by blast

text \<open>The pages of sync managers and FMMUs are written at the offsets of the data sheet; different
  FMMU configurations give different pages.\<close>

theorem pages_written:
  assumes "length smp = 8" "length fmp = 16"
  shows "sync_write_page smp start len control enable = Some (le16 start @ le16 len @ [control, 0, enable, 0]) \<and>
    fmmu_write_page fmp f = Some (fmmu_page f) \<and> (fmmu_page f = fmmu_page g \<longleftrightarrow> f = g)"
  using sync_write_page_eq [OF assms(1)] fmmu_write_page_eq [OF assms(2)] fmmu_page_inject by (simp add: sm_page_def)

theorem pages_written_witness:
  "sync_write_page (replicate 8 9) 0x1000 128 0x26 1 = Some [0, 0x10, 128, 0, 0x26, 0, 1, 0]"
proof -
  have "le16 0x1000 @ le16 128 @ [0x26, 0, 1, 0] = [0, 0x10, 128, 0, 0x26, 0, 1, 0 :: u8]" by code_simp
  then show ?thesis using pages_written [where smp = "replicate 8 9" and fmp = "replicate 16 0" and start = "0x1000" and len = 128
      and control = "0x26" and enable = 1] by simp
qed

section \<open>The start\<close>

text \<open>C31: the start. On the configured board \<^verbatim>\<open>init\<close> does not panic, whatever the PLL, the PHY and the registers
  hold; the LEDs count its six stages, so a start that hangs leaves the number of its last stage; and what it
  leaves is where the theorems on runs begin: a master, a console, a host port and a host bridge in their
  initial states, the bridge ready for an engine over any slaves, the device ready for a healthy bus.\<close>

theorem init_starts_runs:
  fixes hw :: "'p mdio_hw"
  assumes "board_cfg_of cargo_env = Some cfg"
  shows "\<exists>a regs' port tr. app_init cfg locked hw phy rx_ring tx_ring regs = Some (a, regs', port, tr) \<and>
    master_run (ap_master a) \<and> ready_device (ma_device (ap_master a)) \<and>
    (\<forall>v crash. length (cl_msg crash) = 96 \<longrightarrow>
       console_inv \<lparr>fw_master = ap_master a, fw_pit = \<lparr>pit_ldval = v, pit_on = False\<rparr>, fw_crash = crash\<rparr>) \<and>
    us_line (ap_usb a) = [] \<and> us_cmd (ap_usb a) = None \<and> out_remaining (us_out (ap_usb a)) = [] \<and>
    (\<forall>rdy. spi_ready LAYOUT (replicate (frame_len LAYOUT) 0)
       \<lparr>sp_dev = ap_spi a, sp_regs = ap_lpspi a, sp_bridge = ap_bridge a, sp_ready = rdy\<rparr>) \<and>
    (\<forall>slaves pos ns. bridge_run (cyclic_new slaves pos ns) (ap_bridge a)) \<and>
    (\<forall>l. codes_held l tr = [1, 2, 3, 4, 5, 6])"
  by (rule init_establishes [OF assms])

theorem init_starts_runs_witness:
  "\<exists>cfg a regs port tr. board_cfg_of cargo_env = Some cfg \<and>
    app_init cfg (\<lambda>_. False) (phy22_hw (\<lambda>_. False)) \<lparr>ph_regs = \<lambda>_. 0, ph_link = False, ph_lost = True\<rparr> 0 0 (\<lambda>_. 0) =
      Some (a, regs, port, tr) \<and> codes_held (True, True, True) tr = [1, 2, 3, 4, 5, 6]"
proof -
  obtain cfg where cfg: "board_cfg_of cargo_env = Some cfg" using cargo_cfg by blast
  from init_starts_runs [OF cfg, of "\<lambda>_. False" "phy22_hw (\<lambda>_. False)" "\<lparr>ph_regs = \<lambda>_. 0, ph_link = False, ph_lost = True\<rparr>" 0 0 "\<lambda>_. 0"]
  obtain a regs port tr where
    "app_init cfg (\<lambda>_. False) (phy22_hw (\<lambda>_. False)) \<lparr>ph_regs = \<lambda>_. 0, ph_link = False, ph_lost = True\<rparr> 0 0 (\<lambda>_. 0) =
      Some (a, regs, port, tr)" "\<forall>l. codes_held l tr = [1, 2, 3, 4, 5, 6]"
    by blast
  then show ?thesis using cfg by blast
qed

section \<open>The master\<close>

text \<open>C32: the master in every reachable state. Whatever requests were begun and polled, whatever the
  network, the cyclic interrupt, the host bridge and the shell did in between: the next poll, the next
  tick and the next host cycle return, the response buffer can be read, and the list of slaves is the
  ring in order, each slave under the station address of its position plus one.\<close>

theorem master_run_safe:
  assumes "master_run m" "host_wf LAYOUT h"
  shows "poll_op m \<noteq> None \<and> master_cyclic_tick lat m \<noteq> None \<and> host_cycle LAYOUT lat m h \<noteq> None \<and>
    master_sdo_buf m \<noteq> None \<and> length (ma_slaves m) \<le> 32 \<and>
    (\<forall>i<length (ma_slaves m). ring_pos (ma_slaves m ! i) = of_nat i \<and> station_addr (ma_slaves m ! i) = of_nat i + 1)"
proof -
  have inv: "master_inv m" by (rule master_run_inv [OF assms(1)])
  then have base: "base_inv m" by (simp add: master_inv_def)
  from inv have poll: "poll_op m \<noteq> None" by (rule poll_inv) auto
  have tick: "master_cyclic_tick lat m \<noteq> None" using tick_total [OF base, of lat] by auto
  have host: "host_cycle LAYOUT lat m h \<noteq> None" using host_cycle_total [OF base assms(2), of lat] by auto
  have buf: "master_sdo_buf m \<noteq> None" using base by (simp add: master_sdo_buf_def base_inv_def slice_def)
  show ?thesis
    using poll tick host buf base by (simp add: base_inv_def ring_order_def slave_at_def)
qed

theorem master_run_safe_witness:
  "poll_op (fst (master_begin (master_new idle_device) Rescan)) \<noteq> None"
  using master_run_safe [OF master_run.req [OF master_run.start [OF idle_device_wf]] host_new_wf, of Rescan 0] by simp

text \<open>C33: every request comes to an end. In a reachable state \<^verbatim>\<open>begin\<close> refuses a request for exactly the
  reasons listed in \<open>refusal\<close> and leaves the operation slot alone, or the polling loop ends, within the
  stated number of polls, with an outcome or an error, whatever happens to the master between polls.\<close>

fun refusal :: "master \<Rightarrow> master_request \<Rightarrow> ec_error option" where
  "refusal m Rescan = None"
| "refusal m StopCyclic = None"
| "refusal m (StartCyclic _) = (if ma_slaves m = [] then Some NoSuchSlave else None)"
| "refusal m (SetState slave _) = (if unat slave < length (ma_slaves m) then None else Some NoSuchSlave)"
| "refusal m (SdoUpload slave _ _) =
     (if unat slave < length (ma_slaves m)
      then if supports_coe (ma_slaves m ! unat slave) then None else Some CoeUnsupported
      else Some NoSuchSlave)"
| "refusal m (SdoDownload slave _ _ _ _) =
     (if unat slave < length (ma_slaves m)
      then if supports_coe (ma_slaves m ! unat slave) then None else Some CoeUnsupported
      else Some NoSuchSlave)"

theorem request_ends:
  assumes "master_run m" "request_ok r" "\<And>k m. master_env\<^sup>*\<^sup>* m (env k m)"
  shows "case refusal m r of
      Some e \<Rightarrow> snd (master_begin m r) = Inl e \<and> ma_op (fst (master_begin m r)) = ma_op m
    | None \<Rightarrow> snd (master_begin m r) = Inr () \<and>
        (\<exists>m' out. poll_until env (request_bound m r + 1) 0 (fst (master_begin m r)) = Some (m', Some out) \<and> ma_op m' = None)"
proof (cases "refusal m r")
  case (Some e)
  then show ?thesis
    by (cases r) (auto simp: master_begin_def begin_sdo_def slave_copy_def idx_def split: if_splits)
next
  case None
  then have ok: "snd (master_begin m r) = Inr ()"
    by (cases r) (auto simp: master_begin_def begin_sdo_def slave_copy_def idx_def split: if_splits)
  let ?m = "fst (master_begin m r)"
  have b: "master_begin m r = (?m, Inr ())" using ok by (metis prod.collapse)
  obtain p where p: "ma_op ?m = Some p" "op_left p \<le> request_bound m r" by (rule begin_left [OF b])
  have "master_inv ?m" by (rule begin_inv [OF master_run_inv [OF assms(1)] assms(2)])
  moreover have "op_left p < request_bound m r + 1" using p(2) by simp
  ultimately obtain m' out where "poll_until env (request_bound m r + 1) 0 ?m = Some (m', Some out)" "ma_op m' = None"
    using poll_until_ends [where env = env, OF _ p(1) _ assms(3)] by blast
  then have "\<exists>m' out. poll_until env (request_bound m r + 1) 0 ?m = Some (m', Some out) \<and> ma_op m' = None" by blast
  then show ?thesis unfolding None option.case using ok by (rule conjI [rotated])
qed

theorem request_ends_witness:
  "\<exists>m' out. poll_until (\<lambda>k m. m) (request_bound (master_new idle_device) Rescan + 1) 0
     (fst (master_begin (master_new idle_device) Rescan)) = Some (m', Some out) \<and> ma_op m' = None"
  using request_ends [OF master_run.start [OF idle_device_wf], of Rescan "\<lambda>k m. m"] by simp

text \<open>C34: stop always stops. Polled to its end, a stop request reports success under any network, even
  with every slave gone, and the cyclic engine is dropped.\<close>

theorem stop_always_stops:
  assumes "master_run m" "\<And>k m. master_env\<^sup>*\<^sup>* m (env k m)"
  shows "\<exists>m'. poll_until env (request_bound m StopCyclic + 1) 0 (fst (master_begin m StopCyclic)) =
    Some (m', Some (Inr CyclicStopped)) \<and> ma_cyclic m' = None"
proof -
  let ?m = "fst (master_begin m StopCyclic)"
  have b: "master_begin m StopCyclic = (?m, Inr ())" by (simp add: master_begin_def Let_def)
  obtain p where p: "ma_op ?m = Some p" "op_left p \<le> request_bound m StopCyclic" by (rule begin_left [OF b])
  have q: "\<exists>q. ma_op ?m = Some (OpStopCyclic q)" by (simp add: master_begin_def Let_def)
  have inv: "master_inv ?m" by (rule begin_inv [OF master_run_inv [OF assms(1)]]) simp
  have "op_left p < request_bound m StopCyclic + 1" using p(2) by simp
  then obtain m' r where run: "poll_until env (request_bound m StopCyclic + 1) 0 ?m = Some (m', Some r)"
    using poll_until_ends [where env = env, OF inv p(1) _ assms(2)] by blast
  obtain q where "ma_op ?m = Some (OpStopCyclic q)" using q by blast
  from stop_until [where env = env, OF run this inv assms(2)] run show ?thesis by blast
qed

theorem stop_always_stops_witness:
  "\<exists>m'. poll_until (\<lambda>k m. m) (request_bound (master_new idle_device) StopCyclic + 1) 0
     (fst (master_begin (master_new idle_device) StopCyclic)) = Some (m', Some (Inr CyclicStopped)) \<and> ma_cyclic m' = None"
  by (rule stop_always_stops [OF master_run.start [OF idle_device_wf]]) simp

text \<open>C35: a finished start. In every state with the invariant of the master (which C33's runs keep), when
  a poll reports that the cyclic engine was started, the engine is a new one over one slave per configured
  slave, in the configured order, each the scanned slave at the configured ring position; those slaves,
  and no others, are now recorded in SAFE-OP.\<close>

theorem start_brings_up:
  assumes "master_inv m" "poll_op m = Some (m', Some (Inr CyclicStarted))"
  shows "\<exists>ready ns. ready_of (ma_slaves m) (length (bus_slaves BUS)) ready \<and>
    ma_cyclic m' = Some (cyclic_new ready (bus_ref_clock_slave BUS) ns) \<and>
    ma_slaves m' = map (\<lambda>s. if station_addr s \<in> set (map cs_station ready)
      then s\<lparr>al_state := al_SAFEOP\<rparr> else s) (ma_slaves m)"
  by (rule started_engine [OF assms])

text \<open>The witness: the last poll of a bring-up, whose status reply shows SAFE-OP.\<close>

definition two_slaves :: "slave_info list" where
  "two_slaves = [slave_info_default\<lparr>station_addr := 1, ring_pos := 0, al_state := al_PREOP\<rparr>,
     slave_info_default\<lparr>station_addr := 2, ring_pos := 1, al_state := al_PREOP\<rparr>]"

definition last_change :: fsm_change where
  "last_change = (change_new 2 al_SAFEOP)\<lparr>fc_state := ReadStatus, fs_tx_len := 46,
     fs_pump := \<lparr>pump_sent = True, pump_expected = 7, pump_attempts = 0\<rparr>\<rparr>"

definition last_config :: fsm_slave_config where
  "last_config = (slave_config_new 2 (mailbox_of (two_slaves ! 1)) (bus_slaves BUS ! 1) dc_ref_reference)
     \<lparr>sc_phase := ToSafeop, sc_change := Some last_change\<rparr>"

definition nearly_started :: master where
  "nearly_started = (master_new (receiving (frame_bytes [(request 7 Fprd 2 reg_AL_STATUS [al_SAFEOP, 0])\<lparr>dg_wkc := 1\<rparr>])))
     \<lparr>ma_slaves := two_slaves,
      ma_op := Some (OpStartCyclic \<lparr>cq_idx = 1, cq_fsm = Some last_config,
        cq_ready = [\<lparr>cs_station = 1, cs_ring_pos = 0\<rparr>, \<lparr>cs_station = 2, cs_ring_pos = 1\<rparr>]\<rparr> 1000000)\<rparr>"

lemma nearly_started_inv: "master_inv nearly_started"
proof -
  have "length (frame_bytes [(request 7 Fprd 2 reg_AL_STATUS [al_SAFEOP, 0])\<lparr>dg_wkc := 1\<rparr>]) \<le> 1522" by code_simp
  note dev = receiving_wf [OF this]
  have ring: "ring_order two_slaves" "length two_slaves = 2"
    by (auto simp: ring_order_def two_slaves_def slave_at_def slave_info_default_def less_Suc_eq)
  have "change_inv last_change" "change_left last_change \<le> change_full"
    by (simp_all add: last_change_def change_inv_def chan_wf_def change_new_def PUMP_MAX_ATTEMPTS_def MAX_STATE_WAITS_def
        change_left_def stage_left_def change_rank_def chan_left_def change_full_def)
  then have "slave_config_inv last_config"
    by (simp add: last_config_def slave_config_inv_def sub_ok_def chan_wf_def slave_config_new_def pump_new_def)
  moreover have "seq_ready two_slaves \<lparr>cq_idx = 1, cq_fsm = Some last_config,
      cq_ready = [\<lparr>cs_station = 1, cs_ring_pos = 0\<rparr>, \<lparr>cs_station = 2, cs_ring_pos = 1\<rparr>]\<rparr>"
    by (auto simp: seq_ready_def ready_of_def two_slaves_def slave_info_default_def less_Suc_eq BUS_def SLAVES_def)
  ultimately show ?thesis
    using dev ring
    by (simp add: master_inv_def base_inv_def nearly_started_def master_new_def config_seq_inv_def)
qed

lemma nearly_started_poll: "map_option snd (poll_op nearly_started) = Some (Some (Inr CyclicStarted))"
  by code_simp

theorem start_brings_up_witness:
  "\<exists>m'. poll_op nearly_started = Some (m', Some (Inr CyclicStarted)) \<and> ma_cyclic m' \<noteq> None"
proof -
  obtain m' where m': "poll_op nearly_started = Some (m', Some (Inr CyclicStarted))"
    using nearly_started_poll by auto
  then show ?thesis using start_brings_up [OF nearly_started_inv m'] by auto
qed

section \<open>The command line\<close>

text \<open>C36: commands are understood. A command typed in the usual spelling (positions and values decimal,
  indices hexadecimal) is parsed back to exactly that command; this covers state
  requests, SDO transfers of every type, start, stop, rescan and pin access.\<close>

theorem commands_read_back:
  assumes "cmd_ok c"
  shows "cmd_parse (unwords (cmd_words c)) = Some c"
  by (rule cmd_parse_show [OF assms])

theorem commands_read_back_witness:
  "cmd_parse ''download -p3 -tuint16 0x6040 0 271'' = Some (CmdDownload 3 0x6040 0 (TYPES ! 5) [15, 1, 0, 0] 2)"
proof -
  have ok: "cmd_ok (CmdDownload 3 0x6040 0 (TYPES ! 5) [15, 1, 0, 0] 2)" by code_simp
  have typed: "unwords (cmd_words (CmdDownload 3 0x6040 0 (TYPES ! 5) [15, 1, 0, 0] 2)) =
      ''download -p3 -tuint16 0x6040 0 271''"
    by (simp add: hex_arg_def lhex.simps dec.simps digit_def value_of_def TYPES_def)
  show ?thesis using commands_read_back [OF ok] unfolding typed .
qed


text \<open>C37: the operator's session. A line of printable characters ended by a carriage return becomes one
  command; whatever the line says and whatever network and interrupts do meanwhile, the worker finishes the
  command within the stated number of polls, with one reply; a bus command while the cyclic engine runs
  changes nothing. A response handed over as text reaches the terminal once and in order, however the endpoint
  stalls (the lines a rescan streams are only counted as its reply); and the
  period timer runs afterwards exactly if there is an engine (part of \<open>console_inv\<close>), so the next line finds
  the console in order.\<close>

theorem operator_session:
  assumes "console_inv fw" "\<And>k m. master_env\<^sup>*\<^sup>* m (env k m)"
    and "printable_text s" "s \<noteq> []" "length s \<le> 128" "us_line u = []" "us_cmd u = None"
  shows "\<exists>c fw' wk' rep. cmd_parse s = Some c \<and> edit_bytes u (as_bytes s @ [13]) = Some (u\<lparr>us_line := [], us_cmd := Some c\<rparr>) \<and>
    worker_command bld link env (command_bound (fw_master fw) c) lay hb now (fw, wk) c = Some (fw', wk', Some rep, True) \<and>
    console_inv fw' \<and> (cyclic_active (fw_master fw) \<and> busy_refused c \<longrightarrow> fw' = fw) \<and>
    (\<forall>out rs sent rest. rep = Response out \<and> WriteError \<notin> set rs \<and> usb_drains rs (set_lines out) = (sent, rest) \<longrightarrow>
       sent @ out_remaining rest = flat out)"
proof -
  obtain c where c: "cmd_parse s = Some c" using cmd_parse_total [of s] by blast
  obtain fw' wk' rep where w:
    "worker_command bld link env (command_bound (fw_master fw) c) lay hb now (fw, wk) c = Some (fw', wk', Some rep, True)"
    "console_inv fw'" "case rep of Streamed lines \<Rightarrow> c = CmdRescan | Response out \<Rightarrow> resp_ok out"
    "cyclic_active (fw_master fw) \<and> busy_refused c \<longrightarrow> fw' = fw"
    using worker_finishes [where env = env, OF assms(1) cmd_parse_ok [OF c] assms(2)] by blast
  have "sent @ out_remaining rest = flat out"
    if "rep = Response out" "WriteError \<notin> set rs" "usb_drains rs (set_lines out) = (sent, rest)" for out rs sent rest
    using that w(3) drains_split [of "set_lines out" rs sent rest] set_lines_whole [of out]
    by (simp add: out_wf_def out_remaining_def)
  then show ?thesis using c w edit_line [OF assms(3-7) c] by blast
qed

definition booted :: firmware where
  "booted = \<lparr>fw_master = master_new idle_device, fw_pit = \<lparr>pit_ldval = 0, pit_on = False\<rparr>,
     fw_crash = \<lparr>cl_magic = 0, cl_kind = 0, cl_pc = 0, cl_lr = 0, cl_sp_frame = 0, cl_msp = 0, cl_r0 = 0, cl_r1 = 0,
       cl_r2 = 0, cl_r3 = 0, cl_r12 = 0, cl_xpsr = 0, cl_cfsr = 0, cl_hfsr = 0, cl_bfar = 0, cl_mmfar = 0,
       cl_msg_len = 0, cl_msg = replicate 96 0\<rparr>\<rparr>"

lemma booted_inv: "console_inv booted"
  using master_run_inv [OF master_run.start [OF idle_device_wf]]
  by (simp add: console_inv_def booted_def master_new_def cyclic_active_def)

theorem operator_session_witness:
  "\<exists>u' fw' wk' rep. edit_bytes \<lparr>us_line = [], us_banner_done = True, us_banner_line = 2, us_cmd = None, us_out = ecat_out_new\<rparr>
      (as_bytes ''rescan'' @ [13]) = Some u' \<and> us_cmd u' = Some CmdRescan \<and>
    worker_command \<lparr>fw_name = ''fw'', fw_version = ''1'', fw_tag = ''t'', fw_core_hz = 600000000\<rparr> True (\<lambda>k m. m)
      (command_bound (fw_master booted) CmdRescan) LAYOUT (host_new LAYOUT) 0
      (booted, \<lparr>wk_monitor_on = False, wk_mon_running = False, wk_last_mon = 0\<rparr>) CmdRescan = Some (fw', wk', Some rep, True)"
proof -
  have p: "cmd_parse ''rescan'' = Some CmdRescan" by code_simp
  have s: "printable_text ''rescan''" by code_simp
  show ?thesis
    using operator_session [where s = "''rescan''" and env = "\<lambda>k m. m" and lay = LAYOUT and hb = "host_new LAYOUT" and now = 0
        and fw = booted and link = True
        and u = "\<lparr>us_line = [], us_banner_done = True, us_banner_line = 2, us_cmd = None, us_out = ecat_out_new\<rparr>"
        and bld = "\<lparr>fw_name = ''fw'', fw_version = ''1'', fw_tag = ''t'', fw_core_hz = 600000000\<rparr>"
        and wk = "\<lparr>wk_monitor_on = False, wk_mon_running = False, wk_last_mon = 0\<rparr>", OF booted_inv _ s]
    unfolding p by fastforce
qed

section \<open>The host's wire\<close>

text \<open>C38: the exchange with the host. As long as the interrupt is served before its FIFO overflows and every
  frame is clocked to its end, the port, byte by byte through the FIFOs and with the cyclic interrupt in
  between, does what a conversation in whole frames does: each frame clocked out by the host is the frame
  the bridge takes in, and the bytes the host reads are the bridge's reply to its previous frame.\<close>

theorem spi_exchange:
  assumes "fifo_clock clk" "host_spi_new (frame_len LAYOUT) = Some (h, l)" "host_wf LAYOUT hb" "list_all (one_frame LAYOUT) frames"
  shows "\<exists>t miso. spi_run clk LAYOUT (concat frames) \<lparr>sp_dev = h, sp_regs = l, sp_bridge = hb, sp_ready = rdy\<rparr> = Some (t, miso) \<and>
    conversation LAYOUT hb (replicate (frame_len LAYOUT) 0) (map (\<lambda>evs. (engine_of evs, clocked evs)) frames) =
      Some (sp_bridge t, miso)"
proof -
  have "frame_len LAYOUT \<le> 600" by code_simp
  then have "spi_ready LAYOUT (replicate (frame_len LAYOUT) 0) \<lparr>sp_dev = h, sp_regs = l, sp_bridge = hb, sp_ready = rdy\<rparr>"
    using spi_init [of LAYOUT hb rdy] assms(2,3) by auto
  from spi_conversation [OF assms(1) this assms(4)] show ?thesis by auto
qed

text \<open>A frame served after every eighth byte.\<close>

fun served :: "nat \<Rightarrow> bytes \<Rightarrow> spi_event list" where
  "served k [] = [Irq]"
| "served k (b # bs) = (if k = 0 then Irq # Clock b # served 7 bs else Clock b # served (k - 1) bs)"

lemma served_left: "frame_left (length f) (served k f)"
  by (induction k f rule: served.induct) auto

lemma served_keeps: "k \<le> j \<Longrightarrow> j \<le> 16 \<Longrightarrow> keeps_up j (served k f)"
  by (induction k f arbitrary: j rule: served.induct) auto

lemma served_engine: "list_all (engine_keeps lay) (served k f)"
  by (induction k f rule: served.induct) auto

lemma served_clocked: "clocked (served k f) = f"
  by (induction k f rule: served.induct) auto

text \<open>FIFOs that keep their contents and flag an underrun or overrun.\<close>

definition plain_clock :: clocking where
  "plain_clock b l =
     (l\<lparr>lp_rx := lp_rx l @ (if length (lp_rx l) < 16 then [b] else []), lp_tx := tl (lp_tx l), lp_tef := lp_tef l \<or> lp_tx l = [],
        lp_ref := lp_ref l \<or> 16 \<le> length (lp_rx l)\<rparr>, hd (lp_tx l @ [0]))"

lemma plain_clock_fifo: "fifo_clock plain_clock"
  by (simp add: fifo_clock_def plain_clock_def hd_append)

definition long_frame :: bytes where
  "long_frame = stop_frame @ replicate (frame_len LAYOUT - length stop_frame) 0"

theorem spi_exchange_witness:
  "\<exists>h l t. host_spi_new (frame_len LAYOUT) = Some (h, l) \<and>
    spi_run plain_clock LAYOUT (served 8 long_frame) \<lparr>sp_dev = h, sp_regs = l, sp_bridge = host_new LAYOUT, sp_ready = False\<rparr> =
      Some (t, replicate (frame_len LAYOUT) 0) \<and>
    host_ingest LAYOUT (host_new LAYOUT) long_frame = Some (sp_bridge t)"
proof -
  have len: "frame_len LAYOUT \<le> 600" "length long_frame = frame_len LAYOUT" by code_simp+
  obtain h l where hl: "host_spi_new (frame_len LAYOUT) = Some (h, l)"
    using spi_init [OF len(1) host_new_wf, of False] by blast
  have "one_frame LAYOUT (served 8 long_frame)"
    using served_left [of long_frame 8] served_keeps [of 8 16 long_frame] served_engine [of LAYOUT 8 long_frame] len(2)
    by (simp add: one_frame_def)
  moreover have "engine_of (served k f) hb = hb" for k f hb
    by (induction k f rule: served.induct) auto
  ultimately show ?thesis
    using spi_exchange [OF plain_clock_fifo hl host_new_wf, of "[served 8 long_frame]" False] hl
    by (auto simp: served_clocked split: bind_splits)
qed

section \<open>The register server\<close>

text \<open>C39: the Modbus slave is a map. Over any sequence of requests, however malformed, the slave with the
  default registers returns, answers exactly what the reference server over a finite map answers
  (exceptions included), and its table stays that map.\<close>

theorem modbus_refines:
  "\<exists>m m' rs. load_register_map modbus_new USER_REGISTERS = Some m \<and>
    bank_of m = map_of (map (\<lambda>d. (rd_address d, rd_default_value d)) USER_REGISTERS) \<and>
    modbus_session m fs = Some (m', rs) \<and> (bank_of m', rs) = bank_session (bank_of m) fs"
proof -
  obtain m where "load_register_map modbus_new USER_REGISTERS = Some m" "modbus_inv m"
      "bank_of m = map_of (map (\<lambda>d. (rd_address d, rd_default_value d)) USER_REGISTERS)"
    using default_map_loads by blast
  then show ?thesis using session_refines [of m fs] by blast
qed

text \<open>C40: Modbus over TCP. On a W5500 that works as its data sheet says, in the midst of arriving bytes,
  acknowledgements and commands accepted late, a poll that finds the connection open and at least eight
  bytes received serves exactly the next bytes of the stream, at most 260: if the connection is still there
  afterwards, those bytes have been taken from the receive ring, the bytes given to the peer are those before
  and the answer of the reference server, across the wrap-around of both rings, the registers are those of
  the reference server afterwards, and the socket is ready for the next poll. It starts with room for an
  answer in the transmit ring (the code stops waiting for room after its limit). A connection that breaks
  meanwhile, or a command register that stays set beyond the code's limit, leaves nothing to be said of the
  socket; the poll returns as well.\<close>

theorem modbus_over_tcp:
  assumes "w5500_tcp xf sock" "modbus_inv m" "sock s = Connected k" "tcp_idle k"
    "unat (tk_tx_wr k - tk_tx_base k) + 260 \<le> 2048"
    "read_socket0_u8 xf SOCKET_STATUS s = Some (s1, Inr SOCKET_STATUS_ESTABLISHED)"
    "read_socket0_u16 xf SOCKET_RX_RECEIVED_SIZE s1 = Some (s2, Inr v)"
    "n = min (unat v) 260" "8 \<le> n"
  shows "\<exists>s' m'. poll_modbus_tcp xf m port s = Some (s', m', Inr True) \<and> modbus_inv m' \<and>
    (\<forall>k'. sock s' = Connected k' \<longrightarrow> tcp_idle k' \<and> prefix (tk_in k) (tk_in k') \<and> tk_taken k' = tk_taken k + n \<and>
      (\<exists>resp. bank_serve (bank_of m) (take n (drop (tk_taken k) (tk_in k'))) = (bank_of m', Some resp) \<and>
        tcp_sent k' = tcp_sent k @ resp))"
proof -
  let ?R = "\<lambda>ar. tcp_await ar (tk_taken k) (tk_rx_rd k) (tk_tx_wr k) (tcp_sent k) (unat (tk_tx_wr k - tk_tx_base k))"
  have "up sock (?R (tk_in k)) s" using idle_await [OF assms(4)] assms(3) by (simp add: up_def)
  then have "up sock (?R (tk_in k)) s1" by (rule chip_status [OF assms(1) _ assms(6)])
  then obtain ar where ar: "prefix (tk_in k) ar" "unat v \<le> length (drop (tk_taken k) ar)" "up sock (?R ar) s2"
    using chip_size [OF assms(1) _ assms(7)] by blast
  then have n: "n \<le> length (drop (tk_taken k) ar)" using assms(8) by linarith
  obtain s' m' rq resp q' w' r' where served: "poll_modbus_tcp xf m port s = Some (s', m', Inr True)" "modbus_inv m'"
      "bank_serve (bank_of m) rq = (bank_of m', Some resp)"
      "up sock (\<lambda>k'. tcp_await ar (tk_taken k + n) q' w' (tcp_sent k @ resp) r' k' \<and> rq = take n (drop (tk_taken k) ar)) s'"
    using poll_modbus_tcp_serves [OF assms(1,2,6-9) ar(3) n assms(5)] by blast
  have fin: "tcp_idle k' \<and> prefix (tk_in k) (tk_in k') \<and> tk_taken k' = tk_taken k + n \<and> tcp_sent k' = tcp_sent k @ resp \<and>
      rq = take n (drop (tk_taken k) (tk_in k'))" if "sock s' = Connected k'" for k'
  proof -
    have k': "tcp_await ar (tk_taken k + n) q' w' (tcp_sent k @ resp) r' k'" "rq = take n (drop (tk_taken k) ar)"
      using served(4) that by (simp_all add: up_def)
    have rest: "tcp_idle k'" "prefix ar (tk_in k')" "tk_taken k' = tk_taken k + n" "tcp_sent k' = tcp_sent k @ resp"
      using await_idle [OF k'(1)] by simp_all
    show ?thesis using rest prefix_order.trans [OF ar(1) rest(2)] k'(2) prefix_slice [OF rest(2) n] by simp
  qed
  show ?thesis
  proof (intro exI conjI allI impI)
    fix k' assume k': "sock s' = Connected k'"
    show "bank_serve (bank_of m) (take n (drop (tk_taken k) (tk_in k'))) = (bank_of m', Some resp)"
      using served(3) fin [OF k'] by simp
  qed (rule served(1), rule served(2), use fin in simp_all)
qed

theorem modbus_over_tcp_witness:
  "\<exists>s' m' k'. poll_modbus_tcp script_port modbus_new 502 (Connected demo_tcp, demo_script) = Some (s', m', Inr True) \<and>
    fst s' = Connected k' \<and> tcp_idle k' \<and> tk_taken k' = 15 \<and> unread k' = [0, 2, 0] \<and>
    tcp_sent k' = [9, 9, 7, 7, 7, 7, 0, 1, 0, 0, 0, 5, 1, 3, 2, 0, 0]"
proof -
  let ?s = "(Connected demo_tcp, demo_script)"
  obtain s1 s2 where reads: "read_socket0_u8 script_port SOCKET_STATUS ?s = Some (s1, Inr SOCKET_STATUS_ESTABLISHED)"
      "read_socket0_u16 script_port SOCKET_RX_RECEIVED_SIZE s1 = Some (s2, Inr 12)"
    using demo_reads by blast
  have start: "fst ?s = Connected demo_tcp" "tcp_idle demo_tcp"
    and room: "unat (tk_tx_wr demo_tcp - tk_tx_base demo_tcp) + 260 \<le> 2048"
    and n: "(12 :: nat) = min (unat (12 :: u16)) 260" "8 \<le> (12 :: nat)"
    and k: "tk_taken demo_tcp = 3" "tcp_sent demo_tcp = [9, 9, 7, 7, 7, 7]"
    by (simp, code_simp, code_simp, simp, simp, simp add: demo_tcp_def, code_simp)
  obtain s' m' where served: "poll_modbus_tcp script_port modbus_new 502 ?s = Some (s', m', Inr True)"
      "\<forall>k'. fst s' = Connected k' \<longrightarrow> tcp_idle k' \<and> prefix (tk_in demo_tcp) (tk_in k') \<and> tk_taken k' = tk_taken demo_tcp + 12 \<and>
        (\<exists>resp. bank_serve (bank_of modbus_new) (take 12 (drop (tk_taken demo_tcp) (tk_in k'))) = (bank_of m', Some resp) \<and>
          tcp_sent k' = tcp_sent demo_tcp @ resp)"
    using modbus_over_tcp [where port = 502, OF script_chip conjunct1 [OF modbus_new_bank] start room reads n] by blast
  obtain k' where k': "fst s' = Connected k'" "tk_in k' = demo_stream" using demo_served served(1) by (auto split: tcp_state.splits)
  have rq: "take 12 (drop 3 demo_stream) = [0, 1, 0, 0, 0, 6, 1, 3, 0, 0, 0, 1]" "drop 15 demo_stream = [0, 2, 0]"
    by code_simp+
  have r: "bank_serve Map.empty [0, 1, 0, 0, 0, 6, 1, 3, 0, 0, 0, 1] = (Map.empty, Some [0, 1, 0, 0, 0, 5, 1, 3, 2, 0, 0])"
    by (rule prod_eqI, rule ext, code_simp, code_simp)
  have "tcp_idle k' \<and> tk_taken k' = 15 \<and> unread k' = [0, 2, 0] \<and> tcp_sent k' = [9, 9, 7, 7, 7, 7, 0, 1, 0, 0, 0, 5, 1, 3, 2, 0, 0]"
    using spec [OF served(2), of k'] k' by (auto simp: k rq r unread_def conjunct2 [OF modbus_new_bank])
  then show ?thesis using served(1) k'(1) by blast
qed

end
